(* ===== verification/Prelude.thy ===== *)
theory Prelude
  imports Main "HOL-Library.Word" "HOL-Library.Monad_Syntax"
begin

text \<open>
  The vocabulary shared by every component: C memory cells as lists with checked access, the C
  loops, a weakest-precondition predicate for computations that may abort, and the unsigned
  reading of machine words.

  A C function that can abort (a failing \<open>FKL_ASSERT\<close>), read or write outside an array, or
  loop for ever is a function into \<open>'a option\<close>; \<open>None\<close> stands for all three. A theorem of the form
  \<open>\<exists>r. f x = Some r \<and> \<dots>\<close> (in lemmas: \<open>wp (f x) (\<lambda>r. \<dots>)\<close>) therefore says that
  \<open>f\<close> returns, that no assertion fires and that every array access is in bounds.
\<close>

unbundle bit_operations_syntax

named_theorems wp_rules \<open>rules that step \<open>wp\<close> through the primitive operations\<close>
named_theorems word_nat \<open>machine words read as natural numbers\<close>

section \<open>Aborting computations\<close>

definition wp :: "'a option \<Rightarrow> ('a \<Rightarrow> bool) \<Rightarrow> bool" where
  "wp m Q = (case m of None \<Rightarrow> False | Some x \<Rightarrow> Q x)"

lemma wp_simps [simp]:
  "wp (Some x) Q = Q x"
  "wp None Q = False"
  "wp (Option.bind m f) Q = wp m (\<lambda>x. wp (f x) Q)"
  by (auto simp: wp_def split: option.splits Option.bind_splits)

lemma wp_iff: "wp m Q \<longleftrightarrow> (\<exists>x. m = Some x \<and> Q x)"
  by (cases m) auto

lemma wp_if [simp]: "wp (if b then m else n) Q = ((b \<longrightarrow> wp m Q) \<and> (\<not> b \<longrightarrow> wp n Q))"
  by simp

lemma wp_prod [simp]: "wp (case p of (x, y) \<Rightarrow> f x y) Q = (case p of (x, y) \<Rightarrow> wp (f x y) Q)"
  by (cases p) simp

lemma wp_let [simp]: "wp (Let x f) Q = (let y = x in wp (f y) Q)"
  by (simp add: Let_def)

lemma wp_mono: "wp m P \<Longrightarrow> (\<And>x. P x \<Longrightarrow> Q x) \<Longrightarrow> wp m Q"
  by (cases m) auto

lemma wp_bind: "wp m P \<Longrightarrow> (\<And>x. P x \<Longrightarrow> wp (f x) Q) \<Longrightarrow> wp (Option.bind m f) Q"
  by (cases m) auto

lemma wp_conj: "wp m P \<Longrightarrow> wp m Q \<Longrightarrow> wp m (\<lambda>x. P x \<and> Q x)"
  by (cases m) auto

lemma wpE:
  assumes "wp m P"
  obtains x where "m = Some x" and "P x"
  using assms by (cases m) auto

lemma wpI: "m = Some x \<Longrightarrow> P x \<Longrightarrow> wp m P"
  by simp

section \<open>Assertions and arrays\<close>

text \<open>\<open>FKL_ASSERT(b)\<close> of include/fakeLisp/common.h.\<close>

definition FKL_ASSERT :: "bool \<Rightarrow> unit option" where
  "FKL_ASSERT b = (if b then Some () else None)"

text \<open>
  An array read and an array write. A cell that \<open>malloc\<close> or \<open>realloc\<close> has not
  initialised holds \<open>uninit\<close>, of which nothing is known: no theorem of the development
  depends on its value.
\<close>

definition rd :: "'a list \<Rightarrow> nat \<Rightarrow> 'a option" where
  "rd xs i = (if i < length xs then Some (xs ! i) else None)"

definition wr :: "'a list \<Rightarrow> nat \<Rightarrow> 'a \<Rightarrow> 'a list option" where
  "wr xs i v = (if i < length xs then Some (xs[i := v]) else None)"

definition uninit :: "'a" where
  "uninit = undefined"

definition zrealloc :: "'a list \<Rightarrow> nat \<Rightarrow> 'a list" where
  "zrealloc xs n = take n xs @ replicate (n - length xs) uninit"

lemma wp_FKL_ASSERT [simp]: "wp (FKL_ASSERT b) Q \<longleftrightarrow> b \<and> Q ()"
  by (auto simp: FKL_ASSERT_def)

lemma wp_rd [simp]: "wp (rd xs i) Q \<longleftrightarrow> i < length xs \<and> Q (xs ! i)"
  by (auto simp: rd_def)

lemma wp_wr [simp]: "wp (wr xs i v) Q \<longleftrightarrow> i < length xs \<and> Q (xs[i := v])"
  by (auto simp: wr_def)

lemma length_zrealloc [simp]: "length (zrealloc xs n) = n"
  by (simp add: zrealloc_def)

lemma take_zrealloc [simp]: "k \<le> n \<Longrightarrow> k \<le> length xs \<Longrightarrow> take k (zrealloc xs n) = take k xs"
  by (simp add: zrealloc_def min_def)

lemma nth_zrealloc [simp]: "k < n \<Longrightarrow> k < length xs \<Longrightarrow> zrealloc xs n ! k = xs ! k"
  by (simp add: zrealloc_def nth_append)

section \<open>Loops\<close>

text \<open>\<open>for (; i < n; ++i) s = f(i, s);\<close>\<close>

function for_up :: "nat \<Rightarrow> nat \<Rightarrow> (nat \<Rightarrow> 's \<Rightarrow> 's option) \<Rightarrow> 's \<Rightarrow> 's option" where
  "for_up i n f s = (if i < n then Option.bind (f i s) (for_up (Suc i) n f) else Some s)"
  by pat_completeness auto
termination
  by (relation "measure (\<lambda>(i, n, f, s). n - i)") auto

declare for_up.simps [simp del]

text \<open>\<open>for (i = n; i-- > 0;) s = f(i, s);\<close>\<close>

fun for_down :: "nat \<Rightarrow> (nat \<Rightarrow> 's \<Rightarrow> 's option) \<Rightarrow> 's \<Rightarrow> 's option" where
  "for_down 0 f s = Some s"
| "for_down (Suc i) f s = Option.bind (f i s) (for_down i f)"

text \<open>\<open>while (b(s)) s = c(s);\<close> where nothing bounds the loop beforehand: \<open>None\<close> if it never ends.\<close>

partial_function (option) while_m :: "('s \<Rightarrow> bool) \<Rightarrow> ('s \<Rightarrow> 's option) \<Rightarrow> 's \<Rightarrow> 's option" where
  "while_m b c s = (if b s then Option.bind (c s) (while_m b c) else Some s)"

declare while_m.simps [code]

lemma for_up_ge [simp]: "n \<le> i \<Longrightarrow> for_up i n f s = Some s"
  by (simp add: for_up.simps)

lemma for_up_less: "i < n \<Longrightarrow> for_up i n f s = Option.bind (f i s) (for_up (Suc i) n f)"
  by (simp add: for_up.simps)

text \<open>The invariant rules: an invariant indexed by the loop variable, kept by the body.\<close>

lemma wp_for_up:
  assumes "I i s" and "i \<le> n"
    and "\<And>j t. i \<le> j \<Longrightarrow> j < n \<Longrightarrow> I j t \<Longrightarrow> wp (f j t) (I (Suc j))"
    and "\<And>t. I n t \<Longrightarrow> Q t"
  shows "wp (for_up i n f s) Q"
  using assms
proof (induction i n f s rule: for_up.induct)
  case (1 i n f s)
  show ?case
  proof (cases "i < n")
    case True
    with 1 have "wp (f i s) (I (Suc i))" by blast
    then obtain t where t: "f i s = Some t" "I (Suc i) t" by (rule wpE)
    have "wp (for_up (Suc i) n f t) Q"
      by (rule "1.IH") (use True t 1 in auto)
    with True t show ?thesis by (simp add: for_up_less)
  next
    case False
    with 1 show ?thesis by simp
  qed
qed

lemma wp_for_down:
  assumes "I n s"
    and "\<And>j t. j < n \<Longrightarrow> I (Suc j) t \<Longrightarrow> wp (f j t) (I j)"
    and "\<And>t. I 0 t \<Longrightarrow> Q t"
  shows "wp (for_down n f s) Q"
  using assms
proof (induction n arbitrary: s)
  case 0
  then show ?case by simp
next
  case (Suc n)
  from Suc.prems have "wp (f n s) (I n)" by simp
  then obtain t where t: "f n s = Some t" "I n t" by (rule wpE)
  have "wp (for_down n f t) Q"
    by (rule Suc.IH) (use t Suc.prems in auto)
  with t show ?case by simp
qed

lemma wp_while_m:
  fixes \<mu> :: "'s \<Rightarrow> nat"
  assumes "I s"
    and "\<And>t. I t \<Longrightarrow> b t \<Longrightarrow> wp (c t) (\<lambda>u. I u \<and> \<mu> u < \<mu> t)"
    and "\<And>t. I t \<Longrightarrow> \<not> b t \<Longrightarrow> Q t"
  shows "wp (while_m b c s) Q"
  using assms(1)
proof (induction "\<mu> s" arbitrary: s rule: less_induct)
  case less
  show ?case
  proof (cases "b s")
    case True
    with less assms(2) have "wp (c s) (\<lambda>u. I u \<and> \<mu> u < \<mu> s)" by blast
    then obtain u where "c s = Some u" "I u" "\<mu> u < \<mu> s" by (auto elim: wpE)
    with less True show ?thesis by (simp add: while_m.simps [of b c s])
  next
    case False
    with less assms(3) show ?thesis by (simp add: while_m.simps [of b c s])
  qed
qed

section \<open>Machine words as numbers\<close>

text \<open>
  \<open>i64\<close> and \<open>u64\<close> are the same 64 bits; the signed reading is \<open>sint\<close>, the unsigned
  one \<open>unat\<close>. \<open>c_int\<close> is a C \<open>int\<close> as its 32 bits.
\<close>

type_synonym u8 = "8 word"
type_synonym u16 = "16 word"
type_synonym u32 = "32 word"
type_synonym u64 = "64 word"
type_synonym i64 = "64 word"
type_synonym c_int = "32 word"

lemma unat_add_less [word_nat]:
  "unat a + unat b < 2 ^ LENGTH('n) \<Longrightarrow> unat (a + b) = unat a + unat b" for a b :: "'n::len word"
  by (rule unat_add_lem [THEN iffD1])

lemma unat_mult_less [word_nat]:
  "unat a * unat b < 2 ^ LENGTH('n) \<Longrightarrow> unat (a * b) = unat a * unat b" for a b :: "'n::len word"
  by (rule unat_mult_lem [THEN iffD1])

lemma unat_drop_bit_div [word_nat]: "unat (drop_bit k w) = unat w div 2 ^ k" for w :: "'n::len word"
  by (subst unat_drop_bit_eq) (rule drop_bit_eq_div)

lemma unat_and_mask_mod [word_nat]: "unat (w AND mask k) = unat w mod 2 ^ k" for w :: "'n::len word"
  by (simp flip: take_bit_eq_mask take_bit_eq_mod unsigned_take_bit_eq)

lemma unat_less_64 [simp]: "unat w < 18446744073709551616" for w :: u64
  using unsigned_less [of w] by simp

lemma unat_less_32 [simp]: "unat w < 4294967296" for w :: u32
  using unsigned_less [of w] by simp

lemma uint_range_64: "0 \<le> uint w \<and> uint w < 18446744073709551616" for w :: u64
  using uint_range_size [of w] by (simp add: word_size)

lemma uint_range_32: "0 \<le> uint w \<and> uint w < 4294967296" for w :: u32
  using uint_range_size [of w] by (simp add: word_size)

lemma mod_once: "m \<le> x \<Longrightarrow> x < m + m \<Longrightarrow> x mod m = x - m" for x m :: int
  using minus_mod_self2 [of x m] mod_pos_pos_trivial [of "x - m" m] by simp

lemma mod_neg_once: "- m \<le> x \<Longrightarrow> x < 0 \<Longrightarrow> x mod m = x + m" for x m :: int
  using mod_add_self2 [of x m] mod_pos_pos_trivial [of "x + m" m] by simp

text \<open>The signed reading of a word from its unsigned one.\<close>

lemma sint_64: "sint w = (if uint w < 9223372036854775808 then uint w else uint w - 18446744073709551616)"
  for w :: u64
  using uint_range_64 [of w] mod_once [of 18446744073709551616 "uint w + 9223372036854775808"]
  by (auto simp: sint_uint signed_take_bit_eq_take_bit_shift take_bit_eq_mod)

lemma sint_32: "sint w = (if uint w < 2147483648 then uint w else uint w - 4294967296)" for w :: u32
  using uint_range_32 [of w] mod_once [of 4294967296 "uint w + 2147483648"]
  by (auto simp: sint_uint signed_take_bit_eq_take_bit_shift take_bit_eq_mod)

lemma unat_ucast_mod: "unat (ucast w :: 'b::len word) = unat w mod 2 ^ LENGTH('b)" for w :: "'a::len word"
  by (simp add: unsigned_ucast_eq take_bit_eq_mod)

lemma unat_ucast_small [word_nat]:
  "unat w < 2 ^ LENGTH('b) \<Longrightarrow> unat (ucast w :: 'b::len word) = unat w" for w :: "'a::len word"
  by (simp add: unat_ucast_mod)

lemma unat_ucast_32_64 [simp]: "unat (ucast w :: u64) = unat w" for w :: u32
  by (rule unat_ucast_small, rule less_trans [OF unat_less_32]) simp

lemma unat_eq_1: "unat w = Suc 0 \<longleftrightarrow> w = 1" for w :: u32
  by (simp add: word_unat_eq_iff)

lemma uint_small_iffs: "uint w = 0 \<longleftrightarrow> w = 0" "uint w = 1 \<longleftrightarrow> w = 1" "uint w \<noteq> - 1" for w :: u32
proof -
  show "uint w = 0 \<longleftrightarrow> w = 0" by (rule uint_0_iff)
  show "uint w = 1 \<longleftrightarrow> w = 1" by (metis uint_1 word_uint_eq_iff)
  show "uint w \<noteq> - 1" using uint_range_32 [of w] by linarith
qed

lemma or_push_bit: "unat a < 2 ^ k \<Longrightarrow> 2 ^ k * unat b + unat a < 2 ^ LENGTH('n)
  \<Longrightarrow> unat (a OR push_bit k b) = unat a + 2 ^ k * unat b" for a b :: "'n::len word"
proof -
  assume a: "unat a < 2 ^ k" and l: "2 ^ k * unat b + unat a < 2 ^ LENGTH('n)"
  have pb: "unat (push_bit k b) = push_bit k (unat b)"
  proof -
    have "push_bit k (unat b) < 2 ^ LENGTH('n)" using l by (simp add: push_bit_eq_mult mult.commute)
    then show ?thesis by (simp add: unsigned_push_bit_eq take_bit_nat_eq_self)
  qed
  have "bit (unat a) n \<Longrightarrow> \<not> bit (push_bit k (unat b)) n" for n
    using a by (metis bit_push_bit_iff bit_take_bit_iff not_le take_bit_nat_eq_self)
  then have "unat a AND push_bit k (unat b) = 0" by (auto simp: bit_eq_iff bit_and_iff)
  then have "unat a OR push_bit k (unat b) = unat a + push_bit k (unat b)"
    by (rule disjunctive_add_eq_or [symmetric])
  then show ?thesis unfolding unsigned_or_eq pb by (simp add: push_bit_eq_mult mult.commute)
qed

lemma le_add_mult: "Suc 0 \<le> k \<Longrightarrow> b \<le> x + b * k" for b :: nat
  by (metis le_add2 le_trans mult_le_mono2 nat_mult_1_right One_nat_def)

lemma list_split_nth: "i < length xs \<Longrightarrow> take (Suc i) xs = take i xs @ [xs ! i]"
  by (rule take_Suc_conv_app_nth)

lemma last_take_nth: "0 < n \<Longrightarrow> n \<le> length xs \<Longrightarrow> last (take n xs) = xs ! (n - 1)"
  by (subst last_conv_nth) (auto simp: min_def)

lemma drop_eq_nth: "drop i xs = drop i ys \<Longrightarrow> i \<le> j \<Longrightarrow> j < length ys \<Longrightarrow> length xs = length ys \<Longrightarrow> xs ! j = ys ! j"
  using nth_drop [of i xs "j - i"] nth_drop [of i ys "j - i"] by simp

lemma drop_Suc_eq: "drop i xs = drop i ys \<Longrightarrow> drop (Suc i) xs = drop (Suc i) ys"
  by (metis drop_Suc tl_drop)

end
