(* ===== verification/Digits.thy ===== *)
theory Digits
  imports Prelude
begin

text \<open>
  Positional arithmetic of the digit arrays of src/bigint.c: a big integer is a little-endian
  array of 30-bit digits, each in a 32-bit cell. \<open>val\<close> reads such an array as a number. The
  lemmas relate one step of a digit loop (mask with \<open>FKL_BIGINT_DIGIT_MASK\<close>, shift by
  \<open>FKL_BIGINT_DIGIT_SHIFT\<close>) to that number.
\<close>

section \<open>The constants of include/fakeLisp/bigint.h\<close>

type_synonym FklBigIntDigit = u32
type_synonym FklBigIntSDigit = u32
type_synonym FklBigIntTwoDigit = u64
type_synonym FklBigIntSTwoDigit = u64

abbreviation FKL_BIGINT_DIGIT_SHIFT :: nat where
  "FKL_BIGINT_DIGIT_SHIFT \<equiv> 30"

definition FKL_BIGINT_DIGIT_BASE :: "'n::len word" where
  "FKL_BIGINT_DIGIT_BASE = push_bit FKL_BIGINT_DIGIT_SHIFT 1"

definition FKL_BIGINT_DIGIT_MASK :: "'n::len word" where
  "FKL_BIGINT_DIGIT_MASK = FKL_BIGINT_DIGIT_BASE - 1"

definition BASE :: nat where
  "BASE = 2 ^ FKL_BIGINT_DIGIT_SHIFT"

lemma BASE_gt1 [simp]: "1 < BASE" and BASE_gt0 [simp]: "0 < BASE" and BASE_neq0 [simp]: "BASE \<noteq> 0"
  and BASE_ge1 [simp]: "Suc 0 \<le> BASE" and BASE_gt_Suc0 [simp]: "Suc 0 < BASE" and BASE_ge2: "2 \<le> BASE"
  by (simp_all add: BASE_def)

lemma mask_is_mask: "FKL_BIGINT_DIGIT_MASK = (mask 30 :: 'n::len word)"
  by (simp add: FKL_BIGINT_DIGIT_MASK_def FKL_BIGINT_DIGIT_BASE_def mask_eq_exp_minus_1 push_bit_of_1)

lemma unat_DIGIT_BASE: "unat (FKL_BIGINT_DIGIT_BASE :: u32) = BASE"
  by (simp add: FKL_BIGINT_DIGIT_BASE_def BASE_def push_bit_of_1)

lemma unat_lo [word_nat]: "unat (w AND FKL_BIGINT_DIGIT_MASK) = unat w mod BASE" for w :: "'n::len word"
  by (simp add: mask_is_mask unat_and_mask_mod BASE_def)

lemma unat_hi [word_nat]: "unat (drop_bit FKL_BIGINT_DIGIT_SHIFT w) = unat w div BASE" for w :: "'n::len word"
  by (simp add: unat_drop_bit_div BASE_def)

lemma unat_lo_less [simp]: "unat (w AND FKL_BIGINT_DIGIT_MASK) < BASE" for w :: "'n::len word"
  by (simp add: unat_lo)

lemma uint_less_BASE: "unat w < BASE \<Longrightarrow> uint w < 1073741824" for w :: "'n::len word"
proof -
  assume "unat w < BASE"
  then have "int (unat w) < int BASE" by (rule iffD2 [OF of_nat_less_iff])
  then show ?thesis by (simp add: BASE_def)
qed

lemma unat_lo_hi: "unat (w AND FKL_BIGINT_DIGIT_MASK) + BASE * unat (drop_bit FKL_BIGINT_DIGIT_SHIFT w) = unat w"
  for w :: "'n::len word"
  by (simp add: unat_lo unat_hi)

section \<open>The number a digit array stands for\<close>

fun val :: "u32 list \<Rightarrow> nat" where
  "val [] = 0"
| "val (d # ds) = unat d + BASE * val ds"

definition digits_ok :: "u32 list \<Rightarrow> bool" where
  "digits_ok ds \<longleftrightarrow> (\<forall>d \<in> set ds. unat d < BASE)"

lemma digits_ok_simps [simp]:
  "digits_ok []"
  "digits_ok (d # ds) \<longleftrightarrow> unat d < BASE \<and> digits_ok ds"
  "digits_ok (xs @ ys) \<longleftrightarrow> digits_ok xs \<and> digits_ok ys"
  by (auto simp: digits_ok_def)

lemma digits_ok_nth: "digits_ok (take n ds) \<Longrightarrow> i < n \<Longrightarrow> i < length ds \<Longrightarrow> unat (ds ! i) < BASE"
  using nth_mem [of i "take n ds"] by (auto simp: digits_ok_def)

lemma digits_ok_take: "digits_ok (take n ds) \<Longrightarrow> m \<le> n \<Longrightarrow> digits_ok (take m ds)"
  using set_take_subset [of m "take n ds"] by (auto simp: digits_ok_def min_def)

lemma digits_ok_take_Suc:
  "i < length ds \<Longrightarrow> digits_ok (take (Suc i) ds) \<longleftrightarrow> digits_ok (take i ds) \<and> unat (ds ! i) < BASE"
  by (auto simp: take_Suc_conv_app_nth)

lemma val_append: "val (xs @ ys) = val xs + BASE ^ length xs * val ys"
  by (induction xs) (auto simp: algebra_simps)

lemma val_snoc: "val (xs @ [d]) = val xs + BASE ^ length xs * unat d"
  by (simp add: val_append)

lemma val_take_Suc: "i < length ds \<Longrightarrow> val (take (Suc i) ds) = val (take i ds) + BASE ^ i * unat (ds ! i)"
  by (simp add: take_Suc_conv_app_nth val_snoc)

lemma val_take_drop: "i \<le> length ds \<Longrightarrow> val ds = val (take i ds) + BASE ^ i * val (drop i ds)"
  using val_append [of "take i ds" "drop i ds"] by simp

lemma val_replicate_0 [simp]: "val (replicate n 0) = 0"
  by (induction n) auto

lemma val_less: "digits_ok ds \<Longrightarrow> val ds < BASE ^ length ds"
proof (induction ds)
  case Nil
  then show ?case by simp
next
  case (Cons d ds)
  then have "unat d < BASE" and "Suc (val ds) \<le> BASE ^ length ds" by auto
  then have "unat d + BASE * val ds < BASE * Suc (val ds)" by simp
  also have "\<dots> \<le> BASE * BASE ^ length ds"
    using \<open>Suc (val ds) \<le> _\<close> by (rule mult_le_mono2)
  finally show ?case by simp
qed

lemma val_take_less: "digits_ok (take n ds) \<Longrightarrow> n \<le> length ds \<Longrightarrow> val (take n ds) < BASE ^ n"
  using val_less [of "take n ds"] by simp

lemma val_inj: "digits_ok xs \<Longrightarrow> digits_ok ys \<Longrightarrow> length xs = length ys \<Longrightarrow> val xs = val ys \<Longrightarrow> xs = ys"
proof (induction xs arbitrary: ys)
  case Nil
  then show ?case by simp
next
  case (Cons x xs)
  then obtain y ys' where ys: "ys = y # ys'" by (cases ys) auto
  with Cons.prems have eq: "unat x + BASE * val xs = unat y + BASE * val ys'"
    and lt: "unat x < BASE" "unat y < BASE" by auto
  from arg_cong [OF eq, of "\<lambda>n. n mod BASE"] lt have "unat x = unat y" by simp
  with eq have "val xs = val ys'" and "x = y" by (auto simp: word_unat_eq_iff)
  with Cons ys show ?case by auto
qed

text \<open>A number with a non-zero top digit is at least \<open>BASE ^ (n - 1)\<close>.\<close>

lemma val_ge_top: "ds \<noteq> [] \<Longrightarrow> last ds \<noteq> 0 \<Longrightarrow> BASE ^ (length ds - 1) \<le> val ds"
proof (induction ds rule: rev_induct)
  case Nil
  then show ?case by simp
next
  case (snoc d ds)
  then have "BASE ^ length ds * 1 \<le> BASE ^ length ds * unat d"
    by (intro mult_le_mono2) (simp add: Suc_le_eq unat_gt_0)
  then show ?case unfolding val_snoc length_append_singleton diff_Suc_1 by linarith
qed

lemma val_take_update_ge: "i \<le> j \<Longrightarrow> val (take i (ds[j := v])) = val (take i ds)"
  by (simp add: take_update_cancel)

lemma digits_ok_take_update_ge [simp]: "i \<le> j \<Longrightarrow> digits_ok (take i (ds[j := v])) = digits_ok (take i ds)"
  by (simp add: take_update_cancel)

text \<open>Writing the next digit of an array that is being filled from below.\<close>

lemma val_take_Suc_update:
  "i < length ds \<Longrightarrow> val (take (Suc i) (ds[i := v])) = val (take i ds) + BASE ^ i * unat v"
  by (simp add: val_take_Suc val_take_update_ge)

lemma digits_ok_take_Suc_update:
  "i < length ds \<Longrightarrow> digits_ok (take (Suc i) (ds[i := v])) \<longleftrightarrow> digits_ok (take i ds) \<and> unat v < BASE"
  by (simp add: digits_ok_take_Suc)

lemmas take_update = val_take_Suc_update digits_ok_take_Suc_update val_take_update_ge

lemma digit_step: "BASE ^ i * (s mod BASE) + BASE ^ Suc i * (s div BASE) = BASE ^ i * s"
proof -
  have "BASE ^ i * (s mod BASE) + BASE ^ Suc i * (s div BASE) = BASE ^ i * (s mod BASE + BASE * (s div BASE))"
    by (simp only: power_Suc distrib_left ac_simps)
  also have "s mod BASE + BASE * (s div BASE) = s" by simp
  finally show ?thesis .
qed

lemma val_cmp_top:
  assumes "digits_ok xs" "digits_ok ys" "length xs = length ys" "unat x < unat y"
  shows "val (xs @ [x]) < val (ys @ [y])"
proof -
  have "val xs < BASE ^ length xs" using assms(1) by (rule val_less)
  then have "val xs + BASE ^ length xs * unat x < BASE ^ length xs * Suc (unat x)" by simp
  also have "\<dots> \<le> BASE ^ length xs * unat y" using assms(4) by (intro mult_le_mono2) simp
  finally show ?thesis using assms(3) by (simp add: val_snoc)
qed

lemma val_length_less:
  assumes "digits_ok xs" "length xs < length ys" "ys \<noteq> []" "last ys \<noteq> 0"
  shows "val xs < val ys"
proof -
  have "val xs < BASE ^ length xs" using assms(1) by (rule val_less)
  also have "\<dots> \<le> BASE ^ (length ys - 1)" using assms(2) by (intro power_increasing) (auto intro: order_less_imp_le)
  also have "\<dots> \<le> val ys" using assms(3,4) by (rule val_ge_top)
  finally show ?thesis .
qed

end
