(* ===== verification/BigInt.thy ===== *)
theory BigInt
  imports Digits
begin

text \<open>
  The big integer of src/bigint.c: its state, its constructors, normalisation, assignment and
  comparison. \<open>bi_val\<close> is the integer a big integer stands for and \<open>bi_wf\<close> the
  invariant the operations keep: as many cells as \<open>size\<close> says, digits below the base, and a
  non-zero top digit.
\<close>

section \<open>State\<close>

record FklBigInt =
  digits :: "FklBigIntDigit list"
  num :: int
  bsize :: nat
  const_size :: bool

definition FKL_BIGINT_0 :: FklBigInt where
  "FKL_BIGINT_0 = \<lparr>digits = [], num = 0, bsize = 0, const_size = False\<rparr>"

definition fklAbs :: "int \<Rightarrow> int" where
  "fklAbs a = (if a > 0 then a else - a)"

text \<open>\<open>fklAbs\<close> on an \<open>int64_t\<close>, with the wrap-around of its most negative value.\<close>

definition fklAbs64 :: "i64 \<Rightarrow> u64" where
  "fklAbs64 a = (if sint a > 0 then a else - a)"

definition FKL_BIGINT_IS_0 :: "FklBigInt \<Rightarrow> bool option" where
  "FKL_BIGINT_IS_0 b =
     (if num b = 0 then Some True
      else if fklAbs (num b) = 1 then do { d \<leftarrow> rd (digits b) 0; Some (d = 0) }
      else Some False)"

definition FKL_BIGINT_IS_1 :: "FklBigInt \<Rightarrow> bool option" where
  "FKL_BIGINT_IS_1 b =
     (if num b = 1 then do { d \<leftarrow> rd (digits b) 0; Some (d = 1) } else Some False)"

definition FKL_BIGINT_IS_N1 :: "FklBigInt \<Rightarrow> bool option" where
  "FKL_BIGINT_IS_N1 b =
     (if num b = -1 then do { d \<leftarrow> rd (digits b) 0; Some (d = 1) } else Some False)"

section \<open>Constructors\<close>

definition zmalloc :: "nat \<Rightarrow> 'a list" where
  "zmalloc n = replicate n uninit"

definition memcpy :: "'a list \<Rightarrow> 'a list \<Rightarrow> nat \<Rightarrow> 'a list option" where
  "memcpy dst src n =
     (if n \<le> length dst \<and> n \<le> length src then Some (take n src @ drop n dst) else None)"

function count_digits_size :: "u64 \<Rightarrow> nat" where
  "count_digits_size i =
     (if i \<noteq> 0 then Suc (count_digits_size (drop_bit FKL_BIGINT_DIGIT_SHIFT i)) else 0)"
  by pat_completeness auto
termination
proof (relation "measure unat")
  fix i :: u64
  assume "i \<noteq> 0"
  then have "unat i div BASE < unat i" by (intro div_less_dividend) (auto simp: unat_gt_0)
  then show "(drop_bit FKL_BIGINT_DIGIT_SHIFT i, i) \<in> measure unat"
    by (simp only: in_measure unat_hi)
qed simp

declare count_digits_size.simps [simp del]

definition set_uint64_to_digits :: "FklBigIntDigit list \<Rightarrow> nat \<Rightarrow> u64 \<Rightarrow> FklBigIntDigit list option" where
  "set_uint64_to_digits ds n w = do {
     (ds, w) \<leftarrow> for_up 0 n (\<lambda>i (ds, w). do {
       ds \<leftarrow> wr ds i (ucast (w AND FKL_BIGINT_DIGIT_MASK));
       Some (ds, drop_bit FKL_BIGINT_DIGIT_SHIFT w) }) (ds, w);
     Some ds }"

definition fklInitBigInt0 :: FklBigInt where
  "fklInitBigInt0 = FKL_BIGINT_0"

definition fklInitBigInt1 :: "FklBigInt option" where
  "fklInitBigInt1 = do {
     let b = FKL_BIGINT_0\<lparr>num := 1, bsize := 1, digits := zmalloc 1\<rparr>;
     ds \<leftarrow> wr (digits b) 0 1;
     Some (b\<lparr>digits := ds\<rparr>) }"

definition fklInitBigIntN1 :: "FklBigInt option" where
  "fklInitBigIntN1 = do { b \<leftarrow> fklInitBigInt1; Some (b\<lparr>num := -1\<rparr>) }"

definition fklInitBigIntU :: "u64 \<Rightarrow> FklBigInt option" where
  "fklInitBigIntU w =
     (if w \<noteq> 0 then do {
        let n = count_digits_size w;
        ds \<leftarrow> set_uint64_to_digits (zmalloc n) n w;
        Some (FKL_BIGINT_0\<lparr>bsize := n, num := int n, digits := ds\<rparr>) }
      else Some FKL_BIGINT_0)"

definition fklInitBigIntI :: "i64 \<Rightarrow> FklBigInt option" where
  "fklInitBigIntI n = do {
     b \<leftarrow> fklInitBigIntU (fklAbs64 n);
     Some (if sint n < 0 then b\<lparr>num := - num b\<rparr> else b) }"

definition fklInitBigIntFromMem :: "int \<Rightarrow> FklBigIntDigit list \<Rightarrow> FklBigInt \<Rightarrow> FklBigInt" where
  "fklInitBigIntFromMem n mem t = t\<lparr>num := n, bsize := nat (fklAbs n), digits := mem\<rparr>"

section \<open>Size, normalisation, assignment\<close>

definition ensure_bigint_size :: "FklBigInt \<Rightarrow> nat \<Rightarrow> FklBigInt option" where
  "ensure_bigint_size to n =
     (if bsize to < n then do {
        FKL_ASSERT (\<not> const_size to);
        Some (to\<lparr>bsize := n, digits := zrealloc (digits to) n\<rparr>) }
      else Some to)"

text \<open>\<open>for (; i > 0 \<and> digits[i - 1] == 0; --i);\<close>\<close>

fun strip_zeros :: "FklBigIntDigit list \<Rightarrow> nat \<Rightarrow> nat option" where
  "strip_zeros ds 0 = Some 0"
| "strip_zeros ds (Suc i) = do { d \<leftarrow> rd ds i; if d = 0 then strip_zeros ds i else Some (Suc i) }"

definition bigint_normalize2 :: "int \<Rightarrow> FklBigIntDigit list \<Rightarrow> int option" where
  "bigint_normalize2 n ds = do {
     i \<leftarrow> strip_zeros ds (nat (fklAbs n));
     Some (if n < 0 then - int i else int i) }"

definition bigint_normalize :: "FklBigInt \<Rightarrow> FklBigInt option" where
  "bigint_normalize a = do {
     i \<leftarrow> strip_zeros (digits a) (nat (fklAbs (num a)));
     Some (a\<lparr>num := if num a < 0 then - int i else int i\<rparr>) }"

definition fklSetBigInt :: "FklBigInt \<Rightarrow> FklBigInt \<Rightarrow> FklBigInt option" where
  "fklSetBigInt to from = do {
     to \<leftarrow> ensure_bigint_size to (nat (fklAbs (num from)));
     let to = to\<lparr>num := num from\<rparr>;
     ds \<leftarrow> memcpy (digits to) (digits from) (nat (fklAbs (num to)));
     Some (to\<lparr>digits := ds\<rparr>) }"

definition fklInitBigInt :: "FklBigInt \<Rightarrow> FklBigInt option" where
  "fklInitBigInt b = fklSetBigInt FKL_BIGINT_0 b"

definition fklSetBigIntU :: "FklBigInt \<Rightarrow> u64 \<Rightarrow> FklBigInt option" where
  "fklSetBigIntU to v =
     (if v \<noteq> 0 then do {
        let c = count_digits_size v;
        to \<leftarrow> ensure_bigint_size (to\<lparr>num := int c\<rparr>) c;
        ds \<leftarrow> set_uint64_to_digits (digits to) c v;
        Some (to\<lparr>digits := ds\<rparr>) }
      else Some (to\<lparr>num := 0\<rparr>))"

definition fklSetBigIntI :: "FklBigInt \<Rightarrow> i64 \<Rightarrow> FklBigInt option" where
  "fklSetBigIntI to v = do {
     to \<leftarrow> fklSetBigIntU to (fklAbs64 v);
     Some (if sint v < 0 then to\<lparr>num := - num to\<rparr> else to) }"

definition set_bigint_u64_without_ensure :: "FklBigInt \<Rightarrow> u64 \<Rightarrow> FklBigInt option" where
  "set_bigint_u64_without_ensure to uv =
     (if uv \<noteq> 0 then do {
        let c = count_digits_size uv;
        FKL_ASSERT (c \<le> bsize to);
        ds \<leftarrow> set_uint64_to_digits (digits to) c uv;
        Some (to\<lparr>num := int c, digits := ds\<rparr>) }
      else Some (to\<lparr>num := 0\<rparr>))"

definition set_bigint_i64_without_ensure :: "FklBigInt \<Rightarrow> i64 \<Rightarrow> FklBigInt option" where
  "set_bigint_i64_without_ensure to v = do {
     to \<leftarrow> set_bigint_u64_without_ensure to (fklAbs64 v);
     Some (if sint v < 0 then to\<lparr>num := - num to\<rparr> else to) }"

text \<open>The temporary the \<open>...I\<close> and \<open>...U\<close> variants put a 64-bit operand in: three
  digits on the stack, of constant size.\<close>

abbreviation FKL_MAX_INT64_DIGITS_COUNT :: nat where
  "FKL_MAX_INT64_DIGITS_COUNT \<equiv> 3"

definition local_bigint :: FklBigInt where
  "local_bigint = FKL_BIGINT_0\<lparr>bsize := FKL_MAX_INT64_DIGITS_COUNT,
     digits := replicate FKL_MAX_INT64_DIGITS_COUNT uninit, const_size := True\<rparr>"

definition bigint_of_i64 :: "i64 \<Rightarrow> FklBigInt option" where
  "bigint_of_i64 v = set_bigint_i64_without_ensure local_bigint v"

definition bigint_of_u64 :: "u64 \<Rightarrow> FklBigInt option" where
  "bigint_of_u64 v = set_bigint_u64_without_ensure local_bigint v"

section \<open>Comparison\<close>

definition memeq :: "'a list \<Rightarrow> 'a list \<Rightarrow> nat \<Rightarrow> bool option" where
  "memeq xs ys n = (if n \<le> length xs \<and> n \<le> length ys then Some (take n xs = take n ys) else None)"

definition fklBigIntEqual :: "FklBigInt \<Rightarrow> FklBigInt \<Rightarrow> bool option" where
  "fklBigIntEqual a b =
     (if num a = num b then memeq (digits a) (digits b) (nat (fklAbs (num a))) else Some False)"

text \<open>\<open>while (--i >= 0 \<and> xs[i] == ys[i]);\<close> the index where the arrays differ, \<open>None\<close> for \<open>i < 0\<close>.\<close>

fun top_difference :: "FklBigIntDigit list \<Rightarrow> FklBigIntDigit list \<Rightarrow> nat \<Rightarrow> nat option option" where
  "top_difference xs ys 0 = Some None"
| "top_difference xs ys (Suc i) = do {
     x \<leftarrow> rd xs i; y \<leftarrow> rd ys i;
     if x = y then top_difference xs ys i else Some (Some i) }"

definition x_cmp :: "FklBigInt \<Rightarrow> FklBigInt \<Rightarrow> int option" where
  "x_cmp a b = do {
     r \<leftarrow> top_difference (digits a) (digits b) (nat (fklAbs (num a)));
     case r of None \<Rightarrow> Some 0
     | Some i \<Rightarrow> do { x \<leftarrow> rd (digits a) i; y \<leftarrow> rd (digits b) i; Some (sint (x - y)) } }"

definition sign_of :: "int \<Rightarrow> int" where
  "sign_of sign = (if sign < 0 then -1 else if sign > 0 then 1 else 0)"

definition fklBigIntCmp :: "FklBigInt \<Rightarrow> FklBigInt \<Rightarrow> int option" where
  "fklBigIntCmp a b = do {
     sign \<leftarrow> (if num a \<noteq> num b then Some (num a - num b)
       else do { s \<leftarrow> x_cmp a b; Some (if num a < 0 then - s else s) });
     Some (sign_of sign) }"

definition fklBigIntCmpI :: "FklBigInt \<Rightarrow> i64 \<Rightarrow> int option" where
  "fklBigIntCmpI a b = do { bi \<leftarrow> bigint_of_i64 b; fklBigIntCmp a bi }"

definition fklBigIntCmpU :: "FklBigInt \<Rightarrow> u64 \<Rightarrow> int option" where
  "fklBigIntCmpU a b = do { bi \<leftarrow> bigint_of_u64 b; fklBigIntCmp a bi }"

definition fklBigIntAbsCmp :: "FklBigInt \<Rightarrow> FklBigInt \<Rightarrow> int option" where
  "fklBigIntAbsCmp a b = do {
     let num_a = fklAbs (num a);
     let num_b = fklAbs (num b);
     sign \<leftarrow> (if num_a \<noteq> num_b then Some (num_a - num_b) else x_cmp a b);
     Some (sign_of sign) }"

definition fklIsBigIntOdd :: "FklBigInt \<Rightarrow> bool option" where
  "fklIsBigIntOdd b =
     (if num b \<noteq> 0 then do { d \<leftarrow> rd (digits b) 0; Some (d mod 2 \<noteq> 0) } else Some False)"

definition fklIsBigIntEven :: "FklBigInt \<Rightarrow> bool option" where
  "fklIsBigIntEven b = do { r \<leftarrow> fklIsBigIntOdd b; Some (\<not> r) }"

definition fklIsBigIntLe0 :: "FklBigInt \<Rightarrow> bool" where
  "fklIsBigIntLe0 b \<longleftrightarrow> num b \<le> 0"

definition fklIsBigIntLt0 :: "FklBigInt \<Rightarrow> bool" where
  "fklIsBigIntLt0 b \<longleftrightarrow> num b < 0"

section \<open>Abstraction and invariant\<close>

definition len :: "FklBigInt \<Rightarrow> nat" where
  "len b = nat \<bar>num b\<bar>"

definition used :: "FklBigInt \<Rightarrow> FklBigIntDigit list" where
  "used b = take (len b) (digits b)"

definition mag :: "FklBigInt \<Rightarrow> nat" where
  "mag b = val (used b)"

definition bi_val :: "FklBigInt \<Rightarrow> int" where
  "bi_val b = sgn (num b) * int (mag b)"

text \<open>\<open>bi_ok\<close>: enough cells, all digits below the base; \<open>bi_wf\<close>: normalised as well.\<close>

definition bi_ok :: "FklBigInt \<Rightarrow> bool" where
  "bi_ok b \<longleftrightarrow> length (digits b) = bsize b \<and> len b \<le> bsize b \<and> digits_ok (used b)"

definition bi_wf :: "FklBigInt \<Rightarrow> bool" where
  "bi_wf b \<longleftrightarrow> bi_ok b \<and> (num b \<noteq> 0 \<longrightarrow> digits b ! (len b - 1) \<noteq> 0)"

lemma nat_fklAbs [simp]: "nat (fklAbs n) = nat \<bar>n\<bar>"
  by (simp add: fklAbs_def)

lemma fklAbs_eq: "fklAbs n = \<bar>n\<bar>"
  by (simp add: fklAbs_def)

section \<open>Lemmas\<close>

lemma len_num [simp]: "num b = int n \<Longrightarrow> len b = n" "num b = - int n \<Longrightarrow> len b = n"
  by (simp_all add: len_def)

lemma len_eq_0 [simp]: "len b = 0 \<longleftrightarrow> num b = 0"
  by (auto simp: len_def)

lemma bi_ok_D:
  assumes "bi_ok b"
  shows "length (digits b) = bsize b" and "len b \<le> length (digits b)"
    and "digits_ok (take (len b) (digits b))" and "length (used b) = len b"
  using assms by (auto simp: bi_ok_def used_def)

lemma bi_wf_ok: "bi_wf b \<Longrightarrow> bi_ok b"
  by (simp add: bi_wf_def)

lemma mag_less: "bi_ok b \<Longrightarrow> mag b < BASE ^ len b"
  using val_less [of "used b"] by (auto simp: mag_def bi_ok_def used_def)

lemma top_digit_nonzero:
  assumes "n \<le> length ds" "0 < n" "digits_ok (take n ds)"
  shows "ds ! (n - 1) \<noteq> 0 \<longleftrightarrow> BASE ^ (n - 1) \<le> val (take n ds)"
proof -
  obtain m where n: "n = Suc m" using assms(2) by (cases n) auto
  have lt: "val (take m ds) < BASE ^ m"
    using assms n by (intro val_take_less) (auto intro: digits_ok_take)
  have v: "val (take n ds) = val (take m ds) + BASE ^ m * unat (ds ! m)"
    using assms n by (simp add: val_take_Suc)
  show ?thesis
  proof
    assume "ds ! (n - 1) \<noteq> 0"
    then have "Suc 0 \<le> unat (ds ! m)" using n by (simp add: Suc_le_eq unat_gt_0)
    then have "BASE ^ m \<le> val (take m ds) + BASE ^ m * unat (ds ! m)" by (rule le_add_mult)
    then show "BASE ^ (n - 1) \<le> val (take n ds)" using v n by simp
  next
    assume "BASE ^ (n - 1) \<le> val (take n ds)"
    then show "ds ! (n - 1) \<noteq> 0" using v n lt by auto
  qed
qed

lemma bi_wf_alt:
  "bi_wf b \<longleftrightarrow> bi_ok b \<and> (num b \<noteq> 0 \<longrightarrow> BASE ^ (len b - 1) \<le> mag b)"
proof (cases "bi_ok b \<and> num b \<noteq> 0")
  case True
  then have "digits b ! (len b - 1) \<noteq> 0 \<longleftrightarrow> BASE ^ (len b - 1) \<le> mag b"
    unfolding mag_def used_def by (intro top_digit_nonzero) (auto dest: bi_ok_D simp: len_def)
  with True show ?thesis by (simp add: bi_wf_def)
next
  case False
  then show ?thesis unfolding bi_wf_def by blast
qed

lemma mag_pos: "bi_wf b \<Longrightarrow> num b \<noteq> 0 \<Longrightarrow> 0 < mag b"
  by (auto simp: bi_wf_alt intro: less_le_trans [of 0 "BASE ^ (len b - 1)"])

lemma mag_0 [simp]: "num b = 0 \<Longrightarrow> mag b = 0"
  by (simp add: mag_def used_def len_def)

lemma bi_val_num_0 [simp]: "num b = 0 \<Longrightarrow> bi_val b = 0"
  by (simp add: bi_val_def)

lemma bi_val_cases:
  "bi_val b = (if num b < 0 then - int (mag b) else int (mag b))"
  by (auto simp: bi_val_def sgn_if)

lemma bi_val_0_iff: "bi_wf b \<Longrightarrow> bi_val b = 0 \<longleftrightarrow> num b = 0"
  by (cases "num b = 0") (auto simp: bi_val_cases dest: mag_pos)

lemma bi_val_neg_iff: "bi_wf b \<Longrightarrow> bi_val b < 0 \<longleftrightarrow> num b < 0"
  by (cases "num b = 0") (auto simp: bi_val_cases dest: mag_pos)

lemma abs_bi_val [simp]: "\<bar>bi_val b\<bar> = int (mag b)"
  by (simp add: bi_val_cases)

text \<open>Changing only the sign of \<open>num\<close>.\<close>

lemma used_num_neg [simp]: "used (b\<lparr>num := - num b\<rparr>) = used b"
  by (simp add: used_def len_def)

lemma len_num_neg [simp]: "len (b\<lparr>num := - num b\<rparr>) = len b"
  by (simp add: len_def)

lemma neg_num [simp]:
  "bi_ok (b\<lparr>num := - num b\<rparr>) = bi_ok b"
  "bi_wf (b\<lparr>num := - num b\<rparr>) = bi_wf b"
  "mag (b\<lparr>num := - num b\<rparr>) = mag b"
  "bi_val (b\<lparr>num := - num b\<rparr>) = - bi_val b"
  by (simp_all add: bi_ok_def bi_wf_def mag_def bi_val_def sgn_minus)

subsection \<open>Constructors\<close>

lemma bi_wf_0 [simp]: "bi_wf FKL_BIGINT_0" and bi_val_0 [simp]: "bi_val FKL_BIGINT_0 = 0"
  by (simp_all add: FKL_BIGINT_0_def bi_wf_def bi_ok_def len_def used_def)

lemma count_digits_size_upper: "unat i < BASE ^ count_digits_size i"
proof (induction i rule: count_digits_size.induct)
  case (1 i)
  show ?case
  proof (cases "i = 0")
    case True
    then show ?thesis by (simp add: count_digits_size.simps)
  next
    case False
    then have "unat i div BASE < BASE ^ count_digits_size (drop_bit 30 i)"
      using 1 by (simp add: unat_hi)
    then have "unat i < BASE * BASE ^ count_digits_size (drop_bit 30 i)"
      by (simp add: div_less_iff_less_mult mult.commute)
    then show ?thesis using False by (subst count_digits_size.simps) simp
  qed
qed

lemma count_digits_size_lower: "i \<noteq> 0 \<Longrightarrow> BASE ^ (count_digits_size i - 1) \<le> unat i"
proof (induction i rule: count_digits_size.induct)
  case (1 i)
  show ?case
  proof (cases "drop_bit 30 i = 0")
    case True
    then show ?thesis using 1 by (subst count_digits_size.simps)
        (simp add: count_digits_size.simps [of 0] Suc_le_eq unat_gt_0)
  next
    case False
    let ?c = "count_digits_size (drop_bit 30 i)"
    have c: "0 < ?c" using False by (subst count_digits_size.simps) simp
    have "BASE ^ (?c - 1) \<le> unat i div BASE" using 1 False by (simp add: unat_hi)
    then have "BASE * BASE ^ (?c - 1) \<le> unat i"
      by (simp add: less_eq_div_iff_mult_less_eq mult.commute)
    then have "BASE ^ ?c \<le> unat i" using c by (cases ?c) auto
    then show ?thesis using 1 by (subst count_digits_size.simps) simp
  qed
qed

lemma count_digits_size_0 [simp]: "count_digits_size 0 = 0"
  by (simp add: count_digits_size.simps)

lemma count_digits_size_pos [simp]: "0 < count_digits_size i \<longleftrightarrow> i \<noteq> 0"
  by (subst count_digits_size.simps) simp

lemma count_digits_size_le: "count_digits_size i \<le> 3"
proof (rule ccontr)
  assume "\<not> count_digits_size i \<le> 3"
  then have "i \<noteq> 0" and c: "3 \<le> count_digits_size i - 1" by auto
  have "BASE ^ 3 \<le> BASE ^ (count_digits_size i - 1)" using c by (rule power_increasing) simp
  also have "\<dots> \<le> unat i" using \<open>i \<noteq> 0\<close> by (rule count_digits_size_lower)
  also have "\<dots> < 2 ^ 64" by simp
  finally show False by (simp add: BASE_def)
qed

lemma wp_set_uint64:
  assumes "n \<le> length ds" "unat w < BASE ^ n"
  shows "wp (set_uint64_to_digits ds n w)
    (\<lambda>r. length r = length ds \<and> digits_ok (take n r) \<and> val (take n r) = unat w)"
  unfolding set_uint64_to_digits_def wp_simps
proof (rule wp_for_up [where I = "\<lambda>i (r, v). length r = length ds \<and> digits_ok (take i r)
      \<and> val (take i r) + BASE ^ i * unat v = unat w"])
  show "case (ds, w) of (r, v) \<Rightarrow> length r = length ds \<and> digits_ok (take 0 r)
      \<and> val (take 0 r) + BASE ^ 0 * unat v = unat w"
    by simp
next
  fix j t
  assume "0 \<le> j" "j < n" and inv: "case t of (r, v) \<Rightarrow> length r = length ds \<and> digits_ok (take j r)
      \<and> val (take j r) + BASE ^ j * unat v = unat w"
  obtain r v where t: "t = (r, v)" by (cases t)
  have j: "j < length r" using inv t \<open>j < n\<close> assms by simp
  have cast: "unat (ucast (v AND FKL_BIGINT_DIGIT_MASK) :: u32) = unat v mod BASE"
    by (simp add: unsigned_ucast_eq unat_lo) (simp add: take_bit_eq_mod BASE_def)
  have "unat v mod BASE + BASE * (unat v div BASE) = unat v" by simp
  then have "BASE ^ j * (unat v mod BASE) + BASE * BASE ^ j * (unat v div BASE) = BASE ^ j * unat v"
    by (metis distrib_left mult.assoc mult.commute)
  with inv t j show "wp (case t of (ds, w) \<Rightarrow> do {
       ds \<leftarrow> wr ds j (ucast (w AND FKL_BIGINT_DIGIT_MASK));
       Some (ds, drop_bit FKL_BIGINT_DIGIT_SHIFT w) })
     (\<lambda>(r, v). length r = length ds \<and> digits_ok (take (Suc j) r)
      \<and> val (take (Suc j) r) + BASE ^ Suc j * unat v = unat w)"
    by (simp add: take_update cast unat_hi)
next
  fix t
  assume "case t of (r, v) \<Rightarrow> length r = length ds \<and> digits_ok (take n r)
      \<and> val (take n r) + BASE ^ n * unat v = unat w"
  moreover obtain r v where t: "t = (r, v)" by (cases t)
  ultimately have inv: "length r = length ds" "digits_ok (take n r)"
      "val (take n r) + BASE ^ n * unat v = unat w" by auto
  have "unat v = 0"
  proof (rule ccontr)
    assume "unat v \<noteq> 0"
    then have "BASE ^ n * 1 \<le> BASE ^ n * unat v" by (intro mult_le_mono2) simp
    with inv assms show False by simp
  qed
  with inv t show "wp (case t of (ds, w) \<Rightarrow> Some ds)
     (\<lambda>r. length r = length ds \<and> digits_ok (take n r) \<and> val (take n r) = unat w)"
    by simp
qed simp

subsection \<open>Growing, normalising and assigning\<close>

text \<open>An owned big integer may grow; a wrapped stack or constant array may not.\<close>

definition bi_own :: "FklBigInt \<Rightarrow> bool" where
  "bi_own b \<longleftrightarrow> bi_wf b \<and> \<not> const_size b"

definition bi_room :: "FklBigInt \<Rightarrow> nat \<Rightarrow> bool" where
  "bi_room b n \<longleftrightarrow> length (digits b) = bsize b \<and> (const_size b \<longrightarrow> n \<le> bsize b)"

lemma bi_own_wf: "bi_own b \<Longrightarrow> bi_wf b" and bi_own_const: "bi_own b \<Longrightarrow> \<not> const_size b"
  by (simp_all add: bi_own_def)

lemma bi_own_room: "bi_own b \<Longrightarrow> bi_room b n"
  by (simp add: bi_own_def bi_room_def bi_wf_def bi_ok_def)

lemmas bi_weaken = bi_own_wf bi_own_const bi_own_room bi_wf_ok

lemma bi_own_0 [simp]: "bi_own FKL_BIGINT_0"
  by (simp add: bi_own_def) (simp add: FKL_BIGINT_0_def)

lemma bi_own_neg [simp]: "bi_own (b\<lparr>num := - num b\<rparr>) = bi_own b"
  by (simp add: bi_own_def)

lemma wp_ensure:
  assumes "bi_room b n"
  shows "wp (ensure_bigint_size b n) (\<lambda>r. num r = num b \<and> const_size r = const_size b
    \<and> bsize r = max (bsize b) n \<and> length (digits r) = bsize r \<and> take (bsize b) (digits r) = digits b)"
proof (cases "bsize b < n")
  case True
  then have "take (bsize b) (zrealloc (digits b) n) = digits b"
    using assms take_zrealloc [of "bsize b" n "digits b"] by (simp add: bi_room_def)
  with True assms show ?thesis by (auto simp: ensure_bigint_size_def bi_room_def max_def)
next
  case False
  with assms show ?thesis by (simp add: ensure_bigint_size_def bi_room_def max_def)
qed

lemma wp_ensure_ok:
  assumes "bi_ok b" "bi_room b n"
  shows "wp (ensure_bigint_size b n) (\<lambda>r. bi_ok r \<and> num r = num b \<and> const_size r = const_size b
    \<and> n \<le> bsize r \<and> used r = used b \<and> length (digits r) = bsize r)"
proof (rule wp_mono [OF wp_ensure [OF assms(2)]])
  fix r :: FklBigInt
  assume r: "num r = num b \<and> const_size r = const_size b \<and> bsize r = max (bsize b) n
    \<and> length (digits r) = bsize r \<and> take (bsize b) (digits r) = digits b"
  have "len b \<le> bsize b" using assms(1) by (simp add: bi_ok_def)
  then have "take (len b) (digits r) = take (len b) (take (bsize b) (digits r))"
    by (simp add: min_def)
  then have "used r = used b" using r by (simp add: used_def len_def)
  with r assms(1) show "bi_ok r \<and> num r = num b \<and> const_size r = const_size b
    \<and> n \<le> bsize r \<and> used r = used b \<and> length (digits r) = bsize r"
    by (auto simp: bi_ok_def len_def)
qed

lemma wp_strip_zeros:
  "n \<le> length ds \<Longrightarrow> wp (strip_zeros ds n)
     (\<lambda>i. i \<le> n \<and> val (take i ds) = val (take n ds) \<and> (0 < i \<longrightarrow> ds ! (i - 1) \<noteq> 0))"
proof (induction n)
  case 0
  then show ?case by simp
next
  case (Suc n)
  then have IH: "wp (strip_zeros ds n)
     (\<lambda>i. i \<le> n \<and> val (take i ds) = val (take n ds) \<and> (0 < i \<longrightarrow> ds ! (i - 1) \<noteq> 0))" by simp
  with Suc.prems show ?case by (auto simp: val_take_Suc intro: wp_mono)
qed

lemma strip_zeros_top: "0 < n \<Longrightarrow> n \<le> length ds \<Longrightarrow> ds ! (n - 1) \<noteq> 0 \<Longrightarrow> strip_zeros ds n = Some n"
  by (cases n) (auto simp: rd_def)

lemma wp_normalize:
  assumes "bi_ok a"
  shows "wp (bigint_normalize a) (\<lambda>r. bi_wf r \<and> bi_val r = bi_val a \<and> const_size r = const_size a
    \<and> digits r = digits a \<and> bsize r = bsize a)"
  unfolding bigint_normalize_def wp_simps nat_fklAbs
proof (rule wp_mono [OF wp_strip_zeros])
  show "nat \<bar>num a\<bar> \<le> length (digits a)"
    using assms by (auto simp: bi_ok_def len_def)
next
  fix i
  assume i: "i \<le> nat \<bar>num a\<bar> \<and> val (take i (digits a)) = val (take (nat \<bar>num a\<bar>) (digits a))
    \<and> (0 < i \<longrightarrow> digits a ! (i - 1) \<noteq> 0)"
  let ?r = "a\<lparr>num := if num a < 0 then - int i else int i\<rparr>"
  have len: "len ?r = i" by (simp add: len_def)
  have "digits_ok (take i (digits a))"
    using assms i by (auto simp: bi_ok_def used_def len_def intro: digits_ok_take)
  then have ok: "bi_ok ?r" using assms i len by (auto simp: bi_ok_def used_def len_def)
  have "mag ?r = mag a" using i len by (simp add: mag_def used_def) (simp add: len_def)
  moreover have "num ?r = 0 \<Longrightarrow> mag a = 0" using i by (auto simp: mag_def used_def len_def split: if_splits)
  ultimately have "bi_val ?r = bi_val a"
    using i by (auto simp: bi_val_cases)
  with ok i len show "bi_wf ?r \<and> bi_val ?r = bi_val a \<and> const_size ?r = const_size a
    \<and> digits ?r = digits a \<and> bsize ?r = bsize a"
    by (auto simp: bi_wf_def)
qed

lemma wp_fklSetBigInt:
  assumes "bi_wf from" "bi_room to (len from)"
  shows "wp (fklSetBigInt to from) (\<lambda>r. bi_wf r \<and> bi_val r = bi_val from
    \<and> num r = num from \<and> const_size r = const_size to)"
  unfolding fklSetBigInt_def wp_simps nat_fklAbs
proof (rule wp_mono [OF wp_ensure])
  show "bi_room to (nat \<bar>num from\<bar>)" using assms(2) by (simp add: len_def)
next
  fix x :: FklBigInt
  assume x: "num x = num to \<and> const_size x = const_size to \<and> bsize x = max (bsize to) (nat \<bar>num from\<bar>)
    \<and> length (digits x) = bsize x \<and> take (bsize to) (digits x) = digits to"
  have f: "length (used from) = len from" "len from \<le> length (digits from)"
    using assms(1) bi_ok_D [of "from"] by (simp_all add: bi_wf_ok)
  have l: "nat \<bar>num from\<bar> = len from" by (simp add: len_def)
  let ?r = "x\<lparr>num := num from, digits := used from @ drop (len from) (digits x)\<rparr>"
  have len: "len ?r = len from" by (simp add: len_def)
  have used: "used ?r = used from" using len f by (simp add: used_def)
  have "digits ?r ! (len from - 1) = digits from ! (len from - 1)" if "num from \<noteq> 0"
    using that f by (simp add: nth_append used_def len_def)
  then have "bi_wf ?r" using assms(1) x len used f l
    by (auto simp: bi_wf_def bi_ok_def)
  moreover have "bi_val ?r = bi_val from" using used by (simp add: bi_val_def mag_def)
  ultimately show "wp (let to = x\<lparr>num := num from\<rparr> in do {
        ds \<leftarrow> memcpy (digits to) (digits from) (nat \<bar>num to\<bar>);
        Some (to\<lparr>digits := ds\<rparr>) })
      (\<lambda>r. bi_wf r \<and> bi_val r = bi_val from \<and> num r = num from \<and> const_size r = const_size to)"
    using x f l by (simp add: memcpy_def used_def)
qed

text \<open>Filling a buffer with a 64-bit value: the three places of the code that do it.\<close>

lemma wp_fill_u64:
  assumes "count_digits_size w \<le> bsize b" "length (digits b) = bsize b" "w \<noteq> 0"
  shows "wp (set_uint64_to_digits (digits b) (count_digits_size w) w)
    (\<lambda>ds. bi_wf (b\<lparr>num := int (count_digits_size w), digits := ds\<rparr>)
       \<and> bi_val (b\<lparr>num := int (count_digits_size w), digits := ds\<rparr>) = uint w)"
proof (rule wp_mono [OF wp_set_uint64])
  show "count_digits_size w \<le> length (digits b)" using assms by simp
  show "unat w < BASE ^ count_digits_size w" by (rule count_digits_size_upper)
next
  fix r
  assume r: "length r = length (digits b) \<and> digits_ok (take (count_digits_size w) r)
    \<and> val (take (count_digits_size w) r) = unat w"
  let ?b = "b\<lparr>num := int (count_digits_size w), digits := r\<rparr>"
  have "mag ?b = unat w" using r by (simp add: mag_def used_def)
  then show "bi_wf ?b \<and> bi_val ?b = uint w"
    using r assms count_digits_size_lower [of w]
    by (auto simp: bi_wf_alt bi_ok_def used_def bi_val_cases)
qed

lemma bi_val_cong: "num a = num b \<Longrightarrow> digits a = digits b \<Longrightarrow> bi_val a = bi_val b"
  by (simp add: bi_val_def mag_def used_def len_def)

lemma fklAbs64_val [simp]: "uint (fklAbs64 v) = \<bar>sint v\<bar>"
proof (cases "uint v = 0")
  case True
  then show ?thesis by (simp add: fklAbs64_def sint_64 uint_word_ariths)
next
  case False
  then have "0 < uint v" using uint_range_64 [of v] by linarith
  with uint_range_64 [of v] show ?thesis
    by (auto simp: fklAbs64_def sint_64 uint_word_ariths zmod_zminus1_eq_if mod_pos_pos_trivial)
qed

lemma fklAbs64_0 [simp]: "fklAbs64 v = 0 \<longleftrightarrow> v = 0"
  by (simp add: fklAbs64_def)

text \<open>Every 64-bit constructor: the result is normalised and stands for the argument.\<close>

lemma wp_fklInitBigIntU: "wp (fklInitBigIntU w) (\<lambda>r. bi_own r \<and> bi_val r = uint w)"
proof (cases "w = 0")
  case True
  then show ?thesis by (simp add: fklInitBigIntU_def)
next
  case False
  let ?n = "count_digits_size w"
  let ?b = "FKL_BIGINT_0\<lparr>bsize := ?n, digits := zmalloc ?n\<rparr>"
  have "wp (set_uint64_to_digits (digits ?b) ?n w)
    (\<lambda>ds. bi_wf (?b\<lparr>num := int ?n, digits := ds\<rparr>) \<and> bi_val (?b\<lparr>num := int ?n, digits := ds\<rparr>) = uint w)"
    by (rule wp_fill_u64) (use False in \<open>simp_all add: zmalloc_def\<close>)
  with False show ?thesis
    by (auto simp: fklInitBigIntU_def bi_own_def FKL_BIGINT_0_def elim!: wp_mono)
qed

lemma wp_fklInitBigIntI: "wp (fklInitBigIntI v) (\<lambda>r. bi_own r \<and> bi_val r = sint v)"
proof -
  show ?thesis unfolding fklInitBigIntI_def wp_simps
    by (rule wp_mono [OF wp_fklInitBigIntU]) auto
qed

lemma wp_fklSetBigIntU:
  assumes "bi_room to (count_digits_size w)"
  shows "wp (fklSetBigIntU to w) (\<lambda>r. bi_wf r \<and> bi_val r = uint w \<and> const_size r = const_size to)"
proof (cases "w = 0")
  case True
  with assms show ?thesis
    by (simp add: fklSetBigIntU_def bi_wf_def bi_ok_def bi_room_def used_def len_def)
next
  case False
  let ?n = "count_digits_size w"
  have room: "bi_room (to\<lparr>num := int ?n\<rparr>) ?n" using assms by (simp add: bi_room_def)
  have eq: "fklSetBigIntU to w = do {
      x \<leftarrow> ensure_bigint_size (to\<lparr>num := int ?n\<rparr>) ?n;
      ds \<leftarrow> set_uint64_to_digits (digits x) ?n w; Some (x\<lparr>digits := ds\<rparr>) }"
    using False by (simp add: fklSetBigIntU_def Let_def)
  show ?thesis unfolding eq wp_simps
  proof (rule wp_mono [OF wp_ensure [OF room]])
    fix x :: FklBigInt
    assume "num x = num (to\<lparr>num := int ?n\<rparr>) \<and> const_size x = const_size (to\<lparr>num := int ?n\<rparr>)
      \<and> bsize x = max (bsize (to\<lparr>num := int ?n\<rparr>)) ?n \<and> length (digits x) = bsize x
      \<and> take (bsize (to\<lparr>num := int ?n\<rparr>)) (digits x) = digits (to\<lparr>num := int ?n\<rparr>)"
    then have x: "num x = int ?n" "const_size x = const_size to" "bsize x = max (bsize to) ?n"
      "length (digits x) = bsize x" by auto
    have upd: "x\<lparr>num := int ?n, digits := ds\<rparr> = x\<lparr>digits := ds\<rparr>" for ds using x(1) by (cases x) simp
    have "wp (set_uint64_to_digits (digits x) ?n w)
      (\<lambda>ds. bi_wf (x\<lparr>num := int ?n, digits := ds\<rparr>) \<and> bi_val (x\<lparr>num := int ?n, digits := ds\<rparr>) = uint w)"
      by (rule wp_fill_u64) (use False x in simp_all)
    then show "wp (set_uint64_to_digits (digits x) ?n w) (\<lambda>ds. bi_wf (x\<lparr>digits := ds\<rparr>)
        \<and> bi_val (x\<lparr>digits := ds\<rparr>) = uint w \<and> const_size (x\<lparr>digits := ds\<rparr>) = const_size to)"
      unfolding upd by (rule wp_mono) (use x in simp)
  qed
qed

lemma wp_fklSetBigIntI:
  assumes "bi_room to 3"
  shows "wp (fklSetBigIntI to v) (\<lambda>r. bi_wf r \<and> bi_val r = sint v \<and> const_size r = const_size to)"
proof -
  have "bi_room to (count_digits_size (fklAbs64 v))"
    using assms count_digits_size_le [of "fklAbs64 v"] by (auto simp: bi_room_def)
  then show ?thesis unfolding fklSetBigIntI_def wp_simps
    by (intro wp_mono [OF wp_fklSetBigIntU]) auto
qed

lemma wp_bigint_of_u64: "wp (bigint_of_u64 w) (\<lambda>r. bi_wf r \<and> bi_val r = uint w)"
proof (cases "w = 0")
  case True
  then show ?thesis
    by (simp add: bigint_of_u64_def set_bigint_u64_without_ensure_def local_bigint_def FKL_BIGINT_0_def
        bi_wf_def bi_ok_def used_def len_def)
next
  case False
  let ?n = "count_digits_size w"
  have n: "?n \<le> bsize local_bigint" "length (digits local_bigint) = bsize local_bigint"
    using count_digits_size_le [of w] by (simp_all add: local_bigint_def)
  from wp_fill_u64 [OF n False] n False show ?thesis
    by (simp add: bigint_of_u64_def set_bigint_u64_without_ensure_def Let_def)
qed

lemma bigint_of_i64_alt:
  "bigint_of_i64 v = do { r \<leftarrow> bigint_of_u64 (fklAbs64 v); Some (if sint v < 0 then r\<lparr>num := - num r\<rparr> else r) }"
  by (simp add: bigint_of_i64_def bigint_of_u64_def set_bigint_i64_without_ensure_def)

lemma wp_bigint_of_i64: "wp (bigint_of_i64 v) (\<lambda>r. bi_wf r \<and> bi_val r = sint v)"
proof -
  show ?thesis unfolding bigint_of_i64_alt wp_simps
    by (rule wp_mono [OF wp_bigint_of_u64]) auto
qed

subsection \<open>Comparison\<close>

lemma wp_top_difference:
  "n \<le> length xs \<Longrightarrow> n \<le> length ys \<Longrightarrow> wp (top_difference xs ys n) (\<lambda>r.
     (r = None \<longrightarrow> take n xs = take n ys) \<and>
     (\<forall>i. r = Some i \<longrightarrow> i < n \<and> xs ! i \<noteq> ys ! i \<and> drop (Suc i) (take n xs) = drop (Suc i) (take n ys)))"
proof (induction n)
  case 0
  then show ?case by simp
next
  case (Suc n)
  then have IH: "wp (top_difference xs ys n) (\<lambda>r.
     (r = None \<longrightarrow> take n xs = take n ys) \<and>
     (\<forall>i. r = Some i \<longrightarrow> i < n \<and> xs ! i \<noteq> ys ! i \<and> drop (Suc i) (take n xs) = drop (Suc i) (take n ys)))"
    by simp
  from Suc.prems show ?case
    by (auto simp: take_Suc_conv_app_nth intro!: wp_mono [OF IH])
qed

lemma val_split_at:
  assumes "i < n" "n \<le> length xs"
  shows "val (take n xs) = val (take i xs) + BASE ^ i * unat (xs ! i) + BASE ^ Suc i * val (drop (Suc i) (take n xs))"
proof -
  let ?rest = "drop (Suc i) (take n xs)"
  have l: "length (take (Suc i) xs) = Suc i" using assms by simp
  have "take (Suc i) (take n xs) = take (Suc i) xs" using assms by (simp add: min_def)
  then have "take n xs = take (Suc i) xs @ ?rest" by (metis append_take_drop_id)
  then have "val (take n xs) = val (take (Suc i) xs @ ?rest)" by (rule arg_cong)
  also have "\<dots> = val (take (Suc i) xs) + BASE ^ Suc i * val ?rest"
    by (simp only: val_append l)
  also have "val (take (Suc i) xs) = val (take i xs) + BASE ^ i * unat (xs ! i)"
    using assms by (simp only: val_take_Suc)
  finally show ?thesis .
qed

lemma val_less_at:
  assumes "i < n" "n \<le> length xs" "n \<le> length ys" "digits_ok (take n xs)" "unat (xs ! i) < unat (ys ! i)"
    "drop (Suc i) (take n xs) = drop (Suc i) (take n ys)"
  shows "val (take n xs) < val (take n ys)"
proof -
  have "val (take i xs) < BASE ^ i"
    using assms by (intro val_take_less) (auto intro: digits_ok_take)
  then have "val (take i xs) + BASE ^ i * unat (xs ! i) < BASE ^ i * Suc (unat (xs ! i))" by simp
  also have "\<dots> \<le> BASE ^ i * unat (ys ! i)" using assms(5) by (intro mult_le_mono2) simp
  finally show ?thesis
    using val_split_at [of i n xs] val_split_at [of i n ys] assms by simp
qed

lemma sint_digit_diff:
  "unat x < BASE \<Longrightarrow> unat y < BASE \<Longrightarrow> sint (x - y) = int (unat x) - int (unat y)" for x y :: u32
proof -
  assume "unat x < BASE" "unat y < BASE"
  then have lt: "uint x < 1073741824" "uint y < 1073741824"
    by (simp_all add: uint_less_BASE)
  obtain a b where ab: "uint x = a" "uint y = b" by blast
  then have "0 \<le> a" "0 \<le> b" "a < 1073741824" "b < 1073741824"
    using lt uint_range_32 [of x] uint_range_32 [of y] by auto
  then show ?thesis using ab by (simp add: sint_32 uint_sub_if')
qed

lemma wp_x_cmp:
  assumes "bi_ok a" "bi_ok b" "len a = len b"
  shows "wp (x_cmp a b) (\<lambda>r. sgn r = sgn (int (mag a) - int (mag b)))"
  unfolding x_cmp_def wp_simps nat_fklAbs len_def [symmetric]
proof (rule wp_mono [OF wp_top_difference])
  show la: "len a \<le> length (digits a)" and lb: "len a \<le> length (digits b)"
    using assms by (auto dest: bi_ok_D)
  fix r
  assume r: "(r = None \<longrightarrow> take (len a) (digits a) = take (len a) (digits b)) \<and>
     (\<forall>i. r = Some i \<longrightarrow> i < len a \<and> digits a ! i \<noteq> digits b ! i
       \<and> drop (Suc i) (take (len a) (digits a)) = drop (Suc i) (take (len a) (digits b)))"
  show "wp (case r of None \<Rightarrow> Some 0
     | Some i \<Rightarrow> do { x \<leftarrow> rd (digits a) i; y \<leftarrow> rd (digits b) i; Some (sint (x - y)) })
     (\<lambda>r. sgn r = sgn (int (mag a) - int (mag b)))"
  proof (cases r)
    case None
    with r assms show ?thesis by (simp add: mag_def used_def)
  next
    case (Some i)
    with r have i: "i < len a" "digits a ! i \<noteq> digits b ! i"
      and d: "drop (Suc i) (take (len a) (digits a)) = drop (Suc i) (take (len a) (digits b))" by auto
    have ok: "digits_ok (take (len a) (digits a))" "digits_ok (take (len a) (digits b))"
      using assms by (auto dest: bi_ok_D)
    then have lt: "unat (digits a ! i) < BASE" "unat (digits b ! i) < BASE"
      using i la lb by (auto intro: digits_ok_nth)
    have "unat (digits a ! i) < unat (digits b ! i) \<Longrightarrow> mag a < mag b"
      using val_less_at [OF i(1) la lb ok(1) _ d] assms by (simp add: mag_def used_def)
    moreover have "unat (digits b ! i) < unat (digits a ! i) \<Longrightarrow> mag b < mag a"
      using val_less_at [OF i(1) lb la ok(2) _ d [symmetric]] assms by (simp add: mag_def used_def)
    moreover have "unat (digits a ! i) \<noteq> unat (digits b ! i)" using i by (simp add: word_unat_eq_iff)
    ultimately show ?thesis using Some i la lb lt
      by (cases "unat (digits a ! i) < unat (digits b ! i)")
        (simp_all add: sint_digit_diff sgn_if del: of_nat_unat int_nat_eq)
  qed
qed

lemma mag_len_less: "bi_wf a \<Longrightarrow> bi_wf b \<Longrightarrow> len a < len b \<Longrightarrow> mag a < mag b"
  unfolding mag_def
  by (rule val_length_less) (auto simp: bi_wf_def bi_ok_def used_def last_take_nth)

lemma mag_eq_len: "bi_wf a \<Longrightarrow> bi_wf b \<Longrightarrow> mag a = mag b \<Longrightarrow> len a = len b"
  using mag_len_less [of a b] mag_len_less [of b a] by (cases "len a" "len b" rule: linorder_cases) auto

lemma wp_fklBigIntCmp:
  assumes "bi_wf a" "bi_wf b"
  shows "wp (fklBigIntCmp a b) (\<lambda>r. r = sgn (bi_val a - bi_val b))"
proof (cases "num a = num b")
  case True
  then have "len a = len b" by (simp add: len_def)
  with assms have x: "wp (x_cmp a b) (\<lambda>r. sgn r = sgn (int (mag a) - int (mag b)))"
    by (intro wp_x_cmp) (auto intro: bi_weaken)
  have s: "sign_of n = sgn n" for n by (simp add: sign_of_def sgn_if)
  have m: "sgn (int (mag b) - int (mag a)) = - sgn (int (mag a) - int (mag b))" by (simp add: sgn_if)
  show ?thesis using True
    by (auto simp: fklBigIntCmp_def s bi_val_cases sgn_minus m intro!: wp_mono [OF x])
next
  case False
  have s: "sign_of n = sgn n" for n by (simp add: sign_of_def sgn_if)
  have "sgn (num a - num b) = sgn (bi_val a - bi_val b)"
    using False mag_len_less [OF assms] mag_len_less [OF assms(2,1)] mag_pos [OF assms(1)] mag_pos [OF assms(2)]
    by (auto simp: bi_val_cases len_def sgn_if)
  with False show ?thesis by (simp add: fklBigIntCmp_def s)
qed

end
