(* ===== verification/BigIntAdd.thy ===== *)
theory BigIntAdd
  imports BigInt
begin

text \<open>
  Addition and subtraction of src/bigint.c, in place on the first operand as the code has them.
  The pointers \<open>digits_a\<close> and \<open>digits_b\<close> of the C loops may point into the array that
  is being written: \<open>swap\<close> says that they were exchanged, and the loops read the current
  contents of the written array. The two operands are different objects.
\<close>

section \<open>Operations\<close>

subsection \<open>Sum of magnitudes\<close>

definition x_add_loop1 ::
  "bool \<Rightarrow> FklBigIntDigit list \<Rightarrow> FklBigIntDigit list \<Rightarrow> nat \<Rightarrow> (FklBigIntDigit list \<times> FklBigIntDigit) option" where
  "x_add_loop1 swap ad bd num_b =
     for_up 0 num_b (\<lambda>i (ds, carry). do {
       x \<leftarrow> rd (if swap then bd else ds) i;
       y \<leftarrow> rd (if swap then ds else bd) i;
       let carry = carry + (x + y);
       ds \<leftarrow> wr ds i (carry AND FKL_BIGINT_DIGIT_MASK);
       Some (ds, drop_bit FKL_BIGINT_DIGIT_SHIFT carry) }) (ad, 0)"

definition x_add_loop2 ::
  "bool \<Rightarrow> FklBigIntDigit list \<Rightarrow> nat \<Rightarrow> nat \<Rightarrow> FklBigIntDigit list \<times> FklBigIntDigit
   \<Rightarrow> (FklBigIntDigit list \<times> FklBigIntDigit) option" where
  "x_add_loop2 swap bd num_b num_a =
     for_up num_b num_a (\<lambda>i (ds, carry). do {
       x \<leftarrow> rd (if swap then bd else ds) i;
       let carry = carry + x;
       ds \<leftarrow> wr ds i (carry AND FKL_BIGINT_DIGIT_MASK);
       Some (ds, drop_bit FKL_BIGINT_DIGIT_SHIFT carry) })"

definition x_add :: "FklBigInt \<Rightarrow> FklBigInt \<Rightarrow> FklBigInt option" where
  "x_add a b = do {
     let num_a = nat (fklAbs (num a));
     let num_b = nat (fklAbs (num b));
     let swap = num_a < num_b;
     let (num_a, num_b) = (if swap then (num_b, num_a) else (num_a, num_b));
     a \<leftarrow> ensure_bigint_size a (num_a + 1);
     (ds, carry) \<leftarrow> x_add_loop1 swap (digits a) (digits b) num_b;
     (ds, carry) \<leftarrow> x_add_loop2 swap (digits b) num_b num_a (ds, carry);
     ds \<leftarrow> wr ds num_a (carry AND FKL_BIGINT_DIGIT_MASK);
     bigint_normalize (a\<lparr>num := int num_a + 1, digits := ds\<rparr>) }"

subsection \<open>Difference of magnitudes\<close>

text \<open>The loops of \<open>x_sub\<close> and \<open>x_sub2\<close>, which write into the array \<open>ds\<close> and
  subtract \<open>ad\<close>, the array of the subtrahend's number, from the other one.\<close>

definition x_sub_loop1 ::
  "bool \<Rightarrow> FklBigIntDigit list \<Rightarrow> FklBigIntDigit list \<Rightarrow> nat \<Rightarrow> (FklBigIntDigit list \<times> FklBigIntDigit) option" where
  "x_sub_loop1 swap ad bd num_b =
     for_up 0 num_b (\<lambda>i (ds, borrow). do {
       x \<leftarrow> rd (if swap then bd else ds) i;
       y \<leftarrow> rd (if swap then ds else bd) i;
       let borrow = x - y - borrow;
       ds \<leftarrow> wr ds i (borrow AND FKL_BIGINT_DIGIT_MASK);
       Some (ds, drop_bit FKL_BIGINT_DIGIT_SHIFT borrow AND 1) }) (ad, 0)"

definition x_sub_loop2 ::
  "bool \<Rightarrow> FklBigIntDigit list \<Rightarrow> nat \<Rightarrow> nat \<Rightarrow> FklBigIntDigit list \<times> FklBigIntDigit
   \<Rightarrow> (FklBigIntDigit list \<times> FklBigIntDigit) option" where
  "x_sub_loop2 swap bd num_b num_a =
     for_up num_b num_a (\<lambda>i (ds, borrow). do {
       x \<leftarrow> rd (if swap then bd else ds) i;
       let borrow = x - borrow;
       ds \<leftarrow> wr ds i (borrow AND FKL_BIGINT_DIGIT_MASK);
       Some (ds, drop_bit FKL_BIGINT_DIGIT_SHIFT borrow AND 1) })"

text \<open>What precedes the loops: which operand is larger, how many digits take part. \<open>a\<close> is the
  object that is written, grown to the size needed. \<open>None\<close> is the early return with zero.\<close>

definition x_sub_prepare :: "FklBigInt \<Rightarrow> FklBigInt \<Rightarrow> (FklBigInt \<times> (bool \<times> nat \<times> nat) option) option" where
  "x_sub_prepare a b = do {
     let num_a = nat (fklAbs (num a));
     let num_b = nat (fklAbs (num b));
     if num_a < num_b then do {
       a \<leftarrow> ensure_bigint_size a (num_b + 1);
       Some (a, Some (True, num_b, num_a)) }
     else do {
       a \<leftarrow> ensure_bigint_size a (num_a + 1);
       if num_a = num_b then do {
         r \<leftarrow> top_difference (digits a) (digits b) num_a;
         case r of None \<Rightarrow> Some (a, None)
         | Some i \<Rightarrow> do {
             x \<leftarrow> rd (digits a) i;
             y \<leftarrow> rd (digits b) i;
             Some (a, Some (x < y, i + 1, i + 1)) } }
       else Some (a, Some (False, num_a, num_b)) } }"

definition x_sub_digits ::
  "bool \<Rightarrow> FklBigIntDigit list \<Rightarrow> FklBigIntDigit list \<Rightarrow> nat \<Rightarrow> nat \<Rightarrow> FklBigIntDigit list option" where
  "x_sub_digits swap ad bd num_a num_b = do {
     (ds, borrow) \<leftarrow> x_sub_loop1 swap ad bd num_b;
     (ds, borrow) \<leftarrow> x_sub_loop2 swap bd num_b num_a (ds, borrow);
     FKL_ASSERT (borrow = 0);
     Some ds }"

text \<open>\<open>|a| := |a| - |b|\<close>. The C code sets \<open>a->num\<close> only where the sign changes.\<close>

definition x_sub :: "FklBigInt \<Rightarrow> FklBigInt \<Rightarrow> FklBigInt option" where
  "x_sub a b = do {
     (a, r) \<leftarrow> x_sub_prepare a b;
     case r of None \<Rightarrow> Some (a\<lparr>num := 0\<rparr>)
     | Some (swap, num_a, num_b) \<Rightarrow> do {
         ds \<leftarrow> x_sub_digits swap (digits a) (digits b) num_a num_b;
         let a = a\<lparr>digits := ds\<rparr>;
         let a = (if swap then a\<lparr>num := (if num a < 0 then int num_a else - int num_a)\<rparr> else a);
         bigint_normalize a } }"

text \<open>\<open>b := |a| - |b|\<close>, written into the second operand: here \<open>b->num\<close> is always set.\<close>

definition x_sub2_prepare :: "FklBigInt \<Rightarrow> FklBigInt \<Rightarrow> (FklBigInt \<times> (bool \<times> nat \<times> nat) option) option" where
  "x_sub2_prepare a b = do {
     let num_a = nat (fklAbs (num a));
     let num_b = nat (fklAbs (num b));
     if num_a < num_b then do {
       b \<leftarrow> ensure_bigint_size b (num_b + 1);
       Some (b, Some (True, num_b, num_a)) }
     else do {
       b \<leftarrow> ensure_bigint_size b (num_a + 1);
       if num_a = num_b then do {
         r \<leftarrow> top_difference (digits a) (digits b) num_a;
         case r of None \<Rightarrow> Some (b, None)
         | Some i \<Rightarrow> do {
             x \<leftarrow> rd (digits a) i;
             y \<leftarrow> rd (digits b) i;
             Some (b, Some (x < y, i + 1, i + 1)) } }
       else Some (b, Some (False, num_a, num_b)) } }"

definition x_sub2 :: "FklBigInt \<Rightarrow> FklBigInt \<Rightarrow> FklBigInt option" where
  "x_sub2 a b = do {
     (b, r) \<leftarrow> x_sub2_prepare a b;
     case r of None \<Rightarrow> Some (b\<lparr>num := 0\<rparr>)
     | Some (swap, num_a, num_b) \<Rightarrow> do {
         ds \<leftarrow> x_sub_digits (\<not> swap) (digits b) (digits a) num_a num_b;
         bigint_normalize (b\<lparr>digits := ds, num := (if swap then - int num_a else int num_a)\<rparr>) } }"

subsection \<open>The public operations\<close>

definition MEDIUM_VALUE :: "FklBigInt \<Rightarrow> i64 option" where
  "MEDIUM_VALUE b =
     (if num b = 0 then Some 0
      else if num b < 0 then do { d \<leftarrow> rd (digits b) 0; Some (scast (- d)) }
      else do { d \<leftarrow> rd (digits b) 0; Some (scast d) })"

definition neg_num :: "FklBigInt \<Rightarrow> FklBigInt" where
  "neg_num a = a\<lparr>num := - num a\<rparr>"

definition fklAddBigInt :: "FklBigInt \<Rightarrow> FklBigInt \<Rightarrow> FklBigInt option" where
  "fklAddBigInt a b =
     (if fklAbs (num a) \<le> 1 \<and> fklAbs (num b) \<le> 1 then do {
        x \<leftarrow> MEDIUM_VALUE a; y \<leftarrow> MEDIUM_VALUE b; fklSetBigIntI a (x + y) }
      else if num a < 0 then
        (if num b < 0 then do { a \<leftarrow> x_add a b; Some (neg_num a) } else x_sub2 b a)
      else if num b < 0 then x_sub a b
      else x_add a b)"

definition fklSubBigInt :: "FklBigInt \<Rightarrow> FklBigInt \<Rightarrow> FklBigInt option" where
  "fklSubBigInt a b =
     (if fklAbs (num a) \<le> 1 \<and> fklAbs (num b) \<le> 1 then do {
        x \<leftarrow> MEDIUM_VALUE a; y \<leftarrow> MEDIUM_VALUE b; fklSetBigIntI a (x - y) }
      else if num a < 0 then
        (if num b < 0 then x_sub a b else do { a \<leftarrow> x_add a b; Some (neg_num a) })
      else if num b < 0 then x_add a b
      else x_sub a b)"

definition fklAddBigIntI :: "FklBigInt \<Rightarrow> i64 \<Rightarrow> FklBigInt option" where
  "fklAddBigIntI b v = do { bi \<leftarrow> bigint_of_i64 v; fklAddBigInt b bi }"

definition fklSubBigIntI :: "FklBigInt \<Rightarrow> i64 \<Rightarrow> FklBigInt option" where
  "fklSubBigIntI a v = do { bi \<leftarrow> bigint_of_i64 v; fklSubBigInt a bi }"

section \<open>Sum of magnitudes\<close>

lemma carry_step:
  fixes x y c :: u32
  assumes "unat x < BASE" "unat y < BASE" "unat c \<le> 1"
  shows "unat (c + (x + y)) = unat c + (unat x + unat y)" and "unat (c + (x + y)) div BASE \<le> 1"
proof -
  show s: "unat (c + (x + y)) = unat c + (unat x + unat y)"
    using assms by (simp add: word_nat BASE_def)
  have "unat (c + (x + y)) < 2 * BASE" using assms unfolding s by linarith
  then have "unat (c + (x + y)) div BASE < 2" by (simp add: div_less_iff_less_mult)
  then show "unat (c + (x + y)) div BASE \<le> 1" by simp
qed

lemma wp_x_add_loop1:
  assumes "n \<le> length ad" "n \<le> length bd" "digits_ok (take n ad)" "digits_ok (take n bd)"
  shows "wp (x_add_loop1 swap ad bd n) (\<lambda>(ds, c). length ds = length ad \<and> drop n ds = drop n ad
    \<and> digits_ok (take n ds) \<and> unat c \<le> 1
    \<and> val (take n ds) + BASE ^ n * unat c = val (take n ad) + val (take n bd))"
  unfolding x_add_loop1_def
proof (rule wp_for_up [where I = "\<lambda>i (ds, c). length ds = length ad \<and> drop i ds = drop i ad
    \<and> digits_ok (take i ds) \<and> unat c \<le> 1
    \<and> val (take i ds) + BASE ^ i * unat c = val (take i ad) + val (take i bd)"])
  fix i and t :: "u32 list \<times> u32"
  assume "0 \<le> i" "i < n" and inv: "case t of (ds, c) \<Rightarrow> length ds = length ad \<and> drop i ds = drop i ad
    \<and> digits_ok (take i ds) \<and> unat c \<le> 1
    \<and> val (take i ds) + BASE ^ i * unat c = val (take i ad) + val (take i bd)"
  obtain ds c where t: "t = (ds, c)" by (cases t)
  let ?x = "ad ! i" and ?y = "bd ! i"
  have i: "i < length ad" "i < length bd" "i < length ds" "ds ! i = ?x"
    using inv t \<open>i < n\<close> assms drop_eq_nth [of i ds ad i] by auto
  have lt: "unat ?x < BASE" "unat ?y < BASE"
    using assms \<open>i < n\<close> i by (auto intro: digits_ok_nth)
  let ?s = "c + (?x + ?y)"
  have s: "unat ?s = unat c + (unat ?x + unat ?y)" and c': "unat ?s div BASE \<le> 1"
    using carry_step [OF lt] inv t by simp_all
  have "val (take i ds) + BASE ^ i * (unat ?s mod BASE) + BASE ^ Suc i * (unat ?s div BASE)
      = val (take i ds) + BASE ^ i * unat ?s"
    by (simp only: add.assoc digit_step)
  also have "\<dots> = val (take (Suc i) ad) + val (take (Suc i) bd)"
    using inv t i by (simp add: s val_take_Suc algebra_simps)
  finally have v: "val (take i ds) + BASE ^ i * (unat ?s mod BASE) + BASE ^ Suc i * (unat ?s div BASE)
      = val (take (Suc i) ad) + val (take (Suc i) bd)" .
  have sw: "?y + ?x = ?x + ?y" by (rule add.commute)
  have d: "drop (Suc i) ds = drop (Suc i) ad" using inv t drop_Suc_eq [of i ds ad] by simp
  from inv t i c' v d show "wp (case t of (ds, carry) \<Rightarrow> do {
       x \<leftarrow> rd (if swap then bd else ds) i;
       y \<leftarrow> rd (if swap then ds else bd) i;
       let carry = carry + (x + y);
       ds \<leftarrow> wr ds i (carry AND FKL_BIGINT_DIGIT_MASK);
       Some (ds, drop_bit FKL_BIGINT_DIGIT_SHIFT carry) })
    (\<lambda>(ds, c). length ds = length ad \<and> drop (Suc i) ds = drop (Suc i) ad
      \<and> digits_ok (take (Suc i) ds) \<and> unat c \<le> 1
      \<and> val (take (Suc i) ds) + BASE ^ Suc i * unat c = val (take (Suc i) ad) + val (take (Suc i) bd))"
    by (cases swap) (simp_all add: Let_def take_update unat_lo unat_hi sw)
qed simp_all

lemma wp_x_add_loop2:
  fixes ad bd :: "u32 list"
  defines "X \<equiv> \<lambda>swap. if swap then bd else ad"
  assumes "m \<le> n" "n \<le> length ad" "n \<le> length (X swap)" "digits_ok (take n (X swap))"
    and ds0: "length ds0 = length ad" "drop m ds0 = drop m ad" "digits_ok (take m ds0)" "unat c0 \<le> 1"
  shows "wp (x_add_loop2 swap bd m n (ds0, c0)) (\<lambda>(ds, c). length ds = length ad
    \<and> digits_ok (take n ds) \<and> unat c \<le> 1
    \<and> val (take n ds) + BASE ^ n * unat c + val (take m (X swap))
      = val (take m ds0) + BASE ^ m * unat c0 + val (take n (X swap)))"
  unfolding x_add_loop2_def
proof (rule wp_for_up [where I = "\<lambda>i (ds, c). length ds = length ad \<and> drop i ds = drop i ad
    \<and> digits_ok (take i ds) \<and> unat c \<le> 1
    \<and> val (take i ds) + BASE ^ i * unat c + val (take m (X swap))
      = val (take m ds0) + BASE ^ m * unat c0 + val (take i (X swap))"])
  fix i and t :: "u32 list \<times> u32"
  assume "m \<le> i" "i < n" and inv: "case t of (ds, c) \<Rightarrow> length ds = length ad \<and> drop i ds = drop i ad
    \<and> digits_ok (take i ds) \<and> unat c \<le> 1
    \<and> val (take i ds) + BASE ^ i * unat c + val (take m (X swap))
      = val (take m ds0) + BASE ^ m * unat c0 + val (take i (X swap))"
  obtain ds c where t: "t = (ds, c)" by (cases t)
  let ?x = "X swap ! i"
  have i: "i < length ad" "i < length (X swap)" "i < length ds" "ds ! i = ad ! i"
    using inv t \<open>i < n\<close> assms drop_eq_nth [of i ds ad i] by auto
  have lt: "unat ?x < BASE" "unat (0 :: u32) < BASE"
    using assms \<open>i < n\<close> i by (auto intro: digits_ok_nth)
  let ?s = "c + ?x"
  have s: "unat ?s = unat c + unat ?x" and c': "unat ?s div BASE \<le> 1"
    using carry_step [OF lt, of c] inv t by simp_all
  have "val (take i ds) + BASE ^ i * (unat ?s mod BASE) + BASE ^ Suc i * (unat ?s div BASE)
      = val (take i ds) + BASE ^ i * unat ?s"
    by (simp only: add.assoc digit_step)
  then have v: "val (take i ds) + BASE ^ i * (unat ?s mod BASE) + BASE ^ Suc i * (unat ?s div BASE)
      + val (take m (X swap)) = val (take m ds0) + BASE ^ m * unat c0 + val (take (Suc i) (X swap))"
    using inv t i by (simp add: s val_take_Suc algebra_simps)
  have d: "drop (Suc i) ds = drop (Suc i) ad" using inv t drop_Suc_eq [of i ds ad] by simp
  have rd: "rd (if swap then bd else ds) i = Some ?x" using i by (auto simp: X_def rd_def split: if_splits)
  from inv t i c' v d show "wp (case t of (ds, carry) \<Rightarrow> do {
       x \<leftarrow> rd (if swap then bd else ds) i;
       let carry = carry + x;
       ds \<leftarrow> wr ds i (carry AND FKL_BIGINT_DIGIT_MASK);
       Some (ds, drop_bit FKL_BIGINT_DIGIT_SHIFT carry) })
    (\<lambda>(ds, c). length ds = length ad \<and> drop (Suc i) ds = drop (Suc i) ad
      \<and> digits_ok (take (Suc i) ds) \<and> unat c \<le> 1
      \<and> val (take (Suc i) ds) + BASE ^ Suc i * unat c + val (take m (X swap))
        = val (take m ds0) + BASE ^ m * unat c0 + val (take (Suc i) (X swap)))"
    by (simp add: rd Let_def take_update unat_lo unat_hi)
qed (use assms in auto)

lemma wp_x_add_digits:
  fixes ad bd :: "u32 list"
  assumes "m \<le> n" "n \<le> length ad" "digits_ok (take n (if swap then bd else ad))"
    "digits_ok (take m (if swap then ad else bd))" "m \<le> length bd" "swap \<Longrightarrow> n \<le> length bd"
  shows "wp (do { (ds, c) \<leftarrow> x_add_loop1 swap ad bd m; x_add_loop2 swap bd m n (ds, c) })
    (\<lambda>(ds, c). length ds = length ad \<and> digits_ok (take n ds) \<and> unat c \<le> 1
      \<and> val (take n ds) + BASE ^ n * unat c
        = val (take n (if swap then bd else ad)) + val (take m (if swap then ad else bd)))"
  unfolding wp_simps
proof (rule wp_mono [OF wp_x_add_loop1])
  show "m \<le> length ad" "m \<le> length bd" "digits_ok (take m ad)" "digits_ok (take m bd)"
    using assms by (auto intro: digits_ok_take split: if_splits)
  fix t :: "u32 list \<times> u32"
  assume "case t of (ds, c) \<Rightarrow> length ds = length ad \<and> drop m ds = drop m ad
    \<and> digits_ok (take m ds) \<and> unat c \<le> 1
    \<and> val (take m ds) + BASE ^ m * unat c = val (take m ad) + val (take m bd)"
  moreover obtain ds c where t: "t = (ds, c)" by (cases t)
  ultimately have inv: "length ds = length ad" "drop m ds = drop m ad" "digits_ok (take m ds)" "unat c \<le> 1"
    "val (take m ds) + BASE ^ m * unat c = val (take m ad) + val (take m bd)" by auto
  have n: "n \<le> length (if swap then bd else ad)" using assms by auto
  show "wp (case t of (ds, c) \<Rightarrow> x_add_loop2 swap bd m n (ds, c))
    (\<lambda>(ds, c). length ds = length ad \<and> digits_ok (take n ds) \<and> unat c \<le> 1
      \<and> val (take n ds) + BASE ^ n * unat c
        = val (take n (if swap then bd else ad)) + val (take m (if swap then ad else bd)))"
    unfolding t prod.case
    by (rule wp_mono [OF wp_x_add_loop2 [OF assms(1,2) n assms(3) inv(1-4)]])
      (use inv(5) in \<open>auto split: if_splits\<close>)
qed

lemma wp_x_add:
  assumes a: "bi_own a" and b: "bi_wf b"
  shows "wp (x_add a b) (\<lambda>r. bi_own r \<and> bi_val r = int (mag a + mag b))"
proof -
  define n where "n = max (len a) (len b)"
  define m where "m = min (len a) (len b)"
  define swap where "swap = (len a < len b)"
  have eq: "x_add a b = do {
     a \<leftarrow> ensure_bigint_size a (n + 1);
     (ds, carry) \<leftarrow> do { (ds, carry) \<leftarrow> x_add_loop1 swap (digits a) (digits b) m;
       x_add_loop2 swap (digits b) m n (ds, carry) };
     ds \<leftarrow> wr ds n (carry AND FKL_BIGINT_DIGIT_MASK);
     bigint_normalize (a\<lparr>num := int n + 1, digits := ds\<rparr>) }"
    unfolding x_add_def nat_fklAbs len_def [symmetric]
    by (simp add: n_def m_def swap_def Let_def max_def min_def split_beta' flip: bind_assoc)
  show ?thesis unfolding eq
  proof (rule wp_bind [OF wp_ensure_ok])
    show "bi_ok a" "bi_room a (n + 1)" using a by (auto intro: bi_weaken)
    fix x :: FklBigInt
    assume x: "bi_ok x \<and> num x = num a \<and> const_size x = const_size a
      \<and> n + 1 \<le> bsize x \<and> used x = used a \<and> length (digits x) = bsize x"
    then have lx: "len x = len a" by (simp add: len_def)
    have b': "len b \<le> length (digits b)" "digits_ok (take (len b) (digits b))"
      using b by (auto dest: bi_ok_D bi_wf_ok)
    have x': "digits_ok (take (len a) (digits x))" using bi_ok_D(3) [of x] x lx by simp
    have vals: "val (take n (if swap then digits b else digits x)) + val (take m (if swap then digits x else digits b))
      = mag a + mag b"
      using x lx by (auto simp: n_def m_def swap_def mag_def used_def)
    show "wp (do { (ds, carry) \<leftarrow> do { (ds, carry) \<leftarrow> x_add_loop1 swap (digits x) (digits b) m;
            x_add_loop2 swap (digits b) m n (ds, carry) };
          ds \<leftarrow> wr ds n (carry AND FKL_BIGINT_DIGIT_MASK);
          bigint_normalize (x\<lparr>num := int n + 1, digits := ds\<rparr>) })
       (\<lambda>r. bi_own r \<and> bi_val r = int (mag a + mag b))"
    proof (rule wp_bind [OF wp_x_add_digits])
      show "m \<le> n" "n \<le> length (digits x)" "m \<le> length (digits b)" "swap \<Longrightarrow> n \<le> length (digits b)"
        using x b' by (auto simp: n_def m_def swap_def)
      show "digits_ok (take n (if swap then digits b else digits x))"
        "digits_ok (take m (if swap then digits x else digits b))"
        using x' b' by (auto simp: n_def m_def swap_def)
      fix t :: "u32 list \<times> u32"
      assume t: "case t of (ds, c) \<Rightarrow> length ds = length (digits x) \<and> digits_ok (take n ds) \<and> unat c \<le> 1
        \<and> val (take n ds) + BASE ^ n * unat c
          = val (take n (if swap then digits b else digits x)) + val (take m (if swap then digits x else digits b))"
      obtain ds c where tt: "t = (ds, c)" by (cases t)
      let ?r = "x\<lparr>num := int n + 1, digits := ds[n := c AND FKL_BIGINT_DIGIT_MASK]\<rparr>"
      have c: "unat (c AND FKL_BIGINT_DIGIT_MASK) = unat c"
        using t tt by (simp add: unat_lo le_less_trans [of _ 1])
      have n: "n < length ds" using t tt x by simp
      have len: "len ?r = Suc n" by (simp add: len_def)
      have ok: "bi_ok ?r" unfolding bi_ok_def used_def len using t tt x n c
        by (simp add: take_update le_less_trans [of _ 1])
      have "bi_val ?r = int (mag a + mag b)" unfolding bi_val_cases mag_def [of ?r] used_def len
        using t tt n c vals by (simp add: take_update)
      with wp_normalize [OF ok] t tt n x a show "wp (case t of (ds, carry) \<Rightarrow> do {
         ds \<leftarrow> wr ds n (carry AND FKL_BIGINT_DIGIT_MASK);
         bigint_normalize (x\<lparr>num := int n + 1, digits := ds\<rparr>) })
       (\<lambda>r. bi_own r \<and> bi_val r = int (mag a + mag b))"
        by (auto simp: bi_own_def elim!: wp_mono)
    qed
  qed
qed

section \<open>Difference of magnitudes\<close>

lemma unat_and_1: "unat (w AND 1) = unat w mod 2" for w :: u32
  using unat_and_mask_mod [of w 1] by simp

lemma borrow_step:
  fixes x y c :: u32
  assumes "unat x < BASE" "unat y < BASE" "unat c \<le> 1"
  defines "t \<equiv> x - y - c"
  shows "unat t mod BASE + (unat y + unat c) = unat x + BASE * (unat t div BASE mod 2)"
proof -
  let ?z = "y + c"
  have z: "unat ?z = unat y + unat c" using assms by (simp add: word_nat BASE_def)
  have t: "t = x - ?z" by (simp add: t_def)
  show ?thesis
  proof (cases "unat ?z \<le> unat x")
    case True
    then have "unat t = unat x - unat ?z" unfolding t by (simp add: unat_sub_if_size)
    then show ?thesis using True assms z by simp
  next
    case False
    then have ut: "unat t = unat x + 4 * BASE - unat ?z"
      unfolding t by (simp add: unat_sub_if_size word_size BASE_def)
    then have "unat t = 3 * BASE + (unat x + BASE - unat ?z)"
      using z assms(2,3) by simp
    moreover have "unat x + BASE - unat ?z < BASE" using False BASE_gt0 by linarith
    ultimately have "unat t div BASE = 3" "unat t mod BASE = unat x + BASE - unat ?z" by simp_all
    then show ?thesis using z assms(2,3) by simp
  qed
qed

lemma wp_x_sub_loop1:
  fixes ad bd :: "u32 list"
  defines "X \<equiv> \<lambda>swap. if swap then bd else ad" and "Y \<equiv> \<lambda>swap. if swap then ad else bd"
  assumes "n \<le> length ad" "n \<le> length bd" "digits_ok (take n ad)" "digits_ok (take n bd)"
  shows "wp (x_sub_loop1 swap ad bd n) (\<lambda>(ds, c). length ds = length ad \<and> drop n ds = drop n ad
    \<and> digits_ok (take n ds) \<and> unat c \<le> 1
    \<and> val (take n ds) + val (take n (Y swap)) = val (take n (X swap)) + BASE ^ n * unat c)"
  unfolding x_sub_loop1_def
proof (rule wp_for_up [where I = "\<lambda>i (ds, c). length ds = length ad \<and> drop i ds = drop i ad
    \<and> digits_ok (take i ds) \<and> unat c \<le> 1
    \<and> val (take i ds) + val (take i (Y swap)) = val (take i (X swap)) + BASE ^ i * unat c"])
  fix i and t :: "u32 list \<times> u32"
  assume "0 \<le> i" "i < n" and inv: "case t of (ds, c) \<Rightarrow> length ds = length ad \<and> drop i ds = drop i ad
    \<and> digits_ok (take i ds) \<and> unat c \<le> 1
    \<and> val (take i ds) + val (take i (Y swap)) = val (take i (X swap)) + BASE ^ i * unat c"
  obtain ds c where t: "t = (ds, c)" by (cases t)
  let ?x = "X swap ! i" and ?y = "Y swap ! i"
  have i: "i < length ad" "i < length bd" "i < length ds" "ds ! i = ad ! i"
    using inv t \<open>i < n\<close> assms drop_eq_nth [of i ds ad i] by auto
  then have iXY: "i < length (X swap)" "i < length (Y swap)" by (auto simp: X_def Y_def)
  have lt: "unat ?x < BASE" "unat ?y < BASE"
    using assms \<open>i < n\<close> i by (auto intro: digits_ok_nth)
  let ?s = "?x - ?y - c"
  have c: "unat c \<le> 1" using inv t by simp
  have step: "unat ?s mod BASE + (unat ?y + unat c) = unat ?x + BASE * (unat ?s div BASE mod 2)"
    using borrow_step [OF lt c] .
  have "BASE ^ i * (unat ?s mod BASE) + BASE ^ i * unat ?y + BASE ^ i * unat c
      = BASE ^ i * unat ?x + BASE ^ Suc i * (unat ?s div BASE mod 2)"
    using arg_cong [OF step, of "\<lambda>k. BASE ^ i * k"] by (simp add: algebra_simps)
  then have v: "val (take i ds) + BASE ^ i * (unat ?s mod BASE) + val (take (Suc i) (Y swap))
      = val (take (Suc i) (X swap)) + BASE ^ Suc i * (unat ?s div BASE mod 2)"
    using inv t iXY by (simp add: val_take_Suc)
  have d: "drop (Suc i) ds = drop (Suc i) ad" using inv t drop_Suc_eq [of i ds ad] by simp
  have rdx: "rd (if swap then bd else ds) i = Some ?x" and rdy: "rd (if swap then ds else bd) i = Some ?y"
    using i by (auto simp: X_def Y_def rd_def)
  from inv t i v d show "wp (case t of (ds, borrow) \<Rightarrow> do {
       x \<leftarrow> rd (if swap then bd else ds) i;
       y \<leftarrow> rd (if swap then ds else bd) i;
       let borrow = x - y - borrow;
       ds \<leftarrow> wr ds i (borrow AND FKL_BIGINT_DIGIT_MASK);
       Some (ds, drop_bit FKL_BIGINT_DIGIT_SHIFT borrow AND 1) })
    (\<lambda>(ds, c). length ds = length ad \<and> drop (Suc i) ds = drop (Suc i) ad
      \<and> digits_ok (take (Suc i) ds) \<and> unat c \<le> 1
      \<and> val (take (Suc i) ds) + val (take (Suc i) (Y swap))
        = val (take (Suc i) (X swap)) + BASE ^ Suc i * unat c)"
    by (simp add: rdx rdy Let_def take_update unat_lo unat_hi unat_and_1)
qed (use assms in auto)

lemma wp_x_sub_loop2:
  fixes ad bd :: "u32 list"
  defines "X \<equiv> \<lambda>swap. if swap then bd else ad"
  assumes "m \<le> n" "n \<le> length ad" "n \<le> length (X swap)" "digits_ok (take n (X swap))"
    and ds0: "length ds0 = length ad" "drop m ds0 = drop m ad" "digits_ok (take m ds0)" "unat c0 \<le> 1"
  shows "wp (x_sub_loop2 swap bd m n (ds0, c0)) (\<lambda>(ds, c). length ds = length ad
    \<and> drop n ds = drop n ad \<and> digits_ok (take n ds) \<and> unat c \<le> 1
    \<and> val (take n ds) + BASE ^ m * unat c0 + val (take m (X swap))
      = val (take m ds0) + BASE ^ n * unat c + val (take n (X swap)))"
  unfolding x_sub_loop2_def
proof (rule wp_for_up [where I = "\<lambda>i (ds, c). length ds = length ad \<and> drop i ds = drop i ad
    \<and> digits_ok (take i ds) \<and> unat c \<le> 1
    \<and> val (take i ds) + BASE ^ m * unat c0 + val (take m (X swap))
      = val (take m ds0) + BASE ^ i * unat c + val (take i (X swap))"])
  fix i and t :: "u32 list \<times> u32"
  assume "m \<le> i" "i < n" and inv: "case t of (ds, c) \<Rightarrow> length ds = length ad \<and> drop i ds = drop i ad
    \<and> digits_ok (take i ds) \<and> unat c \<le> 1
    \<and> val (take i ds) + BASE ^ m * unat c0 + val (take m (X swap))
      = val (take m ds0) + BASE ^ i * unat c + val (take i (X swap))"
  obtain ds c where t: "t = (ds, c)" by (cases t)
  let ?x = "X swap ! i"
  have i: "i < length ad" "i < length (X swap)" "i < length ds" "ds ! i = ad ! i"
    using inv t \<open>i < n\<close> assms drop_eq_nth [of i ds ad i] by auto
  have lt: "unat ?x < BASE" "unat (0 :: u32) < BASE"
    using assms \<open>i < n\<close> i by (auto intro: digits_ok_nth)
  let ?s = "?x - c"
  have c: "unat c \<le> 1" using inv t by simp
  have step: "unat ?s mod BASE + unat c = unat ?x + BASE * (unat ?s div BASE mod 2)"
    using borrow_step [OF lt c] by simp
  have "BASE ^ i * (unat ?s mod BASE) + BASE ^ i * unat c
      = BASE ^ i * unat ?x + BASE ^ Suc i * (unat ?s div BASE mod 2)"
    using arg_cong [OF step, of "\<lambda>k. BASE ^ i * k"] by (simp add: algebra_simps)
  then have v: "val (take i ds) + BASE ^ i * (unat ?s mod BASE) + BASE ^ m * unat c0 + val (take m (X swap))
      = val (take m ds0) + BASE ^ Suc i * (unat ?s div BASE mod 2) + val (take (Suc i) (X swap))"
    using inv t i by (simp add: val_take_Suc)
  have d: "drop (Suc i) ds = drop (Suc i) ad" using inv t drop_Suc_eq [of i ds ad] by simp
  have rdx: "rd (if swap then bd else ds) i = Some ?x" using i by (auto simp: X_def rd_def split: if_splits)
  from inv t i v d show "wp (case t of (ds, borrow) \<Rightarrow> do {
       x \<leftarrow> rd (if swap then bd else ds) i;
       let borrow = x - borrow;
       ds \<leftarrow> wr ds i (borrow AND FKL_BIGINT_DIGIT_MASK);
       Some (ds, drop_bit FKL_BIGINT_DIGIT_SHIFT borrow AND 1) })
    (\<lambda>(ds, c). length ds = length ad \<and> drop (Suc i) ds = drop (Suc i) ad
      \<and> digits_ok (take (Suc i) ds) \<and> unat c \<le> 1
      \<and> val (take (Suc i) ds) + BASE ^ m * unat c0 + val (take m (X swap))
        = val (take m ds0) + BASE ^ Suc i * unat c + val (take (Suc i) (X swap)))"
    by (simp add: rdx Let_def take_update unat_lo unat_hi unat_and_1)
qed (use assms in auto)

lemma wp_x_sub_digits:
  fixes ad bd :: "u32 list"
  defines "X \<equiv> \<lambda>swap. if swap then bd else ad" and "Y \<equiv> \<lambda>swap. if swap then ad else bd"
  assumes "m \<le> n" "n \<le> length ad" "n \<le> length (X swap)" "m \<le> length bd"
    and ok: "digits_ok (take n (X swap))" "digits_ok (take m (Y swap))"
    and le: "val (take m (Y swap)) \<le> val (take n (X swap))"
  shows "wp (x_sub_digits swap ad bd n m) (\<lambda>ds. length ds = length ad \<and> drop n ds = drop n ad
    \<and> digits_ok (take n ds) \<and> val (take n ds) = val (take n (X swap)) - val (take m (Y swap)))"
  unfolding x_sub_digits_def
proof (rule wp_bind [OF wp_x_sub_loop1])
  show "m \<le> length ad" "m \<le> length bd" "digits_ok (take m ad)" "digits_ok (take m bd)"
    using assms by (auto intro: digits_ok_take split: if_splits)
  fix t :: "u32 list \<times> u32"
  assume t: "case t of (ds, c) \<Rightarrow> length ds = length ad \<and> drop m ds = drop m ad
    \<and> digits_ok (take m ds) \<and> unat c \<le> 1
    \<and> val (take m ds) + val (take m (if swap then ad else bd))
      = val (take m (if swap then bd else ad)) + BASE ^ m * unat c"
  obtain ds c where tt: "t = (ds, c)" by (cases t)
  have l1: "length ds = length ad" "drop m ds = drop m ad" "digits_ok (take m ds)" "unat c \<le> 1"
    "val (take m ds) + val (take m (Y swap)) = val (take m (X swap)) + BASE ^ m * unat c"
    using t tt by (auto simp: X_def Y_def)
  have n: "n \<le> length (if swap then bd else ad)" "digits_ok (take n (if swap then bd else ad))"
    using assms by auto
  show "wp (case t of (ds, borrow) \<Rightarrow> do {
      (ds, borrow) \<leftarrow> x_sub_loop2 swap bd m n (ds, borrow); FKL_ASSERT (borrow = 0); Some ds })
    (\<lambda>ds. length ds = length ad \<and> drop n ds = drop n ad \<and> digits_ok (take n ds)
      \<and> val (take n ds) = val (take n (X swap)) - val (take m (Y swap)))"
    unfolding tt prod.case
  proof (rule wp_bind [OF wp_x_sub_loop2 [OF assms(3,4) n l1(1-4)]])
    fix u :: "u32 list \<times> u32"
    assume u: "case u of (ds', c') \<Rightarrow> length ds' = length ad \<and> drop n ds' = drop n ad
      \<and> digits_ok (take n ds') \<and> unat c' \<le> 1
      \<and> val (take n ds') + BASE ^ m * unat c + val (take m (if swap then bd else ad))
        = val (take m ds) + BASE ^ n * unat c' + val (take n (if swap then bd else ad))"
    obtain ds' c' where uu: "u = (ds', c')" by (cases u)
    have l2: "length ds' = length ad" "drop n ds' = drop n ad" "digits_ok (take n ds')"
      "val (take n ds') + BASE ^ m * unat c + val (take m (X swap))
        = val (take m ds) + BASE ^ n * unat c' + val (take n (X swap))"
      using u uu by (auto simp: X_def)
    have sum: "val (take n ds') + val (take m (Y swap)) = val (take n (X swap)) + BASE ^ n * unat c'"
      using l1(5) l2(4) by linarith
    have "val (take n ds') < BASE ^ n" using l2 assms by (intro val_take_less) auto
    then have "unat c' = 0" using sum le le_add_mult [of "unat c'" "BASE ^ n" 0]
      by (cases "unat c'") auto
    then show "wp (case u of (ds, borrow) \<Rightarrow> do { FKL_ASSERT (borrow = 0); Some ds })
      (\<lambda>ds. length ds = length ad \<and> drop n ds = drop n ad \<and> digits_ok (take n ds)
        \<and> val (take n ds) = val (take n (X swap)) - val (take m (Y swap)))"
      using l2 sum by (simp add: uu unat_eq_0)
  qed
qed

text \<open>
  The digits above the highest difference of two magnitudes of equal length cancel.
  \<open>sub_operands a b x b' (swap, n, m)\<close>: the operands the subtraction loops get, with \<open>x\<close>
  the grown written object.
\<close>

definition sub_operands :: "FklBigInt \<Rightarrow> FklBigInt \<Rightarrow> u32 list \<Rightarrow> u32 list \<Rightarrow> bool \<times> nat \<times> nat \<Rightarrow> bool" where
  "sub_operands a b ad bd = (\<lambda>(swap, n, m).
     let X = (if swap then bd else ad); Y = (if swap then ad else bd) in
     swap = (mag a < mag b) \<and> mag a \<noteq> mag b \<and> 0 < n \<and> m \<le> n \<and> n \<le> length X \<and> m \<le> length Y
     \<and> n \<le> max (len a) (len b) \<and> (len a \<noteq> len b \<longrightarrow> n = max (len a) (len b))
     \<and> (len a = len b \<longrightarrow> drop n (used a) = drop n (used b) \<and> used a ! (n - 1) \<noteq> used b ! (n - 1))
     \<and> digits_ok (take n X) \<and> digits_ok (take m Y)
     \<and> int (val (take n X)) - int (val (take m Y)) = \<bar>int (mag a) - int (mag b)\<bar>)"

lemma sub_operands_shorter:
  assumes "bi_wf a" "bi_wf b" "len a < len b" "take (len a) ad = used a" "take (len b) bd = used b"
    "len a \<le> length ad" "len b \<le> length bd"
  shows "sub_operands a b ad bd (True, len b, len a)"
  using assms mag_len_less [of a b]
  by (auto simp: sub_operands_def bi_wf_def bi_ok_def mag_def)

lemma sub_operands_longer:
  assumes "bi_wf a" "bi_wf b" "len b < len a" "take (len a) ad = used a" "take (len b) bd = used b"
    "len a \<le> length ad" "len b \<le> length bd"
  shows "sub_operands a b ad bd (False, len a, len b)"
  using assms mag_len_less [of b a]
  by (auto simp: sub_operands_def bi_wf_def bi_ok_def mag_def)

lemma sub_operands_same:
  assumes wf: "bi_wf a" "bi_wf b" and len: "len a = len b"
    and ad: "take (len a) ad = used a" "len a \<le> length ad"
    and bd: "take (len b) bd = used b" "len b \<le> length bd"
    and i: "i < len a" "ad ! i \<noteq> bd ! i"
    and d: "drop (Suc i) (take (len a) ad) = drop (Suc i) (take (len a) bd)"
  shows "sub_operands a b ad bd (ad ! i < bd ! i, Suc i, Suc i)"
proof -
  let ?n = "len a"
  have ok: "digits_ok (take ?n ad)" "digits_ok (take ?n bd)"
    using wf len ad bd by (auto simp: bi_wf_def bi_ok_def)
  have na: "?n \<le> length ad" "?n \<le> length bd" using ad bd len by auto
  have ma: "mag a = val (take ?n ad)" and mb: "mag b = val (take ?n bd)"
    using ad bd len by (simp_all add: mag_def)
  have le: "Suc i \<le> ?n" using i by simp
  have oks: "digits_ok (take (Suc i) ad)" "digits_ok (take (Suc i) bd)"
    using ok le by (auto intro: digits_ok_take)
  let ?R = "BASE ^ Suc i * val (drop (Suc i) (take ?n ad))"
  have va: "mag a = val (take (Suc i) ad) + ?R"
    using val_split_at [of i ?n ad] i na by (simp add: ma val_take_Suc)
  have vb: "mag b = val (take (Suc i) bd) + ?R"
    using val_split_at [of i ?n bd] i na d by (simp add: mb val_take_Suc)
  have lt: "ad ! i < bd ! i \<longleftrightarrow> mag a < mag b"
  proof
    assume "ad ! i < bd ! i"
    then show "mag a < mag b" using val_less_at [OF i(1) na ok(1) _ d] by (simp add: ma mb word_less_nat_alt)
  next
    assume *: "mag a < mag b"
    show "ad ! i < bd ! i"
    proof (rule ccontr)
      assume "\<not> ad ! i < bd ! i"
      then have "bd ! i < ad ! i" using i by simp
      then have "mag b < mag a" using val_less_at [OF i(1) na(2,1) ok(2) _ d [symmetric]]
        by (simp add: ma mb word_less_nat_alt)
      with * show False by simp
    qed
  qed
  have "mag a \<noteq> mag b"
  proof
    assume "mag a = mag b"
    then have "val (take (Suc i) ad) = val (take (Suc i) bd)" using va vb by simp
    then have "take (Suc i) ad = take (Suc i) bd"
      using oks le na by (intro val_inj) auto
    then have "take (Suc i) ad ! i = take (Suc i) bd ! i" by simp
    with i show False by simp
  qed
  moreover have "used a ! i = ad ! i" "used b ! i = bd ! i"
    using i len by (simp_all flip: ad(1) bd(1))
  ultimately show ?thesis
    using i le na oks lt va vb d len ad bd
    by (auto simp: sub_operands_def Let_def)
qed

lemma sub_operands_top:
  assumes "bi_wf a" "bi_wf b" "len a = len b" "take (len a) ad = used a" "len a \<le> length ad"
    "take (len b) bd = used b" "len b \<le> length bd"
  shows "wp (do { r \<leftarrow> top_difference ad bd (len a);
         case r of None \<Rightarrow> Some (x, None)
         | Some i \<Rightarrow> do { u \<leftarrow> rd ad i; v \<leftarrow> rd bd i; Some (x, Some (u < v, i + 1, i + 1)) } })
    (\<lambda>(x', r). x' = x \<and> (r = None \<longrightarrow> mag a = mag b) \<and> (\<forall>p. r = Some p \<longrightarrow> sub_operands a b ad bd p))"
proof (rule wp_bind [OF wp_top_difference])
  show l: "len a \<le> length ad" "len a \<le> length bd" using assms by auto
  fix r
  assume r: "(r = None \<longrightarrow> take (len a) ad = take (len a) bd) \<and>
     (\<forall>i. r = Some i \<longrightarrow> i < len a \<and> ad ! i \<noteq> bd ! i
       \<and> drop (Suc i) (take (len a) ad) = drop (Suc i) (take (len a) bd))"
  show "wp (case r of None \<Rightarrow> Some (x, None)
         | Some i \<Rightarrow> do { u \<leftarrow> rd ad i; v \<leftarrow> rd bd i; Some (x, Some (u < v, i + 1, i + 1)) })
    (\<lambda>(x', r). x' = x \<and> (r = None \<longrightarrow> mag a = mag b) \<and> (\<forall>p. r = Some p \<longrightarrow> sub_operands a b ad bd p))"
  proof (cases r)
    case None
    with r assms show ?thesis by (simp add: mag_def)
  next
    case (Some i)
    with r have i: "i < len a" "ad ! i \<noteq> bd ! i" "drop (Suc i) (take (len a) ad) = drop (Suc i) (take (len a) bd)"
      by auto
    from sub_operands_same [OF assms i] Some i l show ?thesis by simp
  qed
qed

definition sub_prepared :: "FklBigInt \<Rightarrow> FklBigInt \<Rightarrow> FklBigInt \<times> (bool \<times> nat \<times> nat) option \<Rightarrow> bool" where
  "sub_prepared a b = (\<lambda>(x, r). bi_ok x \<and> num x = num a \<and> \<not> const_size x
    \<and> used x = used a \<and> max (len a) (len b) < bsize x \<and> length (digits x) = bsize x
    \<and> (r = None \<longrightarrow> mag a = mag b)
    \<and> (\<forall>p. r = Some p \<longrightarrow> sub_operands a b (digits x) (digits b) p))"

lemma wp_x_sub_prepare:
  assumes a: "bi_own a" and b: "bi_wf b"
  shows "wp (x_sub_prepare a b) (sub_prepared a b)"
proof -
  have awf: "bi_wf a" "bi_ok a" "bi_room a n" "\<not> const_size a" for n
    using a by (auto intro: bi_weaken simp: bi_own_def)
  have b': "take (len b) (digits b) = used b" "len b \<le> length (digits b)"
    using b by (auto dest: bi_ok_D bi_wf_ok simp: used_def)
  define n where "n = max (len a) (len b)"
  have eq: "x_sub_prepare a b = do {
     x \<leftarrow> ensure_bigint_size a (n + 1);
     if len a < len b then Some (x, Some (True, len b, len a))
     else if len a = len b then do {
         r \<leftarrow> top_difference (digits x) (digits b) (len a);
         case r of None \<Rightarrow> Some (x, None)
         | Some i \<Rightarrow> do { u \<leftarrow> rd (digits x) i; v \<leftarrow> rd (digits b) i; Some (x, Some (u < v, i + 1, i + 1)) } }
     else Some (x, Some (False, len a, len b)) }"
    unfolding x_sub_prepare_def nat_fklAbs len_def [symmetric] n_def
    by (cases "len a < len b") (simp_all add: Let_def max_def)
  show ?thesis unfolding eq
  proof (rule wp_bind [OF wp_ensure_ok [OF awf(2,3)]])
    fix x :: FklBigInt
    assume x: "bi_ok x \<and> num x = num a \<and> const_size x = const_size a \<and> n + 1 \<le> bsize x
      \<and> used x = used a \<and> length (digits x) = bsize x"
    then have lx: "len x = len a" and mx: "len a < bsize x" "len b < bsize x"
      by (auto simp: len_def n_def)
    have x': "take (len a) (digits x) = used a" "len a \<le> length (digits x)"
      using x lx by (auto simp: used_def n_def)
    note ops = awf(1) b x'(1) b'(1) x'(2) b'(2)
    show "wp (if len a < len b then Some (x, Some (True, len b, len a))
      else if len a = len b then do {
         r \<leftarrow> top_difference (digits x) (digits b) (len a);
         case r of None \<Rightarrow> Some (x, None)
         | Some i \<Rightarrow> do { u \<leftarrow> rd (digits x) i; v \<leftarrow> rd (digits b) i; Some (x, Some (u < v, i + 1, i + 1)) } }
      else Some (x, Some (False, len a, len b))) (sub_prepared a b)"
    proof (cases "len a" "len b" rule: linorder_cases)
      case less
      with x awf mx show ?thesis using sub_operands_shorter [OF awf(1) b less x'(1) b'(1) x'(2) b'(2)]
        by (simp add: sub_prepared_def n_def)
    next
      case equal
      from x awf mx have "\<And>y r. y = x \<and> (r = None \<longrightarrow> mag a = mag b)
          \<and> (\<forall>p. r = Some p \<longrightarrow> sub_operands a b (digits x) (digits b) p) \<Longrightarrow> sub_prepared a b (y, r)"
        by (simp add: sub_prepared_def n_def)
      moreover have c: "\<not> len a < len b" using equal by simp
      ultimately show ?thesis unfolding if_not_P [OF c] if_P [OF equal]
        by (intro wp_mono [OF sub_operands_top [OF awf(1) b equal x' b', of x]]) auto
    next
      case greater
      with x awf mx show ?thesis using sub_operands_longer [OF awf(1) b greater x'(1) b'(1) x'(2) b'(2)]
        by (simp add: sub_prepared_def n_def)
    qed
  qed
qed

lemma sub_digits_into_a:
  assumes "sub_operands a b ad bd (swap, n, m)" "n \<le> length ad" "m \<le> length bd"
  shows "wp (x_sub_digits swap ad bd n m) (\<lambda>ds. length ds = length ad \<and> drop n ds = drop n ad
    \<and> digits_ok (take n ds) \<and> int (val (take n ds)) = \<bar>int (mag a) - int (mag b)\<bar>)"
proof (rule wp_mono [OF wp_x_sub_digits])
  show "m \<le> n" "n \<le> length ad" "n \<le> length (if swap then bd else ad)" "m \<le> length bd"
    "digits_ok (take n (if swap then bd else ad))" "digits_ok (take m (if swap then ad else bd))"
    using assms by (auto simp: sub_operands_def Let_def split: if_splits)
  have e: "int (val (take n (if swap then bd else ad))) - int (val (take m (if swap then ad else bd)))
      = \<bar>int (mag a) - int (mag b)\<bar>"
    using assms(1) unfolding sub_operands_def Let_def prod.case by (elim conjE)
  then show le: "val (take m (if swap then ad else bd)) \<le> val (take n (if swap then bd else ad))"
    by linarith
  fix ds :: "u32 list"
  assume "length ds = length ad \<and> drop n ds = drop n ad \<and> digits_ok (take n ds) \<and>
    val (take n ds) = val (take n (if swap then bd else ad)) - val (take m (if swap then ad else bd))"
  then show "length ds = length ad \<and> drop n ds = drop n ad
    \<and> digits_ok (take n ds) \<and> int (val (take n ds)) = \<bar>int (mag a) - int (mag b)\<bar>"
    using e le by (simp only: of_nat_diff)
qed

lemma sub_digits_into_b:
  assumes "sub_operands a b ad bd (swap, n, m)" "n \<le> length bd" "m \<le> length ad"
  shows "wp (x_sub_digits (\<not> swap) bd ad n m) (\<lambda>ds. length ds = length bd \<and> drop n ds = drop n bd
    \<and> digits_ok (take n ds) \<and> int (val (take n ds)) = \<bar>int (mag a) - int (mag b)\<bar>)"
proof (rule wp_mono [OF wp_x_sub_digits])
  show "m \<le> n" "n \<le> length bd" "n \<le> length (if \<not> swap then ad else bd)" "m \<le> length ad"
    "digits_ok (take n (if \<not> swap then ad else bd))" "digits_ok (take m (if \<not> swap then bd else ad))"
    using assms by (auto simp: sub_operands_def Let_def split: if_splits)
  have e: "int (val (take n (if \<not> swap then ad else bd))) - int (val (take m (if \<not> swap then bd else ad)))
      = \<bar>int (mag a) - int (mag b)\<bar>"
    using assms(1) unfolding sub_operands_def Let_def prod.case by (elim conjE) (cases swap; simp only: if_True if_False simp_thms)
  then show le: "val (take m (if \<not> swap then bd else ad)) \<le> val (take n (if \<not> swap then ad else bd))"
    by linarith
  fix ds :: "u32 list"
  assume "length ds = length bd \<and> drop n ds = drop n bd \<and> digits_ok (take n ds) \<and>
    val (take n ds) = val (take n (if \<not> swap then ad else bd)) - val (take m (if \<not> swap then bd else ad))"
  then show "length ds = length bd \<and> drop n ds = drop n bd
    \<and> digits_ok (take n ds) \<and> int (val (take n ds)) = \<bar>int (mag a) - int (mag b)\<bar>"
    using e le by (simp only: of_nat_diff)
qed

text \<open>
  The operands for which \<open>x_sub\<close> leaves stale digits behind: magnitudes of equal length with
  equal top digits, the first one larger. \<open>x_sub\<close> then works on fewer digits than
  \<open>a->num\<close> counts and never adjusts \<open>a->num\<close>.
\<close>

definition sub_stale :: "FklBigInt \<Rightarrow> FklBigInt \<Rightarrow> bool" where
  "sub_stale a b \<longleftrightarrow> len a = len b \<and> mag b < mag a \<and> last (used a) = last (used b)"

definition sub_result :: "FklBigInt \<Rightarrow> FklBigInt \<Rightarrow> FklBigInt \<Rightarrow> bool" where
  "sub_result a b r \<longleftrightarrow> bi_own r \<and> (let s = (if num a < 0 then -1 else 1) in
     (\<not> sub_stale a b \<longrightarrow> bi_val r = s * (int (mag a) - int (mag b)))
     \<and> (sub_stale a b \<longrightarrow> s * bi_val r \<ge> int (mag a) - int (mag b) + int BASE))"

lemma sub_stale_iff:
  assumes wf: "bi_wf a" "bi_wf b" and ops: "sub_operands a b ad bd (False, n, m)"
  shows "sub_stale a b \<longleftrightarrow> n < len a" and "n \<le> len a"
    and "n < len a \<Longrightarrow> 0 < val (drop n (used a))"
proof -
  have o: "mag b < mag a" "0 < n" "n \<le> max (len a) (len b)" "len a \<noteq> len b \<Longrightarrow> n = max (len a) (len b)"
    "len a = len b \<Longrightarrow> drop n (used a) = drop n (used b)"
    "len a = len b \<Longrightarrow> used a ! (n - 1) \<noteq> used b ! (n - 1)"
    using ops by (auto simp: sub_operands_def Let_def)
  have "len b \<le> len a" using o(1) mag_len_less [OF wf] by (meson less_imp_not_less not_less)
  with o show n: "n \<le> len a" by simp
  have lu: "length (used a) = len a" "length (used b) = len b"
    using wf by (auto dest: bi_ok_D bi_wf_ok)
  have last: "len a = len b \<Longrightarrow> n < len a \<Longrightarrow> last (used a) = last (used b)"
    using o(5) lu by (metis drop_eq_Nil last_drop not_less)
  show iff: "sub_stale a b \<longleftrightarrow> n < len a"
  proof
    assume st: "sub_stale a b"
    have "n \<noteq> len a"
    proof
      assume "n = len a"
      then have "used a ! (n - 1) = last (used a)" "used b ! (n - 1) = last (used b)"
        using st lu o(2) last_conv_nth [of "used a"] last_conv_nth [of "used b"]
        by (force simp: sub_stale_def)+
      with o(6) st show False by (simp add: sub_stale_def)
    qed
    with n show "n < len a" by simp
  next
    assume lt: "n < len a"
    then have "len a = len b" using o(4) \<open>len b \<le> len a\<close> by (cases "len a = len b") auto
    with last [OF _ lt] o(1) show "sub_stale a b" by (simp add: sub_stale_def)
  qed
  show "0 < val (drop n (used a))" if "n < len a"
  proof -
    have "used a \<noteq> []" using that lu by auto
    then have "last (used a) \<noteq> 0"
      using wf(1) that by (auto simp: bi_wf_def bi_ok_def used_def last_take_nth len_def)
    then have "last (drop n (used a)) \<noteq> 0" "drop n (used a) \<noteq> []" using that lu by auto
    then have "BASE ^ (length (drop n (used a)) - 1) \<le> val (drop n (used a))"
      by (intro val_ge_top)
    then show ?thesis by (rule less_le_trans [rotated]) simp
  qed
qed

lemma wp_x_sub:
  assumes a: "bi_own a" and b: "bi_wf b"
  shows "wp (x_sub a b) (sub_result a b)"
  unfolding x_sub_def
proof (rule wp_bind [OF wp_x_sub_prepare [OF a b]])
  fix p
  assume p: "sub_prepared a b p"
  obtain x r where pr: "p = (x, r)" by (cases p)
  have x: "bi_ok x" "num x = num a" "\<not> const_size x" "used x = used a" "len a < bsize x" "len b < bsize x"
    "length (digits x) = bsize x" using p pr by (auto simp: sub_prepared_def)
  have lx: "len x = len a" using x by (simp add: len_def)
  have awf: "bi_wf a" using a by (rule bi_own_wf)
  have lb: "len b \<le> length (digits b)" using b by (auto dest: bi_ok_D bi_wf_ok)
  show "wp (case p of (a, r) \<Rightarrow> case r of None \<Rightarrow> Some (a\<lparr>num := 0\<rparr>)
     | Some (swap, num_a, num_b) \<Rightarrow> do {
         ds \<leftarrow> x_sub_digits swap (digits a) (digits b) num_a num_b;
         let a = a\<lparr>digits := ds\<rparr>;
         let a = (if swap then a\<lparr>num := (if num a < 0 then int num_a else - int num_a)\<rparr> else a);
         bigint_normalize a }) (sub_result a b)"
  proof (cases r)
    case None
    then have "mag a = mag b" using p pr by (simp add: sub_prepared_def)
    with None pr x show ?thesis
      by (auto simp: sub_result_def sub_stale_def bi_own_def bi_wf_def bi_ok_def len_def used_def)
  next
    case (Some q)
    obtain swap n m where q: "q = (swap, n, m)" by (cases q)
    have ops: "sub_operands a b (digits x) (digits b) (swap, n, m)"
      using p pr Some q by (auto simp: sub_prepared_def)
    have n: "n \<le> length (digits x)" "m \<le> length (digits b)"
      using ops x lb by (auto simp: sub_operands_def Let_def split: if_splits)
    let ?tail = "\<lambda>ds. let y = x\<lparr>digits := ds\<rparr>;
         y = (if swap then y\<lparr>num := (if num y < 0 then int n else - int n)\<rparr> else y) in bigint_normalize y"
    have "wp (do { ds \<leftarrow> x_sub_digits swap (digits x) (digits b) n m; ?tail ds }) (sub_result a b)"
    proof (rule wp_bind [OF sub_digits_into_a [OF ops n]], elim conjE)
      fix ds :: "u32 list"
      assume ds: "length ds = length (digits x)" "drop n ds = drop n (digits x)" "digits_ok (take n ds)"
        "int (val (take n ds)) = \<bar>int (mag a) - int (mag b)\<bar>"
      show "wp (?tail ds) (sub_result a b)"
      proof (cases swap)
        case True
        let ?y = "x\<lparr>digits := ds, num := (if num x < 0 then int n else - int n)\<rparr>"
        have len: "len ?y = n" by (simp add: len_def)
        have ok: "bi_ok ?y" unfolding bi_ok_def used_def len using ds x n by simp
        have lt: "mag a < mag b" using ops True by (simp add: sub_operands_def Let_def)
        have "n \<noteq> 0" using ops by (simp add: sub_operands_def Let_def)
        then have "bi_val ?y = (if num a < 0 then -1 else 1) * (int (mag a) - int (mag b))"
          unfolding bi_val_cases mag_def [of ?y] used_def len using ds(4) x lt by simp
        moreover have "\<not> sub_stale a b" using lt by (simp add: sub_stale_def)
        ultimately have "wp (bigint_normalize ?y) (sub_result a b)" using x
          by (intro wp_mono [OF wp_normalize [OF ok]]) (simp add: sub_result_def bi_own_def)
        then show ?thesis using True by (simp add: Let_def)
      next
        case False
        let ?y = "x\<lparr>digits := ds\<rparr>"
        note st = sub_stale_iff [OF awf b ops [unfolded eq_False [THEN iffD2, OF False]]]
        have len: "len ?y = len a" using lx by (simp add: len_def)
        have lt: "mag b < mag a" using ops False by (simp add: sub_operands_def Let_def)
        have "take (len a) ds = take n ds @ drop n (take (len a) ds)"
          using st(2) by (metis append_take_drop_id min.absorb1 take_take)
        also have "drop n (take (len a) ds) = drop n (used a)"
          using ds(2) x(4) lx by (metis drop_take used_def)
        finally have split: "take (len a) ds = take n ds @ drop n (used a)" .
        have ok: "bi_ok ?y" unfolding bi_ok_def used_def [of ?y] len
          using ds x awf by (auto simp: split bi_wf_def bi_ok_def dest: in_set_dropD simp: digits_ok_def)
        have mag: "mag ?y = val (take n ds) + BASE ^ n * val (drop n (used a))"
          unfolding mag_def [of ?y] used_def [of ?y] len using ds n by (simp add: split val_append)
        have val: "bi_val ?y = (if num a < 0 then -1 else 1) * int (mag ?y)"
          using x by (simp add: bi_val_cases)
        have res: "\<not> sub_stale a b \<Longrightarrow> int (mag ?y) = int (mag a) - int (mag b)"
          using st mag ds(4) lt bi_ok_D(4) [OF bi_wf_ok [OF awf]] by auto
        have res': "int (mag ?y) \<ge> int (mag a) - int (mag b) + int BASE" if "sub_stale a b"
        proof -
          have "0 < n" using ops by (simp add: sub_operands_def Let_def)
          then have "BASE ^ 1 \<le> BASE ^ n" by (intro power_increasing) auto
          also have "BASE ^ n \<le> 0 + BASE ^ n * val (drop n (used a))"
            using st that by (intro le_add_mult) auto
          finally have "val (take n ds) + BASE \<le> mag ?y" using mag by simp
          then show ?thesis using ds(4) lt by linarith
        qed
        have "sgn_a * bi_val ?y = int (mag ?y)" if "sgn_a = (if num a < 0 then -1 else 1)" for sgn_a
          using val that by simp
        with val res res' x have "wp (bigint_normalize ?y) (sub_result a b)"
          by (intro wp_mono [OF wp_normalize [OF ok]]) (simp add: sub_result_def bi_own_def Let_def)
        then show ?thesis using False by (simp add: Let_def)
      qed
    qed
    then show ?thesis by (simp add: pr Some q)
  qed
qed


lemma wp_x_sub2_prepare:
  assumes a: "bi_wf a" and b: "bi_own b"
  shows "wp (x_sub2_prepare a b) (\<lambda>(x, r). bi_ok x \<and> \<not> const_size x
    \<and> max (len a) (len b) < bsize x \<and> length (digits x) = bsize x
    \<and> (r = None \<longrightarrow> mag a = mag b) \<and> (\<forall>p. r = Some p \<longrightarrow> sub_operands a b (digits a) (digits x) p))"
    (is "wp _ ?Q")
proof -
  have bwf: "bi_wf b" "bi_ok b" "bi_room b n" "\<not> const_size b" for n
    using b by (auto intro: bi_weaken simp: bi_own_def)
  have a': "take (len a) (digits a) = used a" "len a \<le> length (digits a)"
    using a by (auto dest: bi_ok_D bi_wf_ok simp: used_def)
  define n where "n = max (len a) (len b)"
  have eq: "x_sub2_prepare a b = do {
     x \<leftarrow> ensure_bigint_size b (n + 1);
     if len a < len b then Some (x, Some (True, len b, len a))
     else if len a = len b then do {
         r \<leftarrow> top_difference (digits a) (digits x) (len a);
         case r of None \<Rightarrow> Some (x, None)
         | Some i \<Rightarrow> do { u \<leftarrow> rd (digits a) i; v \<leftarrow> rd (digits x) i; Some (x, Some (u < v, i + 1, i + 1)) } }
     else Some (x, Some (False, len a, len b)) }"
    unfolding x_sub2_prepare_def nat_fklAbs len_def [symmetric] n_def
    by (cases "len a < len b") (simp_all add: Let_def max_def)
  show ?thesis unfolding eq
  proof (rule wp_bind [OF wp_ensure_ok [OF bwf(2,3)]])
    fix x :: FklBigInt
    assume x: "bi_ok x \<and> num x = num b \<and> const_size x = const_size b \<and> n + 1 \<le> bsize x
      \<and> used x = used b \<and> length (digits x) = bsize x"
    then have lx: "len x = len b" and mx: "len a < bsize x" "len b < bsize x"
      by (auto simp: len_def n_def)
    have x': "take (len b) (digits x) = used b" "len b \<le> length (digits x)"
      using x lx by (auto simp: used_def n_def)
    show "wp (if len a < len b then Some (x, Some (True, len b, len a))
      else if len a = len b then do {
         r \<leftarrow> top_difference (digits a) (digits x) (len a);
         case r of None \<Rightarrow> Some (x, None)
         | Some i \<Rightarrow> do { u \<leftarrow> rd (digits a) i; v \<leftarrow> rd (digits x) i; Some (x, Some (u < v, i + 1, i + 1)) } }
      else Some (x, Some (False, len a, len b))) ?Q"
    proof (cases "len a" "len b" rule: linorder_cases)
      case less
      with x bwf mx show ?thesis using sub_operands_shorter [OF a bwf(1) less a'(1) x'(1) a'(2) x'(2)]
        by simp
    next
      case equal
      from x bwf mx have "\<And>y r. y = x \<and> (r = None \<longrightarrow> mag a = mag b)
          \<and> (\<forall>p. r = Some p \<longrightarrow> sub_operands a b (digits a) (digits x) p) \<Longrightarrow> ?Q (y, r)"
        by simp
      moreover have c: "\<not> len a < len b" using equal by simp
      ultimately show ?thesis unfolding if_not_P [OF c] if_P [OF equal]
        by (intro wp_mono [OF sub_operands_top [OF a bwf(1) equal a' x', of x]]) auto
    next
      case greater
      with x bwf mx show ?thesis using sub_operands_longer [OF a bwf(1) greater a'(1) x'(1) a'(2) x'(2)]
        by simp
    qed
  qed
qed

lemma wp_x_sub2:
  assumes a: "bi_wf a" and b: "bi_own b"
  shows "wp (x_sub2 a b) (\<lambda>r. bi_own r \<and> bi_val r = int (mag a) - int (mag b))"
    (is "wp _ ?Q")
  unfolding x_sub2_def
proof (rule wp_bind [OF wp_x_sub2_prepare [OF a b]])
  fix p
  assume p: "case p of (x, r) \<Rightarrow> bi_ok x \<and> \<not> const_size x
    \<and> max (len a) (len b) < bsize x \<and> length (digits x) = bsize x
    \<and> (r = None \<longrightarrow> mag a = mag b) \<and> (\<forall>p. r = Some p \<longrightarrow> sub_operands a b (digits a) (digits x) p)"
  obtain x r where pr: "p = (x, r)" by (cases p)
  have x: "bi_ok x" "\<not> const_size x" "len a < bsize x" "len b < bsize x"
    "length (digits x) = bsize x" using p pr by auto
  have la: "len a \<le> length (digits a)" using a by (auto dest: bi_ok_D bi_wf_ok)
  show "wp (case p of (b, r) \<Rightarrow> case r of None \<Rightarrow> Some (b\<lparr>num := 0\<rparr>)
     | Some (swap, num_a, num_b) \<Rightarrow> do {
         ds \<leftarrow> x_sub_digits (\<not> swap) (digits b) (digits a) num_a num_b;
         bigint_normalize (b\<lparr>digits := ds, num := (if swap then - int num_a else int num_a)\<rparr>) }) ?Q"
  proof (cases r)
    case None
    then have "mag a = mag b" using p pr by simp
    with None pr x show ?thesis
      by (auto simp: bi_own_def bi_wf_def bi_ok_def len_def used_def)
  next
    case (Some q)
    obtain swap n m where q: "q = (swap, n, m)" by (cases q)
    have ops: "sub_operands a b (digits a) (digits x) (swap, n, m)"
      using p pr Some q by auto
    have n: "n \<le> length (digits x)" "m \<le> length (digits a)"
      using ops x la by (auto simp: sub_operands_def Let_def split: if_splits)
    let ?y = "\<lambda>ds. x\<lparr>digits := ds, num := (if swap then - int n else int n)\<rparr>"
    have "wp (do { ds \<leftarrow> x_sub_digits (\<not> swap) (digits x) (digits a) n m; bigint_normalize (?y ds) }) ?Q"
    proof (rule wp_bind [OF sub_digits_into_b [OF ops n]], elim conjE)
      fix ds :: "u32 list"
      assume ds: "length ds = length (digits x)" "drop n ds = drop n (digits x)" "digits_ok (take n ds)"
        "int (val (take n ds)) = \<bar>int (mag a) - int (mag b)\<bar>"
      have len: "len (?y ds) = n" by (simp add: len_def)
      have ok: "bi_ok (?y ds)" unfolding bi_ok_def used_def len using ds x n by simp
      have s: "swap = (mag a < mag b)" "0 < n" using ops by (simp_all add: sub_operands_def Let_def)
      then have "bi_val (?y ds) = int (mag a) - int (mag b)"
        unfolding bi_val_cases mag_def [of "?y ds"] used_def [of "?y ds"] len using ds(4) by simp
      then show "wp (bigint_normalize (?y ds)) ?Q" using x
        by (intro wp_mono [OF wp_normalize [OF ok]]) (simp add: bi_own_def)
    qed
    then show ?thesis by (simp add: pr Some q)
  qed
qed

section \<open>The public operations\<close>

lemma wp_MEDIUM_VALUE:
  assumes "bi_wf b" "len b \<le> 1"
  shows "wp (MEDIUM_VALUE b) (\<lambda>v. sint v = bi_val b)" and "\<bar>bi_val b\<bar> < 1073741824"
proof -
  have ok: "bi_ok b" using assms(1) by (rule bi_wf_ok)
  have cases: "num b = 0 \<or> num b = 1 \<or> num b = -1" using assms(2) by (auto simp: len_def)
  have m: "mag b = unat (digits b ! 0) \<and> 0 < length (digits b) \<and> unat (digits b ! 0) < BASE" if "num b \<noteq> 0"
  proof -
    have l: "len b = 1" using cases that by (auto simp: len_def)
    then have "0 < length (digits b)" using bi_ok_D [OF ok] by simp
    moreover have "mag b = unat (digits b ! 0)" unfolding mag_def used_def l
      using calculation by (cases "digits b") auto
    moreover have "unat (digits b ! 0) < BASE" using bi_ok_D(3) [OF ok] l calculation(1)
      by (intro digits_ok_nth [of 1]) auto
    ultimately show ?thesis by simp
  qed
  have scast_pos: "sint (scast d :: i64) = int (unat d)" if "unat d < BASE" for d :: u32
    using uint_less_BASE [OF that] uint_range_32 [of d]
    by (simp add: sint_up_scast is_up sint_32)
  have scast_neg: "sint (scast (- d) :: i64) = - int (unat d)" if "unat d < BASE" for d :: u32
  proof (cases "uint d = 0")
    case True
    then have "d = 0" by (simp add: uint_0_iff)
    then show ?thesis by simp
  next
    case False
    then have "uint (- d) = 4294967296 - uint d"
      using uint_range_32 [of d] by (simp add: uint_word_ariths zmod_zminus1_eq_if)
    then show ?thesis using uint_less_BASE [OF that] uint_range_32 [of d]
      by (simp add: sint_up_scast is_up sint_32)
  qed
  show "wp (MEDIUM_VALUE b) (\<lambda>v. sint v = bi_val b)"
    using cases m scast_pos scast_neg by (auto simp: MEDIUM_VALUE_def bi_val_cases)
  show "\<bar>bi_val b\<bar> < 1073741824"
  proof -
    have "mag b < BASE" using m by (cases "num b = 0") auto
    then have "int (mag b) < int BASE" by (rule iffD2 [OF of_nat_less_iff])
    then show ?thesis by (auto simp: bi_val_cases BASE_def)
  qed
qed


lemma sint_add_small: "\<bar>sint x\<bar> < 1073741824 \<Longrightarrow> \<bar>sint y\<bar> < 1073741824 \<Longrightarrow> sint (x + y) = sint x + sint y"
  for x y :: i64
  by (simp add: sint_word_ariths signed_take_bit_int_eq_self)

lemma sint_diff_small: "\<bar>sint x\<bar> < 1073741824 \<Longrightarrow> \<bar>sint y\<bar> < 1073741824 \<Longrightarrow> sint (x - y) = sint x - sint y"
  for x y :: i64
  by (simp add: sint_word_ariths signed_take_bit_int_eq_self)

lemma wp_medium:
  assumes a: "bi_own a" and b: "bi_wf b" and l: "len a \<le> 1" "len b \<le> 1"
  shows "wp (do { x \<leftarrow> MEDIUM_VALUE a; y \<leftarrow> MEDIUM_VALUE b; fklSetBigIntI a (x + y) })
      (\<lambda>r. bi_own r \<and> bi_val r = bi_val a + bi_val b)"
    and "wp (do { x \<leftarrow> MEDIUM_VALUE a; y \<leftarrow> MEDIUM_VALUE b; fklSetBigIntI a (x - y) })
      (\<lambda>r. bi_own r \<and> bi_val r = bi_val a - bi_val b)"
proof -
  have awf: "bi_wf a" "bi_room a 3" using a by (auto intro: bi_weaken)
  note ma = wp_MEDIUM_VALUE [OF awf(1) l(1)] and mb = wp_MEDIUM_VALUE [OF b l(2)]
  have set: "wp (fklSetBigIntI a v) (\<lambda>r. bi_own r \<and> bi_val r = sint v)" for v
    by (rule wp_mono [OF wp_fklSetBigIntI [OF awf(2)]]) (use a in \<open>simp add: bi_own_def\<close>)
  show "wp (do { x \<leftarrow> MEDIUM_VALUE a; y \<leftarrow> MEDIUM_VALUE b; fklSetBigIntI a (x + y) })
      (\<lambda>r. bi_own r \<and> bi_val r = bi_val a + bi_val b)"
    by (rule wp_bind [OF ma(1)], rule wp_bind [OF mb(1)], rule wp_mono [OF set])
      (use ma(2) mb(2) in \<open>simp add: sint_add_small\<close>)
  show "wp (do { x \<leftarrow> MEDIUM_VALUE a; y \<leftarrow> MEDIUM_VALUE b; fklSetBigIntI a (x - y) })
      (\<lambda>r. bi_own r \<and> bi_val r = bi_val a - bi_val b)"
    by (rule wp_bind [OF ma(1)], rule wp_bind [OF mb(1)], rule wp_mono [OF set])
      (use ma(2) mb(2) in \<open>simp add: sint_diff_small\<close>)
qed

lemma wp_x_add_neg:
  assumes "bi_own a" "bi_wf b"
  shows "wp (do { a \<leftarrow> x_add a b; Some (neg_num a) }) (\<lambda>r. bi_own r \<and> bi_val r = - int (mag a + mag b))"
  unfolding wp_simps by (rule wp_mono [OF wp_x_add [OF assms]]) (auto simp: neg_num_def bi_own_def)

text \<open>Where \<open>fklAddBigInt\<close> and \<open>fklSubBigInt\<close> reach the fault of \<open>x_sub\<close>.\<close>

definition add_faulty :: "FklBigInt \<Rightarrow> FklBigInt \<Rightarrow> bool" where
  "add_faulty a b \<longleftrightarrow> 1 < len a \<and> 0 < num a \<and> num b < 0 \<and> sub_stale a b"

definition sub_faulty :: "FklBigInt \<Rightarrow> FklBigInt \<Rightarrow> bool" where
  "sub_faulty a b \<longleftrightarrow> 1 < len a \<and> num a \<noteq> 0 \<and> (num a < 0 \<longleftrightarrow> num b < 0) \<and> sub_stale a b"

lemma sub_stale_len: "bi_wf a \<Longrightarrow> bi_wf b \<Longrightarrow> sub_stale a b \<Longrightarrow> num a \<noteq> 0 \<and> len a = len b"
  by (auto simp: sub_stale_def)

lemma len_le_1: "fklAbs (num a) \<le> 1 \<longleftrightarrow> len a \<le> 1"
  by (auto simp: fklAbs_eq len_def)

text \<open>What the two operations compute in every case, the faulty one included.\<close>

lemma wp_add_spec:
  assumes a: "bi_own a" and b: "bi_wf b"
  shows "wp (fklAddBigInt a b) (\<lambda>r. bi_own r \<and> (\<not> add_faulty a b \<longrightarrow> bi_val r = bi_val a + bi_val b)
    \<and> (add_faulty a b \<longrightarrow> bi_val r \<ge> bi_val a + bi_val b + int BASE))"
proof (cases "len a \<le> 1 \<and> len b \<le> 1")
  case True
  then show ?thesis unfolding fklAddBigInt_def len_le_1
    by (auto simp: add_faulty_def intro!: wp_mono [OF wp_medium(1) [OF a b, unfolded wp_simps]])
next
  case False
  have awf: "bi_wf a" using a by (rule bi_own_wf)
  have big: "sub_stale a b \<Longrightarrow> 1 < len a" using False sub_stale_len [OF awf b] by auto
  have eq: "fklAddBigInt a b =
     (if num a < 0 then
        (if num b < 0 then do { a \<leftarrow> x_add a b; Some (neg_num a) } else x_sub2 b a)
      else if num b < 0 then x_sub a b else x_add a b)"
    using False unfolding fklAddBigInt_def len_le_1 by (simp only: if_False)
  consider (nn) "num a < 0" "num b < 0" | (np) "num a < 0" "\<not> num b < 0" | (pn) "\<not> num a < 0" "num b < 0"
    | (pp) "\<not> num a < 0" "\<not> num b < 0" by blast
  then show ?thesis
  proof cases
    case nn
    with eq show ?thesis
      by (auto simp: add_faulty_def bi_val_cases simp del: wp_simps intro!: wp_mono [OF wp_x_add_neg [OF a b]])
  next
    case np
    with eq show ?thesis
      by (auto simp: add_faulty_def bi_val_cases intro!: wp_mono [OF wp_x_sub2 [OF b a]])
  next
    case pn
    then have "add_faulty a b \<longleftrightarrow> sub_stale a b"
      using big sub_stale_len [OF awf b] by (auto simp: add_faulty_def)
    with pn eq show ?thesis
      by (auto simp: sub_result_def bi_val_cases intro!: wp_mono [OF wp_x_sub [OF a b]])
  next
    case pp
    with eq show ?thesis
      by (auto simp: add_faulty_def bi_val_cases intro!: wp_mono [OF wp_x_add [OF a b]])
  qed
qed

lemma wp_sub_spec:
  assumes a: "bi_own a" and b: "bi_wf b"
  shows "wp (fklSubBigInt a b) (\<lambda>r. bi_own r \<and> (\<not> sub_faulty a b \<longrightarrow> bi_val r = bi_val a - bi_val b)
    \<and> (sub_faulty a b \<longrightarrow> \<bar>bi_val r\<bar> \<ge> \<bar>bi_val a - bi_val b\<bar> + int BASE))"
proof (cases "len a \<le> 1 \<and> len b \<le> 1")
  case True
  then show ?thesis unfolding fklSubBigInt_def len_le_1
    by (auto simp: sub_faulty_def intro!: wp_mono [OF wp_medium(2) [OF a b, unfolded wp_simps]])
next
  case False
  have awf: "bi_wf a" using a by (rule bi_own_wf)
  have big: "sub_stale a b \<Longrightarrow> 1 < len a" using False sub_stale_len [OF awf b] by auto
  have eq: "fklSubBigInt a b =
     (if num a < 0 then
        (if num b < 0 then x_sub a b else do { a \<leftarrow> x_add a b; Some (neg_num a) })
      else if num b < 0 then x_add a b else x_sub a b)"
    using False unfolding fklSubBigInt_def len_le_1 by (simp only: if_False)
  consider (same) "num a < 0 \<longleftrightarrow> num b < 0" | (np) "num a < 0" "\<not> num b < 0" | (pn) "\<not> num a < 0" "num b < 0"
    by blast
  then show ?thesis
  proof cases
    case same
    then have f: "sub_faulty a b \<longleftrightarrow> sub_stale a b"
      using big sub_stale_len [OF awf b] by (auto simp: sub_faulty_def)
    have "fklSubBigInt a b = x_sub a b" using same eq by simp
    moreover have "sub_stale a b \<Longrightarrow> mag b < mag a" by (simp add: sub_stale_def)
    ultimately show ?thesis using same f
      by (auto simp: sub_result_def bi_val_cases intro!: wp_mono [OF wp_x_sub [OF a b]])
  next
    case np
    with eq show ?thesis
      by (auto simp: sub_faulty_def bi_val_cases simp del: wp_simps intro!: wp_mono [OF wp_x_add_neg [OF a b]])
  next
    case pn
    with eq show ?thesis
      by (auto simp: sub_faulty_def bi_val_cases intro!: wp_mono [OF wp_x_add [OF a b]])
  qed
qed


section \<open>Properties\<close>

text \<open>
  C13: addition is exact. For two well-formed big integers, the first with memory of its own,
  \<open>fklAddBigInt\<close> returns, reads and writes within its arrays, fires no assertion, leaves a
  normalised result, and the result is the sum of the two integers, unless a positive first
  operand meets a negative second one of the same length, the same top digit and a smaller magnitude.
\<close>

theorem fklAddBigInt_correct:
  assumes "bi_own a" and "bi_wf b" and "\<not> add_faulty a b"
  shows "\<exists>r. fklAddBigInt a b = Some r \<and> bi_own r \<and> bi_val r = bi_val a + bi_val b"
  using wp_add_spec [OF assms(1,2)] assms(3) by (auto elim: wpE)

theorem fklAddBigInt_correct_witness:
  "\<exists>r. fklAddBigInt \<lparr>digits = [1073741823, 1073741823], num = 2, bsize = 2, const_size = False\<rparr>
     \<lparr>digits = [1], num = 1, bsize = 1, const_size = False\<rparr> = Some r \<and> bi_own r \<and> bi_val r = 2 ^ 60"
proof -
  let ?a = "\<lparr>digits = [1073741823, 1073741823], num = 2, bsize = 2, const_size = False\<rparr>"
  let ?b = "\<lparr>digits = [1], num = 1, bsize = 1, const_size = False\<rparr>"
  note defs = bi_own_def bi_wf_def bi_ok_def used_def len_def BASE_def
  have "bi_val ?a + bi_val ?b = 2 ^ 60" by (simp add: bi_val_def mag_def used_def len_def BASE_def)
  moreover have "bi_own ?a" "bi_wf ?b" "\<not> add_faulty ?a ?b"
    by (simp_all add: defs add_faulty_def)
  ultimately show ?thesis using fklAddBigInt_correct [of ?a ?b] by simp
qed

text \<open>
  C24: subtraction is exact under the same conditions, unless the operands have the same sign, the
  same length and the same top digit, and the first has the larger magnitude.
\<close>

theorem fklSubBigInt_correct:
  assumes "bi_own a" and "bi_wf b" and "\<not> sub_faulty a b"
  shows "\<exists>r. fklSubBigInt a b = Some r \<and> bi_own r \<and> bi_val r = bi_val a - bi_val b"
  using wp_sub_spec [OF assms(1,2)] assms(3) by (auto elim: wpE)

theorem fklSubBigInt_correct_witness:
  "\<exists>r. fklSubBigInt \<lparr>digits = [0, 0, 1], num = 3, bsize = 3, const_size = False\<rparr>
     \<lparr>digits = [1], num = 1, bsize = 1, const_size = False\<rparr> = Some r \<and> bi_own r \<and> bi_val r = 2 ^ 60 - 1"
proof -
  let ?a = "\<lparr>digits = [0, 0, 1], num = 3, bsize = 3, const_size = False\<rparr>"
  let ?b = "\<lparr>digits = [1], num = 1, bsize = 1, const_size = False\<rparr>"
  have "bi_val ?a - bi_val ?b = 2 ^ 60 - 1" by (simp add: bi_val_def mag_def used_def len_def BASE_def)
  moreover have "bi_own ?a" "bi_wf ?b" "\<not> sub_faulty ?a ?b"
    by (simp_all add: bi_own_def bi_wf_def bi_ok_def used_def len_def BASE_def sub_faulty_def sub_stale_def)
  ultimately show ?thesis using fklSubBigInt_correct [of ?a ?b] by simp
qed

text \<open>
  The excluded case is a fault of the code. Whenever \<open>fklSubBigInt\<close> is given operands of
  the same sign, length and top digit, the first with the larger magnitude and more than one digit,
  the magnitude of its result is too large by at least the digit base: \<open>x_sub\<close> cuts
  \<open>num_a\<close> down to the highest differing digit but leaves \<open>a->num\<close> as it was.
\<close>

theorem fklSubBigInt_stale_digits:
  assumes "bi_own a" and "bi_wf b" and "sub_faulty a b"
  shows "\<exists>r. fklSubBigInt a b = Some r \<and> \<bar>bi_val r\<bar> \<ge> \<bar>bi_val a - bi_val b\<bar> + int BASE"
  using wp_sub_spec [OF assms(1,2)] assms(3) by (auto elim: wpE)

theorem fklSubBigInt_stale_digits_witness:
  "\<exists>r. fklSubBigInt \<lparr>digits = [5, 7], num = 2, bsize = 2, const_size = False\<rparr>
     \<lparr>digits = [3, 7], num = 2, bsize = 2, const_size = False\<rparr> = Some r \<and> \<bar>bi_val r\<bar> \<ge> 2 + 2 ^ 30"
proof -
  let ?a = "\<lparr>digits = [5, 7], num = 2, bsize = 2, const_size = False\<rparr>"
  let ?b = "\<lparr>digits = [3, 7], num = 2, bsize = 2, const_size = False\<rparr>"
  have "\<bar>bi_val ?a - bi_val ?b\<bar> + int BASE = 2 + 2 ^ 30"
    by (simp add: bi_val_def mag_def used_def len_def BASE_def)
  moreover have "bi_own ?a" "bi_wf ?b" "sub_faulty ?a ?b"
    by (simp_all add: bi_own_def bi_wf_def bi_ok_def used_def len_def BASE_def sub_faulty_def sub_stale_def
        mag_def)
  ultimately show ?thesis using fklSubBigInt_stale_digits [of ?a ?b] by simp
qed

end
