(* ===== verification/BigIntMul.thy ===== *)
theory BigIntMul
  imports BigIntAdd
begin

text \<open>
  Multiplication of src/bigint.c: the schoolbook product of two digit arrays into a fresh array,
  the short cuts for the operands 0, 1 and -1, and the variant with a 64-bit operand.
\<close>

section \<open>Operations\<close>

definition SAME_SIGN :: "FklBigInt \<Rightarrow> FklBigInt \<Rightarrow> bool" where
  "SAME_SIGN a b \<longleftrightarrow> (num a \<ge> 0 \<and> num b \<ge> 0) \<or> (num a < 0 \<and> num b < 0)"

text \<open>The inner loop: adds \<open>na * b\<close> to the result at position \<open>i\<close>.\<close>

definition mul_inner ::
  "FklBigIntDigit list \<Rightarrow> nat \<Rightarrow> nat \<Rightarrow> FklBigIntTwoDigit \<Rightarrow> FklBigIntDigit list
   \<Rightarrow> (FklBigIntDigit list \<times> FklBigIntTwoDigit) option" where
  "mul_inner bd num_b i na result =
     for_up 0 num_b (\<lambda>j (result, carry). do {
       nb \<leftarrow> rd bd j;
       r \<leftarrow> rd result (i + j);
       let carry = carry + (ucast r + na * ucast nb);
       result \<leftarrow> wr result (i + j) (ucast (carry AND FKL_BIGINT_DIGIT_MASK));
       Some (result, drop_bit FKL_BIGINT_DIGIT_SHIFT carry) }) (result, 0)"

definition mul_digits ::
  "FklBigIntDigit list \<Rightarrow> nat \<Rightarrow> FklBigIntDigit list \<Rightarrow> nat \<Rightarrow> FklBigIntDigit list option" where
  "mul_digits ad num_a bd num_b =
     for_up 0 num_a (\<lambda>i result. do {
       na \<leftarrow> rd ad i;
       (result, carry) \<leftarrow> mul_inner bd num_b i (ucast na) result;
       r \<leftarrow> rd result (i + num_b);
       wr result (i + num_b) (r + ucast carry) }) (replicate (num_a + num_b) 0)"

definition fklMulBigInt :: "FklBigInt \<Rightarrow> FklBigInt \<Rightarrow> FklBigInt option" where
  "fklMulBigInt a b = do {
     a0 \<leftarrow> FKL_BIGINT_IS_0 a;
     b1 \<leftarrow> FKL_BIGINT_IS_1 b;
     if a0 \<or> b1 then Some a else do {
     b0 \<leftarrow> FKL_BIGINT_IS_0 b;
     if b0 then Some (a\<lparr>num := 0\<rparr>) else do {
     bn1 \<leftarrow> FKL_BIGINT_IS_N1 b;
     if bn1 then Some (a\<lparr>num := - num a\<rparr>) else do {
     a1 \<leftarrow> FKL_BIGINT_IS_1 a;
     if a1 then fklSetBigInt a b else do {
     an1 \<leftarrow> FKL_BIGINT_IS_N1 a;
     if an1 then do { a \<leftarrow> fklSetBigInt a b; Some (a\<lparr>num := - num a\<rparr>) } else do {
       let num_a = nat (fklAbs (num a));
       let num_b = nat (fklAbs (num b));
       let total = num_a + num_b;
       result \<leftarrow> mul_digits (digits a) num_a (digits b) num_b;
       bigint_normalize (a\<lparr>digits := result, bsize := total,
         num := if SAME_SIGN a b then int total else - int total\<rparr>) } } } } } }"

definition fklMulBigIntI :: "FklBigInt \<Rightarrow> i64 \<Rightarrow> FklBigInt option" where
  "fklMulBigIntI b v = do { bi \<leftarrow> bigint_of_i64 v; fklMulBigInt b bi }"

section \<open>The product of two digit arrays\<close>

lemma mul_step:
  fixes c n m :: u64 and r :: u32
  assumes "unat c < BASE" "unat r < BASE" "unat n < BASE" "unat m < BASE"
  shows "unat (c + (ucast r + n * m)) = unat c + (unat r + unat n * unat m)"
    and "unat (c + (ucast r + n * m)) div BASE < BASE"
proof -
  have "unat n * unat m \<le> (BASE - 1) * (BASE - 1)"
    using assms by (intro mult_le_mono) auto
  also have "\<dots> = BASE * BASE - 2 * BASE + 1"
    by (simp add: BASE_def)
  finally have nm: "unat n * unat m + 2 * BASE \<le> BASE * BASE + 1" by (simp add: BASE_def)
  have sum: "unat c + (unat r + unat n * unat m) < BASE * BASE"
    using nm assms by linarith
  have r: "unat (ucast r :: u64) = unat r" by simp
  have b: "BASE * BASE < 2 ^ LENGTH(64)" by (simp add: BASE_def)
  have "unat (n * m) = unat n * unat m" using sum b by (intro unat_mult_less) linarith
  moreover have "unat (ucast r + n * m) = unat r + unat n * unat m"
    using calculation sum b r by (subst unat_add_less) simp_all
  ultimately show e: "unat (c + (ucast r + n * m)) = unat c + (unat r + unat n * unat m)"
    using sum b by (subst unat_add_less) simp_all
  show "unat (c + (ucast r + n * m)) div BASE < BASE"
    unfolding e using sum by (simp add: div_less_iff_less_mult)
qed

lemma unat_ucast_lo: "unat (ucast (w AND FKL_BIGINT_DIGIT_MASK) :: u32) = unat w mod BASE" for w :: u64
proof -
  have "unat (w AND FKL_BIGINT_DIGIT_MASK) < 4294967296"
    using unat_lo_less [of w] by (simp add: BASE_def del: unat_lo_less)
  then show ?thesis by (simp add: unat_ucast_mod unat_lo)
qed

lemma wp_mul_inner:
  assumes ad: "i + nb \<le> length res" "digits_ok res" and bd: "nb \<le> length bd" "digits_ok (take nb bd)"
    and na: "unat na < BASE"
  shows "wp (mul_inner bd nb i na res) (\<lambda>(ds, c). length ds = length res \<and> drop (i + nb) ds = drop (i + nb) res
    \<and> digits_ok (take (i + nb) ds) \<and> unat c < BASE
    \<and> val (take (i + nb) ds) + BASE ^ (i + nb) * unat c
      = val (take (i + nb) res) + BASE ^ i * (unat na * val (take nb bd)))"
  unfolding mul_inner_def
proof (rule wp_for_up [where I = "\<lambda>j (ds, c). length ds = length res \<and> drop (i + j) ds = drop (i + j) res
    \<and> digits_ok (take (i + j) ds) \<and> unat c < BASE
    \<and> val (take (i + j) ds) + BASE ^ (i + j) * unat c
      = val (take (i + j) res) + BASE ^ i * (unat na * val (take j bd))"])
  show "case (res, 0) of (ds, c) \<Rightarrow> length ds = length res \<and> drop (i + 0) ds = drop (i + 0) res
    \<and> digits_ok (take (i + 0) ds) \<and> unat c < BASE
    \<and> val (take (i + 0) ds) + BASE ^ (i + 0) * unat c
      = val (take (i + 0) res) + BASE ^ i * (unat na * val (take 0 bd))"
    using ad digits_ok_take [of "length res" res i] by (simp add: take_all)
next
  fix j and t :: "u32 list \<times> u64"
  assume "0 \<le> j" "j < nb" and inv: "case t of (ds, c) \<Rightarrow> length ds = length res
    \<and> drop (i + j) ds = drop (i + j) res \<and> digits_ok (take (i + j) ds) \<and> unat c < BASE
    \<and> val (take (i + j) ds) + BASE ^ (i + j) * unat c
      = val (take (i + j) res) + BASE ^ i * (unat na * val (take j bd))"
  obtain ds c where t: "t = (ds, c)" by (cases t)
  let ?r = "res ! (i + j)" and ?m = "bd ! j"
  have l: "i + j < length res" "i + j < length ds" "j < length bd" "ds ! (i + j) = ?r"
    using inv t \<open>j < nb\<close> ad bd drop_eq_nth [of "i + j" ds res "i + j"] by auto
  have lt: "unat ?r < BASE" "unat ?m < BASE"
    using ad bd l \<open>j < nb\<close> by (auto simp: digits_ok_def intro: digits_ok_nth)
  have um: "unat (ucast ?m :: u64) = unat ?m" by simp
  have c: "unat c < BASE" using inv t by simp
  let ?s = "c + (ucast ?r + na * ucast ?m)"
  have s: "unat ?s = unat c + (unat ?r + unat na * unat ?m)" and c': "unat ?s div BASE < BASE"
    using mul_step [OF c lt(1) na, of "ucast ?m"] lt um by simp_all
  have "val (take (i + j) ds) + BASE ^ (i + j) * (unat ?s mod BASE) + BASE ^ Suc (i + j) * (unat ?s div BASE)
      = val (take (i + j) ds) + BASE ^ (i + j) * unat ?s"
    by (simp only: add.assoc digit_step)
  also have "\<dots> = val (take (Suc (i + j)) res) + BASE ^ i * (unat na * val (take (Suc j) bd))"
    unfolding s using inv t l by (simp add: val_take_Suc algebra_simps power_add)
  finally have v: "val (take (i + j) ds) + BASE ^ (i + j) * (unat ?s mod BASE)
      + BASE ^ Suc (i + j) * (unat ?s div BASE)
      = val (take (Suc (i + j)) res) + BASE ^ i * (unat na * val (take (Suc j) bd))" .
  have d: "drop (Suc (i + j)) ds = drop (Suc (i + j)) res"
    using inv t drop_Suc_eq [of "i + j" ds res] by simp
  from inv t l c' v d show "wp (case t of (result, carry) \<Rightarrow> do {
       nb \<leftarrow> rd bd j;
       r \<leftarrow> rd result (i + j);
       let carry = carry + (ucast r + na * ucast nb);
       result \<leftarrow> wr result (i + j) (ucast (carry AND FKL_BIGINT_DIGIT_MASK));
       Some (result, drop_bit FKL_BIGINT_DIGIT_SHIFT carry) })
    (\<lambda>(ds, c). length ds = length res \<and> drop (i + Suc j) ds = drop (i + Suc j) res
    \<and> digits_ok (take (i + Suc j) ds) \<and> unat c < BASE
    \<and> val (take (i + Suc j) ds) + BASE ^ (i + Suc j) * unat c
      = val (take (i + Suc j) res) + BASE ^ i * (unat na * val (take (Suc j) bd)))"
    by (simp add: Let_def take_update unat_ucast_lo unat_hi)
qed simp_all


lemma unat_ucast_digit: "unat c < BASE \<Longrightarrow> unat (ucast c :: u32) = unat c" for c :: u64
proof -
  assume "unat c < BASE"
  then have "unat c < 4294967296" by (simp add: BASE_def)
  then show ?thesis by (simp add: unat_ucast_mod)
qed

lemma digits_ok_take_drop: "digits_ok (take n ds) \<Longrightarrow> drop n ds = replicate k 0 \<Longrightarrow> digits_ok ds"
  by (metis append_take_drop_id digits_ok_simps(3) BASE_gt0 digits_ok_def in_set_replicate unat_0)

lemma wp_mul_digits:
  assumes ad: "na \<le> length ad" "digits_ok (take na ad)" and bd: "nb \<le> length bd" "digits_ok (take nb bd)"
  shows "wp (mul_digits ad na bd nb) (\<lambda>ds. length ds = na + nb \<and> digits_ok ds
    \<and> val ds = val (take na ad) * val (take nb bd))"
  unfolding mul_digits_def
proof (rule wp_for_up [where I = "\<lambda>i ds. length ds = na + nb \<and> digits_ok (take (i + nb) ds)
    \<and> drop (i + nb) ds = replicate (na - i) 0
    \<and> val (take (i + nb) ds) = val (take i ad) * val (take nb bd)"])
  fix i and res :: "u32 list"
  assume "0 \<le> i" "i < na" and inv: "length res = na + nb \<and> digits_ok (take (i + nb) res)
    \<and> drop (i + nb) res = replicate (na - i) 0
    \<and> val (take (i + nb) res) = val (take i ad) * val (take nb bd)"
  let ?n = "ad ! i"
  have i: "i < length ad" "i + nb < length res" using \<open>i < na\<close> ad inv by auto
  have n: "unat (ucast ?n :: u64) < BASE" using ad i \<open>i < na\<close> by (auto intro: digits_ok_nth)
  have ok: "digits_ok res" using inv by (auto intro: digits_ok_take_drop)
  have z: "res ! (i + nb) = 0"
    using nth_drop [of "i + nb" res 0] inv \<open>i < na\<close> by simp
  have step: "wp (mul_inner bd nb i (ucast ?n) res) (\<lambda>(ds, c). length ds = length res
    \<and> drop (i + nb) ds = drop (i + nb) res \<and> digits_ok (take (i + nb) ds) \<and> unat c < BASE
    \<and> val (take (i + nb) ds) + BASE ^ (i + nb) * unat c
      = val (take (i + nb) res) + BASE ^ i * (unat (ucast ?n :: u64) * val (take nb bd)))"
    by (rule wp_mul_inner) (use i n ok bd in auto)
  let ?J = "\<lambda>ds. length ds = na + nb \<and> digits_ok (take (Suc i + nb) ds)
    \<and> drop (Suc i + nb) ds = replicate (na - Suc i) 0
    \<and> val (take (Suc i + nb) ds) = val (take (Suc i) ad) * val (take nb bd)"
  have "wp (do { (result, carry) \<leftarrow> mul_inner bd nb i (ucast ?n) res;
       r \<leftarrow> rd result (i + nb);
       wr result (i + nb) (r + ucast carry) }) ?J"
  proof (rule wp_bind [OF step])
    fix t :: "u32 list \<times> u64"
    assume t: "case t of (ds, c) \<Rightarrow> length ds = length res
      \<and> drop (i + nb) ds = drop (i + nb) res \<and> digits_ok (take (i + nb) ds) \<and> unat c < BASE
      \<and> val (take (i + nb) ds) + BASE ^ (i + nb) * unat c
        = val (take (i + nb) res) + BASE ^ i * (unat (ucast ?n :: u64) * val (take nb bd))"
    obtain ds c where tt: "t = (ds, c)" by (cases t)
    have l: "i + nb < length ds" "ds ! (i + nb) = 0"
      using t tt i z drop_eq_nth [of "i + nb" ds res "i + nb"] by auto
    have "drop (Suc (i + nb)) ds = drop (Suc (i + nb)) res"
      using t tt drop_Suc_eq [of "i + nb" ds res] by simp
    also have "\<dots> = tl (drop (i + nb) res)" by (simp add: drop_Suc tl_drop)
    also have "\<dots> = replicate (na - Suc i) 0" using inv \<open>i < na\<close> by (cases "na - i") auto
    finally have d: "drop (Suc (i + nb)) ds = replicate (na - Suc i) 0" .
    have "val (take (i + nb) ds) + BASE ^ (i + nb) * unat c = val (take (Suc i) ad) * val (take nb bd)"
      using t tt inv i by (simp add: val_take_Suc algebra_simps)
    then show "wp (case t of (result, carry) \<Rightarrow> do {
        r \<leftarrow> rd result (i + nb); wr result (i + nb) (r + ucast carry) }) ?J"
      using t tt l d inv by (simp add: take_update unat_ucast_digit)
  qed
  then show "wp (do { na \<leftarrow> rd ad i; (result, carry) \<leftarrow> mul_inner bd nb i (ucast na) res;
       r \<leftarrow> rd result (i + nb); wr result (i + nb) (r + ucast carry) }) ?J"
    using i by simp
next
  show "length (replicate (na + nb) 0) = na + nb \<and> digits_ok (take (0 + nb) (replicate (na + nb) (0 :: u32)))
    \<and> drop (0 + nb) (replicate (na + nb) (0 :: u32)) = replicate (na - 0) 0
    \<and> val (take (0 + nb) (replicate (na + nb) 0)) = val (take 0 ad) * val (take nb bd)"
    by (simp add: digits_ok_def)
qed auto

section \<open>The public operations\<close>

lemma wp_IS_small:
  assumes "bi_wf b"
  shows "wp (FKL_BIGINT_IS_0 b) (\<lambda>r. r = (bi_val b = 0))"
    and "wp (FKL_BIGINT_IS_1 b) (\<lambda>r. r = (bi_val b = 1))"
    and "wp (FKL_BIGINT_IS_N1 b) (\<lambda>r. r = (bi_val b = -1))"
proof -
  have ok: "bi_ok b" using assms by (rule bi_wf_ok)
  have one: "mag b = unat (digits b ! 0) \<and> 0 < length (digits b) \<and> digits b ! 0 \<noteq> 0" if "len b = 1"
  proof -
    have "0 < length (digits b)" using bi_ok_D [OF ok] that by simp
    moreover have "mag b = unat (digits b ! 0)" unfolding mag_def used_def that
      using calculation by (cases "digits b") auto
    moreover have "digits b ! 0 \<noteq> 0" using assms that by (auto simp: bi_wf_def)
    ultimately show ?thesis by simp
  qed
  have many: "BASE \<le> mag b" if "1 < len b"
  proof -
    have "BASE ^ 1 \<le> BASE ^ (len b - 1)" using that by (intro power_increasing) auto
    also have "\<dots> \<le> mag b" using assms that by (auto simp: bi_wf_alt)
    finally show ?thesis by simp
  qed
  have len1: "len b = 1 \<longleftrightarrow> num b = 1 \<or> num b = -1" by (auto simp: len_def)
  consider "num b = 0" | "num b = 1" | "num b = -1" | "1 < len b" "num b \<noteq> 0" "num b \<noteq> 1" "num b \<noteq> -1"
    unfolding len_def by linarith
  then have "wp (FKL_BIGINT_IS_0 b) (\<lambda>r. r = (bi_val b = 0))
    \<and> wp (FKL_BIGINT_IS_1 b) (\<lambda>r. r = (bi_val b = 1))
    \<and> wp (FKL_BIGINT_IS_N1 b) (\<lambda>r. r = (bi_val b = -1))"
  proof cases
    case 4
    then have "BASE \<le> mag b" "fklAbs (num b) \<noteq> 1" using many len1 by (auto simp: fklAbs_eq len_def)
    then have "2 \<le> mag b" using BASE_ge2 by linarith
    with 4 \<open>fklAbs (num b) \<noteq> 1\<close> show ?thesis
      by (auto simp: FKL_BIGINT_IS_0_def FKL_BIGINT_IS_1_def FKL_BIGINT_IS_N1_def bi_val_cases)
  qed (use one len1 in \<open>auto simp: FKL_BIGINT_IS_0_def FKL_BIGINT_IS_1_def FKL_BIGINT_IS_N1_def
      bi_val_cases fklAbs_def uint_small_iffs\<close>)
  then show "wp (FKL_BIGINT_IS_0 b) (\<lambda>r. r = (bi_val b = 0))"
    "wp (FKL_BIGINT_IS_1 b) (\<lambda>r. r = (bi_val b = 1))"
    "wp (FKL_BIGINT_IS_N1 b) (\<lambda>r. r = (bi_val b = -1))" by blast+
qed


definition mul_schoolbook :: "FklBigInt \<Rightarrow> FklBigInt \<Rightarrow> FklBigInt option" where
  "mul_schoolbook a b = do {
     result \<leftarrow> mul_digits (digits a) (len a) (digits b) (len b);
     bigint_normalize (a\<lparr>digits := result, bsize := len a + len b,
       num := if SAME_SIGN a b then int (len a + len b) else - int (len a + len b)\<rparr>) }"

lemma wp_mul_schoolbook:
  assumes a: "bi_own a" and b: "bi_wf b" and nz: "num a \<noteq> 0" "num b \<noteq> 0"
  shows "wp (mul_schoolbook a b) (\<lambda>r. bi_own r \<and> bi_val r = bi_val a * bi_val b)"
  unfolding mul_schoolbook_def
proof (rule wp_bind [OF wp_mul_digits])
  have aok: "bi_ok a" and bok: "bi_ok b" using a b by (auto intro: bi_weaken)
  show "len a \<le> length (digits a)" "digits_ok (take (len a) (digits a))"
    "len b \<le> length (digits b)" "digits_ok (take (len b) (digits b))"
    using bi_ok_D [OF aok] bi_ok_D [OF bok] by auto
  fix ds
  assume ds: "length ds = len a + len b \<and> digits_ok ds
    \<and> val ds = val (take (len a) (digits a)) * val (take (len b) (digits b))"
  let ?r = "a\<lparr>digits := ds, bsize := len a + len b,
     num := if SAME_SIGN a b then int (len a + len b) else - int (len a + len b)\<rparr>"
  have l: "len ?r = len a + len b" by (simp add: len_def nat_add_distrib)
  have ok: "bi_ok ?r" unfolding bi_ok_def used_def l using ds by simp
  have "0 < len a + len b" using nz by (simp add: len_def)
  then have "bi_val ?r = bi_val a * bi_val b"
    unfolding bi_val_cases mag_def [of ?r] used_def [of ?r] l using ds nz
    by (auto simp: SAME_SIGN_def mag_def used_def)
  then show "wp (bigint_normalize ?r) (\<lambda>r. bi_own r \<and> bi_val r = bi_val a * bi_val b)"
    using a by (intro wp_mono [OF wp_normalize [OF ok]]) (simp add: bi_own_def)
qed

lemma bi_val_neg_num: "bi_val (a\<lparr>num := - num a\<rparr>) = - bi_val a"
  by (simp add: bi_val_def mag_def used_def len_def)

lemma bi_own_zero: "bi_own a \<Longrightarrow> bi_own (a\<lparr>num := 0\<rparr>)"
  by (simp add: bi_own_def bi_wf_def bi_ok_def used_def len_def)

lemma wp_fklMulBigInt:
  assumes a: "bi_own a" and b: "bi_wf b"
  shows "wp (fklMulBigInt a b) (\<lambda>r. bi_own r \<and> bi_val r = bi_val a * bi_val b)"
proof -
  have awf: "bi_wf a" using a by (rule bi_own_wf)
  note sa = wp_IS_small [OF awf, THEN wpE] and sb = wp_IS_small [OF b, THEN wpE]
  have tests: "FKL_BIGINT_IS_0 a = Some (bi_val a = 0)" "FKL_BIGINT_IS_1 a = Some (bi_val a = 1)"
    "FKL_BIGINT_IS_N1 a = Some (bi_val a = -1)" "FKL_BIGINT_IS_0 b = Some (bi_val b = 0)"
    "FKL_BIGINT_IS_1 b = Some (bi_val b = 1)" "FKL_BIGINT_IS_N1 b = Some (bi_val b = -1)"
    using wp_IS_small [OF awf] wp_IS_small [OF b] by (auto simp: wp_iff)
  have set: "wp (fklSetBigInt a b) (\<lambda>r. bi_own r \<and> bi_val r = bi_val b \<and> num r = num b)"
    using a b by (intro wp_mono [OF wp_fklSetBigInt [OF b]]) (auto intro: bi_weaken simp: bi_own_def)
  have eq: "fklMulBigInt a b =
    (if bi_val a = 0 \<or> bi_val b = 1 then Some a
     else if bi_val b = 0 then Some (a\<lparr>num := 0\<rparr>)
     else if bi_val b = -1 then Some (a\<lparr>num := - num a\<rparr>)
     else if bi_val a = 1 then fklSetBigInt a b
     else if bi_val a = -1 then do { a \<leftarrow> fklSetBigInt a b; Some (a\<lparr>num := - num a\<rparr>) }
     else mul_schoolbook a b)"
    by (simp add: fklMulBigInt_def tests mul_schoolbook_def Let_def len_def)
  have nz: "bi_val a \<noteq> 0 \<Longrightarrow> num a \<noteq> 0" "bi_val b \<noteq> 0 \<Longrightarrow> num b \<noteq> 0"
    using bi_val_0_iff [OF awf] bi_val_0_iff [OF b] by auto
  show ?thesis unfolding eq
    using a nz wp_mul_schoolbook [OF a b]
    by (auto simp: bi_val_neg_num bi_own_zero intro!: wp_mono [OF set])
qed

section \<open>Properties\<close>

text \<open>
  C23: multiplication is exact. \<open>fklMulBigInt\<close> returns, stays within its arrays and leaves a
  normalised big integer that is the product of the two operands; no intermediate sum of the
  64-bit accumulator wraps.
\<close>

theorem fklMulBigInt_correct:
  assumes "bi_own a" and "bi_wf b"
  shows "\<exists>r. fklMulBigInt a b = Some r \<and> bi_own r \<and> bi_val r = bi_val a * bi_val b"
  using wp_fklMulBigInt [OF assms] by (auto elim: wpE)

theorem fklMulBigInt_correct_witness:
  "\<exists>r. fklMulBigInt \<lparr>digits = [0, 1], num = -2, bsize = 2, const_size = False\<rparr>
     \<lparr>digits = [0, 0, 2], num = 3, bsize = 3, const_size = False\<rparr> = Some r \<and> bi_own r \<and> bi_val r = - (2 ^ 91)"
proof -
  let ?a = "\<lparr>digits = [0, 1], num = -2, bsize = 2, const_size = False\<rparr>"
  let ?b = "\<lparr>digits = [0, 0, 2], num = 3, bsize = 3, const_size = False\<rparr>"
  have "bi_val ?a * bi_val ?b = - (2 ^ 91)" by (simp add: bi_val_def mag_def used_def len_def BASE_def)
  moreover have "bi_own ?a" "bi_wf ?b"
    by (simp_all add: bi_own_def bi_wf_def bi_ok_def used_def len_def BASE_def)
  ultimately show ?thesis using fklMulBigInt_correct [of ?a ?b] by simp
qed

end
