(* ===== verification/BigIntConv.thy ===== *)
theory BigIntConv
  imports BigIntMul
begin

text \<open>
  Conversions of src/bigint.c between big integers and 64-bit integers, the hash of a big integer,
  and the constructors that allocate one. The conversions saturate; the constructors differ from the
  initialisers of \<open>BigInt\<close> only in the memory the structure itself lives in.
\<close>

section \<open>Operations\<close>

definition fklHashCombine :: "u64 \<Rightarrow> u64 \<Rightarrow> u64" where
  "fklHashCombine seed hash = seed XOR (hash + 0x9e3779b9 + push_bit 6 seed + drop_bit 2 seed)"

definition fklBigIntHash :: "FklBigInt \<Rightarrow> u64 option" where
  "fklBigIntHash bi =
     for_up 0 (nat (fklAbs (num bi))) (\<lambda>i r. do {
       d \<leftarrow> rd (digits bi) i;
       Some (fklHashCombine r (ucast d)) }) (of_int (num bi))"

definition U64_MAX_BIGINT :: FklBigInt where
  "U64_MAX_BIGINT = \<lparr>digits = [0xffffffff AND FKL_BIGINT_DIGIT_MASK, 0xffffffff AND FKL_BIGINT_DIGIT_MASK,
     0x0000000f AND FKL_BIGINT_DIGIT_MASK], num = 3, bsize = 3, const_size = True\<rparr>"

definition I64_MIN_BIGINT :: FklBigInt where
  "I64_MIN_BIGINT = \<lparr>digits = [0x0, 0x0, 0x8], num = -3, bsize = 3, const_size = True\<rparr>"

definition I64_MAX_BIGINT :: FklBigInt where
  "I64_MAX_BIGINT = \<lparr>digits = [0xffffffff AND FKL_BIGINT_DIGIT_MASK, 0xffffffff AND FKL_BIGINT_DIGIT_MASK,
     0x00000007 AND FKL_BIGINT_DIGIT_MASK], num = 3, bsize = 3, const_size = True\<rparr>"

definition fklIsBigIntGtLtI64 :: "FklBigInt \<Rightarrow> bool option" where
  "fklIsBigIntGtLtI64 a = do {
     c \<leftarrow> fklBigIntCmp a I64_MAX_BIGINT;
     if c > 0 then Some True
     else do { c \<leftarrow> fklBigIntCmp a I64_MIN_BIGINT; Some (c < 0) } }"

text \<open>\<open>for (i = 0; i < n; i++) r |= ((uint64_t)bi->digits[i]) << (FKL_BIGINT_DIGIT_SHIFT * i);\<close>\<close>

definition collect_digits :: "FklBigInt \<Rightarrow> nat \<Rightarrow> u64 option" where
  "collect_digits bi n =
     for_up 0 n (\<lambda>i r. do {
       d \<leftarrow> rd (digits bi) i;
       Some (r OR push_bit (FKL_BIGINT_DIGIT_SHIFT * i) (ucast d)) }) 0"

definition fklBigIntToU :: "FklBigInt \<Rightarrow> u64 option" where
  "fklBigIntToU bi =
     (if num bi \<le> 0 then Some 0
      else if num bi > 3 then Some (- 1)
      else do {
        big \<leftarrow> (if num bi > 2 then do { c \<leftarrow> fklBigIntCmp bi U64_MAX_BIGINT; Some (c > 0) } else Some False);
        if big then Some (- 1) else collect_digits bi (nat (num bi)) })"

definition INT64_MIN :: i64 where "INT64_MIN = push_bit 63 1"
definition INT64_MAX :: i64 where "INT64_MAX = INT64_MIN - 1"

text \<open>The negation of \<open>r\<close> is that of 64-bit words, also for \<open>INT64_MIN\<close>.\<close>

definition fklBigIntToI :: "FklBigInt \<Rightarrow> i64 option" where
  "fklBigIntToI bi =
     (if num bi < -3 then Some INT64_MIN
      else do {
        small \<leftarrow> (if num bi < -2 then do { c \<leftarrow> fklBigIntCmp bi I64_MIN_BIGINT; Some (c < 0) } else Some False);
        if small then Some INT64_MIN
        else if num bi = 0 then Some 0
        else if num bi > 3 then Some INT64_MAX
        else do {
          big \<leftarrow> (if num bi > 2 then do { c \<leftarrow> fklBigIntCmp bi I64_MAX_BIGINT; Some (c > 0) } else Some False);
          if big then Some INT64_MAX
          else do {
            r \<leftarrow> collect_digits bi (nat (fklAbs (num bi)));
            Some (if num bi < 0 then - r else r) } } })"

text \<open>The constructors of objects on the heap: \<open>fklZmalloc\<close> and the initialiser.\<close>

definition fklUninitBigInt :: "FklBigInt \<Rightarrow> FklBigInt" where
  "fklUninitBigInt b = FKL_BIGINT_0"

definition fklCreateBigInt0 :: "FklBigInt option" where
  "fklCreateBigInt0 = Some FKL_BIGINT_0"

definition fklCreateBigInt1 :: "FklBigInt option" where
  "fklCreateBigInt1 = do { b \<leftarrow> fklCreateBigInt0; fklInitBigInt1 }"

definition fklCreateBigIntN1 :: "FklBigInt option" where
  "fklCreateBigIntN1 = do { b \<leftarrow> fklCreateBigInt0; fklInitBigIntN1 }"

definition fklCreateBigIntI :: "i64 \<Rightarrow> FklBigInt option" where
  "fklCreateBigIntI v = do { b \<leftarrow> fklCreateBigInt0; fklInitBigIntI v }"

definition fklCreateBigIntU :: "u64 \<Rightarrow> FklBigInt option" where
  "fklCreateBigIntU v = do { b \<leftarrow> fklCreateBigInt0; fklInitBigIntU v }"

definition fklCopyBigInt :: "FklBigInt \<Rightarrow> FklBigInt option" where
  "fklCopyBigInt b = do { r \<leftarrow> fklCreateBigInt0; fklSetBigInt r b }"

section \<open>The number determines the representation\<close>

lemma sgn_bi_val: "bi_wf a \<Longrightarrow> sgn (bi_val a) = sgn (num a)"
  using mag_pos [of a] by (cases "num a = 0") (auto simp: bi_val_def sgn_mult)

lemma uint_of_unat: "unat w = m \<Longrightarrow> uint w = int m"
  by auto

lemma bi_canonical:
  assumes "bi_wf a" "bi_wf b" "bi_val a = bi_val b"
  shows "num a = num b" "used a = used b"
proof -
  have sg: "sgn (num a) = sgn (num b)" using assms sgn_bi_val by metis
  have abs: "\<bar>bi_val c\<bar> = int (mag c)" for c
    by (auto simp: bi_val_cases mag_def used_def)
  have m: "mag a = mag b" "sgn (num a) = sgn (num b)" using sg abs [of a] abs [of b] assms(3) by simp_all
  then have l: "len a = len b" using mag_eq_len assms by blast
  then show "num a = num b" using m(2) by (auto simp: len_def sgn_if split: if_splits)
  show "used a = used b"
  proof (rule val_inj)
    show "digits_ok (used a)" "digits_ok (used b)" using assms by (simp_all add: bi_wf_def bi_ok_def)
    show "length (used a) = length (used b)" using assms l by (simp add: bi_wf_def bi_ok_def used_def)
    show "val (used a) = val (used b)" using m by (simp add: mag_def)
  qed
qed

lemma hash_used:
  assumes "bi_wf a"
  shows "fklBigIntHash a = Some (foldl (\<lambda>r d. fklHashCombine r (ucast d)) (of_int (num a)) (used a))"
proof -
  let ?h = "\<lambda>r d. fklHashCombine r (ucast (d :: u32))"
  have l: "len a \<le> length (digits a)" using assms by (auto simp: bi_wf_def bi_ok_def)
  have "wp (fklBigIntHash a) (\<lambda>r. r = foldl ?h (of_int (num a)) (take (len a) (digits a)))"
    unfolding fklBigIntHash_def nat_fklAbs len_def [symmetric]
    by (rule wp_for_up [where I = "\<lambda>i r. r = foldl ?h (of_int (num a)) (take i (digits a))"])
      (use l in \<open>auto simp: take_Suc_conv_app_nth\<close>)
  then show ?thesis by (auto simp: used_def elim: wpE)
qed

lemma fklBigIntEqual_eq:
  assumes "bi_wf a" "bi_wf b"
  shows "fklBigIntEqual a b = Some (bi_val a = bi_val b)"
proof -
  have l: "len a \<le> length (digits a)" "len b \<le> length (digits b)"
    using assms by (auto simp: bi_wf_def bi_ok_def)
  show ?thesis
  proof (cases "num a = num b")
    case True
    then have n: "len b = len a" by (simp add: len_def)
    have "fklBigIntEqual a b = Some (used a = used b)"
      using True l n by (simp add: fklBigIntEqual_def memeq_def used_def) (simp add: len_def)
    moreover have "used a = used b \<longleftrightarrow> bi_val a = bi_val b"
      using bi_canonical(2) [OF assms] True by (auto simp: bi_val_def mag_def)
    ultimately show ?thesis by simp
  next
    case False
    then show ?thesis using bi_canonical(1) [OF assms] by (auto simp: fklBigIntEqual_def)
  qed
qed

lemma wp_fklBigIntAbsCmp:
  assumes "bi_wf a" "bi_wf b"
  shows "wp (fklBigIntAbsCmp a b) (\<lambda>r. r = sgn (\<bar>bi_val a\<bar> - \<bar>bi_val b\<bar>))"
proof -
  have s: "sign_of n = sgn n" for n by (simp add: sign_of_def sgn_if)
  have abs: "\<bar>bi_val c\<bar> = int (mag c)" for c
    by (auto simp: bi_val_cases mag_def used_def)
  show ?thesis
  proof (cases "len a = len b")
    case True
    then have "fklAbs (num a) = fklAbs (num b)" by (simp add: len_def fklAbs_eq)
    then show ?thesis using wp_x_cmp [OF bi_wf_ok bi_wf_ok True, OF assms]
      by (auto simp: fklBigIntAbsCmp_def s abs elim!: wp_mono)
  next
    case False
    then have "fklAbs (num a) \<noteq> fklAbs (num b)" "fklAbs (num a) = int (len a)" "fklAbs (num b) = int (len b)"
      by (auto simp: len_def fklAbs_eq)
    then show ?thesis using mag_len_less [OF assms] mag_len_less [OF assms(2,1)] False
      by (auto simp: fklBigIntAbsCmp_def s abs sgn_if)
  qed
qed

section \<open>Conversions\<close>

lemma bi_constants:
  "bi_wf U64_MAX_BIGINT" "bi_val U64_MAX_BIGINT = 2 ^ 64 - 1"
  "bi_wf I64_MIN_BIGINT" "bi_val I64_MIN_BIGINT = - (2 ^ 63)"
  "bi_wf I64_MAX_BIGINT" "bi_val I64_MAX_BIGINT = 2 ^ 63 - 1"
  by (simp_all add: U64_MAX_BIGINT_def I64_MIN_BIGINT_def I64_MAX_BIGINT_def FKL_BIGINT_DIGIT_MASK_def
      FKL_BIGINT_DIGIT_BASE_def bi_wf_def bi_ok_def used_def len_def BASE_def bi_val_cases mag_def)

lemma wp_Cmp_const:
  assumes "bi_wf a" "bi_wf c"
  shows "wp (fklBigIntCmp a c) (\<lambda>r. (0 < r \<longleftrightarrow> bi_val c < bi_val a) \<and> (r < 0 \<longleftrightarrow> bi_val a < bi_val c))"
  by (rule wp_mono [OF wp_fklBigIntCmp [OF assms]]) (auto simp: sgn_if)

lemma wp_collect:
  assumes "bi_ok b" "mag b < 2 ^ 64"
  shows "wp (collect_digits b (len b)) (\<lambda>r. unat r = mag b)"
  unfolding collect_digits_def mag_def used_def
proof (rule wp_for_up [where I = "\<lambda>i r. unat r = val (take i (digits b))"])
  have ok: "len b \<le> length (digits b)" "digits_ok (take (len b) (digits b))" using bi_ok_D [OF assms(1)] by auto
  fix i and r :: u64
  assume i: "0 \<le> i" "i < len b" and r: "unat r = val (take i (digits b))"
  have l: "i < length (digits b)" using i ok by simp
  let ?d = "digits b ! i"
  have pw: "BASE ^ i = 2 ^ (30 * i)" by (simp add: BASE_def power_mult)
  have "val (take (Suc i) (digits b)) \<le> mag b"
    using val_split_at [of i "len b" "digits b"] i ok l by (simp add: mag_def used_def val_take_Suc)
  then have "unat r + 2 ^ (30 * i) * unat ?d < 2 ^ 64"
    using assms(2) r l by (simp add: val_take_Suc pw)
  moreover have "unat r < 2 ^ (30 * i)" unfolding r pw [symmetric]
    by (rule val_take_less) (use ok i in \<open>auto intro: digits_ok_take\<close>)
  ultimately have "unat (r OR push_bit (30 * i) (ucast ?d)) = unat r + 2 ^ (30 * i) * unat ?d"
    by (subst or_push_bit) simp_all
  then show "wp (do { d \<leftarrow> rd (digits b) i; Some (r OR push_bit (FKL_BIGINT_DIGIT_SHIFT * i) (ucast d)) })
    (\<lambda>r. unat r = val (take (Suc i) (digits b)))"
    using l r by (simp add: val_take_Suc pw)
qed simp_all

lemma mag_bounds:
  assumes "bi_wf b"
  shows "len b \<le> 2 \<Longrightarrow> mag b < 2 ^ 63" "3 < len b \<Longrightarrow> 2 ^ 64 \<le> mag b"
proof -
  have ok: "len b \<le> length (digits b)" "digits_ok (take (len b) (digits b))"
    using assms bi_ok_D [of b] by (auto simp: bi_wf_ok)
  have u: "mag b < BASE ^ len b" unfolding mag_def used_def using ok by (intro val_take_less)
  show "mag b < 2 ^ 63" if "len b \<le> 2"
  proof -
    have "BASE ^ len b \<le> BASE ^ 2" using that by (intro power_increasing) auto
    with u show ?thesis by (simp add: BASE_def)
  qed
  show "2 ^ 64 \<le> mag b" if "3 < len b"
  proof -
    have "BASE ^ 3 \<le> BASE ^ (len b - 1)" using that by (intro power_increasing) auto
    also have "\<dots> \<le> mag b" using assms that by (auto simp: bi_wf_alt)
    finally show ?thesis by (simp add: BASE_def)
  qed
qed

lemma wp_fklBigIntToU:
  assumes "bi_wf b"
  shows "wp (fklBigIntToU b) (\<lambda>r. uint r = min (2 ^ 64 - 1) (max 0 (bi_val b)))"
proof -
  have ok: "bi_ok b" using assms by (rule bi_wf_ok)
  have max: "uint (- 1 :: u64) = 2 ^ 64 - 1" by (simp add: unsigned_minus_1_eq_mask mask_eq_exp_minus_1)
  consider "num b \<le> 0" | "3 < num b" | "0 < num b" "num b \<le> 3" by linarith
  then show ?thesis
  proof cases
    case 1
    then have "bi_val b \<le> 0" by (simp add: bi_val_cases)
    then show ?thesis using 1 by (simp add: fklBigIntToU_def)
  next
    case 2
    then have "2 ^ 64 \<le> bi_val b" using mag_bounds(2) [OF assms] by (simp add: bi_val_cases len_def)
    then show ?thesis using 2 max by (simp add: fklBigIntToU_def)
  next
    case 3
    then have v: "bi_val b = int (mag b)" "nat (num b) = len b" by (simp_all add: bi_val_cases len_def)
    have c: "wp (collect_digits b (len b)) (\<lambda>r. uint r = min (2 ^ 64 - 1) (max 0 (bi_val b)))"
      if "mag b < 2 ^ 64"
      by (rule wp_mono [OF wp_collect [OF ok that]]) (use v that in \<open>auto dest!: uint_of_unat\<close>)
    show ?thesis
    proof (cases "2 < num b")
      case False
      then have "len b \<le> 2" using 3 by (simp add: len_def)
      then have "mag b < 2 ^ 63" by (rule mag_bounds(1) [OF assms])
      then have "mag b < 2 ^ 64" by simp
      then show ?thesis using 3 False v c by (simp add: fklBigIntToU_def)
    next
      case True
      show ?thesis using 3 True v c bi_constants max
        by (auto simp: fklBigIntToU_def intro!: wp_mono [OF wp_Cmp_const [OF assms bi_constants(1)]])
    qed
  qed
qed

lemma int64_limits: "sint INT64_MIN = - (2 ^ 63)" "sint INT64_MAX = 2 ^ 63 - 1"
  by (simp_all add: INT64_MIN_def INT64_MAX_def)

lemma sint_of_mag:
  "unat r = m \<Longrightarrow> m < 2 ^ 63 \<Longrightarrow> sint r = int m" "unat r = m \<Longrightarrow> m \<le> 2 ^ 63 \<Longrightarrow> sint (- r) = - int m" for r :: i64
proof -
  show "sint r = int m" if "unat r = m" "m < 2 ^ 63"
  proof -
    have "uint r = int m" using that by auto
    then show ?thesis using that(2) by (simp add: sint_64)
  qed
  assume r: "unat r = m" "m \<le> 2 ^ 63"
  then obtain k where k: "uint r = k" "int m = k" "k \<le> 2 ^ 63" "0 \<le> k" by auto
  show "sint (- r) = - int m"
  proof (cases "k = 0")
    case False
    then have "(- k) mod 18446744073709551616 = 18446744073709551616 - k"
      using k by (subst mod_neg_once) auto
    then show ?thesis using k False by (simp add: sint_64 uint_word_ariths)
  qed (use k in \<open>simp add: sint_64 uint_word_ariths\<close>)
qed

lemma wp_fklBigIntToI:
  assumes "bi_wf b"
  shows "wp (fklBigIntToI b) (\<lambda>r. sint r = max (- (2 ^ 63)) (min (2 ^ 63 - 1) (bi_val b)))"
proof -
  have ok: "bi_ok b" using assms by (rule bi_wf_ok)
  have len: "nat (fklAbs (num b)) = len b" by (simp add: len_def)
  have pos: "wp (collect_digits b (len b)) (\<lambda>r. sint r = bi_val b)" if "0 < num b" "mag b < 2 ^ 63"
    by (rule wp_mono [OF wp_collect [OF ok]]) (use that in \<open>simp_all add: bi_val_cases sint_of_mag(1)\<close>)
  have neg: "wp (collect_digits b (len b)) (\<lambda>r. sint (- r) = bi_val b)" if "num b < 0" "mag b \<le> 2 ^ 63"
    by (rule wp_mono [OF wp_collect [OF ok]]) (use that in \<open>simp_all add: bi_val_cases sint_of_mag(2)\<close>)
  consider "num b < -3" | "num b = -3" | "num b = -2 \<or> num b = -1" | "num b = 0" | "num b = 1 \<or> num b = 2" | "num b = 3" | "3 < num b"
    by linarith
  then show ?thesis
  proof cases
    case 1
    then have "bi_val b \<le> - (2 ^ 64)" using mag_bounds(2) [OF assms] by (simp add: bi_val_cases len_def)
    then show ?thesis using 1 int64_limits by (simp add: fklBigIntToI_def)
  next
    case 2
    then have v: "bi_val b = - int (mag b)" by (simp add: bi_val_cases)
    show ?thesis using 2 v neg bi_constants int64_limits
      by (auto simp: fklBigIntToI_def len intro!: wp_mono [OF wp_Cmp_const [OF assms bi_constants(3)]] wp_mono [OF neg])
  next
    case 3
    then have "mag b < 2 ^ 63" "bi_val b = - int (mag b)" using mag_bounds(1) [OF assms] by (auto simp: len_def bi_val_cases)
    moreover have "fklBigIntToI b = do { r \<leftarrow> collect_digits b (len b); Some (- r) }"
      using 3 by (auto simp: fklBigIntToI_def len_def)
    ultimately show ?thesis using 3 by (auto intro!: wp_mono [OF neg])
  next
    case 4
    then show ?thesis by (simp add: fklBigIntToI_def bi_val_cases)
  next
    case 5
    then have "mag b < 2 ^ 63" "bi_val b = int (mag b)" using mag_bounds(1) [OF assms] by (auto simp: len_def bi_val_cases)
    moreover have "fklBigIntToI b = collect_digits b (len b)"
      using 5 by (auto simp: fklBigIntToI_def len_def)
    ultimately show ?thesis using 5 by (auto intro!: wp_mono [OF pos])
  next
    case 6
    then have v: "bi_val b = int (mag b)" by (simp add: bi_val_cases)
    show ?thesis using 6 v pos bi_constants int64_limits
      by (auto simp: fklBigIntToI_def len intro!: wp_mono [OF wp_Cmp_const [OF assms bi_constants(5)]] wp_mono [OF pos])
  next
    case 7
    then have "2 ^ 64 \<le> bi_val b" using mag_bounds(2) [OF assms] by (simp add: bi_val_cases len_def)
    then show ?thesis using 7 int64_limits by (simp add: fklBigIntToI_def)
  qed
qed

section \<open>Properties\<close>

text \<open>
  The conversion to \<open>uint64_t\<close> saturates: it gives the number itself where it fits, zero for a
  negative number and the largest unsigned integer for a number above it.
\<close>

theorem fklBigIntToU_saturates:
  assumes "bi_wf b"
  shows "\<exists>r. fklBigIntToU b = Some r \<and> uint r = min (2 ^ 64 - 1) (max 0 (bi_val b))"
  using wp_fklBigIntToU [OF assms] by (auto elim!: wpE)

theorem fklBigIntToU_saturates_witness:
  "\<exists>r. fklBigIntToU \<lparr>digits = [0, 0, 0, 1], num = 4, bsize = 4, const_size = False\<rparr> = Some r \<and> uint r = 2 ^ 64 - 1"
proof -
  let ?b = "\<lparr>digits = [0, 0, 0, 1], num = 4, bsize = 4, const_size = False\<rparr>"
  have "bi_wf ?b" "bi_val ?b = 2 ^ 90"
    by (simp_all add: bi_wf_def bi_ok_def used_def len_def BASE_def bi_val_def mag_def)
  then show ?thesis using fklBigIntToU_saturates [of ?b] by simp
qed

text \<open>
  The conversion to \<open>int64_t\<close> saturates at both ends, the negation of \<open>INT64_MIN\<close> being the one
  of 64-bit words; and \<open>fklIsBigIntGtLtI64\<close> tells the numbers for which it does not give the number
  itself.
\<close>

theorem fklBigIntToI_saturates:
  assumes "bi_wf b"
  shows "\<exists>r g. fklBigIntToI b = Some r \<and> sint r = max (- (2 ^ 63)) (min (2 ^ 63 - 1) (bi_val b))
    \<and> fklIsBigIntGtLtI64 b = Some g \<and> (g \<longleftrightarrow> sint r \<noteq> bi_val b)"
proof -
  have "wp (fklIsBigIntGtLtI64 b) (\<lambda>g. g \<longleftrightarrow> \<not> (- (2 ^ 63) \<le> bi_val b \<and> bi_val b \<le> 2 ^ 63 - 1))"
    unfolding fklIsBigIntGtLtI64_def using bi_constants
    by (auto intro!: wp_mono [OF wp_Cmp_const [OF assms bi_constants(5)]] wp_mono [OF wp_Cmp_const [OF assms bi_constants(3)]])
  then show ?thesis using wp_fklBigIntToI [OF assms] by (auto elim!: wpE)
qed

theorem fklBigIntToI_saturates_witness:
  "\<exists>r. fklBigIntToI \<lparr>digits = [0, 0, 8], num = -3, bsize = 3, const_size = False\<rparr> = Some r \<and> sint r = - (2 ^ 63)"
proof -
  let ?b = "\<lparr>digits = [0, 0, 8], num = -3, bsize = 3, const_size = False\<rparr>"
  have "bi_wf ?b" "bi_val ?b = - (2 ^ 63)"
    by (simp_all add: bi_wf_def bi_ok_def used_def len_def BASE_def bi_val_def mag_def)
  then show ?thesis using fklBigIntToI_saturates [of ?b] by auto
qed

text \<open>
  The hash is compatible with equality: two big integers that stand for the same number, in
  whatever arrays, have the same hash.
\<close>

theorem fklBigIntHash_respects_value:
  assumes "bi_wf a" and "bi_wf b" and "bi_val a = bi_val b"
  shows "\<exists>h. fklBigIntHash a = Some h \<and> fklBigIntHash b = Some h"
  using hash_used [OF assms(1)] hash_used [OF assms(2)] bi_canonical [OF assms] by simp

theorem fklBigIntHash_respects_value_witness:
  "\<exists>h. fklBigIntHash \<lparr>digits = [7], num = -1, bsize = 1, const_size = False\<rparr> = Some h
     \<and> fklBigIntHash \<lparr>digits = [7, 9], num = -1, bsize = 2, const_size = True\<rparr> = Some h"
  by (rule fklBigIntHash_respects_value)
    (simp_all add: bi_wf_def bi_ok_def used_def len_def BASE_def bi_val_def mag_def)

text \<open>
  The comparisons decide the order of the numbers: \<open>fklBigIntCmp\<close> gives the sign of their
  difference, \<open>fklBigIntAbsCmp\<close> that of the difference of their magnitudes, \<open>fklBigIntEqual\<close> tells
  whether they are equal, and the comparison with a 64-bit integer agrees.
\<close>

theorem fklBigIntCmp_orders:
  assumes "bi_wf a" and "bi_wf b"
  shows "fklBigIntCmp a b = Some (sgn (bi_val a - bi_val b))
    \<and> fklBigIntAbsCmp a b = Some (sgn (\<bar>bi_val a\<bar> - \<bar>bi_val b\<bar>))
    \<and> fklBigIntEqual a b = Some (bi_val a = bi_val b)
    \<and> fklBigIntCmpI a v = Some (sgn (bi_val a - sint v))
    \<and> fklBigIntCmpU a v = Some (sgn (bi_val a - uint v))"
proof -
  have "wp (fklBigIntCmpI a v) (\<lambda>r. r = sgn (bi_val a - sint v))" unfolding fklBigIntCmpI_def wp_simps
    by (rule wp_mono [OF wp_bigint_of_i64]) (use wp_fklBigIntCmp [OF assms(1)] in force)
  moreover have "wp (fklBigIntCmpU a v) (\<lambda>r. r = sgn (bi_val a - uint v))" unfolding fklBigIntCmpU_def wp_simps
    by (rule wp_mono [OF wp_bigint_of_u64]) (use wp_fklBigIntCmp [OF assms(1)] in force)
  ultimately show ?thesis
    using wp_fklBigIntCmp [OF assms] wp_fklBigIntAbsCmp [OF assms] fklBigIntEqual_eq [OF assms]
    by (auto elim!: wpE)
qed

theorem fklBigIntCmp_orders_witness:
  "fklBigIntCmp \<lparr>digits = [7, 2], num = -2, bsize = 2, const_size = False\<rparr>
     \<lparr>digits = [7], num = 1, bsize = 1, const_size = False\<rparr> = Some (- 1)"
proof -
  let ?a = "\<lparr>digits = [7, 2], num = -2, bsize = 2, const_size = False\<rparr>"
  let ?b = "\<lparr>digits = [7], num = 1, bsize = 1, const_size = False\<rparr>"
  have "bi_wf ?a" "bi_wf ?b" "bi_val ?a - bi_val ?b < 0"
    by (simp_all add: bi_wf_def bi_ok_def used_def len_def BASE_def bi_val_def mag_def)
  then show ?thesis using fklBigIntCmp_orders [of ?a ?b] by (simp add: sgn_if)
qed

end
