(* ===== verification/CType.thy ===== *)
theory CType
  imports Prelude
begin

text \<open>
  The character classes of include/fakeLisp/ctype.h, on C \<open>int\<close>s as the code has them: every
  test is a subtraction modulo \<open>2 ^ 32\<close> followed by one unsigned comparison. A \<open>char\<close> is
  signed and is widened to an \<open>int\<close> where it is passed (\<open>char_int\<close>).
\<close>

definition char_int :: "char \<Rightarrow> c_int" where
  "char_int c = scast (of_char c :: 8 word)"

definition fklIsAlpha :: "c_int \<Rightarrow> bool" where
  "fklIsAlpha a \<longleftrightarrow> (a OR 32) - char_int CHR ''a'' < 26"

definition fklIsDigit :: "c_int \<Rightarrow> bool" where
  "fklIsDigit a \<longleftrightarrow> a - char_int CHR ''0'' < 10"

definition fklIsLower :: "c_int \<Rightarrow> bool" where
  "fklIsLower a \<longleftrightarrow> a - char_int CHR ''a'' < 26"

definition fklIsUpper :: "c_int \<Rightarrow> bool" where
  "fklIsUpper a \<longleftrightarrow> a - char_int CHR ''A'' < 26"

definition fklIsPrint :: "c_int \<Rightarrow> bool" where
  "fklIsPrint a \<longleftrightarrow> a - 0x20 < 0x5f"

definition fklIsGraph :: "c_int \<Rightarrow> bool" where
  "fklIsGraph a \<longleftrightarrow> a - 0x21 < 0x5e"

definition fklIsSpace :: "c_int \<Rightarrow> bool" where
  "fklIsSpace c \<longleftrightarrow> c = char_int CHR '' '' \<or> c - 9 < 5"

definition fklIsBlank :: "c_int \<Rightarrow> bool" where
  "fklIsBlank c \<longleftrightarrow> c = char_int CHR '' '' \<or> c = 9"

definition fklIsCntrl :: "c_int \<Rightarrow> bool" where
  "fklIsCntrl c \<longleftrightarrow> c < 0x20 \<or> c = 0x7f"

definition fklIsXDigit :: "c_int \<Rightarrow> bool" where
  "fklIsXDigit c \<longleftrightarrow> fklIsDigit c \<or> (c OR 32) - char_int CHR ''a'' < 6"

definition fklIsAlnum :: "c_int \<Rightarrow> bool" where
  "fklIsAlnum c \<longleftrightarrow> fklIsAlpha c \<or> fklIsDigit c"

definition fklIsPunct :: "c_int \<Rightarrow> bool" where
  "fklIsPunct c \<longleftrightarrow> fklIsGraph c \<and> \<not> fklIsAlnum c"

definition fklToLower :: "c_int \<Rightarrow> c_int" where
  "fklToLower c = (if fklIsUpper c then c OR 32 else c)"

definition fklToUpper :: "c_int \<Rightarrow> c_int" where
  "fklToUpper c = (if fklIsLower c then c AND 0x5f else c)"

section \<open>The classes of the characters\<close>

text \<open>Checked on all 256 characters.\<close>

lemma char_class:
  "fklIsDigit (char_int c) \<longleftrightarrow> c \<in> set ''0123456789''"
  "fklIsXDigit (char_int c) \<longleftrightarrow> c \<in> set ''0123456789abcdefABCDEF''"
  "fklIsLower (char_int c) \<longleftrightarrow> c \<in> set ''abcdefghijklmnopqrstuvwxyz''"
  "fklIsUpper (char_int c) \<longleftrightarrow> c \<in> set ''ABCDEFGHIJKLMNOPQRSTUVWXYZ''"
proof -
  have "\<forall>c. fklIsDigit (char_int c) \<longleftrightarrow> c \<in> set ''0123456789''" by code_simp
  then show "fklIsDigit (char_int c) \<longleftrightarrow> c \<in> set ''0123456789''" by blast
  have "\<forall>c. fklIsXDigit (char_int c) \<longleftrightarrow> c \<in> set ''0123456789abcdefABCDEF''" by code_simp
  then show "fklIsXDigit (char_int c) \<longleftrightarrow> c \<in> set ''0123456789abcdefABCDEF''" by blast
  have "\<forall>c. fklIsLower (char_int c) \<longleftrightarrow> c \<in> set ''abcdefghijklmnopqrstuvwxyz''" by code_simp
  then show "fklIsLower (char_int c) \<longleftrightarrow> c \<in> set ''abcdefghijklmnopqrstuvwxyz''" by blast
  have "\<forall>c. fklIsUpper (char_int c) \<longleftrightarrow> c \<in> set ''ABCDEFGHIJKLMNOPQRSTUVWXYZ''" by code_simp
  then show "fklIsUpper (char_int c) \<longleftrightarrow> c \<in> set ''ABCDEFGHIJKLMNOPQRSTUVWXYZ''" by blast
qed

lemma char_class_alpha:
  "fklIsAlpha (char_int c) \<longleftrightarrow> fklIsLower (char_int c) \<or> fklIsUpper (char_int c)"
proof -
  have "\<forall>c. fklIsAlpha (char_int c) \<longleftrightarrow> fklIsLower (char_int c) \<or> fklIsUpper (char_int c)" by code_simp
  then show ?thesis by blast
qed

lemma char_space: "fklIsSpace (char_int c) \<longleftrightarrow> c = CHR '' '' \<or> 9 \<le> (of_char c :: nat) \<and> (of_char c :: nat) \<le> 13"
proof -
  have "\<forall>c. fklIsSpace (char_int c) \<longleftrightarrow> c = CHR '' '' \<or> 9 \<le> (of_char c :: nat) \<and> (of_char c :: nat) \<le> 13" by code_simp
  then show ?thesis by blast
qed

lemma char_upper_lower:
  "fklIsUpper (char_int c) \<Longrightarrow> fklToUpper (fklToLower (char_int c)) = char_int c"
  "fklIsLower (char_int c) \<Longrightarrow> fklToLower (fklToUpper (char_int c)) = char_int c"
proof -
  have "\<forall>c. (fklIsUpper (char_int c) \<longrightarrow> fklToUpper (fklToLower (char_int c)) = char_int c)
    \<and> (fklIsLower (char_int c) \<longrightarrow> fklToLower (fklToUpper (char_int c)) = char_int c)" by code_simp
  then show "fklIsUpper (char_int c) \<Longrightarrow> fklToUpper (fklToLower (char_int c)) = char_int c"
    "fklIsLower (char_int c) \<Longrightarrow> fklToLower (fklToUpper (char_int c)) = char_int c" by blast+
qed

text \<open>The subtraction trick on all integers, \<open>EOF\<close> and other negative ones included.\<close>

lemma sub_less_range: "0 \<le> k \<Longrightarrow> 0 < n \<Longrightarrow> k + n < 2 ^ 31 \<Longrightarrow>
    a - word_of_int k < word_of_int n \<longleftrightarrow> k \<le> sint a \<and> sint a < k + n" for a :: c_int
proof -
  assume kn: "0 \<le> k" "0 < n" "k + n < 2 ^ 31"
  then have u: "uint (word_of_int k :: c_int) = k" "uint (word_of_int n :: c_int) = n"
    by (simp_all add: unsigned_of_int take_bit_int_eq_self)
  obtain x where x: "uint a = x" "0 \<le> x" "x < 4294967296" using uint_range_32 [of a] by blast
  show ?thesis
  proof (cases "k \<le> x")
    case True
    then have "uint (a - word_of_int k) = x - k" using x kn by (simp add: uint_sub_if' u)
    then show ?thesis using True x kn by (auto simp: word_less_def u sint_32)
  next
    case False
    then have "uint (a - word_of_int k) = x - k + 4294967296" using x kn by (simp add: uint_sub_if' u)
    then show ?thesis using False x kn by (auto simp: word_less_def u sint_32)
  qed
qed

section \<open>The ranges the tests decide\<close>

text \<open>
  The one-comparison tests are the intended ranges on every \<open>int\<close>: no negative argument
  and no argument beyond the range passes, although the comparison is unsigned.
\<close>

lemma ctype_ranges:
  "(fklIsDigit a \<longleftrightarrow> 48 \<le> sint a \<and> sint a \<le> 57)
   \<and> (fklIsLower a \<longleftrightarrow> 97 \<le> sint a \<and> sint a \<le> 122)
   \<and> (fklIsUpper a \<longleftrightarrow> 65 \<le> sint a \<and> sint a \<le> 90)
   \<and> (fklIsPrint a \<longleftrightarrow> 32 \<le> sint a \<and> sint a \<le> 126)
   \<and> (fklIsGraph a \<longleftrightarrow> 33 \<le> sint a \<and> sint a \<le> 126)"
proof (intro conjI)
  have c: "char_int CHR ''0'' = word_of_int 48" "char_int CHR ''a'' = word_of_int 97"
    "char_int CHR ''A'' = word_of_int 65" by code_simp+
  show "fklIsDigit a \<longleftrightarrow> 48 \<le> sint a \<and> sint a \<le> 57"
    using sub_less_range [of 48 10 a] by (auto simp: fklIsDigit_def c)
  show "fklIsLower a \<longleftrightarrow> 97 \<le> sint a \<and> sint a \<le> 122"
    using sub_less_range [of 97 26 a] by (auto simp: fklIsLower_def c)
  show "fklIsUpper a \<longleftrightarrow> 65 \<le> sint a \<and> sint a \<le> 90"
    using sub_less_range [of 65 26 a] by (auto simp: fklIsUpper_def c)
  show "fklIsPrint a \<longleftrightarrow> 32 \<le> sint a \<and> sint a \<le> 126"
    using sub_less_range [of 32 95 a] by (auto simp: fklIsPrint_def)
  show "fklIsGraph a \<longleftrightarrow> 33 \<le> sint a \<and> sint a \<le> 126"
    using sub_less_range [of 33 94 a] by (auto simp: fklIsGraph_def)
qed

end
