(* ===== verification/NumLex.thy ===== *)
theory NumLex
  imports CType
begin

text \<open>
  The recognisers of number literals in src/utils.c. A \<open>const char *\<close> is the list of the
  characters that can be read from it on; \<open>maxLen\<close> says how many of them belong to the literal,
  and the code does read one character behind them in places. Lengths are \<open>size_t\<close>, so that a
  subtraction below zero gives a huge number (\<open>remaining_less\<close>).
\<close>

section \<open>Loops over characters\<close>

definition remaining_less :: "nat \<Rightarrow> nat \<Rightarrow> nat \<Rightarrow> bool" where
  "remaining_less maxLen idx n \<longleftrightarrow> idx \<le> maxLen \<and> maxLen - idx < n"

text \<open>\<open>for (; idx < maxLen; idx++) if (!p(cstr[idx])) return 0;\<close>\<close>

function all_from :: "(char \<Rightarrow> bool) \<Rightarrow> string \<Rightarrow> nat \<Rightarrow> nat \<Rightarrow> bool option" where
  "all_from p cstr idx maxLen =
     (if idx < maxLen then do {
        c \<leftarrow> rd cstr idx;
        if p c then all_from p cstr (idx + 1) maxLen else Some False }
      else Some True)"
  by pat_completeness auto
termination
  by (relation "measure (\<lambda>(p, cstr, idx, maxLen). maxLen - idx)") auto

text \<open>\<open>for (; idx < maxLen; idx++) if (!p(cstr[idx])) break;\<close>\<close>

function skip_while :: "(char \<Rightarrow> bool) \<Rightarrow> string \<Rightarrow> nat \<Rightarrow> nat \<Rightarrow> nat option" where
  "skip_while p cstr idx maxLen =
     (if idx < maxLen then do {
        c \<leftarrow> rd cstr idx;
        if p c then skip_while p cstr (idx + 1) maxLen else Some idx }
      else Some idx)"
  by pat_completeness auto
termination
  by (relation "measure (\<lambda>(p, cstr, idx, maxLen). maxLen - idx)") auto

declare all_from.simps [simp del] skip_while.simps [simp del]

definition skip_sign :: "string \<Rightarrow> nat \<Rightarrow> nat option" where
  "skip_sign cstr idx = do {
     c \<leftarrow> rd cstr idx;
     Some (if c = CHR ''-'' \<or> c = CHR ''+'' then idx + 1 else idx) }"

abbreviation is_digit :: "char \<Rightarrow> bool" where
  "is_digit c \<equiv> fklIsDigit (char_int c)"

abbreviation is_xdigit :: "char \<Rightarrow> bool" where
  "is_xdigit c \<equiv> fklIsXDigit (char_int c)"

definition is_oct :: "char \<Rightarrow> bool" where
  "is_oct c \<longleftrightarrow> \<not> (char_int c <s char_int CHR ''0'' \<or> char_int CHR ''7'' <s char_int c)"

section \<open>Integers\<close>

definition fklIsDecInt :: "string \<Rightarrow> nat \<Rightarrow> bool option" where
  "fklIsDecInt cstr maxLen =
     (if maxLen = 0 then Some False
      else do {
        idx \<leftarrow> skip_sign cstr 0;
        c \<leftarrow> rd cstr idx;
        if c = CHR ''0'' then Some (idx + 1 = maxLen)
        else if is_digit c \<and> c \<noteq> CHR ''0'' then all_from is_digit cstr (idx + 1) maxLen
        else Some False })"

definition fklIsOctInt :: "string \<Rightarrow> nat \<Rightarrow> bool option" where
  "fklIsOctInt cstr maxLen =
     (if maxLen < 2 then Some False
      else do {
        idx \<leftarrow> skip_sign cstr 0;
        if remaining_less maxLen idx 2 then Some False
        else do {
          c \<leftarrow> rd cstr idx;
          if c = CHR ''0'' then all_from is_oct cstr (idx + 1) maxLen else Some False } })"

definition fklIsHexInt :: "string \<Rightarrow> nat \<Rightarrow> bool option" where
  "fklIsHexInt cstr maxLen =
     (if maxLen < 3 then Some False
      else do {
        idx \<leftarrow> skip_sign cstr 0;
        if remaining_less maxLen idx 3 then Some False
        else do {
          c \<leftarrow> rd cstr idx;
          if c = CHR ''0'' then do {
            d \<leftarrow> rd cstr (idx + 1);
            if d = CHR ''x'' \<or> d = CHR ''X'' then all_from is_xdigit cstr (idx + 2) maxLen
            else Some False }
          else Some False } })"

definition fklIsAllDigit :: "string \<Rightarrow> nat \<Rightarrow> bool option" where
  "fklIsAllDigit cstr len = all_from is_digit cstr 0 len"

section \<open>Floating point numbers\<close>

text \<open>The part behind the labels \<open>after_e\<close> and \<open>after_p\<close>, with \<open>idx\<close> at the exponent
  character.\<close>

definition after_exp :: "(char \<Rightarrow> bool) \<Rightarrow> string \<Rightarrow> nat \<Rightarrow> nat \<Rightarrow> bool option" where
  "after_exp p cstr idx maxLen = do {
     idx \<leftarrow> skip_sign cstr (idx + 1);
     if remaining_less maxLen idx 1 then Some False
     else all_from p cstr idx maxLen }"

definition dec_after_dot :: "string \<Rightarrow> nat \<Rightarrow> nat \<Rightarrow> bool option" where
  "dec_after_dot cstr idx maxLen = do {
     idx \<leftarrow> skip_while is_digit cstr idx maxLen;
     if idx = maxLen then Some True
     else do {
       c \<leftarrow> rd cstr idx;
       if c = CHR ''e'' \<or> c = CHR ''E'' then after_exp is_digit cstr idx maxLen else Some False } }"

definition fklIsDecFloat :: "string \<Rightarrow> nat \<Rightarrow> bool option" where
  "fklIsDecFloat cstr maxLen =
     (if maxLen < 2 then Some False
      else do {
        idx \<leftarrow> skip_sign cstr 0;
        if remaining_less maxLen idx 2 then Some False
        else do {
          c \<leftarrow> rd cstr idx;
          if c = CHR ''.'' then
            (if remaining_less maxLen (idx + 1) 1 then Some False
             else do {
               d \<leftarrow> rd cstr (idx + 1);
               if d = CHR ''e'' \<or> d = CHR ''E'' then Some False
               else dec_after_dot cstr (idx + 1) maxLen })
          else do {
            let old_idx = idx;
            idx \<leftarrow> skip_while is_digit cstr idx maxLen;
            if idx = maxLen \<or> idx = old_idx then Some False
            else do {
              c \<leftarrow> rd cstr idx;
              if c = CHR ''.'' then dec_after_dot cstr (idx + 1) maxLen
              else if c = CHR ''e'' \<or> c = CHR ''E'' then after_exp is_digit cstr idx maxLen
              else Some False } } } })"

definition hex_after_dot :: "string \<Rightarrow> nat \<Rightarrow> nat \<Rightarrow> bool option" where
  "hex_after_dot cstr idx maxLen = do {
     idx \<leftarrow> skip_while is_xdigit cstr idx maxLen;
     if idx = maxLen then Some False
     else do {
       c \<leftarrow> rd cstr idx;
       if c = CHR ''p'' \<or> c = CHR ''P'' then after_exp is_xdigit cstr idx maxLen else Some False } }"

definition fklIsHexFloat :: "string \<Rightarrow> nat \<Rightarrow> bool option" where
  "fklIsHexFloat cstr maxLen =
     (if maxLen < 5 then Some False
      else do {
        idx \<leftarrow> skip_sign cstr 0;
        if remaining_less maxLen idx 5 then Some False
        else do {
          c \<leftarrow> rd cstr idx;
          if c \<noteq> CHR ''0'' then Some False
          else do {
            c \<leftarrow> rd cstr (idx + 1);
            if \<not> (c = CHR ''x'' \<or> c = CHR ''X'') then Some False
            else do {
              let idx = idx + 2;
              c \<leftarrow> rd cstr idx;
              if c = CHR ''.'' then
                (if remaining_less maxLen (idx + 1) 3 then Some False
                 else do {
                   d \<leftarrow> rd cstr (idx + 1);
                   if d = CHR ''p'' \<or> d = CHR ''P'' then Some False
                   else hex_after_dot cstr (idx + 1) maxLen })
              else do {
                idx \<leftarrow> skip_while is_xdigit cstr idx maxLen;
                if idx = maxLen then Some False
                else do {
                  c \<leftarrow> rd cstr idx;
                  if c = CHR ''.'' then hex_after_dot cstr (idx + 1) maxLen
                  else if c = CHR ''p'' \<or> c = CHR ''P'' then after_exp is_xdigit cstr idx maxLen
                  else Some False } } } } } })"

definition or_else :: "bool option \<Rightarrow> bool option \<Rightarrow> bool option" where
  "or_else a b = do { x \<leftarrow> a; if x then Some True else b }"

definition fklIsFloat :: "string \<Rightarrow> nat \<Rightarrow> bool option" where
  "fklIsFloat cstr maxLen = or_else (fklIsDecFloat cstr maxLen) (fklIsHexFloat cstr maxLen)"

definition fklIsNumberCharBuf :: "string \<Rightarrow> nat \<Rightarrow> bool option" where
  "fklIsNumberCharBuf buf len =
     or_else (fklIsDecInt buf len) (or_else (fklIsOctInt buf len) (or_else (fklIsHexInt buf len)
       (or_else (fklIsDecFloat buf len) (fklIsHexFloat buf len))))"

section \<open>The languages of the comments in the code\<close>

definition opt_sign :: "string \<Rightarrow> string" where
  "opt_sign s = (if s \<noteq> [] \<and> (hd s = CHR ''-'' \<or> hd s = CHR ''+'') then tl s else s)"

text \<open>\<open>[-+]?(0|[1-9]\d*)\<close>, \<open>[-+]?0[0-7]+\<close> and \<open>[-+]?0[xX][0-9a-fA-F]+\<close>\<close>

definition dec_int :: "string \<Rightarrow> bool" where
  "dec_int s \<longleftrightarrow> opt_sign s = ''0''
     \<or> (\<exists>d ds. opt_sign s = d # ds \<and> is_digit d \<and> d \<noteq> CHR ''0'' \<and> list_all is_digit ds)"

definition oct_int :: "string \<Rightarrow> bool" where
  "oct_int s \<longleftrightarrow> (\<exists>ds. opt_sign s = CHR ''0'' # ds \<and> ds \<noteq> [] \<and> list_all (\<lambda>c. c \<in> set ''01234567'') ds)"

definition hex_int :: "string \<Rightarrow> bool" where
  "hex_int s \<longleftrightarrow> (\<exists>x ds. opt_sign s = CHR ''0'' # x # ds \<and> x \<in> set ''xX'' \<and> ds \<noteq> [] \<and> list_all is_xdigit ds)"

text \<open>\<open>[eE][-+]?\d+\<close> and \<open>[pP][-+]?[0-9a-fA-F]+\<close>\<close>

definition exp_part :: "(char \<Rightarrow> bool) \<Rightarrow> string \<Rightarrow> string \<Rightarrow> bool" where
  "exp_part p es s \<longleftrightarrow> (\<exists>e r. s = e # r \<and> e \<in> set es \<and> opt_sign r \<noteq> [] \<and> list_all p (opt_sign r))"

text \<open>\<open>[-+]?(\.\d+([eE][-+]?\d+)?|\d+(\.\d*([eE][-+]?\d+)?|[eE][-+]?\d+))\<close>\<close>

definition dec_float :: "string \<Rightarrow> bool" where
  "dec_float s \<longleftrightarrow>
     (\<exists>ds r. opt_sign s = CHR ''.'' # ds @ r \<and> ds \<noteq> [] \<and> list_all is_digit ds
        \<and> (r = [] \<or> exp_part is_digit ''eE'' r))
   \<or> (\<exists>is ds r. opt_sign s = is @ CHR ''.'' # ds @ r \<and> is \<noteq> [] \<and> list_all is_digit is
        \<and> list_all is_digit ds \<and> (r = [] \<or> exp_part is_digit ''eE'' r))
   \<or> (\<exists>is r. opt_sign s = is @ r \<and> is \<noteq> [] \<and> list_all is_digit is \<and> exp_part is_digit ''eE'' r)"

section \<open>The loops on a buffer\<close>

lemma rd_append [simp]: "i < length s \<Longrightarrow> rd (s @ t) i = Some (s ! i)"
  by (simp add: rd_def nth_append)

lemma all_from_eq: "i \<le> length s \<Longrightarrow> all_from p (s @ t) i (length s) = Some (list_all p (drop i s))"
proof (induction "length s - i" arbitrary: i)
  case 0
  then show ?case by (simp add: all_from.simps)
next
  case (Suc n)
  then have "i < length s" "drop i s = s ! i # drop (i + 1) s" by (auto simp: Cons_nth_drop_Suc)
  with Suc show ?case by (subst all_from.simps) auto
qed

lemma skip_while_eq:
  "i \<le> length s \<Longrightarrow> skip_while p (s @ t) i (length s) = Some (i + length (takeWhile p (drop i s)))"
proof (induction "length s - i" arbitrary: i)
  case 0
  then show ?case by (simp add: skip_while.simps)
next
  case (Suc n)
  then have "i < length s" "drop i s = s ! i # drop (i + 1) s" by (auto simp: Cons_nth_drop_Suc)
  with Suc show ?case by (subst skip_while.simps) auto
qed

lemma skip_sign_eq:
  "i < length s \<Longrightarrow> \<exists>j. skip_sign (s @ t) i = Some j \<and> i \<le> j \<and> j \<le> length s \<and> drop j s = opt_sign (drop i s)
     \<and> j \<le> i + 1"
  by (auto simp: skip_sign_def opt_sign_def hd_drop_conv_nth tl_drop drop_Suc)

lemma is_oct_iff: "is_oct c \<longleftrightarrow> c \<in> set ''01234567''"
proof -
  have "\<forall>c. is_oct c \<longleftrightarrow> c \<in> set ''01234567''" by code_simp
  then show ?thesis by blast
qed

lemma drop_Cons_nth: "j < length s \<Longrightarrow> drop j s = s ! j # drop (Suc j) s"
  by (simp add: Cons_nth_drop_Suc)

lemma dec_int_spec:
  assumes "t \<noteq> []" "\<not> is_digit (hd t)"
  shows "fklIsDecInt (s @ t) (length s) = Some (dec_int s)"
proof (cases "s = []")
  case True
  then show ?thesis by (simp add: fklIsDecInt_def dec_int_def opt_sign_def)
next
  case False
  then obtain j where j: "skip_sign (s @ t) 0 = Some j" "j \<le> length s" "drop j s = opt_sign s"
    using skip_sign_eq [of 0 s t] by auto
  show ?thesis
  proof (cases "j = length s")
    case True
    then have "rd (s @ t) j = Some (hd t)" using assms by (simp add: rd_def nth_append hd_conv_nth)
    moreover have "\<not> dec_int s" using j True by (auto simp: dec_int_def)
    moreover have "hd t \<noteq> CHR ''0''" using assms(2) by (auto simp: char_class)
    ultimately show ?thesis using j assms False by (simp add: fklIsDecInt_def)
  next
    case False
    then have l: "j < length s" using j by simp
    then have d: "opt_sign s = s ! j # drop (Suc j) s" using j drop_Cons_nth by metis
    have "j + 1 = length s \<longleftrightarrow> drop (Suc j) s = []" using l by auto
    then show ?thesis using j l d \<open>s \<noteq> []\<close> all_from_eq [of "j + 1" s is_digit t]
      by (auto simp: fklIsDecInt_def dec_int_def)
  qed
qed

lemma oct_int_spec: "fklIsOctInt (s @ t) (length s) = Some (oct_int s)"
proof (cases "length s < 2")
  case True
  then show ?thesis
    by (cases s; cases "tl s") (auto simp: fklIsOctInt_def oct_int_def opt_sign_def)
next
  case False
  then have "0 < length s" by (cases s) auto
  then obtain j where j: "skip_sign (s @ t) 0 = Some j" "j \<le> length s" "drop j s = opt_sign s" "j \<le> 1"
    using skip_sign_eq [of 0 s t] by auto
  have l: "length (opt_sign s) = length s - j" using j by (metis length_drop)
  show ?thesis
  proof (cases "length s - j < 2")
    case True
    then have "length (opt_sign s) < 2" using l by simp
    then have "\<not> oct_int s" by (cases "opt_sign s") (auto simp: oct_int_def)
    then show ?thesis using j False True by (simp add: fklIsOctInt_def remaining_less_def)
  next
    case F: False
    then have "j < length s" by simp
    then have d: "opt_sign s = s ! j # drop (Suc j) s" using j drop_Cons_nth by metis
    have "drop (Suc j) s \<noteq> []" using F by auto
    then show ?thesis using j F False \<open>j < length s\<close> d all_from_eq [of "j + 1" s is_oct t]
      by (auto simp: fklIsOctInt_def oct_int_def remaining_less_def is_oct_iff [abs_def])
  qed
qed

lemma hex_int_spec: "fklIsHexInt (s @ t) (length s) = Some (hex_int s)"
proof (cases "length s < 3")
  case True
  have "\<not> hex_int s"
  proof
    assume "hex_int s"
    then have "3 \<le> length (opt_sign s)" by (auto simp: hex_int_def Suc_le_eq)
    moreover have "length (opt_sign s) \<le> length s" by (simp add: opt_sign_def)
    ultimately show False using True by simp
  qed
  with True show ?thesis by (simp add: fklIsHexInt_def)
next
  case False
  then have "0 < length s" by (cases s) auto
  then obtain j where j: "skip_sign (s @ t) 0 = Some j" "j \<le> length s" "drop j s = opt_sign s" "j \<le> 1"
    using skip_sign_eq [of 0 s t] by auto
  have l: "length (opt_sign s) = length s - j" using j by (metis length_drop)
  show ?thesis
  proof (cases "length s - j < 3")
    case True
    then have "\<not> 3 \<le> length (opt_sign s)" using l by simp
    then have "\<not> hex_int s" by (auto simp: hex_int_def Suc_le_eq)
    then show ?thesis using j False True by (simp add: fklIsHexInt_def remaining_less_def)
  next
    case F: False
    then have lt: "j < length s" "Suc j < length s" by simp_all
    then have d: "opt_sign s = s ! j # s ! Suc j # drop (Suc (Suc j)) s" using j drop_Cons_nth by metis
    have "drop (Suc (Suc j)) s \<noteq> []" using F by auto
    then show ?thesis using j F False lt d all_from_eq [of "j + 2" s is_xdigit t]
      by (auto simp: fklIsHexInt_def hex_int_def remaining_less_def)
  qed
qed


section \<open>Floating point numbers\<close>

lemma drop_takeWhile: "drop (i + length (takeWhile p (drop i s))) s = dropWhile p (drop i s)"
  by (simp add: dropWhile_eq_drop add.commute)

lemma after_exp_eq:
  assumes t: "t \<noteq> []" "hd t \<noteq> CHR ''-''" "hd t \<noteq> CHR ''+''" and i: "i < length s"
  shows "after_exp p (s @ t) i (length s)
    = Some (opt_sign (drop (i + 1) s) \<noteq> [] \<and> list_all p (opt_sign (drop (i + 1) s)))"
proof (cases "i + 1 = length s")
  case True
  then have "rd (s @ t) (i + 1) = Some (hd t)" using t by (simp add: rd_def nth_append hd_conv_nth)
  then show ?thesis using t True by (simp add: after_exp_def skip_sign_def remaining_less_def opt_sign_def)
next
  case False
  then have "i + 1 < length s" using i by simp
  then obtain j where j: "skip_sign (s @ t) (i + 1) = Some j" "j \<le> length s" "drop j s = opt_sign (drop (i + 1) s)"
    using skip_sign_eq [of "i + 1" s t] by auto
  have "remaining_less (length s) j 1 \<longleftrightarrow> drop j s = []" using j by (auto simp: remaining_less_def)
  then show ?thesis using j all_from_eq [of j s p t] by (auto simp: after_exp_def)
qed

definition float_tail :: "string \<Rightarrow> bool" where
  "float_tail r \<longleftrightarrow> r = [] \<or> exp_part is_digit ''eE'' r"

lemma exp_part_Cons: "exp_part p es (e # r) \<longleftrightarrow> e \<in> set es \<and> opt_sign r \<noteq> [] \<and> list_all p (opt_sign r)"
  by (simp add: exp_part_def)

lemma scan_digits:
  assumes "i \<le> length s"
  obtains k where "skip_while p (s @ t) i (length s) = Some k" "i \<le> k" "k \<le> length s"
    "drop k s = dropWhile p (drop i s)" "k = i \<longleftrightarrow> takeWhile p (drop i s) = []"
proof
  let ?k = "i + length (takeWhile p (drop i s))"
  show "skip_while p (s @ t) i (length s) = Some ?k" using assms by (rule skip_while_eq)
  have "length (takeWhile p (drop i s)) \<le> length (drop i s)" by (rule length_takeWhile_le)
  then show "?k \<le> length s" using assms by simp
  show "drop ?k s = dropWhile p (drop i s)" by (rule drop_takeWhile)
qed simp_all

lemma dec_after_dot_eq:
  assumes t: "t \<noteq> []" "hd t \<noteq> CHR ''-''" "hd t \<noteq> CHR ''+''" and i: "i \<le> length s"
  shows "dec_after_dot (s @ t) i (length s) = Some (float_tail (dropWhile is_digit (drop i s)))"
proof -
  obtain k where k: "skip_while is_digit (s @ t) i (length s) = Some k" "i \<le> k" "k \<le> length s"
    "drop k s = dropWhile is_digit (drop i s)" using scan_digits [OF i] by metis
  show ?thesis
  proof (cases "k = length s")
    case True
    then show ?thesis using k by (auto simp: dec_after_dot_def float_tail_def)
  next
    case False
    then have l: "k < length s" using k by simp
    then have "dropWhile is_digit (drop i s) = s ! k # drop (k + 1) s" using k drop_Cons_nth [of k s] by simp
    then show ?thesis using k l False after_exp_eq [OF t l, of is_digit]
      by (auto simp: dec_after_dot_def float_tail_def exp_part_Cons)
  qed
qed

lemma split_digits:
  assumes "\<And>r. Q r \<Longrightarrow> r = [] \<or> \<not> p (hd r)"
  shows "(\<exists>ds r. b = ds @ r \<and> list_all p ds \<and> Q r) \<longleftrightarrow> Q (dropWhile p b)"
    and "(\<exists>ds r. b = ds @ r \<and> ds \<noteq> [] \<and> list_all p ds \<and> Q r) \<longleftrightarrow> takeWhile p b \<noteq> [] \<and> Q (dropWhile p b)"
proof -
  have tw: "takeWhile p (ds @ r) = ds \<and> dropWhile p (ds @ r) = r" if "list_all p ds" "Q r" for ds r
  proof -
    have "takeWhile p r = []" "dropWhile p r = r" using assms [OF that(2)] by (cases r; simp)+
    then show ?thesis using that(1) by (simp add: list_all_iff takeWhile_append2 dropWhile_append2)
  qed
  have ex: "b = takeWhile p b @ dropWhile p b" "list_all p (takeWhile p b)"
    by (auto simp: list_all_iff dest: set_takeWhileD)
  have *: "takeWhile p b = ds \<and> dropWhile p b = r" if "b = ds @ r" "list_all p ds" "Q r" for ds r
    using tw [OF that(2,3)] that(1) by simp
  show "(\<exists>ds r. b = ds @ r \<and> list_all p ds \<and> Q r) \<longleftrightarrow> Q (dropWhile p b)"
    using * ex by metis
  show "(\<exists>ds r. b = ds @ r \<and> ds \<noteq> [] \<and> list_all p ds \<and> Q r) \<longleftrightarrow> takeWhile p b \<noteq> [] \<and> Q (dropWhile p b)"
    using * ex by metis
qed

lemma float_tail_no_digit: "float_tail r \<Longrightarrow> r = [] \<or> \<not> is_digit (hd r)"
  by (auto simp: float_tail_def exp_part_def char_class)

lemma dec_float_alt:
  "dec_float s \<longleftrightarrow> (let b = opt_sign s; r = dropWhile is_digit b in
     (\<exists>c. b = CHR ''.'' # c \<and> takeWhile is_digit c \<noteq> [] \<and> float_tail (dropWhile is_digit c))
     \<or> takeWhile is_digit b \<noteq> [] \<and> ((\<exists>c. r = CHR ''.'' # c \<and> float_tail (dropWhile is_digit c))
         \<or> exp_part is_digit ''eE'' r))"
proof -
  let ?b = "opt_sign s"
  define Q where "Q r \<longleftrightarrow> (\<exists>c. r = CHR ''.'' # c \<and> float_tail (dropWhile is_digit c)) \<or> exp_part is_digit ''eE'' r" for r
  have Q: "Q r \<Longrightarrow> r = [] \<or> \<not> is_digit (hd r)" for r
    by (auto simp: Q_def exp_part_def char_class)
  have 1: "(\<exists>ds r. ?b = CHR ''.'' # ds @ r \<and> ds \<noteq> [] \<and> list_all is_digit ds \<and> float_tail r)
    \<longleftrightarrow> (\<exists>c. ?b = CHR ''.'' # c \<and> takeWhile is_digit c \<noteq> [] \<and> float_tail (dropWhile is_digit c))"
    using split_digits(2) [where Q = float_tail and p = is_digit, OF float_tail_no_digit] by metis
  have 2: "(\<exists>ds r. c = ds @ r \<and> list_all is_digit ds \<and> float_tail r) \<longleftrightarrow> float_tail (dropWhile is_digit c)" for c
    by (rule split_digits(1) [where Q = float_tail and p = is_digit, OF float_tail_no_digit])
  have 3: "(\<exists>is r. ?b = is @ r \<and> is \<noteq> [] \<and> list_all is_digit is \<and> Q r)
    \<longleftrightarrow> takeWhile is_digit ?b \<noteq> [] \<and> Q (dropWhile is_digit ?b)"
    by (rule split_digits(2) [where Q = Q and p = is_digit, OF Q])
  have "dec_float s \<longleftrightarrow> (\<exists>ds r. ?b = CHR ''.'' # ds @ r \<and> ds \<noteq> [] \<and> list_all is_digit ds \<and> float_tail r)
    \<or> (\<exists>is r. ?b = is @ r \<and> is \<noteq> [] \<and> list_all is_digit is \<and> Q r)"
    unfolding dec_float_def Q_def 2 [symmetric] float_tail_def [symmetric] by blast
  then have "dec_float s \<longleftrightarrow> (\<exists>c. ?b = CHR ''.'' # c \<and> takeWhile is_digit c \<noteq> [] \<and> float_tail (dropWhile is_digit c))
    \<or> takeWhile is_digit ?b \<noteq> [] \<and> Q (dropWhile is_digit ?b)" unfolding 1 3 .
  then show ?thesis unfolding Q_def Let_def .
qed

lemma dec_float_spec:
  assumes t: "t \<noteq> []" "hd t \<noteq> CHR ''-''" "hd t \<noteq> CHR ''+''"
  shows "fklIsDecFloat (s @ t) (length s) = Some (dec_float s)"
proof (cases "length s < 2")
  case True
  have "\<not> dec_float s"
  proof
    assume "dec_float s"
    then have "2 \<le> length (opt_sign s)"
      by (auto simp: dec_float_def exp_part_def Suc_le_eq simp flip: length_greater_0_conv)
    moreover have "length (opt_sign s) \<le> length s" by (simp add: opt_sign_def)
    ultimately show False using True by simp
  qed
  then show ?thesis using True by (simp add: fklIsDecFloat_def)
next
  case False
  then have "0 < length s" by (cases s) auto
  then obtain j where j: "skip_sign (s @ t) 0 = Some j" "j \<le> length s" "drop j s = opt_sign s" "j \<le> 1"
    using skip_sign_eq [of 0 s t] by auto
  have l: "length (opt_sign s) = length s - j" using j by (metis length_drop)
  show ?thesis
  proof (cases "length s - j < 2")
    case True
    then have "\<not> 2 \<le> length (opt_sign s)" using l by simp
    then have "\<not> dec_float s"
      by (auto simp: dec_float_def exp_part_def Suc_le_eq simp flip: length_greater_0_conv)
    then show ?thesis using j False True by (simp add: fklIsDecFloat_def remaining_less_def)
  next
    case F: False
    then have lt: "j < length s" "Suc j < length s" by simp_all
    have d: "opt_sign s = s ! j # drop (j + 1) s" "drop (j + 1) s = s ! (j + 1) # drop (j + 2) s"
      using j lt drop_Cons_nth [of j s] drop_Cons_nth [of "j + 1" s] by simp_all
    show ?thesis
    proof (cases "s ! j = CHR ''.''")
      case True
      have "\<not> is_digit CHR ''.''" by (simp add: char_class)
      then have "dec_float s \<longleftrightarrow> takeWhile is_digit (drop (j + 1) s) \<noteq> [] \<and> float_tail (dropWhile is_digit (drop (j + 1) s))"
        unfolding dec_float_alt Let_def d(1) True by simp
      moreover have "float_tail (dropWhile is_digit (drop (j + 1) s)) \<Longrightarrow> takeWhile is_digit (drop (j + 1) s) = []
        \<Longrightarrow> s ! (j + 1) = CHR ''e'' \<or> s ! (j + 1) = CHR ''E''"
        using d(2) by (auto simp: float_tail_def exp_part_Cons split: if_splits)
      moreover have "s ! (j + 1) = CHR ''e'' \<or> s ! (j + 1) = CHR ''E'' \<Longrightarrow> takeWhile is_digit (drop (j + 1) s) = []"
        using d(2) by (auto simp: char_class)
      ultimately show ?thesis
        using j lt True F False dec_after_dot_eq [OF t, of "j + 1" s]
        by (auto simp: fklIsDecFloat_def remaining_less_def)
    next
      case nodot: False
      obtain k where k: "skip_while is_digit (s @ t) j (length s) = Some k" "j \<le> k" "k \<le> length s"
        "drop k s = dropWhile is_digit (opt_sign s)" "k = j \<longleftrightarrow> takeWhile is_digit (opt_sign s) = []"
        using scan_digits [OF j(2), of is_digit t] j(3) by metis
      have alt: "dec_float s \<longleftrightarrow> takeWhile is_digit (opt_sign s) \<noteq> []
        \<and> ((\<exists>c. drop k s = CHR ''.'' # c \<and> float_tail (dropWhile is_digit c)) \<or> exp_part is_digit ''eE'' (drop k s))"
        unfolding dec_float_alt Let_def k(4) using nodot d(1) by simp
      show ?thesis
      proof (cases "k = length s \<or> k = j")
        case True
        then have "\<not> dec_float s" using k alt by (auto simp: exp_part_def)
        then show ?thesis using j F False nodot k lt True by (auto simp: fklIsDecFloat_def remaining_less_def Let_def)
      next
        case False
        then have lk: "k < length s" using k by simp
        have dk: "drop k s = s ! k # drop (k + 1) s" using lk by (simp add: Cons_nth_drop_Suc)
        have "takeWhile is_digit (opt_sign s) \<noteq> []" using False k by simp
        then have "dec_float s \<longleftrightarrow> s ! k = CHR ''.'' \<and> float_tail (dropWhile is_digit (drop (k + 1) s))
            \<or> (s ! k = CHR ''e'' \<or> s ! k = CHR ''E'') \<and> opt_sign (drop (k + 1) s) \<noteq> []
               \<and> list_all is_digit (opt_sign (drop (k + 1) s))"
          unfolding alt dk exp_part_Cons by auto
        then show ?thesis
          using j F \<open>\<not> length s < 2\<close> nodot k lt lk False after_exp_eq [OF t lk, of is_digit] dec_after_dot_eq [OF t, of "k + 1" s]
          by (auto simp: fklIsDecFloat_def remaining_less_def Let_def)
      qed
    qed
  qed
qed


section \<open>Properties\<close>

text \<open>
  C35: the integer recognisers decide exactly the languages of the comments in the code: the octal and the
  hexadecimal one whatever follows the literal in the buffer, the decimal one if the buffer goes on behind
  the literal with a character that is not a digit.
\<close>

theorem integer_recognisers:
  "(t \<noteq> [] \<and> \<not> is_digit (hd t) \<longrightarrow> fklIsDecInt (s @ t) (length s) = Some (dec_int s))
    \<and> fklIsOctInt (s @ t) (length s) = Some (oct_int s)
    \<and> fklIsHexInt (s @ t) (length s) = Some (hex_int s)"
  using dec_int_spec oct_int_spec hex_int_spec by simp

theorem integer_recognisers_witness:
  "fklIsDecInt ''-120 '' 4 = Some (dec_int ''-120'') \<and> dec_int ''-120''
   \<and> fklIsHexInt ''-120 '' 4 = Some False"
proof -
  have d: "dec_int ''-120''" "\<not> hex_int ''-120''"
    by (auto simp: dec_int_def hex_int_def opt_sign_def char_class)
  from integer_recognisers [of "'' ''" "''-120''"] d show ?thesis by (simp add: char_class eval_nat_numeral)
qed

text \<open>
  C36: the condition is needed. A sign alone is taken for a decimal integer when a digit from 1 to 9
  follows it in the buffer: after the sign \<open>fklIsDecInt\<close> reads on without comparing with
  \<open>maxLen\<close>.
\<close>

theorem fklIsDecInt_lone_sign:
  assumes "c = CHR ''-'' \<or> c = CHR ''+''" and "is_digit d" and "d \<noteq> CHR ''0''"
  shows "fklIsDecInt (c # d # t) 1 = Some True \<and> \<not> dec_int [c]"
  using assms by (auto simp: fklIsDecInt_def skip_sign_def rd_def all_from.simps dec_int_def opt_sign_def)

theorem fklIsDecInt_lone_sign_witness: "fklIsDecInt ''-5'' 1 = Some True"
  using fklIsDecInt_lone_sign [of "CHR ''-''" "CHR ''5''" "[]"] by (simp add: char_class)

text \<open>
  \<open>fklIsDecFloat\<close> decides the language of its comment, provided that the buffer goes on
  behind the literal with something else than a sign.
\<close>

theorem fklIsDecFloat_language:
  assumes "t \<noteq> []" and "hd t \<noteq> CHR ''-''" and "hd t \<noteq> CHR ''+''"
  shows "fklIsDecFloat (s @ t) (length s) = Some (dec_float s)"
  using assms by (rule dec_float_spec)

theorem fklIsDecFloat_language_witness:
  "fklIsDecFloat ''1.5e-3 '' 6 = Some True \<and> fklIsDecFloat ''1e '' 2 = Some (dec_float ''1e'')"
proof -
  have "dec_float ''1.5e-3''"
    unfolding dec_float_alt by (simp add: opt_sign_def float_tail_def exp_part_def char_class)
  then show ?thesis
    using fklIsDecFloat_language [of "'' ''" "''1.5e-3''"] fklIsDecFloat_language [of "'' ''" "''1e''"]
    by (simp add: eval_nat_numeral)
qed

text \<open>
  The comment of \<open>fklIsHexFloat\<close> asks for a hexadecimal digit before the exponent, the code
  does not: it accepts \<open>0xp12\<close>.
\<close>

theorem fklIsHexFloat_no_digit:
  "fklIsHexFloat ''0xp12'' 5 = Some True"
  by code_simp

text \<open>
  The three integer languages exclude one another, so the order in which the code asks for them
  does not matter.
\<close>

lemma integer_languages_disjoint:
  "\<not> (dec_int s \<and> oct_int s) \<and> \<not> (dec_int s \<and> hex_int s) \<and> \<not> (oct_int s \<and> hex_int s)"
  by (auto simp: dec_int_def oct_int_def hex_int_def)

end
