(* ===== verification/BigIntParse.thy ===== *)
theory BigIntParse
  imports BigIntMul NumLex
begin

text \<open>
  Reading big integers from characters (src/bigint.c): the decimal reader, which multiplies and
  adds, the octal reader, which packs ten characters into a digit, and the hexadecimal reader, which
  collects bits from the right; and the variants that put the digits into memory a caller allocates.
\<close>

section \<open>Digit values\<close>

definition DigitValue :: "u8 list" where
  "DigitValue = [
    37, 37, 37, 37, 37, 37, 37, 37, 37, 37, 37, 37, 37, 37, 37, 37,
    37, 37, 37, 37, 37, 37, 37, 37, 37, 37, 37, 37, 37, 37, 37, 37,
    37, 37, 37, 37, 37, 37, 37, 37, 37, 37, 37, 37, 37, 37, 37, 37,
    0, 1, 2, 3, 4, 5, 6, 7, 8, 9, 37, 37, 37, 37, 37, 37,
    37, 10, 11, 12, 13, 14, 15, 16, 17, 18, 19, 20, 21, 22, 23, 24,
    25, 26, 27, 28, 29, 30, 31, 32, 33, 34, 35, 37, 37, 37, 37, 37,
    37, 10, 11, 12, 13, 14, 15, 16, 17, 18, 19, 20, 21, 22, 23, 24,
    25, 26, 27, 28, 29, 30, 31, 32, 33, 34, 35, 37, 37, 37, 37, 37,
    37, 37, 37, 37, 37, 37, 37, 37, 37, 37, 37, 37, 37, 37, 37, 37,
    37, 37, 37, 37, 37, 37, 37, 37, 37, 37, 37, 37, 37, 37, 37, 37,
    37, 37, 37, 37, 37, 37, 37, 37, 37, 37, 37, 37, 37, 37, 37, 37,
    37, 37, 37, 37, 37, 37, 37, 37, 37, 37, 37, 37, 37, 37, 37, 37,
    37, 37, 37, 37, 37, 37, 37, 37, 37, 37, 37, 37, 37, 37, 37, 37,
    37, 37, 37, 37, 37, 37, 37, 37, 37, 37, 37, 37, 37, 37, 37, 37,
    37, 37, 37, 37, 37, 37, 37, 37, 37, 37, 37, 37, 37, 37, 37, 37,
    37, 37, 37, 37, 37, 37, 37, 37, 37, 37, 37, 37, 37, 37, 37, 37]"

text \<open>\<open>DigitValue[(unsigned char)c]\<close>\<close>

definition digit_value :: "char \<Rightarrow> u8 option" where
  "digit_value c = rd DigitValue (of_char c)"

section \<open>Decimal\<close>

function dec_loop :: "string \<Rightarrow> nat \<Rightarrow> nat \<Rightarrow> FklBigInt \<Rightarrow> FklBigInt option" where
  "dec_loop buf i maxLen b =
     (if i < maxLen then do {
        c \<leftarrow> rd buf i;
        if is_digit c then do {
          b \<leftarrow> fklMulBigIntI b 10;
          d \<leftarrow> digit_value c;
          b \<leftarrow> fklAddBigIntI b (ucast d);
          dec_loop buf (i + 1) maxLen b }
        else Some b }
      else Some b)"
  by pat_completeness auto
termination
  by (relation "measure (\<lambda>(buf, i, maxLen, b). maxLen - i)") auto

declare dec_loop.simps [simp del]

definition fklInitBigIntWithDecCharBuf :: "string \<Rightarrow> nat \<Rightarrow> FklBigInt option" where
  "fklInitBigIntWithDecCharBuf buf maxLen = do {
     c \<leftarrow> rd buf 0;
     let neg = (c = CHR ''-'');
     let offset = (if neg \<or> c = CHR ''+'' then 1 else 0);
     b \<leftarrow> dec_loop buf offset maxLen FKL_BIGINT_0;
     Some (if neg then neg_num b else b) }"

section \<open>Octal\<close>

abbreviation OCT_BIT_COUNT :: nat where "OCT_BIT_COUNT \<equiv> 3"
abbreviation DIGIT_OCT_COUNT :: nat where "DIGIT_OCT_COUNT \<equiv> 10"

definition oct_block :: "string \<Rightarrow> nat \<Rightarrow> nat \<Rightarrow> u32 option" where
  "oct_block buf i n =
     for_up i n (\<lambda>i carry. do {
       c \<leftarrow> rd buf i;
       d \<leftarrow> digit_value c;
       Some (push_bit OCT_BIT_COUNT carry OR ucast d) }) 0"

text \<open>\<open>pdigits[--total_len] = carry\<close>: below zero the index wraps around.\<close>

definition store_down :: "FklBigIntDigit list \<Rightarrow> nat \<Rightarrow> u32 \<Rightarrow> (FklBigIntDigit list \<times> nat) option" where
  "store_down ds k carry =
     (if k = 0 then None else do { ds \<leftarrow> wr ds (k - 1) carry; Some (ds, k - 1) })"

function oct_loop ::
  "string \<Rightarrow> nat \<Rightarrow> nat \<Rightarrow> FklBigIntDigit list \<Rightarrow> nat \<Rightarrow> FklBigIntDigit list option" where
  "oct_loop buf i maxLen ds k =
     (if i < maxLen then do {
        carry \<leftarrow> oct_block buf i (i + DIGIT_OCT_COUNT);
        (ds, k) \<leftarrow> store_down ds k carry;
        oct_loop buf (i + DIGIT_OCT_COUNT) maxLen ds k }
      else Some ds)"
  by pat_completeness auto
termination
  by (relation "measure (\<lambda>(buf, i, maxLen, ds, k). maxLen - i)") auto

declare oct_loop.simps [simp del]

definition oct_total_len :: "nat \<Rightarrow> nat" where
  "oct_total_len actual_len = actual_len div DIGIT_OCT_COUNT + (if actual_len mod DIGIT_OCT_COUNT > 0 then 1 else 0)"

definition oct_digits :: "string \<Rightarrow> nat \<Rightarrow> nat \<Rightarrow> FklBigIntDigit list \<Rightarrow> FklBigIntDigit list option" where
  "oct_digits buf offset maxLen ds = do {
     let high_len = (maxLen - offset) mod DIGIT_OCT_COUNT;
     carry \<leftarrow> oct_block buf offset (offset + high_len);
     (ds, k) \<leftarrow> store_down ds (oct_total_len (maxLen - offset)) carry;
     oct_loop buf (offset + high_len) maxLen ds k }"

text \<open>The sign, and the position of the first digit that is not a leading zero.\<close>

definition int_prefix :: "string \<Rightarrow> nat \<Rightarrow> nat \<Rightarrow> (bool \<times> nat) option" where
  "int_prefix buf maxLen skip = do {
     c \<leftarrow> rd buf 0;
     let neg = (c = CHR ''-'');
     offset \<leftarrow> skip_while (\<lambda>c. c = CHR ''0'') buf ((if neg \<or> c = CHR ''+'' then 1 else 0) + skip) maxLen;
     Some (neg, offset) }"

text \<open>
  \<open>len - offset\<close> is unsigned: for a lone sign, where it is negative, the number of digits is
  astronomic and the assertion behind the reallocation fails.
\<close>

definition fklInitBigIntWithOctCharBuf :: "string \<Rightarrow> nat \<Rightarrow> FklBigInt option" where
  "fklInitBigIntWithOctCharBuf buf maxLen = do {
     (neg, offset) \<leftarrow> int_prefix buf maxLen 1;
     FKL_ASSERT (offset \<le> maxLen);
     let total_len = oct_total_len (maxLen - offset);
     b \<leftarrow> ensure_bigint_size FKL_BIGINT_0 total_len;
     let b = b\<lparr>num := int total_len\<rparr>;
     if total_len = 0 then Some b
     else do {
       ds \<leftarrow> oct_digits buf offset maxLen (digits b);
       b \<leftarrow> bigint_normalize (b\<lparr>digits := ds\<rparr>);
       Some (if neg then neg_num b else b) } }"

section \<open>Hexadecimal\<close>

abbreviation HEX_BIT_COUNT :: nat where "HEX_BIT_COUNT \<equiv> 4"

text \<open>The loop that reads the characters from \<open>maxLen\<close> down to \<open>offset\<close>; its state is the array, the
  number of digits written, the accumulator and the number of bits in it.\<close>

definition hex_loop ::
  "string \<Rightarrow> nat \<Rightarrow> nat \<Rightarrow> FklBigIntDigit list \<Rightarrow> (FklBigIntDigit list \<times> nat \<times> FklBigIntTwoDigit \<times> nat) option" where
  "hex_loop buf offset maxLen ds =
     for_down (maxLen - offset) (\<lambda>j (ds, k, accum, bits). do {
       c \<leftarrow> rd buf (offset + j);
       d \<leftarrow> digit_value c;
       let accum = accum OR push_bit bits (ucast d);
       let bits = bits + HEX_BIT_COUNT;
       if bits \<ge> FKL_BIGINT_DIGIT_SHIFT then do {
         ds \<leftarrow> wr ds k (ucast (accum AND FKL_BIGINT_DIGIT_MASK));
         Some (ds, k + 1, drop_bit FKL_BIGINT_DIGIT_SHIFT accum, bits - FKL_BIGINT_DIGIT_SHIFT) }
       else Some (ds, k, accum, bits) }) (ds, 0, 0, 0)"

definition hex_digits_count :: "nat \<Rightarrow> nat" where
  "hex_digits_count n = (n * HEX_BIT_COUNT + FKL_BIGINT_DIGIT_SHIFT - 1) div FKL_BIGINT_DIGIT_SHIFT"

definition hex_digits :: "string \<Rightarrow> nat \<Rightarrow> nat \<Rightarrow> FklBigIntDigit list \<Rightarrow> FklBigIntDigit list option" where
  "hex_digits buf offset maxLen ds = do {
     (ds, k, accum, bits) \<leftarrow> hex_loop buf offset maxLen ds;
     (ds, k) \<leftarrow> (if bits \<noteq> 0 then do { ds \<leftarrow> wr ds k (ucast accum); Some (ds, k + 1) } else Some (ds, k));
     for_up k (hex_digits_count (maxLen - offset)) (\<lambda>i ds. wr ds i 0) ds }"

definition fklInitBigIntWithHexCharBuf :: "string \<Rightarrow> nat \<Rightarrow> FklBigInt option" where
  "fklInitBigIntWithHexCharBuf buf maxLen = do {
     (neg, offset) \<leftarrow> int_prefix buf maxLen 2;
     let digits_count = hex_digits_count (maxLen - offset);
     b \<leftarrow> ensure_bigint_size FKL_BIGINT_0 digits_count;
     ds \<leftarrow> hex_digits buf offset maxLen (digits b);
     b \<leftarrow> bigint_normalize (b\<lparr>digits := ds, num := int digits_count\<rparr>);
     Some (if neg then neg_num b else b) }"

section \<open>Any integer literal\<close>

definition fklInitBigIntWithCharBuf :: "string \<Rightarrow> nat \<Rightarrow> FklBigInt option" where
  "fklInitBigIntWithCharBuf buf maxLen = do {
     hex \<leftarrow> fklIsHexInt buf maxLen;
     if hex then fklInitBigIntWithHexCharBuf buf maxLen
     else do {
       oct \<leftarrow> fklIsOctInt buf maxLen;
       if oct then fklInitBigIntWithOctCharBuf buf maxLen
       else fklInitBigIntWithDecCharBuf buf maxLen } }"

definition fklInitBigIntWithCstr :: "string \<Rightarrow> FklBigInt option" where
  "fklInitBigIntWithCstr cstr = fklInitBigIntWithCharBuf (cstr @ [CHR 0x00]) (length cstr)"

text \<open>
  The variants for a big integer whose digits live in memory of the caller: \<open>alloc\<close> is the
  callback that provides the array. The result is the number that is stored through \<open>num\<close> and the
  array.
\<close>

definition fklInitBigIntWithOctCharBuf2 ::
  "(nat \<Rightarrow> FklBigIntDigit list) \<Rightarrow> string \<Rightarrow> nat \<Rightarrow> (int \<times> FklBigIntDigit list) option" where
  "fklInitBigIntWithOctCharBuf2 alloc buf maxLen = do {
     (neg, offset) \<leftarrow> int_prefix buf maxLen 1;
     FKL_ASSERT (offset \<le> maxLen);
     let total_len = oct_total_len (maxLen - offset);
     let bdigits = alloc total_len;
     if total_len = 0 then Some (0, bdigits)
     else do {
       ds \<leftarrow> oct_digits buf offset maxLen bdigits;
       n \<leftarrow> bigint_normalize2 (int total_len) ds;
       Some (if neg then - n else n, ds) } }"

definition fklInitBigIntWithHexCharBuf2 ::
  "(nat \<Rightarrow> FklBigIntDigit list) \<Rightarrow> string \<Rightarrow> nat \<Rightarrow> (int \<times> FklBigIntDigit list) option" where
  "fklInitBigIntWithHexCharBuf2 alloc buf maxLen = do {
     (neg, offset) \<leftarrow> int_prefix buf maxLen 2;
     let digits_count = hex_digits_count (maxLen - offset);
     ds \<leftarrow> hex_digits buf offset maxLen (alloc digits_count);
     n \<leftarrow> bigint_normalize2 (int digits_count) ds;
     Some (if neg then - n else n, ds) }"

definition fklInitBigIntWithDecCharBuf2 ::
  "(nat \<Rightarrow> FklBigIntDigit list) \<Rightarrow> string \<Rightarrow> nat \<Rightarrow> (int \<times> FklBigIntDigit list) option" where
  "fklInitBigIntWithDecCharBuf2 alloc buf maxLen = do {
     b \<leftarrow> fklInitBigIntWithDecCharBuf buf maxLen;
     to \<leftarrow> fklSetBigInt \<lparr>digits = alloc (bsize b), num = 0, bsize = bsize b, const_size = True\<rparr> b;
     Some (num to, digits to) }"

definition fklInitBigIntWithCharBuf2 ::
  "(nat \<Rightarrow> FklBigIntDigit list) \<Rightarrow> string \<Rightarrow> nat \<Rightarrow> (int \<times> FklBigIntDigit list) option" where
  "fklInitBigIntWithCharBuf2 alloc buf maxLen = do {
     hex \<leftarrow> fklIsHexInt buf maxLen;
     if hex then fklInitBigIntWithHexCharBuf2 alloc buf maxLen
     else do {
       oct \<leftarrow> fklIsOctInt buf maxLen;
       if oct then fklInitBigIntWithOctCharBuf2 alloc buf maxLen
       else fklInitBigIntWithDecCharBuf2 alloc buf maxLen } }"

section \<open>What a digit string stands for\<close>

definition char_digit :: "char \<Rightarrow> nat" where
  "char_digit c = (if c \<in> set ''0123456789'' then of_char c - of_char CHR ''0''
     else if c \<in> set ''abcdefghijklmnopqrstuvwxyz'' then of_char c - of_char CHR ''a'' + 10
     else of_char c - of_char CHR ''A'' + 10)"

definition num_of :: "nat \<Rightarrow> string \<Rightarrow> nat" where
  "num_of b s = foldl (\<lambda>v c. b * v + char_digit c) 0 s"

definition signed_num :: "string \<Rightarrow> nat \<Rightarrow> int" where
  "signed_num s n = (if s \<noteq> [] \<and> hd s = CHR ''-'' then - int n else int n)"

lemma num_of_snoc: "num_of b (s @ [c]) = b * num_of b s + char_digit c"
  by (simp add: num_of_def)

lemma num_of_Nil [simp]: "num_of b [] = 0"
  by (simp add: num_of_def)

lemma num_of_append: "num_of b (s @ t) = num_of b s * b ^ length t + num_of b t"
  by (induction t rule: rev_induct) (simp_all add: num_of_snoc algebra_simps flip: append_assoc)

lemma num_of_Cons: "num_of b (c # s) = char_digit c * b ^ length s + num_of b s"
  using num_of_append [of b "[c]" s] num_of_snoc [of b "[]" c] by simp

lemma num_of_zeros: "num_of b (dropWhile (\<lambda>c. c = CHR ''0'') s) = num_of b s"
  by (induction s) (simp_all add: num_of_Cons char_digit_def)

lemma num_of_less: "(\<And>c. c \<in> set s \<Longrightarrow> char_digit c < b) \<Longrightarrow> num_of b s < b ^ length s"
proof (induction s rule: rev_induct)
  case Nil
  then show ?case by simp
next
  case (snoc c s)
  then have "num_of b s + 1 \<le> b ^ length s" "char_digit c < b" by (auto simp: Suc_le_eq)
  then have "b * (num_of b s + 1) \<le> b * b ^ length s" by (intro mult_le_mono2)
  then show ?case using \<open>char_digit c < b\<close> by (simp add: num_of_snoc)
qed

lemma digit_value_digit: "is_digit c \<Longrightarrow> char_digit c < 10 \<and> digit_value c = Some (of_nat (char_digit c))"
proof -
  have "\<forall>c. is_digit c \<longrightarrow> char_digit c < 10 \<and> digit_value c = Some (of_nat (char_digit c))" by code_simp
  then show "is_digit c \<Longrightarrow> ?thesis" by blast
qed

lemma digit_value_oct: "is_oct c \<Longrightarrow> char_digit c < 8 \<and> digit_value c = Some (of_nat (char_digit c))"
proof -
  have "\<forall>c. is_oct c \<longrightarrow> char_digit c < 8 \<and> digit_value c = Some (of_nat (char_digit c))" by code_simp
  then show "is_oct c \<Longrightarrow> ?thesis" by blast
qed

lemma digit_value_xdigit: "is_xdigit c \<Longrightarrow> char_digit c < 16 \<and> digit_value c = Some (of_nat (char_digit c))"
proof -
  have "\<forall>c. is_xdigit c \<longrightarrow> char_digit c < 16 \<and> digit_value c = Some (of_nat (char_digit c))" by code_simp
  then show "is_xdigit c \<Longrightarrow> ?thesis" by blast
qed

section \<open>Decimal\<close>

text \<open>
  Reading by multiplying and adding, over any representation of numbers that has the two
  operations.
\<close>

fun horner_run :: "('a \<Rightarrow> 'a option) \<Rightarrow> (nat \<Rightarrow> 'a \<Rightarrow> 'a option) \<Rightarrow> string \<Rightarrow> 'a \<Rightarrow> 'a option" where
  "horner_run scale add [] b = Some b"
| "horner_run scale add (c # s) b = do { b \<leftarrow> scale b; b \<leftarrow> add (char_digit c) b; horner_run scale add s b }"

locale horner =
  fixes scale :: "'a \<Rightarrow> 'a option" and add :: "nat \<Rightarrow> 'a \<Rightarrow> 'a option"
    and ok :: "'a \<Rightarrow> bool" and number :: "'a \<Rightarrow> int" and base :: nat
  assumes scale: "ok b \<Longrightarrow> wp (scale b) (\<lambda>r. ok r \<and> number r = int base * number b)"
    and add: "ok b \<Longrightarrow> d < base \<Longrightarrow> wp (add d b) (\<lambda>r. ok r \<and> number r = number b + int d)"
begin

lemma run:
  assumes "ok b" and "\<And>c. c \<in> set s \<Longrightarrow> char_digit c < base"
  shows "wp (horner_run scale add s b)
    (\<lambda>r. ok r \<and> number r = number b * int base ^ length s + int (num_of base s))"
  using assms
proof (induction s arbitrary: b)
  case Nil
  then show ?case by simp
next
  case (Cons c s)
  have "wp (do { b \<leftarrow> scale b; add (char_digit c) b })
    (\<lambda>r. ok r \<and> number r = int base * number b + int (char_digit c))"
    using Cons.prems by (auto intro!: wp_mono [OF scale] wp_mono [OF add])
  then obtain x y where x: "scale b = Some x" "add (char_digit c) x = Some y" "ok y"
    "number y = int base * number b + int (char_digit c)"
    by (auto simp: wp_iff elim!: Option.bind_eq_Some_conv [THEN iffD1, elim_format])
  have "wp (horner_run scale add s y)
    (\<lambda>r. ok r \<and> number r = number y * int base ^ length s + int (num_of base s))"
    by (rule Cons.IH) (use x Cons.prems in auto)
  then show ?case using x by (simp add: num_of_Cons algebra_simps)
qed

lemma run0: "ok b \<Longrightarrow> number b = 0 \<Longrightarrow> (\<And>c. c \<in> set s \<Longrightarrow> char_digit c < base)
  \<Longrightarrow> wp (horner_run scale add s b) (\<lambda>r. ok r \<and> number r = int (num_of base s))"
  using run [of b s] by simp

end

text \<open>The big integers of the code are such a representation.\<close>

definition bi_nonneg :: "FklBigInt \<Rightarrow> bool" where
  "bi_nonneg b \<longleftrightarrow> bi_own b \<and> 0 \<le> bi_val b"

lemma not_add_faulty: "bi_wf b \<Longrightarrow> 0 \<le> bi_val b \<Longrightarrow> \<not> add_faulty a b"
  using mag_pos [of b] by (auto simp: add_faulty_def bi_val_cases)

interpretation bigint: horner "\<lambda>b. fklMulBigIntI b 10" "\<lambda>d b. fklAddBigIntI b (of_nat d)" bi_nonneg bi_val 10
proof
  fix b
  assume "bi_nonneg b"
  then have b: "bi_own b" "0 \<le> bi_val b" by (simp_all add: bi_nonneg_def)
  show "wp (fklMulBigIntI b 10) (\<lambda>r. bi_nonneg r \<and> bi_val r = int 10 * bi_val b)"
    unfolding fklMulBigIntI_def wp_simps
    by (rule wp_mono [OF wp_bigint_of_i64])
      (use b in \<open>auto intro!: wp_mono [OF wp_fklMulBigInt] simp: bi_nonneg_def\<close>)
next
  fix b and d :: nat
  assume "bi_nonneg b" "d < 10"
  then have b: "bi_own b" "0 \<le> bi_val b" by (simp_all add: bi_nonneg_def)
  have d: "sint (of_nat d :: i64) = int d"
    using \<open>d < 10\<close> by (simp add: sint_64 unsigned_of_nat take_bit_nat_eq_self uint_nat del: of_nat_unat)
  show "wp (fklAddBigIntI b (of_nat d)) (\<lambda>r. bi_nonneg r \<and> bi_val r = bi_val b + int d)"
    unfolding fklAddBigIntI_def wp_simps
  proof (rule wp_mono [OF wp_bigint_of_i64])
    fix x
    assume "bi_wf x \<and> bi_val x = sint (of_nat d :: i64)"
    then have x: "bi_wf x" "bi_val x = int d" using d by auto
    show "wp (fklAddBigInt b x) (\<lambda>r. bi_nonneg r \<and> bi_val r = bi_val b + int d)"
      by (rule wp_mono [OF wp_add_spec [OF b(1) x(1)]])
        (use b x not_add_faulty [OF x(1), of b] in \<open>auto simp: bi_nonneg_def\<close>)
  qed
qed

lemma dec_loop_eq:
  "i \<le> maxLen \<Longrightarrow> maxLen \<le> length buf \<Longrightarrow> dec_loop buf i maxLen b
    = horner_run (\<lambda>b. fklMulBigIntI b 10) (\<lambda>d b. fklAddBigIntI b (of_nat d))
        (takeWhile is_digit (drop i (take maxLen buf))) b"
proof (induction "maxLen - i" arbitrary: i b)
  case 0
  then show ?case by (simp add: dec_loop.simps)
next
  case (Suc n)
  then have i: "i < maxLen" "i < length buf" by simp_all
  have d: "drop i (take maxLen buf) = buf ! i # drop (i + 1) (take maxLen buf)"
    using i by (simp add: Cons_nth_drop_Suc [symmetric])
  have IH: "dec_loop buf (i + 1) maxLen = horner_run (\<lambda>b. fklMulBigIntI b 10) (\<lambda>d b. fklAddBigIntI b (of_nat d))
        (takeWhile is_digit (drop (i + 1) (take maxLen buf)))"
    by (rule ext, rule Suc.hyps) (use Suc in auto)
  have c: "ucast (of_nat m :: u8) = (of_nat m :: i64)" if "m < 10" for m
    using that by (simp add: word_unat_eq_iff unat_ucast_mod unsigned_of_nat take_bit_nat_eq_self)
  show ?case using i d digit_value_digit [of "buf ! i"] IH c
    by (subst dec_loop.simps) (auto simp: rd_def)
qed

lemma bi_zero: "bi_own FKL_BIGINT_0" "bi_val FKL_BIGINT_0 = 0"
  by (simp_all add: FKL_BIGINT_0_def bi_own_def bi_wf_def bi_ok_def used_def len_def bi_val_cases)

lemma neg_num_spec: "bi_own b \<Longrightarrow> bi_own (neg_num b) \<and> bi_val (neg_num b) = - bi_val b"
  by (simp add: neg_num_def bi_val_neg_num)

lemma wp_dec_reader:
  assumes "s \<noteq> []"
  shows "wp (fklInitBigIntWithDecCharBuf (s @ t) (length s))
    (\<lambda>r. bi_own r \<and> bi_val r = signed_num s (num_of 10 (takeWhile is_digit (opt_sign s))))"
proof -
  let ?i = "if hd s = CHR ''-'' \<or> hd s = CHR ''+'' then 1 else 0 :: nat"
  have d: "drop ?i s = opt_sign s" using assms by (simp add: opt_sign_def drop_Suc)
  have c: "rd (s @ t) 0 = Some (hd s)" using assms by (simp add: rd_def nth_append hd_conv_nth)
  have "wp (dec_loop (s @ t) ?i (length s) FKL_BIGINT_0)
    (\<lambda>r. bi_nonneg r \<and> bi_val r = int (num_of 10 (takeWhile is_digit (opt_sign s))))"
  proof -
    have "wp (horner_run (\<lambda>b. fklMulBigIntI b 10) (\<lambda>d b. fklAddBigIntI b (of_nat d))
        (takeWhile is_digit (opt_sign s)) FKL_BIGINT_0)
      (\<lambda>r. bi_nonneg r \<and> bi_val r = int (num_of 10 (takeWhile is_digit (opt_sign s))))"
      by (rule bigint.run0)
        (use bi_zero digit_value_digit in \<open>auto simp: bi_nonneg_def dest: set_takeWhileD\<close>)
    then show ?thesis using assms d by (subst dec_loop_eq) (auto simp: Suc_le_eq)
  qed
  then show ?thesis using assms c neg_num_spec
    by (auto simp: fklInitBigIntWithDecCharBuf_def signed_num_def Let_def bi_nonneg_def elim!: wp_mono)
qed

section \<open>Octal\<close>

lemma eight_10: "(8 :: nat) ^ 10 = BASE" and sixteen: "(16 :: nat) ^ n = 2 ^ (4 * n)"
  by (simp_all add: BASE_def power_mult)

lemma num_of_block: "i \<le> j \<Longrightarrow> j \<le> length s \<Longrightarrow>
  num_of b (drop i s) = num_of b (take (j - i) (drop i s)) * b ^ (length s - j) + num_of b (drop j s)"
  using num_of_append [of b "take (j - i) (drop i s)" "drop j s"] append_take_drop_id [of "j - i" "drop i s"]
  by simp

lemma wp_oct_block:
  assumes "i \<le> n" "n \<le> length s" "n - i \<le> 10" "\<forall>c \<in> set (drop i s). is_oct c"
  shows "wp (oct_block (s @ t) i n) (\<lambda>c. unat c = num_of 8 (take (n - i) (drop i s)) \<and> unat c < 8 ^ (n - i))"
  unfolding oct_block_def
proof (rule wp_for_up [where I = "\<lambda>j c. unat c = num_of 8 (take (j - i) (drop i s)) \<and> unat c < 8 ^ (j - i)"])
  fix j and c :: u32
  assume j: "i \<le> j" "j < n" and c: "unat c = num_of 8 (take (j - i) (drop i s)) \<and> unat c < 8 ^ (j - i)"
  have l: "j < length s" using j assms by simp
  then have "drop i s ! (j - i) = s ! j" "j - i < length (drop i s)" using j by simp_all
  then have m: "s ! j \<in> set (drop i s)" using nth_mem by metis
  let ?d = "char_digit (s ! j)"
  have d: "?d < 8" "digit_value (s ! j) = Some (of_nat ?d)" using digit_value_oct assms m by auto
  have ud: "unat (ucast (of_nat ?d :: u8) :: u32) = ?d"
    using d by (simp add: unat_ucast_mod unsigned_of_nat take_bit_nat_eq_self)
  have "(8::nat) ^ (j - i) \<le> 8 ^ 9" using j assms by (intro power_increasing) auto
  then have "unat c < 8 ^ 9" using c by linarith
  then have "unat (ucast (of_nat ?d :: u8) OR push_bit 3 c) = ?d + 2 ^ 3 * unat c"
    using d ud by (subst or_push_bit) simp_all
  then have u: "unat (push_bit 3 c OR ucast (of_nat ?d :: u8)) = 8 * unat c + ?d"
    by (simp add: or.commute)
  have "take (Suc j - i) (drop i s) = take (j - i) (drop i s) @ [s ! j]"
    using j l by (simp add: Suc_diff_le take_Suc_conv_app_nth)
  moreover have "8 * unat c + ?d < 8 * 8 ^ (j - i)" using c d by linarith
  ultimately show "wp (do { c' \<leftarrow> rd (s @ t) j; d \<leftarrow> digit_value c'; Some (push_bit OCT_BIT_COUNT c OR ucast d) })
    (\<lambda>c. unat c = num_of 8 (take (Suc j - i) (drop i s)) \<and> unat c < 8 ^ (Suc j - i))"
    using l d u c j by (simp add: nth_append num_of_snoc Suc_diff_le)
qed (use assms in auto)

lemma wp_oct_loop:
  assumes "length s = i + 10 * m" "m \<le> length ds" "\<forall>c \<in> set (drop i s). is_oct c"
  shows "wp (oct_loop (s @ t) i (length s) ds m) (\<lambda>r. length r = length ds \<and> drop m r = drop m ds
    \<and> digits_ok (take m r) \<and> val (take m r) = num_of 8 (drop i s))"
  using assms
proof (induction m arbitrary: i ds)
  case 0
  then show ?case by (simp add: oct_loop.simps)
next
  case (Suc m)
  have blk: "wp (oct_block (s @ t) i (i + 10)) (\<lambda>c. unat c = num_of 8 (take 10 (drop i s)) \<and> unat c < BASE)"
    using wp_oct_block [of i "i + 10" s t] Suc.prems unfolding eight_10 [symmetric] by simp
  then obtain c where c: "oct_block (s @ t) i (i + 10) = Some c" "unat c = num_of 8 (take 10 (drop i s))"
    "unat c < BASE" by (auto elim: wpE)
  have "set (drop (i + 10) s) \<subseteq> set (drop i s)"
    by (metis add.commute drop_drop set_drop_subset)
  then have IH: "wp (oct_loop (s @ t) (i + 10) (length s) (ds[m := c]) m) (\<lambda>r. length r = length (ds[m := c])
    \<and> drop m r = drop m (ds[m := c]) \<and> digits_ok (take m r) \<and> val (take m r) = num_of 8 (drop (i + 10) s))"
    using Suc.prems by (intro Suc.IH) auto
  have n: "num_of 8 (drop i s) = unat c * BASE ^ m + num_of 8 (drop (i + 10) s)"
    using num_of_block [of i "i + 10" s 8] Suc.prems c by (simp add: power_mult flip: eight_10)
  have eq: "oct_loop (s @ t) i (length s) ds (Suc m) = oct_loop (s @ t) (i + 10) (length s) (ds[m := c]) m"
    using c Suc.prems by (subst oct_loop.simps) (simp add: store_down_def wr_def)
  show ?case unfolding eq
  proof (rule wp_mono [OF IH])
    fix r
    assume r: "length r = length (ds[m := c]) \<and> drop m r = drop m (ds[m := c]) \<and> digits_ok (take m r)
      \<and> val (take m r) = num_of 8 (drop (i + 10) s)"
    have m: "m < length ds" using Suc.prems by simp
    have rm: "r ! m = c" using drop_eq_nth [of m r "ds[m := c]" m] r m by simp
    have "drop (Suc m) r = drop (Suc m) (ds[m := c])" using r by (intro drop_Suc_eq) simp
    then show "length r = length ds \<and> drop (Suc m) r = drop (Suc m) ds
      \<and> digits_ok (take (Suc m) r) \<and> val (take (Suc m) r) = num_of 8 (drop i s)"
      using r m rm c n by (simp add: digits_ok_take_Suc val_take_Suc)
  qed
qed

text \<open>The blocks fill the array exactly when there is a first, shorter one.\<close>

lemma wp_oct_digits:
  assumes "(length s - i) mod 10 \<noteq> 0" "i \<le> length s" "oct_total_len (length s - i) \<le> length ds"
    "\<forall>c \<in> set (drop i s). is_oct c"
  shows "wp (oct_digits (s @ t) i (length s) ds) (\<lambda>r. length r = length ds
    \<and> digits_ok (take (oct_total_len (length s - i)) r)
    \<and> val (take (oct_total_len (length s - i)) r) = num_of 8 (drop i s))"
proof -
  let ?h = "(length s - i) mod 10" and ?m = "(length s - i) div 10"
  have k: "oct_total_len (length s - i) = Suc ?m" using assms by (simp add: oct_total_len_def)
  have ls: "length s = i + ?h + 10 * ?m" using assms(2) mod_mult_div_eq [of "length s - i" 10] by simp
  have h: "i \<le> i + ?h" "i + ?h \<le> length s" "i + ?h - i \<le> 10" using ls by simp_all
  obtain c where c: "oct_block (s @ t) i (i + ?h) = Some c" "unat c = num_of 8 (take ?h (drop i s))" "unat c < 8 ^ ?h"
    using wp_oct_block [OF h assms(4), of t] by (auto elim: wpE)
  have "(8::nat) ^ ?h \<le> BASE" unfolding eight_10 [symmetric] by (intro power_increasing) auto
  then have cb: "unat c < BASE" using c(3) by linarith
  have sub: "set (drop (i + ?h) s) \<subseteq> set (drop i s)"
    by (metis add.commute drop_drop set_drop_subset)
  have ds: "?m < length ds" using assms(3) k by simp
  have L: "wp (oct_loop (s @ t) (i + ?h) (length s) (ds[?m := c]) ?m) (\<lambda>r. length r = length (ds[?m := c])
    \<and> drop ?m r = drop ?m (ds[?m := c]) \<and> digits_ok (take ?m r) \<and> val (take ?m r) = num_of 8 (drop (i + ?h) s))"
    using ls ds sub assms(4) by (intro wp_oct_loop) auto
  have n: "num_of 8 (drop i s) = unat c * BASE ^ ?m + num_of 8 (drop (i + ?h) s)"
  proof -
    have "length s - (i + ?h) = 10 * ?m" using ls by linarith
    then have "(8::nat) ^ (length s - (i + ?h)) = BASE ^ ?m" by (simp only: power_mult eight_10)
    then show ?thesis using num_of_block [OF h(1,2), of 8] c(2) by simp
  qed
  have eq: "oct_digits (s @ t) i (length s) ds = oct_loop (s @ t) (i + ?h) (length s) (ds[?m := c]) ?m"
    using c ds k by (simp add: oct_digits_def store_down_def wr_def Let_def)
  show ?thesis unfolding eq k
  proof (rule wp_mono [OF L])
    fix r
    assume r: "length r = length (ds[?m := c]) \<and> drop ?m r = drop ?m (ds[?m := c]) \<and> digits_ok (take ?m r)
      \<and> val (take ?m r) = num_of 8 (drop (i + ?h) s)"
    have rm: "r ! ?m = c" using drop_eq_nth [of ?m r "ds[?m := c]" ?m] r ds by simp
    then show "length r = length ds \<and> digits_ok (take (Suc ?m) r) \<and> val (take (Suc ?m) r) = num_of 8 (drop i s)"
      using r ds cb n by (simp add: digits_ok_take_Suc val_take_Suc)
  qed
qed

text \<open>Without one, the first store takes a cell too many and the last one runs below the array.\<close>

lemma oct_loop_underflow: "i + 10 * m < n \<Longrightarrow> n \<le> length buf \<Longrightarrow> oct_loop buf i n ds m = None"
proof (induction m arbitrary: i ds)
  case 0
  then show ?case by (subst oct_loop.simps) (simp add: store_down_def)
next
  case (Suc m)
  have "oct_loop buf (i + 10) n d m = None" for d by (rule Suc.IH) (use Suc.prems in auto)
  then show ?case using Suc.prems
    by (subst oct_loop.simps) (auto simp: store_down_def wr_def split: Option.bind_splits)
qed

lemma oct_digits_underflow:
  assumes "(n - i) mod 10 = 0" "i < n" "n \<le> length buf"
  shows "oct_digits buf i n ds = None"
proof -
  let ?m = "(n - i) div 10"
  have n: "n = i + 10 * ?m" using assms mod_mult_div_eq [of "n - i" 10] by simp
  then have "0 < ?m" using assms(2) by linarith
  then have "i + 10 * (?m - 1) < n" using n by linarith
  then have "oct_loop buf i n d (?m - 1) = None" for d using assms by (intro oct_loop_underflow)
  then show ?thesis using assms \<open>0 < ?m\<close>
    by (auto simp: oct_digits_def oct_total_len_def oct_block_def store_down_def Let_def split: Option.bind_splits)
qed

lemma int_prefix_eq:
  assumes "s \<noteq> []" "skip \<le> length (opt_sign s)"
  obtains j where "int_prefix (s @ t) (length s) skip = Some (hd s = CHR ''-'', j)" "j \<le> length s"
    "drop j s = dropWhile (\<lambda>c. c = CHR ''0'') (drop skip (opt_sign s))"
proof -
  let ?g = "if hd s = CHR ''-'' \<or> hd s = CHR ''+'' then 1 else 0 :: nat"
  let ?i = "?g + skip"
  have d: "drop ?g s = opt_sign s" using assms by (simp add: opt_sign_def drop_Suc)
  then have l: "length (opt_sign s) = length s - ?g" by (metis length_drop)
  have "?g \<le> length s" using assms(1) by (simp add: Suc_le_eq)
  then have i: "?i \<le> length s" using l assms(2) by linarith
  have di: "drop ?i s = drop skip (opt_sign s)" by (metis d drop_drop add.commute)
  let ?z = "\<lambda>c. c = CHR ''0''"
  let ?j = "?i + length (takeWhile ?z (drop ?i s))"
  have "rd (s @ t) 0 = Some (hd s)" using assms by (simp add: rd_def nth_append hd_conv_nth)
  then have "int_prefix (s @ t) (length s) skip = Some (hd s = CHR ''-'', ?j)"
    using skip_while_eq [OF i, of ?z t] by (simp add: int_prefix_def Let_def)
  moreover have "?j \<le> length s" using i length_takeWhile_le [of ?z "drop ?i s"] by simp
  moreover have "drop ?j s = dropWhile ?z (drop skip (opt_sign s))"
    using drop_takeWhile [of ?i ?z s] unfolding di .
  ultimately show ?thesis by (rule that)
qed

text \<open>The common end of the two readers: a fresh array filled with \<open>n\<close> digits is normalised.\<close>

lemma ensure_fresh:
  obtains x where "ensure_bigint_size FKL_BIGINT_0 n = Some x" "bsize x = n" "length (digits x) = n"
    "\<not> const_size x" "num x = 0"
  using wp_ensure [of FKL_BIGINT_0 n] bi_own_room [OF bi_own_0, of n]
  by (auto simp: FKL_BIGINT_0_def elim!: wpE)

lemma wp_normalize_fresh:
  assumes "length (digits x) = n" "bsize x = n" "\<not> const_size x" "length ds = n" "digits_ok ds"
  shows "wp (bigint_normalize (x\<lparr>digits := ds, num := int n\<rparr>)) (\<lambda>r. bi_own r \<and> bi_val r = int (val ds))"
proof -
  let ?r = "x\<lparr>digits := ds, num := int n\<rparr>"
  have ok: "bi_ok ?r" using assms by (simp add: bi_ok_def used_def)
  have "bi_val ?r = int (val ds)" using assms by (auto simp: bi_val_cases mag_def used_def)
  then show ?thesis using assms by (intro wp_mono [OF wp_normalize [OF ok]]) (simp add: bi_own_def)
qed

definition oct_significant :: "string \<Rightarrow> string" where
  "oct_significant s = dropWhile (\<lambda>c. c = CHR ''0'') (tl (opt_sign s))"

lemma oct_int_parts:
  assumes "oct_int s"
  shows "s \<noteq> []" "opt_sign s = CHR ''0'' # tl (opt_sign s)" "\<forall>c \<in> set (oct_significant s). is_oct c"
    "num_of 8 (opt_sign s) = num_of 8 (oct_significant s)" "drop 1 (opt_sign s) = tl (opt_sign s)"
proof -
  obtain ds where ds: "opt_sign s = CHR ''0'' # ds" "list_all is_oct ds"
    using assms by (auto simp: oct_int_def is_oct_iff list_all_iff)
  then show "s \<noteq> []" "opt_sign s = CHR ''0'' # tl (opt_sign s)" "drop 1 (opt_sign s) = tl (opt_sign s)"
    by (auto simp: opt_sign_def)
  show "\<forall>c \<in> set (oct_significant s). is_oct c"
    using ds by (auto simp: oct_significant_def list_all_iff dest: set_dropWhileD)
  show "num_of 8 (opt_sign s) = num_of 8 (oct_significant s)"
    using ds by (simp add: oct_significant_def num_of_zeros num_of_Cons char_digit_def)
qed

lemma oct_prefix:
  assumes "oct_int s"
  obtains j where "int_prefix (s @ t) (length s) 1 = Some (hd s = CHR ''-'', j)" "j \<le> length s"
    "drop j s = oct_significant s" "length s - j = length (oct_significant s)"
proof -
  note p = oct_int_parts [OF assms]
  have "1 \<le> length (opt_sign s)" by (subst p(2)) simp
  then obtain j where j: "int_prefix (s @ t) (length s) 1 = Some (hd s = CHR ''-'', j)" "j \<le> length s"
    "drop j s = oct_significant s"
    using int_prefix_eq [OF p(1), of 1 t] unfolding oct_significant_def p(5) by metis
  then show ?thesis using that by (metis length_drop)
qed

text \<open>What both octal readers rest on.\<close>

lemma wp_oct_core:
  assumes "oct_int s" "oct_significant s \<noteq> []" "length (oct_significant s) mod 10 \<noteq> 0"
    and "j \<le> length s" "drop j s = oct_significant s" and k: "k = oct_total_len (length s - j)" "length ds = k"
  shows "wp (oct_digits (s @ t) j (length s) ds)
    (\<lambda>r. length r = k \<and> digits_ok r \<and> val r = num_of 8 (opt_sign s))"
proof -
  note p = oct_int_parts [OF assms(1)]
  have "length s - j = length (oct_significant s)" using assms(5) by (metis length_drop)
  then have m: "(length s - j) mod 10 \<noteq> 0" using assms(3) by simp
  show ?thesis
    using wp_oct_digits [OF m assms(4), of ds t] k p assms(5) by (auto elim!: wp_mono)
qed

lemma wp_oct_reader:
  assumes s: "oct_int s" and n: "oct_significant s = [] \<or> length (oct_significant s) mod 10 \<noteq> 0"
  shows "wp (fklInitBigIntWithOctCharBuf (s @ t) (length s))
    (\<lambda>r. bi_own r \<and> bi_val r = signed_num s (num_of 8 (opt_sign s)))"
proof -
  note p = oct_int_parts [OF s]
  obtain j where j: "int_prefix (s @ t) (length s) 1 = Some (hd s = CHR ''-'', j)" "j \<le> length s"
    "drop j s = oct_significant s" "length s - j = length (oct_significant s)"
    by (rule oct_prefix [OF s])
  let ?k = "oct_total_len (length s - j)"
  obtain x where x: "ensure_bigint_size FKL_BIGINT_0 ?k = Some x" "bsize x = ?k" "length (digits x) = ?k"
    "\<not> const_size x" "num x = 0" by (rule ensure_fresh)
  show ?thesis
  proof (cases "oct_significant s = []")
    case True
    then have k: "?k = 0" using j by (simp add: oct_total_len_def)
    have "bi_own (x\<lparr>num := 0\<rparr>) \<and> bi_val (x\<lparr>num := 0\<rparr>) = 0"
      using x k by (simp add: bi_own_def bi_wf_def bi_ok_def used_def len_def bi_val_cases)
    moreover have "num_of 8 (opt_sign s) = 0" using p True by simp
    ultimately show ?thesis using j x k
      by (simp add: fklInitBigIntWithOctCharBuf_def FKL_ASSERT_def Let_def signed_num_def)
  next
    case False
    then have "?k \<noteq> 0" using n j by (simp add: oct_total_len_def)
    obtain ds where ds: "oct_digits (s @ t) j (length s) (digits x) = Some ds" "length ds = ?k"
      "digits_ok ds" "val ds = num_of 8 (opt_sign s)"
      using wp_oct_core [OF s False _ j(2,3) refl x(3), of t] n False by (auto elim!: wpE)
    have "wp (bigint_normalize (x\<lparr>digits := ds, num := int ?k\<rparr>)) (\<lambda>r. bi_own r \<and> bi_val r = int (val ds))"
      by (rule wp_normalize_fresh) (use x ds in auto)
    moreover have "x\<lparr>digits := ds, num := int ?k\<rparr> = x\<lparr>num := int ?k, digits := ds\<rparr>" by simp
    ultimately have "wp (bigint_normalize (x\<lparr>num := int ?k, digits := ds\<rparr>)) (\<lambda>r. bi_own r \<and> bi_val r = int (val ds))"
      by metis
    then show ?thesis using j x ds p \<open>?k \<noteq> 0\<close> neg_num_spec
      by (auto simp: fklInitBigIntWithOctCharBuf_def FKL_ASSERT_def Let_def signed_num_def elim!: wp_mono)
  qed
qed

lemma oct_reader_underflow:
  assumes s: "oct_int s" and n: "oct_significant s \<noteq> []" "length (oct_significant s) mod 10 = 0"
  shows "fklInitBigIntWithOctCharBuf (s @ t) (length s) = None"
proof -
  obtain j where j: "int_prefix (s @ t) (length s) 1 = Some (hd s = CHR ''-'', j)" "j \<le> length s"
    "drop j s = oct_significant s" and lj: "length s - j = length (oct_significant s)"
    by (rule oct_prefix [OF s])
  then have "0 < length s - j" using n by (simp add: lj)
  then have "j < length s" "0 < length s - j" by simp_all
  then have "oct_digits (s @ t) j (length s) ds = None" for ds
    using n lj by (intro oct_digits_underflow) simp_all
  moreover have "oct_total_len (length s - j) \<noteq> 0" using \<open>0 < length s - j\<close> n lj
    by (auto simp: oct_total_len_def div_greater_zero_iff dest: dvd_imp_le)
  ultimately show ?thesis using j
    by (auto simp: fklInitBigIntWithOctCharBuf_def FKL_ASSERT_def Let_def split: Option.bind_splits)
qed

section \<open>Hexadecimal\<close>

definition hex_inv :: "string \<Rightarrow> nat \<Rightarrow> nat \<Rightarrow> FklBigIntDigit list \<times> nat \<times> FklBigIntTwoDigit \<times> nat \<Rightarrow> bool" where
  "hex_inv cs n j = (\<lambda>(ds, k, accum, bits). length ds = n \<and> 30 * k + bits = 4 * (length cs - j) \<and> bits < 30
     \<and> unat accum < 2 ^ bits \<and> digits_ok (take k ds)
     \<and> val (take k ds) + BASE ^ k * unat accum = num_of 16 (drop j cs))"

lemma wp_hex_loop:
  assumes "i \<le> length s" and cs: "cs = drop i s" and "n = hex_digits_count (length cs)" "length ds = n"
    and x: "\<forall>c \<in> set cs. is_xdigit c"
  shows "wp (hex_loop (s @ t) i (length s) ds) (hex_inv cs n 0)"
  unfolding hex_loop_def
proof (rule wp_for_down [where I = "hex_inv cs n"])
  show "hex_inv cs n (length s - i) (ds, 0, 0, 0)" using assms by (simp add: hex_inv_def)
next
  fix j and st :: "FklBigIntDigit list \<times> nat \<times> FklBigIntTwoDigit \<times> nat"
  assume "j < length s - i" and inv: "hex_inv cs n (Suc j) st"
  obtain ds k a bits where st: "st = (ds, k, a, bits)" by (metis prod_cases4)
  have I: "length ds = n" "30 * k + bits = 4 * (length cs - Suc j)" "bits < 30" "unat a < 2 ^ bits"
    "digits_ok (take k ds)" "val (take k ds) + BASE ^ k * unat a = num_of 16 (drop (Suc j) cs)"
    using inv st by (simp_all add: hex_inv_def)
  have jl: "j < length cs" using \<open>j < length s - i\<close> cs by simp
  have "i + j < length s" using \<open>j < length s - i\<close> by simp
  then have c: "rd (s @ t) (i + j) = Some (cs ! j)" using cs by (simp add: rd_def nth_append)
  let ?d = "char_digit (cs ! j)"
  have d: "?d < 16" "digit_value (cs ! j) = Some (of_nat ?d)"
    using digit_value_xdigit [of "cs ! j"] x jl by auto
  have ud: "unat (ucast (of_nat ?d :: u8) :: u64) = ?d"
    using d by (simp add: unat_ucast_mod unsigned_of_nat take_bit_nat_eq_self)
  define a' where "a' = a OR push_bit bits (ucast (of_nat ?d :: u8) :: u64)"
  have "(2::nat) ^ bits * ?d + unat a < 2 ^ bits * 16"
  proof -
    have "(2::nat) ^ bits * ?d + unat a < 2 ^ bits * (?d + 1)" using I(4) by simp
    also have "\<dots> \<le> 2 ^ bits * 16" using d by (intro mult_le_mono2) simp
    finally show ?thesis .
  qed
  moreover have "(2::nat) ^ bits * 16 = 2 ^ (bits + 4)" by (simp add: power_add)
  ultimately have less: "2 ^ bits * ?d + unat a < 2 ^ (bits + 4)" by simp
  have "(2::nat) ^ (bits + 4) \<le> 2 ^ 33" using I(3) by (intro power_increasing) auto
  then have small: "2 ^ bits * ?d + unat a < 2 ^ LENGTH(64)" using less by simp
  have ua: "unat a' = unat a + 2 ^ bits * ?d"
    using or_push_bit [of a bits "ucast (of_nat ?d :: u8)"] I(4) small ud unfolding a'_def by simp
  have ua_less: "unat a' < 2 ^ (bits + 4)" using ua less by simp
  have sixt: "(16::nat) ^ (length cs - Suc j) = BASE ^ k * 2 ^ bits"
    unfolding sixteen I(2) [symmetric] by (simp add: BASE_def power_add power_mult)
  have "num_of 16 (drop j cs) = ?d * 16 ^ (length cs - Suc j) + num_of 16 (drop (Suc j) cs)"
    using jl by (simp add: num_of_Cons flip: Cons_nth_drop_Suc)
  also have "\<dots> = val (take k ds) + BASE ^ k * unat a'"
    unfolding sixt ua I(6) [symmetric] by (simp add: algebra_simps)
  finally have v: "num_of 16 (drop j cs) = val (take k ds) + BASE ^ k * unat a'" .
  have bal: "30 * k + (bits + 4) = 4 * (length cs - j)" using I(2) jl by simp
  show "wp ((\<lambda>(ds, k, accum, bits). do {
       c \<leftarrow> rd (s @ t) (i + j);
       d \<leftarrow> digit_value c;
       let accum = accum OR push_bit bits (ucast d);
       let bits = bits + HEX_BIT_COUNT;
       if bits \<ge> FKL_BIGINT_DIGIT_SHIFT then do {
         ds \<leftarrow> wr ds k (ucast (accum AND FKL_BIGINT_DIGIT_MASK));
         Some (ds, k + 1, drop_bit FKL_BIGINT_DIGIT_SHIFT accum, bits - FKL_BIGINT_DIGIT_SHIFT) }
       else Some (ds, k, accum, bits) }) st) (hex_inv cs n j)"
  proof (cases "30 \<le> bits + 4")
    case False
    then have "hex_inv cs n j (ds, k, a', bits + 4)"
      using I bal v ua_less by (simp add: hex_inv_def)
    then show ?thesis using False st c d by (simp add: Let_def add.commute flip: a'_def)
  next
    case True
    have "4 * (length cs - j) \<le> 4 * length cs" by simp
    then have "30 * Suc k \<le> 4 * length cs" unfolding bal [symmetric] using True by simp
    then have k: "k < length ds" using I(1) assms(3) by (simp add: hex_digits_count_def)
    let ?ds = "ds[k := ucast (a' AND FKL_BIGINT_DIGIT_MASK)]" and ?b = "drop_bit 30 a'"
    have "unat a' div BASE < 2 ^ (bits + 4 - 30)"
    proof -
      have "(2::nat) ^ (bits + 4) = 2 ^ (bits + 4 - 30 + 30)" using True by simp
      also have "\<dots> = 2 ^ (bits + 4 - 30) * BASE" unfolding BASE_def by (rule power_add)
      finally have "(2::nat) ^ (bits + 4) = 2 ^ (bits + 4 - 30) * BASE" .
      then show ?thesis using ua_less by (simp add: div_less_iff_less_mult)
    qed
    moreover have "val (take k ds) + BASE ^ k * (unat a' mod BASE) + BASE ^ Suc k * (unat a' div BASE)
        = val (take k ds) + BASE ^ k * unat a'"
      by (simp only: add.assoc digit_step)
    ultimately have "hex_inv cs n j (?ds, k + 1, ?b, bits + 4 - 30)"
      using I bal v k True by (simp add: hex_inv_def unat_hi take_update unat_ucast_lo)
    then show ?thesis using True k st c d by (simp add: Let_def add.commute flip: a'_def)
  qed
qed auto

lemma wp_hex_digits:
  assumes "i \<le> length s" and cs: "cs = drop i s" and n: "n = hex_digits_count (length cs)" "length ds = n"
    and x: "\<forall>c \<in> set cs. is_xdigit c"
  shows "wp (hex_digits (s @ t) i (length s) ds) (\<lambda>r. length r = n \<and> digits_ok r \<and> val r = num_of 16 cs)"
proof -
  obtain rs k a bits where r: "hex_loop (s @ t) i (length s) ds = Some (rs, k, a, bits)"
    "hex_inv cs n 0 (rs, k, a, bits)"
    using wp_hex_loop [OF assms, of t] by (auto elim!: wpE)
  then have I: "length rs = n" "30 * k + bits = 4 * length cs" "bits < 30" "unat a < 2 ^ bits"
    "digits_ok (take k rs)" "val (take k rs) + BASE ^ k * unat a = num_of 16 cs"
    by (simp_all add: hex_inv_def)
  have lc: "length s - i = length cs" using cs by simp
  show ?thesis
  proof (cases "bits = 0")
    case True
    then have "k = n" using I n by (simp add: hex_digits_count_def)
    then show ?thesis using r I True n lc by (simp add: hex_digits_def)
  next
    case False
    then have k: "Suc k = n" using I(2,3) n unfolding hex_digits_count_def by linarith
    have "unat a < BASE" using I(3,4) power_increasing [of bits 30 "2::nat"] by (simp add: BASE_def)
    moreover have "rs[k := ucast a] = take (Suc k) (rs[k := ucast a])" using k I(1) by simp
    ultimately have "digits_ok (rs[k := ucast a]) \<and> val (rs[k := ucast a]) = num_of 16 cs"
      using I k by (metis digits_ok_take_Suc_update lessI unat_ucast_digit val_take_Suc_update)
    then show ?thesis using r I False k n lc by (simp add: hex_digits_def wr_def)
  qed
qed

definition hex_digits_of :: "string \<Rightarrow> string" where
  "hex_digits_of s = drop 2 (opt_sign s)"

lemma hex_int_parts:
  assumes "hex_int s"
  shows "s \<noteq> []" "2 \<le> length (opt_sign s)" "\<forall>c \<in> set (hex_digits_of s). is_xdigit c"
proof -
  obtain x ds where d: "opt_sign s = CHR ''0'' # x # ds" "list_all is_xdigit ds"
    using assms by (auto simp: hex_int_def)
  then show "s \<noteq> []" "2 \<le> length (opt_sign s)" by (auto simp: opt_sign_def)
  show "\<forall>c \<in> set (hex_digits_of s). is_xdigit c" using d by (simp add: hex_digits_of_def list_all_iff)
qed

text \<open>What both hexadecimal readers rest on.\<close>

lemma wp_hex_core:
  assumes s: "hex_int s"
  obtains j n where "int_prefix (s @ t) (length s) 2 = Some (hd s = CHR ''-'', j)"
    "hex_digits_count (length s - j) = n"
    "\<forall>ds. length ds = n \<longrightarrow> wp (hex_digits (s @ t) j (length s) ds)
       (\<lambda>r. length r = n \<and> digits_ok r \<and> val r = num_of 16 (hex_digits_of s))"
proof -
  note p = hex_int_parts [OF s]
  let ?cs = "dropWhile (\<lambda>c. c = CHR ''0'') (hex_digits_of s)"
  obtain j where j: "int_prefix (s @ t) (length s) 2 = Some (hd s = CHR ''-'', j)" "j \<le> length s" "drop j s = ?cs"
    using int_prefix_eq [OF p(1,2), of t] unfolding hex_digits_of_def by metis
  have cs: "\<forall>c \<in> set ?cs. is_xdigit c" using p(3) by (auto dest: set_dropWhileD)
  have lj: "length s - j = length ?cs" using j(3) by (metis length_drop)
  have "wp (hex_digits (s @ t) j (length s) ds) (\<lambda>r. length r = hex_digits_count (length s - j) \<and> digits_ok r
      \<and> val r = num_of 16 (hex_digits_of s))" if "length ds = hex_digits_count (length s - j)" for ds
    using wp_hex_digits [OF j(2) j(3) [symmetric] refl _ cs, of ds t] that
    unfolding lj num_of_zeros .
  then show ?thesis using that [OF j(1) refl] by blast
qed

lemma wp_hex_reader:
  assumes s: "hex_int s"
  shows "wp (fklInitBigIntWithHexCharBuf (s @ t) (length s))
    (\<lambda>r. bi_own r \<and> bi_val r = signed_num s (num_of 16 (hex_digits_of s)))"
proof -
  obtain j n where j: "int_prefix (s @ t) (length s) 2 = Some (hd s = CHR ''-'', j)"
    "hex_digits_count (length s - j) = n"
    and hex: "\<forall>ds. length ds = n \<longrightarrow> wp (hex_digits (s @ t) j (length s) ds)
       (\<lambda>r. length r = n \<and> digits_ok r \<and> val r = num_of 16 (hex_digits_of s))"
    by (rule wp_hex_core [OF s, where t = t])
  obtain x where x: "ensure_bigint_size FKL_BIGINT_0 n = Some x" "bsize x = n" "length (digits x) = n"
    "\<not> const_size x" "num x = 0" by (rule ensure_fresh)
  obtain ds where ds: "hex_digits (s @ t) j (length s) (digits x) = Some ds" "length ds = n"
    "digits_ok ds" "val ds = num_of 16 (hex_digits_of s)"
    using hex x(3) by (auto elim!: wpE)
  have "wp (bigint_normalize (x\<lparr>digits := ds, num := int n\<rparr>)) (\<lambda>r. bi_own r \<and> bi_val r = int (val ds))"
    by (rule wp_normalize_fresh) (use x ds in auto)
  then show ?thesis using j x ds neg_num_spec hex_int_parts [OF s]
    by (auto simp: fklInitBigIntWithHexCharBuf_def Let_def signed_num_def elim!: wp_mono)
qed

section \<open>The variants that use memory of the caller\<close>

definition view :: "int \<Rightarrow> FklBigIntDigit list \<Rightarrow> FklBigInt" where
  "view n ds = \<lparr>digits = ds, num = n, bsize = length ds, const_size = True\<rparr>"

lemma view_neg: "bi_wf (view (- n) ds) = bi_wf (view n ds)" "bi_val (view (- n) ds) = - bi_val (view n ds)"
  by (simp_all add: view_def bi_wf_def bi_ok_def used_def len_def bi_val_def mag_def)

lemma wp_normalize2:
  assumes "length ds = n" "digits_ok ds"
  shows "wp (bigint_normalize2 (int n) ds) (\<lambda>m. bi_wf (view m ds) \<and> bi_val (view m ds) = int (val ds))"
proof -
  have ok: "bi_ok (view (int n) ds)" using assms by (simp add: view_def bi_ok_def used_def)
  have v: "bi_val (view (int n) ds) = int (val ds)"
    using assms by (auto simp: view_def bi_val_cases mag_def used_def)
  have "bigint_normalize (view (int n) ds) = do { m \<leftarrow> bigint_normalize2 (int n) ds; Some (view m ds) }"
    by (simp add: bigint_normalize_def bigint_normalize2_def view_def)
  then show ?thesis using wp_normalize [OF ok] v by (auto elim!: wp_mono)
qed

definition reads :: "(int \<times> FklBigIntDigit list) option \<Rightarrow> int \<Rightarrow> bool" where
  "reads r v \<longleftrightarrow> wp r (\<lambda>(n, ds). bi_wf (view n ds) \<and> bi_val (view n ds) = v)"

lemma oct_reader2:
  assumes s: "oct_int s" and n: "oct_significant s = [] \<or> length (oct_significant s) mod 10 \<noteq> 0"
    and alloc: "\<And>n. length (alloc n) = n"
  shows "reads (fklInitBigIntWithOctCharBuf2 alloc (s @ t) (length s)) (signed_num s (num_of 8 (opt_sign s)))"
proof -
  note p = oct_int_parts [OF s]
  obtain j where j: "int_prefix (s @ t) (length s) 1 = Some (hd s = CHR ''-'', j)" "j \<le> length s"
    "drop j s = oct_significant s" "length s - j = length (oct_significant s)"
    by (rule oct_prefix [OF s])
  let ?k = "oct_total_len (length s - j)"
  show ?thesis
  proof (cases "oct_significant s = []")
    case True
    then have "?k = 0" using j by (simp add: oct_total_len_def)
    moreover have "num_of 8 (opt_sign s) = 0" using p True by simp
    ultimately show ?thesis using j alloc [of 0]
      by (simp add: fklInitBigIntWithOctCharBuf2_def FKL_ASSERT_def Let_def signed_num_def reads_def
        view_def bi_wf_def bi_ok_def used_def len_def bi_val_cases)
  next
    case False
    then have "?k \<noteq> 0" using n j by (simp add: oct_total_len_def)
    obtain ds where ds: "oct_digits (s @ t) j (length s) (alloc ?k) = Some ds" "length ds = ?k"
      "digits_ok ds" "val ds = num_of 8 (opt_sign s)"
      using wp_oct_core [OF s False _ j(2,3) refl alloc, of t] n False by (auto elim!: wpE)
    then show ?thesis using j p \<open>?k \<noteq> 0\<close> wp_normalize2 [OF ds(2,3)]
      by (auto simp: fklInitBigIntWithOctCharBuf2_def FKL_ASSERT_def Let_def signed_num_def reads_def view_neg
        elim!: wp_mono)
  qed
qed

lemma hex_reader2:
  assumes s: "hex_int s" and alloc: "\<And>n. length (alloc n) = n"
  shows "reads (fklInitBigIntWithHexCharBuf2 alloc (s @ t) (length s)) (signed_num s (num_of 16 (hex_digits_of s)))"
proof -
  obtain j n where j: "int_prefix (s @ t) (length s) 2 = Some (hd s = CHR ''-'', j)"
    "hex_digits_count (length s - j) = n"
    and hex: "\<forall>ds. length ds = n \<longrightarrow> wp (hex_digits (s @ t) j (length s) ds)
       (\<lambda>r. length r = n \<and> digits_ok r \<and> val r = num_of 16 (hex_digits_of s))"
    by (rule wp_hex_core [OF s, where t = t])
  obtain ds where ds: "hex_digits (s @ t) j (length s) (alloc n) = Some ds" "length ds = n"
    "digits_ok ds" "val ds = num_of 16 (hex_digits_of s)"
    using hex alloc [of n] by (auto elim!: wpE)
  show ?thesis using j ds wp_normalize2 [OF ds(2,3)] hex_int_parts [OF s]
    by (auto simp: fklInitBigIntWithHexCharBuf2_def Let_def signed_num_def reads_def view_neg elim!: wp_mono)
qed

lemma dec_reader2:
  assumes "s \<noteq> []" and alloc: "\<And>n. length (alloc n) = n"
  shows "reads (fklInitBigIntWithDecCharBuf2 alloc (s @ t) (length s))
    (signed_num s (num_of 10 (takeWhile is_digit (opt_sign s))))"
  unfolding reads_def fklInitBigIntWithDecCharBuf2_def wp_simps
proof (rule wp_mono [OF wp_dec_reader [OF assms(1)]])
  fix b
  assume b: "bi_own b \<and> bi_val b = signed_num s (num_of 10 (takeWhile is_digit (opt_sign s)))"
  let ?to = "\<lparr>digits = alloc (bsize b), num = 0, bsize = bsize b, const_size = True\<rparr>"
  have wf: "bi_wf b" using b by (auto intro: bi_weaken)
  then have room: "bi_room ?to (len b)" using alloc by (auto simp: bi_room_def bi_wf_def bi_ok_def)
  show "wp (fklSetBigInt ?to b) (\<lambda>x. case (num x, digits x) of (n, ds) \<Rightarrow> bi_wf (view n ds)
    \<and> bi_val (view n ds) = signed_num s (num_of 10 (takeWhile is_digit (opt_sign s))))"
    by (rule wp_mono [OF wp_fklSetBigInt [OF wf room]])
      (use b in \<open>auto simp: view_def bi_wf_def bi_ok_def used_def len_def bi_val_def mag_def\<close>)
qed

section \<open>Any integer literal\<close>

definition literal_value :: "string \<Rightarrow> int" where
  "literal_value s = signed_num s
     (if hex_int s then num_of 16 (hex_digits_of s) else num_of (if oct_int s then 8 else 10) (opt_sign s))"

definition int_literal :: "string \<Rightarrow> bool" where
  "int_literal s \<longleftrightarrow> dec_int s \<or> hex_int s \<or>
     oct_int s \<and> (oct_significant s = [] \<or> length (oct_significant s) mod 10 \<noteq> 0)"

lemma dec_int_digits:
  assumes "dec_int s"
  shows "s \<noteq> []" "takeWhile is_digit (opt_sign s) = opt_sign s"
proof -
  have z: "is_digit CHR ''0''" by (simp add: char_class)
  then have "opt_sign s \<noteq> [] \<and> list_all is_digit (opt_sign s)" using assms by (auto simp: dec_int_def)
  then show "s \<noteq> []" "takeWhile is_digit (opt_sign s) = opt_sign s"
    by (auto simp: opt_sign_def list_all_iff takeWhile_eq_all_conv)
qed

text \<open>The order in which the code asks for the three kinds does not matter.\<close>

lemma literal_kinds:
  assumes "int_literal s"
  obtains (hex) "hex_int s"
  | (oct) "oct_int s" "\<not> hex_int s" "oct_significant s = [] \<or> length (oct_significant s) mod 10 \<noteq> 0"
  | (dec) "dec_int s" "\<not> hex_int s" "\<not> oct_int s"
proof -
  have "\<not> oct_int s" if "dec_int s" using that by (auto simp: dec_int_def oct_int_def)
  then show ?thesis using assms that unfolding int_literal_def by blast
qed

lemma wp_reader:
  assumes "int_literal s"
  shows "wp (fklInitBigIntWithCharBuf (s @ t) (length s)) (\<lambda>r. bi_own r \<and> bi_val r = literal_value s)"
  using assms
proof (cases rule: literal_kinds)
  case dec
  then show ?thesis using wp_dec_reader [of s t] dec_int_digits [of s]
    by (simp add: fklInitBigIntWithCharBuf_def hex_int_spec oct_int_spec literal_value_def)
qed (use wp_oct_reader [of s t] wp_hex_reader [of s t] in
  \<open>simp_all add: fklInitBigIntWithCharBuf_def hex_int_spec oct_int_spec literal_value_def\<close>)

lemma reader2:
  assumes "int_literal s" and alloc: "\<And>n. length (alloc n) = n"
  shows "reads (fklInitBigIntWithCharBuf2 alloc (s @ t) (length s)) (literal_value s)"
  using assms(1)
proof (cases rule: literal_kinds)
  case dec
  then show ?thesis using dec_reader2 [of s alloc t] alloc dec_int_digits [of s]
    by (simp add: fklInitBigIntWithCharBuf2_def hex_int_spec oct_int_spec literal_value_def)
qed (use oct_reader2 [of s alloc t] hex_reader2 [of s alloc t] alloc in
  \<open>simp_all add: fklInitBigIntWithCharBuf2_def hex_int_spec oct_int_spec literal_value_def\<close>)

section \<open>Properties\<close>

text \<open>
  C33: reading an integer literal gives its value. For every decimal, octal or hexadecimal literal
  \<open>s\<close>, whatever follows it in the buffer, \<open>fklInitBigIntWithCharBuf\<close> returns, stays within its
  arrays and leaves a normalised big integer whose value is that of the literal; excepted are the
  octal literals whose number of significant digits is a positive multiple of ten.
\<close>

theorem fklInitBigIntWithCharBuf_value:
  assumes "int_literal s"
  shows "\<exists>r. fklInitBigIntWithCharBuf (s @ t) (length s) = Some r \<and> bi_own r \<and> bi_val r = literal_value s"
  using wp_reader [OF assms] by (auto elim: wpE)

theorem fklInitBigIntWithCharBuf_value_witness:
  "(\<exists>r. fklInitBigIntWithCharBuf ''-0x1Fz'' 5 = Some r \<and> bi_own r \<and> bi_val r = -31)
   \<and> (\<exists>r. fklInitBigIntWithCharBuf ''017'' 3 = Some r \<and> bi_own r \<and> bi_val r = 15)"
proof -
  have l: "int_literal ''-0x1F''" "hex_int ''-0x1F''" "int_literal ''017''" "\<not> hex_int ''017''" "oct_int ''017''"
    by (auto simp: int_literal_def hex_int_def oct_int_def opt_sign_def oct_significant_def char_class)
  then have v: "literal_value ''-0x1F'' = -31" "literal_value ''017'' = 15"
    by (simp_all add: literal_value_def signed_num_def hex_digits_of_def opt_sign_def num_of_def char_digit_def)
  show ?thesis
    using fklInitBigIntWithCharBuf_value [OF l(1), of "''z''"] fklInitBigIntWithCharBuf_value [OF l(3), of "[]"] v
    by (simp add: eval_nat_numeral)
qed

text \<open>
  C34: the excepted octal literals do run out of bounds. When the number of significant digits is a
  positive multiple of ten, the first store of \<open>fklInitBigIntWithOctCharBuf\<close> takes a cell for an
  empty block, and the last block is written below the array.
\<close>

theorem fklInitBigIntWithOctCharBuf_underflow:
  assumes "oct_int s" and "oct_significant s \<noteq> []" and "length (oct_significant s) mod 10 = 0"
  shows "fklInitBigIntWithOctCharBuf (s @ t) (length s) = None"
  using assms by (rule oct_reader_underflow)

theorem fklInitBigIntWithOctCharBuf_underflow_witness:
  "fklInitBigIntWithOctCharBuf ''01234567012'' 11 = None"
  using fklInitBigIntWithOctCharBuf_underflow [of "''01234567012''" "[]"]
  by (simp add: oct_int_def opt_sign_def oct_significant_def eval_nat_numeral)

text \<open>
  The variant that lets the caller provide the array computes the same number: with a callback
  that provides as many cells as it is asked for, \<open>fklInitBigIntWithCharBuf2\<close> leaves a normalised
  big integer in them, whose value is that of the literal.
\<close>

theorem fklInitBigIntWithCharBuf2_value:
  assumes "int_literal s" and "\<And>n. length (alloc n) = n"
  shows "\<exists>n ds. fklInitBigIntWithCharBuf2 alloc (s @ t) (length s) = Some (n, ds)
    \<and> bi_wf (view n ds) \<and> bi_val (view n ds) = literal_value s"
  using reader2 [OF assms, of t] by (auto simp: reads_def elim!: wpE)

theorem fklInitBigIntWithCharBuf2_value_witness:
  "\<exists>n ds. fklInitBigIntWithCharBuf2 (\<lambda>n. replicate n 0) ''+0x10'' 5 = Some (n, ds)
    \<and> bi_wf (view n ds) \<and> bi_val (view n ds) = 16"
proof -
  have l: "int_literal ''+0x10''" "hex_int ''+0x10''"
    by (auto simp: int_literal_def hex_int_def opt_sign_def char_class)
  then have "literal_value ''+0x10'' = 16"
    by (simp add: literal_value_def signed_num_def hex_digits_of_def opt_sign_def num_of_def char_digit_def)
  then show ?thesis
    using fklInitBigIntWithCharBuf2_value [OF l(1), of "\<lambda>n. replicate n 0" "[]"] by (simp add: eval_nat_numeral)
qed

end
