(* ===== verification/BigIntBits.thy ===== *)
theory BigIntBits
  imports BigInt
begin

text \<open>
  The bit-level helpers of src/bigint.c that division and printing share: the length of a digit in
  bits, and the shifts of a whole digit array by less than a digit.
\<close>

section \<open>Operations\<close>

definition BIT_LENGTH_TABLE :: "nat list" where
  "BIT_LENGTH_TABLE =
    [0, 1, 2, 2, 3, 3, 3, 3, 4, 4, 4, 4, 4, 4, 4, 4, 5, 5, 5, 5, 5, 5, 5, 5, 5, 5, 5, 5, 5, 5, 5, 5]"

text \<open>\<open>while (x >= 32) { msb += 6; x >>= 6; }\<close>\<close>

function bit_length_loop :: "u64 \<Rightarrow> nat \<Rightarrow> u64 \<times> nat" where
  "bit_length_loop x msb = (if x \<ge> 32 then bit_length_loop (drop_bit 6 x) (msb + 6) else (x, msb))"
  by pat_completeness auto
termination
proof (relation "measure (\<lambda>(x, msb). unat x)")
  fix x :: u64 and msb :: nat
  assume "x \<ge> 32"
  then have "32 \<le> unat x" by (simp add: word_le_nat_alt)
  then show "((drop_bit 6 x, msb + 6), x, msb) \<in> measure (\<lambda>(x, msb). unat x)"
    by (simp add: unat_drop_bit_div)
qed simp

declare bit_length_loop.simps [simp del]

definition bit_length_digit :: "u64 \<Rightarrow> nat option" where
  "bit_length_digit x = (case bit_length_loop x 0 of (x, msb) \<Rightarrow> do {
     t \<leftarrow> rd BIT_LENGTH_TABLE (unat x);
     Some ((msb + t) mod 256) })"

text \<open>
  The shifts write to \<open>z\<close> and read \<open>a\<close>. Where the code passes the same array for both, the cell
  it reads at a step has not been written before, so reading the array as it was is the same.
\<close>

definition v_lshift :: "u32 list \<Rightarrow> u32 list \<Rightarrow> nat \<Rightarrow> nat \<Rightarrow> (u32 list \<times> u32) option" where
  "v_lshift z a m d = do {
     FKL_ASSERT (d < FKL_BIGINT_DIGIT_SHIFT);
     for_up 0 m (\<lambda>i (z, carry). do {
       x \<leftarrow> rd a i;
       let acc = push_bit d (ucast x :: u64) OR ucast carry;
       z \<leftarrow> wr z i (ucast acc AND FKL_BIGINT_DIGIT_MASK);
       Some (z, ucast (drop_bit FKL_BIGINT_DIGIT_SHIFT acc)) }) (z, 0) }"

definition v_rshift :: "u32 list \<Rightarrow> u32 list \<Rightarrow> nat \<Rightarrow> nat \<Rightarrow> (u32 list \<times> u32) option" where
  "v_rshift z a m d = do {
     let mask = push_bit d 1 - (1 :: u32);
     FKL_ASSERT (d < FKL_BIGINT_DIGIT_SHIFT);
     for_down m (\<lambda>i (z, carry). do {
       x \<leftarrow> rd a i;
       let acc = push_bit FKL_BIGINT_DIGIT_SHIFT (ucast carry :: u64) OR ucast x;
       z \<leftarrow> wr z i (ucast (drop_bit d acc));
       Some (z, ucast acc AND mask) }) (z, 0) }"

section \<open>The length of a number in bits\<close>

definition is_bit_length :: "nat \<Rightarrow> nat \<Rightarrow> bool" where
  "is_bit_length n r \<longleftrightarrow> n < 2 ^ r \<and> (n = 0 \<longrightarrow> r = 0) \<and> (n \<noteq> 0 \<longrightarrow> 0 < r \<and> 2 ^ (r - 1) \<le> n)"

lemma is_bit_length_unique: "is_bit_length n r \<Longrightarrow> is_bit_length n s \<Longrightarrow> r = s"
proof (rule ccontr)
  have *: "False" if "is_bit_length n r" "is_bit_length n s" "r < s" for r s
  proof -
    have "n < 2 ^ r" "2 ^ (s - 1) \<le> n" using that by (auto simp: is_bit_length_def)
    moreover have "(2::nat) ^ r \<le> 2 ^ (s - 1)" using that by (intro power_increasing) auto
    ultimately show False by linarith
  qed
  assume "is_bit_length n r" "is_bit_length n s" "r \<noteq> s"
  then show False using * by (cases r s rule: linorder_cases) auto
qed

lemma bit_length_table:
  assumes "n < 32"
  shows "is_bit_length n (BIT_LENGTH_TABLE ! n)"
proof -
  have "\<forall>n \<in> set [0..<32]. is_bit_length n (BIT_LENGTH_TABLE ! n)" by code_simp
  then show ?thesis using assms by simp
qed

lemma is_bit_length_shift:
  assumes r: "is_bit_length (n div 64) r" and n: "32 \<le> n"
  shows "is_bit_length n (r + 6)"
proof -
  have p: "(2::nat) ^ (r + 6) = 2 ^ r * 64" by (simp add: power_add)
  have u: "n < 2 ^ (r + 6)" using r unfolding p is_bit_length_def by (simp add: div_less_iff_less_mult)
  have "2 ^ (r + 6 - 1) \<le> n"
  proof (cases "n div 64 = 0")
    case True
    then have "r = 0" using r by (simp add: is_bit_length_def)
    then show ?thesis using n by simp
  next
    case False
    then have q: "0 < r" "2 ^ (r - 1) \<le> n div 64" using r by (auto simp: is_bit_length_def)
    then have "2 ^ (r - 1) * 64 \<le> n div 64 * 64" by simp
    also have "\<dots> \<le> n" by simp
    finally have "2 ^ (r - 1) * 64 \<le> n" .
    moreover have "(2::nat) ^ (r - 1 + 6) = 2 ^ (r - 1) * 64" by (simp add: power_add)
    moreover have "r + 6 - 1 = r - 1 + 6" using q(1) by simp
    ultimately show ?thesis by simp
  qed
  with u n show ?thesis by (simp add: is_bit_length_def)
qed

lemma bit_length_loop_spec:
  "bit_length_loop x m = (y, k) \<Longrightarrow> unat y < 32 \<and> m \<le> k \<and> is_bit_length (unat x) (k - m + BIT_LENGTH_TABLE ! unat y)"
proof (induction x m rule: bit_length_loop.induct)
  case (1 x m)
  show ?case
  proof (cases "32 \<le> x")
    case True
    then have e: "bit_length_loop (drop_bit 6 x) (m + 6) = (y, k)"
      using 1(2) by (subst (asm) bit_length_loop.simps) simp
    have n: "32 \<le> unat x" using True by (simp add: word_le_nat_alt)
    have six: "(2::nat) ^ 6 = 64" by simp
    define r where "r = k - (m + 6) + BIT_LENGTH_TABLE ! unat y"
    have IH: "unat y < 32" "m + 6 \<le> k" "is_bit_length (unat x div 64) r"
      using 1(1) [OF True e] unfolding r_def unat_drop_bit_div six by auto
    then have "k - m + BIT_LENGTH_TABLE ! unat y = r + 6" unfolding r_def by linarith
    then show ?thesis using IH is_bit_length_shift [OF IH(3) n] by simp
  next
    case False
    then have "(y, k) = (x, m)" using 1(2) by (subst (asm) bit_length_loop.simps) simp
    moreover have "unat x < 32" using False by (simp add: word_le_nat_alt)
    ultimately show ?thesis using bit_length_table by simp
  qed
qed

lemma wp_bit_length_digit: "wp (bit_length_digit x) (\<lambda>r. is_bit_length (unat x) r)"
proof -
  obtain y k where l: "bit_length_loop x 0 = (y, k)" by (metis surj_pair)
  then have y: "unat y < 32" and b: "is_bit_length (unat x) (k + BIT_LENGTH_TABLE ! unat y)"
    using bit_length_loop_spec [OF l] by auto
  have "k + BIT_LENGTH_TABLE ! unat y \<le> 64"
  proof (rule ccontr)
    assume "\<not> ?thesis"
    then have "64 \<le> k + BIT_LENGTH_TABLE ! unat y - 1" "0 < k + BIT_LENGTH_TABLE ! unat y" by linarith+
    moreover from this(1) have "(2::nat) ^ 64 \<le> 2 ^ (k + BIT_LENGTH_TABLE ! unat y - 1)"
      by (rule power_increasing) simp
    ultimately have "2 ^ 64 \<le> unat x" using b by (auto simp: is_bit_length_def)
    then show False using unat_less_64 [of x] by simp
  qed
  moreover have "length BIT_LENGTH_TABLE = 32" by (simp add: BIT_LENGTH_TABLE_def)
  ultimately show ?thesis using l y b by (simp add: bit_length_digit_def)
qed

section \<open>Shifting an array\<close>

lemma unat_or_shift:
  fixes x :: u32 and c :: u32
  assumes "unat c < 2 ^ k" "k \<le> 30" "unat x < BASE"
  shows "unat (push_bit k (ucast x :: u64) OR ucast c) = 2 ^ k * unat x + unat c"
proof -
  have "2 ^ k * unat x + unat c < 2 ^ k * (unat x + 1)" using assms(1) by simp
  also have "\<dots> \<le> 2 ^ 30 * BASE" using assms by (intro mult_le_mono power_increasing) auto
  finally have "2 ^ k * unat x + unat c < 2 ^ LENGTH(64)" by (simp add: BASE_def)
  then show ?thesis using assms or_push_bit [of "ucast c :: u64" k "ucast x"] by (simp add: or.commute)
qed

lemma unat_and_mask_u32: "unat (w AND FKL_BIGINT_DIGIT_MASK) = unat w mod BASE" for w :: u32
  by (rule unat_lo)

lemma BASE_dvd: "BASE dvd 2 ^ 32"
  by (simp add: BASE_def)

lemma wp_v_lshift:
  assumes "m \<le> length a" "m \<le> length z" "digits_ok (take m a)" "d < 30"
  shows "wp (v_lshift z a m d) (\<lambda>(r, c). length r = length z \<and> digits_ok (take m r) \<and> unat c < 2 ^ d
    \<and> drop m r = drop m z \<and> val (take m r) + BASE ^ m * unat c = 2 ^ d * val (take m a))"
proof -
  have eq: "v_lshift z a m d = for_up 0 m (\<lambda>i (z, carry). do {
       x \<leftarrow> rd a i;
       let acc = push_bit d (ucast x :: u64) OR ucast carry;
       z \<leftarrow> wr z i (ucast acc AND FKL_BIGINT_DIGIT_MASK);
       Some (z, ucast (drop_bit FKL_BIGINT_DIGIT_SHIFT acc)) }) (z, 0)"
    using assms(4) unfolding v_lshift_def by (simp add: FKL_ASSERT_def)
  show ?thesis
    unfolding eq
  proof (rule wp_for_up [where I = "\<lambda>i (r, c :: u32). length r = length z \<and> digits_ok (take i r) \<and> unat c < 2 ^ d
    \<and> drop i r = drop i z \<and> val (take i r) + BASE ^ i * unat c = 2 ^ d * val (take i a)"])
    fix i and t :: "u32 list \<times> u32"
    assume i: "0 \<le> i" "i < m" and inv: "case t of (r, c) \<Rightarrow> length r = length z \<and> digits_ok (take i r) \<and> unat c < 2 ^ d
      \<and> drop i r = drop i z \<and> val (take i r) + BASE ^ i * unat c = 2 ^ d * val (take i a)"
    obtain r c where t: "t = (r, c)" by (cases t)
    have l: "i < length a" "i < length r" using i assms inv t by auto
    have x: "unat (a ! i) < BASE" using assms i l by (auto intro: digits_ok_nth)
    define acc where "acc = push_bit d (ucast (a ! i) :: u64) OR ucast c"
    have acc: "unat acc = 2 ^ d * unat (a ! i) + unat c" unfolding acc_def
      using inv t assms x by (intro unat_or_shift) auto
    have "2 ^ d * unat (a ! i) + unat c < 2 ^ d * (unat (a ! i) + 1)" using inv t by simp
    also have "\<dots> \<le> 2 ^ d * BASE" using x by (intro mult_le_mono2) simp
    finally have hi: "unat acc div BASE < 2 ^ d" unfolding acc by (simp add: div_less_iff_less_mult)
    have "(2::nat) ^ d \<le> 2 ^ 30" using assms(4) by (intro power_increasing) auto
    then have "unat acc div BASE < 4294967296" using hi by simp
    then have c: "unat (ucast (drop_bit 30 acc) :: u32) = unat acc div BASE"
      by (simp add: unat_ucast_mod unat_hi)
    have lo: "unat (ucast acc AND FKL_BIGINT_DIGIT_MASK :: u32) = unat acc mod BASE"
      using mod_mod_cancel [OF BASE_dvd, of "unat acc"] by (simp add: unat_lo unat_ucast_mod)
    have "val (take i r) + BASE ^ i * (unat acc mod BASE) + BASE ^ Suc i * (unat acc div BASE)
        = val (take i r) + BASE ^ i * unat acc"
      by (simp only: add.assoc digit_step)
    also have "\<dots> = 2 ^ d * val (take (Suc i) a)"
      unfolding acc using inv t l by (simp add: val_take_Suc algebra_simps)
    finally have v: "val (take i r) + BASE ^ i * (unat acc mod BASE) + BASE ^ Suc i * (unat acc div BASE)
        = 2 ^ d * val (take (Suc i) a)" .
    have dr: "drop (Suc i) r = drop (Suc i) z" using inv t drop_Suc_eq [of i r z] by simp
    show "wp (case t of (z, carry) \<Rightarrow> do {
         x \<leftarrow> rd a i;
         let acc = push_bit d (ucast x :: u64) OR ucast carry;
         z \<leftarrow> wr z i (ucast acc AND FKL_BIGINT_DIGIT_MASK);
         Some (z, ucast (drop_bit FKL_BIGINT_DIGIT_SHIFT acc)) })
      (\<lambda>(r, c :: u32). length r = length z \<and> digits_ok (take (Suc i) r) \<and> unat c < 2 ^ d
      \<and> drop (Suc i) r = drop (Suc i) z \<and> val (take (Suc i) r) + BASE ^ Suc i * unat c = 2 ^ d * val (take (Suc i) a))"
      unfolding t prod.case wp_simps wp_rd wp_wr wp_let Let_def acc_def [symmetric]
      using inv t l hi v lo c dr by (simp add: take_update)
  qed simp_all
qed

lemma wp_v_rshift:
  assumes "m \<le> length a" "m \<le> length z" "digits_ok (take m a)" "d < 30"
  shows "wp (v_rshift z a m d) (\<lambda>(r, c). length r = length z \<and> digits_ok (take m r) \<and> unat c < 2 ^ d
    \<and> 2 ^ d * val (take m r) + unat c = val (take m a))"
proof -
  have mask: "push_bit d 1 - 1 = (mask d :: u32)" by (simp add: mask_eq_exp_minus_1 push_bit_of_1)
  let ?I = "\<lambda>i (r, c). length r = length z \<and> digits_ok (drop i (take m r)) \<and> unat (c :: u32) < 2 ^ d
    \<and> 2 ^ d * val (drop i (take m r)) + unat c = val (drop i (take m a))"
  have eq: "v_rshift z a m d = for_down m (\<lambda>i (z, carry). do {
       x \<leftarrow> rd a i;
       let acc = push_bit FKL_BIGINT_DIGIT_SHIFT (ucast carry :: u64) OR ucast x;
       z \<leftarrow> wr z i (ucast (drop_bit d acc));
       Some (z, ucast acc AND mask d) }) (z, 0)"
    using assms(4) unfolding v_rshift_def mask by (simp add: FKL_ASSERT_def)
  show "wp (v_rshift z a m d)
    (\<lambda>(r, c). length r = length z \<and> digits_ok (take m r) \<and> unat c < 2 ^ d
    \<and> 2 ^ d * val (take m r) + unat c = val (take m a))"
    unfolding eq
  proof (rule wp_for_down [where I = ?I])
    fix i and t :: "u32 list \<times> u32"
    assume i: "i < m" and inv: "?I (Suc i) t"
    obtain r c where t: "t = (r, c)" by (cases t)
    have l: "i < length a" "i < length r" using i assms inv t by auto
    have x: "unat (a ! i) < BASE" using assms i l by (auto intro: digits_ok_nth)
    define acc where "acc = push_bit 30 (ucast c :: u64) OR ucast (a ! i)"
    have c: "unat c < 2 ^ d" using inv t by simp
    have "(2::nat) ^ d \<le> 2 ^ 29" using assms(4) by (intro power_increasing) auto
    then have cB: "unat c < BASE" using c by (simp add: BASE_def)
    have acc: "unat acc = BASE * unat c + unat (a ! i)" unfolding acc_def
      using unat_or_shift [of "a ! i" 30 c] x cB by (simp add: BASE_def)
    have B: "BASE = 2 ^ d * 2 ^ (30 - d)" using assms(4) by (simp add: BASE_def flip: power_add)
    have q: "unat acc div 2 ^ d < BASE"
    proof -
      have "BASE * unat c + unat (a ! i) < BASE * (unat c + 1)" using x by simp
      also have "\<dots> \<le> BASE * 2 ^ d" using c by (intro mult_le_mono2) simp
      finally show ?thesis unfolding acc by (simp add: div_less_iff_less_mult)
    qed
    then have uq: "unat (ucast (drop_bit d acc) :: u32) = unat acc div 2 ^ d"
      by (simp add: unat_ucast_mod unat_drop_bit_div BASE_def)
    have "(2::nat) ^ d dvd 2 ^ 32" using assms(4) by (intro le_imp_power_dvd) simp
    then have ur: "unat (ucast acc AND mask d :: u32) = unat acc mod 2 ^ d"
      using mod_mod_cancel [of "2 ^ d" "2 ^ 32" "unat acc"] by (simp add: unat_and_mask_mod unat_ucast_mod)
    let ?r = "r[i := ucast (drop_bit d acc)]"
    have dr: "drop i (take m ?r) = ucast (drop_bit d acc) # drop (Suc i) (take m r)"
      using i l inv t assms by (simp add: take_update_swap drop_update_swap Cons_nth_drop_Suc [symmetric] min_def)
    have da: "drop i (take m a) = a ! i # drop (Suc i) (take m a)"
      using i l by (simp add: Cons_nth_drop_Suc [symmetric])
    have "2 ^ d * (unat acc div 2 ^ d + BASE * val (drop (Suc i) (take m r))) + unat acc mod 2 ^ d
      = unat acc + BASE * (2 ^ d * val (drop (Suc i) (take m r)))"
      by (simp add: distrib_left algebra_simps)
    also have "\<dots> = unat (a ! i) + BASE * val (drop (Suc i) (take m a))"
    proof -
      have "val (drop (Suc i) (take m a)) = 2 ^ d * val (drop (Suc i) (take m r)) + unat c" using inv t by simp
      then show ?thesis unfolding acc by (simp add: distrib_left)
    qed
    finally have v: "2 ^ d * val (drop i (take m ?r)) + unat acc mod 2 ^ d = val (drop i (take m a))"
      unfolding dr da by (simp add: uq)
    have ok: "digits_ok (drop i (take m ?r))" unfolding dr using inv t q uq by simp
    show "wp (case t of (z, carry) \<Rightarrow> do {
       x \<leftarrow> rd a i;
       let acc = push_bit FKL_BIGINT_DIGIT_SHIFT (ucast carry :: u64) OR ucast x;
       z \<leftarrow> wr z i (ucast (drop_bit d acc));
       Some (z, ucast acc AND mask d) }) (?I i)"
      unfolding t prod.case wp_simps wp_rd wp_wr wp_let Let_def acc_def [symmetric]
      using t l inv v ok ur by simp
  qed (use assms in simp_all)
qed

end
