(* ===== verification/BigIntPrint.thy ===== *)
theory BigIntPrint
  imports BigIntParse BigIntBits
begin

text \<open>
  Writing a big integer as a string (src/bigint.c): the conversion to base \<open>10 ^ 9\<close> and the decimal
  digits, and the octal and hexadecimal digits straight from the bits. The characters are written
  from the end of a buffer that a callback of the caller, \<open>alloc\<close>, provides.
\<close>

section \<open>Writing backwards\<close>

text \<open>\<open>*--p = c\<close>\<close>

definition put_down :: "string \<Rightarrow> nat \<Rightarrow> char \<Rightarrow> (string \<times> nat) option" where
  "put_down s p c = (if p = 0 then None else do { s \<leftarrow> wr s (p - 1) c; Some (s, p - 1) })"

text \<open>\<open>c + d\<close> for a character \<open>c\<close> and a small number \<open>d\<close>\<close>

definition char_plus :: "char \<Rightarrow> nat \<Rightarrow> char" where
  "char_plus c d = char_of (of_char c + d)"

section \<open>Decimal\<close>

abbreviation FKL_BIGINT_DECIMAL_SHIFT :: nat where
  "FKL_BIGINT_DECIMAL_SHIFT \<equiv> 9"

definition FKL_BIGINT_DECIMAL_BASE :: "'n::len word" where
  "FKL_BIGINT_DECIMAL_BASE = 1000000000"

text \<open>One digit of the number into the decimal array: multiply by the base and add \<open>hi\<close>.\<close>

definition dec_scale :: "u32 list \<Rightarrow> nat \<Rightarrow> u32 \<Rightarrow> (u32 list \<times> u32) option" where
  "dec_scale pout cnt hi =
     for_up 0 cnt (\<lambda>j (pout, hi). do {
       x \<leftarrow> rd pout j;
       let z = push_bit FKL_BIGINT_DIGIT_SHIFT (ucast x :: u64) OR ucast hi;
       let hi = ucast (z div FKL_BIGINT_DECIMAL_BASE);
       pout \<leftarrow> wr pout j (ucast (z - ucast hi * FKL_BIGINT_DECIMAL_BASE));
       Some (pout, hi) }) (pout, hi)"

text \<open>\<open>while (hi) { pout[cnt++] = hi % BASE; hi /= BASE; }\<close>\<close>

function dec_push :: "u32 list \<Rightarrow> nat \<Rightarrow> u32 \<Rightarrow> (u32 list \<times> nat) option" where
  "dec_push pout cnt hi =
     (if hi \<noteq> 0 then do {
        pout \<leftarrow> wr pout cnt (hi mod FKL_BIGINT_DECIMAL_BASE);
        dec_push pout (cnt + 1) (hi div FKL_BIGINT_DECIMAL_BASE) }
      else Some (pout, cnt))"
  by pat_completeness auto
termination
proof (relation "measure (\<lambda>(pout, cnt, hi). unat hi)")
  fix pout x :: "u32 list" and cnt :: nat and hi :: u32
  assume "hi \<noteq> 0"
  then have "0 < unat hi" by (simp add: unat_gt_0)
  then show "((x, cnt + 1, hi div FKL_BIGINT_DECIMAL_BASE), pout, cnt, hi)
      \<in> measure (\<lambda>(pout, cnt, hi). unat hi)"
    by (simp add: FKL_BIGINT_DECIMAL_BASE_def unat_div)
qed simp

declare dec_push.simps [simp del]

definition dec_digits :: "u32 list \<Rightarrow> nat \<Rightarrow> u32 list \<Rightarrow> (u32 list \<times> nat) option" where
  "dec_digits pin size_a pout =
     for_down size_a (\<lambda>i (pout, cnt). do {
       hi \<leftarrow> rd pin i;
       (pout, hi) \<leftarrow> dec_scale pout cnt hi;
       dec_push pout cnt hi }) (pout, 0)"

text \<open>\<open>while (rem >= tenpow) { tenpow *= 10; len++; }\<close>\<close>

definition dec_top_len :: "u32 \<Rightarrow> nat \<Rightarrow> (u32 \<times> nat) option" where
  "dec_top_len rem n = while_m (\<lambda>(tenpow, n). rem \<ge> tenpow) (\<lambda>(tenpow, n). Some (tenpow * 10, n + 1)) (10, n)"

definition put_nine :: "string \<Rightarrow> nat \<Rightarrow> u32 \<Rightarrow> (string \<times> nat \<times> u32) option" where
  "put_nine s p rem =
     for_up 0 FKL_BIGINT_DECIMAL_SHIFT (\<lambda>j (s, p, rem). do {
       (s, p) \<leftarrow> put_down s p (char_plus CHR ''0'' (unat (rem mod 10)));
       Some (s, p, rem div 10) }) (s, p, rem)"

text \<open>\<open>do { *--p_str = '0' + rem % 10; rem /= 10; } while (rem != 0);\<close>\<close>

function put_rem :: "string \<Rightarrow> nat \<Rightarrow> u32 \<Rightarrow> (string \<times> nat) option" where
  "put_rem s p rem = do {
     (s, p) \<leftarrow> put_down s p (char_plus CHR ''0'' (unat (rem mod 10)));
     if rem div 10 \<noteq> 0 then put_rem s p (rem div 10) else Some (s, p) }"
  by pat_completeness auto
termination
proof (relation "measure (\<lambda>(s, p, rem). unat rem)")
  fix s x :: string and p xa :: nat and xb and rem :: u32
  assume "rem div 10 \<noteq> 0"
  then have "unat (rem div 10) \<noteq> 0" by (simp add: unat_eq_0)
  then have "0 < unat rem div 10" by (simp add: unat_div)
  then show "((x, xa, rem div 10), s, p, rem) \<in> measure (\<lambda>(s, p, rem). unat rem)"
    by (simp add: unat_div)
qed simp

declare put_rem.simps [simp del]

definition bigint_to_dec_string_buffer :: "FklBigInt \<Rightarrow> (nat \<Rightarrow> string) \<Rightarrow> (nat \<times> string) option" where
  "bigint_to_dec_string_buffer a alloc = do {
     FKL_ASSERT (num a \<noteq> 0);
     let size_a = nat (fklAbs (num a));
     let d = (33 * FKL_BIGINT_DECIMAL_SHIFT) div (10 * FKL_BIGINT_DIGIT_SHIFT - 33 * FKL_BIGINT_DECIMAL_SHIFT);
     let cnt = 1 + size_a + size_a div d;
     (pout, cnt) \<leftarrow> dec_digits (digits a) size_a (zmalloc cnt);
     (pout, cnt) \<leftarrow> (if cnt = 0 then do { pout \<leftarrow> wr pout cnt 0; Some (pout, cnt + 1) } else Some (pout, cnt));
     let neg = (if num a < 0 then 1 else 0);
     rem \<leftarrow> rd pout (cnt - 1);
     (tenpow, n) \<leftarrow> dec_top_len rem (neg + 1 + (cnt - 1) * FKL_BIGINT_DECIMAL_SHIFT);
     (s, p) \<leftarrow> for_up 0 (cnt - 1) (\<lambda>i (s, p). do {
       rem \<leftarrow> rd pout i;
       (s, p, rem) \<leftarrow> put_nine s p rem;
       Some (s, p) }) (alloc n, n);
     rem \<leftarrow> rd pout (cnt - 1);
     (s, p) \<leftarrow> put_rem s p rem;
     (s, p) \<leftarrow> (if num a < 0 then put_down s p CHR ''-'' else Some (s, p));
     Some (n, s) }"

section \<open>Octal and hexadecimal\<close>

definition FKL_BIGINT_FMT_FLAG_ALTERNATE :: u32 where "FKL_BIGINT_FMT_FLAG_ALTERNATE = push_bit 0 1"
definition FKL_BIGINT_FMT_FLAG_CAPITALS :: u32 where "FKL_BIGINT_FMT_FLAG_CAPITALS = push_bit 1 1"

definition bin_char :: "bool \<Rightarrow> nat \<Rightarrow> char" where
  "bin_char capitals d = (if d < 10 then char_plus CHR ''0'' d
     else char_plus (if capitals then CHR ''A'' else CHR ''a'') (d - 10))"

text \<open>The body of the inner loop; its state is the buffer, the position, the accumulator and the
  number of bits in it, which the last digit may leave negative.\<close>

definition bin_put ::
  "nat \<Rightarrow> bool \<Rightarrow> string \<times> nat \<times> FklBigIntTwoDigit \<times> int \<Rightarrow> (string \<times> nat \<times> FklBigIntTwoDigit \<times> int) option" where
  "bin_put bits capitals = (\<lambda>(s, p, accum, accumbits). do {
     (s, p) \<leftarrow> put_down s p (bin_char capitals (unat (accum AND (push_bit bits 1 - 1))));
     Some (s, p, drop_bit bits accum, accumbits - int bits) })"

definition bin_digits ::
  "nat \<Rightarrow> bool \<Rightarrow> FklBigIntDigit list \<Rightarrow> nat \<Rightarrow> string \<Rightarrow> nat \<Rightarrow> (string \<times> nat \<times> FklBigIntTwoDigit \<times> int) option" where
  "bin_digits bits capitals ds size_a s p =
     for_up 0 size_a (\<lambda>i (s, p, accum, accumbits). do {
       d \<leftarrow> rd ds i;
       let accum = accum OR push_bit (nat accumbits) (ucast d);
       let accumbits = accumbits + int FKL_BIGINT_DIGIT_SHIFT;
       FKL_ASSERT (accumbits \<ge> int bits);
       st \<leftarrow> bin_put bits capitals (s, p, accum, accumbits);
       while_m (\<lambda>(s, p, accum, accumbits). if i < size_a - 1 then accumbits \<ge> int bits else accum > 0)
         (bin_put bits capitals) st }) (s, p, 0, 0)"

text \<open>\<open>memcpy(p_str - n, alt_str, n); p_str -= n;\<close>\<close>

definition put_string :: "string \<Rightarrow> nat \<Rightarrow> string \<Rightarrow> (string \<times> nat) option" where
  "put_string s p t =
     (if length t \<le> p \<and> p \<le> length s then Some (take (p - length t) s @ t @ drop p s, p - length t) else None)"

text \<open>\<open>base\<close> is \<open>2 ^ bits\<close>; the other bases are unreachable.\<close>

definition bigint_to_bin_string_buffer ::
  "FklBigInt \<Rightarrow> (nat \<Rightarrow> string) \<Rightarrow> nat \<Rightarrow> u32 \<Rightarrow> string \<Rightarrow> (nat \<times> string) option" where
  "bigint_to_bin_string_buffer a alloc base flags alt_str = do {
     FKL_ASSERT (num a \<noteq> 0);
     let alternate = (flags AND FKL_BIGINT_FMT_FLAG_ALTERNATE \<noteq> 0);
     let capitals = (flags AND FKL_BIGINT_FMT_FLAG_CAPITALS \<noteq> 0);
     bits \<leftarrow> (if base = 16 then Some HEX_BIT_COUNT else if base = 8 then Some OCT_BIT_COUNT else None);
     let size_a = nat (fklAbs (num a));
     msd \<leftarrow> rd (digits a) (size_a - 1);
     l \<leftarrow> bit_length_digit (ucast msd);
     let size_a_in_bits = (size_a - 1) * FKL_BIGINT_DIGIT_SHIFT + l;
     let sz = (if num a < 0 then 1 else 0) + (size_a_in_bits + (bits - 1)) div bits
       + (if alternate then length alt_str else 0);
     (s, p, accum, accumbits) \<leftarrow> bin_digits bits capitals (digits a) size_a (alloc sz) sz;
     (s, p) \<leftarrow> (if alternate then put_string s p alt_str else Some (s, p));
     (s, p) \<leftarrow> (if num a < 0 then put_down s p CHR ''-'' else Some (s, p));
     Some (sz, s) }"

definition fklBigIntToStr :: "FklBigInt \<Rightarrow> (nat \<Rightarrow> string) \<Rightarrow> nat \<Rightarrow> u32 \<Rightarrow> (nat \<times> string) option" where
  "fklBigIntToStr a alloc radix flags = do {
     z \<leftarrow> FKL_BIGINT_IS_0 a;
     if z then do { s \<leftarrow> wr (alloc 1) 0 CHR ''0''; Some (1, s) }
     else if radix = 10 then bigint_to_dec_string_buffer a alloc
     else if radix = 8 then bigint_to_bin_string_buffer a alloc 8 flags ''0''
     else if radix = 16 then bigint_to_bin_string_buffer a alloc 16 flags
       (if flags AND FKL_BIGINT_FMT_FLAG_CAPITALS \<noteq> 0 then ''0X'' else ''0x'')
     else None }"

text \<open>The allocator of \<open>fklBigIntToCstr\<close> leaves room for the terminating zero.\<close>

definition print_bigint_alloc :: "nat \<Rightarrow> string" where
  "print_bigint_alloc n = zmalloc n @ [CHR 0x00]"

definition fklBigIntToCstr :: "FklBigInt \<Rightarrow> nat \<Rightarrow> u32 \<Rightarrow> string option" where
  "fklBigIntToCstr a radix flags = do { (n, str) \<leftarrow> fklBigIntToStr a print_bigint_alloc radix flags; Some str }"

section \<open>The digits of a number\<close>

function rad_str :: "nat \<Rightarrow> (nat \<Rightarrow> char) \<Rightarrow> nat \<Rightarrow> string" where
  "rad_str b f n = (if n < b \<or> b < 2 then [f n] else rad_str b f (n div b) @ [f (n mod b)])"
  by pat_completeness auto
termination
  by (relation "measure (\<lambda>(b, f, n). n)") auto

declare rad_str.simps [simp del]

text \<open>The same with a fixed number of digits, leading zeros included.\<close>

fun pad :: "nat \<Rightarrow> (nat \<Rightarrow> char) \<Rightarrow> nat \<Rightarrow> nat \<Rightarrow> string" where
  "pad b f 0 n = []"
| "pad b f (Suc k) n = pad b f k (n div b) @ [f (n mod b)]"

lemma length_pad [simp]: "length (pad b f k n) = k"
  by (induction b f k n rule: pad.induct) auto

lemma pad_Suc_left: "pad b f (Suc k) n = f (n div b ^ k mod b) # pad b f k n"
  by (induction k arbitrary: n) (simp_all add: div_mult2_eq)

lemma pad_cong: "n mod b ^ k = m mod b ^ k \<Longrightarrow> pad b f k n = pad b f k m"
proof (induction k)
  case 0
  then show ?case by simp
next
  case (Suc k)
  have "x div b ^ k mod b = x mod b ^ Suc k div b ^ k" for x
    by (cases "b = 0") (simp_all add: mult.commute [of b] mod_mult2_eq)
  then have "n div b ^ k mod b = m div b ^ k mod b" using Suc.prems by simp
  moreover have "n mod b ^ k = m mod b ^ k"
    using Suc.prems mod_mod_cancel [of "b ^ k" "b ^ Suc k" n] mod_mod_cancel [of "b ^ k" "b ^ Suc k" m] by simp
  ultimately show ?case using Suc.IH by (simp add: pad_Suc_left del: pad.simps)
qed

lemma pad_append: "0 < b \<Longrightarrow> m < b ^ k \<Longrightarrow> pad b f (j + k) (n * b ^ k + m) = pad b f j n @ pad b f k m"
proof (induction j arbitrary: n)
  case 0
  have "pad b f k (n * b ^ k + m) = pad b f k m" by (rule pad_cong) simp
  then show ?case by simp
next
  case (Suc j)
  have "f ((n * b ^ k + m) div b ^ (j + k) mod b) = f (n div b ^ j mod b)"
    using Suc.prems by (simp add: power_add div_mult2_eq mult.commute [of "b ^ j"])
  then show ?case using Suc.IH [of n] Suc.prems by (simp add: pad_Suc_left del: pad.simps)
qed

lemma rad_str_pad:
  assumes "2 \<le> b" "n < b ^ Suc k" "k = 0 \<or> b ^ k \<le> n"
  shows "rad_str b f n = pad b f (Suc k) n"
  using assms(2,3)
proof (induction k arbitrary: n)
  case 0
  then show ?case by (simp add: rad_str.simps)
next
  case (Suc k)
  then have n: "b ^ Suc k \<le> n" "n < b ^ Suc k * b" by (simp_all add: mult.commute)
  have "b \<le> b ^ Suc k" using assms(1) by simp
  then have "b \<le> n" using n(1) by (rule order_trans)
  moreover have "n div b < b ^ Suc k" using n assms(1) by (simp add: div_less_iff_less_mult)
  moreover have "b ^ k \<le> n div b" using n assms(1) by (simp add: less_eq_div_iff_mult_less_eq mult.commute)
  ultimately have "rad_str b f n = pad b f (Suc k) (n div b) @ [f (n mod b)]"
    using assms(1) Suc.IH [of "n div b"] by (subst rad_str.simps) simp
  then show ?case by simp
qed

lemma num_of_pad:
  assumes "\<And>d. d < b \<Longrightarrow> char_digit (f d) = d"
  shows "n < b ^ k \<Longrightarrow> num_of b (pad b f k n) = n"
proof (induction k arbitrary: n)
  case 0
  then show ?case by simp
next
  case (Suc k)
  have b: "0 < b" using Suc.prems by (cases b) auto
  then have "n div b < b ^ k" using Suc.prems by (simp add: div_less_iff_less_mult mult.commute)
  then show ?case using Suc.IH assms b by (simp add: num_of_snoc)
qed

text \<open>Every positive number has a length in every base.\<close>

lemma rad_length_exists:
  fixes b n :: nat
  assumes "2 \<le> b"
  obtains k where "n < b ^ Suc k" "k = 0 \<or> b ^ k \<le> n"
proof -
  define k where "k = (LEAST k. n < b ^ Suc k)"
  have "n < 2 ^ n" by (rule less_exp)
  also have "(2::nat) ^ n \<le> b ^ n" using assms by (intro power_mono) auto
  also have "b ^ n \<le> b ^ Suc n" using assms by (intro power_increasing) auto
  finally have "n < b ^ Suc n" .
  then have "n < b ^ Suc k" unfolding k_def by (rule LeastI)
  moreover have "k = 0 \<or> b ^ k \<le> n"
  proof (rule disjCI)
    assume "\<not> b ^ k \<le> n"
    then show "k = 0" using not_less_Least [of "k - 1" "\<lambda>k. n < b ^ Suc k"] unfolding k_def [symmetric]
      by (cases k) auto
  qed
  ultimately show ?thesis by (rule that)
qed

section \<open>The decimal array\<close>

abbreviation DECIMAL :: nat where "DECIMAL \<equiv> 1000000000"

fun pval :: "nat \<Rightarrow> u32 list \<Rightarrow> nat" where
  "pval b [] = 0"
| "pval b (d # ds) = unat d + b * pval b ds"

definition words_ok :: "nat \<Rightarrow> u32 list \<Rightarrow> bool" where
  "words_ok b ds \<longleftrightarrow> (\<forall>d \<in> set ds. unat d < b)"

lemma pval_append: "pval b (xs @ ys) = pval b xs + b ^ length xs * pval b ys"
  by (induction xs) (auto simp: algebra_simps)

lemma pval_take_Suc: "i < length ds \<Longrightarrow> pval b (take (Suc i) ds) = pval b (take i ds) + b ^ i * unat (ds ! i)"
  by (simp add: take_Suc_conv_app_nth pval_append)

lemma words_ok_take_Suc:
  "i < length ds \<Longrightarrow> words_ok b (take (Suc i) ds) \<longleftrightarrow> words_ok b (take i ds) \<and> unat (ds ! i) < b"
  by (auto simp: words_ok_def take_Suc_conv_app_nth)

lemma words_ok_take: "words_ok b (take n ds) \<Longrightarrow> m \<le> n \<Longrightarrow> words_ok b (take m ds)"
  using set_take_subset [of m "take n ds"] by (auto simp: words_ok_def min_def)

lemma words_ok_nth: "words_ok b (take n ds) \<Longrightarrow> i < n \<Longrightarrow> i < length ds \<Longrightarrow> unat (ds ! i) < b"
  using nth_mem [of i "take n ds"] by (auto simp: words_ok_def)

lemma pval_less: "words_ok b ds \<Longrightarrow> pval b ds < b ^ length ds"
proof (induction ds)
  case (Cons d ds)
  then have "pval b ds + 1 \<le> b ^ length ds" "unat d < b" by (auto simp: words_ok_def Suc_le_eq)
  then have "b * (pval b ds + 1) \<le> b * b ^ length ds" by (intro mult_le_mono2)
  then show ?case using \<open>unat d < b\<close> by simp
qed simp

text \<open>One multiplication step of \<open>dec_scale\<close>.\<close>

lemma dec_step:
  fixes x hi :: u32
  assumes x: "unat x < DECIMAL" and hi: "unat hi < BASE"
    and z: "z = push_bit 30 (ucast x :: u64) OR ucast hi"
    and h: "h = (ucast (z div FKL_BIGINT_DECIMAL_BASE) :: u32)"
  shows "unat h = (BASE * unat x + unat hi) div DECIMAL" "unat h < BASE"
    and "unat (ucast (z - ucast h * FKL_BIGINT_DECIMAL_BASE) :: u32) = (BASE * unat x + unat hi) mod DECIMAL"
proof -
  have xb: "unat x < BASE" using x by (simp add: BASE_def)
  have uz: "unat z = BASE * unat x + unat hi" unfolding z
    using unat_or_shift [of hi 30 x] hi xb by (simp add: BASE_def)
  have "BASE * unat x + unat hi < BASE * (unat x + 1)" using hi by simp
  also have "\<dots> \<le> BASE * DECIMAL" using x by (intro mult_le_mono2) simp
  finally have l: "(BASE * unat x + unat hi) div DECIMAL < BASE" by (simp add: div_less_iff_less_mult)
  have ud: "unat (z div FKL_BIGINT_DECIMAL_BASE) = unat z div DECIMAL"
    by (simp add: FKL_BIGINT_DECIMAL_BASE_def unat_div)
  show uh: "unat h = (BASE * unat x + unat hi) div DECIMAL"
    unfolding h using l by (simp add: unat_ucast_mod ud uz BASE_def)
  then show "unat h < BASE" using l by simp
  have le: "unat h * DECIMAL \<le> unat z" unfolding uh uz by simp
  have e: "unat (ucast h * FKL_BIGINT_DECIMAL_BASE :: u64) = unat h * DECIMAL"
    using le_less_trans [OF le unat_less_64] by (subst unat_mult_less) (simp_all add: FKL_BIGINT_DECIMAL_BASE_def)
  then have "ucast h * FKL_BIGINT_DECIMAL_BASE \<le> z" using le by (simp add: word_le_nat_alt)
  then have d: "unat (z - ucast h * FKL_BIGINT_DECIMAL_BASE) = unat z - unat h * DECIMAL"
    by (simp only: unat_sub e)
  also have "\<dots> = unat z mod DECIMAL" by (simp add: uh uz minus_div_mult_eq_mod)
  finally show "unat (ucast (z - ucast h * FKL_BIGINT_DECIMAL_BASE) :: u32) = (BASE * unat x + unat hi) mod DECIMAL"
    using mod_less_divisor [of DECIMAL "unat z"] by (simp add: unat_ucast_mod uz)
qed

lemma wp_dec_scale:
  assumes "cnt \<le> length pout" "words_ok DECIMAL (take cnt pout)" "unat hi < BASE"
  shows "wp (dec_scale pout cnt hi) (\<lambda>(r, h). length r = length pout \<and> words_ok DECIMAL (take cnt r)
    \<and> unat h < BASE \<and> pval DECIMAL (take cnt r) + DECIMAL ^ cnt * unat h = BASE * pval DECIMAL (take cnt pout) + unat hi)"
  unfolding dec_scale_def
proof (rule wp_for_up [where I = "\<lambda>j (r, h). length r = length pout \<and> words_ok DECIMAL (take j r) \<and> drop j r = drop j pout
    \<and> unat (h :: u32) < BASE \<and> pval DECIMAL (take j r) + DECIMAL ^ j * unat h = BASE * pval DECIMAL (take j pout) + unat hi"])
  fix j and t :: "u32 list \<times> u32"
  assume j: "0 \<le> j" "j < cnt" and inv: "case t of (r, h) \<Rightarrow> length r = length pout \<and> words_ok DECIMAL (take j r)
    \<and> drop j r = drop j pout \<and> unat h < BASE
    \<and> pval DECIMAL (take j r) + DECIMAL ^ j * unat h = BASE * pval DECIMAL (take j pout) + unat hi"
  obtain r h where t: "t = (r, h)" by (cases t)
  have l: "j < length pout" "j < length r" using j assms inv t by auto
  have rj: "r ! j = pout ! j" using drop_eq_nth [of j r pout j] inv t l by simp
  have x: "unat (pout ! j) < DECIMAL" using words_ok_nth [OF assms(2) j(2)] l by simp
  define z where "z = push_bit 30 (ucast (pout ! j) :: u64) OR ucast h"
  define h' where "h' = (ucast (z div FKL_BIGINT_DECIMAL_BASE) :: u32)"
  define w where "w = (ucast (z - ucast h' * FKL_BIGINT_DECIMAL_BASE) :: u32)"
  have hB: "unat h < BASE" using inv t by simp
  note st = dec_step [OF x hB z_def h'_def]
  have "pval DECIMAL (take (Suc j) (r[j := w])) + DECIMAL ^ Suc j * unat h'
      = pval DECIMAL (take j r) + DECIMAL ^ j * (unat w + DECIMAL * unat h')"
    using l by (simp add: pval_take_Suc take_update_cancel algebra_simps)
  also have "unat w + DECIMAL * unat h' = BASE * unat (pout ! j) + unat h"
    unfolding w_def st by simp
  also have "pval DECIMAL (take j r) + DECIMAL ^ j * (BASE * unat (pout ! j) + unat h)
      = BASE * pval DECIMAL (take (Suc j) pout) + unat hi"
    using inv t l by (simp add: pval_take_Suc algebra_simps)
  finally have v: "pval DECIMAL (take (Suc j) (r[j := w])) + DECIMAL ^ Suc j * unat h'
      = BASE * pval DECIMAL (take (Suc j) pout) + unat hi" .
  have "unat w < DECIMAL" unfolding w_def st by simp
  then have ok: "words_ok DECIMAL (take (Suc j) (r[j := w]))"
    using inv t l by (simp add: words_ok_take_Suc take_update_cancel)
  have dr: "drop (Suc j) r = drop (Suc j) pout" using inv t drop_Suc_eq [of j r pout] by simp
  show "wp (case t of (pout, hi) \<Rightarrow> do {
       x \<leftarrow> rd pout j;
       let z = push_bit FKL_BIGINT_DIGIT_SHIFT (ucast x :: u64) OR ucast hi;
       let hi = ucast (z div FKL_BIGINT_DECIMAL_BASE);
       pout \<leftarrow> wr pout j (ucast (z - ucast hi * FKL_BIGINT_DECIMAL_BASE));
       Some (pout, hi) })
    (\<lambda>(r, h). length r = length pout \<and> words_ok DECIMAL (take (Suc j) r) \<and> drop (Suc j) r = drop (Suc j) pout
    \<and> unat (h :: u32) < BASE \<and> pval DECIMAL (take (Suc j) r) + DECIMAL ^ Suc j * unat h
      = BASE * pval DECIMAL (take (Suc j) pout) + unat hi)"
    unfolding t prod.case wp_simps wp_rd wp_wr wp_let Let_def rj z_def [symmetric] h'_def [symmetric] w_def [symmetric]
    using inv t l ok v st dr by simp
qed (use assms in \<open>auto simp: words_ok_def\<close>)

text \<open>The words of a number: as many as needed and no more.\<close>

definition dec_repr :: "nat \<Rightarrow> u32 list \<Rightarrow> nat \<Rightarrow> bool" where
  "dec_repr v ds cnt \<longleftrightarrow> cnt \<le> length ds \<and> words_ok DECIMAL (take cnt ds) \<and> pval DECIMAL (take cnt ds) = v
     \<and> (0 < cnt \<longrightarrow> ds ! (cnt - 1) \<noteq> 0)"

lemma dec_repr_lower: "dec_repr v ds cnt \<Longrightarrow> 0 < cnt \<Longrightarrow> DECIMAL ^ (cnt - 1) \<le> v"
proof -
  assume r: "dec_repr v ds cnt" and c: "0 < cnt"
  then have l: "cnt - 1 < length ds" by (auto simp: dec_repr_def)
  have "0 < unat (ds ! (cnt - 1))" using r c by (simp add: dec_repr_def unat_gt_0)
  then have "DECIMAL ^ (cnt - 1) * 1 \<le> DECIMAL ^ (cnt - 1) * unat (ds ! (cnt - 1))" by (intro mult_le_mono2) simp
  also have "\<dots> \<le> v" using r c pval_take_Suc [OF l, of DECIMAL] by (simp add: dec_repr_def)
  finally show ?thesis by simp
qed

lemma wp_dec_push:
  assumes "cnt \<le> length pout" "words_ok DECIMAL (take cnt pout)"
    and "hi = 0 \<Longrightarrow> 0 < cnt \<Longrightarrow> pout ! (cnt - 1) \<noteq> 0"
    and "v = pval DECIMAL (take cnt pout) + DECIMAL ^ cnt * unat hi"
    and "\<And>k. DECIMAL ^ k \<le> v \<Longrightarrow> k < length pout"
  shows "wp (dec_push pout cnt hi) (\<lambda>(r, n). length r = length pout \<and> dec_repr v r n)"
  using assms
proof (induction pout cnt hi rule: dec_push.induct)
  case (1 pout cnt hi)
  show ?case
  proof (cases "hi = 0")
    case True
    then show ?thesis using "1.prems" by (subst dec_push.simps) (simp add: dec_repr_def)
  next
    case False
    then have h: "0 < unat hi" by (simp add: unat_gt_0)
    let ?w = "hi mod FKL_BIGINT_DECIMAL_BASE" and ?q = "hi div FKL_BIGINT_DECIMAL_BASE"
    have w: "unat ?w = unat hi mod DECIMAL" "unat ?q = unat hi div DECIMAL"
      by (simp_all add: FKL_BIGINT_DECIMAL_BASE_def unat_mod unat_div)
    have "DECIMAL ^ cnt \<le> DECIMAL ^ cnt * unat hi" using h by simp
    then have "DECIMAL ^ cnt \<le> v" unfolding "1.prems"(4) by (rule trans_le_add2)
    then have l: "cnt < length pout" by (rule "1.prems"(5))
    have "wp (dec_push (pout[cnt := ?w]) (cnt + 1) ?q) (\<lambda>(r, n). length r = length (pout[cnt := ?w]) \<and> dec_repr v r n)"
    proof (rule "1.IH" [OF False])
      show "wr pout cnt ?w = Some (pout[cnt := ?w])" using l by (simp add: wr_def)
      show "words_ok DECIMAL (take (cnt + 1) (pout[cnt := ?w]))"
        using l "1.prems"(2) w by (simp add: words_ok_take_Suc take_update_cancel)
      show "v = pval DECIMAL (take (cnt + 1) (pout[cnt := ?w])) + DECIMAL ^ (cnt + 1) * unat ?q"
      proof -
        have "unat hi = unat hi mod DECIMAL + DECIMAL * (unat hi div DECIMAL)" by simp
        then have "DECIMAL ^ cnt * unat hi = DECIMAL ^ cnt * (unat hi mod DECIMAL + DECIMAL * (unat hi div DECIMAL))"
          by (rule arg_cong)
        then have "DECIMAL ^ cnt * unat hi = DECIMAL ^ cnt * (unat hi mod DECIMAL) + DECIMAL ^ (cnt + 1) * (unat hi div DECIMAL)"
          by (simp only: distrib_left power_add power_one_right mult.assoc)
        then show ?thesis using l "1.prems"(4) w
          by (simp add: pval_take_Suc take_update_cancel)
      qed
      show "pout[cnt := ?w] ! (cnt + 1 - 1) \<noteq> 0" if "?q = 0"
      proof -
        have "unat hi div DECIMAL = 0" using that w(2) by simp
        then have "unat ?w = unat hi" using w(1) by (simp add: div_eq_0_iff)
        then have "?w \<noteq> 0" using h by (metis unat_0 less_irrefl)
        then show ?thesis using l by simp
      qed
    qed (use l "1.prems"(5) in auto)
    then show ?thesis using False l by (subst dec_push.simps) (simp add: wr_def)
  qed
qed

text \<open>The array is large enough: \<open>10 ^ 9 > 2 ^ (30 * 99 / 100)\<close>, from \<open>10 ^ 10 > 2 ^ 33\<close>.\<close>

lemma dec_room:
  assumes "DECIMAL ^ k \<le> v" "v < 2 ^ (30 * n)"
  shows "k \<le> n + n div 99"
proof (rule ccontr)
  assume "\<not> k \<le> n + n div 99"
  then have k: "n + n div 99 + 1 \<le> k" by simp
  have "n < 99 * (n div 99 + 1)" by presburger
  then have "300 * n \<le> 297 * k" using k by linarith
  then have "(2::nat) ^ (300 * n) \<le> 2 ^ (297 * k)" by (rule power_increasing) simp
  also have "(2::nat) ^ (297 * k) = (2 ^ 33) ^ (9 * k)" unfolding power_mult [symmetric] by simp
  also have "\<dots> \<le> (10 ^ 10) ^ (9 * k)" by (rule power_mono) simp_all
  also have "\<dots> = (10 ^ 9) ^ (10 * k)" unfolding power_mult [symmetric] by simp
  also have "\<dots> = (DECIMAL ^ k) ^ 10" by (simp add: mult.commute [of 10] power_mult)
  finally have "(2 ^ (30 * n)) ^ 10 \<le> (DECIMAL ^ k) ^ 10" by (simp add: power_mult [symmetric])
  then have "2 ^ (30 * n) \<le> DECIMAL ^ k" by (subst (asm) power_mono_iff) simp_all
  with assms show False by linarith
qed

lemma wp_dec_digits:
  assumes ds: "n \<le> length ds" "digits_ok (take n ds)" and p: "length pout = 1 + n + n div 99"
  shows "wp (dec_digits ds n pout) (\<lambda>(r, cnt). length r = length pout \<and> dec_repr (val (take n ds)) r cnt)"
  unfolding dec_digits_def
proof (rule wp_for_down [where I = "\<lambda>i (r, cnt). length r = length pout \<and> dec_repr (val (drop i (take n ds))) r cnt"])
  show "case (pout, 0) of (r, cnt) \<Rightarrow> length r = length pout \<and> dec_repr (val (drop n (take n ds))) r cnt"
    by (simp add: dec_repr_def words_ok_def)
next
  fix i and t :: "u32 list \<times> nat"
  assume i: "i < n" and inv: "case t of (r, cnt) \<Rightarrow> length r = length pout \<and> dec_repr (val (drop (Suc i) (take n ds))) r cnt"
  obtain r cnt where t: "t = (r, cnt)" by (cases t)
  have l: "i < length ds" using i ds by simp
  have d: "unat (ds ! i) < BASE" using ds i l by (auto intro: digits_ok_nth)
  let ?v = "val (drop (Suc i) (take n ds))"
  have R: "length r = length pout" "cnt \<le> length r" "words_ok DECIMAL (take cnt r)" "pval DECIMAL (take cnt r) = ?v"
    using inv t by (simp_all add: dec_repr_def)
  have v: "val (drop i (take n ds)) = unat (ds ! i) + BASE * ?v"
    using i l by (simp add: Cons_nth_drop_Suc [symmetric])
  obtain q h where q: "dec_scale r cnt (ds ! i) = Some (q, h)" "length q = length r" "words_ok DECIMAL (take cnt q)"
    "unat h < BASE" "pval DECIMAL (take cnt q) + DECIMAL ^ cnt * unat h = BASE * ?v + unat (ds ! i)"
    using wp_dec_scale [OF R(2,3) d] R(4) by (auto elim!: wpE)
  have V: "val (drop i (take n ds)) < 2 ^ (30 * n)"
  proof -
    have "BASE ^ i * val (drop i (take n ds)) \<le> val (take n ds)"
      using val_take_drop [of i "take n ds"] i ds by simp
    moreover have "val (take n ds) < BASE ^ n" using ds by (intro val_take_less)
    moreover have "val (drop i (take n ds)) \<le> BASE ^ i * val (drop i (take n ds))" by simp
    ultimately have "val (drop i (take n ds)) < BASE ^ n" by linarith
    then show ?thesis by (simp add: BASE_def power_mult)
  qed
  have "wp (dec_push q cnt h) (\<lambda>(r, m). length r = length q \<and> dec_repr (val (drop i (take n ds))) r m)"
  proof (rule wp_dec_push)
    show "cnt \<le> length q" using q R by simp
    show "k < length q" if "DECIMAL ^ k \<le> val (drop i (take n ds))" for k
      using dec_room [OF that V] p q R by simp
    show "val (drop i (take n ds)) = pval DECIMAL (take cnt q) + DECIMAL ^ cnt * unat h" using q v by simp
    show "q ! (cnt - 1) \<noteq> 0" if "h = 0" "0 < cnt"
    proof
      assume z: "q ! (cnt - 1) = 0"
      have c: "cnt - 1 < length q" using q R that by simp
      have "pval DECIMAL (take cnt q) = pval DECIMAL (take (cnt - 1) q)"
        using pval_take_Suc [OF c, of DECIMAL] z that by simp
      also have "\<dots> < DECIMAL ^ (cnt - 1)"
        using pval_less [of DECIMAL "take (cnt - 1) q"] words_ok_take [OF q(3), of "cnt - 1"] c by simp
      also have "\<dots> \<le> ?v" using dec_repr_lower inv t that by auto
      also have "?v \<le> BASE * ?v" by simp
      finally show False using q(5) that by simp
    qed
  qed (rule q(3))
  then show "wp (case t of (pout, cnt) \<Rightarrow> do {
       hi \<leftarrow> rd ds i;
       (pout, hi) \<leftarrow> dec_scale pout cnt hi;
       dec_push pout cnt hi }) (\<lambda>(r, cnt). length r = length pout \<and> dec_repr (val (drop i (take n ds))) r cnt)"
    using t l q R by (simp add: rd_def)
qed simp_all

section \<open>The characters\<close>

abbreviation dec_char :: "nat \<Rightarrow> char" where "dec_char \<equiv> char_plus CHR ''0''"

text \<open>\<open>suf\<close> has been written below position \<open>n\<close> of the buffer \<open>s0\<close>.\<close>

definition wrote :: "string \<Rightarrow> nat \<Rightarrow> string \<times> nat \<Rightarrow> string \<Rightarrow> bool" where
  "wrote s0 n = (\<lambda>(s, p) suf. length s = length s0 \<and> n \<le> length s0 \<and> p + length suf = n
     \<and> drop p s = suf @ drop n s0)"

lemma wp_put_down:
  assumes "wrote s0 n (s, p) suf" "length suf < n"
  shows "wp (put_down s p c) (\<lambda>r. wrote s0 n r (c # suf))"
proof -
  have p: "p \<noteq> 0" "p - 1 < length s" using assms by (auto simp: wrote_def)
  have "drop (p - 1) (s[p - 1 := c]) = c # drop p s"
    using p by (simp add: Cons_nth_drop_Suc [symmetric] drop_update_swap)
  then show ?thesis using assms p by (simp add: put_down_def wr_def wrote_def)
qed

lemma wrote_0: "wrote s0 n (s, p) suf \<Longrightarrow> length suf = n \<Longrightarrow> p = 0 \<and> s = suf @ drop n s0"
  by (auto simp: wrote_def)

lemma unat_mod_10: "unat (rem mod 10) = unat rem mod 10" "unat (rem div 10) = unat rem div 10" for rem :: u32
  by (simp_all add: unat_mod unat_div)

lemma wp_put_nine:
  assumes "wrote s0 n (s, p) suf" "length suf + 9 \<le> n"
  shows "wp (put_nine s p rem) (\<lambda>(s, p, r). wrote s0 n (s, p) (pad 10 dec_char 9 (unat rem) @ suf))"
  unfolding put_nine_def
proof (rule wp_for_up [where I = "\<lambda>j (s, p, r). wrote s0 n (s, p) (pad 10 dec_char j (unat rem) @ suf)
    \<and> unat (r :: u32) = unat rem div 10 ^ j"])
  fix j and t :: "string \<times> nat \<times> u32"
  assume j: "0 \<le> j" "j < 9" and inv: "case t of (s, p, r) \<Rightarrow> wrote s0 n (s, p) (pad 10 dec_char j (unat rem) @ suf)
    \<and> unat r = unat rem div 10 ^ j"
  obtain s p r where t: "t = (s, p, r)" by (metis prod_cases3)
  have w: "wrote s0 n (s, p) (pad 10 dec_char j (unat rem) @ suf)" "unat r = unat rem div 10 ^ j" using inv t by auto
  have l: "length (pad 10 dec_char j (unat rem) @ suf) < n" using j assms by simp
  show "wp (case t of (s, p, rem) \<Rightarrow> do {
       (s, p) \<leftarrow> put_down s p (char_plus CHR ''0'' (unat (rem mod 10)));
       Some (s, p, rem div 10) })
    (\<lambda>(s, p, r). wrote s0 n (s, p) (pad 10 dec_char (Suc j) (unat rem) @ suf) \<and> unat r = unat rem div 10 ^ Suc j)"
    using wp_put_down [OF w(1) l, of "dec_char (unat rem div 10 ^ j mod 10)"] t w(2)
    by (auto simp: pad_Suc_left unat_mod_10 div_mult2_eq [symmetric] mult.commute simp del: pad.simps elim!: wp_mono)
qed (use assms in auto)

text \<open>All words but the first, from the lowest on.\<close>

fun words_str :: "u32 list \<Rightarrow> nat \<Rightarrow> string" where
  "words_str ds 0 = []"
| "words_str ds (Suc i) = pad 10 dec_char 9 (unat (ds ! i)) @ words_str ds i"

lemma length_words_str [simp]: "length (words_str ds i) = 9 * i"
  by (induction i) auto

lemma words_str_pad:
  "i \<le> length ds \<Longrightarrow> words_ok DECIMAL (take i ds) \<Longrightarrow> words_str ds i = pad 10 dec_char (9 * i) (pval DECIMAL (take i ds))"
proof (induction i)
  case 0
  then show ?case by simp
next
  case (Suc i)
  then have ok: "words_ok DECIMAL (take i ds)" by (auto intro: words_ok_take)
  have e: "DECIMAL ^ i = 10 ^ (9 * i)" by (simp add: power_mult)
  have "pval DECIMAL (take i ds) < 10 ^ (9 * i)"
    using pval_less [OF ok] Suc.prems(1) by (simp add: e)
  then have "pad 10 dec_char (9 + 9 * i) (unat (ds ! i) * 10 ^ (9 * i) + pval DECIMAL (take i ds))
      = pad 10 dec_char 9 (unat (ds ! i)) @ pad 10 dec_char (9 * i) (pval DECIMAL (take i ds))"
    by (intro pad_append) simp_all
  moreover have "pval DECIMAL (take (Suc i) ds) = unat (ds ! i) * 10 ^ (9 * i) + pval DECIMAL (take i ds)"
    using Suc.prems by (simp add: pval_take_Suc e)
  ultimately show ?case using Suc.IH [OF _ ok] Suc.prems by simp
qed

lemma wp_put_words:
  assumes "wrote s0 n (s, p) []" "9 * m \<le> n" "m \<le> length ds"
  shows "wp (for_up 0 m (\<lambda>i (s, p). do { rem \<leftarrow> rd ds i; (s, p, rem) \<leftarrow> put_nine s p rem; Some (s, p) }) (s, p))
    (\<lambda>r. wrote s0 n r (words_str ds m))"
proof (rule wp_for_up [where I = "\<lambda>i r. wrote s0 n r (words_str ds i)"])
  fix i and t :: "string \<times> nat"
  assume i: "0 \<le> i" "i < m" and w: "wrote s0 n t (words_str ds i)"
  obtain s p where t: "t = (s, p)" by (cases t)
  have "wp (put_nine s p (ds ! i)) (\<lambda>(s, p, r). wrote s0 n (s, p) (pad 10 dec_char 9 (unat (ds ! i)) @ words_str ds i))"
    by (rule wp_put_nine) (use w t i assms in auto)
  then show "wp (case t of (s, p) \<Rightarrow> do { rem \<leftarrow> rd ds i; (s, p, rem) \<leftarrow> put_nine s p rem; Some (s, p) })
    (\<lambda>r. wrote s0 n r (words_str ds (Suc i)))"
    using t i assms by (auto simp: rd_def elim!: wp_mono)
qed (use assms in simp_all)

lemma wp_put_rem:
  assumes "wrote s0 n (s, p) suf" "length (rad_str 10 dec_char (unat rem)) + length suf \<le> n"
  shows "wp (put_rem s p rem) (\<lambda>r. wrote s0 n r (rad_str 10 dec_char (unat rem) @ suf))"
  using assms
proof (induction s p rem arbitrary: suf rule: put_rem.induct)
  case (1 s p rem)
  have ne: "0 < length (rad_str 10 dec_char k)" for k by (subst rad_str.simps) simp
  have "length suf < n" using "1.prems"(2) ne [of "unat rem"] by linarith
  then obtain s' p' where sp: "put_down s p (dec_char (unat rem mod 10)) = Some (s', p')"
    "wrote s0 n (s', p') (dec_char (unat rem mod 10) # suf)"
    using wp_put_down [OF "1.prems"(1), of "dec_char (unat rem mod 10)"] by (auto elim!: wpE)
  show ?case
  proof (cases "rem div 10 = 0")
    case True
    then have "unat rem div 10 = 0" by (simp flip: unat_mod_10)
    then have r: "unat rem < 10" by simp
    then have "rad_str 10 dec_char (unat rem) = [dec_char (unat rem mod 10)]" by (subst rad_str.simps) simp
    then show ?thesis using sp True by (subst put_rem.simps) (simp add: unat_mod_10)
  next
    case False
    then have "unat rem div 10 \<noteq> 0" by (simp add: unat_eq_0 flip: unat_mod_10)
    then have "10 \<le> unat rem" by simp
    then have rs: "rad_str 10 dec_char (unat rem) = rad_str 10 dec_char (unat (rem div 10)) @ [dec_char (unat rem mod 10)]"
      by (subst rad_str.simps) (simp add: unat_mod_10)
    have "wp (put_rem s' p' (rem div 10)) (\<lambda>r. wrote s0 n r (rad_str 10 dec_char (unat (rem div 10)) @ dec_char (unat rem mod 10) # suf))"
      by (rule "1.IH") (use sp rs "1.prems"(2) False in \<open>simp_all add: unat_mod_10\<close>)
    then show ?thesis using sp False rs by (subst put_rem.simps) (simp add: unat_mod_10)
  qed
qed

lemma rad_str_length:
  assumes "2 \<le> b" "n < b ^ Suc k" "k = 0 \<or> b ^ k \<le> n"
  shows "length (rad_str b f n) = Suc k"
  by (simp only: rad_str_pad [OF assms] length_pad)

lemma wp_dec_top_len:
  assumes "unat w < DECIMAL"
  shows "wp (dec_top_len w n) (\<lambda>(t, m). m + 1 = n + length (rad_str 10 dec_char (unat w)))"
  unfolding dec_top_len_def
proof (rule wp_while_m [where \<mu> = "\<lambda>(t, m). unat w + 1 - unat t"
    and I = "\<lambda>(t, m). \<exists>k. k < 9 \<and> unat t = 10 ^ (k + 1) \<and> m = n + k \<and> (k = 0 \<or> 10 ^ k \<le> unat w)"])
  show "case (10, n) of (t, m) \<Rightarrow> \<exists>k. k < 9 \<and> unat (t :: u32) = 10 ^ (k + 1) \<and> m = n + k \<and> (k = 0 \<or> 10 ^ k \<le> unat w)"
    by (auto intro: exI [of _ 0])
next
  fix t :: "u32 \<times> nat"
  assume inv: "case t of (t, m) \<Rightarrow> \<exists>k. k < 9 \<and> unat t = 10 ^ (k + 1) \<and> m = n + k \<and> (k = 0 \<or> 10 ^ k \<le> unat w)"
    and c: "case t of (t, m) \<Rightarrow> t \<le> w"
  obtain x m where t: "t = (x, m)" by (cases t)
  obtain k where k: "k < 9" "unat x = 10 ^ (k + 1)" "m = n + k" using inv t by auto
  have le: "10 ^ (k + 1) \<le> unat w" using c t k by (simp add: word_le_nat_alt)
  have "k + 1 < 9"
  proof (rule ccontr)
    assume "\<not> k + 1 < 9"
    then have "(10::nat) ^ 9 \<le> 10 ^ (k + 1)" by (intro power_increasing) auto
    then show False using le assms by simp
  qed
  then have "(10::nat) ^ (k + 2) \<le> 10 ^ 9" by (intro power_increasing) auto
  then have x: "unat (x * 10) = 10 ^ (k + 2)"
    using k(2) by (subst unat_mult_less) simp_all
  have "unat w + 1 - 10 ^ (k + 2) < unat w + 1 - 10 ^ (k + 1)"
    by (rule diff_less_mono2) (use le in \<open>simp_all add: less_Suc_eq_le\<close>)
  then show "wp (case t of (t, m) \<Rightarrow> Some (t * 10, m + 1))
    (\<lambda>u. (case u of (t, m) \<Rightarrow> \<exists>k. k < 9 \<and> unat t = 10 ^ (k + 1) \<and> m = n + k \<and> (k = 0 \<or> 10 ^ k \<le> unat w))
      \<and> (case u of (t, m) \<Rightarrow> unat w + 1 - unat t) < (case t of (t, m) \<Rightarrow> unat w + 1 - unat t))"
    using t k x le \<open>k + 1 < 9\<close> by (auto intro!: exI [of _ "k + 1"])
next
  fix t :: "u32 \<times> nat"
  assume inv: "case t of (t, m) \<Rightarrow> \<exists>k. k < 9 \<and> unat t = 10 ^ (k + 1) \<and> m = n + k \<and> (k = 0 \<or> 10 ^ k \<le> unat w)"
    and c: "\<not> (case t of (t, m) \<Rightarrow> t \<le> w)"
  obtain x m where t: "t = (x, m)" by (cases t)
  obtain k where k: "k < 9" "unat x = 10 ^ (k + 1)" "m = n + k" "k = 0 \<or> 10 ^ k \<le> unat w" using inv t by auto
  have "unat w < 10 ^ Suc k" using c t k by (simp add: word_le_nat_alt)
  then have "length (rad_str 10 dec_char (unat w)) = Suc k" using k(4) by (intro rad_str_length) auto
  then show "case t of (t, m) \<Rightarrow> m + 1 = n + length (rad_str 10 dec_char (unat w))" using t k by simp
qed

text \<open>The decimal string of a big integer.\<close>

definition minus_sign :: "FklBigInt \<Rightarrow> string" where
  "minus_sign b = (if num b < 0 then ''-'' else [])"

definition dec_str :: "FklBigInt \<Rightarrow> string" where
  "dec_str b = minus_sign b @ rad_str 10 dec_char (mag b)"

text \<open>A buffer whose first \<open>n\<close> characters have been replaced by \<open>t\<close>.\<close>

definition filled :: "(nat \<Rightarrow> string) \<Rightarrow> string \<Rightarrow> nat \<times> string \<Rightarrow> bool" where
  "filled alloc t = (\<lambda>(n, s). n = length t \<and> s = t @ drop n (alloc n))"

lemma rad_str_words:
  assumes r: "dec_repr v ds cnt" and c: "0 < cnt"
  shows "rad_str 10 dec_char v = rad_str 10 dec_char (unat (ds ! (cnt - 1))) @ words_str ds (cnt - 1)"
proof -
  let ?w = "unat (ds ! (cnt - 1))" and ?m = "9 * (cnt - 1)"
  have l: "cnt - 1 < length ds" "cnt \<le> length ds" "words_ok DECIMAL (take (cnt - 1) ds)"
    using r c words_ok_take [of DECIMAL cnt ds "cnt - 1"] by (auto simp: dec_repr_def)
  have e: "DECIMAL ^ (cnt - 1) = 10 ^ ?m" by (simp add: power_mult)
  let ?u = "pval DECIMAL (take (cnt - 1) ds)"
  have v: "v = ?w * 10 ^ ?m + ?u"
    unfolding e [symmetric] using r c pval_take_Suc [OF l(1), of DECIMAL] by (simp add: dec_repr_def mult.commute)
  have u: "?u < 10 ^ ?m" unfolding e [symmetric] using pval_less [OF l(3)] l(1) by simp
  have w: "0 < ?w" using r c by (simp add: dec_repr_def unat_gt_0)
  obtain k where k: "?w < 10 ^ Suc k" "k = 0 \<or> 10 ^ k \<le> ?w" by (rule rad_length_exists [of 10 ?w]) auto
  have up: "v < 10 ^ Suc (k + ?m)"
  proof -
    have "v < (?w + 1) * 10 ^ ?m" using u v by simp
    also have "\<dots> \<le> 10 ^ Suc k * 10 ^ ?m" using k(1) by (intro mult_le_mono1) simp
    finally show ?thesis by (simp add: power_add)
  qed
  have lo: "10 ^ (k + ?m) \<le> v"
  proof -
    have "10 ^ k \<le> ?w" using k(2) w by auto
    then have "10 ^ k * 10 ^ ?m \<le> ?w * 10 ^ ?m" by (rule mult_le_mono1)
    also have "\<dots> \<le> v" using v by simp
    finally show ?thesis by (simp add: power_add)
  qed
  have "rad_str 10 dec_char v = pad 10 dec_char (Suc k + ?m) v"
    using rad_str_pad [of 10 v "k + ?m" dec_char] up lo by simp
  also have "\<dots> = pad 10 dec_char (Suc k) ?w @ pad 10 dec_char ?m ?u"
    unfolding v by (rule pad_append) (use u in simp_all)
  also have "pad 10 dec_char (Suc k) ?w = rad_str 10 dec_char ?w"
    using rad_str_pad [of 10 ?w k dec_char] k by simp
  finally show ?thesis using words_str_pad [of "cnt - 1" ds] l by simp
qed

lemma wp_dec_string:
  assumes a: "bi_wf a" "num a \<noteq> 0" and alloc: "\<And>n. n \<le> length (alloc n)"
  shows "wp (bigint_to_dec_string_buffer a alloc) (filled alloc (dec_str a))"
proof -
  have ok: "len a \<le> length (digits a)" "digits_ok (take (len a) (digits a))"
    using a bi_ok_D [of a] by (auto simp: bi_wf_ok)
  have la: "nat (fklAbs (num a)) = len a" by (simp add: len_def)
  let ?B = "1 + len a + len a div 99"
  obtain ds cnt where D: "dec_digits (digits a) (len a) (zmalloc ?B) = Some (ds, cnt)" "dec_repr (mag a) ds cnt"
    using wp_dec_digits [OF ok, of "zmalloc ?B"] by (auto simp: zmalloc_def mag_def used_def elim!: wpE)
  have m: "0 < mag a" using a mag_pos by blast
  have c: "0 < cnt" using D(2) m by (cases cnt) (auto simp: dec_repr_def)
  then have l: "cnt - 1 < length ds" "cnt \<le> length ds" using D(2) by (auto simp: dec_repr_def)
  let ?w = "ds ! (cnt - 1)" and ?neg = "if num a < 0 then 1 else 0 :: nat"
  have "unat ?w < DECIMAL" using D(2) c l(1) words_ok_nth [of DECIMAL cnt ds "cnt - 1"] by (simp add: dec_repr_def)
  then obtain t n where T: "dec_top_len ?w (?neg + 1 + (cnt - 1) * 9) = Some (t, n)"
    "n + 1 = ?neg + 1 + (cnt - 1) * 9 + length (rad_str 10 dec_char (unat ?w))"
    using wp_dec_top_len [of ?w "?neg + 1 + (cnt - 1) * 9"] by (auto elim!: wpE)
  then have n: "n = ?neg + 9 * (cnt - 1) + length (rad_str 10 dec_char (unat ?w))" by simp
  have w0: "wrote (alloc n) n (alloc n, n) []" using alloc by (simp add: wrote_def)
  have le: "9 * (cnt - 1) \<le> n" "cnt - 1 \<le> length ds" using n l(2) by simp_all
  obtain sp where S: "for_up 0 (cnt - 1) (\<lambda>i (s, p). do { rem \<leftarrow> rd ds i; (s, p, rem) \<leftarrow> put_nine s p rem; Some (s, p) }) (alloc n, n)
      = Some sp" "wrote (alloc n) n sp (words_str ds (cnt - 1))"
    by (rule wpE [OF wp_put_words [OF w0 le]])
  obtain s p where sp: "sp = (s, p)" by (cases sp)
  have "length (rad_str 10 dec_char (unat ?w)) + length (words_str ds (cnt - 1)) \<le> n" using n by simp
  then obtain sp' where S': "put_rem s p ?w = Some sp'"
    "wrote (alloc n) n sp' (rad_str 10 dec_char (unat ?w) @ words_str ds (cnt - 1))"
    by (rule wpE [OF wp_put_rem [OF S(2) [unfolded sp]]])
  obtain s' p' where sp': "sp' = (s', p')" by (cases sp')
  have S'2: "wrote (alloc n) n (s', p') (rad_str 10 dec_char (mag a))"
    using S'(2) rad_str_words [OF D(2) c] sp' by simp
  have ln: "length (rad_str 10 dec_char (mag a)) + ?neg = n" using n rad_str_words [OF D(2) c] by simp
  have fin: "wp (if num a < 0 then put_down s' p' CHR ''-'' else Some (s', p')) (\<lambda>r. wrote (alloc n) n r (dec_str a))"
  proof (cases "num a < 0")
    case True
    then show ?thesis using wp_put_down [OF S'2, of "CHR ''-''"] ln by (simp add: dec_str_def minus_sign_def)
  next
    case False
    then show ?thesis using S'2 by (simp add: dec_str_def minus_sign_def)
  qed
  have lt: "n = length (dec_str a)" using ln by (auto simp: dec_str_def minus_sign_def)
  have eq: "bigint_to_dec_string_buffer a alloc
    = do { (s, p) \<leftarrow> (if num a < 0 then put_down s' p' CHR ''-'' else Some (s', p')); Some (n, s) }"
  proof -
    have r: "rd ds (cnt - 1) = Some ?w" using l(1) by (simp add: rd_def)
    have n: "num a < 0 \<Longrightarrow> nat (- num a) = len a" "\<not> num a < 0 \<Longrightarrow> nat (num a) = len a" by (simp_all add: len_def)
    show ?thesis using a(2) c D(1) T(1) S(1) S'(1) sp sp' r
      by (cases "num a < 0") (simp_all add: bigint_to_dec_string_buffer_def FKL_ASSERT_def Let_def n)
  qed
  show ?thesis unfolding eq wp_simps
    by (rule wp_mono [OF fin]) (use lt in \<open>auto simp: filled_def dest!: wrote_0\<close>)
qed

section \<open>Octal and hexadecimal digits\<close>

definition bin_str :: "nat \<Rightarrow> bool \<Rightarrow> string \<Rightarrow> FklBigInt \<Rightarrow> string" where
  "bin_str bits capitals prefix b = minus_sign b @ prefix @ rad_str (2 ^ bits) (bin_char capitals) (mag b)"

lemma wp_bin_put:
  assumes "wrote s0 n (s, p) suf" "length suf < n"
  shows "wp (bin_put bits caps (s, p, accum, ab)) (\<lambda>(s, p, accum', ab').
    wrote s0 n (s, p) (bin_char caps (unat accum mod 2 ^ bits) # suf)
    \<and> unat accum' = unat accum div 2 ^ bits \<and> ab' = ab - int bits)"
proof -
  have "2 ^ bits - 1 = (mask bits :: u64)" by (simp add: mask_eq_exp_minus_1)
  then have m: "unat (accum AND (2 ^ bits - 1)) = unat accum mod 2 ^ bits" by (simp add: unat_and_mask_mod)
  show ?thesis using wp_put_down [OF assms, of "bin_char caps (unat accum mod 2 ^ bits)"]
    by (auto simp: bin_put_def push_bit_of_1 m unat_drop_bit_div elim!: wp_mono)
qed

text \<open>
  The state while the characters of the number \<open>v\<close> are written: \<open>k\<close> of them are there, the
  accumulator holds what is left of the digits read so far, whose value is \<open>u\<close>.
\<close>

definition bin_inv :: "string \<Rightarrow> nat \<Rightarrow> nat \<Rightarrow> bool \<Rightarrow> nat \<Rightarrow> nat \<Rightarrow> nat \<Rightarrow> string \<times> nat \<times> FklBigIntTwoDigit \<times> int \<Rightarrow> bool" where
  "bin_inv s0 n bits caps v u k = (\<lambda>(s, p, accum, ab).
     wrote s0 n (s, p) (pad (2 ^ bits) (bin_char caps) k v) \<and> unat accum = u div 2 ^ (bits * k))"

lemma bin_inv_put:
  assumes inv: "bin_inv s0 n bits caps v u k (s, p, accum, ab)" and k: "k < n"
    and eq: "v div 2 ^ (bits * k) mod 2 ^ bits = u div 2 ^ (bits * k) mod 2 ^ bits"
  shows "wp (bin_put bits caps (s, p, accum, ab)) (\<lambda>t. bin_inv s0 n bits caps v u (Suc k) t
    \<and> snd (snd (snd t)) = ab - int bits \<and> unat (fst (snd (snd t))) = unat accum div 2 ^ bits)"
proof -
  have w: "wrote s0 n (s, p) (pad (2 ^ bits) (bin_char caps) k v)" "unat accum = u div 2 ^ (bits * k)"
    using inv by (simp_all add: bin_inv_def)
  have "pad (2 ^ bits) (bin_char caps) (Suc k) v
      = bin_char caps (unat accum mod 2 ^ bits) # pad (2 ^ bits) (bin_char caps) k v"
    unfolding pad_Suc_left using eq w(2) by (simp add: power_mult)
  moreover have "u div 2 ^ (bits * Suc k) = unat accum div 2 ^ bits"
    unfolding w(2) by (simp only: div_mult2_eq [symmetric] power_add [symmetric] mult_Suc_right add.commute)
  ultimately show ?thesis
    by (intro wp_mono [OF wp_bin_put [OF w(1)]]) (use k in \<open>auto simp: bin_inv_def\<close>)
qed

text \<open>A digit that is not the last one: the loop ends with fewer bits than a character needs.\<close>

lemma wp_bin_digit:
  assumes inv: "bin_inv s0 n bits caps v u k (s, p, accum, ab)"
    and ab: "ab = int m - int (bits * k)" "int bits \<le> ab" "0 < bits"
    and v: "v mod 2 ^ m = u" and n: "m div bits \<le> n"
  shows "wp (do { st \<leftarrow> bin_put bits caps (s, p, accum, ab);
      while_m (\<lambda>(s, p, accum, ab). ab \<ge> int bits) (bin_put bits caps) st })
    (\<lambda>(s, p, accum, ab). \<exists>k. bin_inv s0 n bits caps v u k (s, p, accum, ab)
      \<and> ab = int m - int (bits * k) \<and> 0 \<le> ab \<and> ab < int bits)"
proof -
  let ?J = "\<lambda>t. \<exists>k. bin_inv s0 n bits caps v u k t \<and> snd (snd (snd t)) = int m - int (bits * k) \<and> 0 \<le> snd (snd (snd t))"
  have step: "wp (bin_put bits caps t) (\<lambda>w. ?J w \<and> nat (snd (snd (snd w))) < nat (snd (snd (snd t))))"
    if J: "?J t" and b: "int bits \<le> snd (snd (snd t))" for t
  proof -
    obtain s p accum ab where t: "t = (s, p, accum, ab)" by (metis prod_cases4)
    obtain k where k: "bin_inv s0 n bits caps v u k (s, p, accum, ab)" "ab = int m - int (bits * k)" using J t by auto
    have "int (bits * Suc k) \<le> int m" using k(2) b t by (simp add: algebra_simps)
    then have km: "bits * Suc k \<le> m" by (simp only: of_nat_le_iff)
    then have "Suc k \<le> m div bits" using ab(3) by (simp add: less_eq_div_iff_mult_less_eq mult.commute)
    then have kn: "k < n" using n by simp
    have "u div 2 ^ (bits * k) mod 2 ^ bits = u mod 2 ^ (bits * Suc k) div 2 ^ (bits * k)"
      by (simp add: power_add mult.commute [of "2 ^ bits"] mod_mult2_eq)
    moreover have "v div 2 ^ (bits * k) mod 2 ^ bits = v mod 2 ^ (bits * Suc k) div 2 ^ (bits * k)"
      by (simp add: power_add mult.commute [of "2 ^ bits"] mod_mult2_eq)
    moreover have "u mod 2 ^ (bits * Suc k) = v mod 2 ^ (bits * Suc k)"
      unfolding v [symmetric] by (rule mod_mod_cancel) (rule le_imp_power_dvd [OF km])
    ultimately have eq: "v div 2 ^ (bits * k) mod 2 ^ bits = u div 2 ^ (bits * k) mod 2 ^ bits" by simp
    show ?thesis unfolding t
      by (rule wp_mono [OF bin_inv_put [OF k(1) kn eq]])
        (use k(2) b t ab(3) in \<open>auto intro!: exI [of _ "Suc k"] simp: algebra_simps\<close>)
  qed
  have W: "wp (while_m (\<lambda>(s, p, accum, ab). ab \<ge> int bits) (bin_put bits caps) t)
    (\<lambda>(s, p, accum, ab). \<exists>k. bin_inv s0 n bits caps v u k (s, p, accum, ab)
      \<and> ab = int m - int (bits * k) \<and> 0 \<le> ab \<and> ab < int bits)" if "?J t" for t
    by (rule wp_while_m [where I = ?J and \<mu> = "\<lambda>t. nat (snd (snd (snd t)))"])
      (use that step in \<open>auto simp: case_prod_beta\<close>)
  have "?J (s, p, accum, ab)" using inv ab by auto
  then have "wp (bin_put bits caps (s, p, accum, ab)) ?J"
    by (intro wp_mono [OF step]) (use ab in auto)
  then show ?thesis by (rule wp_bind) (rule W)
qed

text \<open>The last digit: the loop ends when nothing is left.\<close>

lemma wp_bin_last:
  assumes inv: "bin_inv s0 n bits caps v v k (s, p, accum, ab)"
    and v: "2 ^ (bits * k) \<le> v" "0 < bits" and n: "length (rad_str (2 ^ bits) (bin_char caps) v) \<le> n"
  shows "wp (do { st \<leftarrow> bin_put bits caps (s, p, accum, ab);
      while_m (\<lambda>(s, p, accum, ab). accum > 0) (bin_put bits caps) st })
    (\<lambda>(s, p, accum, ab). wrote s0 n (s, p) (rad_str (2 ^ bits) (bin_char caps) v))"
proof -
  have b: "2 \<le> (2::nat) ^ bits" using v(2) power_increasing [of 1 bits "2::nat"] by simp
  have pm: "((2::nat) ^ bits) ^ j = 2 ^ (bits * j)" for j by (simp add: power_mult)
  have kn: "j < n" if "2 ^ (bits * j) \<le> v" for j
  proof -
    obtain i where i: "v < (2 ^ bits) ^ Suc i" "i = 0 \<or> (2 ^ bits) ^ i \<le> v" by (rule rad_length_exists [OF b])
    have "(2::nat) ^ (bits * j) < 2 ^ (bits * Suc i)" using that i(1) unfolding pm by linarith
    then have "bits * j < bits * Suc i" by (rule power_less_imp_less_exp [rotated]) simp
    then have "j < Suc i" by (simp only: mult_less_cancel1)
    moreover have "length (rad_str (2 ^ bits) (bin_char caps) v) = Suc i" using i by (rule rad_str_length [OF b])
    ultimately show ?thesis using n by simp
  qed
  let ?J = "\<lambda>t. \<exists>k. bin_inv s0 n bits caps v v (Suc k) t \<and> 2 ^ (bits * k) \<le> v"
  have put: "wp (bin_put bits caps t) (\<lambda>w. ?J w \<and> unat (fst (snd (snd w))) = unat (fst (snd (snd t))) div 2 ^ bits)"
    if t: "bin_inv s0 n bits caps v v k t" and k: "2 ^ (bits * k) \<le> v" for k t
  proof -
    obtain s p accum ab where e: "t = (s, p, accum, ab)" by (metis prod_cases4)
    show ?thesis unfolding e
      by (rule wp_mono [OF bin_inv_put [OF t [unfolded e] kn [OF k] refl]]) (use k in auto)
  qed
  have W: "wp (while_m (\<lambda>(s, p, accum, ab). accum > 0) (bin_put bits caps) t)
    (\<lambda>(s, p, accum, ab). wrote s0 n (s, p) (rad_str (2 ^ bits) (bin_char caps) v))" if "?J t" for t
  proof (rule wp_while_m [where I = ?J and \<mu> = "\<lambda>t. unat (fst (snd (snd t)))", OF that])
    fix t
    assume J: "?J t" and c: "case t of (s, p, accum, ab) \<Rightarrow> accum > 0"
    obtain s p accum ab where e: "t = (s, p, accum, ab)" by (metis prod_cases4)
    obtain k where k: "bin_inv s0 n bits caps v v (Suc k) t" using J by blast
    have a: "0 < unat accum" using c e by (simp add: unat_gt_0 word_gt_0)
    moreover have "unat accum = v div 2 ^ (bits * Suc k)" using k e by (simp add: bin_inv_def)
    ultimately have "2 ^ (bits * Suc k) \<le> v" by (simp add: div_greater_zero_iff)
    then show "wp (bin_put bits caps t) (\<lambda>u. ?J u \<and> unat (fst (snd (snd u))) < unat (fst (snd (snd t))))"
      using a b by (intro wp_mono [OF put [OF k]]) (auto simp: e)
  next
    fix t
    assume J: "?J t" and c: "\<not> (case t of (s, p, accum, ab) \<Rightarrow> accum > 0)"
    obtain s p accum ab where e: "t = (s, p, accum, ab)" by (metis prod_cases4)
    obtain k where k: "bin_inv s0 n bits caps v v (Suc k) t" "2 ^ (bits * k) \<le> v" using J by blast
    have "v div 2 ^ (bits * Suc k) = 0" using k(1) c e by (simp add: bin_inv_def word_gt_0)
    then have "v < (2 ^ bits) ^ Suc k" unfolding pm by (simp add: div_eq_0_iff)
    then have "rad_str (2 ^ bits) (bin_char caps) v = pad (2 ^ bits) (bin_char caps) (Suc k) v"
      using k(2) by (intro rad_str_pad [OF b]) (auto simp: pm)
    then show "case t of (s, p, accum, ab) \<Rightarrow> wrote s0 n (s, p) (rad_str (2 ^ bits) (bin_char caps) v)"
      using k(1) e by (simp add: bin_inv_def del: pad.simps)
  qed
  have "wp (bin_put bits caps (s, p, accum, ab)) ?J" by (rule wp_mono [OF put [OF inv v(1)]]) blast
  then show ?thesis by (rule wp_bind) (rule W)
qed

lemma rad_str_bits:
  assumes "is_bit_length v r" "0 < v" "0 < bits"
  shows "length (rad_str (2 ^ bits) f v) = (r + (bits - 1)) div bits"
proof -
  have b: "2 \<le> (2::nat) ^ bits" using assms(3) power_increasing [of 1 bits "2::nat"] by simp
  have pm: "((2::nat) ^ bits) ^ j = 2 ^ (bits * j)" for j by (simp add: power_mult)
  obtain k where k: "v < (2 ^ bits) ^ Suc k" "k = 0 \<or> (2 ^ bits) ^ k \<le> v" by (rule rad_length_exists [OF b])
  have r: "v < 2 ^ r" "2 ^ (r - 1) \<le> v" "0 < r" using assms by (auto simp: is_bit_length_def)
  have "2 ^ (bits * k) \<le> v" using k(2) assms(2) by (auto simp: pm)
  then have "(2::nat) ^ (bits * k) < 2 ^ r" using r(1) by linarith
  then have 1: "bits * k < r" by simp
  have "(2::nat) ^ (r - 1) < 2 ^ (bits * Suc k)" using r(2) k(1) unfolding pm by linarith
  then have 2: "r - 1 < bits * Suc k" by simp
  have "(r + (bits - 1)) div bits = Suc k"
    using 1 2 r(3) assms(3) by (intro div_nat_eqI) (simp_all add: mult.commute)
  then show ?thesis using rad_str_length [OF b k] by simp
qed

lemma BASE_power: "BASE ^ i = 2 ^ (30 * i)"
  by (simp add: BASE_def power_mult)

lemma bit_length_mag:
  assumes a: "bi_wf a" "num a \<noteq> 0" and l: "is_bit_length (unat (digits a ! (len a - 1))) l"
  shows "is_bit_length (mag a) ((len a - 1) * 30 + l)"
proof -
  have ok: "len a \<le> length (digits a)" "digits_ok (take (len a) (digits a))" "0 < len a"
    using a bi_ok_D [of a] by (auto simp: bi_wf_ok len_def)
  let ?i = "len a - 1" and ?d = "unat (digits a ! (len a - 1))"
  have i: "?i < length (digits a)" "len a = Suc ?i" using ok by simp_all
  have v: "mag a = val (take ?i (digits a)) + BASE ^ ?i * ?d"
    using val_take_Suc [OF i(1)] i(2) by (simp add: mag_def used_def)
  have u: "val (take ?i (digits a)) < BASE ^ ?i"
    using ok by (intro val_take_less) (auto intro: digits_ok_take)
  have d: "0 < ?d" using a by (auto simp: bi_wf_def unat_gt_0)
  then have L: "?d < 2 ^ l" "2 ^ (l - 1) \<le> ?d" "0 < l" using l by (auto simp: is_bit_length_def)
  have B: "BASE ^ ?i = 2 ^ (?i * 30)" by (simp only: BASE_power mult.commute)
  have "mag a < BASE ^ ?i * (?d + 1)" using u v by simp
  also have "\<dots> \<le> BASE ^ ?i * 2 ^ l" using L by (intro mult_le_mono2) simp
  finally have 1: "mag a < 2 ^ (?i * 30 + l)" unfolding power_add B .
  have "BASE ^ ?i * 2 ^ (l - 1) \<le> BASE ^ ?i * ?d" using L by (intro mult_le_mono2)
  then have "BASE ^ ?i * 2 ^ (l - 1) \<le> mag a" unfolding v by (rule trans_le_add2)
  then have "2 ^ (?i * 30 + (l - 1)) \<le> mag a" unfolding power_add B .
  moreover have "?i * 30 + l - 1 = ?i * 30 + (l - 1)" using L(3) by simp
  ultimately show ?thesis using 1 L(3) d v by (auto simp: is_bit_length_def)
qed

text \<open>Adding a digit to the accumulator.\<close>

lemma bin_inv_digit:
  assumes inv: "bin_inv s0 n bits caps v u k (s, p, accum, ab)"
    and ab: "ab = int (30 * i) - int (bits * k)" "0 \<le> ab" "ab < int bits" "bits \<le> 30"
    and u: "u < BASE ^ i" and d: "unat d < BASE"
  shows "bin_inv s0 n bits caps v (u + BASE ^ i * unat d) k (s, p, accum OR push_bit (nat ab) (ucast (d :: u32)), ab')"
proof -
  have k: "bits * k \<le> 30 * i" "nat ab = 30 * i - bits * k" using ab by linarith+
  have B: "BASE ^ i = 2 ^ (bits * k) * 2 ^ nat ab"
    unfolding BASE_power power_add [symmetric] using k by simp
  have a: "unat accum = u div 2 ^ (bits * k)" using inv by (simp add: bin_inv_def)
  then have al: "unat accum < 2 ^ nat ab" using u by (simp add: B div_less_iff_less_mult mult.commute)
  have "2 ^ nat ab * unat d + unat accum < 2 ^ nat ab * (unat d + 1)" using al by simp
  also have "\<dots> \<le> 2 ^ 30 * BASE" using ab d by (intro mult_le_mono power_increasing) auto
  finally have "2 ^ nat ab * unat d + unat accum < 2 ^ LENGTH(64)" by (simp add: BASE_def)
  then have "unat (accum OR push_bit (nat ab) (ucast d)) = unat accum + 2 ^ nat ab * unat d"
    using al by (subst or_push_bit) simp_all
  also have "\<dots> = (u + 2 ^ (bits * k) * (2 ^ nat ab * unat d)) div 2 ^ (bits * k)"
    unfolding a by simp
  finally show ?thesis using inv by (simp add: bin_inv_def B mult.assoc)
qed

lemma wp_bin_digits:
  assumes N: "0 < N" "N \<le> length ds" "digits_ok (take N ds)" "ds ! (N - 1) \<noteq> 0" and bits: "0 < bits" "bits \<le> 30"
    and w0: "wrote s0 n (s, p) []" and n: "length (rad_str (2 ^ bits) (bin_char caps) (val (take N ds))) \<le> n"
  shows "wp (bin_digits bits caps ds N s p) (\<lambda>(s, p, accum, ab).
    wrote s0 n (s, p) (rad_str (2 ^ bits) (bin_char caps) (val (take N ds))))"
proof -
  let ?v = "val (take N ds)" and ?V = "\<lambda>i. val (take i ds)"
  let ?I = "\<lambda>i t. if i < N
    then \<exists>k. bin_inv s0 n bits caps ?v (?V i) k t \<and> (case t of (s, p, accum, ab) \<Rightarrow>
      ab = int (30 * i) - int (bits * k) \<and> 0 \<le> ab \<and> ab < int bits)
    else case t of (s, p, accum, ab) \<Rightarrow> wrote s0 n (s, p) (rad_str (2 ^ bits) (bin_char caps) ?v)"
  note B = BASE_power
  have top: "BASE ^ (N - 1) \<le> ?v"
  proof -
    have "0 < unat (ds ! (N - 1))" using N(4) by (simp add: unat_gt_0)
    then have "BASE ^ (N - 1) \<le> BASE ^ (N - 1) * unat (ds ! (N - 1))" by simp
    also have "\<dots> \<le> ?v" using val_take_Suc [of "N - 1" ds] N(1,2) by simp
    finally show ?thesis .
  qed
  show ?thesis unfolding bin_digits_def
  proof (rule wp_for_up [where I = ?I])
    show "?I 0 (s, p, 0, 0)" using N(1) w0 bits(1)
      by (auto simp: bin_inv_def intro!: exI [of _ 0])
  next
    fix i and t :: "string \<times> nat \<times> FklBigIntTwoDigit \<times> int"
    assume i: "0 \<le> i" "i < N" and I: "?I i t"
    obtain s p accum ab where t: "t = (s, p, accum, ab)" by (metis prod_cases4)
    obtain k where k: "bin_inv s0 n bits caps ?v (?V i) k (s, p, accum, ab)"
      "ab = int (30 * i) - int (bits * k)" "0 \<le> ab" "ab < int bits" using I i t by auto
    have l: "i < length ds" using i N by simp
    have rdi: "rd ds i = Some (ds ! i)" using l by (simp add: rd_def)
    have d: "unat (ds ! i) < BASE" using N i l by (auto intro: digits_ok_nth)
    have Vi: "?V i < BASE ^ i" using N i by (intro val_take_less) (auto intro: digits_ok_take)
    let ?a = "accum OR push_bit (nat ab) (ucast (ds ! i))"
    have inv: "bin_inv s0 n bits caps ?v (?V (Suc i)) k (s, p, ?a, ab + 30)"
      using bin_inv_digit [OF k bits(2) Vi d] l by (simp add: val_take_Suc)
    have step: "wp (do { st \<leftarrow> bin_put bits caps (s, p, ?a, ab + 30);
        while_m (\<lambda>(s, p, accum, accumbits). if i < N - 1 then accumbits \<ge> int bits else accum > 0)
          (bin_put bits caps) st }) (?I (Suc i))"
    proof (cases "i < N - 1")
      case True
      have "?v = ?V (Suc i) + BASE ^ Suc i * val (drop (Suc i) (take N ds))"
        using val_take_drop [of "Suc i" "take N ds"] True N(2) by (simp add: min_def)
      moreover have "?V (Suc i) < BASE ^ Suc i" using N True by (intro val_take_less) (auto intro: digits_ok_take)
      ultimately have vm: "?v mod 2 ^ (30 * Suc i) = ?V (Suc i)" unfolding B [symmetric] by simp
      have "30 * Suc i div bits \<le> n"
      proof -
        have "2 \<le> (2::nat) ^ bits" using bits(1) power_increasing [of 1 bits "2::nat"] by simp
        then obtain j where j: "?v < (2 ^ bits) ^ Suc j" "j = 0 \<or> (2 ^ bits) ^ j \<le> ?v"
          "length (rad_str (2 ^ bits) (bin_char caps) ?v) = Suc j"
          using rad_length_exists [of "2 ^ bits" ?v] rad_str_length by metis
        have "BASE ^ Suc i \<le> BASE ^ (N - 1)" using True by (intro power_increasing) auto
        then have "2 ^ (30 * Suc i) \<le> ?v" using top unfolding B by linarith
        then have "(2::nat) ^ (30 * Suc i) < 2 ^ (bits * Suc j)" using j(1) unfolding power_mult by linarith
        then have "30 * Suc i < bits * Suc j" by (rule power_less_imp_less_exp [rotated]) simp
        then have "30 * Suc i div bits < Suc j" using bits(1) by (simp add: div_less_iff_less_mult mult.commute)
        then show ?thesis using n j(3) by linarith
      qed
      moreover have "ab + 30 = int (30 * Suc i) - int (bits * k)" "int bits \<le> ab + 30" using k(2-) bits by auto
      ultimately show ?thesis
        using wp_bin_digit [OF inv _ _ bits(1) vm] True by (auto simp: case_prod_beta elim!: wp_mono)
    next
      case False
      then have N': "Suc i = N" using i by simp
      have "bits * k \<le> 30 * i" using k(2,3) by linarith
      then have "2 ^ (bits * k) \<le> BASE ^ i" unfolding B by (intro power_increasing) auto
      then have "2 ^ (bits * k) \<le> ?v" using top N' by (metis diff_Suc_1 order_trans)
      then show ?thesis
        using wp_bin_last [OF inv [unfolded N'] _ bits(1) n] False N' by (auto simp: case_prod_beta elim!: wp_mono)
    qed
    have "int bits \<le> ab + 30" using k(3) bits(2) by simp
    then show "wp (case t of (s, p, accum, accumbits) \<Rightarrow> do {
       d \<leftarrow> rd ds i;
       let accum = accum OR push_bit (nat accumbits) (ucast d);
       let accumbits = accumbits + int FKL_BIGINT_DIGIT_SHIFT;
       FKL_ASSERT (accumbits \<ge> int bits);
       st \<leftarrow> bin_put bits caps (s, p, accum, accumbits);
       while_m (\<lambda>(s, p, accum, accumbits). if i < N - 1 then accumbits \<ge> int bits else accum > 0)
         (bin_put bits caps) st }) (?I (Suc i))"
      using step unfolding t by (simp add: rdi Let_def FKL_ASSERT_def)
  qed (use N in auto)
qed

lemma wp_put_string:
  assumes "wrote s0 n (s, p) suf" "length suf + length t \<le> n"
  shows "wp (put_string s p t) (\<lambda>r. wrote s0 n r (t @ suf))"
  using assms by (auto simp: put_string_def wrote_def)

lemma wp_bin_string:
  assumes a: "bi_wf a" "num a \<noteq> 0" and alloc: "\<And>n. n \<le> length (alloc n)"
    and bits: "base = 16 \<and> bits = 4 \<or> base = 8 \<and> bits = 3"
    and caps: "caps \<longleftrightarrow> flags AND FKL_BIGINT_FMT_FLAG_CAPITALS \<noteq> 0"
    and prefix: "prefix = (if flags AND FKL_BIGINT_FMT_FLAG_ALTERNATE \<noteq> 0 then alt_str else [])"
  shows "wp (bigint_to_bin_string_buffer a alloc base flags alt_str) (filled alloc (bin_str bits caps prefix a))"
proof -
  have ok: "len a \<le> length (digits a)" "digits_ok (take (len a) (digits a))"
    using a bi_ok_D [of a] by (auto simp: bi_wf_ok)
  have la: "nat (fklAbs (num a)) = len a" "0 < len a" using a(2) by (simp_all add: len_def)
  have msd: "rd (digits a) (len a - 1) = Some (digits a ! (len a - 1))" using ok la by (simp add: rd_def)
  obtain l where l: "bit_length_digit (ucast (digits a ! (len a - 1))) = Some l"
    "is_bit_length (unat (digits a ! (len a - 1))) l"
    using wp_bit_length_digit [of "ucast (digits a ! (len a - 1))"] by (auto elim!: wpE)
  have B: "0 < bits" "bits \<le> 30" using bits by auto
  let ?r = "rad_str (2 ^ bits) (bin_char caps) (mag a)" and ?neg = "if num a < 0 then 1 else 0 :: nat"
  have lr: "length ?r = ((len a - 1) * 30 + l + (bits - 1)) div bits"
    using rad_str_bits [OF bit_length_mag [OF a l(2)] mag_pos B(1)] a by blast
  define n where "n = ?neg + ((len a - 1) * 30 + l + (bits - 1)) div bits + length prefix"
  then have n: "n = ?neg + length ?r + length prefix" using lr by simp
  have w0: "wrote (alloc n) n (alloc n, n) []" using alloc by (simp add: wrote_def)
  have "wp (bin_digits bits caps (digits a) (len a) (alloc n) n) (\<lambda>(s, p, accum, ab). wrote (alloc n) n (s, p) ?r)"
    unfolding mag_def used_def
    by (rule wp_bin_digits) (use la ok B w0 n a in \<open>auto simp: bi_wf_def mag_def used_def\<close>)
  then obtain s p x y where D: "bin_digits bits caps (digits a) (len a) (alloc n) n = Some (s, p, x, y)"
    "wrote (alloc n) n (s, p) ?r" by (auto elim!: wpE)
  have "wp (if flags AND FKL_BIGINT_FMT_FLAG_ALTERNATE \<noteq> 0 then put_string s p alt_str else Some (s, p))
    (\<lambda>r. wrote (alloc n) n r (prefix @ ?r))"
    using wp_put_string [OF D(2), of alt_str] D(2) n prefix by auto
  then obtain sp where P: "(if flags AND FKL_BIGINT_FMT_FLAG_ALTERNATE \<noteq> 0 then put_string s p alt_str else Some (s, p)) = Some sp"
    "wrote (alloc n) n sp (prefix @ ?r)" by (rule wpE)
  obtain s' p' where sp: "sp = (s', p')" by (cases sp)
  have fin: "wp (if num a < 0 then put_down s' p' CHR ''-'' else Some (s', p'))
      (\<lambda>r. wrote (alloc n) n r (bin_str bits caps prefix a))"
    using wp_put_down [OF P(2) [unfolded sp], of "CHR ''-''"] P(2) sp n
    by (auto simp: bin_str_def minus_sign_def)
  have lt: "n = length (bin_str bits caps prefix a)" using n by (auto simp: bin_str_def minus_sign_def)
  have eq: "bigint_to_bin_string_buffer a alloc base flags alt_str
    = do { (s, p) \<leftarrow> (if num a < 0 then put_down s' p' CHR ''-'' else Some (s', p')); Some (n, s) }"
  proof -
    have b: "(if base = 16 then Some HEX_BIT_COUNT else if base = 8 then Some OCT_BIT_COUNT else None) = Some bits"
      using bits by auto
    have lp: "length prefix = (if flags AND FKL_BIGINT_FMT_FLAG_ALTERNATE \<noteq> 0 then length alt_str else 0)"
      using prefix by simp
    have asrt: "FKL_ASSERT (num a \<noteq> 0) = Some ()" using a(2) by (simp add: FKL_ASSERT_def)
    show ?thesis
      unfolding bigint_to_bin_string_buffer_def b la(1) Let_def Option.bind.simps asrt msd l(1) caps [symmetric]
        lp [symmetric] n_def [symmetric] D(1) P(1) sp prod.case ..
  qed
  show ?thesis unfolding eq wp_simps
    by (rule wp_mono [OF fin]) (use lt in \<open>auto simp: filled_def dest!: wrote_0\<close>)
qed

section \<open>Any radix\<close>

definition str_of :: "FklBigInt \<Rightarrow> nat \<Rightarrow> u32 \<Rightarrow> string" where
  "str_of a radix flags =
     (let caps = (flags AND FKL_BIGINT_FMT_FLAG_CAPITALS \<noteq> 0); alt = (flags AND FKL_BIGINT_FMT_FLAG_ALTERNATE \<noteq> 0) in
      if num a = 0 then ''0''
      else if radix = 10 then dec_str a
      else if radix = 8 then bin_str 3 caps (if alt then ''0'' else []) a
      else bin_str 4 caps (if alt then (if caps then ''0X'' else ''0x'') else []) a)"

lemma wp_fklBigIntToStr:
  assumes a: "bi_wf a" and radix: "radix \<in> {8, 10, 16}" and alloc: "\<And>n. n \<le> length (alloc n)"
  shows "wp (fklBigIntToStr a alloc radix flags) (filled alloc (str_of a radix flags))"
proof -
  have z: "FKL_BIGINT_IS_0 a = Some (num a = 0)"
    using wp_IS_small(1) [OF a] bi_val_0_iff [OF a] by (auto elim!: wpE)
  have w: "wr (alloc 1) 0 CHR ''0'' = Some (''0'' @ drop 1 (alloc 1))"
    using alloc [of 1] by (cases "alloc 1") (auto simp: wr_def)
  show ?thesis
  proof (cases "num a = 0")
    case True
    then show ?thesis using z w by (simp add: fklBigIntToStr_def str_of_def filled_def)
  next
    case False
    then show ?thesis using radix wp_dec_string [OF a False alloc]
        wp_bin_string [OF a False alloc, where base = 8 and bits = 3 and flags = flags]
        wp_bin_string [OF a False alloc, where base = 16 and bits = 4 and flags = flags]
      by (auto simp: fklBigIntToStr_def str_of_def z Let_def)
  qed
qed

section \<open>Reading what has been written\<close>

lemma rad_str_hd:
  "2 \<le> b \<Longrightarrow> 0 < n \<Longrightarrow> \<exists>d r. rad_str b f n = f d # r \<and> 0 < d \<and> d < b"
proof (induction b f n rule: rad_str.induct)
  case (1 b f n)
  show ?case
  proof (cases "n < b")
    case True
    then show ?thesis using "1.prems" by (subst rad_str.simps) auto
  next
    case False
    then have "0 < n div b" using "1.prems" by (simp add: div_greater_zero_iff)
    then obtain d r where "rad_str b f (n div b) = f d # r" "0 < d" "d < b" using "1.IH" False "1.prems" by auto
    then show ?thesis using False "1.prems" by (subst rad_str.simps) auto
  qed
qed

lemma set_rad_str: "2 \<le> b \<Longrightarrow> set (rad_str b f n) \<subseteq> f ` {..<b}"
proof (induction b f n rule: rad_str.induct)
  case (1 b f n)
  show ?case
  proof (cases "n < b")
    case False
    then show ?thesis using "1.prems" "1.IH" by (subst rad_str.simps) (auto intro!: image_eqI [of _ _ "n mod b"])
  qed (subst rad_str.simps, use "1.prems" in auto)
qed

lemma num_of_rad_str:
  assumes "2 \<le> b" "\<And>d. d < b \<Longrightarrow> char_digit (f d) = d"
  shows "num_of b (rad_str b f n) = n"
proof -
  obtain k where k: "n < b ^ Suc k" "k = 0 \<or> b ^ k \<le> n" by (rule rad_length_exists [OF assms(1)])
  show ?thesis using num_of_pad [OF assms(2) k(1)] rad_str_pad [OF assms(1) k] by simp
qed

lemma dec_char_digit: "d < 10 \<Longrightarrow> is_digit (dec_char d) \<and> char_digit (dec_char d) = d
    \<and> (dec_char d = CHR ''0'' \<longleftrightarrow> d = 0)"
proof -
  have "\<forall>d \<in> set [0..<10]. is_digit (dec_char d) \<and> char_digit (dec_char d) = d \<and> (dec_char d = CHR ''0'' \<longleftrightarrow> d = 0)"
    by code_simp
  then show "d < 10 \<Longrightarrow> ?thesis" by simp
qed

lemma bin_char_digit: "d < 16 \<Longrightarrow> is_xdigit (bin_char caps d) \<and> char_digit (bin_char caps d) = d"
proof -
  have "\<forall>c \<in> set [False, True]. \<forall>d \<in> set [0..<16]. is_xdigit (bin_char c d) \<and> char_digit (bin_char c d) = d"
    by code_simp
  then show "d < 16 \<Longrightarrow> ?thesis" by (cases caps) simp_all
qed

lemma signed_minus: "t \<noteq> [] \<Longrightarrow> hd t \<noteq> CHR ''-'' \<Longrightarrow> hd t \<noteq> CHR ''+'' \<Longrightarrow>
    opt_sign (minus_sign a @ t) = t \<and> signed_num (minus_sign a @ t) m = (if num a < 0 then - int m else int m)"
  by (auto simp: minus_sign_def opt_sign_def signed_num_def)

lemma dec_str_literal:
  assumes "bi_wf a" "num a \<noteq> 0"
  shows "dec_int (dec_str a)" "literal_value (dec_str a) = bi_val a"
proof -
  let ?r = "rad_str 10 dec_char (mag a)"
  have m: "0 < mag a" using assms mag_pos by blast
  obtain d r where r: "?r = dec_char d # r" "0 < d" "d < 10" using rad_str_hd [of 10 "mag a" dec_char] m by auto
  have ds: "list_all is_digit ?r"
    using set_rad_str [of 10 dec_char "mag a"] dec_char_digit by (auto simp: list_all_iff)
  have hd: "is_digit (dec_char d)" "dec_char d \<noteq> CHR ''0''" using dec_char_digit [OF r(3)] r(2) by simp_all
  have sg: "opt_sign (dec_str a) = ?r" "signed_num (dec_str a) n = (if num a < 0 then - int n else int n)" for n
    using signed_minus [of ?r a n] r hd by (auto simp: dec_str_def char_class)
  show d: "dec_int (dec_str a)" using sg(1) r(1) ds hd by (auto simp: dec_int_def)
  then have "\<not> hex_int (dec_str a)" "\<not> oct_int (dec_str a)" using integer_languages_disjoint by blast+
  moreover have "num_of 10 ?r = mag a" using dec_char_digit by (intro num_of_rad_str) auto
  ultimately show "literal_value (dec_str a) = bi_val a"
    using sg assms(2) by (auto simp: literal_value_def bi_val_cases)
qed

lemma hex_str_literal:
  assumes "num a \<noteq> 0" "x = CHR ''x'' \<or> x = CHR ''X''"
  shows "hex_int (bin_str 4 caps [CHR ''0'', x] a)" "literal_value (bin_str 4 caps [CHR ''0'', x] a) = bi_val a"
proof -
  let ?s = "bin_str 4 caps [CHR ''0'', x] a" and ?r = "rad_str 16 (bin_char caps) (mag a)"
  have ne: "?r \<noteq> []" by (subst rad_str.simps) simp
  have ds: "list_all is_xdigit ?r"
    using set_rad_str [of 16 "bin_char caps" "mag a"] bin_char_digit by (auto simp: list_all_iff)
  have sg: "opt_sign ?s = CHR ''0'' # x # ?r" "signed_num ?s n = (if num a < 0 then - int n else int n)" for n
    using signed_minus [of "CHR ''0'' # x # ?r" a n] by (auto simp: bin_str_def)
  show h: "hex_int ?s" using sg(1) ne ds assms(2) by (auto simp: hex_int_def)
  have "num_of 16 ?r = mag a" using bin_char_digit by (intro num_of_rad_str) auto
  then show "literal_value ?s = bi_val a"
    using h sg assms(1) by (auto simp: literal_value_def bi_val_cases hex_digits_of_def)
qed

lemma zero_literal: "int_literal ''0''" "literal_value ''0'' = 0"
proof -
  have "dec_int ''0''" by (simp add: dec_int_def opt_sign_def)
  moreover from this have "\<not> hex_int ''0''" "\<not> oct_int ''0''" using integer_languages_disjoint by blast+
  ultimately show "int_literal ''0''" "literal_value ''0'' = 0"
    by (simp_all add: int_literal_def literal_value_def signed_num_def opt_sign_def num_of_Cons char_digit_def)
qed

lemma fklBigIntToStr_eq:
  assumes "bi_wf a" "radix \<in> {8, 10, 16}" "\<And>n. n \<le> length (alloc n)" "n = length (str_of a radix flags)"
  shows "fklBigIntToStr a alloc radix flags = Some (n, str_of a radix flags @ drop n (alloc n))"
proof -
  obtain r where r: "fklBigIntToStr a alloc radix flags = Some r" "filled alloc (str_of a radix flags) r"
    using wp_fklBigIntToStr [OF assms(1-3)] by (rule wpE)
  obtain m s where "r = (m, s)" by (cases r)
  with r assms(4) show ?thesis by (simp add: filled_def)
qed

lemma str_of_literal:
  assumes a: "bi_wf a" and "radix = 10 \<or> radix = 16 \<and> flags AND FKL_BIGINT_FMT_FLAG_ALTERNATE \<noteq> 0"
  shows "int_literal (str_of a radix flags) \<and> literal_value (str_of a radix flags) = bi_val a"
proof (cases "num a = 0")
  case True
  then show ?thesis using zero_literal by (simp add: str_of_def Let_def bi_val_cases)
next
  case False
  from assms(2) show ?thesis
  proof
    assume "radix = 10"
    then have "str_of a radix flags = dec_str a" using False by (simp add: str_of_def Let_def)
    then show ?thesis using dec_str_literal [OF a False] by (simp add: int_literal_def)
  next
    assume r: "radix = 16 \<and> flags AND FKL_BIGINT_FMT_FLAG_ALTERNATE \<noteq> 0"
    define caps where "caps = (flags AND FKL_BIGINT_FMT_FLAG_CAPITALS \<noteq> 0)"
    define x where "x = (if caps then CHR ''X'' else CHR ''x'')"
    have "str_of a radix flags = bin_str 4 caps [CHR ''0'', x] a"
      using r False by (simp add: str_of_def Let_def x_def flip: caps_def)
    moreover have "x = CHR ''x'' \<or> x = CHR ''X''" by (simp add: x_def)
    ultimately show ?thesis using hex_str_literal [OF False, of x caps] by (simp add: int_literal_def)
  qed
qed

section \<open>Properties\<close>

text \<open>
  C37: the string of a big integer is its representation in the radix. For the radices 8, 10 and 16
  and a callback that provides at least as many characters as it is asked for, \<open>fklBigIntToStr\<close>
  returns, stays within the buffer and within its decimal array, asks for exactly the length of the
  representation (sign, prefix of the alternate form, digits without leading zeros) and fills the
  buffer with it.
\<close>

theorem fklBigIntToStr_writes:
  assumes "bi_wf a" and "radix \<in> {8, 10, 16}" and "\<And>n. n \<le> length (alloc n)"
  shows "\<exists>s. fklBigIntToStr a alloc radix flags = Some (length (str_of a radix flags), s)
    \<and> s = str_of a radix flags @ drop (length (str_of a radix flags)) (alloc (length (str_of a radix flags)))"
  using fklBigIntToStr_eq [OF assms refl] by simp

theorem fklBigIntToStr_writes_witness:
  "\<exists>s. fklBigIntToStr \<lparr>digits = [255], num = -1, bsize = 1, const_size = False\<rparr> (\<lambda>n. replicate n CHR ''?'')
     16 3 = Some (5, s) \<and> s = ''-0XFF''"
proof -
  let ?a = "\<lparr>digits = [255], num = -1, bsize = 1, const_size = False\<rparr>"
  have wf: "bi_wf ?a" by (simp add: bi_wf_def bi_ok_def used_def len_def BASE_def)
  have m: "mag ?a = 255" by (simp add: mag_def used_def len_def)
  have "3 AND FKL_BIGINT_FMT_FLAG_CAPITALS \<noteq> 0" "3 AND FKL_BIGINT_FMT_FLAG_ALTERNATE \<noteq> 0"
    by (simp_all add: FKL_BIGINT_FMT_FLAG_CAPITALS_def FKL_BIGINT_FMT_FLAG_ALTERNATE_def push_bit_eq_mult)
  moreover have "(char_of (70 :: nat) :: char) = CHR ''F''" by code_simp
  ultimately have "str_of ?a 16 3 = ''-0XFF''"
    unfolding str_of_def bin_str_def m
    by (simp add: Let_def minus_sign_def rad_str.simps [of 16 _ 255] rad_str.simps [of 16 _ 15]
        bin_char_def char_plus_def)
  then show ?thesis using fklBigIntToStr_writes [OF wf, of 16 "\<lambda>n. replicate n CHR ''?''" 3] by simp
qed

text \<open>
  C38: what has been written can be read back. The decimal string of a big integer, and its
  hexadecimal string in the alternate form with small or capital digits, are read by
  \<open>fklInitBigIntWithCharBuf\<close> as a big integer with the same value.
\<close>

theorem fklBigIntToStr_roundtrip:
  assumes "bi_wf a" and "radix = 10 \<or> radix = 16 \<and> flags AND FKL_BIGINT_FMT_FLAG_ALTERNATE \<noteq> 0"
    and "\<And>n. n \<le> length (alloc n)"
  shows "\<exists>n s r. fklBigIntToStr a alloc radix flags = Some (n, s) \<and> fklInitBigIntWithCharBuf s n = Some r
    \<and> bi_own r \<and> bi_val r = bi_val a"
proof -
  have radix: "radix \<in> {8, 10, 16}" using assms(2) by auto
  let ?t = "str_of a radix flags"
  have w: "fklBigIntToStr a alloc radix flags = Some (length ?t, ?t @ drop (length ?t) (alloc (length ?t)))"
    using fklBigIntToStr_eq [OF assms(1) radix assms(3) refl] .
  have "int_literal ?t" "literal_value ?t = bi_val a" using str_of_literal [OF assms(1,2)] by auto
  then show ?thesis using w wp_reader [of ?t "drop (length ?t) (alloc (length ?t))"] by (auto elim!: wpE)
qed

theorem fklBigIntToStr_roundtrip_witness:
  "\<exists>n s r. fklBigIntToStr \<lparr>digits = [7, 2], num = -2, bsize = 2, const_size = False\<rparr> print_bigint_alloc 10 0 = Some (n, s)
     \<and> fklInitBigIntWithCharBuf s n = Some r \<and> bi_own r \<and> bi_val r = - 2147483655"
proof -
  let ?a = "\<lparr>digits = [7, 2], num = -2, bsize = 2, const_size = False\<rparr>"
  have "bi_wf ?a" "bi_val ?a = - 2147483655"
    by (simp_all add: bi_wf_def bi_ok_def used_def len_def BASE_def bi_val_def mag_def)
  then show ?thesis using fklBigIntToStr_roundtrip [of ?a 10 0 print_bigint_alloc]
    by (simp add: print_bigint_alloc_def zmalloc_def)
qed

end
