(* ===== verification/BigIntDiv.thy ===== *)
theory BigIntDiv
  imports BigIntMul BigIntBits
begin

text \<open>
  Division of src/bigint.c: by one digit, and long division of digit arrays with estimated quotient
  digits that are corrected; the variants for a 64-bit divisor, for the quotient or the remainder
  only, and the divisibility tests. The remainder is stored through a pointer that may be null, the
  dividend itself or another big integer (\<open>FklRem\<close>); the divisor is neither of these.
\<close>

section \<open>Operations\<close>

datatype FklRem = NoRem | RemSame | RemOther FklBigInt

text \<open>Storing through \<open>rem\<close>: the result is the dividend and the remainder after it.\<close>

definition store_rem :: "FklBigInt \<Rightarrow> FklRem \<Rightarrow> (FklBigInt \<Rightarrow> FklBigInt option) \<Rightarrow> (FklBigInt \<times> FklRem) option" where
  "store_rem a rem f = (case rem of
     NoRem \<Rightarrow> Some (a, NoRem)
   | RemSame \<Rightarrow> do { a \<leftarrow> f a; Some (a, RemSame) }
   | RemOther r \<Rightarrow> do { r \<leftarrow> f r; Some (a, RemOther r) })"

text \<open>Division by zero is undefined.\<close>

definition divrem1_loop :: "FklBigIntDigit list \<Rightarrow> nat \<Rightarrow> FklBigIntDigit \<Rightarrow> (FklBigIntDigit list \<times> FklBigIntDigit) option" where
  "divrem1_loop pin n d =
     for_down n (\<lambda>i (pin, rem1). do {
       x \<leftarrow> rd pin i;
       let dividend = push_bit FKL_BIGINT_DIGIT_SHIFT (ucast rem1 :: u64) OR ucast x;
       FKL_ASSERT (d \<noteq> 0);
       pin \<leftarrow> wr pin i (ucast (dividend div ucast d));
       Some (pin, ucast (dividend mod ucast d)) }) (pin, 0)"

definition divrem1 :: "FklBigInt \<Rightarrow> nat \<Rightarrow> FklBigIntDigit \<Rightarrow> FklRem \<Rightarrow> (FklBigInt \<times> FklRem) option" where
  "divrem1 a n d rem = do {
     FKL_ASSERT (n > 0 \<and> d \<le> FKL_BIGINT_DIGIT_MASK);
     (pin, rem1) \<leftarrow> divrem1_loop (digits a) n d;
     store_rem (a\<lparr>digits := pin\<rparr>) rem (\<lambda>r. fklSetBigIntI r (ucast rem1)) }"

text \<open>
  The estimate of a quotient digit from the two top digits of the dividend and the top digit of the
  divisor, and its correction; the last component of the state is the \<open>break\<close>.
\<close>

definition correct_quotient ::
  "u32 \<Rightarrow> u32 \<Rightarrow> u32 \<Rightarrow> u32 \<times> u32 \<times> bool \<Rightarrow> (u32 \<times> u32 \<times> bool) option" where
  "correct_quotient wm1 wm2 v2 =
     while_m (\<lambda>(q, r, stop). \<not> stop \<and> (ucast wm2 :: u64) * ucast q > (push_bit FKL_BIGINT_DIGIT_SHIFT (ucast r) OR ucast v2))
       (\<lambda>(q, r, stop). Some (q - 1, r + wm1, r + wm1 \<ge> FKL_BIGINT_DIGIT_BASE))"

definition estimate_quotient :: "u32 \<Rightarrow> u32 \<Rightarrow> u32 \<Rightarrow> u32 \<Rightarrow> u32 \<Rightarrow> u32 option" where
  "estimate_quotient wm1 wm2 vtop v1 v2 = do {
     FKL_ASSERT (vtop \<le> wm1);
     let vv = push_bit FKL_BIGINT_DIGIT_SHIFT (ucast vtop :: u64) OR ucast v1;
     FKL_ASSERT (wm1 \<noteq> 0);
     (q, r, stop) \<leftarrow> correct_quotient wm1 wm2 v2 (ucast (vv div ucast wm1), ucast (vv mod ucast wm1), False);
     FKL_ASSERT (q \<le> FKL_BIGINT_DIGIT_BASE);
     Some q }"

text \<open>Subtracting \<open>q * w\<close> from the digits of \<open>v\<close> from position \<open>j\<close> on, in signed arithmetic.\<close>

definition sub_product :: "u32 list \<Rightarrow> nat \<Rightarrow> u32 list \<Rightarrow> nat \<Rightarrow> u32 \<Rightarrow> (u32 list \<times> FklBigIntSDigit) option" where
  "sub_product v j w n q =
     for_up 0 n (\<lambda>i (v, zhi). do {
       x \<leftarrow> rd v (j + i);
       y \<leftarrow> rd w i;
       let z = (scast (x + zhi) :: FklBigIntSTwoDigit) - ucast q * ucast y;
       v \<leftarrow> wr v (j + i) (ucast z AND FKL_BIGINT_DIGIT_MASK);
       Some (v, ucast (signed_drop_bit FKL_BIGINT_DIGIT_SHIFT z)) }) (v, 0)"

definition add_back :: "u32 list \<Rightarrow> nat \<Rightarrow> u32 list \<Rightarrow> nat \<Rightarrow> (u32 list \<times> u32) option" where
  "add_back v j w n =
     for_up 0 n (\<lambda>i (v, carry). do {
       x \<leftarrow> rd v (j + i);
       y \<leftarrow> rd w i;
       let carry = carry + (x + y);
       v \<leftarrow> wr v (j + i) (carry AND FKL_BIGINT_DIGIT_MASK);
       Some (v, drop_bit FKL_BIGINT_DIGIT_SHIFT carry) }) (v, 0)"

text \<open>One quotient digit, at position \<open>j\<close> (\<open>vk = v0 + j\<close>).\<close>

definition div_step :: "u32 list \<Rightarrow> nat \<Rightarrow> nat \<Rightarrow> u32 list \<times> u32 list \<Rightarrow> (u32 list \<times> u32 list) option" where
  "div_step w n j = (\<lambda>(v, a). do {
     wm1 \<leftarrow> rd w (n - 1);
     wm2 \<leftarrow> rd w (n - 2);
     vtop \<leftarrow> rd v (j + n);
     v1 \<leftarrow> rd v (j + n - 1);
     v2 \<leftarrow> rd v (j + n - 2);
     q \<leftarrow> estimate_quotient wm1 wm2 vtop v1 v2;
     (v, zhi) \<leftarrow> sub_product v j w n q;
     FKL_ASSERT (vtop + zhi = - 1 \<or> vtop + zhi = 0);
     (v, q) \<leftarrow> (if vtop + zhi <s 0 then do { (v, carry) \<leftarrow> add_back v j w n; Some (v, q - 1) } else Some (v, q));
     FKL_ASSERT (q < FKL_BIGINT_DIGIT_BASE);
     a \<leftarrow> wr a j q;
     Some (v, a) })"

text \<open>The digit shifted out of the dividend, or a zero digit when its top digit is not below the divisor's.\<close>

definition extend_dividend :: "u32 list \<Rightarrow> nat \<Rightarrow> u32 list \<Rightarrow> nat \<Rightarrow> u32 \<Rightarrow> (u32 list \<times> nat) option" where
  "extend_dividend v m w n carry = do {
     x \<leftarrow> rd v (m - 1);
     y \<leftarrow> rd w (n - 1);
     if carry \<noteq> 0 \<or> x \<ge> y then do { v \<leftarrow> wr v m carry; Some (v, m + 1) } else Some (v, m) }"

text \<open>
  Long division on arrays: the dividend \<open>v\<close> of \<open>m\<close> digits with room for one more, the divisor
  \<open>w1\<close> of \<open>n\<close> digits, a fresh array \<open>w\<close> for the shifted divisor. The result is the array of the
  dividend, the remainder, and the quotient with its length.
\<close>

definition divrem_digits ::
  "u32 list \<Rightarrow> nat \<Rightarrow> u32 list \<Rightarrow> u32 list \<Rightarrow> nat \<Rightarrow> (u32 list \<times> u32 list \<times> FklBigInt) option" where
  "divrem_digits v m w w1 n = do {
     x \<leftarrow> rd w1 (n - 1);
     l \<leftarrow> bit_length_digit (ucast x);
     FKL_ASSERT (l \<le> FKL_BIGINT_DIGIT_SHIFT);
     let d = FKL_BIGINT_DIGIT_SHIFT - l;
     (w, carry) \<leftarrow> v_lshift w w1 n d;
     FKL_ASSERT (carry = 0);
     (v, carry) \<leftarrow> v_lshift v v m d;
     (v, m) \<leftarrow> extend_dividend v m w n carry;
     FKL_ASSERT (n \<le> m);
     let k = m - n;
     a \<leftarrow> ensure_bigint_size FKL_BIGINT_0 k;
     let a = a\<lparr>num := int k\<rparr>;
     (v, ad) \<leftarrow> for_down k (div_step w n) (v, digits a);
     (w, carry) \<leftarrow> v_rshift w v n d;
     FKL_ASSERT (carry = 0);
     Some (v, w, a\<lparr>digits := ad\<rparr>) }"

definition x_divrem :: "FklBigInt \<Rightarrow> FklBigInt \<Rightarrow> FklRem \<Rightarrow> (FklBigInt \<times> FklRem) option" where
  "x_divrem v1 w1 rem = do {
     let size_v = nat (fklAbs (num v1));
     let size_w = nat (fklAbs (num w1));
     FKL_ASSERT (size_v \<ge> size_w \<and> size_w \<ge> 2);
     v1 \<leftarrow> ensure_bigint_size v1 (size_v + 1);
     let v1 = v1\<lparr>num := int (size_v + 1)\<rparr>;
     w \<leftarrow> ensure_bigint_size FKL_BIGINT_0 size_w;
     let w = w\<lparr>num := int size_w\<rparr>;
     (vd, wd, a) \<leftarrow> divrem_digits (digits v1) size_v (digits w) (digits w1) size_w;
     let v1 = v1\<lparr>digits := vd\<rparr>;
     let w = w\<lparr>digits := wd\<rparr>;
     (v1, rem') \<leftarrow> (if rem \<noteq> NoRem then do { w \<leftarrow> bigint_normalize w; store_rem v1 rem (\<lambda>r. fklSetBigInt r w) }
       else Some (v1, rem));
     v1 \<leftarrow> (if rem \<noteq> RemSame then do { a \<leftarrow> bigint_normalize a; fklSetBigInt v1 a } else Some v1);
     Some (v1, rem') }"

definition fklDivRemBigInt :: "FklBigInt \<Rightarrow> FklBigInt \<Rightarrow> FklRem \<Rightarrow> (int \<times> FklBigInt \<times> FklRem) option" where
  "fklDivRemBigInt a b rem = do {
     let neg_a = num a < 0;
     let neg_b = num b < 0;
     let num_a = fklAbs (num a);
     let num_b = fklAbs (num b);
     if num_b = 0 then Some (- 1, a, rem)
     else if num_a < num_b then
       (if rem \<noteq> RemSame then do { (a', rem) \<leftarrow> store_rem a rem (\<lambda>r. fklSetBigInt r a); Some (0, a'\<lparr>num := 0\<rparr>, rem) }
        else Some (0, a, rem))
     else do {
       (a, rem') \<leftarrow> (if num_b = 1 then do { d \<leftarrow> rd (digits b) 0; divrem1 a (nat num_a) d rem } else x_divrem a b rem);
       (a, rem') \<leftarrow> (if neg_a then store_rem a rem' (\<lambda>r. do {
           z \<leftarrow> FKL_BIGINT_IS_0 r;
           Some (if z then r else r\<lparr>num := - num r\<rparr>) }) else Some (a, rem'));
       if rem \<noteq> RemSame then do {
         let a = (if neg_a \<noteq> neg_b \<and> num a > 0 \<or> neg_a = neg_b \<and> num a < 0 then a\<lparr>num := - num a\<rparr> else a);
         a \<leftarrow> bigint_normalize a;
         Some (0, a, rem') }
       else Some (0, a, rem') } }"

definition fklDivRemBigIntI :: "FklBigInt \<Rightarrow> i64 \<Rightarrow> FklRem \<Rightarrow> (int \<times> FklBigInt \<times> FklRem) option" where
  "fklDivRemBigIntI b divider rem = do { bi \<leftarrow> bigint_of_i64 divider; fklDivRemBigInt b bi rem }"

definition fklDivBigInt :: "FklBigInt \<Rightarrow> FklBigInt \<Rightarrow> (int \<times> FklBigInt) option" where
  "fklDivBigInt a d = do { (e, a, rem) \<leftarrow> fklDivRemBigInt a d NoRem; Some (e, a) }"

definition fklDivBigIntI :: "FklBigInt \<Rightarrow> i64 \<Rightarrow> (int \<times> FklBigInt) option" where
  "fklDivBigIntI a d = do { (e, a, rem) \<leftarrow> fklDivRemBigIntI a d NoRem; Some (e, a) }"

definition fklRemBigInt :: "FklBigInt \<Rightarrow> FklBigInt \<Rightarrow> (int \<times> FklBigInt) option" where
  "fklRemBigInt a d = do { (e, a, rem) \<leftarrow> fklDivRemBigInt a d RemSame; Some (e, a) }"

definition fklRemBigIntI :: "FklBigInt \<Rightarrow> i64 \<Rightarrow> (int \<times> FklBigInt) option" where
  "fklRemBigIntI a divider = do { bi \<leftarrow> bigint_of_i64 divider; fklRemBigInt a bi }"

definition fklIsDivisibleBigInt :: "FklBigInt \<Rightarrow> FklBigInt \<Rightarrow> bool option" where
  "fklIsDivisibleBigInt a d = do {
     rem \<leftarrow> fklSetBigInt FKL_BIGINT_0 a;
     (e, rem) \<leftarrow> fklRemBigInt rem d;
     Some (num rem = 0) }"

definition fklIsDivisibleBigIntI :: "FklBigInt \<Rightarrow> i64 \<Rightarrow> bool option" where
  "fklIsDivisibleBigIntI a d = do { bi \<leftarrow> bigint_of_i64 d; fklIsDivisibleBigInt a bi }"

section \<open>Signed words\<close>

lemma sint_up: "sint (scast w :: u64) = sint w" for w :: u32
  by (rule sint_up_scast) (simp add: is_up_def source_size_def target_size_def word_size)

lemma sint_ucast_up: "sint (ucast w :: u64) = uint w" for w :: u32
  using uint_range_32 [of w] by (simp add: sint_64 unsigned_ucast_eq take_bit_int_eq_self)

lemma sint_zero: "sint w = 0 \<longleftrightarrow> w = 0" for w :: u32
  using uint_range_32 [of w] by (auto simp: sint_32 uint_0_iff split: if_splits)

lemma sint_minus1_iff: "sint w = - 1 \<longleftrightarrow> w = - 1" for w :: u32
proof
  assume "sint w = - 1"
  then have "uint w = 4294967295" using uint_range_32 [of w] by (auto simp: sint_32 uint_small_iffs split: if_splits)
  then show "w = - 1"
    by (simp only: word_uint_eq_iff unsigned_minus_1_eq_mask) (simp add: mask_eq_exp_minus_1)
qed simp

lemma sint_add: "- (2 ^ 31) \<le> sint a + sint b \<Longrightarrow> sint a + sint b < 2 ^ 31 \<Longrightarrow> sint (a + b) = sint a + sint b" for a b :: u32
  by (simp add: sint_word_ariths signed_take_bit_int_eq_self)

lemma sint_diff64: "- (2 ^ 63) \<le> sint a - sint b \<Longrightarrow> sint a - sint b < 2 ^ 63 \<Longrightarrow> sint (a - b) = sint a - sint b" for a b :: u64
  by (simp add: sint_word_ariths signed_take_bit_int_eq_self)

lemma sint_mult64: "- (2 ^ 63) \<le> sint a * sint b \<Longrightarrow> sint a * sint b < 2 ^ 63 \<Longrightarrow> sint (a * b) = sint a * sint b" for a b :: u64
  by (simp add: sint_word_ariths signed_take_bit_int_eq_self)

lemma lo_digit: "uint ((ucast z :: u32) AND FKL_BIGINT_DIGIT_MASK) = sint z mod 2 ^ 30" for z :: u64
proof -
  have "uint z = sint z mod 2 ^ 64" by (simp add: uint_sint take_bit_eq_mod)
  then have "uint z mod 2 ^ 30 = sint z mod 2 ^ 30" by (simp add: mod_mod_cancel)
  moreover have "uint ((ucast z :: u32) AND FKL_BIGINT_DIGIT_MASK) = uint z mod 2 ^ 30"
  proof -
    have "int (unat ((ucast z :: u32) AND FKL_BIGINT_DIGIT_MASK)) = int (unat (ucast z :: u32) mod BASE)"
      by (simp only: unat_lo)
    then show ?thesis by (simp add: BASE_def zmod_int unsigned_ucast_eq take_bit_eq_mod mod_mod_cancel)
  qed
  ultimately show ?thesis by simp
qed

lemma hi_digit: "- (2 ^ 31) \<le> sint z div 2 ^ 30 \<Longrightarrow> sint z div 2 ^ 30 < 2 ^ 31 \<Longrightarrow>
  sint (ucast (signed_drop_bit 30 z) :: u32) = sint z div 2 ^ 30" for z :: u64
proof -
  have "sint (signed_drop_bit 30 z) = sint z div 2 ^ 30"
    by (simp add: sint_signed_drop_bit_eq drop_bit_eq_div)
  then show "- (2 ^ 31) \<le> sint z div 2 ^ 30 \<Longrightarrow> sint z div 2 ^ 30 < 2 ^ 31 \<Longrightarrow> ?thesis"
    by (simp add: signed_ucast_eq uint_sint signed_take_bit_take_bit signed_take_bit_int_eq_self)
qed
section \<open>Division by one digit\<close>

lemma unat_ucast_32: "unat x < 4294967296 \<Longrightarrow> unat (ucast x :: u32) = unat x" for x :: u64
  by (simp add: unat_ucast_mod)

lemma wp_divrem1_loop:
  assumes "n \<le> length ds" "digits_ok (take n ds)" "d \<noteq> 0" "unat d < BASE"
  shows "wp (divrem1_loop ds n d) (\<lambda>(r, m). length r = length ds \<and> digits_ok (take n r) \<and> unat m < unat d
    \<and> val (take n r) * unat d + unat m = val (take n ds))"
  unfolding divrem1_loop_def
proof (rule wp_for_down [where I = "\<lambda>i (r, m). length r = length ds \<and> digits_ok (drop i (take n r))
    \<and> take i r = take i ds \<and> unat (m :: u32) < unat d
    \<and> val (drop i (take n r)) * unat d + unat m = val (drop i (take n ds))"])
  show "case (ds, 0) of (r, m) \<Rightarrow> length r = length ds \<and> digits_ok (drop n (take n r)) \<and> take n r = take n ds
    \<and> unat (m :: u32) < unat d \<and> val (drop n (take n r)) * unat d + unat m = val (drop n (take n ds))"
    using assms by (simp add: unat_gt_0)
next
  fix i and t :: "u32 list \<times> u32"
  assume i: "i < n" and inv: "case t of (r, m) \<Rightarrow> length r = length ds \<and> digits_ok (drop (Suc i) (take n r))
    \<and> take (Suc i) r = take (Suc i) ds \<and> unat m < unat d
    \<and> val (drop (Suc i) (take n r)) * unat d + unat m = val (drop (Suc i) (take n ds))"
  obtain r m where t: "t = (r, m)" by (cases t)
  have l: "i < length ds" "i < length r" using i assms inv t by auto
  have "take (Suc i) r = take (Suc i) ds" using inv t by simp
  then have "take (Suc i) r ! i = take (Suc i) ds ! i" by simp
  then have ri: "r ! i = ds ! i" by simp
  have x: "unat (ds ! i) < BASE" using assms i l by (auto intro: digits_ok_nth)
  have m: "unat m < unat d" using inv t by simp
  then have dp: "0 < unat d" by linarith
  define z where "z = push_bit 30 (ucast m :: u64) OR ucast (ds ! i)"
  have uz: "unat z = BASE * unat m + unat (ds ! i)" unfolding z_def
    using unat_or_shift [of "ds ! i" 30 m] x m assms(4) by (simp add: BASE_def)
  have "BASE * unat m + unat (ds ! i) < BASE * (unat m + 1)" using x by simp
  also have "\<dots> \<le> BASE * unat d" using m by (intro mult_le_mono2) simp
  finally have q: "unat z div unat d < BASE" using dp unfolding uz by (simp add: div_less_iff_less_mult)
  have uq: "unat (ucast (z div ucast d) :: u32) = unat z div unat d"
    using q by (subst unat_ucast_32) (simp_all add: unat_div BASE_def)
  have "unat z mod unat d < BASE" using mod_less_divisor [OF dp] assms(4) less_trans by blast
  then have um: "unat (ucast (z mod ucast d) :: u32) = unat z mod unat d"
    by (subst unat_ucast_32) (simp_all add: unat_mod BASE_def)
  let ?r = "r[i := ucast (z div ucast d)]"
  have dr: "drop i (take n ?r) = ucast (z div ucast d) # drop (Suc i) (take n r)"
    using i l inv t assms by (simp add: take_update_swap drop_update_swap Cons_nth_drop_Suc [symmetric] min_def)
  have da: "drop i (take n ds) = ds ! i # drop (Suc i) (take n ds)"
    using i l by (simp add: Cons_nth_drop_Suc [symmetric])
  have "(unat z div unat d + BASE * val (drop (Suc i) (take n r))) * unat d + unat z mod unat d
    = unat z + BASE * (val (drop (Suc i) (take n r)) * unat d)" by (simp add: algebra_simps)
  also have "\<dots> = unat (ds ! i) + BASE * val (drop (Suc i) (take n ds))"
  proof -
    have "val (drop (Suc i) (take n ds)) = val (drop (Suc i) (take n r)) * unat d + unat m" using inv t by simp
    then show ?thesis unfolding uz by (simp add: distrib_left)
  qed
  finally have v: "val (drop i (take n ?r)) * unat d + unat z mod unat d = val (drop i (take n ds))"
    unfolding dr da by (simp add: uq)
  have ok: "digits_ok (drop i (take n ?r))" unfolding dr using inv t q uq by simp
  have "take i (take (Suc i) r) = take i (take (Suc i) ds)" using inv t by simp
  then have tk: "take i ?r = take i ds" by (simp add: min_def)
  show "wp (case t of (pin, rem1) \<Rightarrow> do {
       x \<leftarrow> rd pin i;
       let dividend = push_bit FKL_BIGINT_DIGIT_SHIFT (ucast rem1 :: u64) OR ucast x;
       FKL_ASSERT (d \<noteq> 0);
       pin \<leftarrow> wr pin i (ucast (dividend div ucast d));
       Some (pin, ucast (dividend mod ucast d)) })
    (\<lambda>(r, m). length r = length ds \<and> digits_ok (drop i (take n r))
    \<and> take i r = take i ds \<and> unat (m :: u32) < unat d
    \<and> val (drop i (take n r)) * unat d + unat m = val (drop i (take n ds)))"
    unfolding t prod.case wp_simps wp_rd wp_wr wp_FKL_ASSERT wp_let Let_def ri z_def [symmetric]
    using l inv t v ok tk um mod_less_divisor [OF dp] assms(3) by simp
qed simp

section \<open>The estimate of a quotient digit\<close>

text \<open>
  The numbers: the divisor is \<open>W = Wl + P * H\<close> with its two top digits \<open>H = B * w1 + w2\<close>, the part
  of the dividend that is divided is \<open>U = Ul + P * T\<close> with its three top digits
  \<open>T = B * (B * v0 + v1) + v2\<close>.
\<close>

lemma estimate_upper:
  fixes q H T P Wl W U B :: nat
  assumes "q * H \<le> T" "Wl < P" "W = Wl + P * H" "P * T \<le> U" "U < B * W" "B \<le> H" "0 < B"
  shows "q \<le> B" "q \<le> U div W + 1"
proof -
  have "P * T < B * W" using assms(4,5) by linarith
  also have "\<dots> \<le> B * (P * (H + 1))" using assms(2,3) by (intro mult_le_mono2) simp
  finally have "P * T < B * (P * (H + 1))" .
  then have "P * T < P * (B * (H + 1))" by (simp only: mult.left_commute [of B P])
  then have T: "T < B * (H + 1)" by (rule mult_less_cancel1 [THEN iffD1, THEN conjunct2])
  show qB: "q \<le> B"
  proof (rule ccontr)
    assume "\<not> q \<le> B"
    then have "(B + 1) * H \<le> q * H" by (intro mult_le_mono1) simp
    then show False using assms(1,6) T by simp
  qed
  have "q * W = q * Wl + P * (q * H)" by (simp add: assms(3) distrib_left)
  also have "\<dots> \<le> B * Wl + P * T" using qB assms(1) by (intro add_mono mult_le_mono) auto
  also have "\<dots> < W + U"
  proof -
    have "B * Wl < B * P" using assms(2,7) by simp
    also have "\<dots> \<le> P * H" using assms(6) by (simp add: mult.commute)
    finally show ?thesis using assms(3,4) by linarith
  qed
  finally have q: "q * W < W + U" .
  show "q \<le> U div W + 1"
  proof (cases q)
    case (Suc p)
    then have "p * W \<le> U" using q by simp
    moreover have "0 < W" using assms by (cases W) auto
    ultimately show ?thesis using Suc by (simp add: less_eq_div_iff_mult_less_eq)
  qed simp
qed

lemma estimate_lower:
  fixes q H T P Wl W U Ul :: nat
  assumes "T < q * H" "W = Wl + P * H" "U = Ul + P * T" "Ul < P"
  shows "U div W < q"
proof -
  have "U < P * (T + 1)" using assms(3,4) by simp
  also have "\<dots> \<le> P * (q * H)" using assms(1) by (intro mult_le_mono2) simp
  also have "\<dots> \<le> q * W" by (simp add: assms(2) distrib_left)
  finally have "U < q * W" .
  then show ?thesis by (cases "W = 0") (simp_all add: div_less_iff_less_mult)
qed

lemma wp_estimate_quotient:
  fixes w1 w2 v0 v1 v2 :: u32
  assumes dig: "unat w1 < BASE" "unat w2 < BASE" "unat v0 < BASE" "unat v1 < BASE" "unat v2 < BASE"
    and norm: "BASE \<le> 2 * unat w1"
    and W: "W = Wl + P * (BASE * unat w1 + unat w2)" "Wl < P"
    and U: "U = Ul + P * (BASE * (BASE * unat v0 + unat v1) + unat v2)" "Ul < P"
    and UW: "U < BASE * W"
  shows "wp (estimate_quotient w1 w2 v0 v1 v2) (\<lambda>q. unat q \<le> BASE \<and> U div W \<le> unat q \<and> unat q \<le> U div W + 1)"
proof -
  let ?H = "BASE * unat w1 + unat w2" and ?S = "BASE * unat v0 + unat v1"
  let ?T = "BASE * ?S + unat v2"
  have w1: "0 < unat w1" using norm by (cases "unat w1") auto
  then have BH: "BASE \<le> ?H" by (simp add: trans_le_add1)
  have v0: "unat v0 \<le> unat w1"
  proof (rule ccontr)
    assume "\<not> ?thesis"
    then have "BASE * (unat w1 + 1) \<le> BASE * unat v0" by (intro mult_le_mono2) simp
    then have "BASE * (unat w1 + 1) \<le> ?S" by (rule trans_le_add1)
    then have "P * (BASE * (BASE * (unat w1 + 1))) \<le> P * ?T" by (intro mult_le_mono2) (rule trans_le_add1, rule mult_le_mono2)
    also have "\<dots> \<le> U" by (simp add: U)
    also have "U < BASE * W" by (rule UW)
    also have "\<dots> \<le> BASE * (P * (?H + 1))" using W by (intro mult_le_mono2) simp
    also have "\<dots> \<le> BASE * (P * (BASE * (unat w1 + 1)))" using dig(2) by (intro mult_le_mono2) simp
    finally show False by (simp add: mult.left_commute)
  qed
  define vv where "vv = push_bit 30 (ucast v0 :: u64) OR ucast v1"
  have vv: "unat vv = ?S" unfolding vv_def using unat_or_shift [of v1 30 v0] dig by (simp add: BASE_def)
  have q0: "?S div unat w1 \<le> BASE + 1"
  proof -
    have "?S < BASE * unat v0 + BASE" using dig by simp
    also have "\<dots> \<le> BASE * unat w1 + 2 * unat w1" using v0 norm by (intro add_mono mult_le_mono) auto
    finally have "?S < (BASE + 2) * unat w1" by simp
    then have "?S div unat w1 < BASE + 2" using w1 by (simp add: div_less_iff_less_mult)
    then show ?thesis by simp
  qed
  have d: "unat (ucast (vv div ucast w1) :: u32) = ?S div unat w1" "unat (ucast (vv mod ucast w1) :: u32) = ?S mod unat w1"
  proof -
    have "?S div unat w1 < 4294967296" using q0 by (simp add: BASE_def)
    then show "unat (ucast (vv div ucast w1) :: u32) = ?S div unat w1"
      by (subst unat_ucast_32) (simp_all add: unat_div vv)
    have "?S mod unat w1 < unat w1" using w1 by simp
    then have "?S mod unat w1 < 4294967296" using unat_less_32 [of w1] by linarith
    then show "unat (ucast (vv mod ucast w1) :: u32) = ?S mod unat w1"
      by (subst unat_ucast_32) (simp_all add: unat_mod vv)
  qed
  let ?I = "\<lambda>(q :: u32, r :: u32, stop). unat q * unat w1 + unat r = ?S \<and> U div W \<le> unat q \<and> unat q \<le> BASE + 1
    \<and> unat r < 2 * BASE \<and> (stop \<longleftrightarrow> BASE \<le> unat r)"
  have sum: "BASE * ?S + unat v2 + unat w2 * q = q * ?H + (BASE * r + unat v2)" if "q * unat w1 + r = ?S" for q r
    unfolding that [symmetric] by (simp add: algebra_simps)
  have init: "?I (ucast (vv div ucast w1), ucast (vv mod ucast w1), False)"
  proof -
    have "?S mod unat w1 < BASE" using mod_less_divisor [OF w1] dig(1) less_trans by blast
    moreover have "U div W < ?S div unat w1 + 1"
    proof (rule estimate_lower [OF _ W(1) U])
      have "?S < (?S div unat w1 + 1) * unat w1" using w1 mod_less_divisor [OF w1, of ?S]
        div_mult_mod_eq [of ?S "unat w1"] unfolding add_mult_distrib mult_1 by linarith
      then have "BASE * (?S + 1) \<le> BASE * ((?S div unat w1 + 1) * unat w1)" by (intro mult_le_mono2) simp
      then have "?T < BASE * ((?S div unat w1 + 1) * unat w1)" using dig(5) by simp
      also have "\<dots> \<le> (?S div unat w1 + 1) * ?H" by (simp add: distrib_left mult.left_commute)
      finally show "?T < (?S div unat w1 + 1) * ?H" .
    qed
    ultimately show ?thesis using d q0 by simp
  qed
  have cond: "(ucast w2 :: u64) * ucast q > (push_bit FKL_BIGINT_DIGIT_SHIFT (ucast r) OR ucast v2)
      \<longleftrightarrow> BASE * unat r + unat v2 < unat w2 * unat q" if "unat q \<le> BASE + 1" "unat r < BASE" for q r :: u32
  proof -
    have "unat w2 * unat q \<le> BASE * (BASE + 1)" using that dig by (intro mult_le_mono) auto
    then have "unat w2 * unat q < 2 ^ LENGTH(64)" by (simp add: BASE_def)
    then have "unat ((ucast w2 :: u64) * ucast q) = unat w2 * unat q" by (subst unat_mult_less) simp_all
    moreover have "unat (push_bit 30 (ucast r :: u64) OR ucast v2) = BASE * unat r + unat v2"
      using unat_or_shift [of v2 30 r] that dig by (simp add: BASE_def)
    ultimately show ?thesis by (simp add: word_less_nat_alt)
  qed
  have loop: "wp (correct_quotient w1 w2 v2 (ucast (vv div ucast w1), ucast (vv mod ucast w1), False))
    (\<lambda>(q, r, stop). unat q \<le> BASE \<and> U div W \<le> unat q \<and> unat q \<le> U div W + 1)"
    unfolding correct_quotient_def
  proof (rule wp_while_m [where I = ?I and \<mu> = "\<lambda>(q, r, stop). unat q", OF init])
    fix t :: "u32 \<times> u32 \<times> bool"
    assume I: "?I t" and b: "case t of (q, r, stop) \<Rightarrow> \<not> stop \<and>
      (push_bit FKL_BIGINT_DIGIT_SHIFT (ucast r) OR ucast v2) < (ucast w2 :: u64) * ucast q"
    obtain q r where t: "t = (q, r, False)" using b by (cases t) auto
    have i: "unat q * unat w1 + unat r = ?S" "U div W \<le> unat q" "unat q \<le> BASE + 1" "unat r < BASE"
      using I t by auto
    have c: "BASE * unat r + unat v2 < unat w2 * unat q" using b t cond [OF i(3,4)] by simp
    then have qp: "0 < unat q" by (cases "unat q") auto
    have uq: "unat (q - 1) = unat q - 1" using qp by (simp add: unat_minus_one unat_gt_0)
    have ur: "unat (r + w1) = unat r + unat w1"
      using i(4) dig(1) by (intro unat_add_less) (simp add: BASE_def)
    have "?T < unat q * ?H" using sum [OF i(1)] c by linarith
    then have lo: "U div W < unat q" by (rule estimate_lower [OF _ W(1) U])
    have eq: "(unat q - 1) * unat w1 + (unat r + unat w1) = ?S"
      using i(1) qp by (cases "unat q") auto
    have st: "FKL_BIGINT_DIGIT_BASE \<le> r + w1 \<longleftrightarrow> BASE \<le> unat r + unat w1"
      by (simp add: word_le_nat_alt unat_DIGIT_BASE ur)
    have b1: "U div W \<le> unat q - Suc 0" "unat q - Suc 0 \<le> Suc BASE" using lo i(3) by linarith+
    show "wp (case t of (q, r, stop) \<Rightarrow> Some (q - 1, r + w1, FKL_BIGINT_DIGIT_BASE \<le> r + w1))
      (\<lambda>u. ?I u \<and> (case u of (q, r, stop) \<Rightarrow> unat q) < (case t of (q, r, stop) \<Rightarrow> unat q))"
      using t uq ur b1 eq st i(4) dig(1) qp by simp
  next
    fix t :: "u32 \<times> u32 \<times> bool"
    assume I: "?I t" and b: "\<not> (case t of (q, r, stop) \<Rightarrow> \<not> stop \<and>
      (push_bit FKL_BIGINT_DIGIT_SHIFT (ucast r) OR ucast v2) < (ucast w2 :: u64) * ucast q)"
    obtain q r stop where t: "t = (q, r, stop)" by (cases t)
    have i: "unat q * unat w1 + unat r = ?S" "U div W \<le> unat q" "unat q \<le> BASE + 1" "stop \<longleftrightarrow> BASE \<le> unat r"
      using I t by auto
    have "unat w2 * unat q \<le> BASE * unat r + unat v2"
    proof (cases "BASE \<le> unat r")
      case True
      have "unat w2 * unat q \<le> (BASE - 1) * (BASE + 1)" using dig(2) i(3) by (intro mult_le_mono) auto
      also have "\<dots> \<le> BASE * BASE" by (simp add: BASE_def)
      also have "\<dots> \<le> BASE * unat r" using True by simp
      finally show ?thesis by simp
    next
      case False
      then show ?thesis using b t i cond [of q r] by auto
    qed
    then have "unat q * ?H \<le> ?T" using sum [OF i(1)] by linarith
    from estimate_upper [OF this W(2,1) _ UW BH] show
      "case t of (q, r, stop) \<Rightarrow> unat q \<le> BASE \<and> U div W \<le> unat q \<and> unat q \<le> U div W + 1"
      using t i(2) by (simp add: U)
  qed
  have "v0 \<le> w1" "w1 \<noteq> 0" using v0 w1 by (auto simp: word_le_nat_alt)
  then show ?thesis using loop
    by (auto simp: estimate_quotient_def Let_def vv_def [symmetric] word_le_nat_alt unat_DIGIT_BASE elim!: wp_mono)
qed


section \<open>Subtracting a multiple of the divisor\<close>

lemma drop_update_at: "drop j (v[j + i := c]) = (drop j v)[i := c]"
  by (simp add: drop_update_swap)

lemma wp_sub_product:
  assumes "j + n \<le> length v" "n \<le> length w" "digits_ok (take n (drop j v))" "digits_ok (take n w)" "unat q \<le> BASE"
  shows "wp (sub_product v j w n q) (\<lambda>(r, z). length r = length v \<and> take j r = take j v \<and> drop (j + n) r = drop (j + n) v
    \<and> digits_ok (take n (drop j r)) \<and> - int BASE \<le> sint z \<and> sint z \<le> 0
    \<and> int (val (take n (drop j r))) + int BASE ^ n * sint z = int (val (take n (drop j v))) - int (unat q) * int (val (take n w)))"
  unfolding sub_product_def
proof (rule wp_for_up [where I = "\<lambda>i (r, z). length r = length v \<and> take j r = take j v \<and> drop (j + i) r = drop (j + i) v
    \<and> digits_ok (take i (drop j r)) \<and> - int BASE \<le> sint (z :: u32) \<and> sint z \<le> 0
    \<and> int (val (take i (drop j r))) + int BASE ^ i * sint z = int (val (take i (drop j v))) - int (unat q) * int (val (take i w))"])
  fix i and t :: "u32 list \<times> u32"
  assume i: "0 \<le> i" "i < n" and inv: "case t of (r, z) \<Rightarrow> length r = length v \<and> take j r = take j v \<and> drop (j + i) r = drop (j + i) v
    \<and> digits_ok (take i (drop j r)) \<and> - int BASE \<le> sint (z :: u32) \<and> sint z \<le> 0
    \<and> int (val (take i (drop j r))) + int BASE ^ i * sint z = int (val (take i (drop j v))) - int (unat q) * int (val (take i w))"
  obtain r z where t: "t = (r, z)" by (cases t)
  have l: "j + i < length v" "j + i < length r" "i < length w" using i assms inv t by auto
  have "drop (j + i) r = drop (j + i) v" using inv t by simp
  then have ri: "r ! (j + i) = v ! (j + i)" using l drop_eq_nth [of "j + i" r v "j + i"] inv t by simp
  have x: "unat (v ! (j + i)) < BASE" using digits_ok_nth [OF assms(3) i(2)] l by simp
  have y: "unat (w ! i) < BASE" using digits_ok_nth [OF assms(4) i(2)] l by simp
  have z: "- int BASE \<le> sint z" "sint z \<le> 0" using inv t by auto
  have sx: "sint (v ! (j + i)) = int (unat (v ! (j + i)))"
    using uint_less_BASE [OF x] by (simp add: sint_32)
  have s1: "sint (v ! (j + i) + z) = int (unat (v ! (j + i))) + sint z"
    using x z by (subst sint_add) (simp_all add: sx BASE_def del: of_nat_unat int_nat_eq)
  have "unat q * unat (w ! i) \<le> BASE * (BASE - 1)" using assms(5) y by (intro mult_le_mono) auto
  then have "int (unat q * unat (w ! i)) \<le> int (BASE * (BASE - 1))" by (rule iffD2 [OF of_nat_le_iff])
  then have qy: "int (unat q) * int (unat (w ! i)) \<le> int BASE * int BASE - int BASE" "0 \<le> int (unat q) * int (unat (w ! i))"
    by (simp_all add: BASE_def del: of_nat_unat int_nat_eq)
  have s2: "sint ((ucast q :: u64) * ucast (w ! i)) = int (unat q) * int (unat (w ! i))"
  proof -
    have "- (2 ^ 63) \<le> int (unat q) * int (unat (w ! i))" by (rule order_trans [OF _ qy(2)]) simp
    moreover have "int (unat q) * int (unat (w ! i)) < 2 ^ 63" using qy(1) by (simp add: BASE_def del: of_nat_unat int_nat_eq)
    ultimately have "- (2 ^ 63) \<le> uint q * uint (w ! i)" "uint q * uint (w ! i) < 2 ^ 63" by (simp_all only: uint_nat)
    then show ?thesis using sint_mult64 [of "ucast q :: u64" "ucast (w ! i)"] by (simp only: sint_ucast_up uint_nat)
  qed
  define Z where "Z = (scast (v ! (j + i) + z) :: u64) - ucast q * ucast (w ! i)"
  let ?E = "int (unat (v ! (j + i))) + sint z - int (unat q) * int (unat (w ! i))"
  have bE: "- (int BASE * int BASE) \<le> ?E" "?E < int BASE" using qy x z by linarith+
  have sZ: "sint Z = ?E"
  proof -
    have "- (2 ^ 63) \<le> ?E" by (rule order_trans [OF _ bE(1)]) (simp add: BASE_def)
    moreover have "?E < 2 ^ 63" by (rule less_trans [OF bE(2)]) (simp add: BASE_def)
    ultimately show ?thesis unfolding Z_def
      using sint_diff64 [of "scast (v ! (j + i) + z)" "ucast q * ucast (w ! i)"] by (simp only: sint_up s1 s2)
  qed
  have bZ: "- (int BASE * int BASE) \<le> sint Z" "sint Z < int BASE" using bE unfolding sZ by auto
  then have d: "- int BASE \<le> sint Z div 2 ^ 30" "sint Z div 2 ^ 30 \<le> 0" by (auto simp: BASE_def)
  have hi: "sint (ucast (signed_drop_bit 30 Z) :: u32) = sint Z div int BASE"
    using d by (subst hi_digit) (simp_all add: BASE_def)
  have lo: "int (unat ((ucast Z :: u32) AND FKL_BIGINT_DIGIT_MASK)) = sint Z mod int BASE"
    using lo_digit [of Z] by (simp add: BASE_def)
  let ?r = "r[j + i := ucast Z AND FKL_BIGINT_DIGIT_MASK]"
  have tk: "take j ?r = take j v" using inv t by simp
  have dr: "drop (j + Suc i) ?r = drop (j + Suc i) v" using inv t drop_Suc_eq [of "j + i" r v] by simp
  have ok: "digits_ok (take (Suc i) (drop j ?r))" using inv t l by (simp add: drop_update_at take_update)
  have "int (val (take (Suc i) (drop j ?r))) = int (val (take i (drop j r))) + int BASE ^ i * (sint Z mod int BASE)"
    using l by (simp add: drop_update_at take_update lo del: of_nat_unat int_nat_eq)
  moreover have "int BASE ^ Suc i * (sint Z div int BASE) + int BASE ^ i * (sint Z mod int BASE) = int BASE ^ i * sint Z"
  proof -
    have "int BASE ^ Suc i * (sint Z div int BASE) + int BASE ^ i * (sint Z mod int BASE)
      = int BASE ^ i * (int BASE * (sint Z div int BASE) + sint Z mod int BASE)"
      by (simp only: power_Suc distrib_left mult.assoc mult.left_commute [of "int BASE"])
    then show ?thesis unfolding mult_div_mod_eq .
  qed
  ultimately have "int (val (take (Suc i) (drop j ?r))) + int BASE ^ Suc i * (sint Z div int BASE)
    = int (val (take i (drop j r))) + int BASE ^ i * sint Z" by linarith
  also have "\<dots> = int (val (take (Suc i) (drop j v))) - int (unat q) * int (val (take (Suc i) w))"
    using inv t l unfolding sZ by (simp add: val_take_Suc algebra_simps del: of_nat_unat int_nat_eq)
  finally have v: "int (val (take (Suc i) (drop j ?r))) + int BASE ^ Suc i * (sint Z div int BASE)
    = int (val (take (Suc i) (drop j v))) - int (unat q) * int (val (take (Suc i) w))" .
  have "sint Z div int BASE = sint Z div 2 ^ 30" by (simp add: BASE_def)
  then have hb: "- int BASE \<le> sint Z div int BASE" "sint Z div int BASE \<le> 0" using d by simp_all
  show "wp (case t of (v, zhi) \<Rightarrow> do {
       x \<leftarrow> rd v (j + i);
       y \<leftarrow> rd w i;
       let z = (scast (x + zhi) :: u64) - ucast q * ucast y;
       v \<leftarrow> wr v (j + i) (ucast z AND FKL_BIGINT_DIGIT_MASK);
       Some (v, ucast (signed_drop_bit FKL_BIGINT_DIGIT_SHIFT z)) })
    (\<lambda>(r, z). length r = length v \<and> take j r = take j v \<and> drop (j + Suc i) r = drop (j + Suc i) v
    \<and> digits_ok (take (Suc i) (drop j r)) \<and> - int BASE \<le> sint (z :: u32) \<and> sint z \<le> 0
    \<and> int (val (take (Suc i) (drop j r))) + int BASE ^ Suc i * sint z = int (val (take (Suc i) (drop j v))) - int (unat q) * int (val (take (Suc i) w)))"
    unfolding t prod.case wp_simps wp_rd wp_wr wp_let Let_def ri Z_def [symmetric]
    unfolding hi using v hb ok tk dr l inv t by simp
qed simp_all

lemma wp_add_back:
  assumes "j + n \<le> length v" "n \<le> length w" "digits_ok (take n (drop j v))" "digits_ok (take n w)"
  shows "wp (add_back v j w n) (\<lambda>(r, c). length r = length v \<and> take j r = take j v \<and> drop (j + n) r = drop (j + n) v
    \<and> digits_ok (take n (drop j r)) \<and> unat c \<le> 1
    \<and> val (take n (drop j r)) + BASE ^ n * unat c = val (take n (drop j v)) + val (take n w))"
  unfolding add_back_def
proof (rule wp_for_up [where I = "\<lambda>i (r, c). length r = length v \<and> take j r = take j v \<and> drop (j + i) r = drop (j + i) v
    \<and> digits_ok (take i (drop j r)) \<and> unat (c :: u32) \<le> 1
    \<and> val (take i (drop j r)) + BASE ^ i * unat c = val (take i (drop j v)) + val (take i w)"])
  fix i and t :: "u32 list \<times> u32"
  assume i: "0 \<le> i" "i < n" and inv: "case t of (r, c) \<Rightarrow> length r = length v \<and> take j r = take j v \<and> drop (j + i) r = drop (j + i) v
    \<and> digits_ok (take i (drop j r)) \<and> unat (c :: u32) \<le> 1
    \<and> val (take i (drop j r)) + BASE ^ i * unat c = val (take i (drop j v)) + val (take i w)"
  obtain r c where t: "t = (r, c)" by (cases t)
  have l: "j + i < length v" "j + i < length r" "i < length w" using i assms inv t by auto
  have "drop (j + i) r = drop (j + i) v" using inv t by simp
  then have ri: "r ! (j + i) = v ! (j + i)" using l drop_eq_nth [of "j + i" r v "j + i"] inv t by simp
  have x: "unat (v ! (j + i)) < BASE" using digits_ok_nth [OF assms(3) i(2)] l by simp
  have y: "unat (w ! i) < BASE" using digits_ok_nth [OF assms(4) i(2)] l by simp
  have c: "unat c \<le> 1" using inv t by simp
  define Z where "Z = c + (v ! (j + i) + w ! i)"
  have "unat (v ! (j + i) + w ! i) = unat (v ! (j + i)) + unat (w ! i)"
    using x y by (intro unat_add_less) (simp add: BASE_def)
  then have uZ: "unat Z = unat c + (unat (v ! (j + i)) + unat (w ! i))" unfolding Z_def
    using x y c by (subst unat_add_less) (simp_all add: BASE_def)
  have "unat Z < 2 * BASE" using uZ x y c by linarith
  then have hi: "unat Z div BASE \<le> 1" using less_mult_imp_div_less [of "unat Z" 2 BASE] by simp
  let ?r = "r[j + i := Z AND FKL_BIGINT_DIGIT_MASK]"
  have tk: "take j ?r = take j v" using inv t by simp
  have dr: "drop (j + Suc i) ?r = drop (j + Suc i) v" using inv t drop_Suc_eq [of "j + i" r v] by simp
  have ok: "digits_ok (take (Suc i) (drop j ?r))" using inv t l by (simp add: drop_update_at take_update)
  have "val (take (Suc i) (drop j ?r)) + BASE ^ Suc i * (unat Z div BASE) = val (take i (drop j r)) + BASE ^ i * unat Z"
    using l digit_step [of i "unat Z"] by (simp add: drop_update_at take_update unat_lo)
  also have "\<dots> = val (take (Suc i) (drop j v)) + val (take (Suc i) w)"
    using inv t l unfolding uZ by (simp add: val_take_Suc algebra_simps)
  finally have v: "val (take (Suc i) (drop j ?r)) + BASE ^ Suc i * (unat Z div BASE)
    = val (take (Suc i) (drop j v)) + val (take (Suc i) w)" .
  show "wp (case t of (v, carry) \<Rightarrow> do {
       x \<leftarrow> rd v (j + i);
       y \<leftarrow> rd w i;
       let carry = carry + (x + y);
       v \<leftarrow> wr v (j + i) (carry AND FKL_BIGINT_DIGIT_MASK);
       Some (v, drop_bit FKL_BIGINT_DIGIT_SHIFT carry) })
    (\<lambda>(r, c). length r = length v \<and> take j r = take j v \<and> drop (j + Suc i) r = drop (j + Suc i) v
    \<and> digits_ok (take (Suc i) (drop j r)) \<and> unat (c :: u32) \<le> 1
    \<and> val (take (Suc i) (drop j r)) + BASE ^ Suc i * unat c = val (take (Suc i) (drop j v)) + val (take (Suc i) w))"
    unfolding t prod.case wp_simps wp_rd wp_wr wp_let Let_def ri Z_def [symmetric]
    unfolding unat_hi using v hi ok tk dr l inv t by simp
qed simp_all


section \<open>One quotient digit\<close>

lemma val_top_digits:
  assumes "k + 2 \<le> length xs"
  shows "val (take (k + 2) xs) = val (take k xs) + BASE ^ k * (BASE * unat (xs ! (k + 1)) + unat (xs ! k))"
proof -
  have "val (take (Suc (Suc k)) xs) = val (take k xs) + BASE ^ k * unat (xs ! k) + BASE ^ Suc k * unat (xs ! Suc k)"
    using assms by (simp only: val_take_Suc)
  then show ?thesis by (simp add: distrib_left ac_simps)
qed

lemma window_zero:
  fixes x y B m :: int
  assumes "x + B * y = m" "0 \<le> x" "x < B" "0 \<le> m" "m < B"
  shows "y = 0"
proof -
  have "x div B = 0" "m div B = 0" using assms(2-5) by (simp_all add: div_pos_pos_trivial)
  moreover have "(x + B * y) div B = y + x div B" using assms(2,3) by simp
  ultimately show ?thesis unfolding assms(1) by simp
qed

lemma wp_div_step:
  assumes n: "2 \<le> n" "n \<le> length w" "digits_ok (take n w)" and norm: "BASE \<le> 2 * unat (w ! (n - 1))"
    and v: "j + n < length v" "digits_ok (take (Suc n) (drop j v))" "j < length a"
    and UW: "val (take (Suc n) (drop j v)) < BASE * val (take n w)"
  shows "wp (div_step w n j (v, a)) (\<lambda>(r, b). length r = length v \<and> take j r = take j v \<and> digits_ok (take n (drop j r))
    \<and> val (take n (drop j r)) = val (take (Suc n) (drop j v)) mod val (take n w)
    \<and> (\<exists>q. b = a[j := q] \<and> unat q < BASE \<and> unat q = val (take (Suc n) (drop j v)) div val (take n w)))"
proof -
  obtain k where k: "n = k + 2" using n(1) by (metis le_iff_add add.commute)
  let ?v = "drop j v" and ?W = "val (take n w)"
  let ?U = "val (take (Suc n) ?v)" and ?S = "val (take n ?v)"
  have lv: "Suc n \<le> length ?v" using v(1) by simp
  have ok: "digits_ok (take n ?v)" using v(2) by (rule digits_ok_take) simp
  have W: "?W = val (take k w) + BASE ^ k * (BASE * unat (w ! (n - 1)) + unat (w ! (n - 2)))"
    using val_top_digits [of k w] n(2) k by simp
  have Wl: "val (take k w) < BASE ^ k" using n k by (intro val_take_less) (auto intro: digits_ok_take)
  have S: "?S = val (take k ?v) + BASE ^ k * (BASE * unat (v ! (j + n - 1)) + unat (v ! (j + n - 2)))"
    using val_top_digits [of k ?v] lv k by simp
  have US: "?U = ?S + BASE ^ n * unat (v ! (j + n))" using lv by (simp add: val_take_Suc)
  have U: "?U = val (take k ?v) + BASE ^ k * (BASE * (BASE * unat (v ! (j + n)) + unat (v ! (j + n - 1))) + unat (v ! (j + n - 2)))"
  proof -
    have "BASE ^ n = BASE ^ k * BASE * BASE" by (simp add: k power_add power2_eq_square)
    then show ?thesis unfolding US S by (simp add: algebra_simps)
  qed
  have Ul: "val (take k ?v) < BASE ^ k" using ok lv k by (intro val_take_less) (auto intro: digits_ok_take)
  have dw: "unat (w ! (n - 1)) < BASE" "unat (w ! (n - 2)) < BASE" using n by (auto intro!: digits_ok_nth)
  have dv: "unat (v ! (j + n)) < BASE" "unat (v ! (j + n - 1)) < BASE" "unat (v ! (j + n - 2)) < BASE"
    using digits_ok_nth [OF v(2), of n] digits_ok_nth [OF v(2), of "n - 1"] digits_ok_nth [OF v(2), of "n - 2"] lv n(1) by simp_all
  have Wpos: "0 < ?W" using UW by (cases ?W) auto
  have est: "wp (estimate_quotient (w ! (n - 1)) (w ! (n - 2)) (v ! (j + n)) (v ! (j + n - 1)) (v ! (j + n - 2)))
      (\<lambda>q. unat q \<le> BASE \<and> ?U div ?W \<le> unat q \<and> unat q \<le> ?U div ?W + 1)"
    by (rule wp_estimate_quotient [OF dw dv norm W Wl U Ul UW])
  have QB: "?U div ?W < BASE" using UW Wpos by (simp add: div_less_iff_less_mult)
  have WB: "?W < BASE ^ n" using n by (intro val_take_less) auto
  obtain q where q: "estimate_quotient (w ! (n - 1)) (w ! (n - 2)) (v ! (j + n)) (v ! (j + n - 1)) (v ! (j + n - 2)) = Some q"
    and qb: "unat q \<le> BASE" "?U div ?W \<le> unat q" "unat q \<le> ?U div ?W + 1" using est by (auto elim: wpE)
  have jn: "j + n \<le> length v" using v(1) by simp
  obtain r z where sub: "sub_product v j w n q = Some (r, z)" and r: "length r = length v" "take j r = take j v"
    "drop (j + n) r = drop (j + n) v" "digits_ok (take n (drop j r))" and zb: "- int BASE \<le> sint z" "sint z \<le> 0"
    and rv: "int (val (take n (drop j r))) + int BASE ^ n * sint z = int ?S - int (unat q) * int ?W"
    using wp_sub_product [OF jn n(2) ok n(3) qb(1)] by (auto elim!: wpE simp del: of_nat_unat int_nat_eq)
  define y where "y = sint z + int (unat (v ! (j + n)))"
  have "sint (v ! (j + n)) = int (unat (v ! (j + n)))" using uint_less_BASE [OF dv(1)] by (simp add: sint_32)
  then have y: "sint (v ! (j + n) + z) = y" unfolding y_def
    using zb dv(1) by (subst sint_add) (simp_all add: BASE_def del: of_nat_unat int_nat_eq)
  let ?R = "val (take n (drop j r))"
  have RB: "?R < BASE ^ n" using r v by (intro val_take_less) auto
  have main: "int ?R + int BASE ^ n * y = int ?U - int (unat q) * int ?W"
    using rv unfolding y_def US by (simp add: distrib_left del: of_nat_unat int_nat_eq)
  have divmod: "?U = ?U div ?W * ?W + ?U mod ?W" by simp
  have mW: "?U mod ?W < ?W" using Wpos by simp
  have RBi: "int ?R < int BASE ^ n" using iffD2 [OF of_nat_less_iff RB] unfolding of_nat_power .
  have WBi: "int ?W < int BASE ^ n" using iffD2 [OF of_nat_less_iff WB] unfolding of_nat_power .
  have mWi: "int (?U mod ?W) < int ?W" using iffD2 [OF of_nat_less_iff mW] .
  have jl: "j + n - 1 < length v" "j + n - 2 < length v" "n - 1 < length w" "n - 2 < length w" using v(1) n by auto
  show ?thesis
  proof (cases "unat q = ?U div ?W")
    case True
    have "int ?U = int (unat q) * int ?W + int (?U mod ?W)" using divmod True by (metis of_nat_add of_nat_mult)
    then have e: "int ?R + int BASE ^ n * y = int (?U mod ?W)" using main by linarith
    have "y = 0"
    proof (rule window_zero)
      show "int ?R + int BASE ^ n * y = int (?U mod ?W)" by (rule e)
      show "int ?R < int BASE ^ n" by (rule RBi)
      show "int (?U mod ?W) < int BASE ^ n" using mWi WBi by (rule less_trans)
    qed (rule of_nat_0_le_iff)+
    then have "sint (v ! (j + n) + z) = 0" "int ?R = int (?U mod ?W)" using y e by simp_all
    then have "v ! (j + n) + z = 0" "?R = ?U mod ?W" by (auto simp: sint_zero simp del: of_nat_mod)
    moreover have "q < FKL_BIGINT_DIGIT_BASE" using True QB by (simp add: word_less_nat_alt unat_DIGIT_BASE)
    ultimately show ?thesis using q sub r v n jl True QB
      by (auto simp: div_step_def word_sless_alt)
  next
    case False
    then have qs: "unat q = ?U div ?W + 1" using qb by linarith
    have "int ?U = int (unat q) * int ?W - int ?W + int (?U mod ?W)" 
    proof -
      have "?U + ?W = unat q * ?W + ?U mod ?W" using divmod unfolding qs distrib_right by linarith
      then have "int ?U + int ?W = int (unat q) * int ?W + int (?U mod ?W)" by (metis of_nat_add of_nat_mult)
      then show ?thesis by linarith
    qed
    then have e: "int ?R + int BASE ^ n * (y + 1) = int BASE ^ n - int ?W + int (?U mod ?W)"
      using main by (simp add: distrib_left)
    have "y + 1 = 0"
    proof (rule window_zero)
      show "int ?R + int BASE ^ n * (y + 1) = int BASE ^ n - int ?W + int (?U mod ?W)" by (rule e)
      show "int BASE ^ n - int ?W + int (?U mod ?W) < int BASE ^ n" "0 \<le> int BASE ^ n - int ?W + int (?U mod ?W)"
        using mWi WBi by linarith+
      show "int ?R < int BASE ^ n" by (rule RBi)
    qed (rule of_nat_0_le_iff)
    then have y1: "y = - 1" by simp
    then have top: "v ! (j + n) + z = - 1" using y sint_minus1_iff by blast
    have e': "?R + ?W = BASE ^ n + ?U mod ?W" 
    proof -
      have "int (?R + ?W) = int (BASE ^ n + ?U mod ?W)" using e y1 unfolding of_nat_add of_nat_power by simp
      then show ?thesis by (rule iffD1 [OF of_nat_eq_iff])
    qed
    obtain b c where add: "add_back r j w n = Some (b, c)" and b: "length b = length r" "take j b = take j r"
      "digits_ok (take n (drop j b))" and c: "unat c \<le> 1" and bv: "val (take n (drop j b)) + BASE ^ n * unat c = ?R + ?W"
      using wp_add_back [of j n r w] r jn n by (auto elim!: wpE)
    have bB: "val (take n (drop j b)) < BASE ^ n" using b r v by (intro val_take_less) auto
    have "unat c = 1" using bv e' bB c by (cases "unat c") auto
    then have bm: "val (take n (drop j b)) = ?U mod ?W" using bv e' by simp
    have "0 < unat q" using qs by simp
    then have "unat (q - 1) = unat q - 1" by (simp add: unat_minus_one unat_gt_0)
    then have uq: "unat (q - 1) = ?U div ?W" using qs by simp
    then have "q - 1 < FKL_BIGINT_DIGIT_BASE" using QB by (simp add: word_less_nat_alt unat_DIGIT_BASE)
    then show ?thesis using q sub r v n jl top add b bm uq QB
      by (auto simp: div_step_def word_sless_alt)
  qed
qed


section \<open>Long division of arrays\<close>

lemma wp_div_loop:
  assumes n: "2 \<le> n" "n \<le> length w" "digits_ok (take n w)" and norm: "BASE \<le> 2 * unat (w ! (n - 1))"
    and v: "k + n \<le> length v" "digits_ok (take (k + n) v)" "k \<le> length a"
    and top_less: "val (take n (drop k v)) < val (take n w)"
  shows "wp (for_down k (div_step w n) (v, a)) (\<lambda>(r, b). length r = length v \<and> length b = length a
    \<and> digits_ok (take n r) \<and> digits_ok (take k b)
    \<and> val (take n r) = val (take (k + n) v) mod val (take n w) \<and> val (take k b) = val (take (k + n) v) div val (take n w))"
proof -
  let ?W = "val (take n w)" and ?V = "val (take (k + n) v)"
  let ?I = "\<lambda>j (r, b). length r = length v \<and> length b = length a \<and> take j r = take j v \<and> digits_ok (take n (drop j r))
    \<and> digits_ok (drop j (take k b)) \<and> val (take n (drop j r)) < ?W
    \<and> ?V = BASE ^ j * (?W * val (drop j (take k b)) + val (take n (drop j r))) + val (take j v)"
  have "digits_ok (take n (drop k v))" using v(2) unfolding take_add by simp
  moreover have "?V = val (take k v) + BASE ^ k * val (take n (drop k v))"
    unfolding take_add val_append using v(1) by (simp add: min_def)
  ultimately have init: "?I k (v, a)" using top_less by simp
  show ?thesis
  proof (rule wp_for_down [where I = ?I, OF init])
    fix j and t :: "u32 list \<times> u32 list"
    assume j: "j < k" and inv: "?I (Suc j) t"
    obtain r b where t: "t = (r, b)" by (cases t)
    have i: "length r = length v" "length b = length a" "take (Suc j) r = take (Suc j) v"
      "digits_ok (take n (drop (Suc j) r))" "digits_ok (drop (Suc j) (take k b))" "val (take n (drop (Suc j) r)) < ?W"
      "?V = BASE ^ Suc j * (?W * val (drop (Suc j) (take k b)) + val (take n (drop (Suc j) r))) + val (take (Suc j) v)"
      using inv t by simp_all
    let ?R = "val (take n (drop (Suc j) r))" and ?Q = "val (drop (Suc j) (take k b))"
    have jl: "j + n < length r" "j < length b" "j < length r" "j < length v" using j v(1,3) i(1,2) by simp_all
    have U: "take (Suc n) (drop j r) = r ! j # take n (drop (Suc j) r)"
      using jl(3) by (simp add: Cons_nth_drop_Suc [symmetric])
    have "take (Suc j) r ! j = take (Suc j) v ! j" using i(3) by simp
    then have rj: "r ! j = v ! j" by simp
    have "unat (v ! j) < BASE" using digits_ok_nth [OF v(2)] j jl by simp
    then have ok: "digits_ok (take (Suc n) (drop j r))" and UB: "val (take (Suc n) (drop j r)) < BASE * (?R + 1)"
      unfolding U rj using i(4) by simp_all
    have "BASE * (?R + 1) \<le> BASE * ?W" using i(6) by (intro mult_le_mono2) simp
    then have UW: "val (take (Suc n) (drop j r)) < BASE * ?W" using UB by linarith
    obtain r' b' q where st: "div_step w n j (r, b) = Some (r', b')" and r': "length r' = length r" "take j r' = take j r"
      "digits_ok (take n (drop j r'))" "val (take n (drop j r')) = val (take (Suc n) (drop j r)) mod ?W"
      and b': "b' = b[j := q]" "unat q < BASE" "unat q = val (take (Suc n) (drop j r)) div ?W"
      using wp_div_step [OF n norm jl(1) ok jl(2) UW] by (auto elim!: wpE)
    have Wpos: "0 < ?W" using i(6) by linarith
    have dr: "drop j (take k b') = q # drop (Suc j) (take k b)" unfolding b'(1)
      using j jl(2) v(3) i(2) by (simp add: take_update_swap drop_update_swap Cons_nth_drop_Suc [symmetric])
    have "take j (take (Suc j) r) = take j (take (Suc j) v)" using i(3) by simp
    then have tj: "take j r' = take j v" using r'(2) by (simp add: min_def)
    have qm: "unat q * ?W + val (take n (drop j r')) = unat (v ! j) + BASE * ?R"
      unfolding b'(3) r'(4) U rj by simp
    have "?V = BASE ^ j * (BASE * (?W * ?Q) + (unat (v ! j) + BASE * ?R)) + val (take j v)"
      using i(7) val_take_Suc [OF jl(4)] by (simp add: algebra_simps)
    also have "BASE * (?W * ?Q) + (unat (v ! j) + BASE * ?R) = ?W * val (drop j (take k b')) + val (take n (drop j r'))"
      unfolding dr qm [symmetric] by (simp add: algebra_simps)
    finally have V: "?V = BASE ^ j * (?W * val (drop j (take k b')) + val (take n (drop j r'))) + val (take j v)" .
    have "val (take n (drop j r')) < ?W" unfolding r'(4) using Wpos by simp
    then show "wp (div_step w n j t) (?I j)"
      unfolding t st using i r' b'(1,2) tj V dr by simp
  next
    fix t :: "u32 list \<times> u32 list"
    assume inv: "?I 0 t"
    obtain r b where t: "t = (r, b)" by (cases t)
    have i: "val (take n r) < ?W" "?V = ?W * val (take k b) + val (take n r)" using inv t by simp_all
    then have "?V div ?W = val (take k b)" "?V mod ?W = val (take n r)" by simp_all
    then show "case t of (r, b) \<Rightarrow> length r = length v \<and> length b = length a
    \<and> digits_ok (take n r) \<and> digits_ok (take k b)
    \<and> val (take n r) = val (take (k + n) v) mod val (take n w) \<and> val (take k b) = val (take (k + n) v) div val (take n w)"
      using inv t by simp
  qed
qed

text \<open>The shift that makes the top digit of the divisor at least half the base.\<close>

lemma wp_normalize_divisor:
  assumes "2 \<le> n" "n \<le> length w1" "n \<le> length w" "digits_ok (take n w1)" "w1 ! (n - 1) \<noteq> 0"
    and l: "is_bit_length (unat (w1 ! (n - 1))) l"
  shows "0 < l" "l \<le> 30" "wp (v_lshift w w1 n (30 - l)) (\<lambda>(r, c). length r = length w \<and> digits_ok (take n r) \<and> c = 0
    \<and> BASE \<le> 2 * unat (r ! (n - 1)) \<and> val (take n r) = 2 ^ (30 - l) * val (take n w1))"
proof -
  let ?x = "unat (w1 ! (n - 1))" and ?d = "30 - l"
  have xn: "?x \<noteq> 0" using assms(5) by (simp add: unat_eq_zero)
  then have b: "0 < l" "2 ^ (l - 1) \<le> ?x" "?x < 2 ^ l" using l by (auto simp: is_bit_length_def)
  have xB: "?x < BASE" using assms by (intro digits_ok_nth) auto
  show lpos: "0 < l" by (rule b)
  show l30: "l \<le> 30"
  proof (rule ccontr)
    assume "\<not> l \<le> 30"
    then have "(2::nat) ^ 30 \<le> 2 ^ (l - 1)" by (intro power_increasing) auto
    then show False using b(2) xB by (simp add: BASE_def)
  qed
  obtain k where k: "n = Suc k" using assms(1) by (cases n) auto
  let ?L = "val (take k w1)"
  have W: "val (take n w1) = ?L + BASE ^ k * ?x" unfolding k using assms k by (simp add: val_take_Suc)
  have L: "?L < BASE ^ k" using assms k by (intro val_take_less) (auto intro: digits_ok_take)
  have d: "?d < 30" using lpos by simp
  have B1: "2 ^ ?d * 2 ^ l = BASE" using l30 by (simp add: BASE_def flip: power_add)
  have "?d + (l - 1) = 29" using lpos l30 by simp
  then have B2: "2 ^ ?d * 2 ^ (l - 1) = (2 :: nat) ^ 29" by (metis power_add)
  have up: "2 ^ ?d * val (take n w1) < BASE ^ n"
  proof -
    have "val (take n w1) < BASE ^ k * (?x + 1)" unfolding W using L by simp
    also have "\<dots> \<le> BASE ^ k * 2 ^ l" using b(3) by (intro mult_le_mono2) simp
    finally have "2 ^ ?d * val (take n w1) < 2 ^ ?d * (BASE ^ k * 2 ^ l)" by simp
    also have "\<dots> = BASE ^ k * (2 ^ ?d * 2 ^ l)" by (simp only: ac_simps)
    also have "\<dots> = BASE ^ n" unfolding B1 k by (simp only: power_Suc mult.commute)
    finally show ?thesis .
  qed
  have lo: "BASE ^ k * 2 ^ 29 \<le> 2 ^ ?d * val (take n w1)"
  proof -
    have "BASE ^ k * 2 ^ (l - 1) \<le> val (take n w1)" unfolding W using b(2) by (intro trans_le_add2 mult_le_mono2)
    then have "2 ^ ?d * (BASE ^ k * 2 ^ (l - 1)) \<le> 2 ^ ?d * val (take n w1)" by simp
    moreover have "2 ^ ?d * (BASE ^ k * 2 ^ (l - 1)) = BASE ^ k * (2 ^ ?d * 2 ^ (l - 1))" by (simp only: ac_simps)
    ultimately show ?thesis by (simp only: B2)
  qed
  show "wp (v_lshift w w1 n ?d) (\<lambda>(r, c). length r = length w \<and> digits_ok (take n r) \<and> c = 0
    \<and> BASE \<le> 2 * unat (r ! (n - 1)) \<and> val (take n r) = 2 ^ ?d * val (take n w1))"
  proof (rule wp_mono [OF wp_v_lshift [OF assms(2,3,4) d]])
    fix t :: "u32 list \<times> u32"
    assume a: "case t of (r, c) \<Rightarrow> length r = length w \<and> digits_ok (take n r) \<and> unat c < 2 ^ ?d
      \<and> drop n r = drop n w \<and> val (take n r) + BASE ^ n * unat c = 2 ^ ?d * val (take n w1)"
    obtain r c where t: "t = (r, c)" by (cases t)
    have r: "length r = length w" "digits_ok (take n r)" "val (take n r) + BASE ^ n * unat c = 2 ^ ?d * val (take n w1)"
      using a t by simp_all
    have "BASE ^ n * unat c < BASE ^ n * 1" using r(3) up by linarith
    then have "unat c = 0" by (simp only: mult_less_cancel1) simp
    then have c: "c = 0" by (simp add: unat_eq_zero)
    have v: "val (take n r) = 2 ^ ?d * val (take n w1)" using r(3) c by simp
    have "val (take n r) = val (take k r) + BASE ^ k * unat (r ! k)" unfolding k using r(1) assms(3) k by (simp add: val_take_Suc)
    moreover have "val (take k r) < BASE ^ k" using r assms k by (intro val_take_less) (auto intro: digits_ok_take)
    ultimately have "BASE ^ k * 2 ^ 29 < BASE ^ k * unat (r ! k) + BASE ^ k" using lo unfolding v by linarith
    then have "BASE ^ k * 2 ^ 29 < BASE ^ k * (unat (r ! k) + 1)" by (simp only: distrib_left mult_1_right)
    then have "2 ^ 29 < unat (r ! k) + 1" by (simp only: mult_less_cancel1)
    then have "BASE \<le> 2 * unat (r ! (n - 1))" using k by (simp add: BASE_def)
    then show "case t of (r, c) \<Rightarrow> length r = length w \<and> digits_ok (take n r) \<and> c = 0
      \<and> BASE \<le> 2 * unat (r ! (n - 1)) \<and> val (take n r) = 2 ^ ?d * val (take n w1)" using t r c v by simp
  qed
qed


lemma val_top_less:
  assumes "0 < n" "n \<le> length xs" "n \<le> length ys" "digits_ok (take n xs)" "unat (xs ! (n - 1)) < unat (ys ! (n - 1))"
  shows "val (take n xs) < val (take n ys)"
  using assms by (intro val_less_at [of "n - 1"]) auto

lemma wp_extend_dividend:
  assumes "0 < n" "n \<le> m" "m < length v" "digits_ok (take m v)" "n \<le> length w" "unat c < 2 ^ d" "d < 30"
    "BASE \<le> 2 * unat (w ! (n - 1))"
  shows "wp (extend_dividend v m w n c) (\<lambda>(r, k). length r = length v \<and> n \<le> k \<and> k \<le> length v \<and> digits_ok (take k r)
      \<and> val (take k r) = val (take m v) + BASE ^ m * unat c \<and> val (take n (drop (k - n) r)) < val (take n w))"
proof (cases "c \<noteq> 0 \<or> w ! (n - 1) \<le> v ! (m - 1)")
  case True
  have "(2::nat) ^ d \<le> 2 ^ 29" using assms(7) by (intro power_increasing) auto
  then have c: "unat c < unat (w ! (n - 1))" "unat c < BASE" using assms(6,8) by (simp_all add: BASE_def)
  let ?r = "v[m := c]"
  have ok: "digits_ok (take (Suc m) ?r)" using assms c by (simp add: take_update)
  have "take (Suc m) ?r = take (Suc m - n) ?r @ take n (drop (Suc m - n) ?r)"
    using assms(2) take_add [of "Suc m - n" n ?r] by simp
  then have okw: "digits_ok (take n (drop (Suc m - n) ?r))" using ok by (metis digits_ok_simps(3))
  have "drop (Suc m - n) ?r ! (n - 1) = c" using assms(1-3) by simp
  then have "val (take n (drop (Suc m - n) ?r)) < val (take n w)"
    using assms c okw by (intro val_top_less) auto
  moreover have "extend_dividend v m w n c = Some (?r, m + 1)"
    using True assms by (auto simp: extend_dividend_def rd_def wr_def)
  ultimately show ?thesis using assms ok by (simp add: take_update)
next
  case False
  have "take m v = take (m - n) v @ take n (drop (m - n) v)" using assms(2) take_add [of "m - n" n v] by simp
  then have okw: "digits_ok (take n (drop (m - n) v))" using assms(4) by (metis digits_ok_simps(3))
  have "drop (m - n) v ! (n - 1) = v ! (m - 1)" using assms(1-3) by simp
  then have "val (take n (drop (m - n) v)) < val (take n w)"
    using assms False okw by (intro val_top_less) (auto simp: word_less_nat_alt not_le)
  moreover have "extend_dividend v m w n c = Some (v, m)"
    using False assms by (auto simp: extend_dividend_def rd_def)
  ultimately show ?thesis using False assms by simp
qed

lemma wp_divrem_digits:
  assumes n: "2 \<le> n" "n \<le> m" "m < length v" "digits_ok (take m v)"
    and w1: "n \<le> length w1" "n \<le> length w" "digits_ok (take n w1)" "w1 ! (n - 1) \<noteq> 0"
  shows "wp (divrem_digits v m w w1 n) (\<lambda>(r, s, a). length r = length v \<and> length s = length w \<and> digits_ok (take n s)
    \<and> val (take n s) = val (take m v) mod val (take n w1)
    \<and> bi_ok a \<and> \<not> const_size a \<and> 0 \<le> num a \<and> mag a = val (take m v) div val (take n w1))"
proof -
  let ?V = "val (take m v)" and ?W = "val (take n w1)"
  have n0: "0 < n" using n(1) by simp
  obtain l where bl: "bit_length_digit (ucast (w1 ! (n - 1))) = Some l" and l: "is_bit_length (unat (w1 ! (n - 1))) l"
    using wp_bit_length_digit [of "ucast (w1 ! (n - 1))"] by (auto elim!: wpE)
  note nd = wp_normalize_divisor [OF n(1) w1 l]
  define d where "d = 30 - l"
  have d30: "d < 30" using nd(1) by (simp add: d_def)
  obtain w' where ls: "v_lshift w w1 n d = Some (w', 0)" and w': "length w' = length w" "digits_ok (take n w')"
    "BASE \<le> 2 * unat (w' ! (n - 1))" "val (take n w') = 2 ^ d * ?W"
    using nd(3) unfolding d_def by (auto elim!: wpE)
  have mv: "m \<le> length v" using n(3) by simp
  obtain v' c where vs: "v_lshift v v m d = Some (v', c)" and v': "length v' = length v" "digits_ok (take m v')"
    "unat c < 2 ^ d" "val (take m v') + BASE ^ m * unat c = 2 ^ d * ?V"
    using wp_v_lshift [OF mv mv n(4) d30] by (auto elim!: wpE)
  have mv': "m < length v'" "n \<le> length w'" using n(3) v'(1) w' w1 by simp_all
  obtain v2 m2 where ex: "extend_dividend v' m w' n c = Some (v2, m2)"
    and v2: "length v2 = length v'" "n \<le> m2" "m2 \<le> length v'" "digits_ok (take m2 v2)"
      "val (take m2 v2) = 2 ^ d * ?V" "val (take n (drop (m2 - n) v2)) < val (take n w')"
    using wp_extend_dividend [OF n0 n(2) mv'(1) v'(2) mv'(2) v'(3) d30 w'(3)] unfolding v'(4) by (auto elim!: wpE)
  define k where "k = m2 - n"
  have k: "k + n = m2" using v2(2) by (simp add: k_def)
  obtain a where en: "ensure_bigint_size FKL_BIGINT_0 k = Some a" and a: "\<not> const_size a" "bsize a = k" "length (digits a) = k"
    using wp_ensure [of FKL_BIGINT_0 k] by (auto elim!: wpE simp: FKL_BIGINT_0_def bi_room_def)
  have pre: "k + n \<le> length v2" "digits_ok (take (k + n) v2)" "k \<le> length (digits a)" "val (take n (drop k v2)) < val (take n w')"
    using v2 a k by (simp_all add: k_def)
  obtain r b where lo: "for_down k (div_step w' n) (v2, digits a) = Some (r, b)" and r: "length r = length v2" "length b = length (digits a)"
    "digits_ok (take n r)" "digits_ok (take k b)"
    "val (take n r) = (2 ^ d * ?V) mod (2 ^ d * ?W)" "val (take k b) = (2 ^ d * ?V) div (2 ^ d * ?W)"
    using wp_div_loop [OF n(1) mv'(2) w'(2,3) pre] unfolding k v2(5) w'(4) by (auto elim!: wpE)
  have nr: "n \<le> length r" "n \<le> length w'" using r(1) v2 mv' by simp_all
  obtain s c2 where rs: "v_rshift w' r n d = Some (s, c2)" and s: "length s = length w'" "digits_ok (take n s)"
    "unat c2 < 2 ^ d" "2 ^ d * val (take n s) + unat c2 = 2 ^ d * (?V mod ?W)"
    using wp_v_rshift [OF nr r(3) d30] unfolding r(5) mult_mod_right [symmetric] by (auto elim!: wpE)
  have "(2 ^ d * val (take n s) + unat c2) mod 2 ^ d = 0" unfolding s(4) by simp
  then have "unat c2 = 0" using s(3) by simp
  then have c2: "c2 = 0" "val (take n s) = ?V mod ?W" using s(4) by (simp_all add: unat_eq_zero)
  have q: "val (take k b) = ?V div ?W" unfolding r(6) by simp
  let ?a = "a\<lparr>num := int k, digits := b\<rparr>"
  have "bi_ok ?a" "mag ?a = ?V div ?W" using a r q by (simp_all add: bi_ok_def mag_def used_def len_def)
  moreover have "n - 1 < length w1" using n w1 by auto
  ultimately show ?thesis
    using bl ls vs ex en lo rs s(1,2) w'(1) v'(1) v2(1,2) r(1) c2 nd(2) a(1)
    by (simp add: divrem_digits_def Let_def d_def [symmetric] k_def [symmetric])
qed

end
