(* ===== verification/BigIntDivRem.thy ===== *)
theory BigIntDivRem
  imports BigIntDiv "HOL-Library.Signed_Division"
begin

text \<open>
  Correctness of the division of src/bigint.c: quotient and remainder as C defines them (truncated
  towards zero, the remainder with the sign of the dividend), division by zero, the divisibility
  tests.
\<close>

section \<open>Division of big integers\<close>

text \<open>
  What the two division routines leave behind before the signs are set: the magnitude of the
  quotient in the dividend, and the remainder where it is wanted.
\<close>

definition rem_own :: "FklRem \<Rightarrow> bool" where
  "rem_own rem = (case rem of RemOther r \<Rightarrow> bi_own r | _ \<Rightarrow> True)"

definition rem_is :: "FklRem \<Rightarrow> FklBigInt \<Rightarrow> FklRem \<Rightarrow> int \<Rightarrow> bool" where
  "rem_is rem a' rem' x = (case rem of
     NoRem \<Rightarrow> rem' = NoRem
   | RemSame \<Rightarrow> rem' = RemSame \<and> bi_own a' \<and> bi_val a' = x
   | RemOther r \<Rightarrow> (\<exists>r'. rem' = RemOther r' \<and> bi_own r' \<and> bi_val r' = x))"

definition magnitudes :: "FklBigInt \<Rightarrow> FklBigInt \<Rightarrow> FklRem \<Rightarrow> FklBigInt \<times> FklRem \<Rightarrow> bool" where
  "magnitudes a b rem = (\<lambda>(a', rem').
     (rem \<noteq> RemSame \<longrightarrow> bi_ok a' \<and> \<not> const_size a' \<and> mag a' = mag a div mag b)
     \<and> rem_is rem a' rem' (int (mag a mod mag b)))"

lemma bi_val_nonneg: "0 \<le> num a \<Longrightarrow> bi_val a = int (mag a)"
  by (cases "num a = 0") (simp_all add: bi_val_def mag_def used_def len_def)

lemma wp_store_rem:
  assumes "rem \<noteq> RemSame \<longrightarrow> P a" "rem_own rem" "rem = RemSame \<longrightarrow> wp (f a) (\<lambda>r. bi_own r \<and> bi_val r = x)"
    "\<And>r. bi_own r \<Longrightarrow> wp (f r) (\<lambda>r. bi_own r \<and> bi_val r = x)"
  shows "wp (store_rem a rem f) (\<lambda>(a', rem'). (rem \<noteq> RemSame \<longrightarrow> a' = a) \<and> rem_is rem a' rem' x)"
  using assms by (cases rem) (auto simp: store_rem_def rem_own_def rem_is_def elim!: wp_mono)

lemma wp_divrem1:
  assumes a: "bi_own a" "num a \<noteq> 0" and b: "bi_wf b" "len b = 1" and rem: "rem_own rem"
  shows "wp (divrem1 a (len a) (digits b ! 0) rem) (magnitudes a b rem)"
proof -
  let ?d = "digits b ! 0"
  have ok: "bi_ok a" "\<not> const_size a" using a by (auto simp: bi_own_def bi_wf_def)
  have bl: "0 < length (digits b)" "digits_ok (take 1 (digits b))" "?d \<noteq> 0" "mag b = unat ?d"
  proof -
    have okb: "bi_ok b" using b(1) by (rule bi_wf_ok)
    then show l: "0 < length (digits b)" using b(2) by (simp add: bi_ok_def)
    show "digits_ok (take 1 (digits b))" using okb b(2) by (simp add: bi_ok_def used_def)
    have "num b \<noteq> 0" using b(2) by (auto simp: len_def)
    then show "?d \<noteq> 0" using b by (simp add: bi_wf_def)
    show "mag b = unat ?d" using b(2) l by (cases "digits b") (simp_all add: mag_def used_def)
  qed
  have dB: "unat ?d < BASE" using bl by (intro digits_ok_nth) auto
  then have "?d \<le> FKL_BIGINT_DIGIT_MASK"
    by (simp add: word_le_nat_alt FKL_BIGINT_DIGIT_MASK_def FKL_BIGINT_DIGIT_BASE_def push_bit_of_1 BASE_def)
  have la: "len a \<le> length (digits a)" "digits_ok (take (len a) (digits a))" using ok by (auto simp: bi_ok_def used_def)
  obtain p m where lp: "divrem1_loop (digits a) (len a) ?d = Some (p, m)" and p: "length p = length (digits a)"
    "digits_ok (take (len a) p)" "unat m < unat ?d" "val (take (len a) p) * unat ?d + unat m = mag a"
    using wp_divrem1_loop [OF la bl(3) dB] by (auto elim!: wpE simp: mag_def used_def)
  have "(val (take (len a) p) * unat ?d + unat m) div unat ?d = val (take (len a) p)"
    "(val (take (len a) p) * unat ?d + unat m) mod unat ?d = unat m" using p(3) by simp_all
  then have q: "val (take (len a) p) = mag a div mag b" "unat m = mag a mod mag b" unfolding p(4) bl(4) by simp_all
  let ?a = "a\<lparr>digits := p\<rparr>"
  have ok': "bi_ok ?a" "mag ?a = mag a div mag b" 
  proof -
    have l: "len ?a = len a" by (simp add: len_def)
    then show "mag ?a = mag a div mag b" using q(1) by (simp add: mag_def used_def)
    show "bi_ok ?a" using ok(1) p(1,2) l by (simp add: bi_ok_def used_def)
  qed
  have set: "wp (fklSetBigIntI r (ucast m)) (\<lambda>r. bi_own r \<and> bi_val r = int (mag a mod mag b))" if "bi_room r 3" "\<not> const_size r" for r
  proof -
    have "uint m = int (mag a mod mag b)" using q(2) by (metis uint_nat)
    then show ?thesis using that by (intro wp_mono [OF wp_fklSetBigIntI]) (auto simp: bi_own_def sint_ucast_up)
  qed
  have room: "bi_room ?a 3" using ok' ok by (simp add: bi_room_def bi_ok_def)
  have "wp (store_rem ?a rem (\<lambda>r. fklSetBigIntI r (ucast m))) (\<lambda>(a', rem'). (rem \<noteq> RemSame \<longrightarrow> a' = ?a)
    \<and> rem_is rem a' rem' (int (mag a mod mag b)))"
  proof (rule wp_store_rem [where P = "\<lambda>a. True", OF _ rem])
    show "rem = RemSame \<longrightarrow> wp (fklSetBigIntI ?a (ucast m)) (\<lambda>r. bi_own r \<and> bi_val r = int (mag a mod mag b))"
      using ok by (intro impI set) (simp_all add: room)
    fix r assume "bi_own r"
    then show "wp (fklSetBigIntI r (ucast m)) (\<lambda>r. bi_own r \<and> bi_val r = int (mag a mod mag b))"
      by (intro set bi_own_room bi_own_const)
  qed simp
  then show ?thesis using a(2) \<open>?d \<le> FKL_BIGINT_DIGIT_MASK\<close> lp ok ok'
    by (auto simp: divrem1_def magnitudes_def len_def elim!: wp_mono)
qed

lemma wp_set_own:
  assumes "bi_ok w" "0 \<le> num w" "length (digits r) = bsize r" "\<not> const_size r"
  shows "wp (do { w \<leftarrow> bigint_normalize w; fklSetBigInt r w }) (\<lambda>r. bi_own r \<and> bi_val r = int (mag w))"
proof -
  have "wp (fklSetBigInt r x) (\<lambda>r. bi_own r \<and> bi_val r = int (mag w))" if "bi_wf x \<and> bi_val x = bi_val w" for x
    using that assms by (intro wp_mono [OF wp_fklSetBigInt]) (auto simp: bi_room_def bi_own_def bi_val_nonneg)
  then show ?thesis unfolding wp_simps by (intro wp_mono [OF wp_normalize [OF assms(1)]]) auto
qed

lemma wp_x_divrem:
  assumes a: "bi_own a" and b: "bi_wf b" "2 \<le> len b" "len b \<le> len a" and rem: "rem_own rem"
  shows "wp (x_divrem a b rem) (magnitudes a b rem)"
proof -
  have ok: "bi_ok a" "bi_ok b" "\<not> const_size a" using a b by (auto simp: bi_own_def bi_wf_def)
  obtain v where ev: "ensure_bigint_size a (len a + 1) = Some v" and v: "\<not> const_size v" "len a + 1 \<le> bsize v"
    "used v = used a" "num v = num a" "length (digits v) = bsize v"
    using wp_ensure_ok [OF ok(1) bi_own_room [OF a], of "len a + 1"] ok(3) by (auto elim!: wpE)
  obtain w where ew: "ensure_bigint_size FKL_BIGINT_0 (len b) = Some w" and w: "\<not> const_size w" "bsize w = len b"
    "length (digits w) = len b"
    using wp_ensure [of FKL_BIGINT_0 "len b"] by (auto elim!: wpE simp: FKL_BIGINT_0_def bi_room_def)
  have uv: "take (len a) (digits v) = used a" using v(3,4) by (simp add: used_def len_def)
  have pre: "len a < length (digits v)" "digits_ok (take (len a) (digits v))" using v ok uv by (simp_all add: bi_ok_def)
  have preb: "len b \<le> length (digits b)" "len b \<le> length (digits w)" "digits_ok (take (len b) (digits b))" "digits b ! (len b - 1) \<noteq> 0"
  proof -
    show "len b \<le> length (digits b)" "digits_ok (take (len b) (digits b))" using ok(2) by (simp_all add: bi_ok_def used_def)
    show "len b \<le> length (digits w)" using w(3) by simp
    have "num b \<noteq> 0" using b(2) by (auto simp: len_def)
    then show "digits b ! (len b - 1) \<noteq> 0" using b(1) by (simp add: bi_wf_def)
  qed
  obtain r s q where dd: "divrem_digits (digits v) (len a) (digits w) (digits b) (len b) = Some (r, s, q)"
    and r: "length r = length (digits v)" and s: "length s = len b" "digits_ok s" "val s = mag a mod mag b"
    and q: "bi_ok q" "0 \<le> num q" "mag q = mag a div mag b"
  proof -
    have m: "val (take (len a) (digits v)) = mag a" "val (take (len b) (digits b)) = mag b"
      by (simp_all only: uv mag_def used_def)
    obtain t where t: "divrem_digits (digits v) (len a) (digits w) (digits b) (len b) = Some t" and p: "case t of (r, s, q) \<Rightarrow>
      length r = length (digits v) \<and> length s = length (digits w) \<and> digits_ok (take (len b) s)
      \<and> val (take (len b) s) = mag a mod mag b \<and> bi_ok q \<and> \<not> const_size q \<and> 0 \<le> num q \<and> mag q = mag a div mag b"
      using wp_divrem_digits [OF b(2,3) pre preb] unfolding m by (rule wpE)
    obtain r s q where "t = (r, s, q)" by (cases t)
    then show thesis using t p w(3) by (intro that [of r s q]) auto
  qed
  let ?v = "v\<lparr>num := int (len a + 1), digits := r\<rparr>" and ?w = "w\<lparr>num := int (len b), digits := s\<rparr>"
  have w': "bi_ok ?w" "0 \<le> num ?w" "mag ?w = mag a mod mag b" using s w by (simp_all add: bi_ok_def mag_def used_def len_def)
  have set: "wp (do { w \<leftarrow> bigint_normalize ?w; fklSetBigInt x w }) (\<lambda>x. bi_own x \<and> bi_val x = int (mag a mod mag b))"
    if "length (digits x) = bsize x" "\<not> const_size x" for x using wp_set_own [OF w'(1,2) that] w'(3) by simp
  have "wp (store_rem ?v rem (\<lambda>x. do { w \<leftarrow> bigint_normalize ?w; fklSetBigInt x w }))
    (\<lambda>(a', rem'). (rem \<noteq> RemSame \<longrightarrow> a' = ?v) \<and> rem_is rem a' rem' (int (mag a mod mag b)))"
  proof (rule wp_store_rem [where P = "\<lambda>a. True", OF _ rem])
    show "rem = RemSame \<longrightarrow> wp (do { w \<leftarrow> bigint_normalize ?w; fklSetBigInt ?v w }) (\<lambda>x. bi_own x \<and> bi_val x = int (mag a mod mag b))"
      using v r by (intro impI set) auto
    fix x assume "bi_own x"
    then show "wp (do { w \<leftarrow> bigint_normalize ?w; fklSetBigInt x w }) (\<lambda>x. bi_own x \<and> bi_val x = int (mag a mod mag b))"
      by (intro set) (auto simp: bi_own_def bi_wf_def bi_ok_def)
  qed simp
  then obtain a1 rem1 where st: "store_rem ?v rem (\<lambda>x. do { w \<leftarrow> bigint_normalize ?w; fklSetBigInt x w }) = Some (a1, rem1)"
    and a1: "rem \<noteq> RemSame \<longrightarrow> a1 = ?v" "rem_is rem a1 rem1 (int (mag a mod mag b))" by (auto elim: wpE)
  obtain w2 where w2: "bigint_normalize ?w = Some w2" using wp_normalize [OF w'(1)] by (auto elim: wpE)
  have st': "(if rem \<noteq> NoRem then do { w \<leftarrow> bigint_normalize ?w; store_rem ?v rem (\<lambda>r. fklSetBigInt r w) } else Some (?v, rem)) = Some (a1, rem1)"
    using st a1 by (cases rem) (auto simp: w2 store_rem_def rem_is_def)
  obtain z where qz: "do { x \<leftarrow> bigint_normalize q; fklSetBigInt ?v x } = Some z" and z: "bi_own z" "bi_val z = int (mag a div mag b)"
    using wp_set_own [OF q(1,2), of ?v] v r q(3) by (auto elim!: wpE simp del: wp_simps)
  obtain q2 where q2: "bigint_normalize q = Some q2" using wp_normalize [OF q(1)] by (auto elim: wpE)
  have rs: "rem1 = RemSame \<longleftrightarrow> rem = RemSame" using a1(2) by (cases rem) (auto simp: rem_is_def)
  have "mag z = mag a div mag b" using z(2) abs_bi_val [of z] by simp
  then have "magnitudes a b rem (if rem \<noteq> RemSame then z else a1, rem1)"
    using z a1 by (cases rem) (auto simp: magnitudes_def rem_is_def bi_own_def bi_wf_def)
  moreover have "x_divrem a b rem = Some (if rem \<noteq> RemSame then z else a1, rem1)"
    using ev ew dd st' qz a1(1) b(2,3) rs
    by (cases rem) (auto simp: x_divrem_def Let_def len_def [symmetric] FKL_ASSERT_def w2 q2)
  ultimately show ?thesis by simp
qed


text \<open>Setting the signs.\<close>

lemma wp_store_rem_is:
  assumes "rem_is rem a' rem' x" "\<And>r. bi_own r \<Longrightarrow> bi_val r = x \<Longrightarrow> wp (f r) (\<lambda>r. bi_own r \<and> bi_val r = y)"
  shows "wp (store_rem a' rem' f) (\<lambda>(b, rem'). (rem \<noteq> RemSame \<longrightarrow> b = a') \<and> rem_is rem b rem' y)"
  using assms by (cases rem) (auto simp: store_rem_def rem_is_def elim!: wp_mono)

lemma wp_rem_sign:
  assumes "rem_is rem a' rem' (int x)"
  shows "wp (store_rem a' rem' (\<lambda>r. do { z \<leftarrow> FKL_BIGINT_IS_0 r; Some (if z then r else r\<lparr>num := - num r\<rparr>) }))
    (\<lambda>(b, rem'). (rem \<noteq> RemSame \<longrightarrow> b = a') \<and> rem_is rem b rem' (- int x))"
proof (rule wp_store_rem_is [OF assms])
  fix r assume r: "bi_own r" "bi_val r = int x"
  have "bi_wf r" using r(1) by (rule bi_own_wf)
  then have "FKL_BIGINT_IS_0 r = Some (bi_val r = 0)" using wp_IS_small by (auto simp: wp_iff)
  then show "wp (do { z \<leftarrow> FKL_BIGINT_IS_0 r; Some (if z then r else r\<lparr>num := - num r\<rparr>) }) (\<lambda>r. bi_own r \<and> bi_val r = - int x)"
    using r by (cases "bi_val r = 0") auto
qed

lemma wp_quotient_sign:
  assumes "bi_ok a" "\<not> const_size a" "sg \<longleftrightarrow> neg_a \<noteq> neg_b"
  shows "wp (bigint_normalize (if neg_a \<noteq> neg_b \<and> num a > 0 \<or> neg_a = neg_b \<and> num a < 0 then a\<lparr>num := - num a\<rparr> else a))
    (\<lambda>r. bi_own r \<and> bi_val r = (if sg then - int (mag a) else int (mag a)))"
proof -
  let ?a = "if neg_a \<noteq> neg_b \<and> num a > 0 \<or> neg_a = neg_b \<and> num a < 0 then a\<lparr>num := - num a\<rparr> else a"
  have "bi_ok ?a" "\<not> const_size ?a" using assms by auto
  moreover have "num a = 0 \<Longrightarrow> mag a = 0" by (simp add: mag_def used_def len_def)
  then have "bi_val ?a = (if sg then - int (mag a) else int (mag a))"
    using assms(3) by (auto simp: bi_val_cases)
  ultimately show ?thesis using wp_normalize [of ?a] by (auto simp: bi_own_def elim!: wp_mono)
qed


lemma sdiv_mag: "bi_val a sdiv bi_val b = (if (num a < 0) \<noteq> (num b < 0) then - int (mag a div mag b) else int (mag a div mag b))"
proof -
  have "num x = 0 \<Longrightarrow> mag x = 0" for x by (simp add: mag_def used_def len_def)
  then show ?thesis
    by (cases "num a" "0::int" rule: linorder_cases; cases "num b" "0::int" rule: linorder_cases)
      (simp_all add: signed_divide_int_def bi_val_def sgn_mult zdiv_int abs_mult sgn_if)
qed

lemma smod_mag: "bi_val a smod bi_val b = (if num a < 0 then - int (mag a mod mag b) else int (mag a mod mag b))"
proof -
  have "num x = 0 \<Longrightarrow> mag x = 0" for x by (simp add: mag_def used_def len_def)
  then show ?thesis
    by (cases "num a" "0::int" rule: linorder_cases; cases "num b" "0::int" rule: linorder_cases)
      (simp_all add: signed_modulo_int_def bi_val_def sgn_mult zmod_int abs_mult sgn_if)
qed

text \<open>
  The contract of \<open>fklDivRemBigInt\<close>: without a remainder (or with a separate one) the dividend
  becomes the quotient; where dividend and remainder are the same object it becomes the remainder.
\<close>

definition divided :: "FklBigInt \<Rightarrow> FklBigInt \<Rightarrow> FklRem \<Rightarrow> int \<times> FklBigInt \<times> FklRem \<Rightarrow> bool" where
  "divided a b rem = (\<lambda>(e, a', rem'). e = 0 \<and> bi_own a'
     \<and> (rem \<noteq> RemSame \<longrightarrow> bi_val a' = bi_val a sdiv bi_val b)
     \<and> rem_is rem a' rem' (bi_val a smod bi_val b))"

lemma wp_divrem_signs:
  assumes m: "magnitudes a b rem (a', rem')"
  shows "wp (do {
       (a', rem') \<leftarrow> (if num a < 0 then store_rem a' rem' (\<lambda>r. do { z \<leftarrow> FKL_BIGINT_IS_0 r; Some (if z then r else r\<lparr>num := - num r\<rparr>) })
         else Some (a', rem'));
       if rem \<noteq> RemSame then do {
         let a' = (if (num a < 0) \<noteq> (num b < 0) \<and> num a' > 0 \<or> (num a < 0) = (num b < 0) \<and> num a' < 0 then a'\<lparr>num := - num a'\<rparr> else a');
         a' \<leftarrow> bigint_normalize a';
         Some (0, a', rem') }
       else Some (0, a', rem') }) (divided a b rem)"
proof -
  have q: "rem \<noteq> RemSame \<longrightarrow> bi_ok a' \<and> \<not> const_size a' \<and> mag a' = mag a div mag b"
    and r: "rem_is rem a' rem' (int (mag a mod mag b))" using m by (auto simp: magnitudes_def)
  have s: "wp (if num a < 0 then store_rem a' rem' (\<lambda>r. do { z \<leftarrow> FKL_BIGINT_IS_0 r; Some (if z then r else r\<lparr>num := - num r\<rparr>) })
      else Some (a', rem')) (\<lambda>(c, rem'). (rem \<noteq> RemSame \<longrightarrow> c = a') \<and> rem_is rem c rem' (bi_val a smod bi_val b))"
    using wp_rem_sign [OF r] r by (auto simp: smod_mag)
  show ?thesis
  proof (rule wp_bind [OF s])
    fix p :: "FklBigInt \<times> FklRem"
    assume p: "case p of (c, rem') \<Rightarrow> (rem \<noteq> RemSame \<longrightarrow> c = a') \<and> rem_is rem c rem' (bi_val a smod bi_val b)"
    obtain c r' where c: "p = (c, r')" by (cases p)
    show "wp (case p of (a', rem') \<Rightarrow> if rem \<noteq> RemSame then do {
         let a' = (if (num a < 0) \<noteq> (num b < 0) \<and> num a' > 0 \<or> (num a < 0) = (num b < 0) \<and> num a' < 0 then a'\<lparr>num := - num a'\<rparr> else a');
         a' \<leftarrow> bigint_normalize a';
         Some (0, a', rem') }
       else Some (0, a', rem')) (divided a b rem)"
    proof (cases "rem = RemSame")
      case True
      then show ?thesis using p c by (simp add: divided_def rem_is_def)
    next
      case False
      then have a': "bi_ok a'" "\<not> const_size a'" "mag a' = mag a div mag b" and ca: "c = a'" using q p c by auto
      have "wp (bigint_normalize (if (num a < 0) \<noteq> (num b < 0) \<and> num a' > 0 \<or> (num a < 0) = (num b < 0) \<and> num a' < 0 then a'\<lparr>num := - num a'\<rparr> else a'))
        (\<lambda>r. bi_own r \<and> bi_val r = bi_val a sdiv bi_val b)"
        using wp_quotient_sign [OF a'(1,2) refl, of "num a < 0" "num b < 0"] unfolding sdiv_mag a'(3) .
      then obtain z where z: "bigint_normalize (if (num a < 0) \<noteq> (num b < 0) \<and> num a' > 0 \<or> (num a < 0) = (num b < 0) \<and> num a' < 0 then a'\<lparr>num := - num a'\<rparr> else a') = Some z"
        "bi_own z" "bi_val z = bi_val a sdiv bi_val b" by (auto elim: wpE simp del: if_split)
      have rz: "rem_is rem z r' (bi_val a smod bi_val b)" using p c False by (cases rem) (auto simp: rem_is_def)
      show ?thesis unfolding c ca prod.case Let_def z(1) using False z(2,3) rz by (simp add: divided_def)
    qed
  qed
qed


lemma wp_fklDivRemBigInt:
  assumes a: "bi_own a" and b: "bi_wf b" "bi_val b \<noteq> 0" and rem: "rem_own rem"
  shows "wp (fklDivRemBigInt a b rem) (divided a b rem)"
proof -
  have awf: "bi_wf a" using a by (rule bi_own_wf)
  have nb: "num b \<noteq> 0" using b bi_val_0_iff [OF b(1)] by simp
  have lens: "fklAbs (num a) = int (len a)" "fklAbs (num b) = int (len b)" "num a = 0 \<longleftrightarrow> len a = 0" "0 < len b"
    using nb by (auto simp: fklAbs_eq len_def)
  show ?thesis
  proof (cases "len a < len b")
    case True
    then have "mag a < mag b" using mag_len_less [OF awf b(1)] by simp
    then have dm: "bi_val a sdiv bi_val b = 0" "bi_val a smod bi_val b = bi_val a"
      unfolding sdiv_mag smod_mag by (auto simp: bi_val_cases)
    have z: "bi_own (a\<lparr>num := 0\<rparr>) \<and> bi_val (a\<lparr>num := 0\<rparr>) = 0" using bi_own_zero [OF a] by (simp add: bi_val_def)
    have "wp (store_rem a rem (\<lambda>r. fklSetBigInt r a)) (\<lambda>(a', rem'). (rem \<noteq> RemSame \<longrightarrow> a' = a) \<and> rem_is rem a' rem' (bi_val a))"
      if "rem \<noteq> RemSame"
    proof (rule wp_store_rem [where P = "\<lambda>a. True", OF _ rem])
      fix r assume "bi_own r"
      then show "wp (fklSetBigInt r a) (\<lambda>r. bi_own r \<and> bi_val r = bi_val a)"
        by (intro wp_mono [OF wp_fklSetBigInt [OF awf bi_own_room]]) (auto simp: bi_own_def)
    qed (use that in simp_all)
    moreover have "rem_is rem (a\<lparr>num := 0\<rparr>) rem' x" if "rem_is rem a rem' x" "rem \<noteq> RemSame" for rem' x
      using that by (cases rem) (auto simp: rem_is_def)
    ultimately have st: "wp (store_rem a rem (\<lambda>r. fklSetBigInt r a)) (\<lambda>(a', rem'). a' = a \<and> rem_is rem (a\<lparr>num := 0\<rparr>) rem' (bi_val a))"
      if "rem \<noteq> RemSame" using that by (auto elim!: wp_mono)
    have eq: "fklDivRemBigInt a b rem = (if rem \<noteq> RemSame then do { (a', rem) \<leftarrow> store_rem a rem (\<lambda>r. fklSetBigInt r a); Some (0, a'\<lparr>num := 0\<rparr>, rem) }
        else Some (0, a, rem))"
      unfolding fklDivRemBigInt_def Let_def using True lens nb by simp
    show ?thesis
    proof (cases "rem = RemSame")
      case True
      then show ?thesis unfolding eq using a by (simp add: divided_def rem_is_def dm)
    next
      case False
      have "wp (do { (a', rem) \<leftarrow> store_rem a rem (\<lambda>r. fklSetBigInt r a); Some (0, a'\<lparr>num := 0\<rparr>, rem) }) (divided a b rem)"
        using z False by (intro wp_bind [OF st [OF False]]) (auto simp: divided_def dm)
      then show ?thesis using False by (simp add: eq del: wp_simps)
    qed
  next
    case False
    define k where "k = (if len b = 1 then do { d \<leftarrow> rd (digits b) 0; divrem1 a (len a) d rem } else x_divrem a b rem)"
    have okb: "bi_ok b" using b(1) by (rule bi_wf_ok)
    have m: "wp k (magnitudes a b rem)"
    proof (cases "len b = 1")
      case True
      then have "0 < length (digits b)" using okb by (simp add: bi_ok_def)
      moreover have "num a \<noteq> 0" using False lens by auto
      ultimately show ?thesis using True wp_divrem1 [OF a _ b(1) True rem] by (simp add: k_def)
    next
      case 2: False
      then have "2 \<le> len b" "len b \<le> len a" using False lens(4) by simp_all
      then show ?thesis using 2 wp_x_divrem [OF a b(1) _ _ rem] by (simp add: k_def)
    qed
    have eq: "fklDivRemBigInt a b rem = do {
       (a', rem') \<leftarrow> k;
       (a', rem') \<leftarrow> (if num a < 0 then store_rem a' rem' (\<lambda>r. do { z \<leftarrow> FKL_BIGINT_IS_0 r; Some (if z then r else r\<lparr>num := - num r\<rparr>) })
         else Some (a', rem'));
       if rem \<noteq> RemSame then do {
         let a' = (if (num a < 0) \<noteq> (num b < 0) \<and> num a' > 0 \<or> (num a < 0) = (num b < 0) \<and> num a' < 0 then a'\<lparr>num := - num a'\<rparr> else a');
         a' \<leftarrow> bigint_normalize a';
         Some (0, a', rem') }
       else Some (0, a', rem') }"
      unfolding fklDivRemBigInt_def k_def Let_def lens(1,2) using False lens(4) nb by simp
    show ?thesis unfolding eq
    proof (rule wp_bind [OF m])
      fix p assume p: "magnitudes a b rem p"
      obtain a' rem' where pe: "p = (a', rem')" by (cases p)
      show "wp (case p of (a', rem') \<Rightarrow> do {
       (a', rem') \<leftarrow> (if num a < 0 then store_rem a' rem' (\<lambda>r. do { z \<leftarrow> FKL_BIGINT_IS_0 r; Some (if z then r else r\<lparr>num := - num r\<rparr>) })
         else Some (a', rem'));
       if rem \<noteq> RemSame then do {
         let a' = (if (num a < 0) \<noteq> (num b < 0) \<and> num a' > 0 \<or> (num a < 0) = (num b < 0) \<and> num a' < 0 then a'\<lparr>num := - num a'\<rparr> else a');
         a' \<leftarrow> bigint_normalize a';
         Some (0, a', rem') }
       else Some (0, a', rem') }) (divided a b rem)"
        unfolding pe prod.case using p unfolding pe by (rule wp_divrem_signs)
    qed
  qed
qed


lemma bi_own_bigint_of_i64: "wp (bigint_of_i64 d) (\<lambda>b. bi_wf b \<and> bi_val b = sint d \<and> (num b = 0 \<longleftrightarrow> d = 0))"
proof (rule wp_mono [OF wp_bigint_of_i64])
  fix b :: FklBigInt
  assume b: "bi_wf b \<and> bi_val b = sint d"
  have "sint d = 0 \<longleftrightarrow> d = 0" using fklAbs64_val [of d] by (metis abs_0_eq fklAbs64_0 uint_0_iff)
  then show "bi_wf b \<and> bi_val b = sint d \<and> (num b = 0 \<longleftrightarrow> d = 0)" using b bi_val_0_iff [of b] by simp
qed

lemma smod_eq_0: "x smod y = 0 \<longleftrightarrow> y dvd x" for x y :: int
  by (cases "x = 0") (auto simp: signed_modulo_int_def sgn_0_0 mod_eq_0_iff_dvd)

lemma fklDivRemBigInt_0: "num b = 0 \<Longrightarrow> fklDivRemBigInt a b rem = Some (- 1, a, rem)"
  by (simp add: fklDivRemBigInt_def fklAbs_def)

section \<open>Properties\<close>

text \<open>
  C10: division is truncated division. For a divisor other than zero \<open>fklDivRemBigInt\<close> returns 0,
  stays within its arrays and passes every assertion of the long division; the dividend becomes the
  quotient rounded towards zero and the remainder has the sign of the dividend, in a separate object
  or (when \<open>rem\<close> is the dividend) in place of the quotient.
\<close>

theorem fklDivRemBigInt_truncates:
  assumes "bi_own a" and "bi_wf b" and "bi_val b \<noteq> 0" and "rem_own rem"
  shows "\<exists>a' rem'. fklDivRemBigInt a b rem = Some (0, a', rem') \<and> bi_own a'
    \<and> (rem \<noteq> RemSame \<longrightarrow> bi_val a' = bi_val a sdiv bi_val b)
    \<and> rem_is rem a' rem' (bi_val a smod bi_val b)"
  using wp_fklDivRemBigInt [OF assms] by (auto simp: divided_def elim!: wpE)

theorem fklDivRemBigInt_truncates_witness:
  "\<exists>a' r. fklDivRemBigInt \<lparr>digits = [5, 0, 7], num = - 3, bsize = 3, const_size = False\<rparr>
     \<lparr>digits = [3, 1], num = 2, bsize = 2, const_size = False\<rparr> (RemOther FKL_BIGINT_0) = Some (0, a', RemOther r)
     \<and> bi_own r \<and> bi_val a' = - 7516192747 \<and> bi_val r = - 68"
proof -
  let ?a = "\<lparr>digits = [5, 0, 7], num = - 3, bsize = 3, const_size = False\<rparr>"
  let ?b = "\<lparr>digits = [3, 1], num = 2, bsize = 2, const_size = False\<rparr>"
  have v: "bi_val ?a = - 8070450532247928837" "bi_val ?b = 1073741827"
    by (simp_all add: bi_val_def mag_def used_def len_def BASE_def)
  have "bi_own ?a" "bi_wf ?b" "bi_val ?b \<noteq> 0" "rem_own (RemOther FKL_BIGINT_0)"
    by (simp_all add: bi_own_def bi_wf_def bi_ok_def bi_val_def mag_def used_def len_def BASE_def rem_own_def FKL_BIGINT_0_def)
  from fklDivRemBigInt_truncates [OF this] show ?thesis
    unfolding v by (auto simp: rem_is_def signed_divide_int_def signed_modulo_int_def)
qed

text \<open>
  Dividing by zero is an error and changes nothing. \<open>fklDivRemBigInt\<close> returns -1 and leaves the
  dividend and the remainder as they were, whatever they hold; so do its variants for quotient,
  remainder and a 64-bit divisor.
\<close>

theorem fklDivRemBigInt_by_zero:
  "fklDivRemBigInt a FKL_BIGINT_0 rem = Some (- 1, a, rem)
   \<and> fklDivBigInt a FKL_BIGINT_0 = Some (- 1, a) \<and> fklRemBigInt a FKL_BIGINT_0 = Some (- 1, a)
   \<and> fklDivRemBigIntI a 0 rem = Some (- 1, a, rem) \<and> fklDivBigIntI a 0 = Some (- 1, a) \<and> fklRemBigIntI a 0 = Some (- 1, a)"
proof -
  obtain z where z: "bigint_of_i64 0 = Some z" "num z = 0" using bi_own_bigint_of_i64 [of 0] by (auto elim: wpE)
  have "num FKL_BIGINT_0 = 0" by (simp add: FKL_BIGINT_0_def)
  with z show ?thesis
    by (simp add: fklDivBigInt_def fklRemBigInt_def fklDivRemBigIntI_def fklDivBigIntI_def fklRemBigIntI_def fklDivRemBigInt_0)
qed

lemma divisible_eq:
  assumes "bi_wf a" and "bi_wf d"
  shows "fklIsDivisibleBigInt a d = Some (bi_val d dvd bi_val a)"
proof -
  obtain r where r: "fklSetBigInt FKL_BIGINT_0 a = Some r" "bi_own r" "bi_val r = bi_val a"
    using wp_fklSetBigInt [OF assms(1), of FKL_BIGINT_0] by (auto elim!: wpE simp: bi_own_def bi_room_def FKL_BIGINT_0_def)
  show ?thesis
  proof (cases "bi_val d = 0")
    case True
    then have "num d = 0" using bi_val_0_iff [OF assms(2)] by simp
    then show ?thesis using r True bi_val_0_iff [of r] bi_own_wf [OF r(2)]
      by (simp add: fklIsDivisibleBigInt_def fklRemBigInt_def fklDivRemBigInt_0)
  next
    case False
    then obtain x where x: "fklDivRemBigInt r d RemSame = Some (0, x, RemSame)" "bi_own x" "bi_val x = bi_val a smod bi_val d"
      using wp_fklDivRemBigInt [OF r(2) assms(2) False, of RemSame] r(3)
      by (auto simp: divided_def rem_is_def rem_own_def elim!: wpE)
    have "bi_val a smod bi_val d = 0 \<longleftrightarrow> bi_val d dvd bi_val a"
      by (rule smod_eq_0)
    then show ?thesis using r x bi_val_0_iff [OF bi_own_wf [OF x(2)]]
      by (simp add: fklIsDivisibleBigInt_def fklRemBigInt_def)
  qed
qed

text \<open>
  The divisibility test decides divisibility. \<open>fklIsDivisibleBigInt\<close> returns for every pair
  of normalised big integers, a zero divisor included, and its result is whether the divisor divides.
\<close>

theorem fklIsDivisibleBigInt_decides:
  assumes "bi_wf a" and "bi_wf d"
  shows "fklIsDivisibleBigInt a d = Some (bi_val d dvd bi_val a)"
  using assms by (rule divisible_eq)

theorem fklIsDivisibleBigInt_decides_witness:
  "fklIsDivisibleBigInt \<lparr>digits = [0, 0, 7], num = - 3, bsize = 3, const_size = False\<rparr>
     \<lparr>digits = [0, 14], num = 2, bsize = 2, const_size = False\<rparr> = Some True"
proof -
  let ?a = "\<lparr>digits = [0, 0, 7], num = - 3, bsize = 3, const_size = False\<rparr>"
  let ?d = "\<lparr>digits = [0, 14], num = 2, bsize = 2, const_size = False\<rparr>"
  have "bi_wf ?a" "bi_wf ?d" by (simp_all add: bi_wf_def bi_ok_def used_def len_def BASE_def)
  moreover have "bi_val ?d dvd bi_val ?a" by (simp add: bi_val_def mag_def used_def len_def BASE_def)
  ultimately show ?thesis using fklIsDivisibleBigInt_decides [of ?a ?d] by simp
qed

text \<open>
  Quotient and remainder by a 64-bit divisor, \<open>INT64_MIN\<close> included: the big integer is divided
  by the signed value of the word, again truncated.
\<close>

theorem fklDivBigIntI_truncates:
  assumes "bi_own a" and "d \<noteq> 0"
  shows "(\<exists>q. fklDivBigIntI a d = Some (0, q) \<and> bi_own q \<and> bi_val q = bi_val a sdiv sint d)
    \<and> (\<exists>r. fklRemBigIntI a d = Some (0, r) \<and> bi_own r \<and> bi_val r = bi_val a smod sint d)"
proof -
  obtain b where b: "bigint_of_i64 d = Some b" "bi_wf b" "bi_val b = sint d" "num b \<noteq> 0"
    using bi_own_bigint_of_i64 [of d] assms(2) by (auto elim: wpE)
  then have nz: "bi_val b \<noteq> 0" using bi_val_0_iff [OF b(2)] by simp
  show ?thesis
    using wp_fklDivRemBigInt [OF assms(1) b(2) nz, of NoRem] wp_fklDivRemBigInt [OF assms(1) b(2) nz, of RemSame] b(1,3)
    by (auto simp: divided_def rem_is_def rem_own_def fklDivBigIntI_def fklRemBigIntI_def fklDivRemBigIntI_def
        fklRemBigInt_def elim!: wpE)
qed

theorem fklDivBigIntI_truncates_witness:
  "\<exists>r. fklRemBigIntI \<lparr>digits = [5, 0, 7], num = - 3, bsize = 3, const_size = False\<rparr> 1000 = Some (0, r) \<and> bi_val r = - 837"
proof -
  let ?a = "\<lparr>digits = [5, 0, 7], num = - 3, bsize = 3, const_size = False\<rparr>"
  have v: "bi_val ?a = - 8070450532247928837"
    by (simp add: bi_val_def mag_def used_def len_def BASE_def)
  have "bi_own ?a" by (simp add: bi_own_def bi_wf_def bi_ok_def used_def len_def BASE_def)
  from fklDivBigIntI_truncates [OF this, of 1000] show ?thesis
    unfolding v by (auto simp: signed_modulo_int_def)
qed

end
