(* ===== verification/Opcode.thy ===== *)
theory Opcode
  imports Prelude
begin

text \<open>
  The opcodes of include/fakeLisp/opcode.h and src/opcode.c: the enumeration, the table the
  \<open>FKL_OPCODE_X\<close> macro generates (name, operand mode, next wider opcode), the number of
  instruction words of a mode, and the names of the sub-operations. A function that reaches
  \<open>FKL_UNREACHABLE()\<close> is \<open>None\<close>.
\<close>

section \<open>Modes and opcodes\<close>

datatype FklOpcodeMode =
  FKL_OP_MODE_I | FKL_OP_MODE_IsA | FKL_OP_MODE_IuB | FKL_OP_MODE_IsB | FKL_OP_MODE_IuC
| FKL_OP_MODE_IsC | FKL_OP_MODE_IuBB | FKL_OP_MODE_IsBB | FKL_OP_MODE_IuCCB | FKL_OP_MODE_IsCCB
| FKL_OP_MODE_IsAuB | FKL_OP_MODE_IuAuB | FKL_OP_MODE_IuCuC | FKL_OP_MODE_IuCAuBB | FKL_OP_MODE_IxAxB

datatype (plugins only: code size) FklOpcode =
  FKL_OP_DUMMY | FKL_OP_PUSH_NIL | FKL_OP_PUSH_PAIR | FKL_OP_PUSH_0
| FKL_OP_PUSH_1 | FKL_OP_PUSH_I8 | FKL_OP_PUSH_I16 | FKL_OP_PUSH_I24
| FKL_OP_PUSH_CHAR | FKL_OP_PUSH_CONST | FKL_OP_PUSH_BOX | FKL_OP_PUSH_LIST_0
| FKL_OP_PUSH_VEC_0 | FKL_OP_PUSH_HASHEQ_0 | FKL_OP_PUSH_HASHEQV_0 | FKL_OP_PUSH_HASHEQUAL_0
| FKL_OP_LOAD_PROTO | FKL_OP_MAKE_PROC | FKL_OP_DUP | FKL_OP_DROP
| FKL_OP_CHECK_ARG | FKL_OP_SET_BP | FKL_OP_CALL | FKL_OP_TAIL_CALL
| FKL_OP_RET_IF_TRUE | FKL_OP_RET_IF_FALSE | FKL_OP_RET | FKL_OP_JMP_IF_TRUE
| FKL_OP_JMP_IF_FALSE | FKL_OP_JMP | FKL_OP_IMPORT | FKL_OP_GET_LOC
| FKL_OP_PUT_LOC | FKL_OP_GET_VAR_REF | FKL_OP_PUT_VAR_REF | FKL_OP_EXPORT
| FKL_OP_LOAD_LIB | FKL_OP_ATOM | FKL_OP_TRUE | FKL_OP_NOT
| FKL_OP_EQ | FKL_OP_EQV | FKL_OP_EQUAL | FKL_OP_EQN
| FKL_OP_GT | FKL_OP_LT | FKL_OP_GE | FKL_OP_LE
| FKL_OP_ADDK | FKL_OP_ADDK_LOC | FKL_OP_ADD | FKL_OP_SUB
| FKL_OP_MUL | FKL_OP_DIV | FKL_OP_IDIV | FKL_OP_PAIR
| FKL_OP_VEC | FKL_OP_STR | FKL_OP_BYTES | FKL_OP_BOX
| FKL_OP_HASH | FKL_OP_CLOSE_REF | FKL_OP_POP_LOC | FKL_OP_MOV_LOC
| FKL_OP_MOV_VAR_REF | FKL_OP_EXPORT_MORE | FKL_OP_EXTRA_ARG

text \<open>The number the enumeration gives an opcode: the low byte of an instruction.\<close>

primrec opcode_code :: "FklOpcode \<Rightarrow> nat" where
  "opcode_code FKL_OP_DUMMY = 0"
| "opcode_code FKL_OP_PUSH_NIL = 1"
| "opcode_code FKL_OP_PUSH_PAIR = 2"
| "opcode_code FKL_OP_PUSH_0 = 3"
| "opcode_code FKL_OP_PUSH_1 = 4"
| "opcode_code FKL_OP_PUSH_I8 = 5"
| "opcode_code FKL_OP_PUSH_I16 = 6"
| "opcode_code FKL_OP_PUSH_I24 = 7"
| "opcode_code FKL_OP_PUSH_CHAR = 8"
| "opcode_code FKL_OP_PUSH_CONST = 9"
| "opcode_code FKL_OP_PUSH_BOX = 10"
| "opcode_code FKL_OP_PUSH_LIST_0 = 11"
| "opcode_code FKL_OP_PUSH_VEC_0 = 12"
| "opcode_code FKL_OP_PUSH_HASHEQ_0 = 13"
| "opcode_code FKL_OP_PUSH_HASHEQV_0 = 14"
| "opcode_code FKL_OP_PUSH_HASHEQUAL_0 = 15"
| "opcode_code FKL_OP_LOAD_PROTO = 16"
| "opcode_code FKL_OP_MAKE_PROC = 17"
| "opcode_code FKL_OP_DUP = 18"
| "opcode_code FKL_OP_DROP = 19"
| "opcode_code FKL_OP_CHECK_ARG = 20"
| "opcode_code FKL_OP_SET_BP = 21"
| "opcode_code FKL_OP_CALL = 22"
| "opcode_code FKL_OP_TAIL_CALL = 23"
| "opcode_code FKL_OP_RET_IF_TRUE = 24"
| "opcode_code FKL_OP_RET_IF_FALSE = 25"
| "opcode_code FKL_OP_RET = 26"
| "opcode_code FKL_OP_JMP_IF_TRUE = 27"
| "opcode_code FKL_OP_JMP_IF_FALSE = 28"
| "opcode_code FKL_OP_JMP = 29"
| "opcode_code FKL_OP_IMPORT = 30"
| "opcode_code FKL_OP_GET_LOC = 31"
| "opcode_code FKL_OP_PUT_LOC = 32"
| "opcode_code FKL_OP_GET_VAR_REF = 33"
| "opcode_code FKL_OP_PUT_VAR_REF = 34"
| "opcode_code FKL_OP_EXPORT = 35"
| "opcode_code FKL_OP_LOAD_LIB = 36"
| "opcode_code FKL_OP_ATOM = 37"
| "opcode_code FKL_OP_TRUE = 38"
| "opcode_code FKL_OP_NOT = 39"
| "opcode_code FKL_OP_EQ = 40"
| "opcode_code FKL_OP_EQV = 41"
| "opcode_code FKL_OP_EQUAL = 42"
| "opcode_code FKL_OP_EQN = 43"
| "opcode_code FKL_OP_GT = 44"
| "opcode_code FKL_OP_LT = 45"
| "opcode_code FKL_OP_GE = 46"
| "opcode_code FKL_OP_LE = 47"
| "opcode_code FKL_OP_ADDK = 48"
| "opcode_code FKL_OP_ADDK_LOC = 49"
| "opcode_code FKL_OP_ADD = 50"
| "opcode_code FKL_OP_SUB = 51"
| "opcode_code FKL_OP_MUL = 52"
| "opcode_code FKL_OP_DIV = 53"
| "opcode_code FKL_OP_IDIV = 54"
| "opcode_code FKL_OP_PAIR = 55"
| "opcode_code FKL_OP_VEC = 56"
| "opcode_code FKL_OP_STR = 57"
| "opcode_code FKL_OP_BYTES = 58"
| "opcode_code FKL_OP_BOX = 59"
| "opcode_code FKL_OP_HASH = 60"
| "opcode_code FKL_OP_CLOSE_REF = 61"
| "opcode_code FKL_OP_POP_LOC = 62"
| "opcode_code FKL_OP_MOV_LOC = 63"
| "opcode_code FKL_OP_MOV_VAR_REF = 64"
| "opcode_code FKL_OP_EXPORT_MORE = 65"
| "opcode_code FKL_OP_EXTRA_ARG = 66"

definition FKL_OPCODES :: "FklOpcode list" where
  "FKL_OPCODES = [
    FKL_OP_DUMMY, FKL_OP_PUSH_NIL, FKL_OP_PUSH_PAIR, FKL_OP_PUSH_0,
    FKL_OP_PUSH_1, FKL_OP_PUSH_I8, FKL_OP_PUSH_I16, FKL_OP_PUSH_I24,
    FKL_OP_PUSH_CHAR, FKL_OP_PUSH_CONST, FKL_OP_PUSH_BOX, FKL_OP_PUSH_LIST_0,
    FKL_OP_PUSH_VEC_0, FKL_OP_PUSH_HASHEQ_0, FKL_OP_PUSH_HASHEQV_0, FKL_OP_PUSH_HASHEQUAL_0,
    FKL_OP_LOAD_PROTO, FKL_OP_MAKE_PROC, FKL_OP_DUP, FKL_OP_DROP,
    FKL_OP_CHECK_ARG, FKL_OP_SET_BP, FKL_OP_CALL, FKL_OP_TAIL_CALL,
    FKL_OP_RET_IF_TRUE, FKL_OP_RET_IF_FALSE, FKL_OP_RET, FKL_OP_JMP_IF_TRUE,
    FKL_OP_JMP_IF_FALSE, FKL_OP_JMP, FKL_OP_IMPORT, FKL_OP_GET_LOC,
    FKL_OP_PUT_LOC, FKL_OP_GET_VAR_REF, FKL_OP_PUT_VAR_REF, FKL_OP_EXPORT,
    FKL_OP_LOAD_LIB, FKL_OP_ATOM, FKL_OP_TRUE, FKL_OP_NOT,
    FKL_OP_EQ, FKL_OP_EQV, FKL_OP_EQUAL, FKL_OP_EQN,
    FKL_OP_GT, FKL_OP_LT, FKL_OP_GE, FKL_OP_LE,
    FKL_OP_ADDK, FKL_OP_ADDK_LOC, FKL_OP_ADD, FKL_OP_SUB,
    FKL_OP_MUL, FKL_OP_DIV, FKL_OP_IDIV, FKL_OP_PAIR,
    FKL_OP_VEC, FKL_OP_STR, FKL_OP_BYTES, FKL_OP_BOX,
    FKL_OP_HASH, FKL_OP_CLOSE_REF, FKL_OP_POP_LOC, FKL_OP_MOV_LOC,
    FKL_OP_MOV_VAR_REF, FKL_OP_EXPORT_MORE, FKL_OP_EXTRA_ARG]"

definition FKL_OPCODE_NUM :: nat where
  "FKL_OPCODE_NUM = opcode_code FKL_OP_EXTRA_ARG + 1"

definition opcode_of :: "nat \<Rightarrow> FklOpcode option" where
  "opcode_of n = (if n < FKL_OPCODE_NUM then Some (FKL_OPCODES ! n) else None)"

section \<open>The table\<close>

primrec opcodeInfo :: "FklOpcode \<Rightarrow> string \<times> FklOpcodeMode \<times> FklOpcode" where
  "opcodeInfo FKL_OP_DUMMY = (''dummy'', FKL_OP_MODE_I, FKL_OP_DUMMY)"
| "opcodeInfo FKL_OP_PUSH_NIL = (''push-nil'', FKL_OP_MODE_I, FKL_OP_DUMMY)"
| "opcodeInfo FKL_OP_PUSH_PAIR = (''push-pair'', FKL_OP_MODE_I, FKL_OP_DUMMY)"
| "opcodeInfo FKL_OP_PUSH_0 = (''push-0'', FKL_OP_MODE_I, FKL_OP_DUMMY)"
| "opcodeInfo FKL_OP_PUSH_1 = (''push-1'', FKL_OP_MODE_I, FKL_OP_DUMMY)"
| "opcodeInfo FKL_OP_PUSH_I8 = (''push-i8'', FKL_OP_MODE_IsA, FKL_OP_PUSH_I16)"
| "opcodeInfo FKL_OP_PUSH_I16 = (''push-i16'', FKL_OP_MODE_IsB, FKL_OP_PUSH_I24)"
| "opcodeInfo FKL_OP_PUSH_I24 = (''push-i24'', FKL_OP_MODE_IsC, FKL_OP_DUMMY)"
| "opcodeInfo FKL_OP_PUSH_CHAR = (''push-char'', FKL_OP_MODE_IuB, FKL_OP_DUMMY)"
| "opcodeInfo FKL_OP_PUSH_CONST = (''push-const'', FKL_OP_MODE_IuC, FKL_OP_DUMMY)"
| "opcodeInfo FKL_OP_PUSH_BOX = (''push-box'', FKL_OP_MODE_IsA, FKL_OP_DUMMY)"
| "opcodeInfo FKL_OP_PUSH_LIST_0 = (''push-list-0'', FKL_OP_MODE_I, FKL_OP_DUMMY)"
| "opcodeInfo FKL_OP_PUSH_VEC_0 = (''push-vec-0'', FKL_OP_MODE_I, FKL_OP_DUMMY)"
| "opcodeInfo FKL_OP_PUSH_HASHEQ_0 = (''push-hasheq-0'', FKL_OP_MODE_I, FKL_OP_DUMMY)"
| "opcodeInfo FKL_OP_PUSH_HASHEQV_0 = (''push-hasheqv-0'', FKL_OP_MODE_I, FKL_OP_DUMMY)"
| "opcodeInfo FKL_OP_PUSH_HASHEQUAL_0 = (''push-hashequal-0'', FKL_OP_MODE_I, FKL_OP_DUMMY)"
| "opcodeInfo FKL_OP_LOAD_PROTO = (''load-proto'', FKL_OP_MODE_IuC, FKL_OP_DUMMY)"
| "opcodeInfo FKL_OP_MAKE_PROC = (''make-proc'', FKL_OP_MODE_IuC, FKL_OP_DUMMY)"
| "opcodeInfo FKL_OP_DUP = (''dup'', FKL_OP_MODE_I, FKL_OP_DUMMY)"
| "opcodeInfo FKL_OP_DROP = (''drop'', FKL_OP_MODE_IsA, FKL_OP_DUMMY)"
| "opcodeInfo FKL_OP_CHECK_ARG = (''check-arg'', FKL_OP_MODE_IsAuB, FKL_OP_DUMMY)"
| "opcodeInfo FKL_OP_SET_BP = (''set-bp'', FKL_OP_MODE_IsA, FKL_OP_DUMMY)"
| "opcodeInfo FKL_OP_CALL = (''call'', FKL_OP_MODE_I, FKL_OP_DUMMY)"
| "opcodeInfo FKL_OP_TAIL_CALL = (''tail-call'', FKL_OP_MODE_I, FKL_OP_DUMMY)"
| "opcodeInfo FKL_OP_RET_IF_TRUE = (''ret-if-true'', FKL_OP_MODE_I, FKL_OP_DUMMY)"
| "opcodeInfo FKL_OP_RET_IF_FALSE = (''ret-if-false'', FKL_OP_MODE_I, FKL_OP_DUMMY)"
| "opcodeInfo FKL_OP_RET = (''ret'', FKL_OP_MODE_I, FKL_OP_DUMMY)"
| "opcodeInfo FKL_OP_JMP_IF_TRUE = (''jmp-if-true'', FKL_OP_MODE_IsC, FKL_OP_DUMMY)"
| "opcodeInfo FKL_OP_JMP_IF_FALSE = (''jmp-if-false'', FKL_OP_MODE_IsC, FKL_OP_DUMMY)"
| "opcodeInfo FKL_OP_JMP = (''jmp'', FKL_OP_MODE_IsC, FKL_OP_DUMMY)"
| "opcodeInfo FKL_OP_IMPORT = (''import'', FKL_OP_MODE_IuC, FKL_OP_DUMMY)"
| "opcodeInfo FKL_OP_GET_LOC = (''get-loc'', FKL_OP_MODE_IuC, FKL_OP_DUMMY)"
| "opcodeInfo FKL_OP_PUT_LOC = (''put-loc'', FKL_OP_MODE_IuC, FKL_OP_DUMMY)"
| "opcodeInfo FKL_OP_GET_VAR_REF = (''get-var-ref'', FKL_OP_MODE_IuC, FKL_OP_DUMMY)"
| "opcodeInfo FKL_OP_PUT_VAR_REF = (''put-var-ref'', FKL_OP_MODE_IuC, FKL_OP_DUMMY)"
| "opcodeInfo FKL_OP_EXPORT = (''export'', FKL_OP_MODE_IuC, FKL_OP_DUMMY)"
| "opcodeInfo FKL_OP_LOAD_LIB = (''load-lib'', FKL_OP_MODE_IuC, FKL_OP_DUMMY)"
| "opcodeInfo FKL_OP_ATOM = (''atom'', FKL_OP_MODE_I, FKL_OP_DUMMY)"
| "opcodeInfo FKL_OP_TRUE = (''true'', FKL_OP_MODE_I, FKL_OP_DUMMY)"
| "opcodeInfo FKL_OP_NOT = (''not'', FKL_OP_MODE_I, FKL_OP_DUMMY)"
| "opcodeInfo FKL_OP_EQ = (''eq'', FKL_OP_MODE_I, FKL_OP_DUMMY)"
| "opcodeInfo FKL_OP_EQV = (''eqv'', FKL_OP_MODE_I, FKL_OP_DUMMY)"
| "opcodeInfo FKL_OP_EQUAL = (''equal'', FKL_OP_MODE_I, FKL_OP_DUMMY)"
| "opcodeInfo FKL_OP_EQN = (''eqn'', FKL_OP_MODE_IsA, FKL_OP_DUMMY)"
| "opcodeInfo FKL_OP_GT = (''gt'', FKL_OP_MODE_IsA, FKL_OP_DUMMY)"
| "opcodeInfo FKL_OP_LT = (''lt'', FKL_OP_MODE_IsA, FKL_OP_DUMMY)"
| "opcodeInfo FKL_OP_GE = (''ge'', FKL_OP_MODE_IsA, FKL_OP_DUMMY)"
| "opcodeInfo FKL_OP_LE = (''le'', FKL_OP_MODE_IsA, FKL_OP_DUMMY)"
| "opcodeInfo FKL_OP_ADDK = (''addk'', FKL_OP_MODE_IsA, FKL_OP_DUMMY)"
| "opcodeInfo FKL_OP_ADDK_LOC = (''addk-loc'', FKL_OP_MODE_IsAuB, FKL_OP_DUMMY)"
| "opcodeInfo FKL_OP_ADD = (''add'', FKL_OP_MODE_IsA, FKL_OP_DUMMY)"
| "opcodeInfo FKL_OP_SUB = (''sub'', FKL_OP_MODE_IsA, FKL_OP_DUMMY)"
| "opcodeInfo FKL_OP_MUL = (''mul'', FKL_OP_MODE_IsA, FKL_OP_DUMMY)"
| "opcodeInfo FKL_OP_DIV = (''div'', FKL_OP_MODE_IsA, FKL_OP_DUMMY)"
| "opcodeInfo FKL_OP_IDIV = (''idiv'', FKL_OP_MODE_IsA, FKL_OP_DUMMY)"
| "opcodeInfo FKL_OP_PAIR = (''pair'', FKL_OP_MODE_IsA, FKL_OP_DUMMY)"
| "opcodeInfo FKL_OP_VEC = (''vec'', FKL_OP_MODE_IsA, FKL_OP_DUMMY)"
| "opcodeInfo FKL_OP_STR = (''str'', FKL_OP_MODE_IsA, FKL_OP_DUMMY)"
| "opcodeInfo FKL_OP_BYTES = (''bytes'', FKL_OP_MODE_IsA, FKL_OP_DUMMY)"
| "opcodeInfo FKL_OP_BOX = (''box'', FKL_OP_MODE_IsA, FKL_OP_DUMMY)"
| "opcodeInfo FKL_OP_HASH = (''hash'', FKL_OP_MODE_IsA, FKL_OP_DUMMY)"
| "opcodeInfo FKL_OP_CLOSE_REF = (''close-ref'', FKL_OP_MODE_IuC, FKL_OP_DUMMY)"
| "opcodeInfo FKL_OP_POP_LOC = (''pop-loc'', FKL_OP_MODE_IuB, FKL_OP_DUMMY)"
| "opcodeInfo FKL_OP_MOV_LOC = (''mov-loc'', FKL_OP_MODE_IuAuB, FKL_OP_DUMMY)"
| "opcodeInfo FKL_OP_MOV_VAR_REF = (''mov-var-ref'', FKL_OP_MODE_IuAuB, FKL_OP_DUMMY)"
| "opcodeInfo FKL_OP_EXPORT_MORE = (''export-more'', FKL_OP_MODE_IuC, FKL_OP_DUMMY)"
| "opcodeInfo FKL_OP_EXTRA_ARG = (''extra-arg'', FKL_OP_MODE_IxAxB, FKL_OP_DUMMY)"

definition fklGetOpcodeName :: "FklOpcode \<Rightarrow> string" where
  "fklGetOpcodeName op = fst (opcodeInfo op)"

definition fklGetOpcodeMode :: "FklOpcode \<Rightarrow> FklOpcodeMode" where
  "fklGetOpcodeMode op = fst (snd (opcodeInfo op))"

definition fklGetOpcodeNext :: "FklOpcode \<Rightarrow> FklOpcode" where
  "fklGetOpcodeNext op = snd (snd (opcodeInfo op))"

text \<open>The first opcode of that name, opcode 0 if there is none.\<close>

definition fklFindOpcode :: "string \<Rightarrow> FklOpcode" where
  "fklFindOpcode str = (case find (\<lambda>op. fklGetOpcodeName op = str) FKL_OPCODES of
     Some op \<Rightarrow> op | None \<Rightarrow> FKL_OP_DUMMY)"

fun mode_len :: "FklOpcodeMode \<Rightarrow> nat" where
  "mode_len FKL_OP_MODE_IuBB = 2"
| "mode_len FKL_OP_MODE_IsBB = 2"
| "mode_len FKL_OP_MODE_IuCuC = 2"
| "mode_len FKL_OP_MODE_IuCCB = 3"
| "mode_len FKL_OP_MODE_IsCCB = 3"
| "mode_len FKL_OP_MODE_IuCAuBB = 3"
| "mode_len _ = 1"

definition fklGetOpcodeModeLen :: "FklOpcode \<Rightarrow> nat" where
  "fklGetOpcodeModeLen op = mode_len (fklGetOpcodeMode op)"

section \<open>Names of sub-operations\<close>

definition get_box_subop :: "int \<Rightarrow> string option" where
  "get_box_subop subop = map_of [(1, ''unbox''), (2, ''set'')] subop"

definition get_drop_subop :: "int \<Rightarrow> string option" where
  "get_drop_subop subop = map_of [(0, ''1''), (1, ''all'')] subop"

definition get_pair_subop :: "int \<Rightarrow> string option" where
  "get_pair_subop subop = map_of [(0, ''car''), (1, ''cdr''), (2, ''nth''), (4, ''car-set''), (5, ''cdr-set''), (6, ''append''), (7, ''unpack'')] subop"

definition get_vec_subop :: "int \<Rightarrow> string option" where
  "get_vec_subop subop = map_of [(-1, ''last''), (0, ''first''), (1, ''ref''), (2, ''set'')] subop"

definition get_str_subop :: "int \<Rightarrow> string option" where
  "get_str_subop subop = map_of [(0, ''ref''), (1, ''set'')] subop"

definition get_bvec_subop :: "int \<Rightarrow> string option" where
  "get_bvec_subop subop = map_of [(0, ''ref''), (1, ''set'')] subop"

definition get_hash_subop :: "int \<Rightarrow> string option" where
  "get_hash_subop subop = map_of [(1, ''ref2''), (2, ''ref3''), (3, ''set'')] subop"

definition get_set_bp_subop :: "int \<Rightarrow> string option" where
  "get_set_bp_subop subop = map_of [(0, ''0''), (1, ''prep-call'')] subop"

definition fklGetSubOpcodeName :: "FklOpcode \<Rightarrow> int \<Rightarrow> string option" where
  "fklGetSubOpcodeName op subop = (case op of
     FKL_OP_DROP \<Rightarrow> get_drop_subop subop
   | FKL_OP_PAIR \<Rightarrow> get_pair_subop subop
   | FKL_OP_VEC \<Rightarrow> get_vec_subop subop
   | FKL_OP_STR \<Rightarrow> get_str_subop subop
   | FKL_OP_BYTES \<Rightarrow> get_bvec_subop subop
   | FKL_OP_BOX \<Rightarrow> get_box_subop subop
   | FKL_OP_HASH \<Rightarrow> get_hash_subop subop
   | FKL_OP_SET_BP \<Rightarrow> get_set_bp_subop subop
   | _ \<Rightarrow> None)"

section \<open>Lemmas\<close>

lemma length_FKL_OPCODES [simp]: "length FKL_OPCODES = FKL_OPCODE_NUM"
  by (simp add: FKL_OPCODES_def FKL_OPCODE_NUM_def)

lemma opcode_code_less: "opcode_code op < FKL_OPCODE_NUM"
  by (cases op) (simp_all add: FKL_OPCODE_NUM_def)

lemma opcode_code_less_256 [simp]: "opcode_code op < 256"
  using opcode_code_less [of op] by (simp add: FKL_OPCODE_NUM_def)

lemma nth_FKL_OPCODES: "FKL_OPCODES ! opcode_code op = op"
  by (cases op) (simp_all add: FKL_OPCODES_def)

lemma opcode_of_code [simp]: "opcode_of (opcode_code op) = Some op"
  by (simp add: opcode_of_def opcode_code_less nth_FKL_OPCODES)

lemma opcode_code_inj: "opcode_code a = opcode_code b \<Longrightarrow> a = b"
  by (metis nth_FKL_OPCODES)

lemma code_of_opcode: "opcode_of n = Some op \<Longrightarrow> opcode_code op = n"
proof -
  assume "opcode_of n = Some op"
  then have n: "n < FKL_OPCODE_NUM" "FKL_OPCODES ! n = op" by (auto simp: opcode_of_def split: if_splits)
  have "map opcode_code FKL_OPCODES = [0..<FKL_OPCODE_NUM]"
    by code_simp
  then have "map opcode_code FKL_OPCODES ! n = n" using n by simp
  then show ?thesis using n by simp
qed

text \<open>The order of the enumeration, which the code compares opcodes by.\<close>

instantiation FklOpcode :: linorder
begin

definition less_eq_FklOpcode :: "FklOpcode \<Rightarrow> FklOpcode \<Rightarrow> bool" where
  "less_eq_FklOpcode a b \<longleftrightarrow> opcode_code a \<le> opcode_code b"

definition less_FklOpcode :: "FklOpcode \<Rightarrow> FklOpcode \<Rightarrow> bool" where
  "less_FklOpcode a b \<longleftrightarrow> opcode_code a < opcode_code b"

instance
  by standard (auto simp: less_eq_FklOpcode_def less_FklOpcode_def dest: opcode_code_inj)

end

text \<open>Following \<open>next\<close> leads to the dummy opcode, through ever larger opcodes.\<close>

lemma opcode_next_greater: "fklGetOpcodeNext op = FKL_OP_DUMMY \<or> op < fklGetOpcodeNext op"
  by (cases op) (simp_all add: fklGetOpcodeNext_def less_FklOpcode_def)

lemma distinct_opcode_names: "distinct (map fklGetOpcodeName FKL_OPCODES)"
  by (simp add: FKL_OPCODES_def fklGetOpcodeName_def)

lemma opcode_in_FKL_OPCODES: "op \<in> set FKL_OPCODES"
  using nth_mem [of "opcode_code op" FKL_OPCODES] by (simp add: nth_FKL_OPCODES opcode_code_less)

lemma opcode_name_inj: "fklGetOpcodeName a = fklGetOpcodeName b \<Longrightarrow> a = b"
  using distinct_opcode_names opcode_in_FKL_OPCODES [of a] opcode_in_FKL_OPCODES [of b]
  by (auto simp: distinct_map inj_on_def)

section \<open>Properties\<close>

text \<open>
  The names of the opcodes identify them: \<open>fklFindOpcode\<close> finds the opcode a name belongs
  to, and a string that is the name of no opcode gives the dummy opcode, whose number is 0.
\<close>

theorem fklFindOpcode_name:
  "fklFindOpcode s = op \<longleftrightarrow> fklGetOpcodeName op = s
     \<or> (op = FKL_OP_DUMMY \<and> s \<notin> fklGetOpcodeName ` set FKL_OPCODES)"
proof (cases "find (\<lambda>op. fklGetOpcodeName op = s) FKL_OPCODES")
  case None
  then have "s \<notin> fklGetOpcodeName ` set FKL_OPCODES" by (auto simp: find_None_iff)
  moreover from this have "fklGetOpcodeName op \<noteq> s" using opcode_in_FKL_OPCODES [of op] by auto
  ultimately show ?thesis using None by (auto simp: fklFindOpcode_def)
next
  case (Some op')
  then have "fklGetOpcodeName op' = s" by (auto simp: find_Some_iff)
  with Some show ?thesis using opcode_in_FKL_OPCODES [of op']
    by (auto simp: fklFindOpcode_def dest: opcode_name_inj)
qed

end
