(* ===== verification/Instruction.thy ===== *)
theory Instruction
  imports Opcode
begin

text \<open>
  The instruction words of include/fakeLisp/bytecode.h and their encoding and decoding in
  src/bytecode.c. An instruction is one to three 32-bit words: the opcode in the low byte, then
  the operands \<open>A\<close> (8 bits), \<open>B\<close> (16 bits) or \<open>C\<close> (24 bits, signed operands stored with
  an offset). A pointer to instructions is the list of the words from there on.
\<close>

section \<open>Words\<close>

type_synonym FklIns = u32

definition FKL_MASK1 :: "nat \<Rightarrow> nat \<Rightarrow> 'n::len word" where
  "FKL_MASK1 s p = push_bit p (push_bit s 1 - 1)"

definition FKL_MASK0 :: "nat \<Rightarrow> nat \<Rightarrow> 'n::len word" where
  "FKL_MASK0 s p = NOT (FKL_MASK1 s p)"

definition FKL_INS_GET :: "FklIns \<Rightarrow> nat \<Rightarrow> nat \<Rightarrow> FklIns" where
  "FKL_INS_GET i pos sz = drop_bit pos i AND FKL_MASK1 sz 0"

definition FKL_INS_SET :: "FklIns \<Rightarrow> FklIns \<Rightarrow> nat \<Rightarrow> nat \<Rightarrow> FklIns" where
  "FKL_INS_SET i v pos sz = (i AND FKL_MASK0 sz pos) OR push_bit pos (v AND FKL_MASK1 sz 0)"

text \<open>
  The byte need not be the number of an opcode; looking such an instruction up in the opcode table
  is outside the table, hence \<open>None\<close>.
\<close>

definition FKL_INS_OP :: "FklIns \<Rightarrow> FklOpcode option" where
  "FKL_INS_OP i = opcode_of (unat (FKL_INS_GET i 0 8))"

definition FKL_INS_SET_OP :: "FklIns \<Rightarrow> FklOpcode \<Rightarrow> FklIns" where
  "FKL_INS_SET_OP i op = FKL_INS_SET i (of_nat (opcode_code op)) 0 8"

text \<open>Readers give the operand at its own width; where it is used it is widened, by
  \<open>scast\<close> if signed and \<open>ucast\<close> if not.\<close>

definition FKL_INS_sA :: "FklIns \<Rightarrow> 8 word" where
  "FKL_INS_sA i = ucast (FKL_INS_GET i 8 8)"

definition FKL_INS_uA :: "FklIns \<Rightarrow> u8" where
  "FKL_INS_uA i = ucast (FKL_INS_GET i 8 8)"

definition FKL_INS_sB :: "FklIns \<Rightarrow> 16 word" where
  "FKL_INS_sB i = ucast (FKL_INS_GET i 16 16)"

definition FKL_INS_uB :: "FklIns \<Rightarrow> u16" where
  "FKL_INS_uB i = ucast (FKL_INS_GET i 16 16)"

definition FKL_I24_OFFSET :: "'n::len word" where
  "FKL_I24_OFFSET = 0x800000"

definition FKL_INS_sC :: "FklIns \<Rightarrow> c_int" where
  "FKL_INS_sC i = FKL_INS_GET i 8 24 - FKL_I24_OFFSET"

definition FKL_INS_uC :: "FklIns \<Rightarrow> u32" where
  "FKL_INS_uC i = FKL_INS_GET i 8 24"

definition FKL_INS_SET_uA :: "FklIns \<Rightarrow> 'v::len word \<Rightarrow> FklIns" where
  "FKL_INS_SET_uA i v = FKL_INS_SET i (ucast (ucast v :: u8)) 8 8"

definition FKL_INS_SET_sA :: "FklIns \<Rightarrow> 'v::len word \<Rightarrow> FklIns" where
  "FKL_INS_SET_sA i v = FKL_INS_SET_uA i v"

definition FKL_INS_SET_uB :: "FklIns \<Rightarrow> 'v::len word \<Rightarrow> FklIns" where
  "FKL_INS_SET_uB i v = FKL_INS_SET i (ucast (ucast v :: u16)) 16 16"

definition FKL_INS_SET_sB :: "FklIns \<Rightarrow> 'v::len word \<Rightarrow> FklIns" where
  "FKL_INS_SET_sB i v = FKL_INS_SET_uB i v"

definition FKL_INS_SET_sC :: "FklIns \<Rightarrow> 'v::len word \<Rightarrow> FklIns" where
  "FKL_INS_SET_sC i v = FKL_INS_SET i (ucast v + FKL_I24_OFFSET) 8 24"

definition FKL_INS_SET_uC :: "FklIns \<Rightarrow> 'v::len word \<Rightarrow> FklIns" where
  "FKL_INS_SET_uC i v = FKL_INS_SET i (ucast v) 8 24"

definition FKL_MAKE_INS_I :: "FklOpcode \<Rightarrow> FklIns" where
  "FKL_MAKE_INS_I op = FKL_INS_SET_OP 0 op"

definition FKL_MAKE_INS_IuA :: "FklOpcode \<Rightarrow> 'v::len word \<Rightarrow> FklIns" where
  "FKL_MAKE_INS_IuA op v = FKL_INS_SET_uA (FKL_MAKE_INS_I op) v"

definition FKL_MAKE_INS_IuB :: "FklOpcode \<Rightarrow> 'v::len word \<Rightarrow> FklIns" where
  "FKL_MAKE_INS_IuB op v = FKL_INS_SET_uB (FKL_MAKE_INS_I op) v"

definition FKL_MAKE_INS_IuC :: "FklOpcode \<Rightarrow> 'v::len word \<Rightarrow> FklIns" where
  "FKL_MAKE_INS_IuC op v = FKL_INS_SET_uC (FKL_MAKE_INS_I op) v"

text \<open>Operands that span several words.\<close>

definition FKL_INS_uX :: "FklIns \<Rightarrow> FklIns \<Rightarrow> u32" where
  "FKL_INS_uX i0 i1 = ucast (FKL_INS_uB i0) OR push_bit 16 (ucast (FKL_INS_uB i1))"

definition FKL_INS_uXX :: "FklIns \<Rightarrow> FklIns \<Rightarrow> FklIns \<Rightarrow> u64" where
  "FKL_INS_uXX i0 i1 i2 = ucast (FKL_INS_uC i0) OR push_bit 24 (ucast (FKL_INS_uC i1))
     OR push_bit 48 (ucast (FKL_INS_uB i2))"

section \<open>Operands of an instruction\<close>

record FklInsArg =
  ix :: i64
  ux :: u64
  uy :: u64

definition zero_arg :: FklInsArg where
  "zero_arg = \<lparr>ix = 0, ux = 0, uy = 0\<rparr>"

text \<open>What the first switch of \<open>fklMakeIns\<close> copies out of the argument; the rest stays 0.\<close>

fun take_args :: "FklOpcodeMode \<Rightarrow> FklInsArg \<Rightarrow> FklInsArg option" where
  "take_args FKL_OP_MODE_I arg = Some zero_arg"
| "take_args FKL_OP_MODE_IsA arg = Some (zero_arg\<lparr>ix := ix arg\<rparr>)"
| "take_args FKL_OP_MODE_IsB arg = Some (zero_arg\<lparr>ix := ix arg\<rparr>)"
| "take_args FKL_OP_MODE_IsC arg = Some (zero_arg\<lparr>ix := ix arg\<rparr>)"
| "take_args FKL_OP_MODE_IsBB arg = Some (zero_arg\<lparr>ix := ix arg\<rparr>)"
| "take_args FKL_OP_MODE_IsCCB arg = Some (zero_arg\<lparr>ix := ix arg\<rparr>)"
| "take_args FKL_OP_MODE_IuB arg = Some (zero_arg\<lparr>ux := ux arg\<rparr>)"
| "take_args FKL_OP_MODE_IuC arg = Some (zero_arg\<lparr>ux := ux arg\<rparr>)"
| "take_args FKL_OP_MODE_IuBB arg = Some (zero_arg\<lparr>ux := ux arg\<rparr>)"
| "take_args FKL_OP_MODE_IuCCB arg = Some (zero_arg\<lparr>ux := ux arg\<rparr>)"
| "take_args FKL_OP_MODE_IsAuB arg = Some (zero_arg\<lparr>ix := ix arg, uy := uy arg\<rparr>)"
| "take_args FKL_OP_MODE_IuAuB arg = Some (zero_arg\<lparr>ux := ux arg, uy := uy arg\<rparr>)"
| "take_args FKL_OP_MODE_IuCuC arg = Some (zero_arg\<lparr>ux := ux arg, uy := uy arg\<rparr>)"
| "take_args FKL_OP_MODE_IuCAuBB arg = Some (zero_arg\<lparr>ux := ux arg, uy := uy arg\<rparr>)"
| "take_args FKL_OP_MODE_IxAxB arg = None"

text \<open>
  The tests of the loop of \<open>fklMakeIns\<close>. That of mode \<open>IsC\<close> compares with
  \<open>FKL_U24_MAX\<close>, not with the largest signed 24-bit number.
\<close>

definition FKL_U24_MAX :: int where "FKL_U24_MAX = 0xFFFFFF"
definition FKL_I24_MAX :: int where "FKL_I24_MAX = 0x7FFFFF"
definition FKL_I24_MIN :: int where "FKL_I24_MIN = -0x800000"

fun mode_fits :: "FklOpcodeMode \<Rightarrow> FklInsArg \<Rightarrow> bool" where
  "mode_fits FKL_OP_MODE_I a = True"
| "mode_fits FKL_OP_MODE_IsA a = (\<not> (sint (ix a) > 127 \<or> sint (ix a) < -128))"
| "mode_fits FKL_OP_MODE_IsB a = (\<not> (sint (ix a) > 32767 \<or> sint (ix a) < -32768))"
| "mode_fits FKL_OP_MODE_IsC a = (\<not> (sint (ix a) > FKL_U24_MAX \<or> sint (ix a) < FKL_I24_MIN))"
| "mode_fits FKL_OP_MODE_IsBB a = (\<not> (sint (ix a) > 2147483647 \<or> sint (ix a) < -2147483648))"
| "mode_fits FKL_OP_MODE_IsCCB a = True"
| "mode_fits FKL_OP_MODE_IuB a = (\<not> uint (ux a) > 65535)"
| "mode_fits FKL_OP_MODE_IuC a = (\<not> uint (ux a) > FKL_U24_MAX)"
| "mode_fits FKL_OP_MODE_IuBB a = (\<not> uint (ux a) > 4294967295)"
| "mode_fits FKL_OP_MODE_IuCCB a = True"
| "mode_fits FKL_OP_MODE_IsAuB a = (\<not> (sint (ix a) > 127 \<or> sint (ix a) < -128 \<or> uint (uy a) > 65535))"
| "mode_fits FKL_OP_MODE_IuAuB a = (\<not> (uint (ux a) > 255 \<or> uint (uy a) > 65535))"
| "mode_fits FKL_OP_MODE_IuCuC a = (\<not> (uint (ux a) > FKL_U24_MAX \<or> uint (uy a) > FKL_U24_MAX))"
| "mode_fits FKL_OP_MODE_IuCAuBB a = (\<not> (uint (ux a) > 4294967295 \<or> uint (uy a) > 4294967295))"
| "mode_fits FKL_OP_MODE_IxAxB a = False"

text \<open>The loop: the first opcode of the \<open>next\<close> chain whose mode holds the operands.\<close>

function select_op :: "FklOpcode \<Rightarrow> FklInsArg \<Rightarrow> FklOpcode option option" where
  "select_op op a =
     (if op = FKL_OP_DUMMY then Some None
      else if fklGetOpcodeMode op = FKL_OP_MODE_IxAxB then None
      else if mode_fits (fklGetOpcodeMode op) a then Some (Some op)
      else select_op (fklGetOpcodeNext op) a)"
  by pat_completeness auto
termination
proof (relation "measure (\<lambda>(op, a). if op = FKL_OP_DUMMY then 0 else FKL_OPCODE_NUM - opcode_code op)")
  fix op a
  assume "op \<noteq> FKL_OP_DUMMY"
  then show "((fklGetOpcodeNext op, a), op, a)
    \<in> measure (\<lambda>(op, a :: FklInsArg). if op = FKL_OP_DUMMY then 0 else FKL_OPCODE_NUM - opcode_code op)"
    using opcode_next_greater [of op] opcode_code_less [of op] opcode_code_less [of "fklGetOpcodeNext op"]
    by (auto simp: less_FklOpcode_def)
qed simp

declare select_op.simps [simp del]

section \<open>Encoding\<close>

definition set_ins_uxx :: "FklIns list \<Rightarrow> u64 \<Rightarrow> FklIns list option" where
  "set_ins_uxx ins k = do {
     i0 \<leftarrow> rd ins 0;
     ins \<leftarrow> wr ins 0 (FKL_INS_SET_uC i0 (k AND FKL_MASK1 24 0));
     ins \<leftarrow> wr ins 1 (FKL_MAKE_INS_IuC FKL_OP_EXTRA_ARG (drop_bit 24 k AND FKL_MASK1 24 0));
     wr ins 2 (FKL_MAKE_INS_IuB FKL_OP_EXTRA_ARG (drop_bit 48 k AND FKL_MASK1 16 0)) }"

definition set_ins_ux :: "FklIns list \<Rightarrow> u32 \<Rightarrow> FklIns list option" where
  "set_ins_ux ins k = do {
     i0 \<leftarrow> rd ins 0;
     ins \<leftarrow> wr ins 0 (FKL_INS_SET_uB i0 (k AND FKL_MASK1 16 0));
     wr ins 1 (FKL_MAKE_INS_IuB FKL_OP_EXTRA_ARG (drop_bit 16 k AND FKL_MASK1 16 0)) }"

definition set_ins_2_uxx :: "FklIns list \<Rightarrow> u64 \<Rightarrow> u64 \<Rightarrow> FklIns list option" where
  "set_ins_2_uxx ins x y = do {
     i0 \<leftarrow> rd ins 0;
     ins \<leftarrow> wr ins 0 (FKL_INS_SET_uC i0 (x AND FKL_MASK1 24 0));
     ins \<leftarrow> wr ins 1 (FKL_MAKE_INS_IuA FKL_OP_EXTRA_ARG (drop_bit 24 x AND FKL_MASK1 24 0));
     i1 \<leftarrow> rd ins 1;
     ins \<leftarrow> wr ins 1 (FKL_INS_SET_uB i1 (y AND FKL_MASK1 16 0));
     wr ins 2 (FKL_MAKE_INS_IuB FKL_OP_EXTRA_ARG (drop_bit 16 y AND FKL_MASK1 16 0)) }"

fun emit_ins :: "FklOpcodeMode \<Rightarrow> FklIns list \<Rightarrow> FklInsArg \<Rightarrow> FklIns list option" where
  "emit_ins FKL_OP_MODE_I ins a = Some ins"
| "emit_ins FKL_OP_MODE_IsA ins a = do { i \<leftarrow> rd ins 0; wr ins 0 (FKL_INS_SET_sA i (ix a)) }"
| "emit_ins FKL_OP_MODE_IsB ins a = do { i \<leftarrow> rd ins 0; wr ins 0 (FKL_INS_SET_sB i (ix a)) }"
| "emit_ins FKL_OP_MODE_IsC ins a = do { i \<leftarrow> rd ins 0; wr ins 0 (FKL_INS_SET_sC i (ix a)) }"
| "emit_ins FKL_OP_MODE_IsBB ins a = set_ins_ux ins (ucast (ix a))"
| "emit_ins FKL_OP_MODE_IsCCB ins a = set_ins_uxx ins (ix a)"
| "emit_ins FKL_OP_MODE_IuB ins a = do { i \<leftarrow> rd ins 0; wr ins 0 (FKL_INS_SET_uB i (ux a)) }"
| "emit_ins FKL_OP_MODE_IuC ins a = do { i \<leftarrow> rd ins 0; wr ins 0 (FKL_INS_SET_uC i (ux a)) }"
| "emit_ins FKL_OP_MODE_IuBB ins a = set_ins_ux ins (ucast (ux a))"
| "emit_ins FKL_OP_MODE_IuCCB ins a = set_ins_uxx ins (ux a)"
| "emit_ins FKL_OP_MODE_IsAuB ins a = do {
     i \<leftarrow> rd ins 0; ins \<leftarrow> wr ins 0 (FKL_INS_SET_sA i (ix a));
     i \<leftarrow> rd ins 0; wr ins 0 (FKL_INS_SET_uB i (uy a)) }"
| "emit_ins FKL_OP_MODE_IuAuB ins a = do {
     i \<leftarrow> rd ins 0; ins \<leftarrow> wr ins 0 (FKL_INS_SET_uA i (ux a));
     i \<leftarrow> rd ins 0; wr ins 0 (FKL_INS_SET_uB i (uy a)) }"
| "emit_ins FKL_OP_MODE_IuCuC ins a = do {
     i \<leftarrow> rd ins 0; ins \<leftarrow> wr ins 0 (FKL_INS_SET_uC i (ux a));
     i \<leftarrow> rd ins 1; wr ins 1 (FKL_INS_SET_uC i (uy a)) }"
| "emit_ins FKL_OP_MODE_IuCAuBB ins a = set_ins_2_uxx ins (ux a) (uy a)"
| "emit_ins FKL_OP_MODE_IxAxB ins a = None"

text \<open>The result is the written words and the length; length 0 means that no opcode fits.\<close>

definition fklMakeIns :: "FklIns list \<Rightarrow> FklOpcode \<Rightarrow> FklInsArg \<Rightarrow> (FklIns list \<times> nat) option" where
  "fklMakeIns ins op arg =
     (if op = FKL_OP_DUMMY then Some (ins, 0)
      else do {
        a \<leftarrow> take_args (fklGetOpcodeMode op) arg;
        r \<leftarrow> select_op op a;
        case r of None \<Rightarrow> Some (ins, 0)
        | Some op \<Rightarrow> do {
            FKL_ASSERT (op \<noteq> FKL_OP_DUMMY);
            i \<leftarrow> rd ins 0;
            ins \<leftarrow> wr ins 0 (FKL_INS_SET_OP i op);
            ins \<leftarrow> emit_ins (fklGetOpcodeMode op) ins a;
            Some (ins, fklGetOpcodeModeLen op) } })"

section \<open>Decoding\<close>

fun get_ins_op_mode :: "FklOpcodeMode \<Rightarrow> FklIns list \<Rightarrow> FklInsArg \<Rightarrow> (FklInsArg \<times> nat) option" where
  "get_ins_op_mode FKL_OP_MODE_I ins a = Some (a, 1)"
| "get_ins_op_mode FKL_OP_MODE_IsA ins a = do { i \<leftarrow> rd ins 0; Some (a\<lparr>ix := scast (FKL_INS_sA i)\<rparr>, 1) }"
| "get_ins_op_mode FKL_OP_MODE_IuB ins a = do { i \<leftarrow> rd ins 0; Some (a\<lparr>ux := ucast (FKL_INS_uB i)\<rparr>, 1) }"
| "get_ins_op_mode FKL_OP_MODE_IsB ins a = do { i \<leftarrow> rd ins 0; Some (a\<lparr>ix := scast (FKL_INS_sB i)\<rparr>, 1) }"
| "get_ins_op_mode FKL_OP_MODE_IuC ins a = do { i \<leftarrow> rd ins 0; Some (a\<lparr>ux := ucast (FKL_INS_uC i)\<rparr>, 1) }"
| "get_ins_op_mode FKL_OP_MODE_IsC ins a = do { i \<leftarrow> rd ins 0; Some (a\<lparr>ix := scast (FKL_INS_sC i)\<rparr>, 1) }"
| "get_ins_op_mode FKL_OP_MODE_IuBB ins a = do {
     i \<leftarrow> rd ins 0; j \<leftarrow> rd ins 1; Some (a\<lparr>ux := ucast (FKL_INS_uX i j)\<rparr>, 2) }"
| "get_ins_op_mode FKL_OP_MODE_IsBB ins a = do {
     i \<leftarrow> rd ins 0; j \<leftarrow> rd ins 1; Some (a\<lparr>ix := scast (FKL_INS_uX i j)\<rparr>, 2) }"
| "get_ins_op_mode FKL_OP_MODE_IuCCB ins a = do {
     i \<leftarrow> rd ins 0; j \<leftarrow> rd ins 1; k \<leftarrow> rd ins 2; Some (a\<lparr>ux := FKL_INS_uXX i j k\<rparr>, 3) }"
| "get_ins_op_mode FKL_OP_MODE_IsCCB ins a = do {
     i \<leftarrow> rd ins 0; j \<leftarrow> rd ins 1; k \<leftarrow> rd ins 2; Some (a\<lparr>ix := FKL_INS_uXX i j k\<rparr>, 3) }"
| "get_ins_op_mode FKL_OP_MODE_IsAuB ins a = do {
     i \<leftarrow> rd ins 0; Some (a\<lparr>ix := scast (FKL_INS_sA i), uy := ucast (FKL_INS_uB i)\<rparr>, 1) }"
| "get_ins_op_mode FKL_OP_MODE_IuAuB ins a = do {
     i \<leftarrow> rd ins 0; Some (a\<lparr>ux := ucast (FKL_INS_uA i), uy := ucast (FKL_INS_uB i)\<rparr>, 1) }"
| "get_ins_op_mode FKL_OP_MODE_IuCuC ins a = do {
     i \<leftarrow> rd ins 0; j \<leftarrow> rd ins 1; Some (a\<lparr>ux := ucast (FKL_INS_uC i), uy := ucast (FKL_INS_uC j)\<rparr>, 2) }"
| "get_ins_op_mode FKL_OP_MODE_IuCAuBB ins a = do {
     i \<leftarrow> rd ins 0; j \<leftarrow> rd ins 1; k \<leftarrow> rd ins 2;
     Some (a\<lparr>ux := ucast (FKL_INS_uC i OR push_bit 24 (ucast (FKL_INS_uA j))),
             uy := ucast (FKL_INS_uB j) OR push_bit 16 (ucast (FKL_INS_uB k))\<rparr>, 3) }"
| "get_ins_op_mode FKL_OP_MODE_IxAxB ins a = do {
     i \<leftarrow> rd ins 0; Some (a\<lparr>ux := ucast (FKL_INS_uA i), uy := ucast (FKL_INS_uB i)\<rparr>, 1) }"

definition fklGetInsOpArgWithOp :: "FklOpcode \<Rightarrow> FklIns list \<Rightarrow> FklInsArg \<Rightarrow> (FklInsArg \<times> nat) option" where
  "fklGetInsOpArgWithOp op ins a = get_ins_op_mode (fklGetOpcodeMode op) ins a"

definition fklGetInsOpArg :: "FklIns list \<Rightarrow> FklInsArg \<Rightarrow> (FklInsArg \<times> nat) option" where
  "fklGetInsOpArg ins a = do {
     i \<leftarrow> rd ins 0;
     op \<leftarrow> FKL_INS_OP i;
     fklGetInsOpArgWithOp op ins a }"


section \<open>Bits of the fields\<close>

lemma MASK1_mask: "FKL_MASK1 s 0 = mask s"
  by (simp add: FKL_MASK1_def mask_eq_exp_minus_1 push_bit_of_1)

lemma MASK0_mask: "FKL_MASK0 s p = NOT (push_bit p (mask s))"
  by (simp add: FKL_MASK0_def FKL_MASK1_def mask_eq_exp_minus_1 push_bit_of_1)

lemma bit_GET: "bit (FKL_INS_GET i pos n) k \<longleftrightarrow> k < n \<and> bit i (pos + k)"
  by (auto simp: FKL_INS_GET_def MASK1_mask bit_simps dest: bit_imp_le_length)

lemma bit_SET: "pos + n \<le> 32 \<Longrightarrow> bit (FKL_INS_SET i v pos n) k
    \<longleftrightarrow> (if pos \<le> k \<and> k < pos + n then bit v (k - pos) else bit i k)"
  by (auto simp: FKL_INS_SET_def MASK1_mask MASK0_mask bit_simps dest: bit_imp_le_length)

lemma GET_SET_same: "pos + n \<le> 32 \<Longrightarrow> FKL_INS_GET (FKL_INS_SET i v pos n) pos n = take_bit n v"
  by (rule bit_word_eqI) (auto simp: bit_GET bit_SET bit_take_bit_iff)

lemma GET_SET_other:
  "pos + n \<le> 32 \<Longrightarrow> pos + n \<le> pos' \<or> pos' + n' \<le> pos
   \<Longrightarrow> FKL_INS_GET (FKL_INS_SET i v pos n) pos' n' = FKL_INS_GET i pos' n'"
  by (rule bit_word_eqI) (auto simp: bit_GET bit_SET)

lemmas GET_SET = GET_SET_same GET_SET_other

lemma take_bit_8: "take_bit 8 (ucast (v :: u8) :: u32) = ucast v"
  and take_bit_16: "take_bit 16 (ucast (w :: u16) :: u32) = ucast w"
  by (rule bit_word_eqI; auto simp: bit_simps dest: bit_imp_le_length)+

lemma ucast_ucast_8 [simp]: "ucast (ucast (v :: u8) :: u32) = v"
  and ucast_ucast_16 [simp]: "ucast (ucast (w :: u16) :: u32) = w"
  by (rule bit_word_eqI; simp add: bit_simps)+

lemma OP_SET_OP [simp]: "FKL_INS_OP (FKL_INS_SET_OP i op) = Some op"
  by (simp add: FKL_INS_OP_def FKL_INS_SET_OP_def GET_SET unsigned_take_bit_eq
      unsigned_of_nat take_bit_nat_eq_self)

lemma OP_SET [simp]:
  "FKL_INS_OP (FKL_INS_SET_uA i a) = FKL_INS_OP i"
  "FKL_INS_OP (FKL_INS_SET_sA i a) = FKL_INS_OP i"
  "FKL_INS_OP (FKL_INS_SET_uB i b) = FKL_INS_OP i"
  "FKL_INS_OP (FKL_INS_SET_sB i b) = FKL_INS_OP i"
  "FKL_INS_OP (FKL_INS_SET_uC i c) = FKL_INS_OP i"
  "FKL_INS_OP (FKL_INS_SET_sC i c) = FKL_INS_OP i"
  by (simp_all add: FKL_INS_OP_def FKL_INS_SET_uA_def FKL_INS_SET_sA_def FKL_INS_SET_uB_def
      FKL_INS_SET_sB_def FKL_INS_SET_uC_def FKL_INS_SET_sC_def GET_SET)

lemma get_set_A [simp]:
  "FKL_INS_uA (FKL_INS_SET_uA i a) = ucast a" "FKL_INS_sA (FKL_INS_SET_sA i a) = ucast a"
  "FKL_INS_uA (FKL_INS_SET_uB i b) = FKL_INS_uA i" "FKL_INS_sA (FKL_INS_SET_uB i b) = FKL_INS_sA i"
  by (simp_all add: FKL_INS_uA_def FKL_INS_sA_def FKL_INS_SET_uA_def FKL_INS_SET_sA_def
      FKL_INS_SET_uB_def GET_SET take_bit_8)

lemma get_set_B [simp]:
  "FKL_INS_uB (FKL_INS_SET_uB i b) = ucast b" "FKL_INS_sB (FKL_INS_SET_sB i b) = ucast b"
  by (simp_all add: FKL_INS_uB_def FKL_INS_sB_def FKL_INS_SET_uB_def FKL_INS_SET_sB_def GET_SET take_bit_16)

lemma get_set_C [simp]:
  "FKL_INS_uC (FKL_INS_SET_uC i c) = take_bit 24 (ucast c)"
  "FKL_INS_sC (FKL_INS_SET_sC i c) = take_bit 24 (ucast c + FKL_I24_OFFSET) - FKL_I24_OFFSET"
  by (simp_all add: FKL_INS_uC_def FKL_INS_sC_def FKL_INS_SET_uC_def FKL_INS_SET_sC_def GET_SET)


lemma get_make [simp]:
  "FKL_INS_uA (FKL_MAKE_INS_IuA op v) = ucast v"
  "FKL_INS_uB (FKL_MAKE_INS_IuB op v) = ucast v"
  "FKL_INS_uC (FKL_MAKE_INS_IuC op v) = take_bit 24 (ucast v)"
  by (simp_all add: FKL_MAKE_INS_IuA_def FKL_MAKE_INS_IuB_def FKL_MAKE_INS_IuC_def)

section \<open>Operands that fit survive the encoding\<close>

lemma bit_small_signed:
  fixes x :: i64
  assumes "- (2 ^ m) \<le> sint x" "sint x < 2 ^ m" "n < 64"
  shows "bit x n \<longleftrightarrow> bit x (min n m)"
proof -
  have "signed_take_bit m (sint x) = sint x"
    using assms by (intro signed_take_bit_int_eq_self) auto
  then have "bit (sint x) n = bit (sint x) (min n m)"
    using bit_signed_take_bit_iff [of m "sint x" n] by (simp add: min.commute)
  moreover have "bit (sint x) k = bit x k" if "k < 64" for k
    using that by (cases "k = 63") (auto simp: bit_sint_iff)
  ultimately show ?thesis using assms by simp
qed

lemma scast_ucast_small:
  fixes x :: i64
  assumes "- (2 ^ (LENGTH('b) - 1)) \<le> sint x" "sint x < 2 ^ (LENGTH('b) - 1)" "LENGTH('b) \<le> 64"
  shows "scast (ucast x :: 'b::len word) = x"
proof (rule bit_word_eqI)
  fix n
  assume "n < LENGTH(64)"
  then have n: "n < 64" by simp
  have "bit (scast (ucast x :: 'b word) :: i64) n \<longleftrightarrow> bit x (min n (LENGTH('b) - 1))"
    using n assms(3)
    by (cases "n < LENGTH('b) - 1"; cases "n = LENGTH('b) - 1") (auto simp: bit_simps min_def)
  also have "\<dots> \<longleftrightarrow> bit x n" using bit_small_signed [OF assms(1,2) n] by simp
  finally show "bit (scast (ucast x :: 'b word) :: i64) n \<longleftrightarrow> bit x n" .
qed

lemma ucast_ucast_small:
  fixes x :: u64
  assumes "uint x < 2 ^ LENGTH('b)"
  shows "ucast (ucast x :: 'b::len word) = x"
  using assms by (simp add: word_uint_eq_iff unsigned_ucast_eq unsigned_take_bit_eq take_bit_int_eq_self)

lemma ucast_take_bit_24:
  fixes x :: u64
  assumes "uint x < 16777216"
  shows "ucast (take_bit 24 (ucast x :: u32)) = x"
  using assms by (simp add: word_uint_eq_iff unsigned_ucast_eq unsigned_take_bit_eq take_bit_int_eq_self)

lemma split_u32: "ucast (ucast (k AND FKL_MASK1 16 0) :: u16)
    OR push_bit 16 (ucast (ucast (drop_bit 16 k AND FKL_MASK1 16 0) :: u16)) = (k :: u32)"
  by (rule bit_word_eqI) (auto simp: MASK1_mask bit_simps)

lemma split_u64: "ucast (take_bit 24 (ucast (k AND FKL_MASK1 24 0) :: u32))
    OR push_bit 24 (ucast (take_bit 24 (ucast (drop_bit 24 k AND FKL_MASK1 24 0) :: u32)))
    OR push_bit 48 (ucast (ucast (drop_bit 48 k AND FKL_MASK1 16 0) :: u16)) = (k :: u64)"
proof (rule bit_word_eqI)
  fix n
  assume "n < LENGTH(64)"
  then consider "n < 24" | "24 \<le> n" "n < 48" | "48 \<le> n" "n < 64" by fastforce
  then show "bit (ucast (take_bit 24 (ucast (k AND FKL_MASK1 24 0) :: u32))
    OR push_bit 24 (ucast (take_bit 24 (ucast (drop_bit 24 k AND FKL_MASK1 24 0) :: u32)))
    OR push_bit 48 (ucast (ucast (drop_bit 48 k AND FKL_MASK1 16 0) :: u16)) :: u64) n \<longleftrightarrow> bit k n"
    by cases (auto simp: MASK1_mask bit_simps)
qed

lemma uX_set_ins_ux: "set_ins_ux ins k = Some ins' \<Longrightarrow> FKL_INS_uX (ins' ! 0) (ins' ! 1) = k"
  by (auto simp: set_ins_ux_def FKL_INS_uX_def rd_def wr_def split_u32 split: if_splits)

lemma uXX_set_ins_uxx: "set_ins_uxx ins k = Some ins' \<Longrightarrow> FKL_INS_uXX (ins' ! 0) (ins' ! 1) (ins' ! 2) = k"
  by (auto simp: set_ins_uxx_def FKL_INS_uXX_def rd_def wr_def split_u64 split: if_splits)


lemma emit_ins_OP: "emit_ins m ins a = Some ins' \<Longrightarrow> FKL_INS_OP (ins' ! 0) = FKL_INS_OP (ins ! 0)"
  by (cases m) (auto simp: rd_def wr_def set_ins_ux_def set_ins_uxx_def set_ins_2_uxx_def split: if_splits)

lemma emit_ins_length: "emit_ins m ins a = Some ins' \<Longrightarrow> ins \<noteq> [] \<Longrightarrow> length ins' = length ins \<and> mode_len m \<le> length ins"
  by (cases m) (auto simp: rd_def wr_def set_ins_ux_def set_ins_uxx_def set_ins_2_uxx_def Suc_le_eq
      split: if_splits)

text \<open>The 24-bit signed operand: exact in its range, off by \<open>2 ^ 24\<close> where the code lets more pass.\<close>

lemma sC_round:
  fixes x :: i64
  assumes "- 8388608 \<le> sint x" "sint x < 16777216"
  shows "sint (take_bit 24 (ucast x + FKL_I24_OFFSET) - FKL_I24_OFFSET :: u32)
    = (if sint x < 8388608 then sint x else sint x - 16777216)"
proof -
  define v where "v = sint x"
  have "uint x = v mod 2 ^ 64" unfolding v_def by (simp add: uint_sint take_bit_eq_mod)
  then have "uint (ucast x :: u32) = v mod 2 ^ 32"
    by (simp add: unsigned_ucast_eq take_bit_eq_mod mod_mod_cancel)
  then have "uint (ucast x + FKL_I24_OFFSET :: u32) = (v + 8388608) mod 2 ^ 32"
    by (simp add: FKL_I24_OFFSET_def uint_word_ariths mod_simps)
  also have "\<dots> = v + 8388608" using assms by (simp add: v_def)
  finally have z: "uint (ucast x + FKL_I24_OFFSET :: u32) = v + 8388608" .
  have "(v + 8388608) mod 16777216 = (if v < 8388608 then v + 8388608 else v - 8388608)"
    using assms mod_once [of 16777216 "v + 8388608"] by (auto simp: v_def)
  then have t: "uint (take_bit 24 (ucast x + FKL_I24_OFFSET) :: u32)
      = (if v < 8388608 then v + 8388608 else v - 8388608)"
    unfolding unsigned_take_bit_eq z by (simp add: take_bit_eq_mod)
  have sub: "sint (w - FKL_I24_OFFSET) = uint w - 8388608" if "uint w < 16777216" for w :: u32
  proof -
    obtain k where k: "uint w = k" "0 \<le> k" by simp
    with that mod_neg_once [of 4294967296 "k - 8388608"] show ?thesis
      by (cases "k < 8388608") (auto simp: FKL_I24_OFFSET_def sint_32 uint_word_ariths mod_pos_pos_trivial)
  qed
  from sub [of "take_bit 24 (ucast x + FKL_I24_OFFSET)"] t assms show ?thesis
    by (auto simp: v_def split: if_splits)
qed

lemma scast_sC:
  fixes x :: i64
  assumes "- 8388608 \<le> sint x" "sint x \<le> FKL_I24_MAX"
  shows "scast (take_bit 24 (ucast x + FKL_I24_OFFSET) - FKL_I24_OFFSET :: u32) = x"
proof -
  have "sint (scast (take_bit 24 (ucast x + FKL_I24_OFFSET) - FKL_I24_OFFSET :: u32) :: i64) = sint x"
    using sC_round [of x] assms by (simp add: sint_up_scast is_up FKL_I24_MAX_def)
  then show ?thesis by (rule signed_word_eqI)
qed

lemma bit_u64_less_32: "uint x \<le> 4294967295 \<Longrightarrow> bit x n \<Longrightarrow> n < 32" for x :: u64
proof -
  assume "uint x \<le> 4294967295" "bit x n"
  then have "take_bit 32 x = x"
    by (simp add: word_uint_eq_iff unsigned_take_bit_eq take_bit_int_eq_self)
  with \<open>bit x n\<close> show ?thesis by (metis bit_take_bit_iff)
qed

lemma uX_2: "uint (x :: u64) \<le> 4294967295 \<Longrightarrow> ucast (take_bit 24 (ucast (x AND FKL_MASK1 24 0) :: u32)
    OR push_bit 24 (ucast (ucast (drop_bit 24 x AND FKL_MASK1 24 0) :: u8))) = x"
  by (rule bit_word_eqI) (auto simp: MASK1_mask bit_simps dest: bit_u64_less_32)

lemma uY_2: "uint (x :: u64) \<le> 4294967295 \<Longrightarrow> ucast (ucast (x AND FKL_MASK1 16 0) :: u16)
    OR push_bit 16 (ucast (ucast (drop_bit 16 x AND FKL_MASK1 16 0) :: u16)) = x"
  by (rule bit_word_eqI) (auto simp: MASK1_mask bit_simps dest: bit_u64_less_32)

lemma set_ins_long_length:
  "set_ins_ux ins k = Some ins' \<Longrightarrow> 1 < length ins'"
  "set_ins_uxx ins l = Some ins' \<Longrightarrow> 2 < length ins'"
  by (auto simp: set_ins_ux_def set_ins_uxx_def rd_def wr_def split: if_splits)

lemma emit_get:
  assumes "emit_ins m ins a = Some ins'" "take_args m a0 = Some a" "mode_fits m a"
    and "m = FKL_OP_MODE_IsC \<Longrightarrow> sint (ix a) \<le> FKL_I24_MAX"
  shows "get_ins_op_mode m ins' zero_arg = Some (a, mode_len m)"
proof (cases m)
  case FKL_OP_MODE_IsBB
  then have "set_ins_ux ins (ucast (ix a)) = Some ins'" using assms by simp
  from uX_set_ins_ux [OF this] set_ins_long_length(1) [OF this] FKL_OP_MODE_IsBB assms
  show ?thesis by (auto simp: rd_def scast_ucast_small)
next
  case FKL_OP_MODE_IuBB
  then have "set_ins_ux ins (ucast (ux a)) = Some ins'" using assms by simp
  from uX_set_ins_ux [OF this] set_ins_long_length(1) [OF this] FKL_OP_MODE_IuBB assms
  show ?thesis by (auto simp: rd_def ucast_ucast_small)
next
  case FKL_OP_MODE_IsCCB
  then have "set_ins_uxx ins (ix a) = Some ins'" using assms by simp
  from uXX_set_ins_uxx [OF this] set_ins_long_length(2) [OF this] FKL_OP_MODE_IsCCB assms
  show ?thesis by (auto simp: rd_def)
next
  case FKL_OP_MODE_IuCCB
  then have "set_ins_uxx ins (ux a) = Some ins'" using assms by simp
  from uXX_set_ins_uxx [OF this] set_ins_long_length(2) [OF this] FKL_OP_MODE_IuCCB assms
  show ?thesis by (auto simp: rd_def)
next
  case FKL_OP_MODE_IuCAuBB
  then show ?thesis using assms
    by (auto simp: rd_def wr_def set_ins_2_uxx_def uX_2 uY_2 split: if_splits)
qed (use assms in \<open>auto simp: rd_def wr_def scast_ucast_small ucast_ucast_small
   scast_sC FKL_U24_MAX_def FKL_I24_MIN_def ucast_take_bit_24 split: if_splits\<close>)

lemma next_same_args: "fklGetOpcodeNext op \<noteq> FKL_OP_DUMMY
    \<Longrightarrow> take_args (fklGetOpcodeMode (fklGetOpcodeNext op)) = take_args (fklGetOpcodeMode op)"
  by (cases op) (auto simp: fklGetOpcodeNext_def fklGetOpcodeMode_def fun_eq_iff)

lemma select_op_Some:
  "select_op op a = Some (Some op') \<Longrightarrow> op' \<noteq> FKL_OP_DUMMY \<and> mode_fits (fklGetOpcodeMode op') a
     \<and> take_args (fklGetOpcodeMode op') = take_args (fklGetOpcodeMode op)"
proof (induction op a rule: select_op.induct)
  case (1 op a)
  show ?case
  proof (cases "op = FKL_OP_DUMMY \<or> fklGetOpcodeMode op = FKL_OP_MODE_IxAxB \<or> mode_fits (fklGetOpcodeMode op) a")
    case True
    with "1.prems" show ?thesis by (auto simp: select_op.simps [of op] split: if_splits)
  next
    case False
    then have s: "select_op (fklGetOpcodeNext op) a = Some (Some op')"
      using "1.prems" by (simp add: select_op.simps [of op])
    then have "fklGetOpcodeNext op \<noteq> FKL_OP_DUMMY" by (auto simp: select_op.simps)
    with "1.IH" False s next_same_args [of op] show ?thesis by simp
  qed
qed


lemma fklMakeIns_cases:
  assumes "fklMakeIns ins op arg = Some (ins', n)" "n \<noteq> 0"
  obtains op' a where "take_args (fklGetOpcodeMode op) arg = Some a" "select_op op a = Some (Some op')"
    "ins \<noteq> []" "emit_ins (fklGetOpcodeMode op') (ins[0 := FKL_INS_SET_OP (ins ! 0) op']) a = Some ins'"
    "n = fklGetOpcodeModeLen op'"
  using assms
  by (auto simp: fklMakeIns_def rd_def wr_def FKL_ASSERT_def bind_eq_Some_conv split: if_splits option.splits)

section \<open>Properties\<close>

text \<open>
  C25: encoding and decoding an instruction are inverse. Whenever \<open>fklMakeIns\<close> encodes an
  operand, it wrote exactly as many words as it returns, the opcode it wrote is one of the
  \<open>next\<close> chain with the operand fields of the given opcode, and \<open>fklGetInsOpArg\<close> decodes
  the operands that were put in; the one exception is a 24-bit signed operand above
  \<open>FKL_I24_MAX\<close>, which the encoder lets pass.
\<close>

theorem fklMakeIns_roundtrip:
  assumes "fklMakeIns ins op arg = Some (ins', n)" and "n \<noteq> 0"
  shows "\<exists>op' a. FKL_INS_OP (ins' ! 0) = Some op' \<and> n = fklGetOpcodeModeLen op' \<and> n \<le> length ins'
    \<and> length ins' = length ins \<and> take_args (fklGetOpcodeMode op) arg = Some a
    \<and> (\<not> (fklGetOpcodeMode op' = FKL_OP_MODE_IsC \<and> FKL_I24_MAX < sint (ix arg))
       \<longrightarrow> fklGetInsOpArg ins' zero_arg = Some (a, n))"
proof -
  obtain op' a where o: "take_args (fklGetOpcodeMode op) arg = Some a" "select_op op a = Some (Some op')"
    "ins \<noteq> []" "emit_ins (fklGetOpcodeMode op') (ins[0 := FKL_INS_SET_OP (ins ! 0) op']) a = Some ins'"
    "n = fklGetOpcodeModeLen op'"
    using assms by (rule fklMakeIns_cases)
  have s: "mode_fits (fklGetOpcodeMode op') a" "take_args (fklGetOpcodeMode op') arg = Some a"
    using select_op_Some [OF o(2)] o(1) by auto
  have "FKL_INS_OP (ins' ! 0) = Some op'" using emit_ins_OP [OF o(4)] o(3) by simp
  moreover have "length ins' = length ins" "n \<le> length ins'"
    using emit_ins_length [OF o(4)] o by (auto simp: fklGetOpcodeModeLen_def)
  moreover have "fklGetInsOpArg ins' zero_arg = Some (a, n)"
    if "\<not> (fklGetOpcodeMode op' = FKL_OP_MODE_IsC \<and> FKL_I24_MAX < sint (ix arg))"
  proof -
    have "fklGetOpcodeMode op' = FKL_OP_MODE_IsC \<Longrightarrow> sint (ix a) \<le> FKL_I24_MAX"
      using that s(2) by auto
    from emit_get [OF o(4) s(2,1) this] show ?thesis
      using calculation o by (auto simp: fklGetInsOpArg_def fklGetInsOpArgWithOp_def fklGetOpcodeModeLen_def rd_def)
  qed
  ultimately show ?thesis using o by blast
qed

theorem fklMakeIns_roundtrip_witness:
  "\<exists>ins'. fklMakeIns [0, 0, 0] FKL_OP_PUSH_I8 (zero_arg\<lparr>ix := -300\<rparr>) = Some (ins', 1)
     \<and> fklGetInsOpArg ins' zero_arg = Some (zero_arg\<lparr>ix := -300\<rparr>, 1)"
proof -
  let ?arg = "zero_arg\<lparr>ix := -300\<rparr>"
  have sel: "select_op FKL_OP_PUSH_I8 ?arg = Some (Some FKL_OP_PUSH_I16)"
    by (simp add: select_op.simps fklGetOpcodeMode_def fklGetOpcodeNext_def)
  then obtain ins' where m: "fklMakeIns [0, 0, 0] FKL_OP_PUSH_I8 ?arg = Some (ins', 1)"
    by (simp add: fklMakeIns_def fklGetOpcodeMode_def fklGetOpcodeModeLen_def rd_def wr_def FKL_ASSERT_def)
  from fklMakeIns_roundtrip [OF m] obtain op' a where
    "FKL_INS_OP (ins' ! 0) = Some op'" "take_args (fklGetOpcodeMode FKL_OP_PUSH_I8) ?arg = Some a"
    "\<not> (fklGetOpcodeMode op' = FKL_OP_MODE_IsC \<and> FKL_I24_MAX < sint (ix ?arg))
     \<longrightarrow> fklGetInsOpArg ins' zero_arg = Some (a, 1)" by auto
  with m show ?thesis by (auto simp: FKL_I24_MAX_def fklGetOpcodeMode_def)
qed

text \<open>
  C31: the exception is a fault. A jump whose offset is between \<open>2 ^ 23\<close> and \<open>2 ^ 24 - 1\<close> is
  encoded without an error, and the offset that is decoded is too small by \<open>2 ^ 24\<close>: a forward
  jump becomes a backward jump.
\<close>

theorem fklMakeIns_jump_overflow:
  assumes "FKL_I24_MAX < sint k" and "sint k \<le> FKL_U24_MAX"
  shows "\<exists>ins' a. fklMakeIns [0] FKL_OP_JMP (zero_arg\<lparr>ix := k\<rparr>) = Some (ins', 1)
    \<and> fklGetInsOpArg ins' zero_arg = Some (a, 1) \<and> sint (ix a) = sint k - 2 ^ 24"
proof -
  have sel: "select_op FKL_OP_JMP (zero_arg\<lparr>ix := k\<rparr>) = Some (Some FKL_OP_JMP)"
    using assms by (simp add: select_op.simps fklGetOpcodeMode_def FKL_I24_MAX_def FKL_I24_MIN_def)
  have "sint (scast (take_bit 24 (ucast k + FKL_I24_OFFSET) - FKL_I24_OFFSET :: u32) :: i64) = sint k - 2 ^ 24"
    using assms sC_round [of k] by (simp add: sint_up_scast is_up FKL_I24_MAX_def FKL_U24_MAX_def)
  with sel show ?thesis
    by (simp add: fklMakeIns_def fklGetOpcodeMode_def fklGetOpcodeModeLen_def rd_def wr_def FKL_ASSERT_def
        fklGetInsOpArg_def fklGetInsOpArgWithOp_def)
qed

theorem fklMakeIns_jump_overflow_witness:
  "\<exists>ins' a. fklMakeIns [0] FKL_OP_JMP (zero_arg\<lparr>ix := 8388608\<rparr>) = Some (ins', 1)
    \<and> fklGetInsOpArg ins' zero_arg = Some (a, 1) \<and> sint (ix a) = - 8388608"
  using fklMakeIns_jump_overflow [of 8388608] by (simp add: FKL_I24_MAX_def FKL_U24_MAX_def)

text \<open>
  An integer literal gets the narrowest instruction. For \<open>push-i8\<close> the opcode chosen is
  \<open>push-i8\<close> exactly for 8-bit numbers, \<open>push-i16\<close> exactly for the other 16-bit numbers,
  \<open>push-i24\<close> for the further numbers from \<open>-2 ^ 23\<close> to \<open>2 ^ 24 - 1\<close>, and none beyond.
\<close>

theorem select_op_push_integer:
  "select_op FKL_OP_PUSH_I8 a = Some
    (if -128 \<le> sint (ix a) \<and> sint (ix a) \<le> 127 then Some FKL_OP_PUSH_I8
     else if -32768 \<le> sint (ix a) \<and> sint (ix a) \<le> 32767 then Some FKL_OP_PUSH_I16
     else if FKL_I24_MIN \<le> sint (ix a) \<and> sint (ix a) \<le> FKL_U24_MAX then Some FKL_OP_PUSH_I24
     else None)"
  by (auto simp: select_op.simps fklGetOpcodeMode_def fklGetOpcodeNext_def)

end
