(* ===== verification/ByteCode.thy ===== *)
theory ByteCode
  imports Instruction
begin

text \<open>
  Code vectors, their line number tables and the tail call scan of src/bytecode.c. A code vector
  is the list of its instruction words, so \<open>len\<close> is its length; the line number table is
  \<open>None\<close> where \<open>l\<close> is \<open>NULL\<close> and otherwise the list of its \<open>ls\<close> items. The file
  of an item is a tagged pointer; whether it points to a symbol depends on the heap, which the
  operations that assert it get as the argument \<open>is_sym\<close>.
\<close>

section \<open>State\<close>

type_synonym FklByteCode = "FklIns list"
type_synonym FklVMptr = u64

record FklLntItem =
  fid :: FklVMptr
  scp :: u64
  line :: u32
  scope :: u32

record FklByteCodelnt =
  lnt :: "FklLntItem list option"
  bc :: FklByteCode

definition FKL_VM_NIL :: FklVMptr where
  "FKL_VM_NIL = 1"

section \<open>Code vectors\<close>

definition fklInitByteCode :: "nat \<Rightarrow> FklByteCode" where
  "fklInitByteCode len = replicate len 0"

definition fklByteCodeRealloc :: "FklByteCode \<Rightarrow> nat \<Rightarrow> FklByteCode" where
  "fklByteCodeRealloc b len =
     (if length b = len then b
      else if len = 0 then []
      else take len b @ replicate (len - length b) 0)"

definition fklCodeConcat :: "FklByteCode \<Rightarrow> FklByteCode \<Rightarrow> FklByteCode" where
  "fklCodeConcat fir sec = fir @ sec"

definition fklCodeReverseConcat :: "FklByteCode \<Rightarrow> FklByteCode \<Rightarrow> FklByteCode" where
  "fklCodeReverseConcat fir sec = fir @ sec"

definition fklByteCodeInsertFront :: "FklIns \<Rightarrow> FklByteCode \<Rightarrow> FklByteCode option" where
  "fklByteCodeInsertFront ins b = do {
     let code = zrealloc b (length b + 1);
     code \<leftarrow> for_down (length b) (\<lambda>i code. do { x \<leftarrow> rd code i; wr code (i + 1) x }) code;
     wr code 0 ins }"

definition fklByteCodePushBack :: "FklByteCode \<Rightarrow> FklIns \<Rightarrow> FklByteCode option" where
  "fklByteCodePushBack b ins = wr (zrealloc b (length b + 1)) (length b) ins"

definition fklSetByteCode :: "FklByteCode \<Rightarrow> FklByteCode \<Rightarrow> FklByteCode" where
  "fklSetByteCode to from = take (length from) from @ drop (length from) (fklByteCodeRealloc to (length from))"

section \<open>Line number tables\<close>

definition fklInitLineNumTabNode ::
  "(FklVMptr \<Rightarrow> bool) \<Rightarrow> FklVMptr \<Rightarrow> u64 \<Rightarrow> u64 \<Rightarrow> u32 \<Rightarrow> FklLntItem option" where
  "fklInitLineNumTabNode is_sym f s ln sc = do {
     FKL_ASSERT (f = FKL_VM_NIL \<or> is_sym f);
     Some \<lparr>fid = f, scp = s, line = ucast ln, scope = sc\<rparr> }"

definition fklInitByteCodelnt :: "nat \<Rightarrow> FklByteCodelnt" where
  "fklInitByteCodelnt len = \<lparr>lnt = None, bc = fklInitByteCode len\<rparr>"

definition fklUninitByteCodelnt :: "FklByteCodelnt \<Rightarrow> FklByteCodelnt" where
  "fklUninitByteCodelnt t = \<lparr>lnt = None, bc = []\<rparr>"

definition fklInitSingleInsBcl ::
  "(FklVMptr \<Rightarrow> bool) \<Rightarrow> FklByteCodelnt \<Rightarrow> FklIns \<Rightarrow> FklVMptr \<Rightarrow> u64 \<Rightarrow> u32 \<Rightarrow> FklByteCodelnt option" where
  "fklInitSingleInsBcl is_sym r ins f ln sc = do {
     code \<leftarrow> wr (bc r) 0 ins;
     item \<leftarrow> fklInitLineNumTabNode is_sym f 0 ln sc;
     Some \<lparr>lnt = Some [item], bc = code\<rparr> }"

definition fklCreateSingleInsBclnt ::
  "(FklVMptr \<Rightarrow> bool) \<Rightarrow> FklIns \<Rightarrow> FklVMptr \<Rightarrow> u64 \<Rightarrow> u32 \<Rightarrow> FklByteCodelnt option" where
  "fklCreateSingleInsBclnt is_sym ins f ln sc = do {
     FKL_ASSERT (f = FKL_VM_NIL \<or> is_sym f);
     fklInitSingleInsBcl is_sym (fklInitByteCodelnt 1) ins f ln sc }"

text \<open>\<open>fklCopyMemory\<close> of no bytes is \<open>NULL\<close>.\<close>

definition copy_items :: "FklLntItem list option \<Rightarrow> FklLntItem list option" where
  "copy_items l = (case l of None \<Rightarrow> None | Some [] \<Rightarrow> None | Some xs \<Rightarrow> Some xs)"

definition fklSetByteCodelnt :: "FklByteCodelnt \<Rightarrow> FklByteCodelnt \<Rightarrow> FklByteCodelnt" where
  "fklSetByteCodelnt a b =
     (let a = fklUninitByteCodelnt a
      in a\<lparr>bc := fklSetByteCode (bc a) (bc b), lnt := copy_items (lnt b)\<rparr>)"

definition fklMoveByteCodelnt :: "FklByteCodelnt \<Rightarrow> FklByteCodelnt \<Rightarrow> FklByteCodelnt \<times> FklByteCodelnt" where
  "fklMoveByteCodelnt to from = (from, \<lparr>lnt = None, bc = []\<rparr>)"

definition FKL_INCREASE_ALL_SCP :: "FklLntItem list \<Rightarrow> u64 \<Rightarrow> FklLntItem list" where
  "FKL_INCREASE_ALL_SCP l s = map (\<lambda>i. i\<lparr>scp := scp i + s\<rparr>) l"

definition fklIncreaseScpOfByteCodelnt :: "FklByteCodelnt \<Rightarrow> u64 \<Rightarrow> FklByteCodelnt" where
  "fklIncreaseScpOfByteCodelnt b n = b\<lparr>lnt := map_option (\<lambda>l. FKL_INCREASE_ALL_SCP l n) (lnt b)\<rparr>"

definition same_place :: "FklLntItem \<Rightarrow> FklLntItem \<Rightarrow> bool" where
  "same_place x y \<longleftrightarrow> line x = line y \<and> scope x = scope y \<and> fid x = fid y"

definition last_item :: "FklLntItem list \<Rightarrow> FklLntItem option" where
  "last_item l = (if l = [] then None else rd l (length l - 1))"

text \<open>The table of the appended code is changed in place; both results are returned.\<close>

definition fklCodeLntConcat :: "FklByteCodelnt \<Rightarrow> FklByteCodelnt \<Rightarrow> (FklByteCodelnt \<times> FklByteCodelnt) option" where
  "fklCodeLntConcat f s =
     (if length (bc s) = 0 then Some (f, s)
      else do {
        (fl, sl) \<leftarrow> (case lnt f of
          None \<Rightarrow> (case lnt s of
              None \<Rightarrow> Some (None, None)
            | Some [] \<Rightarrow> Some (None, Some [])
            | Some (x # xs) \<Rightarrow>
                let sl = x # FKL_INCREASE_ALL_SCP xs (of_nat (length (bc f))) in Some (Some sl, Some sl))
        | Some fl \<Rightarrow> do {
            sl \<leftarrow> lnt s;
            let sl = FKL_INCREASE_ALL_SCP sl (of_nat (length (bc f)));
            x \<leftarrow> last_item fl;
            y \<leftarrow> rd sl 0;
            if same_place x y then Some (Some (fl @ drop 1 sl), Some sl)
            else Some (Some (fl @ sl), Some sl) });
        Some (f\<lparr>lnt := fl, bc := fklCodeConcat (bc f) (bc s)\<rparr>, s\<lparr>lnt := sl\<rparr>) })"

definition fklCodeLntReverseConcat :: "FklByteCodelnt \<Rightarrow> FklByteCodelnt \<Rightarrow> FklByteCodelnt option" where
  "fklCodeLntReverseConcat f s =
     (if length (bc f) = 0 then Some s
      else do {
        sl \<leftarrow> (case lnt s of
          None \<Rightarrow> (case lnt f of None \<Rightarrow> Some None | Some [] \<Rightarrow> Some None | Some fl \<Rightarrow> Some (Some fl))
        | Some sl \<Rightarrow> do {
            let sl = FKL_INCREASE_ALL_SCP sl (of_nat (length (bc f)));
            fl \<leftarrow> lnt f;
            x \<leftarrow> last_item fl;
            y \<leftarrow> rd sl 0;
            if same_place x y then Some (Some (fl @ drop 1 sl))
            else Some (Some (fl @ sl)) });
        Some (s\<lparr>lnt := sl, bc := fklCodeReverseConcat (bc f) (bc s)\<rparr>) })"

definition fklByteCodeLntPushBackIns ::
  "(FklVMptr \<Rightarrow> bool) \<Rightarrow> FklByteCodelnt \<Rightarrow> FklIns \<Rightarrow> FklVMptr \<Rightarrow> u64 \<Rightarrow> u32 \<Rightarrow> FklByteCodelnt option" where
  "fklByteCodeLntPushBackIns is_sym b ins f ln sc = do {
     FKL_ASSERT (f = FKL_VM_NIL \<or> is_sym f);
     l \<leftarrow> (case lnt b of
         None \<Rightarrow> do { item \<leftarrow> fklInitLineNumTabNode is_sym f 0 ln sc; Some [item] }
       | Some l \<Rightarrow> Some l);
     code \<leftarrow> fklByteCodePushBack (bc b) ins;
     Some (b\<lparr>lnt := Some l, bc := code\<rparr>) }"

text \<open>Only the items after the first move: the new instruction joins the first item.\<close>

definition fklByteCodeLntInsertFrontIns ::
  "(FklVMptr \<Rightarrow> bool) \<Rightarrow> FklIns \<Rightarrow> FklByteCodelnt \<Rightarrow> FklVMptr \<Rightarrow> u64 \<Rightarrow> u32 \<Rightarrow> FklByteCodelnt option" where
  "fklByteCodeLntInsertFrontIns is_sym ins b f ln sc = do {
     FKL_ASSERT (f = FKL_VM_NIL \<or> is_sym f);
     case lnt b of
       None \<Rightarrow> do {
         item \<leftarrow> fklInitLineNumTabNode is_sym f 0 ln sc;
         code \<leftarrow> fklByteCodePushBack (bc b) ins;
         Some (b\<lparr>lnt := Some [item], bc := code\<rparr>) }
     | Some l \<Rightarrow> do {
         code \<leftarrow> fklByteCodeInsertFront ins (bc b);
         Some (b\<lparr>lnt := Some (take 1 l @ FKL_INCREASE_ALL_SCP (drop 1 l) 1), bc := code\<rparr>) } }"

text \<open>\<open>realloc\<close> to no bytes frees the block and returns \<open>NULL\<close>, which the assertion after it
  rejects: see \<open>fklByteCodeLntRemoveInsAt\<close>. Binary search for the item of an instruction position; the result is its index.\<close>

function find_lnt :: "u64 \<Rightarrow> FklLntItem list \<Rightarrow> int \<Rightarrow> int \<Rightarrow> nat option option" where
  "find_lnt cp items l h =
     (if l \<le> h then do {
        let mid = l + (h - l) div 2;
        cur \<leftarrow> rd items (nat mid);
        if cp < scp cur then find_lnt cp items l (mid - 1)
        else if mid < int (length items) - 1 then do {
          nxt \<leftarrow> rd items (nat mid + 1);
          if scp nxt \<le> cp then find_lnt cp items (mid + 1) h else Some (Some (nat mid)) }
        else Some (Some (nat mid)) }
      else Some None)"
  by pat_completeness auto
termination
  by (relation "measure (\<lambda>(cp, items, l, h). nat (h - l + 1))") auto

declare find_lnt.simps [simp del]

definition fklFindLntItem :: "u64 \<Rightarrow> FklLntItem list \<Rightarrow> nat option option" where
  "fklFindLntItem cp items = find_lnt cp items 0 (int (length items) - 1)"

text \<open>The shifting loop counts upwards, away from its bound.\<close>

definition fklByteCodeLntInsertInsAt :: "FklByteCodelnt \<Rightarrow> FklIns \<Rightarrow> nat \<Rightarrow> FklByteCodelnt option" where
  "fklByteCodeLntInsertInsAt b ins at = do {
     let code = zrealloc (bc b) (length (bc b) + 1);
     let items = (case lnt b of None \<Rightarrow> [] | Some l \<Rightarrow> l);
     r \<leftarrow> fklFindLntItem (of_nat at) items;
     FKL_ASSERT (r \<noteq> None);
     let k = the r + 1;
     let items = take k items @ FKL_INCREASE_ALL_SCP (drop k items) 1;
     (i, code) \<leftarrow> while_m (\<lambda>(i, code). at < i)
       (\<lambda>(i, code). do { x \<leftarrow> rd code (i - 1); code \<leftarrow> wr code i x; Some (i + 1, code) })
       (length code - 1, code);
     code \<leftarrow> wr code at ins;
     Some (b\<lparr>lnt := map_option (\<lambda>_. items) (lnt b), bc := code\<rparr>) }"

definition fklByteCodeLntRemoveInsAt :: "FklByteCodelnt \<Rightarrow> nat \<Rightarrow> (FklIns \<times> FklByteCodelnt) option" where
  "fklByteCodeLntRemoveInsAt b at = do {
     let items = (case lnt b of None \<Rightarrow> [] | Some l \<Rightarrow> l);
     r \<leftarrow> fklFindLntItem (of_nat at) items;
     FKL_ASSERT (r \<noteq> None);
     let k = the r + 1;
     let items = take k items @ map (\<lambda>i. i\<lparr>scp := scp i - 1\<rparr>) (drop k items);
     ins \<leftarrow> rd (bc b) at;
     code \<leftarrow> for_up at (length (bc b) - 1) (\<lambda>i code. do { x \<leftarrow> rd code (i + 1); wr code i x }) (bc b);
     FKL_ASSERT (length code - 1 \<noteq> 0);
     let code = take (length code - 1) code;
     Some (ins, b\<lparr>lnt := map_option (\<lambda>_. items) (lnt b), bc := code\<rparr>) }"


section \<open>Kinds of instructions\<close>

definition fklIsLoadProto :: "FklIns \<Rightarrow> bool" where
  "fklIsLoadProto ins \<longleftrightarrow> FKL_INS_OP ins = Some FKL_OP_LOAD_PROTO"

definition fklIsJmpIns :: "FklIns \<Rightarrow> bool" where
  "fklIsJmpIns ins \<longleftrightarrow> FKL_INS_OP ins = Some FKL_OP_JMP"

definition fklIsCondJmpIns :: "FklIns \<Rightarrow> bool" where
  "fklIsCondJmpIns ins \<longleftrightarrow> FKL_INS_OP ins = Some FKL_OP_JMP_IF_TRUE \<or> FKL_INS_OP ins = Some FKL_OP_JMP_IF_FALSE"

definition fklIsJmpIfTrueIns :: "FklIns \<Rightarrow> bool" where
  "fklIsJmpIfTrueIns ins \<longleftrightarrow> FKL_INS_OP ins = Some FKL_OP_JMP_IF_TRUE"

definition fklIsJmpIfFalseIns :: "FklIns \<Rightarrow> bool" where
  "fklIsJmpIfFalseIns ins \<longleftrightarrow> FKL_INS_OP ins = Some FKL_OP_JMP_IF_FALSE"

definition fklIsPutLocIns :: "FklIns \<Rightarrow> bool" where
  "fklIsPutLocIns ins \<longleftrightarrow> FKL_INS_OP ins = Some FKL_OP_PUT_LOC"

definition fklIsMakeProcIns :: "FklIns \<Rightarrow> bool" where
  "fklIsMakeProcIns ins \<longleftrightarrow> FKL_INS_OP ins = Some FKL_OP_MAKE_PROC"

definition fklIsPutVarRefIns :: "FklIns \<Rightarrow> bool" where
  "fklIsPutVarRefIns ins \<longleftrightarrow> FKL_INS_OP ins = Some FKL_OP_PUT_VAR_REF"

definition fklIsCallIns :: "FklIns \<Rightarrow> bool" where
  "fklIsCallIns ins \<longleftrightarrow> FKL_INS_OP ins = Some FKL_OP_CALL \<or> FKL_INS_OP ins = Some FKL_OP_TAIL_CALL"

text \<open>The return instructions are neighbours in the enumeration.\<close>

definition fklIsRetIns :: "FklIns \<Rightarrow> bool" where
  "fklIsRetIns ins \<longleftrightarrow> (case FKL_INS_OP ins of None \<Rightarrow> False
     | Some op \<Rightarrow> op \<ge> FKL_OP_RET_IF_TRUE \<and> op \<le> FKL_OP_RET)"

definition fklIsLoadLibIns :: "FklIns \<Rightarrow> bool" where
  "fklIsLoadLibIns ins \<longleftrightarrow> FKL_INS_OP ins = Some FKL_OP_LOAD_LIB"

section \<open>Control flow\<close>

text \<open>
  The successors of the instruction at position \<open>c\<close>, as positions in the code: how many there
  are and where.
\<close>

definition fklGetNextIns :: "FklByteCode \<Rightarrow> nat \<Rightarrow> (nat \<times> int option \<times> int option) option" where
  "fklGetNextIns code c = do {
     ins \<leftarrow> rd code c;
     (arg, l) \<leftarrow> fklGetInsOpArg (drop c code) zero_arg;
     Some (if fklIsCallIns ins \<or> fklIsRetIns ins then (0, None, None)
       else if fklIsMakeProcIns ins then (1, Some (int c + int l + uint (ux arg)), None)
       else if fklIsCondJmpIns ins then
         (let fst_ins = int c + int l; snd_ins = fst_ins + sint (ix arg)
          in if fst_ins = snd_ins then (1, Some fst_ins, None) else (2, Some fst_ins, Some snd_ins))
       else if fklIsJmpIns ins then (1, Some (int c + int l + sint (ix arg)), None)
       else (1, Some (int c + int l), None)) }"

text \<open>How far the next call is from \<open>index\<close>, the bodies of procedures being skipped.\<close>

lemma get_ins_op_mode_pos: "get_ins_op_mode m ins a = Some (b, l) \<Longrightarrow> 0 < l"
  by (cases m) (auto simp: bind_eq_Some_conv)

lemma fklGetInsOpArg_pos: "fklGetInsOpArg ins a = Some (b, l) \<Longrightarrow> 0 < l"
  by (auto simp: fklGetInsOpArg_def fklGetInsOpArgWithOp_def bind_eq_Some_conv dest: get_ins_op_mode_pos)

function skip_from :: "nat \<Rightarrow> FklByteCode \<Rightarrow> nat \<Rightarrow> nat option" where
  "skip_from index code r =
     (if index + r < length code then
        (if FKL_INS_OP (code ! (index + r)) = Some FKL_OP_CALL then Some r
         else if fklIsMakeProcIns (code ! (index + r)) then
           (case fklGetInsOpArg (drop (index + r) code) zero_arg of
              None \<Rightarrow> None
            | Some (arg, l) \<Rightarrow> skip_from index code (r + (unat (ux arg) + l)))
         else skip_from index code (r + 1))
      else Some r)"
  by pat_completeness auto
termination
  by (relation "measure (\<lambda>(index, code, r). length code - (index + r))") (auto dest!: fklGetInsOpArg_pos)

declare skip_from.simps [simp del]

definition skipToCall :: "nat \<Rightarrow> FklByteCode \<Rightarrow> nat option" where
  "skipToCall index code = skip_from index code 0"

definition get_next :: "FklIns list \<Rightarrow> i64 option" where
  "get_next ins = do {
     i \<leftarrow> rd ins 0;
     if fklIsJmpIns i then do { (arg, l) \<leftarrow> fklGetInsOpArg ins zero_arg; Some (ix arg + of_nat l) }
     else Some 1 }"

text \<open>
  Whether only jumps and \<open>close-ref\<close> lie between \<open>i\<close> and the return or the end. The position
  is 64 bits wide and a backward jump adds a negative number to it, so nothing bounds the loop.
\<close>

partial_function (option) is_last_expression :: "u64 \<Rightarrow> FklByteCode \<Rightarrow> bool option" where
  "is_last_expression i code =
     (if unat i < length code \<and> FKL_INS_OP (code ! unat i) \<noteq> Some FKL_OP_RET then
        (if FKL_INS_OP (code ! unat i) \<noteq> Some FKL_OP_JMP \<and> FKL_INS_OP (code ! unat i) \<noteq> Some FKL_OP_CLOSE_REF
         then Some False
         else do { n \<leftarrow> get_next (drop (unat i) code); is_last_expression (i + n) code })
      else Some True)"

declare is_last_expression.simps [code]

definition fklScanAndSetTailCall :: "FklByteCode \<Rightarrow> FklByteCode option" where
  "fklScanAndSetTailCall code = do {
     i \<leftarrow> skipToCall 0 code;
     (i, code) \<leftarrow> while_m (\<lambda>(i, code). i < length code)
       (\<lambda>(i, code). do {
          let i = i + 1;
          last \<leftarrow> is_last_expression (of_nat i) code;
          code \<leftarrow> (if last then do {
              x \<leftarrow> rd code (i - 1);
              wr code (i - 1) (FKL_INS_SET_OP x FKL_OP_TAIL_CALL) }
            else Some code);
          r \<leftarrow> skipToCall i code;
          Some (i + r, code) }) (i, code);
     Some code }"

end
