(* ===== verification/LineTable.thy ===== *)
theory LineTable
  imports ByteCode
begin

text \<open>
  What the line number tables of src/bytecode.c promise. The abstract view of a code vector with a
  table is the list of its instructions, each with the place (file, line, scope) it comes from;
  \<open>instrs\<close> computes it. Concatenating, prepending and appending are the list operations on
  that view, and the binary search finds the item of a position.
\<close>

section \<open>The abstract view\<close>

definition place :: "FklLntItem \<Rightarrow> FklVMptr \<times> u32 \<times> u32" where
  "place i = (fid i, line i, scope i)"

definition lookup :: "FklLntItem list \<Rightarrow> nat \<Rightarrow> FklLntItem" where
  "lookup items p = last (filter (\<lambda>i. unat (scp i) \<le> p) items)"

definition table :: "FklByteCodelnt \<Rightarrow> FklLntItem list" where
  "table b = (case lnt b of None \<Rightarrow> [] | Some l \<Rightarrow> l)"

definition instrs :: "FklByteCodelnt \<Rightarrow> (FklIns \<times> FklVMptr \<times> u32 \<times> u32) list" where
  "instrs b = map (\<lambda>p. (bc b ! p, place (lookup (table b) p))) [0..<length (bc b)]"

text \<open>A table starts at 0, is sorted and does not point beyond the end; only empty code has none.\<close>

definition lnt_ok :: "FklLntItem list \<Rightarrow> nat \<Rightarrow> bool" where
  "lnt_ok items n \<longleftrightarrow> items \<noteq> [] \<and> scp (hd items) = 0 \<and> sorted (map scp items)
     \<and> (\<forall>i \<in> set items. unat (scp i) \<le> n)"

definition bcl_ok :: "FklByteCodelnt \<Rightarrow> bool" where
  "bcl_ok b \<longleftrightarrow> (case lnt b of None \<Rightarrow> bc b = [] | Some items \<Rightarrow> lnt_ok items (length (bc b)))"

section \<open>Binary search\<close>

lemma wp_find_lnt:
  assumes "0 \<le> l" "h < int (length items)" "l = 0 \<or> l < int (length items)" "l \<le> h + 1"
    "l \<noteq> 0 \<Longrightarrow> scp (items ! nat l) \<le> cp" "h < int (length items) - 1 \<Longrightarrow> cp < scp (items ! nat (h + 1))"
  shows "wp (find_lnt cp items l h) (\<lambda>r.
    (r = None \<longrightarrow> items = [] \<or> cp < scp (items ! 0)) \<and>
    (\<forall>k. r = Some k \<longrightarrow> k < length items \<and> scp (items ! k) \<le> cp
       \<and> (Suc k < length items \<longrightarrow> cp < scp (items ! Suc k))))"
  using assms
proof (induction cp items l h rule: find_lnt.induct)
  case (1 cp items l h)
  show ?case
  proof (cases "l \<le> h")
    case False
    with "1.prems" have lh: "l = h + 1" by simp
    have "h = -1 \<or> items = []" using "1.prems" lh by (cases "l = 0") auto
    moreover have "find_lnt cp items l h = Some None" using False by (subst find_lnt.simps) simp
    ultimately show ?thesis using lh "1.prems" by (cases "items = []") auto
  next
    case True
    define mid where "mid = l + (h - l) div 2"
    have mid: "l \<le> mid" "mid \<le> h" "0 \<le> mid" "nat mid < length items"
      using True "1.prems" by (auto simp: mid_def)
    have rd: "rd items (nat mid) = Some (items ! nat mid)" using mid by (simp add: rd_def)
    have eq: "find_lnt cp items l h =
      (if cp < scp (items ! nat mid) then find_lnt cp items l (mid - 1)
       else if mid < int (length items) - 1 then
         (if scp (items ! (nat mid + 1)) \<le> cp then find_lnt cp items (mid + 1) h else Some (Some (nat mid)))
       else Some (Some (nat mid)))"
      using True mid rd by (subst find_lnt.simps) (auto simp: Let_def rd_def mid_def)
    have n: "nat (mid + 1) = Suc (nat mid)" using mid by simp
    consider (left) "cp < scp (items ! nat mid)"
      | (right) "\<not> cp < scp (items ! nat mid)" "mid < int (length items) - 1" "scp (items ! (nat mid + 1)) \<le> cp"
      | (found) "\<not> cp < scp (items ! nat mid)" "mid < int (length items) - 1 \<longrightarrow> cp < scp (items ! Suc (nat mid))"
      by fastforce
    then show ?thesis
    proof cases
      case left
      show ?thesis unfolding eq if_P [OF left]
        by (rule "1.IH"(1) [OF True mid_def rd left]) (use "1.prems" mid left True in auto)
    next
      case right
      show ?thesis unfolding eq if_not_P [OF right(1)] if_P [OF right(2)] if_P [OF right(3)]
        by (rule "1.IH"(2) [OF True mid_def rd right(1,2) _ right(3)])
          (use "1.prems" mid right True n in \<open>auto simp: rd_def\<close>)
    next
      case found
      then have "find_lnt cp items l h = Some (Some (nat mid))" using eq by auto
      with found mid show ?thesis by (auto simp: not_less)
    qed
  qed
qed

lemma wp_fklFindLntItem:
  "wp (fklFindLntItem cp items) (\<lambda>r.
    (r = None \<longrightarrow> items = [] \<or> cp < scp (items ! 0)) \<and>
    (\<forall>k. r = Some k \<longrightarrow> k < length items \<and> scp (items ! k) \<le> cp
       \<and> (Suc k < length items \<longrightarrow> cp < scp (items ! Suc k))))"
  unfolding fklFindLntItem_def by (rule wp_find_lnt) auto

lemma lookup_nth:
  assumes "sorted (map scp items)" "k < length items" "unat (scp (items ! k)) \<le> p"
    "Suc k < length items \<Longrightarrow> p < unat (scp (items ! Suc k))"
  shows "lookup items p = items ! k"
proof -
  have le: "scp (items ! i) \<le> scp (items ! j)" if "i \<le> j" "j < length items" for i j
    using sorted_nth_mono [OF assms(1), of i j] that by simp
  have "filter (\<lambda>i. unat (scp i) \<le> p) (take (Suc k) items) = take (Suc k) items"
  proof (rule filter_True, rule ballI)
    fix x assume "x \<in> set (take (Suc k) items)"
    then obtain i where "i < Suc k" and x: "x = items ! i" using assms(2) by (auto simp: in_set_conv_nth)
    then have i: "i \<le> k" "x = items ! i" by auto
    then have "unat (scp x) \<le> unat (scp (items ! k))" using le [of i k] assms(2) by (simp add: word_le_nat_alt)
    then show "unat (scp x) \<le> p" using assms(3) by simp
  qed
  moreover have "filter (\<lambda>i. unat (scp i) \<le> p) (drop (Suc k) items) = []"
  proof (rule filter_False, rule ballI)
    fix x assume "x \<in> set (drop (Suc k) items)"
    then obtain i where "i < length (drop (Suc k) items)" "x = drop (Suc k) items ! i"
      by (auto simp: in_set_conv_nth)
    then have i: "Suc k + i < length items" "x = items ! (Suc k + i)" by auto
    then have "unat (scp (items ! Suc k)) \<le> unat (scp x)"
      using le [of "Suc k" "Suc k + i"] by (simp add: word_le_nat_alt)
    then show "\<not> unat (scp x) \<le> p" using assms(4) i by simp
  qed
  ultimately have "filter (\<lambda>i. unat (scp i) \<le> p) items = take (Suc k) items"
    by (metis append_Nil2 append_take_drop_id filter_append)
  then show ?thesis using assms(2) by (simp add: lookup_def last_take_nth)
qed


lemma find_lookup:
  assumes ok: "lnt_ok items n"
  shows "\<exists>k. fklFindLntItem cp items = Some (Some k) \<and> k < length items \<and> items ! k = lookup items (unat cp)"
proof -
  obtain r where r: "fklFindLntItem cp items = Some r"
    "r = None \<longrightarrow> items = [] \<or> cp < scp (items ! 0)"
    "\<And>k. r = Some k \<Longrightarrow> k < length items \<and> scp (items ! k) \<le> cp
       \<and> (Suc k < length items \<longrightarrow> cp < scp (items ! Suc k))"
    using wp_fklFindLntItem [of cp items] by (auto elim: wpE)
  have "scp (items ! 0) = 0" "items \<noteq> []" using ok by (auto simp: lnt_ok_def hd_conv_nth)
  then obtain k where "r = Some k" using r(2) by (cases r) auto
  with r(1) r(3) [of k] ok show ?thesis
    using lookup_nth [of items k "unat cp"] by (auto simp: lnt_ok_def word_le_nat_alt word_less_nat_alt)
qed

section \<open>Joining tables\<close>

lemma lookup_append_left:
  "\<forall>i \<in> set sl. p < unat (scp i) \<Longrightarrow> lookup (fl @ sl) p = lookup fl p"
  by (simp add: lookup_def filter_False not_le)

lemma scp_shift: "unat (scp i) + unat s < 2 ^ 64 \<Longrightarrow> unat (scp i + s) = unat (scp i) + unat s"
  by (simp add: word_nat)

lemma lookup_shift:
  assumes "\<forall>i \<in> set sl. unat (scp i) + unat s < 2 ^ 64" "\<exists>i \<in> set sl. unat (scp i) \<le> p"
  shows "lookup (FKL_INCREASE_ALL_SCP sl s) (p + unat s) = (lookup sl p)\<lparr>scp := scp (lookup sl p) + s\<rparr>"
proof -
  have "filter (\<lambda>i. unat (scp i) \<le> p + unat s) (FKL_INCREASE_ALL_SCP sl s)
      = FKL_INCREASE_ALL_SCP (filter (\<lambda>i. unat (scp i) \<le> p) sl) s"
    using assms(1) by (induction sl) (auto simp: FKL_INCREASE_ALL_SCP_def scp_shift)
  moreover have "filter (\<lambda>i. unat (scp i) \<le> p) sl \<noteq> []"
    using assms(2) by (auto simp: filter_empty_conv)
  ultimately show ?thesis by (simp add: lookup_def FKL_INCREASE_ALL_SCP_def last_map)
qed


lemma last_item_last: "items \<noteq> [] \<Longrightarrow> last_item items = Some (last items)"
  by (simp add: last_item_def rd_def last_conv_nth)

lemma same_place_place: "same_place x y \<longleftrightarrow> place x = place y"
  by (auto simp: same_place_def place_def)

lemma place_scp [simp]: "place (i\<lparr>scp := s\<rparr>) = place i"
  by (simp add: place_def)

lemma set_INCREASE: "i \<in> set (FKL_INCREASE_ALL_SCP l s) \<longleftrightarrow> (\<exists>j \<in> set l. i = j\<lparr>scp := scp j + s\<rparr>)"
  by (auto simp: FKL_INCREASE_ALL_SCP_def)

lemma lookup_skip_left:
  "\<exists>i \<in> set sl. unat (scp i) \<le> p \<Longrightarrow> lookup (fl @ sl) p = lookup sl p"
  by (auto simp: lookup_def filter_empty_conv)

lemma lookup_all_left:
  "\<forall>i \<in> set fl. unat (scp i) \<le> p \<Longrightarrow> \<forall>i \<in> set sl. \<not> unat (scp i) \<le> p \<Longrightarrow> lookup (fl @ sl) p = last fl"
  by (simp add: lookup_def filter_False)

text \<open>The table of a concatenation, with and without the merge of equal neighbours.\<close>

definition join :: "FklLntItem list \<Rightarrow> nat \<Rightarrow> FklLntItem list \<Rightarrow> FklLntItem list" where
  "join fl n sl =
     (let sl' = FKL_INCREASE_ALL_SCP sl (of_nat n)
      in if same_place (last fl) (hd sl) then fl @ drop 1 sl' else fl @ sl')"

lemma join_facts:
  assumes fl: "lnt_ok fl n" and sl: "lnt_ok sl m" and n: "n + m < 2 ^ 64"
  defines "sl' \<equiv> FKL_INCREASE_ALL_SCP sl (of_nat n)"
  shows "unat (of_nat n :: u64) = n"
    and "\<forall>i \<in> set sl. unat (scp i) + n \<le> n + m"
    and "\<forall>i \<in> set sl'. n \<le> unat (scp i) \<and> unat (scp i) \<le> n + m"
    and "hd sl' = (hd sl)\<lparr>scp := of_nat n\<rparr>" and "sl' \<noteq> []" and "sorted (map scp sl')"
proof -
  show u: "unat (of_nat n :: u64) = n" using n by (simp add: unsigned_of_nat take_bit_nat_eq_self)
  show le: "\<forall>i \<in> set sl. unat (scp i) + n \<le> n + m" using sl by (auto simp: lnt_ok_def)
  have sh: "unat (scp i + of_nat n) = unat (scp i) + n" if "i \<in> set sl" for i
    using le that n u scp_shift [of i "of_nat n"] by fastforce
  show "\<forall>i \<in> set sl'. n \<le> unat (scp i) \<and> unat (scp i) \<le> n + m"
    using le sh by (auto simp: sl'_def set_INCREASE)
  show "hd sl' = (hd sl)\<lparr>scp := of_nat n\<rparr>" "sl' \<noteq> []"
    using sl by (auto simp: sl'_def FKL_INCREASE_ALL_SCP_def lnt_ok_def hd_map)
  have "sorted (map (\<lambda>i. scp i + of_nat n) sl)"
    unfolding sorted_map
  proof (rule sorted_wrt_mono_rel [of sl "\<lambda>x y. scp x \<le> scp y"])
    show "sorted_wrt (\<lambda>x y. scp x \<le> scp y) sl" using sl by (simp add: lnt_ok_def sorted_map)
    fix x y assume "x \<in> set sl" "y \<in> set sl" "scp x \<le> scp y"
    then show "scp x + of_nat n \<le> scp y + of_nat n"
      using sh [of x] sh [of y] by (simp add: word_le_nat_alt)
  qed
  then show "sorted (map scp sl')" by (simp add: sl'_def FKL_INCREASE_ALL_SCP_def comp_def)
qed

lemma join_ok:
  assumes fl: "lnt_ok fl n" and sl: "lnt_ok sl m" and n: "n + m < 2 ^ 64"
  shows "lnt_ok (join fl n sl) (n + m)"
proof -
  let ?sl' = "FKL_INCREASE_ALL_SCP sl (of_nat n)"
  note F = join_facts [OF fl sl n]
  have sub: "lnt_ok (fl @ xs) (n + m)" if "set xs \<subseteq> set ?sl'" "sorted (map scp xs)" for xs
  proof -
    have "scp x \<le> scp y" if "x \<in> set fl" "y \<in> set xs" for x y
      using that fl F(3) \<open>set xs \<subseteq> _\<close> by (fastforce simp: lnt_ok_def word_le_nat_alt)
    moreover have "\<forall>i \<in> set (fl @ xs). unat (scp i) \<le> n + m"
      using fl F(3) \<open>set xs \<subseteq> _\<close> by (auto simp: lnt_ok_def intro: trans_le_add1)
    ultimately show ?thesis using fl that by (auto simp: lnt_ok_def sorted_append)
  qed
  have "sorted (map scp (drop 1 ?sl'))" using F(6) by (simp add: drop_map [symmetric] sorted_wrt_drop)
  with sub [of ?sl'] sub [of "drop 1 ?sl'"] F(6) show ?thesis
    by (auto simp: join_def Let_def dest: in_set_dropD)
qed

lemma join_lookup_left:
  assumes fl: "lnt_ok fl n" and sl: "lnt_ok sl m" and n: "n + m < 2 ^ 64" and p: "p < n"
  shows "lookup (join fl n sl) p = lookup fl p"
proof -
  let ?sl' = "FKL_INCREASE_ALL_SCP sl (of_nat n)"
  note F = join_facts [OF fl sl n]
  have "\<forall>i \<in> set ?sl'. p < unat (scp i)" using F(3) p by fastforce
  then have "lookup (fl @ ?sl') p = lookup fl p" "lookup (fl @ drop 1 ?sl') p = lookup fl p"
    by (auto intro!: lookup_append_left dest: in_set_dropD)
  then show ?thesis by (simp add: join_def Let_def)
qed

lemma join_lookup_right:
  assumes fl: "lnt_ok fl n" and sl: "lnt_ok sl m" and n: "n + m < 2 ^ 64"
  shows "place (lookup (join fl n sl) (n + q)) = place (lookup sl q)"
proof -
  let ?sl' = "FKL_INCREASE_ALL_SCP sl (of_nat n)"
  note F = join_facts [OF fl sl n]
  obtain x xs where x: "sl = x # xs" "scp x = 0" using sl by (cases sl) (auto simp: lnt_ok_def)
  have right: "place (lookup ?sl' (n + q)) = place (lookup sl q)"
    using lookup_shift [of sl "of_nat n" q] F(1,2) n x by (fastforce simp: add.commute)
  have all: "\<forall>i \<in> set fl. unat (scp i) \<le> n + q" using fl by (auto simp: lnt_ok_def intro: trans_le_add1)
  show ?thesis
  proof (cases "same_place (last fl) (hd sl)")
    case False
    have "\<exists>i \<in> set ?sl'. unat (scp i) \<le> n + q" using F(1,4) hd_in_set [OF F(5)]
      by (intro bexI [of _ "hd ?sl'"]) simp_all
    then show ?thesis using False right by (simp add: join_def Let_def lookup_skip_left)
  next
    case True
    have sl': "?sl' = x\<lparr>scp := of_nat n\<rparr> # drop 1 ?sl'"
      using x by (simp add: FKL_INCREASE_ALL_SCP_def)
    show ?thesis
    proof (cases "\<exists>i \<in> set (drop 1 ?sl'). unat (scp i) \<le> n + q")
      case later: True
      then have "lookup (fl @ drop 1 ?sl') (n + q) = lookup ([x\<lparr>scp := of_nat n\<rparr>] @ drop 1 ?sl') (n + q)"
        by (simp only: lookup_skip_left)
      with sl' True right show ?thesis by (simp add: join_def Let_def)
    next
      case False
      then have "lookup (fl @ drop 1 ?sl') (n + q) = last fl" using all by (simp add: lookup_all_left)
      moreover have "lookup ([x\<lparr>scp := of_nat n\<rparr>] @ drop 1 ?sl') (n + q) = x\<lparr>scp := of_nat n\<rparr>"
        using False F(1) by (subst lookup_all_left) auto
      ultimately show ?thesis using sl' True right x by (simp add: join_def Let_def same_place_place)
    qed
  qed
qed


section \<open>Operations on the abstract view\<close>

lemma length_instrs [simp]: "length (instrs b) = length (bc b)"
  by (simp add: instrs_def)

lemma nth_instrs: "p < length (bc b) \<Longrightarrow> instrs b ! p = (bc b ! p, place (lookup (table b) p))"
  by (simp add: instrs_def)

lemma bcl_ok_Some: "bcl_ok b \<Longrightarrow> bc b \<noteq> [] \<Longrightarrow> lnt b = Some (table b) \<and> lnt_ok (table b) (length (bc b))"
  by (auto simp: bcl_ok_def table_def split: option.splits)

lemma instrs_join:
  assumes "lnt_ok fl (length f)" "lnt_ok sl (length s)" "length f + length s < 2 ^ 64"
  shows "bcl_ok \<lparr>lnt = Some (join fl (length f) sl), bc = f @ s\<rparr>"
    and "instrs \<lparr>lnt = Some (join fl (length f) sl), bc = f @ s\<rparr>
      = instrs \<lparr>lnt = Some fl, bc = f\<rparr> @ instrs \<lparr>lnt = Some sl, bc = s\<rparr>"
proof -
  show "bcl_ok \<lparr>lnt = Some (join fl (length f) sl), bc = f @ s\<rparr>"
    using join_ok [OF assms] by (simp add: bcl_ok_def)
  show "instrs \<lparr>lnt = Some (join fl (length f) sl), bc = f @ s\<rparr>
      = instrs \<lparr>lnt = Some fl, bc = f\<rparr> @ instrs \<lparr>lnt = Some sl, bc = s\<rparr>"
  proof (rule nth_equalityI)
    fix p
    assume "p < length (instrs \<lparr>lnt = Some (join fl (length f) sl), bc = f @ s\<rparr>)"
    then have p: "p < length f + length s" by simp
    show "instrs \<lparr>lnt = Some (join fl (length f) sl), bc = f @ s\<rparr> ! p
      = (instrs \<lparr>lnt = Some fl, bc = f\<rparr> @ instrs \<lparr>lnt = Some sl, bc = s\<rparr>) ! p"
    proof (cases "p < length f")
      case True
      then show ?thesis using p join_lookup_left [OF assms True]
        by (simp add: nth_instrs nth_append table_def)
    next
      case False
      then obtain q where "p = length f + q" by (metis add_diff_inverse)
      then show ?thesis using p join_lookup_right [OF assms, of q]
        by (simp add: nth_instrs nth_append table_def)
    qed
  qed simp
qed

lemma INCREASE_0 [simp]: "FKL_INCREASE_ALL_SCP l 0 = l"
  by (simp add: FKL_INCREASE_ALL_SCP_def map_idI)

lemma rd_INCREASE_0: "l \<noteq> [] \<Longrightarrow> rd (FKL_INCREASE_ALL_SCP l s) 0 = Some (hd (FKL_INCREASE_ALL_SCP l s))"
  by (simp add: rd_def FKL_INCREASE_ALL_SCP_def hd_conv_nth)

lemma same_place_hd_INCREASE:
  "l \<noteq> [] \<Longrightarrow> same_place x (hd (FKL_INCREASE_ALL_SCP l s)) = same_place x (hd l)"
  by (simp add: same_place_def FKL_INCREASE_ALL_SCP_def hd_map)

lemma concat_spec:
  assumes f: "bcl_ok f" and s: "bcl_ok s" and n: "length (bc f) + length (bc s) < 2 ^ 64"
  shows "wp (fklCodeLntConcat f s) (\<lambda>(f', s'). bcl_ok f' \<and> instrs f' = instrs f @ instrs s)"
proof (cases "bc s = []")
  case True
  then show ?thesis using f by (simp add: fklCodeLntConcat_def instrs_def)
next
  case False
  then have sl: "lnt s = Some (table s)" "lnt_ok (table s) (length (bc s))" using bcl_ok_Some [OF s] by auto
  show ?thesis
  proof (cases "lnt f")
    case None
    then have "bc f = []" using f by (simp add: bcl_ok_def)
    moreover obtain x xs where "table s = x # xs" using sl by (cases "table s") (auto simp: lnt_ok_def)
    with sl have "lnt s = Some (x # xs)" "lnt_ok (x # xs) (length (bc s))" by simp_all
    ultimately show ?thesis using None False
      by (simp add: fklCodeLntConcat_def Let_def fklCodeConcat_def bcl_ok_def instrs_def table_def)
  next
    case (Some fl)
    then have fl: "lnt_ok fl (length (bc f))" using f by (simp add: bcl_ok_def)
    then have ne: "fl \<noteq> []" "table s \<noteq> []" using sl by (auto simp: lnt_ok_def)
    have fs: "instrs \<lparr>lnt = Some fl, bc = bc f\<rparr> = instrs f"
      "instrs \<lparr>lnt = Some (table s), bc = bc s\<rparr> = instrs s"
      using Some sl(1) by (simp_all add: instrs_def table_def [of f] table_def [of "\<lparr>lnt = x, bc = y\<rparr>" for x y])
    have upd: "f\<lparr>lnt := l, bc := c\<rparr> = \<lparr>lnt = l, bc = c\<rparr>" for l c by (cases f) simp
    have "fklCodeLntConcat f s = Some (\<lparr>lnt = Some (join fl (length (bc f)) (table s)), bc = bc f @ bc s\<rparr>,
        s\<lparr>lnt := Some (FKL_INCREASE_ALL_SCP (table s) (of_nat (length (bc f))))\<rparr>)"
      using False Some sl(1) ne
      by (simp add: fklCodeLntConcat_def Let_def fklCodeConcat_def join_def last_item_last rd_INCREASE_0
          same_place_hd_INCREASE upd)
    then show ?thesis using instrs_join [OF fl sl(2) n] fs by simp
  qed
qed

lemma reverse_concat_spec:
  assumes f: "bcl_ok f" and s: "bcl_ok s" and n: "length (bc f) + length (bc s) < 2 ^ 64"
  shows "wp (fklCodeLntReverseConcat f s) (\<lambda>s'. bcl_ok s' \<and> instrs s' = instrs f @ instrs s)"
proof (cases "bc f = []")
  case True
  then show ?thesis using s by (simp add: fklCodeLntReverseConcat_def instrs_def)
next
  case False
  then have fl: "lnt f = Some (table f)" "lnt_ok (table f) (length (bc f))" using bcl_ok_Some [OF f] by auto
  show ?thesis
  proof (cases "lnt s")
    case None
    then have "bc s = []" using s by (simp add: bcl_ok_def)
    moreover obtain x xs where "table f = x # xs" using fl by (cases "table f") (auto simp: lnt_ok_def)
    with fl have "lnt f = Some (x # xs)" "lnt_ok (x # xs) (length (bc f))" by simp_all
    ultimately show ?thesis using None False
      by (simp add: fklCodeLntReverseConcat_def Let_def fklCodeReverseConcat_def bcl_ok_def instrs_def table_def)
  next
    case (Some sl)
    then have sl: "lnt_ok sl (length (bc s))" using s by (simp add: bcl_ok_def)
    then have ne: "sl \<noteq> []" "table f \<noteq> []" using fl by (auto simp: lnt_ok_def)
    have fs: "instrs \<lparr>lnt = Some sl, bc = bc s\<rparr> = instrs s"
      "instrs \<lparr>lnt = Some (table f), bc = bc f\<rparr> = instrs f"
      using Some fl(1) by (simp_all add: instrs_def table_def [of s] table_def [of "\<lparr>lnt = x, bc = y\<rparr>" for x y])
    have upd: "s\<lparr>lnt := l, bc := c\<rparr> = \<lparr>lnt = l, bc = c\<rparr>" for l c by (cases s) simp
    have "fklCodeLntReverseConcat f s = Some \<lparr>lnt = Some (join (table f) (length (bc f)) sl), bc = bc f @ bc s\<rparr>"
      using False Some fl(1) ne
      by (simp add: fklCodeLntReverseConcat_def Let_def fklCodeReverseConcat_def join_def last_item_last
          rd_INCREASE_0 same_place_hd_INCREASE upd)
    then show ?thesis using instrs_join [OF fl(2) sl n] fs by simp
  qed
qed


lemma push_back_code: "fklByteCodePushBack b ins = Some (b @ [ins])"
  by (simp add: fklByteCodePushBack_def wr_def zrealloc_def list_update_append)

lemma insert_front_code: "fklByteCodeInsertFront ins b = Some (ins # b)"
proof -
  let ?n = "length b"
  let ?f = "\<lambda>i code. do { x \<leftarrow> rd code i; wr code (i + 1) x }"
  have "wp (for_down ?n ?f (zrealloc b (?n + 1))) (\<lambda>c. length c = ?n + 1 \<and> drop 1 c = b)"
  proof (rule wp_for_down [where I = "\<lambda>j c. length c = ?n + 1
      \<and> (\<forall>k < j. c ! k = b ! k) \<and> (\<forall>k. j < k \<and> k \<le> ?n \<longrightarrow> c ! k = b ! (k - 1))"])
    fix j and c :: "u32 list"
    assume "j < ?n" and I: "length c = ?n + 1 \<and> (\<forall>k < Suc j. c ! k = b ! k)
      \<and> (\<forall>k. Suc j < k \<and> k \<le> ?n \<longrightarrow> c ! k = b ! (k - 1))"
    then show "wp (do { x \<leftarrow> rd c j; wr c (j + 1) x }) (\<lambda>c. length c = ?n + 1
      \<and> (\<forall>k < j. c ! k = b ! k) \<and> (\<forall>k. j < k \<and> k \<le> ?n \<longrightarrow> c ! k = b ! (k - 1)))"
      by (auto simp: nth_list_update)
  next
    fix c :: "u32 list"
    assume I: "length c = ?n + 1 \<and> (\<forall>k < 0. c ! k = b ! k) \<and> (\<forall>k. 0 < k \<and> k \<le> ?n \<longrightarrow> c ! k = b ! (k - 1))"
    then have "drop 1 c = b" by (intro nth_equalityI) auto
    with I show "length c = ?n + 1 \<and> drop 1 c = b" by simp
  qed auto
  then obtain c where c: "for_down ?n ?f (zrealloc b (?n + 1)) = Some c" "length c = ?n + 1" "drop 1 c = b"
    by (auto elim: wpE)
  then have "c[0 := ins] = ins # b" "c \<noteq> []" by (cases c; auto)+
  with c show ?thesis by (simp add: fklByteCodeInsertFront_def Let_def wr_def)
qed

lemma instrs_single: "scp x = 0 \<Longrightarrow> instrs \<lparr>lnt = Some [x], bc = [ins]\<rparr> = [(ins, place x)]"
  by (simp add: instrs_def table_def lookup_def)

lemma insert_front_spec:
  assumes b: "bcl_ok b" "lnt b \<noteq> None" and n: "length (bc b) + 1 < 2 ^ 64" and f: "f = FKL_VM_NIL \<or> is_sym f"
  shows "wp (fklByteCodeLntInsertFrontIns is_sym ins b f ln sc) (\<lambda>b'. bcl_ok b'
    \<and> instrs b' = (ins, place (hd (table b))) # instrs b)"
proof -
  obtain l where l: "lnt b = Some l" "lnt_ok l (length (bc b))" using b by (auto simp: bcl_ok_def)
  then obtain x xs where x: "l = x # xs" "scp x = 0" by (cases l) (auto simp: lnt_ok_def)
  have single: "lnt_ok [x] (length [ins])" using x by (simp add: lnt_ok_def)
  have j: "join [x] 1 l = x # FKL_INCREASE_ALL_SCP xs 1"
    using x by (simp add: join_def same_place_def FKL_INCREASE_ALL_SCP_def)
  have "fklByteCodeLntInsertFrontIns is_sym ins b f ln sc
    = Some \<lparr>lnt = Some (join [x] (length [ins]) l), bc = [ins] @ bc b\<rparr>"
    using l x f j by (cases b) (simp add: fklByteCodeLntInsertFrontIns_def insert_front_code FKL_ASSERT_def)
  moreover have "instrs \<lparr>lnt = Some l, bc = bc b\<rparr> = instrs b" "table b = l"
    using l by (simp_all add: instrs_def table_def)
  ultimately show ?thesis
    using instrs_join [OF single l(2)] n x instrs_single [OF x(2), of ins] by simp
qed

lemma push_back_spec:
  assumes b: "bcl_ok b" "lnt b \<noteq> None" and n: "length (bc b) + 1 < 2 ^ 64" and f: "f = FKL_VM_NIL \<or> is_sym f"
  shows "wp (fklByteCodeLntPushBackIns is_sym b ins f ln sc) (\<lambda>b'. bcl_ok b'
    \<and> instrs b' = instrs b @ [(ins, place (last (table b)))])"
proof -
  obtain l where l: "lnt b = Some l" "lnt_ok l (length (bc b))" using b by (auto simp: bcl_ok_def)
  have eq: "fklByteCodeLntPushBackIns is_sym b ins f ln sc = Some \<lparr>lnt = Some l, bc = bc b @ [ins]\<rparr>"
    using l f by (cases b) (simp add: fklByteCodeLntPushBackIns_def push_back_code FKL_ASSERT_def)
  have "lookup l (length (bc b)) = last l" using l by (simp add: lookup_def lnt_ok_def filter_True)
  then have "instrs \<lparr>lnt = Some l, bc = bc b @ [ins]\<rparr> = instrs b @ [(ins, place (last (table b)))]"
    using l by (intro nth_equalityI) (auto simp: nth_instrs nth_append table_def less_Suc_eq)
  moreover have "lnt_ok l (length (bc b @ [ins]))" using l by (auto simp: lnt_ok_def)
  ultimately show ?thesis using eq by (simp add: bcl_ok_def)
qed

lemma first_ins_spec:
  assumes "f = FKL_VM_NIL \<or> is_sym f"
  shows "wp (fklByteCodeLntInsertFrontIns is_sym ins \<lparr>lnt = None, bc = []\<rparr> f ln sc) (\<lambda>b'. bcl_ok b'
      \<and> instrs b' = [(ins, f, ucast ln, sc)])"
    and "wp (fklByteCodeLntPushBackIns is_sym \<lparr>lnt = None, bc = []\<rparr> ins f ln sc) (\<lambda>b'. bcl_ok b'
      \<and> instrs b' = [(ins, f, ucast ln, sc)])"
  using assms by (simp_all add: fklByteCodeLntInsertFrontIns_def fklByteCodeLntPushBackIns_def FKL_ASSERT_def
      fklInitLineNumTabNode_def push_back_code bcl_ok_def lnt_ok_def instrs_single place_def)


section \<open>Removing and inserting in the middle\<close>

lemma remove_code:
  assumes "at < length code"
  shows "wp (for_up at (length code - 1) (\<lambda>i code. do { x \<leftarrow> rd code (i + 1); wr code i x }) code)
    (\<lambda>c. length c = length code \<and> take (length code - 1) c = take at code @ drop (Suc at) code)"
proof (rule wp_for_up [where I = "\<lambda>i c. length c = length code \<and> (\<forall>k < at. c ! k = code ! k)
    \<and> (\<forall>k. at \<le> k \<and> k < i \<longrightarrow> c ! k = code ! Suc k) \<and> (\<forall>k. i \<le> k \<and> k < length code \<longrightarrow> c ! k = code ! k)"])
  fix c :: "'a list"
  assume "length c = length code \<and> (\<forall>k < at. c ! k = code ! k)
    \<and> (\<forall>k. at \<le> k \<and> k < length code - 1 \<longrightarrow> c ! k = code ! Suc k)
    \<and> (\<forall>k. length code - 1 \<le> k \<and> k < length code \<longrightarrow> c ! k = code ! k)"
  then show "length c = length code \<and> take (length code - 1) c = take at code @ drop (Suc at) code"
    using assms by (auto intro!: nth_equalityI simp: nth_append)
qed (use assms in \<open>auto simp: nth_list_update\<close>)

lemma lookup_remove:
  assumes ok: "lnt_ok items n" and k: "k \<le> length items" "0 < k"
    and le: "\<forall>i \<in> set (take k items). unat (scp i) \<le> at" and gt: "\<forall>i \<in> set (drop k items). at < unat (scp i)"
  shows "place (lookup (take k items @ map (\<lambda>i. i\<lparr>scp := scp i - 1\<rparr>) (drop k items)) p)
    = place (lookup items (if p < at then p else Suc p))"
proof -
  let ?dec = "\<lambda>i. i\<lparr>scp := scp i - 1\<rparr>"
  have dec: "unat (scp i - 1) = unat (scp i) - 1" if "i \<in> set (drop k items)" for i
    using gt that by (intro unat_minus_one) auto
  have split: "filter P items = filter P (take k items) @ filter P (drop k items)" for P
    by (metis append_take_drop_id filter_append)
  have ne: "take k items \<noteq> []" using k by auto
  show ?thesis
  proof (cases "p < at")
    case True
    then have "filter (\<lambda>i. unat (scp i) \<le> p) (map ?dec (drop k items)) = []"
      "filter (\<lambda>i. unat (scp i) \<le> p) (drop k items) = []"
      using gt dec by (auto simp: filter_empty_conv)
    then show ?thesis using True by (simp add: lookup_def split)
  next
    case False
    have "filter (\<lambda>i. unat (scp i) \<le> p) (map ?dec (drop k items))
        = map ?dec (filter (\<lambda>i. unat (scp i) \<le> Suc p) (drop k items))"
      using gt dec by (auto simp: filter_map comp_def intro!: arg_cong [of _ _ "map ?dec"] filter_cong)
    moreover have "filter (\<lambda>i. unat (scp i) \<le> q) (take k items) = take k items" if "at \<le> q" for q
      using le that by (intro filter_True) auto
    ultimately show ?thesis using False ne
      by (auto simp: lookup_def split last_append last_map)
  qed
qed

lemma remove_spec:
  assumes b: "bcl_ok b" and n: "length (bc b) < 2 ^ 64" and at: "at < length (bc b)" "1 < length (bc b)"
  shows "wp (fklByteCodeLntRemoveInsAt b at) (\<lambda>(ins, b'). ins = bc b ! at
    \<and> instrs b' = take at (instrs b) @ drop (Suc at) (instrs b))"
proof -
  obtain l where l: "lnt b = Some l" "lnt_ok l (length (bc b))" using b at by (auto simp: bcl_ok_def split: option.splits)
  have u: "unat (of_nat at :: u64) = at" using at n by (simp add: unsigned_of_nat take_bit_nat_eq_self)
  obtain r where r: "fklFindLntItem (of_nat at) l = Some r"
    "r = None \<longrightarrow> l = [] \<or> of_nat at < scp (l ! 0)"
    "\<And>k. r = Some k \<Longrightarrow> k < length l \<and> scp (l ! k) \<le> of_nat at \<and> (Suc k < length l \<longrightarrow> of_nat at < scp (l ! Suc k))"
    using wp_fklFindLntItem [of "of_nat at" l] by (auto elim: wpE)
  have "scp (l ! 0) = 0" "l \<noteq> []" using l by (auto simp: lnt_ok_def hd_conv_nth)
  then obtain k where rk: "r = Some k" using r(2) by (cases r) auto
  with r(3) have k: "k < length l" "unat (scp (l ! k)) \<le> at" "Suc k < length l \<Longrightarrow> at < unat (scp (l ! Suc k))"
    using u by (auto simp: word_le_nat_alt word_less_nat_alt)
  have mono: "unat (scp (l ! i)) \<le> unat (scp (l ! j))" if "i \<le> j" "j < length l" for i j
    using l sorted_nth_mono [of "map scp l" i j] that by (simp add: lnt_ok_def word_le_nat_alt)
  have le: "\<forall>i \<in> set (take (Suc k) l). unat (scp i) \<le> at"
  proof
    fix i assume "i \<in> set (take (Suc k) l)"
    then obtain j where "j < length (take (Suc k) l)" "i = take (Suc k) l ! j" by (auto simp: in_set_conv_nth)
    then have "j \<le> k" "i = l ! j" by auto
    with k(1,2) mono [of j k] show "unat (scp i) \<le> at" by simp
  qed
  have gt: "\<forall>i \<in> set (drop (Suc k) l). at < unat (scp i)"
  proof
    fix i assume "i \<in> set (drop (Suc k) l)"
    then obtain j where "j < length (drop (Suc k) l)" "i = drop (Suc k) l ! j" by (auto simp: in_set_conv_nth)
    then have "Suc k + j < length l" "i = l ! (Suc k + j)" by auto
    with k(3) mono [of "Suc k" "Suc k + j"] show "at < unat (scp i)" by simp
  qed
  define items where "items = take (Suc k) l @ map (\<lambda>i. i\<lparr>scp := scp i - 1\<rparr>) (drop (Suc k) l)"
  have look: "place (lookup items p) = place (lookup l (if p < at then p else Suc p))" for p
    unfolding items_def using k by (intro lookup_remove [OF l(2) _ _ le gt]) auto
  have lb: "table b = l" using l by (simp add: table_def)
  have ins: "instrs \<lparr>lnt = Some items, bc = take at (bc b) @ drop (Suc at) (bc b)\<rparr>
      = take at (instrs b) @ drop (Suc at) (instrs b)"
    using at look by (intro nth_equalityI) (auto simp: nth_instrs nth_append lb table_def [of "\<lparr>lnt = x, bc = y\<rparr>" for x y])
  have eq: "fklByteCodeLntRemoveInsAt b at = do {
     code \<leftarrow> for_up at (length (bc b) - 1) (\<lambda>i code. do { x \<leftarrow> rd code (i + 1); wr code i x }) (bc b);
     FKL_ASSERT (length code - 1 \<noteq> 0);
     Some (bc b ! at, \<lparr>lnt = Some items, bc = take (length code - 1) code\<rparr>) }"
    using l r(1) rk at by (cases b) (simp add: fklByteCodeLntRemoveInsAt_def Let_def FKL_ASSERT_def rd_def items_def)
  show ?thesis unfolding eq
    by (rule wp_bind [OF remove_code [OF at(1)]]) (use at ins in auto)
qed

text \<open>Inserting before the end runs out of the array: the second step already writes past it.\<close>

lemma insert_at_fails:
  assumes "at < length (bc b)"
  shows "fklByteCodeLntInsertInsAt b ins at = None"
proof -
  let ?c = "\<lambda>(i, code). do { x \<leftarrow> rd code (i - 1); code \<leftarrow> wr code i x; Some (i + 1, code) }"
  let ?n = "length (bc b)"
  have out: "while_m (\<lambda>(i, code). at < i) ?c (Suc ?n, code) = None" if "length code = Suc ?n" for code :: "u32 list"
    using that assms by (subst while_m.simps) (simp add: rd_def wr_def)
  have "while_m (\<lambda>(i, code). at < i) ?c (?n, code) = None" if "length code = Suc ?n" for code :: "u32 list"
    using that assms out by (subst while_m.simps) (simp add: rd_def wr_def)
  then show ?thesis
    by (auto simp: fklByteCodeLntInsertInsAt_def Let_def bind_eq_None_conv FKL_ASSERT_def split: option.splits)
qed


section \<open>Properties\<close>

text \<open>
  C28: concatenation. \<open>fklCodeLntConcat\<close> of two well-formed code vectors returns, keeps the
  table well-formed, and the instructions with their places are those of the first followed by
  those of the second, whether or not the neighbouring items of the tables are merged.
\<close>

theorem fklCodeLntConcat_append:
  assumes "bcl_ok f" and "bcl_ok s" and "length (bc f) + length (bc s) < 2 ^ 64"
  shows "\<exists>f' s'. fklCodeLntConcat f s = Some (f', s') \<and> bcl_ok f' \<and> instrs f' = instrs f @ instrs s"
  using concat_spec [OF assms] by (auto elim: wpE)

theorem fklCodeLntConcat_append_witness:
  "\<exists>f' s'. fklCodeLntConcat
      \<lparr>lnt = Some [\<lparr>fid = 8, scp = 0, line = 1, scope = 1\<rparr>, \<lparr>fid = 8, scp = 1, line = 2, scope = 1\<rparr>], bc = [1, 1]\<rparr>
      \<lparr>lnt = Some [\<lparr>fid = 8, scp = 0, line = 2, scope = 1\<rparr>, \<lparr>fid = 8, scp = 1, line = 3, scope = 1\<rparr>], bc = [2, 3]\<rparr>
    = Some (f', s')
    \<and> instrs f' = [(1, 8, 1, 1), (1, 8, 2, 1), (2, 8, 2, 1), (3, 8, 3, 1)]"
proof -
  let ?f = "\<lparr>lnt = Some [\<lparr>fid = 8, scp = 0, line = 1, scope = 1\<rparr>, \<lparr>fid = 8, scp = 1, line = 2, scope = 1\<rparr>],
    bc = [1, 1]\<rparr>"
  let ?s = "\<lparr>lnt = Some [\<lparr>fid = 8, scp = 0, line = 2, scope = 1\<rparr>, \<lparr>fid = 8, scp = 1, line = 3, scope = 1\<rparr>],
    bc = [2, 3]\<rparr>"
  have "bcl_ok ?f" "bcl_ok ?s" by (simp_all add: bcl_ok_def lnt_ok_def)
  moreover have "instrs ?f @ instrs ?s = [(1, 8, 1, 1), (1, 8, 2, 1), (2, 8, 2, 1), (3, 8, 3, 1)]"
    by (simp add: instrs_def table_def lookup_def place_def upt_rec)
  ultimately show ?thesis using fklCodeLntConcat_append [of ?f ?s] by auto
qed

text \<open>
  \<open>fklCodeLntReverseConcat\<close> refines the same list operation, with the second code vector as
  the one that is changed.
\<close>

theorem fklCodeLntReverseConcat_append:
  assumes "bcl_ok f" and "bcl_ok s" and "length (bc f) + length (bc s) < 2 ^ 64"
  shows "\<exists>s'. fklCodeLntReverseConcat f s = Some s' \<and> bcl_ok s' \<and> instrs s' = instrs f @ instrs s"
  using reverse_concat_spec [OF assms] by (auto elim: wpE)

theorem fklCodeLntReverseConcat_append_witness:
  "\<exists>s'. fklCodeLntReverseConcat
      \<lparr>lnt = Some [\<lparr>fid = 8, scp = 0, line = 1, scope = 1\<rparr>], bc = [1, 1]\<rparr>
      \<lparr>lnt = Some [\<lparr>fid = 8, scp = 0, line = 2, scope = 1\<rparr>], bc = [2]\<rparr> = Some s'
    \<and> instrs s' = [(1, 8, 1, 1), (1, 8, 1, 1), (2, 8, 2, 1)]"
proof -
  let ?f = "\<lparr>lnt = Some [\<lparr>fid = 8, scp = 0, line = 1, scope = 1\<rparr>], bc = [1, 1]\<rparr>"
  let ?s = "\<lparr>lnt = Some [\<lparr>fid = 8, scp = 0, line = 2, scope = 1\<rparr>], bc = [2]\<rparr>"
  have "bcl_ok ?f" "bcl_ok ?s" by (simp_all add: bcl_ok_def lnt_ok_def)
  moreover have "instrs ?f @ instrs ?s = [(1, 8, 1, 1), (1, 8, 1, 1), (2, 8, 2, 1)]"
    by (simp add: instrs_def table_def lookup_def place_def upt_rec)
  ultimately show ?thesis using fklCodeLntReverseConcat_append [of ?f ?s] by auto
qed

text \<open>
  Inserting in front. The new instruction comes first and takes the place of the first item of
  the table; the file, line and scope passed to the function are not used.
\<close>

theorem fklByteCodeLntInsertFrontIns_cons:
  assumes "bcl_ok b" and "lnt b \<noteq> None" and "length (bc b) + 1 < 2 ^ 64" and "f = FKL_VM_NIL \<or> is_sym f"
  shows "\<exists>b'. fklByteCodeLntInsertFrontIns is_sym ins b f ln sc = Some b' \<and> bcl_ok b'
    \<and> instrs b' = (ins, place (hd (table b))) # instrs b"
  using insert_front_spec [of b f is_sym ins ln sc] assms by (auto elim: wpE)

theorem fklByteCodeLntInsertFrontIns_cons_witness:
  "\<exists>b'. fklByteCodeLntInsertFrontIns (\<lambda>_. False) 7
      \<lparr>lnt = Some [\<lparr>fid = 8, scp = 0, line = 1, scope = 1\<rparr>, \<lparr>fid = 8, scp = 1, line = 2, scope = 1\<rparr>], bc = [1, 1]\<rparr>
      FKL_VM_NIL 5 5 = Some b'
    \<and> instrs b' = [(7, 8, 1, 1), (1, 8, 1, 1), (1, 8, 2, 1)]"
proof -
  let ?b = "\<lparr>lnt = Some [\<lparr>fid = 8, scp = 0, line = 1, scope = 1\<rparr>, \<lparr>fid = 8, scp = 1, line = 2, scope = 1\<rparr>],
    bc = [1, 1]\<rparr>"
  have "bcl_ok ?b" by (simp add: bcl_ok_def lnt_ok_def)
  moreover have "(7, place (hd (table ?b))) # instrs ?b = [(7, 8, 1, 1), (1, 8, 1, 1), (1, 8, 2, 1)]"
    by (simp add: instrs_def table_def lookup_def place_def upt_rec)
  ultimately show ?thesis
    using fklByteCodeLntInsertFrontIns_cons [of ?b FKL_VM_NIL "\<lambda>_. False" 7 5 5] by auto
qed

text \<open>
  C29: the binary search. For any table \<open>fklFindLntItem\<close> returns without reading outside the
  table. It finds nothing only if the table is empty or starts behind the position, and otherwise
  an item that starts at or before the position while the next one starts behind it.
\<close>

theorem fklFindLntItem_sound:
  "\<exists>r. fklFindLntItem cp items = Some r
    \<and> (r = None \<longrightarrow> items = [] \<or> cp < scp (items ! 0))
    \<and> (\<forall>k. r = Some k \<longrightarrow> k < length items \<and> scp (items ! k) \<le> cp
        \<and> (Suc k < length items \<longrightarrow> cp < scp (items ! Suc k)))"
  using wp_fklFindLntItem [of cp items] by (auto elim: wpE)

theorem fklFindLntItem_sound_witness:
  "\<exists>r. fklFindLntItem 3 [\<lparr>fid = 8, scp = 0, line = 1, scope = 1\<rparr>, \<lparr>fid = 8, scp = 2, line = 2, scope = 1\<rparr>] = Some r
    \<and> r \<noteq> None"
  using fklFindLntItem_sound [of 3 "[\<lparr>fid = 8, scp = 0, line = 1, scope = 1\<rparr>, \<lparr>fid = 8, scp = 2, line = 2, scope = 1\<rparr>]"]
  by (auto simp: word_less_nat_alt)

text \<open>
  Removing an instruction removes exactly that instruction from the abstract view: every other
  instruction keeps its place, also where the removed one was the only one of its item.
\<close>

theorem fklByteCodeLntRemoveInsAt_removes:
  assumes "bcl_ok b" and "length (bc b) < 2 ^ 64" and "at < length (bc b)" and "1 < length (bc b)"
  shows "\<exists>ins b'. fklByteCodeLntRemoveInsAt b at = Some (ins, b') \<and> ins = bc b ! at
    \<and> instrs b' = take at (instrs b) @ drop (Suc at) (instrs b)"
  using remove_spec [OF assms] by (auto elim: wpE)

theorem fklByteCodeLntRemoveInsAt_removes_witness:
  "\<exists>ins b'. fklByteCodeLntRemoveInsAt
      \<lparr>lnt = Some [\<lparr>fid = 8, scp = 0, line = 1, scope = 1\<rparr>, \<lparr>fid = 8, scp = 1, line = 2, scope = 1\<rparr>], bc = [5, 6]\<rparr> 0
      = Some (ins, b') \<and> ins = 5 \<and> instrs b' = [(6, 8, 2, 1)]"
proof -
  let ?b = "\<lparr>lnt = Some [\<lparr>fid = 8, scp = 0, line = 1, scope = 1\<rparr>, \<lparr>fid = 8, scp = 1, line = 2, scope = 1\<rparr>],
    bc = [5, 6]\<rparr>"
  have "bcl_ok ?b" by (simp add: bcl_ok_def lnt_ok_def)
  moreover have "take 0 (instrs ?b) @ drop (Suc 0) (instrs ?b) = [(6, 8, 2, 1)]"
    by (simp add: instrs_def table_def lookup_def place_def upt_rec)
  ultimately show ?thesis using fklByteCodeLntRemoveInsAt_removes [of ?b 0] by auto
qed

text \<open>
  C30: inserting anywhere but at the end writes outside the code array: the loop that should shift
  the instructions up counts its index up instead of down and leaves the array in its second step.
\<close>

theorem fklByteCodeLntInsertInsAt_out_of_bounds:
  assumes "at < length (bc b)"
  shows "fklByteCodeLntInsertInsAt b ins at = None"
  using assms by (rule insert_at_fails)

theorem fklByteCodeLntInsertInsAt_out_of_bounds_witness:
  "fklByteCodeLntInsertInsAt
      \<lparr>lnt = Some [\<lparr>fid = 8, scp = 0, line = 1, scope = 1\<rparr>], bc = [5, 6]\<rparr> 9 0 = None"
  using fklByteCodeLntInsertInsAt_out_of_bounds
    [of 0 "\<lparr>lnt = Some [\<lparr>fid = 8, scp = 0, line = 1, scope = 1\<rparr>], bc = [5, 6]\<rparr>" 9] by simp

end
