(* ===== verification/TailCall.thy ===== *)
theory TailCall
  imports ByteCode
begin

text \<open>
  What the tail call scan of src/bytecode.c does. \<open>top_pos\<close> are the positions of the top level
  of the code, the bodies of procedures left out; \<open>tail_pos\<close> the positions from which only
  jumps and \<open>close-ref\<close> lead to a return or to the end. The scan turns the calls at top level
  positions that are followed by a tail position into tail calls, and changes nothing else.
\<close>

section \<open>Positions\<close>

definition step :: "FklByteCode \<Rightarrow> nat \<Rightarrow> nat" where
  "step code i = (if i < length code \<and> fklIsMakeProcIns (code ! i)
     then i + (unat (FKL_INS_uC (code ! i)) + 1) else i + 1)"

definition top_pos :: "FklByteCode \<Rightarrow> nat \<Rightarrow> bool" where
  "top_pos code i \<longleftrightarrow> (\<exists>k. i = (step code ^^ k) 0)"

inductive tail_pos :: "FklByteCode \<Rightarrow> nat \<Rightarrow> bool" for code where
  tail_end: "length code \<le> i \<Longrightarrow> tail_pos code i"
| tail_ret: "i < length code \<Longrightarrow> FKL_INS_OP (code ! i) = Some FKL_OP_RET \<Longrightarrow> tail_pos code i"
| tail_close: "i < length code \<Longrightarrow> FKL_INS_OP (code ! i) = Some FKL_OP_CLOSE_REF
    \<Longrightarrow> tail_pos code (i + 1) \<Longrightarrow> tail_pos code i"
| tail_jmp: "i < length code \<Longrightarrow> FKL_INS_OP (code ! i) = Some FKL_OP_JMP
    \<Longrightarrow> tail_pos code (i + 1 + nat (sint (FKL_INS_sC (code ! i)))) \<Longrightarrow> tail_pos code i"

inductive_simps tail_pos_iff: "tail_pos code i"

definition forward_jumps :: "FklByteCode \<Rightarrow> bool" where
  "forward_jumps code \<longleftrightarrow> (\<forall>i < length code. FKL_INS_OP (code ! i) = Some FKL_OP_JMP
     \<longrightarrow> 0 \<le> sint (FKL_INS_sC (code ! i)))"

definition becomes_tail :: "FklByteCode \<Rightarrow> nat \<Rightarrow> bool" where
  "becomes_tail code i \<longleftrightarrow> top_pos code i \<and> FKL_INS_OP (code ! i) = Some FKL_OP_CALL \<and> tail_pos code (i + 1)"

definition with_tail_calls :: "FklByteCode \<Rightarrow> FklByteCode" where
  "with_tail_calls code = map (\<lambda>i. if becomes_tail code i then FKL_INS_SET_OP (code ! i) FKL_OP_TAIL_CALL
     else code ! i) [0..<length code]"

section \<open>Skipping to a call\<close>

lemma decode_make_proc:
  "i < length code \<Longrightarrow> fklIsMakeProcIns (code ! i) \<Longrightarrow>
   fklGetInsOpArg (drop i code) zero_arg = Some (zero_arg\<lparr>ux := ucast (FKL_INS_uC (code ! i))\<rparr>, 1)"
  by (simp add: fklIsMakeProcIns_def fklGetInsOpArg_def fklGetInsOpArgWithOp_def fklGetOpcodeMode_def rd_def)

lemma step_greater: "i < step code i"
  by (simp add: step_def)

lemma skip_from_step:
  "skip_from index code r =
    (if index + r < length code \<and> FKL_INS_OP (code ! (index + r)) \<noteq> Some FKL_OP_CALL
     then skip_from index code (step code (index + r) - index) else Some r)"
  by (subst skip_from.simps) (auto simp: step_def decode_make_proc)

lemma skip_from_spec:
  "\<exists>r' k. skip_from index code r = Some r' \<and> r \<le> r' \<and> index + r' = (step code ^^ k) (index + r)
    \<and> (\<forall>m < k. (step code ^^ m) (index + r) < length code
        \<and> FKL_INS_OP (code ! ((step code ^^ m) (index + r))) \<noteq> Some FKL_OP_CALL)
    \<and> (length code \<le> index + r' \<or> FKL_INS_OP (code ! (index + r')) = Some FKL_OP_CALL)"
proof (induction "length code - (index + r)" arbitrary: r rule: less_induct)
  case less
  let ?i = "index + r"
  show ?case
  proof (cases "?i < length code \<and> FKL_INS_OP (code ! ?i) \<noteq> Some FKL_OP_CALL")
    case False
    then show ?thesis by - (rule exI [of _ r], rule exI [of _ 0], auto simp: skip_from_step [of index code r])
  next
    case True
    define s where "s = step code ?i - index"
    have s: "index + s = step code ?i" using step_greater [of ?i code] by (simp add: s_def)
    then have "length code - (index + s) < length code - ?i"
      using True step_greater [of ?i code] by (simp add: diff_less_mono2)
    from less [OF this] obtain r' k where IH: "skip_from index code s = Some r'" "s \<le> r'"
      "index + r' = (step code ^^ k) (index + s)"
      "\<forall>m < k. (step code ^^ m) (index + s) < length code
        \<and> FKL_INS_OP (code ! ((step code ^^ m) (index + s))) \<noteq> Some FKL_OP_CALL"
      "length code \<le> index + r' \<or> FKL_INS_OP (code ! (index + r')) = Some FKL_OP_CALL" by blast
    have pow: "(step code ^^ Suc m) ?i = (step code ^^ m) (index + s)" for m
      unfolding funpow_Suc_right comp_def s ..
    show ?thesis
    proof (rule exI [of _ r'], rule exI [of _ "Suc k"], intro conjI allI impI)
      show "skip_from index code r = Some r'" using True IH(1) by (simp add: skip_from_step [of index code r] s_def)
      show "r \<le> r'" using IH(2) s step_greater [of ?i code] by linarith
      show "index + r' = (step code ^^ Suc k) ?i" using IH(3) pow by simp
      show "length code \<le> index + r' \<or> FKL_INS_OP (code ! (index + r')) = Some FKL_OP_CALL" by (rule IH(5))
      fix m assume m: "m < Suc k"
      have "(step code ^^ m) ?i < length code \<and> FKL_INS_OP (code ! ((step code ^^ m) ?i)) \<noteq> Some FKL_OP_CALL"
      proof (cases m)
        case 0
        then show ?thesis using True by simp
      next
        case (Suc m')
        then show ?thesis using IH(4) m pow [of m'] by simp
      qed
      then show "(step code ^^ m) ?i < length code" "FKL_INS_OP (code ! ((step code ^^ m) ?i)) \<noteq> Some FKL_OP_CALL"
        by blast+
    qed
  qed
qed

section \<open>The end of an expression\<close>

lemma decode_jmp:
  "i < length code \<Longrightarrow> get_next (drop i code) = Some
    (if FKL_INS_OP (code ! i) = Some FKL_OP_JMP then scast (FKL_INS_sC (code ! i)) + 1 else 1)"
  by (simp add: get_next_def fklIsJmpIns_def fklGetInsOpArg_def fklGetInsOpArgWithOp_def fklGetOpcodeMode_def rd_def)

lemma sC_range: "sint (FKL_INS_sC i) < 2 ^ 24"
proof -
  have "bit (FKL_INS_GET i 8 24) n \<Longrightarrow> n < 24" for n by (simp add: bit_GET)
  then have t: "take_bit 24 (FKL_INS_GET i 8 24) = FKL_INS_GET i 8 24"
    by (intro bit_word_eqI) (auto simp: bit_take_bit_iff)
  have "uint (FKL_INS_GET i 8 24) < 2 ^ 24"
    using take_bit_int_less_exp [of 24 "uint (FKL_INS_GET i 8 24)"]
    by (subst t [symmetric]) (simp add: unsigned_take_bit_eq)
  then obtain k where k: "uint (FKL_INS_GET i 8 24) = k" "0 \<le> k" "k < 16777216" by simp
  then show ?thesis using mod_neg_once [of 4294967296 "k - 8388608"]
    by (cases "k < 8388608")
      (auto simp: FKL_INS_sC_def FKL_I24_OFFSET_def sint_32 uint_word_ariths mod_pos_pos_trivial)
qed

lemma is_last_expression_spec:
  assumes "forward_jumps code" "length code < 2 ^ 62" "i < 2 ^ 63"
  shows "is_last_expression (of_nat i) code = Some (tail_pos code i)"
  using assms(3)
proof (induction "length code - i" arbitrary: i rule: less_induct)
  case less
  have u: "unat (of_nat i :: u64) = i" using less.prems by (simp add: unsigned_of_nat take_bit_nat_eq_self)
  show ?case
  proof (cases "i < length code \<and> (FKL_INS_OP (code ! i) = Some FKL_OP_JMP \<or> FKL_INS_OP (code ! i) = Some FKL_OP_CLOSE_REF)")
    case False
    then show ?thesis by (subst is_last_expression.simps) (auto simp: u tail_pos_iff [of code i] not_less)
  next
    case True
    define n where "n = (if FKL_INS_OP (code ! i) = Some FKL_OP_JMP then nat (sint (FKL_INS_sC (code ! i))) else 0)"
    have nn: "get_next (drop i code) = Some (of_nat (n + 1))"
    proof (cases "FKL_INS_OP (code ! i) = Some FKL_OP_JMP")
      case j: True
      then have "0 \<le> sint (FKL_INS_sC (code ! i))" using assms(1) True by (auto simp: forward_jumps_def)
      then have "scast (FKL_INS_sC (code ! i)) = (of_nat n :: i64)"
        using j by (simp add: n_def)
      moreover have "(of_nat n :: i64) + 1 = of_nat (n + 1)" by simp
      ultimately show ?thesis using True j by (subst decode_jmp) (simp_all only: simp_thms if_True)
    next
      case False
      then show ?thesis using True by (simp add: decode_jmp n_def)
    qed
    have n: "n < 2 ^ 24" using sC_range [of "code ! i"] by (auto simp: n_def)
    have lt: "i + 1 + n < 2 ^ 63" using n assms(2) True by simp
    have IH: "is_last_expression (of_nat (i + 1 + n)) code = Some (tail_pos code (i + 1 + n))"
      by (rule less) (use True lt in auto)
    have "is_last_expression (of_nat i) code = is_last_expression (of_nat i + of_nat (n + 1)) code"
      using True nn by (subst is_last_expression.simps) (auto simp: u)
    also have "(of_nat i + of_nat (n + 1) :: u64) = of_nat (i + 1 + n)" by simp
    also note IH
    also have "tail_pos code (i + 1 + n) = tail_pos code i"
      using True by (subst (2) tail_pos_iff) (auto simp: n_def)
    finally show ?thesis .
  qed
qed


section \<open>The scan\<close>

lemma forward_jumps_cong:
  assumes "length c = length code"
    "\<And>j. j < length code \<Longrightarrow> c ! j = code ! j \<or> (FKL_INS_OP (code ! j) = Some FKL_OP_CALL
       \<and> FKL_INS_OP (c ! j) = Some FKL_OP_TAIL_CALL)"
  shows "forward_jumps c = forward_jumps code"
proof -
  have "c ! j = code ! j" if "j < length code"
    "FKL_INS_OP (c ! j) = Some FKL_OP_JMP \<or> FKL_INS_OP (code ! j) = Some FKL_OP_JMP" for j
    using assms(2) [OF that(1)] that(2) by auto
  with assms(1) show ?thesis unfolding forward_jumps_def by (metis (no_types, lifting))
qed

lemma tail_pos_mono:
  assumes "tail_pos code i" "length c = length code"
    "\<And>j. j < length code \<Longrightarrow> FKL_INS_OP (code ! j) \<in> {Some FKL_OP_RET, Some FKL_OP_CLOSE_REF, Some FKL_OP_JMP}
       \<Longrightarrow> c ! j = code ! j"
  shows "tail_pos c i"
  using assms(1)
proof induction
  case (tail_end i)
  then show ?case using assms(2) by (auto intro: tail_pos.intros)
next
  case (tail_ret i)
  then show ?case using assms(2,3) by (auto intro: tail_pos.tail_ret)
next
  case (tail_close i)
  then show ?case using assms(2,3) by (auto intro: tail_pos.tail_close)
next
  case (tail_jmp i)
  then show ?case using assms(2) assms(3) [of i] by (auto intro: tail_pos.tail_jmp)
qed

lemma tail_pos_cong:
  assumes "length c = length code"
    "\<And>j. j < length code \<Longrightarrow> c ! j = code ! j \<or> (FKL_INS_OP (code ! j) = Some FKL_OP_CALL
       \<and> FKL_INS_OP (c ! j) = Some FKL_OP_TAIL_CALL)"
  shows "tail_pos c i = tail_pos code i"
proof
  have same: "c ! j = code ! j" if "j < length code"
    "FKL_INS_OP (c ! j) \<in> {Some FKL_OP_RET, Some FKL_OP_CLOSE_REF, Some FKL_OP_JMP}
     \<or> FKL_INS_OP (code ! j) \<in> {Some FKL_OP_RET, Some FKL_OP_CLOSE_REF, Some FKL_OP_JMP}" for j
    using assms(2) [OF that(1)] that(2) by auto
  show "tail_pos c i \<Longrightarrow> tail_pos code i"
    by (rule tail_pos_mono [of c]) (use assms(1) same [symmetric] in auto)
  show "tail_pos code i \<Longrightarrow> tail_pos c i"
    by (rule tail_pos_mono [of code]) (use assms(1) same in auto)
qed

lemma step_cong: "(i < length code \<Longrightarrow> c ! i = code ! i) \<Longrightarrow> length c = length code \<Longrightarrow> step c i = step code i"
  by (cases "i < length code") (simp_all add: step_def)

lemma funpow_step_ge: "i \<le> (step code ^^ k) i"
  by (induction k) (auto intro: order_trans [OF _ less_imp_le [OF step_greater]])

lemma funpow_step_cong:
  assumes "length c = length code" "\<And>j. i \<le> j \<Longrightarrow> j < length code \<Longrightarrow> c ! j = code ! j"
  shows "(step c ^^ k) i = (step code ^^ k) i"
proof (induction k)
  case (Suc k)
  then show ?case using step_cong [of "(step code ^^ k) i" code c] assms funpow_step_ge [of i k code] by simp
qed simp

lemma top_pos_later:
  assumes "top_pos code i" "top_pos code j" "i < j"
  obtains m where "j = (step code ^^ m) (step code i)"
proof -
  obtain a b where ab: "i = (step code ^^ a) 0" "j = (step code ^^ b) 0"
    using assms by (auto simp: top_pos_def)
  have "a < b"
  proof (rule ccontr)
    assume "\<not> a < b"
    then obtain d where "a = d + b" by (metis add.commute le_iff_add not_less)
    then have "i = (step code ^^ d) j" using ab by (simp add: funpow_add)
    then show False using funpow_step_ge [of j d code] assms(3) by simp
  qed
  then obtain d where "b = Suc d + a" by (metis add.commute less_iff_Suc_add add_Suc_right)
  then have "j = (step code ^^ d) (step code i)" using ab by (simp add: funpow_add funpow_swap1)
  then show thesis by (rule that)
qed

definition scan_inv :: "FklByteCode \<Rightarrow> nat \<times> FklByteCode \<Rightarrow> bool" where
  "scan_inv code = (\<lambda>(i, c). length c = length code \<and> top_pos code i
     \<and> (length code \<le> i \<or> FKL_INS_OP (code ! i) = Some FKL_OP_CALL)
     \<and> (\<forall>j < length code. c ! j = (if j < i then with_tail_calls code ! j else code ! j)))"

lemma nth_with_tail_calls:
  "j < length code \<Longrightarrow> with_tail_calls code ! j
    = (if becomes_tail code j then FKL_INS_SET_OP (code ! j) FKL_OP_TAIL_CALL else code ! j)"
  by (simp add: with_tail_calls_def)

lemma skip_spec:
  assumes l: "length c = length code" and same: "\<And>j. i \<le> j \<Longrightarrow> j < length code \<Longrightarrow> c ! j = code ! j"
    and i: "top_pos code i"
  shows "\<exists>r. skipToCall i c = Some r \<and> top_pos code (i + r)
    \<and> (length code \<le> i + r \<or> FKL_INS_OP (code ! (i + r)) = Some FKL_OP_CALL)
    \<and> (\<forall>j. top_pos code j \<longrightarrow> i \<le> j \<longrightarrow> j < i + r \<longrightarrow> FKL_INS_OP (code ! j) \<noteq> Some FKL_OP_CALL)"
proof -
  obtain r k where r: "skipToCall i c = Some r" "i + r = (step c ^^ k) i"
    "\<forall>m < k. (step c ^^ m) i < length c \<and> FKL_INS_OP (c ! ((step c ^^ m) i)) \<noteq> Some FKL_OP_CALL"
    "length c \<le> i + r \<or> FKL_INS_OP (c ! (i + r)) = Some FKL_OP_CALL"
    using skip_from_spec [of i c 0] by (auto simp: skipToCall_def)
  have pow: "(step c ^^ m) i = (step code ^^ m) i" for m by (rule funpow_step_cong [OF l same])
  have r': "i + r = (step code ^^ k) i" using r(2) pow by simp
  have top: "top_pos code ((step code ^^ m) i)" for m
    using i by (auto simp: top_pos_def simp flip: funpow_add [THEN fun_cong, unfolded comp_def])
  have calls: "FKL_INS_OP (code ! j) \<noteq> Some FKL_OP_CALL" if j: "top_pos code j" "i \<le> j" "j < i + r" for j
  proof -
    obtain m where m: "j = (step code ^^ m) i"
    proof (cases "i = j")
      case True
      then show thesis by (intro that [of 0]) simp
    next
      case False
      then obtain m where "j = (step code ^^ m) (step code i)"
        using j i by (elim top_pos_later [of code i j]) auto
      then show thesis by (intro that [of "Suc m"]) (simp add: funpow_swap1)
    qed
    have "m < k"
    proof (rule ccontr)
      assume "\<not> m < k"
      then obtain d where "m = d + k" by (metis add.commute le_iff_add not_less)
      then have "j = (step code ^^ d) (i + r)" using m r' by (simp add: funpow_add)
      then show False using funpow_step_ge [of "i + r" d code] j by simp
    qed
    then have "FKL_INS_OP (c ! j) \<noteq> Some FKL_OP_CALL" "j < length c" using r(3) m pow by auto
    then show ?thesis using same [of j] j l by simp
  qed
  have "length code \<le> i + r \<or> FKL_INS_OP (code ! (i + r)) = Some FKL_OP_CALL"
    using r(4) same [of "i + r"] l by (cases "i + r < length code") auto
  then show ?thesis using r(1) r' top [of k] calls by auto
qed


lemma scan_inv_cong:
  assumes "scan_inv code (i, c)" "j < length code"
  shows "c ! j = code ! j \<or> (FKL_INS_OP (code ! j) = Some FKL_OP_CALL \<and> FKL_INS_OP (c ! j) = Some FKL_OP_TAIL_CALL)"
  using assms by (auto simp: scan_inv_def nth_with_tail_calls becomes_tail_def)

lemma scan_body:
  assumes fj: "forward_jumps code" and l: "length code < 2 ^ 62"
    and inv: "scan_inv code (i, c)" and i: "i < length c"
  shows "wp (do {
      last \<leftarrow> is_last_expression (of_nat (i + 1)) c;
      c \<leftarrow> (if last then do {
          x \<leftarrow> rd c (i + 1 - 1);
          wr c (i + 1 - 1) (FKL_INS_SET_OP x FKL_OP_TAIL_CALL) }
        else Some c);
      r \<leftarrow> skipToCall (i + 1) c;
      Some (i + 1 + r, c) })
    (\<lambda>s. scan_inv code s \<and> length code - fst s < length code - i)"
proof -
  have I: "length c = length code" "top_pos code i" "FKL_INS_OP (code ! i) = Some FKL_OP_CALL"
    "\<And>j. j < length code \<Longrightarrow> c ! j = (if j < i then with_tail_calls code ! j else code ! j)"
    using inv i by (auto simp: scan_inv_def)
  note cong = scan_inv_cong [OF inv]
  have last: "is_last_expression (of_nat (i + 1)) c = Some (tail_pos code (i + 1))"
    using is_last_expression_spec [of c "i + 1"] fj l I(1) i forward_jumps_cong [OF I(1) cong]
      tail_pos_cong [OF I(1) cong] by simp
  define c' where "c' = (if tail_pos code (i + 1) then c[i := FKL_INS_SET_OP (c ! i) FKL_OP_TAIL_CALL] else c)"
  have c': "length c' = length code" "\<And>j. i + 1 \<le> j \<Longrightarrow> j < length code \<Longrightarrow> c' ! j = code ! j"
    using I by (auto simp: c'_def)
  have "step code i = i + 1" using I(3) by (simp add: step_def fklIsMakeProcIns_def)
  then have top: "top_pos code (i + 1)" using I(2) by (metis funpow.simps(2) o_apply top_pos_def)
  obtain r where r: "skipToCall (i + 1) c' = Some r" "top_pos code (i + 1 + r)"
    "length code \<le> i + 1 + r \<or> FKL_INS_OP (code ! (i + 1 + r)) = Some FKL_OP_CALL"
    "\<forall>j. top_pos code j \<longrightarrow> i + 1 \<le> j \<longrightarrow> j < i + 1 + r \<longrightarrow> FKL_INS_OP (code ! j) \<noteq> Some FKL_OP_CALL"
    using skip_spec [OF c' top] by blast
  have "c' ! j = (if j < i + 1 + r then with_tail_calls code ! j else code ! j)" if j: "j < length code" for j
  proof (cases j i rule: linorder_cases)
    case less
    then show ?thesis using I(4) [OF j] by (simp add: c'_def)
  next
    case equal
    then show ?thesis using I j by (auto simp: c'_def nth_with_tail_calls becomes_tail_def)
  next
    case greater
    then show ?thesis using c'(2) [of j] j r(4) by (auto simp: nth_with_tail_calls becomes_tail_def)
  qed
  then have "scan_inv code (i + 1 + r, c')" using c' r by (simp add: scan_inv_def)
  moreover have "(if tail_pos code (i + 1) then do {
          x \<leftarrow> rd c (i + 1 - 1);
          wr c (i + 1 - 1) (FKL_INS_SET_OP x FKL_OP_TAIL_CALL) }
        else Some c) = Some c'"
    using i by (simp add: c'_def rd_def wr_def)
  ultimately show ?thesis using last r(1) i I(1) by simp
qed

lemma scan_spec:
  assumes fj: "forward_jumps code" and l: "length code < 2 ^ 62"
  shows "fklScanAndSetTailCall code = Some (with_tail_calls code)"
proof -
  have top0: "top_pos code 0" by (auto simp: top_pos_def intro: exI [of _ 0])
  obtain r where r: "skipToCall 0 code = Some r" "top_pos code r"
    "length code \<le> r \<or> FKL_INS_OP (code ! r) = Some FKL_OP_CALL"
    "\<forall>j. top_pos code j \<longrightarrow> j < r \<longrightarrow> FKL_INS_OP (code ! j) \<noteq> Some FKL_OP_CALL"
    using skip_spec [of code code 0] top0 by auto
  have inv0: "scan_inv code (r, code)"
    using r by (auto simp: scan_inv_def nth_with_tail_calls becomes_tail_def)
  let ?b = "\<lambda>(i, code). i < length code"
  let ?c = "\<lambda>(i, code). do {
      let i = i + 1;
      last \<leftarrow> is_last_expression (of_nat i) code;
      code \<leftarrow> (if last then do {
          x \<leftarrow> rd code (i - 1);
          wr code (i - 1) (FKL_INS_SET_OP x FKL_OP_TAIL_CALL) }
        else Some code);
      r \<leftarrow> skipToCall i code;
      Some (i + r, code) }"
  have "wp (while_m ?b ?c (r, code)) (\<lambda>(i, c). c = with_tail_calls code)"
  proof (rule wp_while_m [where I = "scan_inv code" and \<mu> = "\<lambda>(i, c). length code - i"])
    show "scan_inv code (r, code)" by (rule inv0)
  next
    fix t :: "nat \<times> u32 list"
    assume t: "scan_inv code t" "?b t"
    obtain i c where ic: "t = (i, c)" by (cases t)
    show "wp (?c t) (\<lambda>u. scan_inv code u \<and> (case u of (i, c) \<Rightarrow> length code - i) < (case t of (i, c) \<Rightarrow> length code - i))"
      unfolding ic prod.case Let_def
      by (rule wp_mono [OF scan_body [OF fj l]]) (use t ic in \<open>auto simp: case_prod_beta\<close>)
  next
    fix t :: "nat \<times> u32 list"
    assume "scan_inv code t" "\<not> ?b t"
    then show "case t of (i, c) \<Rightarrow> c = with_tail_calls code"
      by (auto simp: scan_inv_def with_tail_calls_def intro!: nth_equalityI)
  qed
  then show ?thesis using r(1) by (auto simp: fklScanAndSetTailCall_def wp_iff)
qed

section \<open>Properties\<close>

text \<open>
  C15: the tail call scan. On code without backward jumps \<open>fklScanAndSetTailCall\<close> returns, and
  its result differs from the code exactly in the calls at top level positions that are followed by
  a tail position: those, and all of those, have become tail calls.
\<close>

theorem fklScanAndSetTailCall_exact:
  assumes "forward_jumps code" and "length code < 2 ^ 62"
  shows "fklScanAndSetTailCall code = Some (with_tail_calls code)"
  using assms by (rule scan_spec)

theorem fklScanAndSetTailCall_exact_witness:
  "fklScanAndSetTailCall [FKL_MAKE_INS_I FKL_OP_CALL, FKL_INS_SET_sC (FKL_MAKE_INS_I FKL_OP_JMP) (1 :: i64),
       FKL_MAKE_INS_I FKL_OP_CALL, FKL_MAKE_INS_I FKL_OP_RET]
   = Some [FKL_INS_SET_OP (FKL_MAKE_INS_I FKL_OP_CALL) FKL_OP_TAIL_CALL,
       FKL_INS_SET_sC (FKL_MAKE_INS_I FKL_OP_JMP) (1 :: i64),
       FKL_INS_SET_OP (FKL_MAKE_INS_I FKL_OP_CALL) FKL_OP_TAIL_CALL, FKL_MAKE_INS_I FKL_OP_RET]"
proof -
  have op: "FKL_INS_OP (FKL_MAKE_INS_I op) = Some op" for op by (simp add: FKL_MAKE_INS_I_def)
  have sC: "FKL_INS_sC (FKL_INS_SET_sC (FKL_MAKE_INS_I op) (1 :: i64)) = 1" for op
    by (simp add: FKL_I24_OFFSET_def)
  let ?a = "[FKL_MAKE_INS_I FKL_OP_CALL, FKL_INS_SET_sC (FKL_MAKE_INS_I FKL_OP_JMP) (1 :: i64),
       FKL_MAKE_INS_I FKL_OP_CALL, FKL_MAKE_INS_I FKL_OP_RET]"
  have fj: "forward_jumps ?a" by (auto simp: forward_jumps_def less_Suc_eq op FKL_I24_OFFSET_def)
  have st: "step ?a i = i + 1" if "i < 4" for i
    using that by (auto simp: step_def fklIsMakeProcIns_def less_Suc_eq op numeral_eq_Suc)
  have "(step ?a ^^ 2) 0 = 2" using st [of 0] st [of 1] by (simp add: eval_nat_numeral)
  then have "top_pos ?a 2" unfolding top_pos_def by (intro exI [of _ 2]) simp
  moreover have "top_pos ?a 0" unfolding top_pos_def by (intro exI [of _ 0]) simp
  ultimately have top: "top_pos ?a 0" "top_pos ?a 2" by simp_all
  have t3: "tail_pos ?a 3" by (rule tail_ret) (simp_all add: op)
  have "tail_pos ?a 1" by (rule tail_jmp) (use t3 in \<open>simp_all add: op sC eval_nat_numeral del: get_set_C\<close>)
  with t3 top have "becomes_tail ?a 0" "becomes_tail ?a 2" by (simp_all add: becomes_tail_def op)
  then have "with_tail_calls ?a = [FKL_INS_SET_OP (FKL_MAKE_INS_I FKL_OP_CALL) FKL_OP_TAIL_CALL,
       FKL_INS_SET_sC (FKL_MAKE_INS_I FKL_OP_JMP) (1 :: i64),
       FKL_INS_SET_OP (FKL_MAKE_INS_I FKL_OP_CALL) FKL_OP_TAIL_CALL, FKL_MAKE_INS_I FKL_OP_RET]"
    by (simp add: with_tail_calls_def upt_rec becomes_tail_def op numeral_3_eq_3 numeral_2_eq_2)
  then show ?thesis using fklScanAndSetTailCall_exact [OF fj] by simp
qed

text \<open>
  C32: without that condition the scan need not return: a call followed by a jump to itself keeps
  \<open>is_last_expression\<close> in its loop for ever.
\<close>

theorem fklScanAndSetTailCall_diverges:
  "fklScanAndSetTailCall [FKL_MAKE_INS_I FKL_OP_CALL, FKL_INS_SET_sC (FKL_MAKE_INS_I FKL_OP_JMP) (-1 :: i64)] = None"
proof -
  let ?a = "[FKL_MAKE_INS_I FKL_OP_CALL, FKL_INS_SET_sC (FKL_MAKE_INS_I FKL_OP_JMP) (-1 :: i64)]"
  have op: "FKL_INS_OP (FKL_MAKE_INS_I op) = Some op" for op by (simp add: FKL_MAKE_INS_I_def)
  have "get_next (drop 1 ?a) = Some 0"
    using scast_sC [of "-1"] by (subst decode_jmp) (simp_all add: op FKL_I24_MAX_def)
  then have next1: "get_next [FKL_INS_SET_sC (FKL_MAKE_INS_I FKL_OP_JMP) (-1 :: i64)] = Some 0" by simp
  have "\<not> (i = 1 \<and> code = ?a)" if "is_last_expression i code = Some y" for i code y
  proof (rule is_last_expression.raw_induct [of "\<lambda>i code y. \<not> (i = 1 \<and> code = ?a)", OF _ that])
    fix rec :: "u64 \<Rightarrow> FklByteCode \<Rightarrow> bool option" and i code y
    assume IH: "\<And>i code y. rec i code = Some y \<Longrightarrow> \<not> (i = 1 \<and> code = ?a)"
      and "(if unat i < length code \<and> FKL_INS_OP (code ! unat i) \<noteq> Some FKL_OP_RET
        then if FKL_INS_OP (code ! unat i) \<noteq> Some FKL_OP_JMP \<and> FKL_INS_OP (code ! unat i) \<noteq> Some FKL_OP_CLOSE_REF
          then Some False
          else do { n \<leftarrow> get_next (drop (unat i) code); rec (i + n) code }
        else Some True) = Some y"
    then show "\<not> (i = 1 \<and> code = ?a)" using IH [of 1 ?a y] by (auto simp: op next1)
  qed
  then have "is_last_expression 1 ?a = None" by (cases "is_last_expression 1 ?a") auto
  then show ?thesis
    by (simp add: fklScanAndSetTailCall_def skipToCall_def skip_from_step op while_m.simps)
qed

end
