(* ===== verification/HashMap.thy ===== *)
theory HashMap
  imports Prelude
begin

text \<open>
  The generic hash map of include/fakeLisp/cont/hash.h, which the interpreter instantiates for symbol
  tables, the interned symbols, grammars, value sets and hash tables of values. The nodes are on the
  heap: a doubly linked list in the order of insertion, and one singly linked chain through the same
  nodes per bucket.

  Pointers to nodes are addresses, \<open>None\<close> is the null pointer, and \<open>nodes\<close> is the memory the nodes
  of the map live in. The macros FKL_HASH_KEY_HASH and FKL_HASH_KEY_EQUAL of an instance are the
  parameters \<open>hash\<close> and \<open>eq\<close>, the value whose bytes are zero (\<open>calloc\<close>) is the parameter \<open>z\<close>. The
  macros that copy and release keys and values are those of plain data.
\<close>

section \<open>Data\<close>

record ('k, 'v) hnode =
  node_prev :: "nat option"
  node_next :: "nat option"
  bkt_next :: "nat option"
  hashv :: u64
  node_k :: 'k
  node_v :: 'v

record ('k, 'v) hmap =
  buckets :: "nat option list"
  hm_first :: "nat option"
  hm_last :: "nat option"
  hm_count :: u32
  capacity :: u32
  rehash_threshold :: u32
  hm_mask :: u32
  nodes :: "nat \<Rightarrow> ('k, 'v) hnode option"
  brk :: nat

text \<open>A \<open>node **\<close>: the cell of a bucket, or the \<open>bkt_next\<close> field of a node.\<close>

datatype hcell = Bucket nat | BktNext nat

definition read_cell :: "('k, 'v) hmap \<Rightarrow> hcell \<Rightarrow> nat option option" where
  "read_cell hm pp = (case pp of Bucket i \<Rightarrow> rd (buckets hm) i
     | BktNext a \<Rightarrow> do { n \<leftarrow> nodes hm a; Some (bkt_next n) })"

definition upd_node :: "('k, 'v) hmap \<Rightarrow> nat \<Rightarrow> (('k, 'v) hnode \<Rightarrow> ('k, 'v) hnode) \<Rightarrow> ('k, 'v) hmap option" where
  "upd_node hm a f = do { n \<leftarrow> nodes hm a; Some (hm\<lparr>nodes := (nodes hm)(a \<mapsto> f n)\<rparr>) }"

definition write_cell :: "('k, 'v) hmap \<Rightarrow> hcell \<Rightarrow> nat option \<Rightarrow> ('k, 'v) hmap option" where
  "write_cell hm pp p = (case pp of Bucket i \<Rightarrow> do { bk \<leftarrow> wr (buckets hm) i p; Some (hm\<lparr>buckets := bk\<rparr>) }
     | BktNext a \<Rightarrow> upd_node hm a (\<lambda>n. n\<lparr>bkt_next := p\<rparr>))"

definition bucket_index :: "u32 \<Rightarrow> u64 \<Rightarrow> nat" where
  "bucket_index m h = unat (h AND ucast m)"

text \<open>The hash function where an instance gives none.\<close>

definition hm_default_hash :: "u32 \<Rightarrow> u64" where
  "hm_default_hash k =
     (let k = (NOT k) + push_bit 15 k;
          k = k XOR drop_bit 12 k;
          k = k + push_bit 2 k;
          k = k XOR drop_bit 4 k;
          k = (k + push_bit 3 k) + push_bit 11 k;
          k = k XOR drop_bit 16 k
      in ucast k)"

section \<open>Construction and resizing\<close>

definition FKL_HASH_DEFAULT_CAPACITY_SHIFT :: nat where
  "FKL_HASH_DEFAULT_CAPACITY_SHIFT = 3"

definition threshold_of :: "u32 \<Rightarrow> u32" where
  "threshold_of c = (drop_bit 2 c OR drop_bit 1 c)"

definition hm_Init :: "('k, 'v) hmap" where
  "hm_Init =
     (let c = push_bit FKL_HASH_DEFAULT_CAPACITY_SHIFT 1 in
      \<lparr>buckets = replicate (unat c) None, hm_first = None, hm_last = None, hm_count = 0, capacity = c,
       rehash_threshold = threshold_of c, hm_mask = c - 1, nodes = Map.empty, brk = 0\<rparr>)"

text \<open>\<open>while (cur) { prev = cur; cur = prev->next; free(prev); }\<close>\<close>

partial_function (option) free_nodes ::
  "(nat \<Rightarrow> ('k, 'v) hnode option) \<Rightarrow> nat option \<Rightarrow> (nat \<Rightarrow> ('k, 'v) hnode option) option" where
  "free_nodes m cur = (case cur of None \<Rightarrow> Some m
     | Some a \<Rightarrow> do { n \<leftarrow> m a; free_nodes (m(a := None)) (node_next n) })"

definition hm_Uninit :: "('k, 'v) hmap \<Rightarrow> ('k, 'v) hmap option" where
  "hm_Uninit hm = do {
     m \<leftarrow> free_nodes (nodes hm) (hm_first hm);
     Some (hm\<lparr>capacity := 0, rehash_threshold := 0, hm_count := 0, hm_mask := 0, buckets := [],
       nodes := m, hm_first := None, hm_last := None\<rparr>) }"

definition hm_Clear :: "('k, 'v) hmap \<Rightarrow> ('k, 'v) hmap option" where
  "hm_Clear hm = do {
     m \<leftarrow> free_nodes (nodes hm) (hm_first hm);
     Some (hm\<lparr>buckets := replicate (unat (capacity hm)) None, hm_count := 0, nodes := m,
       hm_first := None, hm_last := None\<rparr>) }"

text \<open>The loop that puts every node of the list in front of the chain of its bucket.\<close>

partial_function (option) relink :: "('k, 'v) hmap \<Rightarrow> nat option \<Rightarrow> ('k, 'v) hmap option" where
  "relink hm cur = (case cur of None \<Rightarrow> Some hm
     | Some a \<Rightarrow> do {
         n \<leftarrow> nodes hm a;
         let pp = Bucket (bucket_index (hm_mask hm) (hashv n));
         b \<leftarrow> read_cell hm pp;
         hm \<leftarrow> upd_node hm a (\<lambda>n. n\<lparr>bkt_next := b\<rparr>);
         hm \<leftarrow> write_cell hm pp (Some a);
         n \<leftarrow> nodes hm a;
         relink hm (node_next n) })"

definition hm_Rehash :: "('k, 'v) hmap \<Rightarrow> ('k, 'v) hmap option" where
  "hm_Rehash hm = relink (hm\<lparr>buckets := replicate (unat (capacity hm)) None\<rparr>) (hm_first hm)"

definition hm_Grow :: "('k, 'v) hmap \<Rightarrow> ('k, 'v) hmap option" where
  "hm_Grow hm =
     (let c = push_bit 1 (capacity hm) in
      relink (hm\<lparr>capacity := c, hm_mask := c - 1, rehash_threshold := threshold_of c,
        buckets := replicate (unat c) None\<rparr>) (hm_first hm))"

text \<open>The next power of two that is not below the number of entries.\<close>

definition shrunk_capacity :: "u32 \<Rightarrow> u32" where
  "shrunk_capacity n =
     (if n = 0 then push_bit FKL_HASH_DEFAULT_CAPACITY_SHIFT 1
      else
       (let c = n - 1;
            c = c OR drop_bit 1 c;
            c = c OR drop_bit 2 c;
            c = c OR drop_bit 4 c;
            c = c OR drop_bit 8 c;
            c = c OR drop_bit 16 c
        in c + 1))"

definition hm_Shrink :: "('k, 'v) hmap \<Rightarrow> ('k, 'v) hmap option" where
  "hm_Shrink hm =
     (let c = shrunk_capacity (hm_count hm) in
      if capacity hm \<le> c then Some hm
      else hm_Rehash (hm\<lparr>capacity := c, hm_mask := c - 1, rehash_threshold := threshold_of c,
        buckets := replicate (unat c) None\<rparr>))"

definition hm_Bucket :: "('k, 'v) hmap \<Rightarrow> u64 \<Rightarrow> hcell" where
  "hm_Bucket hm h = Bucket (bucket_index (hm_mask hm) h)"

section \<open>Inserting and searching\<close>

definition hm_CreateNode :: "'v \<Rightarrow> ('k, 'v) hmap \<Rightarrow> u64 \<Rightarrow> 'k \<Rightarrow> ('k, 'v) hmap \<times> nat" where
  "hm_CreateNode z hm h k =
     (hm\<lparr>nodes := (nodes hm)(brk hm \<mapsto> \<lparr>node_prev = None, node_next = None, bkt_next = None, hashv = h, node_k = k, node_v = z\<rparr>),
        brk := Suc (brk hm)\<rparr>, brk hm)"

definition hm_InsertNode :: "('k, 'v) hmap \<Rightarrow> nat \<Rightarrow> ('k, 'v) hmap option" where
  "hm_InsertNode hm a = do {
     hm \<leftarrow> (if hm_count hm \<ge> rehash_threshold hm then hm_Grow hm else Some hm);
     n \<leftarrow> nodes hm a;
     let pp = Bucket (bucket_index (hm_mask hm) (hashv n));
     b \<leftarrow> read_cell hm pp;
     hm \<leftarrow> upd_node hm a (\<lambda>n. n\<lparr>bkt_next := b\<rparr>);
     hm \<leftarrow> write_cell hm pp (Some a);
     hm \<leftarrow> (if hm_first hm \<noteq> None then do {
         hm \<leftarrow> upd_node hm a (\<lambda>n. n\<lparr>node_prev := hm_last hm\<rparr>);
         l \<leftarrow> hm_last hm;
         upd_node hm l (\<lambda>n. n\<lparr>node_next := Some a\<rparr>) }
       else Some (hm\<lparr>hm_first := Some a\<rparr>));
     Some (hm\<lparr>hm_last := Some a, hm_count := hm_count hm + 1\<rparr>) }"

text \<open>\<open>for (; pn; pn = pn->bkt_next) if (FKL_HASH_KEY_EQUAL(k, &pn->k)) ...\<close>\<close>

partial_function (option) find_node ::
  "('k \<Rightarrow> 'k \<Rightarrow> bool) \<Rightarrow> (nat \<Rightarrow> ('k, 'v) hnode option) \<Rightarrow> 'k \<Rightarrow> nat option \<Rightarrow> nat option option" where
  "find_node eq m k pn = (case pn of None \<Rightarrow> Some None
     | Some a \<Rightarrow> do { n \<leftarrow> m a; if eq k (node_k n) then Some (Some a) else find_node eq m k (bkt_next n) })"

text \<open>
  \<open>Put\<close> and \<open>Insert\<close> leave an existing entry as it is, \<open>Add\<close> replaces its value. The result of
  \<open>Put\<close> is the node that was there (the pointer to its value), that of \<open>Add\<close> and \<open>Insert\<close> the node
  that is there now. A null pointer for the value leaves the zeroed one of a new node.
\<close>

definition set_value :: "('k, 'v) hmap \<Rightarrow> nat \<Rightarrow> 'v option \<Rightarrow> ('k, 'v) hmap option" where
  "set_value hm a v = (case v of None \<Rightarrow> Some hm | Some x \<Rightarrow> upd_node hm a (\<lambda>n. n\<lparr>node_v := x\<rparr>))"

definition hm_Put :: "('k \<Rightarrow> u64) \<Rightarrow> ('k \<Rightarrow> 'k \<Rightarrow> bool) \<Rightarrow> 'v \<Rightarrow> ('k, 'v) hmap \<Rightarrow> 'k \<Rightarrow> 'v option \<Rightarrow> (('k, 'v) hmap \<times> nat option) option" where
  "hm_Put hash eq z hm k v = do {
     p \<leftarrow> read_cell hm (Bucket (bucket_index (hm_mask hm) (hash k)));
     r \<leftarrow> find_node eq (nodes hm) k p;
     (case r of Some a \<Rightarrow> Some (hm, Some a)
      | None \<Rightarrow> do {
          let (hm, a) = hm_CreateNode z hm (hash k) k;
          hm \<leftarrow> set_value hm a v;
          hm \<leftarrow> hm_InsertNode hm a;
          Some (hm, None) }) }"

definition hm_Add :: "('k \<Rightarrow> u64) \<Rightarrow> ('k \<Rightarrow> 'k \<Rightarrow> bool) \<Rightarrow> 'v \<Rightarrow> ('k, 'v) hmap \<Rightarrow> 'k \<Rightarrow> 'v option \<Rightarrow> (('k, 'v) hmap \<times> nat) option" where
  "hm_Add hash eq z hm k v = do {
     p \<leftarrow> read_cell hm (Bucket (bucket_index (hm_mask hm) (hash k)));
     r \<leftarrow> find_node eq (nodes hm) k p;
     (case r of Some a \<Rightarrow> do { hm \<leftarrow> set_value hm a v; Some (hm, a) }
      | None \<Rightarrow> do {
          let (hm, a) = hm_CreateNode z hm (hash k) k;
          hm \<leftarrow> set_value hm a v;
          hm \<leftarrow> hm_InsertNode hm a;
          Some (hm, a) }) }"

definition hm_Insert :: "('k \<Rightarrow> u64) \<Rightarrow> ('k \<Rightarrow> 'k \<Rightarrow> bool) \<Rightarrow> 'v \<Rightarrow> ('k, 'v) hmap \<Rightarrow> 'k \<Rightarrow> 'v option \<Rightarrow> (('k, 'v) hmap \<times> nat) option" where
  "hm_Insert hash eq z hm k v = do {
     p \<leftarrow> read_cell hm (Bucket (bucket_index (hm_mask hm) (hash k)));
     r \<leftarrow> find_node eq (nodes hm) k p;
     (case r of Some a \<Rightarrow> Some (hm, a)
      | None \<Rightarrow> do {
          let (hm, a) = hm_CreateNode z hm (hash k) k;
          hm \<leftarrow> set_value hm a v;
          hm \<leftarrow> hm_InsertNode hm a;
          Some (hm, a) }) }"

definition hm_Put2 :: "('k \<Rightarrow> u64) \<Rightarrow> ('k \<Rightarrow> 'k \<Rightarrow> bool) \<Rightarrow> 'v \<Rightarrow> ('k, 'v) hmap \<Rightarrow> 'k \<Rightarrow> 'v \<Rightarrow> (('k, 'v) hmap \<times> nat option) option" where
  "hm_Put2 hash eq z hm k v = hm_Put hash eq z hm k (Some v)"

definition hm_Add1 :: "('k \<Rightarrow> u64) \<Rightarrow> ('k \<Rightarrow> 'k \<Rightarrow> bool) \<Rightarrow> 'v \<Rightarrow> ('k, 'v) hmap \<Rightarrow> 'k \<Rightarrow> (('k, 'v) hmap \<times> nat) option" where
  "hm_Add1 hash eq z hm k = hm_Add hash eq z hm k None"

definition hm_Add2 :: "('k \<Rightarrow> u64) \<Rightarrow> ('k \<Rightarrow> 'k \<Rightarrow> bool) \<Rightarrow> 'v \<Rightarrow> ('k, 'v) hmap \<Rightarrow> 'k \<Rightarrow> 'v \<Rightarrow> (('k, 'v) hmap \<times> nat) option" where
  "hm_Add2 hash eq z hm k v = hm_Add hash eq z hm k (Some v)"

definition hm_Insert2 :: "('k \<Rightarrow> u64) \<Rightarrow> ('k \<Rightarrow> 'k \<Rightarrow> bool) \<Rightarrow> 'v \<Rightarrow> ('k, 'v) hmap \<Rightarrow> 'k \<Rightarrow> 'v \<Rightarrow> (('k, 'v) hmap \<times> nat) option" where
  "hm_Insert2 hash eq z hm k v = hm_Insert hash eq z hm k (Some v)"

text \<open>\<open>Get\<close> and \<open>At\<close> point into the node that is found; \<open>Has\<close> is the test of the sets.\<close>

definition hm_At :: "('k \<Rightarrow> u64) \<Rightarrow> ('k \<Rightarrow> 'k \<Rightarrow> bool) \<Rightarrow> ('k, 'v) hmap \<Rightarrow> 'k \<Rightarrow> nat option option" where
  "hm_At hash eq hm k = do {
     p \<leftarrow> read_cell hm (Bucket (bucket_index (hm_mask hm) (hash k)));
     find_node eq (nodes hm) k p }"

definition hm_Get :: "('k \<Rightarrow> u64) \<Rightarrow> ('k \<Rightarrow> 'k \<Rightarrow> bool) \<Rightarrow> ('k, 'v) hmap \<Rightarrow> 'k \<Rightarrow> 'v option option" where
  "hm_Get hash eq hm k = do {
     r \<leftarrow> hm_At hash eq hm k;
     (case r of None \<Rightarrow> Some None | Some a \<Rightarrow> do { n \<leftarrow> nodes hm a; Some (Some (node_v n)) }) }"

definition hm_AtNonNull :: "('k \<Rightarrow> u64) \<Rightarrow> ('k \<Rightarrow> 'k \<Rightarrow> bool) \<Rightarrow> ('k, 'v) hmap \<Rightarrow> 'k \<Rightarrow> nat option" where
  "hm_AtNonNull hash eq hm k = do { r \<leftarrow> hm_At hash eq hm k; FKL_ASSERT (r \<noteq> None); r }"

definition hm_GetNonNull :: "('k \<Rightarrow> u64) \<Rightarrow> ('k \<Rightarrow> 'k \<Rightarrow> bool) \<Rightarrow> ('k, 'v) hmap \<Rightarrow> 'k \<Rightarrow> 'v option" where
  "hm_GetNonNull hash eq hm k = do { r \<leftarrow> hm_Get hash eq hm k; FKL_ASSERT (r \<noteq> None); r }"

definition hm_Has :: "('k \<Rightarrow> u64) \<Rightarrow> ('k \<Rightarrow> 'k \<Rightarrow> bool) \<Rightarrow> ('k, 'v) hmap \<Rightarrow> 'k \<Rightarrow> bool option" where
  "hm_Has hash eq hm k = do { r \<leftarrow> hm_At hash eq hm k; Some (r \<noteq> None) }"

section \<open>Removing\<close>

text \<open>The cell that points to the node with the key, \<open>None\<close> at the end of the chain.\<close>

partial_function (option) find_cell ::
  "('k \<Rightarrow> 'k \<Rightarrow> bool) \<Rightarrow> ('k, 'v) hmap \<Rightarrow> 'k \<Rightarrow> hcell \<Rightarrow> hcell option option" where
  "find_cell eq hm k pp = do {
     p \<leftarrow> read_cell hm pp;
     (case p of None \<Rightarrow> Some None
      | Some a \<Rightarrow> do { n \<leftarrow> nodes hm a; if eq k (node_k n) then Some (Some pp) else find_cell eq hm k (BktNext a) }) }"

definition hm_DelNode :: "('k, 'v) hmap \<Rightarrow> hcell \<Rightarrow> (('k, 'v) hmap \<times> bool) option" where
  "hm_DelNode hm pp = do {
     p \<leftarrow> read_cell hm pp;
     (case p of None \<Rightarrow> Some (hm, False)
      | Some a \<Rightarrow> do {
          pn \<leftarrow> nodes hm a;
          hm \<leftarrow> write_cell hm pp (bkt_next pn);
          hm \<leftarrow> (case node_prev pn of None \<Rightarrow> Some hm | Some b \<Rightarrow> upd_node hm b (\<lambda>n. n\<lparr>node_next := node_next pn\<rparr>));
          hm \<leftarrow> (case node_next pn of None \<Rightarrow> Some hm | Some c \<Rightarrow> upd_node hm c (\<lambda>n. n\<lparr>node_prev := node_prev pn\<rparr>));
          let hm = (if hm_last hm = Some a then hm\<lparr>hm_last := node_prev pn\<rparr> else hm);
          let hm = (if hm_first hm = Some a then hm\<lparr>hm_first := node_next pn\<rparr> else hm);
          Some (hm\<lparr>hm_count := hm_count hm - 1, nodes := (nodes hm)(a := None)\<rparr>, True) }) }"

definition hm_Del :: "('k \<Rightarrow> u64) \<Rightarrow> ('k \<Rightarrow> 'k \<Rightarrow> bool) \<Rightarrow> ('k, 'v) hmap \<Rightarrow> 'k \<Rightarrow> (('k, 'v) hmap \<times> bool) option" where
  "hm_Del hash eq hm k = do {
     r \<leftarrow> find_cell eq hm k (Bucket (bucket_index (hm_mask hm) (hash k)));
     (case r of None \<Rightarrow> Some (hm, False) | Some pp \<Rightarrow> hm_DelNode hm pp) }"

text \<open>\<open>Erase\<close> also hands the key and the value of the node to the caller.\<close>

definition hm_Erase :: "('k \<Rightarrow> u64) \<Rightarrow> ('k \<Rightarrow> 'k \<Rightarrow> bool) \<Rightarrow> ('k, 'v) hmap \<Rightarrow> 'k \<Rightarrow> (('k, 'v) hmap \<times> ('k \<times> 'v) option) option" where
  "hm_Erase hash eq hm k = do {
     r \<leftarrow> find_cell eq hm k (Bucket (bucket_index (hm_mask hm) (hash k)));
     (case r of None \<Rightarrow> Some (hm, None)
      | Some pp \<Rightarrow> do {
          p \<leftarrow> read_cell hm pp;
          a \<leftarrow> p;
          pn \<leftarrow> nodes hm a;
          (hm, b) \<leftarrow> hm_DelNode hm pp;
          Some (hm, Some (node_k pn, node_v pn)) }) }"

text \<open>The entries in the order of the list, as the loops over \<open>first\<close> and \<open>next\<close> visit them.\<close>

partial_function (option) walk :: "(nat \<Rightarrow> ('k, 'v) hnode option) \<Rightarrow> nat option \<Rightarrow> ('k \<times> 'v) list option" where
  "walk m cur = (case cur of None \<Rightarrow> Some []
     | Some a \<Rightarrow> do { n \<leftarrow> m a; xs \<leftarrow> walk m (node_next n); Some ((node_k n, node_v n) # xs) })"

definition hm_entries :: "('k, 'v) hmap \<Rightarrow> ('k \<times> 'v) list option" where
  "hm_entries hm = walk (nodes hm) (hm_first hm)"

end
