(* ===== verification/HashMapInv.thy ===== *)
theory HashMapInv
  imports HashMap
begin

text \<open>
  The data structure invariant of the hash map: the doubly linked list and the bucket chains as
  predicates on the memory of the nodes, and how the single stores of the operations change them.
\<close>

section \<open>The doubly linked list\<close>

text \<open>
  \<open>dseg m l p as l' q\<close>: starting at the pointer \<open>p\<close> the nodes \<open>as\<close> are linked by \<open>node_next\<close> and
  end at the pointer \<open>q\<close>; they are linked back by \<open>node_prev\<close>, the first of them to \<open>l\<close>, and \<open>l'\<close>
  is the last of them (\<open>l\<close> if there is none).
\<close>

fun dseg :: "(nat \<Rightarrow> ('k, 'v) hnode option) \<Rightarrow> nat option \<Rightarrow> nat option \<Rightarrow> nat list \<Rightarrow> nat option \<Rightarrow> nat option \<Rightarrow> bool" where
  "dseg m l p [] l' q \<longleftrightarrow> p = q \<and> l' = l"
| "dseg m l p (a # as) l' q \<longleftrightarrow> p = Some a \<and> (\<exists>n. m a = Some n \<and> node_prev n = l \<and> dseg m (Some a) (node_next n) as l' q)"

text \<open>Two memories that agree on a field of the nodes in a list.\<close>

definition agree :: "('n \<Rightarrow> 'f) \<Rightarrow> (nat \<Rightarrow> 'n option) \<Rightarrow> (nat \<Rightarrow> 'n option) \<Rightarrow> nat list \<Rightarrow> bool" where
  "agree f m m' as \<longleftrightarrow> (\<forall>a \<in> set as. map_option f (m' a) = map_option f (m a))"

lemma agree_simps [simp]:
  "agree f m m' []"
  "agree f m m' (a # as) \<longleftrightarrow> map_option f (m' a) = map_option f (m a) \<and> agree f m m' as"
  "agree f m m' (as @ bs) \<longleftrightarrow> agree f m m' as \<and> agree f m m' bs"
  by (auto simp: agree_def)

lemma agree_refl [simp]: "agree f m m as"
  by (simp add: agree_def)

lemma agree_trans: "agree f m m' as \<Longrightarrow> agree f m' m'' as \<Longrightarrow> agree f m m'' as"
  by (simp add: agree_def)

lemma agree_subset: "agree f m m' as \<Longrightarrow> set bs \<subseteq> set as \<Longrightarrow> agree f m m' bs"
  by (auto simp: agree_def)

lemma agree_upd: "m a = Some n \<Longrightarrow> f n' = f n \<Longrightarrow> agree f m (m(a \<mapsto> n')) as"
  by (simp add: agree_def)

lemma agree_other: "a \<notin> set as \<Longrightarrow> agree f m (m(a := x)) as"
  by (auto simp: agree_def)

lemma agree_D: "agree f m m' as \<Longrightarrow> a \<in> set as \<Longrightarrow> m a = Some n \<Longrightarrow> \<exists>n'. m' a = Some n' \<and> f n' = f n"
  by (fastforce simp: agree_def)

definition links :: "('k, 'v) hnode \<Rightarrow> nat option \<times> nat option" where
  "links n = (node_prev n, node_next n)"

lemma dseg_cong: "agree links m m' as \<Longrightarrow> dseg m l p as l' q \<Longrightarrow> dseg m' l p as l' q"
proof (induction as arbitrary: l p)
  case (Cons a as)
  then obtain n where n: "p = Some a" "m a = Some n" "node_prev n = l" "dseg m (Some a) (node_next n) as l' q" by auto
  from Cons.prems(1) n(2) obtain n' where n': "m' a = Some n'" "node_prev n' = node_prev n" "node_next n' = node_next n"
    by (auto simp: links_def)
  have "dseg m' (Some a) (node_next n) as l' q" using Cons n(4) by auto
  then show ?case using n n' by simp
qed simp

lemma dseg_append: "dseg m l p (xs @ ys) l' q \<longleftrightarrow> (\<exists>l1 q1. dseg m l p xs l1 q1 \<and> dseg m l1 q1 ys l' q)"
  by (induction xs arbitrary: l p) auto

lemma dseg_nodes: "dseg m l p as l' q \<Longrightarrow> a \<in> set as \<Longrightarrow> \<exists>n. m a = Some n"
  by (induction as arbitrary: l p) auto

lemma dseg_last: "dseg m l p as l' q \<Longrightarrow> l' = (if as = [] then l else Some (last as))"
  by (induction as arbitrary: l p) auto

lemma dseg_hd: "dseg m l p as l' q \<Longrightarrow> p = (if as = [] then q else Some (hd as))"
  by (cases as) auto

text \<open>Redirecting the link forward of the last node, and the link backward of the first one.\<close>

lemma dseg_set_next:
  assumes "dseg m l p (xs @ [b]) l' q" "b \<notin> set xs"
  shows "\<exists>n. m b = Some n \<and> node_next n = q \<and> dseg (m(b \<mapsto> n\<lparr>node_next := q'\<rparr>)) l p (xs @ [b]) (Some b) q'"
proof -
  obtain l1 q1 n where d: "dseg m l p xs l1 q1" and n: "q1 = Some b" "m b = Some n" "node_prev n = l1" "node_next n = q"
    using assms(1) by (auto simp: dseg_append)
  have "dseg (m(b \<mapsto> n\<lparr>node_next := q'\<rparr>)) l p xs l1 q1"
    using d agree_other [OF assms(2)] by (rule dseg_cong [rotated])
  then show ?thesis using n by (auto simp: dseg_append)
qed

lemma dseg_set_prev:
  assumes "dseg m l q (c # ys) l' q'" "c \<notin> set ys"
  shows "\<exists>n. m c = Some n \<and> q = Some c \<and> dseg (m(c \<mapsto> n\<lparr>node_prev := l2\<rparr>)) l2 q (c # ys) l' q'"
proof -
  obtain n where n: "m c = Some n" "q = Some c" and d: "dseg m (Some c) (node_next n) ys l' q'" using assms(1) by auto
  have "dseg (m(c \<mapsto> n\<lparr>node_prev := l2\<rparr>)) (Some c) (node_next n) ys l' q'"
    using d agree_other [OF assms(2)] by (rule dseg_cong [rotated])
  then show ?thesis using n by simp
qed

section \<open>The chains of the buckets\<close>

fun chain :: "(nat \<Rightarrow> ('k, 'v) hnode option) \<Rightarrow> nat option \<Rightarrow> nat list \<Rightarrow> bool" where
  "chain m p [] \<longleftrightarrow> p = None"
| "chain m p (a # as) \<longleftrightarrow> p = Some a \<and> (\<exists>n. m a = Some n \<and> chain m (bkt_next n) as)"

lemma chain_cong: "agree bkt_next m m' as \<Longrightarrow> chain m p as \<Longrightarrow> chain m' p as"
proof (induction as arbitrary: p)
  case (Cons a as)
  then show ?case by fastforce
qed simp

text \<open>
  The buckets \<open>bk\<close> hold the chains \<open>bs\<close>: bucket \<open>i\<close> those of the nodes in \<open>xs\<close> whose hash value
  has the index \<open>i\<close>.
\<close>

definition bkts :: "(nat \<Rightarrow> ('k, 'v) hnode option) \<Rightarrow> u32 \<Rightarrow> nat option list \<Rightarrow> nat list list \<Rightarrow> nat set \<Rightarrow> bool" where
  "bkts m mk bk bs xs \<longleftrightarrow> length bs = length bk \<and> (\<forall>i < length bk. chain m (bk ! i) (bs ! i) \<and> distinct (bs ! i)
     \<and> set (bs ! i) = {a \<in> xs. \<exists>n. m a = Some n \<and> bucket_index mk (hashv n) = i})"

definition place :: "('k, 'v) hnode \<Rightarrow> nat option \<times> u64" where
  "place n = (bkt_next n, hashv n)"

lemma bktsD:
  assumes "bkts m mk bk bs xs" "i < length bk"
  shows "chain m (bk ! i) (bs ! i)" "distinct (bs ! i)"
    "set (bs ! i) = {a \<in> xs. \<exists>n. m a = Some n \<and> bucket_index mk (hashv n) = i}" "length bs = length bk"
  using assms by (simp_all add: bkts_def)

lemma bkts_cong:
  fixes m m' :: "nat \<Rightarrow> ('k, 'v) hnode option"
  assumes "bkts m mk bk bs xs" "\<forall>a \<in> xs. map_option place (m' a) = map_option place (m a)"
  shows "bkts m' mk bk bs xs"
  unfolding bkts_def
proof (intro conjI allI impI)
  show "length bs = length bk" using assms(1) by (simp add: bkts_def)
  fix i assume i: "i < length bk"
  note b = bktsD [OF assms(1) i]
  have "agree bkt_next m m' (bs ! i)" unfolding agree_def
  proof
    fix a assume "a \<in> set (bs ! i)"
    then have "map_option fst (map_option place (m' a)) = map_option fst (map_option place (m a))"
      using assms(2) b(3) by auto
    then show "map_option bkt_next (m' a) = map_option bkt_next (m a)"
      by (simp add: option.map_comp comp_def place_def)
  qed
  then show "chain m' (bk ! i) (bs ! i)" using b(1) by (rule chain_cong)
  show "distinct (bs ! i)" by (rule b(2))
  have "(\<exists>n. m' a = Some n \<and> bucket_index mk (hashv n) = i) \<longleftrightarrow> (\<exists>n. m a = Some n \<and> bucket_index mk (hashv n) = i)"
    if "a \<in> xs" for a
  proof -
    have "map_option place (m' a) = map_option place (m a)" using assms(2) that by blast
    then show ?thesis by (cases "m a"; cases "m' a") (auto simp: place_def)
  qed
  then show "set (bs ! i) = {a \<in> xs. \<exists>n. m' a = Some n \<and> bucket_index mk (hashv n) = i}"
    unfolding b(3) by blast
qed

text \<open>Putting a node in front of its chain.\<close>

lemma bkts_insert:
  assumes b: "bkts m mk bk bs xs" and a: "a \<notin> xs" "m a = Some n" "i < length bk" "bucket_index mk (hashv n) = i"
  shows "bkts (m(a \<mapsto> n\<lparr>bkt_next := bk ! i\<rparr>)) mk (bk[i := Some a]) (bs[i := a # bs ! i]) (insert a xs)"
  unfolding bkts_def
proof (intro conjI allI impI)
  let ?m = "m(a \<mapsto> n\<lparr>bkt_next := bk ! i\<rparr>)"
  show "length (bs[i := a # bs ! i]) = length (bk[i := Some a])" using bktsD(4) [OF b a(3)] by simp
  fix j assume "j < length (bk[i := Some a])"
  then have j: "j < length bk" by simp
  note bj = bktsD [OF b j]
  have na: "a \<notin> set (bs ! j)" using bj(3) a(1) by blast
  then have ch: "chain ?m (bk ! j) (bs ! j)" using bj(1) by (intro chain_cong [OF agree_other])
  show "chain ?m (bk[i := Some a] ! j) (bs[i := a # bs ! i] ! j)"
    using ch j bj(4) by (cases "j = i") auto
  show "distinct (bs[i := a # bs ! i] ! j)" using bj(2,4) na j by (cases "j = i") auto
  have s: "set (bs ! j) = {x \<in> xs. \<exists>n. ?m x = Some n \<and> bucket_index mk (hashv n) = j}"
    unfolding bj(3) using a(1) by auto
  show "set (bs[i := a # bs ! i] ! j) = {x \<in> insert a xs. \<exists>n. ?m x = Some n \<and> bucket_index mk (hashv n) = j}"
  proof (cases "j = i")
    case True
    then show ?thesis using s a bj(4) j by auto
  next
    case False
    then show ?thesis using s a bj(4) j by auto
  qed
qed

text \<open>Splicing a node out of its chain.\<close>

fun cell_at :: "nat \<Rightarrow> nat list \<Rightarrow> hcell" where
  "cell_at i [] = Bucket i"
| "cell_at i (a # as) = BktNext (last (a # as))"

lemma chain_append: "chain m p (xs @ ys) \<longleftrightarrow> (\<exists>q. chain m q ys \<and> (xs = [] \<longrightarrow> p = q)
    \<and> (xs \<noteq> [] \<longrightarrow> (\<exists>n. m (last xs) = Some n \<and> bkt_next n = q) \<and> chain m p (xs @ ys)))"
proof (induction xs arbitrary: p)
  case (Cons a xs)
  show ?case
  proof (cases "xs = []")
    case False
    then show ?thesis using Cons [of "bkt_next (the (m a))"] by auto
  qed auto
qed simp

lemma chain_remove:
  assumes "chain m p (xs @ a # ys)" "distinct (xs @ a # ys)" "m a = Some n"
  shows "xs = [] \<longrightarrow> p = Some a \<and> chain m (bkt_next n) ys"
    "xs \<noteq> [] \<longrightarrow> (\<exists>nb. m (last xs) = Some nb \<and> bkt_next nb = Some a \<and> chain (m(last xs \<mapsto> nb\<lparr>bkt_next := bkt_next n\<rparr>)) p (xs @ ys))"
proof -
  show "xs = [] \<longrightarrow> p = Some a \<and> chain m (bkt_next n) ys" using assms by auto
  show "xs \<noteq> [] \<longrightarrow> (\<exists>nb. m (last xs) = Some nb \<and> bkt_next nb = Some a \<and> chain (m(last xs \<mapsto> nb\<lparr>bkt_next := bkt_next n\<rparr>)) p (xs @ ys))"
    using assms
  proof (induction xs arbitrary: p)
    case (Cons b xs)
    then obtain nb where p: "p = Some b" and nb: "m b = Some nb" "chain m (bkt_next nb) (xs @ a # ys)" by auto
    show ?case
    proof (cases "xs = []")
      case True
      then have c: "bkt_next nb = Some a" "chain m (bkt_next n) ys" using nb Cons.prems by auto
      have "chain (m(b \<mapsto> nb\<lparr>bkt_next := bkt_next n\<rparr>)) (bkt_next n) ys"
        using c(2) Cons.prems True by (intro chain_cong [OF agree_other]) auto
      then show ?thesis using True c p nb by (simp del: fun_upd_apply) simp
    next
      case False
      then obtain nl where l: "m (last xs) = Some nl" "bkt_next nl = Some a"
        "chain (m(last xs \<mapsto> nl\<lparr>bkt_next := bkt_next n\<rparr>)) (bkt_next nb) (xs @ ys)"
      proof -
        have "distinct (xs @ a # ys)" using Cons.prems by simp
        then show thesis using Cons.IH [OF nb(2) _ assms(3)] False that by blast
      qed
      have "last xs \<noteq> b" using Cons.prems False by (metis distinct.simps(2) distinct_append last_in_set append_Cons)
      define m' where "m' = m(last xs \<mapsto> nl\<lparr>bkt_next := bkt_next n\<rparr>)"
      have "m' b = Some nb" using \<open>last xs \<noteq> b\<close> nb(1) by (simp add: m'_def)
      moreover have "chain m' (bkt_next nb) (xs @ ys)" using l(3) by (simp only: m'_def)
      ultimately have "chain m' p ((b # xs) @ ys)" using p by simp
      moreover have "last (b # xs) = last xs" using False by simp
      ultimately show ?thesis using l(1,2) unfolding m'_def by metis
    qed
  qed simp
qed

section \<open>The invariant\<close>

text \<open>The two parameters: \<open>eq\<close> is an equivalence that \<open>hash\<close> respects.\<close>

locale hash_key =
  fixes hash :: "'k \<Rightarrow> u64" and eq :: "'k \<Rightarrow> 'k \<Rightarrow> bool"
  assumes eq_refl: "eq k k"
    and eq_sym: "eq k l \<Longrightarrow> eq l k"
    and eq_trans: "eq k l \<Longrightarrow> eq l j \<Longrightarrow> eq k j"
    and hash_eq: "eq k l \<Longrightarrow> hash k = hash l"

interpretation default_key: hash_key hm_default_hash "(=)"
  by unfold_locales auto

text \<open>
  The shape: \<open>as\<close> are the addresses of the nodes in the order of insertion, \<open>bs\<close> the chains. The
  capacity is a power of two and the mask selects the low bits.
\<close>

definition hm_shape :: "('k, 'v) hmap \<Rightarrow> nat list \<Rightarrow> nat list list \<Rightarrow> bool" where
  "hm_shape hm as bs \<longleftrightarrow>
     dseg (nodes hm) None (hm_first hm) as (hm_last hm) None \<and> distinct as
     \<and> bkts (nodes hm) (hm_mask hm) (buckets hm) bs (set as)
     \<and> unat (hm_count hm) = length as"

definition hm_table :: "('k, 'v) hmap \<Rightarrow> bool" where
  "hm_table hm \<longleftrightarrow> length (buckets hm) = unat (capacity hm) \<and> (\<exists>c < 32. unat (capacity hm) = 2 ^ c)
     \<and> hm_mask hm = capacity hm - 1 \<and> rehash_threshold hm = threshold_of (capacity hm)"

definition entry :: "('k, 'v) hnode \<Rightarrow> 'k \<times> 'v" where
  "entry n = (node_k n, node_v n)"

definition hm_keys :: "('k \<Rightarrow> u64) \<Rightarrow> ('k \<Rightarrow> 'k \<Rightarrow> bool) \<Rightarrow> ('k, 'v) hmap \<Rightarrow> nat list \<Rightarrow> bool" where
  "hm_keys hash eq hm as \<longleftrightarrow> (\<forall>a \<in> set as. a < brk hm \<and> (\<exists>n. nodes hm a = Some n \<and> hashv n = hash (node_k n)
     \<and> (\<forall>b \<in> set as. \<forall>n'. nodes hm b = Some n' \<longrightarrow> eq (node_k n) (node_k n') \<longrightarrow> a = b)))"

text \<open>The map \<open>hm\<close> represents the entries \<open>es\<close>, in the order of insertion.\<close>

definition hm_rep :: "('k \<Rightarrow> u64) \<Rightarrow> ('k \<Rightarrow> 'k \<Rightarrow> bool) \<Rightarrow> ('k, 'v) hmap \<Rightarrow> ('k \<times> 'v) list \<Rightarrow> bool" where
  "hm_rep hash eq hm es \<longleftrightarrow> (\<exists>as bs. hm_shape hm as bs \<and> hm_table hm \<and> hm_keys hash eq hm as
     \<and> es = map (\<lambda>a. entry (the (nodes hm a))) as)"

end
