(* ===== verification/HashMapOps.thy ===== *)
theory HashMapOps
  imports HashMapInv
begin

text \<open>
  The operations of the hash map keep its invariant: the relinking of all nodes (rehashing, growing,
  shrinking), searching, inserting a node and removing one.
\<close>

section \<open>Masks and capacities\<close>

lemma bucket_index_less: "bucket_index mk h \<le> unat mk"
proof -
  have "h AND ucast mk \<le> ucast mk" by (rule word_and_le1)
  then show ?thesis by (simp add: bucket_index_def word_le_nat_alt)
qed

lemma table_index: "hm_table hm \<Longrightarrow> bucket_index (hm_mask hm) h < length (buckets hm)"
proof -
  assume t: "hm_table hm"
  then obtain c where "unat (capacity hm) = 2 ^ c" by (auto simp: hm_table_def)
  then have "0 < unat (capacity hm)" by simp
  then have "unat (capacity hm - 1) < unat (capacity hm)" by (simp add: unat_minus_one unat_gt_0)
  moreover have "bucket_index (hm_mask hm) h \<le> unat (capacity hm - 1)"
    using t bucket_index_less [of "hm_mask hm" h] by (simp add: hm_table_def)
  ultimately show ?thesis using t by (simp add: hm_table_def)
qed

section \<open>Relinking\<close>

text \<open>Everything of a node but its chain link.\<close>

definition core :: "('k, 'v) hnode \<Rightarrow> nat option \<times> nat option \<times> u64 \<times> 'k \<times> 'v" where
  "core n = (node_prev n, node_next n, hashv n, node_k n, node_v n)"

definition same_core :: "(nat \<Rightarrow> ('k, 'v) hnode option) \<Rightarrow> (nat \<Rightarrow> ('k, 'v) hnode option) \<Rightarrow> bool" where
  "same_core m m' \<longleftrightarrow> (\<forall>a. map_option core (m' a) = map_option core (m a))"

lemma same_core_refl [simp]: "same_core m m"
  by (simp add: same_core_def)

lemma same_core_trans: "same_core m m' \<Longrightarrow> same_core m' m'' \<Longrightarrow> same_core m m''"
  by (simp add: same_core_def)

lemma same_core_D: "same_core m m' \<Longrightarrow> m a = Some n \<Longrightarrow> \<exists>n'. m' a = Some n' \<and> core n' = core n"
  unfolding same_core_def by (metis map_option_eq_Some option.simps(9))

lemma same_core_D': "same_core m m' \<Longrightarrow> m' a = Some n' \<Longrightarrow> \<exists>n. m a = Some n \<and> core n' = core n"
  unfolding same_core_def by (metis map_option_eq_Some option.simps(9))

lemma same_core_upd: "m a = Some n \<Longrightarrow> same_core m (m(a \<mapsto> n\<lparr>bkt_next := b\<rparr>))"
  by (simp add: same_core_def core_def)

lemma same_core_agree: "same_core m m' \<Longrightarrow> agree links m m' as"
proof -
  assume c: "same_core m m'"
  have l: "map_option links x = map_option (\<lambda>(p, q, r). (p, q)) (map_option core x)" for x :: "('a, 'b) hnode option"
    by (cases x) (auto simp: links_def core_def)
  have "map_option core (m' a) = map_option core (m a)" for a using c by (simp add: same_core_def)
  then show ?thesis unfolding agree_def l by simp
qed

lemma same_core_entry: "same_core m m' \<Longrightarrow> m a = Some n \<Longrightarrow> entry (the (m' a)) = entry (the (m a))"
  by (drule same_core_D) (auto simp: core_def entry_def)

lemma wp_relink:
  assumes "dseg (nodes hm) l cur as l' None" "distinct as" "set as \<inter> xs = {}"
    "bkts (nodes hm) (hm_mask hm) (buckets hm) bs xs" "\<And>h. bucket_index (hm_mask hm) h < length (buckets hm)"
  shows "wp (relink hm cur) (\<lambda>r. (\<exists>bs'. bkts (nodes r) (hm_mask hm) (buckets r) bs' (xs \<union> set as))
    \<and> length (buckets r) = length (buckets hm) \<and> r = hm\<lparr>nodes := nodes r, buckets := buckets r\<rparr>
    \<and> same_core (nodes hm) (nodes r))"
  using assms
proof (induction as arbitrary: hm l cur bs xs)
  case Nil
  then show ?case by (subst relink.simps) auto
next
  case (Cons a as)
  then obtain n where n: "cur = Some a" "nodes hm a = Some n" and d: "dseg (nodes hm) (Some a) (node_next n) as l' None"
    by auto
  let ?i = "bucket_index (hm_mask hm) (hashv n)"
  have i: "?i < length (buckets hm)" by (rule Cons.prems(5))
  have ax: "a \<notin> xs" using Cons.prems(3) by simp
  let ?n = "n\<lparr>bkt_next := buckets hm ! ?i\<rparr>"
  define hm2 where "hm2 = hm\<lparr>nodes := (nodes hm)(a \<mapsto> ?n), buckets := (buckets hm)[?i := Some a]\<rparr>"
  have step: "relink hm cur = relink hm2 (node_next n)"
    by (subst relink.simps) (simp add: n Let_def read_cell_def upd_node_def write_cell_def rd_def wr_def i hm2_def)
  have sc: "same_core (nodes hm) (nodes hm2)" using same_core_upd [of "nodes hm", OF n(2)] by (simp add: hm2_def)
  have "bkts (nodes hm2) (hm_mask hm2) (buckets hm2) (bs[?i := a # bs ! ?i]) (insert a xs)"
    using bkts_insert [OF Cons.prems(4) ax n(2) i refl] by (simp add: hm2_def)
  moreover have "dseg (nodes hm2) (Some a) (node_next n) as l' None"
    by (rule dseg_cong [OF same_core_agree [OF sc] d])
  moreover have "bucket_index (hm_mask hm2) h < length (buckets hm2)" for h using Cons.prems(5) by (simp add: hm2_def)
  ultimately have "wp (relink hm2 (node_next n)) (\<lambda>r. (\<exists>bs'. bkts (nodes r) (hm_mask hm2) (buckets r) bs' (insert a xs \<union> set as))
    \<and> length (buckets r) = length (buckets hm2) \<and> r = hm2\<lparr>nodes := nodes r, buckets := buckets r\<rparr>
    \<and> same_core (nodes hm2) (nodes r))"
    using Cons.prems(2,3) by (intro Cons.IH) auto
  then show ?case unfolding step
    by (rule wp_mono) (use sc in \<open>auto simp: hm2_def intro: same_core_trans\<close>)
qed

text \<open>What relinking does to a whole map: only the capacity and the chains are new.\<close>

lemma bkts_empty: "bkts m mk (replicate n None) (replicate n []) {}"
  by (simp add: bkts_def)

definition resized :: "('k, 'v) hmap \<Rightarrow> u32 \<Rightarrow> ('k, 'v) hmap" where
  "resized hm c = hm\<lparr>capacity := c, hm_mask := c - 1, rehash_threshold := threshold_of c, buckets := replicate (unat c) None\<rparr>"

lemma wp_resize:
  assumes s: "hm_shape hm as bs" and c: "unat c = 2 ^ k" "k < 32"
  shows "wp (relink (resized hm c) (hm_first hm)) (\<lambda>r. (\<exists>bs'. hm_shape r as bs') \<and> hm_table r \<and> capacity r = c
    \<and> hm_count r = hm_count hm \<and> brk r = brk hm \<and> same_core (nodes hm) (nodes r))"
proof -
  let ?h = "resized hm c"
  have t: "hm_table ?h" using c by (auto simp: hm_table_def resized_def)
  have d: "dseg (nodes ?h) None (hm_first hm) as (hm_last hm) None" "distinct as"
    using s by (simp_all add: hm_shape_def resized_def)
  have b: "bkts (nodes ?h) (hm_mask ?h) (buckets ?h) (replicate (unat c) []) {}" by (simp add: resized_def bkts_empty)
  show ?thesis
  proof (rule wp_mono [OF wp_relink [OF d(1,2) _ b table_index [OF t]]])
    fix r :: "('a, 'b) hmap"
    assume r: "(\<exists>bs'. bkts (nodes r) (hm_mask ?h) (buckets r) bs' ({} \<union> set as))
      \<and> length (buckets r) = length (buckets ?h) \<and> r = ?h\<lparr>nodes := nodes r, buckets := buckets r\<rparr>
      \<and> same_core (nodes ?h) (nodes r)"
    then have re: "r = ?h\<lparr>nodes := nodes r, buckets := buckets r\<rparr>" by blast
    have e: "hm_first r = hm_first hm" "hm_last r = hm_last hm" "hm_count r = hm_count hm" "hm_mask r = hm_mask ?h"
      "capacity r = c" "rehash_threshold r = threshold_of c" "brk r = brk hm"
      by (subst re, simp add: resized_def)+
    have el: "length (buckets r) = unat c" using r by (simp add: resized_def)
    have sc: "same_core (nodes hm) (nodes r)" using r by (simp add: resized_def)
    have "dseg (nodes r) None (hm_first hm) as (hm_last hm) None"
      using dseg_cong [OF same_core_agree [OF sc]] s by (simp add: hm_shape_def)
    then have "\<exists>bs'. hm_shape r as bs'" using r s e by (auto simp: hm_shape_def)
    moreover have "hm_table r" using e el c by (auto simp: hm_table_def resized_def)
    ultimately show "(\<exists>bs'. hm_shape r as bs') \<and> hm_table r \<and> capacity r = c
      \<and> hm_count r = hm_count hm \<and> brk r = brk hm \<and> same_core (nodes hm) (nodes r)" using e sc by simp
  qed simp
qed

text \<open>What the keys and the entries depend on.\<close>

definition content :: "('k, 'v) hnode \<Rightarrow> u64 \<times> 'k \<times> 'v" where
  "content n = (hashv n, node_k n, node_v n)"

definition same_content :: "(nat \<Rightarrow> ('k, 'v) hnode option) \<Rightarrow> (nat \<Rightarrow> ('k, 'v) hnode option) \<Rightarrow> nat set \<Rightarrow> bool" where
  "same_content m m' xs \<longleftrightarrow> (\<forall>a \<in> xs. map_option content (m' a) = map_option content (m a))"

lemma same_core_content: "same_core m m' \<Longrightarrow> same_content m m' xs"
proof -
  assume c: "same_core m m'"
  have l: "map_option content x = map_option (\<lambda>(p, q, r). r) (map_option core x)" for x :: "('a, 'b) hnode option"
    by (cases x) (auto simp: content_def core_def)
  have "map_option core (m' a) = map_option core (m a)" for a using c by (simp add: same_core_def)
  then show ?thesis unfolding same_content_def l by simp
qed

lemma same_content_trans: "same_content m m' xs \<Longrightarrow> same_content m' m'' xs \<Longrightarrow> same_content m m'' xs"
  by (simp add: same_content_def)

lemma same_content_refl [simp]: "same_content m m xs"
  by (simp add: same_content_def)

lemma same_content_subset: "same_content m m' xs \<Longrightarrow> ys \<subseteq> xs \<Longrightarrow> same_content m m' ys"
  by (auto simp: same_content_def)

lemma same_content_D: "same_content m m' xs \<Longrightarrow> a \<in> xs \<Longrightarrow> m a = Some n \<Longrightarrow> \<exists>n'. m' a = Some n' \<and> content n' = content n"
  unfolding same_content_def by (metis map_option_eq_Some option.simps(9))

lemma hm_keys_unique:
  "hm_keys hash eq hm as \<Longrightarrow> a \<in> set as \<Longrightarrow> b \<in> set as \<Longrightarrow> nodes hm a = Some n \<Longrightarrow> nodes hm b = Some n'
   \<Longrightarrow> eq (node_k n) (node_k n') \<Longrightarrow> a = b"
  unfolding hm_keys_def by (metis option.sel)

lemma keys_same_content:
  assumes "hm_keys hash eq hm as" "same_content (nodes hm) (nodes r) (set as)" "brk hm \<le> brk r"
  shows "hm_keys hash eq r as"
  unfolding hm_keys_def
proof
  fix a assume a: "a \<in> set as"
  then obtain n where n: "a < brk hm" "nodes hm a = Some n" "hashv n = hash (node_k n)"
    using assms(1) by (auto simp: hm_keys_def)
  obtain n1 where n1: "nodes r a = Some n1" "content n1 = content n" using same_content_D [OF assms(2) a n(2)] by auto
  have "a = b" if b: "b \<in> set as" "nodes r b = Some n'" "eq (node_k n1) (node_k n')" for b n'
  proof -
    obtain n2 where n2: "nodes hm b = Some n2" using assms(1) b(1) by (auto simp: hm_keys_def)
    then have "content n' = content n2" using same_content_D [OF assms(2) b(1) n2] b(2) by simp
    then have "eq (node_k n) (node_k n2)" using b(3) n1(2) by (simp add: content_def)
    then show ?thesis by (rule hm_keys_unique [OF assms(1) a b(1) n(2) n2])
  qed
  then show "a < brk r \<and> (\<exists>n. nodes r a = Some n \<and> hashv n = hash (node_k n)
     \<and> (\<forall>b \<in> set as. \<forall>n'. nodes r b = Some n' \<longrightarrow> eq (node_k n) (node_k n') \<longrightarrow> a = b))"
    using n n1 assms(3) by (auto simp: content_def)
qed

lemma entries_same_content:
  assumes "hm_keys hash eq hm as" "same_content (nodes hm) (nodes r) (set as)"
  shows "map (\<lambda>a. entry (the (nodes r a))) as = map (\<lambda>a. entry (the (nodes hm a))) as"
proof (rule map_cong [OF refl])
  fix a assume a: "a \<in> set as"
  then obtain n where n: "nodes hm a = Some n" using assms(1) by (auto simp: hm_keys_def)
  then show "entry (the (nodes r a)) = entry (the (nodes hm a))"
    using same_content_D [OF assms(2) a n] by (auto simp: content_def entry_def)
qed

section \<open>Searching\<close>

lemma find_node_eq:
  "chain m p as \<Longrightarrow> find_node eq m k p = Some (find (\<lambda>a. eq k (node_k (the (m a)))) as)"
proof (induction as arbitrary: p)
  case Nil
  then show ?case by (subst find_node.simps) simp
next
  case (Cons a as)
  then show ?case by (subst find_node.simps) auto
qed

text \<open>The chain that is searched decides for all nodes.\<close>

context hash_key
begin

lemma find_bucket:
  assumes "hm_keys hash eq hm as" "bkts (nodes hm) (hm_mask hm) (buckets hm) bs (set as)"
    and i: "i = bucket_index (hm_mask hm) (hash k)" "i < length (buckets hm)"
  shows "find (\<lambda>a. eq k (node_k (the (nodes hm a)))) (bs ! i) = find (\<lambda>a. eq k (node_k (the (nodes hm a)))) as"
proof -
  let ?P = "\<lambda>a. eq k (node_k (the (nodes hm a)))"
  note b = bktsD [OF assms(2) i(2)]
  have key: "\<exists>n. nodes hm a = Some n \<and> hashv n = hash (node_k n)" if "a \<in> set as" for a
    using assms(1) that by (auto simp: hm_keys_def)
  have uniq: "x = y" if xy: "x \<in> set as" "y \<in> set as" "?P x" "?P y" for x y
  proof -
    obtain n n' where n: "nodes hm x = Some n" "nodes hm y = Some n'" using key xy(1,2) by blast
    then have "eq k (node_k n)" "eq k (node_k n')" using xy(3,4) by simp_all
    then have "eq (node_k n) (node_k n')" by (rule eq_trans [OF eq_sym])
    then show ?thesis by (rule hm_keys_unique [OF assms(1) xy(1,2) n])
  qed
  have mem: "x \<in> set (bs ! i) \<longleftrightarrow> x \<in> set as" if "?P x" for x
  proof
    assume x: "x \<in> set as"
    then obtain n where "nodes hm x = Some n" "hashv n = hash (node_k n)" using key by blast
    moreover from this have "hash (node_k n) = hash k" using that hash_eq by fastforce
    ultimately show "x \<in> set (bs ! i)" unfolding b(3) using x i(1) by auto
  qed (simp add: b(3))
  show ?thesis
  proof (cases "\<exists>x \<in> set as. ?P x")
    case True
    then obtain x where x: "x \<in> set as" "?P x" by blast
    have f: "find ?P ys = Some x" if ys: "x \<in> set ys" "set ys \<subseteq> set as" for ys
    proof -
      have "find ?P ys \<noteq> None" using ys(1) x(2) by (auto simp: find_None_iff)
      then obtain y where y: "find ?P ys = Some y" by blast
      then have "y \<in> set ys" "?P y" by (auto simp: find_Some_iff)
      then show ?thesis using uniq [of y x] ys x y by auto
    qed
    have "set (bs ! i) \<subseteq> set as" using b(3) by auto
    then show ?thesis using f [of "bs ! i"] f [of as] mem [OF x(2)] x(1) by simp
  next
    case False
    then show ?thesis using b(3) by (auto simp: find_None_iff [THEN iffD2])
  qed
qed

text \<open>\<open>At\<close> finds the node with the key.\<close>

lemma hm_At_eq:
  assumes "hm_shape hm as bs" "hm_table hm" "hm_keys hash eq hm as"
  shows "hm_At hash eq hm k = Some (find (\<lambda>a. eq k (node_k (the (nodes hm a)))) as)"
proof -
  let ?i = "bucket_index (hm_mask hm) (hash k)"
  have i: "?i < length (buckets hm)" using assms(2) by (rule table_index)
  have b: "bkts (nodes hm) (hm_mask hm) (buckets hm) bs (set as)" using assms(1) by (simp add: hm_shape_def)
  have "hm_At hash eq hm k = find_node eq (nodes hm) k (buckets hm ! ?i)"
    using i by (simp add: hm_At_def read_cell_def rd_def)
  also have "\<dots> = Some (find (\<lambda>a. eq k (node_k (the (nodes hm a)))) (bs ! ?i))"
    by (rule find_node_eq [OF bktsD(1) [OF b i]])
  finally show ?thesis using find_bucket [OF assms(3) b refl i] by simp
qed

end

section \<open>Inserting a node\<close>

lemma threshold_of_power: "unat c = 2 ^ k \<Longrightarrow> k < 32 \<Longrightarrow> unat (threshold_of c) = 2 ^ k div 2 + 2 ^ k div 4"
proof -
  assume c: "unat c = 2 ^ k" "k < 32"
  have b: "bit c i \<longleftrightarrow> i = k" for i
  proof -
    have "bit c i \<longleftrightarrow> bit (unat c) i" by (simp add: bit_unsigned_iff)
    also have "\<dots> \<longleftrightarrow> i = k" unfolding c(1) by (auto simp: bit_exp_iff)
    finally show ?thesis .
  qed
  have "drop_bit 2 c AND drop_bit 1 c = 0" by (rule bit_eqI) (auto simp: bit_and_iff bit_drop_bit_eq b)
  then have "threshold_of c = drop_bit 2 c + drop_bit 1 c"
    unfolding threshold_of_def by (rule disjunctive_add_eq_or [symmetric])
  moreover have "unat (drop_bit 2 c + drop_bit 1 c) = unat (drop_bit 2 c) + unat (drop_bit 1 c)"
  proof (rule unat_add_less)
    have "unat (drop_bit 2 c) + unat (drop_bit 1 c) \<le> unat c"
      by (simp add: unat_drop_bit_div)
    then show "unat (drop_bit 2 c) + unat (drop_bit 1 c) < 2 ^ LENGTH(32)" 
      by (rule le_less_trans) (use unat_less_32 [of c] in simp)
  qed
  ultimately show ?thesis using c(1) by (simp add: unat_drop_bit_div)
qed

text \<open>The growth of a table that is full to its threshold, below \<open>2 ^ 30\<close> entries.\<close>

lemma wp_grow_if_full:
  assumes s: "hm_shape hm as bs" and t: "hm_table hm" and n: "length as < 2 ^ 30"
  shows "wp (if hm_count hm \<ge> rehash_threshold hm then hm_Grow hm else Some hm)
    (\<lambda>r. (\<exists>bs'. hm_shape r as bs') \<and> hm_table r \<and> hm_count r = hm_count hm \<and> brk r = brk hm
      \<and> same_core (nodes hm) (nodes r))"
proof (cases "hm_count hm \<ge> rehash_threshold hm")
  case True
  obtain k where k: "unat (capacity hm) = 2 ^ k" "k < 32" using t by (auto simp: hm_table_def)
  have "unat (rehash_threshold hm) \<le> length as" using True s by (simp add: word_le_nat_alt hm_shape_def)
  then have "2 ^ k div 2 + 2 ^ k div 4 < (2::nat) ^ 30"
    using t n threshold_of_power [OF k] by (simp add: hm_table_def)
  then have "(2::nat) ^ k < 2 ^ 31"
  proof -
    assume l: "2 ^ k div 2 + 2 ^ k div 4 < (2::nat) ^ 30"
    then have "2 ^ k div 2 < (2::nat) ^ 30" by linarith
    then show ?thesis by simp
  qed
  then have k31: "k < 31" by (rule power_less_imp_less_exp [rotated]) simp
  let ?c = "push_bit 1 (capacity hm)"
  have c: "unat ?c = 2 ^ Suc k"
  proof -
    have "(2::nat) ^ Suc k \<le> 2 ^ 31" using k31 by (intro power_increasing) auto
    then have "2 * unat (capacity hm) < 2 ^ LENGTH(32)" unfolding k(1) by simp
    then have "unat (2 * capacity hm) = 2 * unat (capacity hm)" by (subst unat_mult_less) auto
    then show ?thesis using k(1) by (simp add: push_bit_eq_mult mult.commute)
  qed
  have "hm_Grow hm = relink (resized hm ?c) (hm_first hm)" by (simp add: hm_Grow_def resized_def Let_def)
  moreover have "Suc k < 32" using k31 by simp
  ultimately show ?thesis using wp_resize [OF s c] True by (auto elim!: wp_mono)
next
  case False
  then show ?thesis using s t by auto
qed

lemma hm_shape_other:
  assumes "hm_shape hm as bs" "a \<notin> set as"
  shows "hm_shape (hm\<lparr>nodes := (nodes hm)(a := x), brk := b\<rparr>) as bs"
  using assms dseg_cong [OF agree_other [OF assms(2), of links "nodes hm"]]
  by (auto simp: hm_shape_def intro!: bkts_cong [of "nodes hm"])


lemma wp_InsertNode:
  assumes s: "hm_shape hm as bs" and t: "hm_table hm" and len: "length as < 2 ^ 30"
    and a: "a \<notin> set as" "nodes hm a = Some n" "node_prev n = None" "node_next n = None"
  shows "wp (hm_InsertNode hm a) (\<lambda>r. (\<exists>bs'. hm_shape r (as @ [a]) bs') \<and> hm_table r \<and> brk r = brk hm
    \<and> same_content (nodes hm) (nodes r) (insert a (set as)))"
proof -
  obtain h bs1 where grow: "(if hm_count hm \<ge> rehash_threshold hm then hm_Grow hm else Some hm) = Some h"
    and h: "hm_shape h as bs1" "hm_table h" "hm_count h = hm_count hm" "brk h = brk hm" "same_core (nodes hm) (nodes h)"
    by (rule wpE [OF wp_grow_if_full [OF s t len]]) blast
  obtain n1 where n1: "nodes h a = Some n1" and "core n1 = core n" using same_core_D [OF h(5) a(2)] by auto
  then have n1c: "content n1 = content n" "node_prev n1 = None" "node_next n1 = None" using a(3,4) by (simp_all add: core_def content_def)
  define i where "i = bucket_index (hm_mask h) (hashv n1)"
  have i: "i < length (buckets h)" unfolding i_def using h(2) by (rule table_index)
  define n2 where "n2 = n1\<lparr>bkt_next := buckets h ! i\<rparr>"
  define m2 where "m2 = (nodes h)(a \<mapsto> n2)"
  let ?bk = "(buckets h)[i := Some a]" and ?bs = "bs1[i := a # bs1 ! i]"
  have b2: "bkts m2 (hm_mask h) ?bk ?bs (insert a (set as))" unfolding m2_def n2_def
    using h(1) a(1) n1 i by (intro bkts_insert) (simp_all add: hm_shape_def i_def)
  have d2: "dseg m2 None (hm_first h) as (hm_last h) None" unfolding m2_def
  proof (rule dseg_cong)
    show "agree links (nodes h) ((nodes h)(a \<mapsto> n2)) as" using a(1) by (rule agree_other)
    show "dseg (nodes h) None (hm_first h) as (hm_last h) None" using h(1) by (simp add: hm_shape_def)
  qed
  have dist: "distinct as" "unat (hm_count h) = length as" using h(1) by (simp_all add: hm_shape_def)
  have cnt: "unat (hm_count h + 1) = length (as @ [a])" using dist(2) len by (subst unat_add_less) simp_all
  have c2: "same_content (nodes hm) m2 (insert a (set as))"
    using same_core_content [OF h(5)] a(2) n1c n1 by (auto simp: same_content_def m2_def n2_def content_def)
  define h2 where "h2 = h\<lparr>nodes := m2, buckets := ?bk\<rparr>"
  have run: "hm_InsertNode hm a = do {
      hm \<leftarrow> (if hm_first h2 \<noteq> None then do {
         hm \<leftarrow> upd_node h2 a (\<lambda>n. n\<lparr>node_prev := hm_last h2\<rparr>);
         l \<leftarrow> hm_last hm;
         upd_node hm l (\<lambda>n. n\<lparr>node_next := Some a\<rparr>) }
       else Some (h2\<lparr>hm_first := Some a\<rparr>));
      Some (hm\<lparr>hm_last := Some a, hm_count := hm_count hm + 1\<rparr>) }"
    unfolding hm_InsertNode_def grow using n1 i
    by (simp add: i_def [symmetric] read_cell_def write_cell_def rd_def wr_def upd_node_def h2_def m2_def n2_def Let_def)
  show ?thesis
  proof (cases as rule: rev_cases)
    case Nil
    then have f: "hm_first h = None" using d2 by simp
    let ?r = "h2\<lparr>hm_first := Some a, hm_last := Some a, hm_count := hm_count h2 + 1\<rparr>"
    have "hm_shape ?r (as @ [a]) ?bs" using b2 cnt Nil n1c
      by (simp add: hm_shape_def h2_def m2_def n2_def)
    moreover have "hm_table ?r" using h(2) by (simp add: hm_table_def h2_def)
    ultimately show ?thesis unfolding run using f h(4) c2 by (auto simp: h2_def)
  next
    case (snoc us l)
    then have f: "hm_first h \<noteq> None" "hm_last h = Some l" using d2 dseg_hd [OF d2] dseg_last [OF d2] by auto
    have al: "a \<noteq> l" "l \<notin> set us" using a(1) snoc dist(1) by auto
    define m3 where "m3 = m2(a \<mapsto> n2\<lparr>node_prev := Some l\<rparr>)"
    have d3: "dseg m3 None (hm_first h) (us @ [l]) (hm_last h) None" unfolding m3_def
      unfolding snoc [symmetric] by (rule dseg_cong [OF agree_other [OF a(1)] d2])
    obtain nl where nl: "m3 l = Some nl" "dseg (m3(l \<mapsto> nl\<lparr>node_next := Some a\<rparr>)) None (hm_first h) (us @ [l]) (Some l) (Some a)"
      using dseg_set_next [OF d3 al(2), of "Some a"] by blast
    define m4 where "m4 = m3(l \<mapsto> nl\<lparr>node_next := Some a\<rparr>)"
    have m4a: "m4 a = Some (n2\<lparr>node_prev := Some l\<rparr>)" using al by (simp add: m4_def m3_def)
    have d4: "dseg m4 None (hm_first h) ((us @ [l]) @ [a]) (Some a) None"
    proof (rule iffD2 [OF dseg_append], intro exI conjI)
      show "dseg m4 None (hm_first h) (us @ [l]) (Some l) (Some a)" using nl(2) by (simp only: m4_def)
      show "dseg m4 (Some l) (Some a) [a] (Some a) None" using m4a n1c(3) by (simp add: n2_def)
    qed
    have l2: "m2 l = Some nl" using nl(1) al by (simp add: m3_def)
    have a2: "m2 a = Some n2" by (simp add: m2_def)
    have "map_option place (m4 x) = map_option place (m2 x)" for x
      using l2 a2 al by (simp add: m4_def m3_def place_def)
    then have b4: "bkts m4 (hm_mask h) ?bk ?bs (insert a (set as))" by (intro bkts_cong [OF b2]) simp
    have c4: "same_content (nodes hm) m4 (insert a (set as))"
      using l2 a2 al by (intro same_content_trans [OF c2]) (auto simp: same_content_def m4_def m3_def content_def)
    let ?r = "h2\<lparr>nodes := m4, hm_last := Some a, hm_count := hm_count h2 + 1\<rparr>"
    have "hm_shape ?r (as @ [a]) ?bs" using b4 cnt d4 snoc dist(1) a(1) by (simp add: hm_shape_def h2_def insert_commute [of a l])
    moreover have "hm_table ?r" using h(2) by (simp add: hm_table_def h2_def)
    moreover have "hm_InsertNode hm a = Some ?r" unfolding run
      using f al l2 a2 nl(1) by (simp add: h2_def upd_node_def m4_def m3_def)
    ultimately show ?thesis using h(4) c4 by (auto simp: h2_def)
  qed
qed


section \<open>Removing a node\<close>

lemma find_cell_eq:
  "chain (nodes hm) p as \<Longrightarrow> read_cell hm pp = Some p \<Longrightarrow> find_cell eq hm k pp = Some (
     case dropWhile (\<lambda>a. \<not> eq k (node_k (the (nodes hm a)))) as of [] \<Rightarrow> None
     | b # bs \<Rightarrow> (case takeWhile (\<lambda>a. \<not> eq k (node_k (the (nodes hm a)))) as of [] \<Rightarrow> Some pp
        | c # cs \<Rightarrow> Some (BktNext (last (c # cs)))))"
proof (induction as arbitrary: p pp)
  case Nil
  then show ?case by (subst find_cell.simps) simp
next
  case (Cons a as)
  then obtain n where n: "p = Some a" "nodes hm a = Some n" "chain (nodes hm) (bkt_next n) as" by auto
  have r: "read_cell hm (BktNext a) = Some (bkt_next n)" using n by (simp add: read_cell_def)
  show ?case using Cons.prems(2) n Cons.IH [OF n(3) r]
    by (subst find_cell.simps) (auto split: list.splits simp del: dropWhile_eq_Nil_conv)
qed

text \<open>The cell in front of a node of a chain.\<close>

lemma write_cell_remove:
  assumes b: "bkts (nodes hm) (hm_mask hm) (buckets hm) bs xs" and i: "i < length (buckets hm)"
    and s: "bs ! i = us @ a # vs" and n: "nodes hm a = Some n"
  shows "\<exists>h bs'. read_cell hm (cell_at i us) = Some (Some a) \<and> write_cell hm (cell_at i us) (bkt_next n) = Some h
    \<and> h = hm\<lparr>nodes := nodes h, buckets := buckets h\<rparr> \<and> length (buckets h) = length (buckets hm)
    \<and> same_core (nodes hm) (nodes h) \<and> nodes h a = Some n
    \<and> bkts (nodes h) (hm_mask hm) (buckets h) bs' (xs - {a})"
proof -
  note bi = bktsD [OF b i]
  have ch: "chain (nodes hm) (buckets hm ! i) (us @ a # vs)" "distinct (us @ a # vs)" using bi(1,2) s by simp_all
  note rem = chain_remove [OF ch n]
  have ia: "bucket_index (hm_mask hm) (hashv n) = i" 
  proof -
    have "a \<in> set (bs ! i)" using s by simp
    then show ?thesis unfolding bi(3) using n by auto
  qed
  let ?bs = "bs[i := us @ vs]"
  have other: "a \<notin> set (bs ! j)" if "j < length (buckets hm)" "j \<noteq> i" for j
    using bktsD(3) [OF b that(1)] ia n that(2) by auto
  have sets: "set (?bs ! j) = {x \<in> xs - {a}. \<exists>n. nodes hm x = Some n \<and> bucket_index (hm_mask hm) (hashv n) = j}"
    if j: "j < length (buckets hm)" for j
  proof (cases "j = i")
    case True
    then have "set (?bs ! j) = set (bs ! i) - {a}" using s ch(2) i bi(4) by auto
    then show ?thesis unfolding True bi(3) by auto
  next
    case False
    then have "set (?bs ! j) = set (bs ! j) - {a}" using other [OF j] by simp
    then show ?thesis unfolding bktsD(3) [OF b j] by auto
  qed
  show ?thesis
  proof (cases us)
    case Nil
    let ?h = "hm\<lparr>buckets := (buckets hm)[i := bkt_next n]\<rparr>"
    have "bkts (nodes ?h) (hm_mask hm) (buckets ?h) ?bs (xs - {a})"
      unfolding bkts_def
    proof (intro conjI allI impI)
      show "length ?bs = length (buckets ?h)" using bi(4) by simp
      fix j assume "j < length (buckets ?h)"
      then have j: "j < length (buckets hm)" by simp
      show "chain (nodes ?h) (buckets ?h ! j) (?bs ! j)"
        using rem(1) Nil bktsD(1) [OF b j] j bi(4) by (cases "j = i") auto
      show "distinct (?bs ! j)" using ch(2) bktsD(2) [OF b j] j bi(4) by (cases "j = i") auto
      show "set (?bs ! j) = {x \<in> xs - {a}. \<exists>n. nodes ?h x = Some n \<and> bucket_index (hm_mask hm) (hashv n) = j}"
        using sets [OF j] by simp
    qed
    then show ?thesis using Nil rem(1) i n
      by (intro exI [of _ ?h] exI [of _ ?bs]) (simp add: read_cell_def write_cell_def rd_def wr_def)
  next
    case (Cons u us')
    let ?l = "last us"
    obtain nb where nb: "nodes hm ?l = Some nb" "bkt_next nb = Some a"
      "chain ((nodes hm)(?l \<mapsto> nb\<lparr>bkt_next := bkt_next n\<rparr>)) (buckets hm ! i) (us @ vs)"
      using rem(2) Cons by blast
    define m where "m = (nodes hm)(?l \<mapsto> nb\<lparr>bkt_next := bkt_next n\<rparr>)"
    let ?h = "hm\<lparr>nodes := m\<rparr>"
    have sc: "same_core (nodes hm) m" unfolding m_def by (rule same_core_upd [of "nodes hm", OF nb(1)])
    have lb: "?l \<in> set (bs ! i)" using s Cons by (metis UnI1 last_in_set list.distinct(1) set_append)
    have la: "?l \<noteq> a" using ch(2) Cons by (metis disjoint_iff distinct_append last_in_set list.distinct(1) list.set_intros(1))
    have "bkts m (hm_mask hm) (buckets hm) ?bs (xs - {a})"
      unfolding bkts_def
    proof (intro conjI allI impI)
      show "length ?bs = length (buckets hm)" using bi(4) by simp
      fix j assume j: "j < length (buckets hm)"
      show "chain m (buckets hm ! j) (?bs ! j)"
      proof (cases "j = i")
        case True
        then show ?thesis using nb(3) j bi(4) by (simp add: m_def)
      next
        case False
        have "?l \<notin> set (bs ! j)" using lb bktsD(3) [OF b j] bi(3) False by auto
        then have "chain m (buckets hm ! j) (bs ! j)" unfolding m_def
          using bktsD(1) [OF b j] by (intro chain_cong [OF agree_other])
        then show ?thesis using False by simp
      qed
      show "distinct (?bs ! j)" using ch(2) bktsD(2) [OF b j] j bi(4) by (cases "j = i") auto
      have "(\<exists>n. m x = Some n \<and> bucket_index (hm_mask hm) (hashv n) = j)
        \<longleftrightarrow> (\<exists>n. nodes hm x = Some n \<and> bucket_index (hm_mask hm) (hashv n) = j)" for x
        using nb(1) by (auto simp: m_def)
      then show "set (?bs ! j) = {x \<in> xs - {a}. \<exists>n. m x = Some n \<and> bucket_index (hm_mask hm) (hashv n) = j}"
        using sets [OF j] by simp
    qed
    moreover have "m a = Some n" using la n by (simp add: m_def)
    moreover have c: "cell_at i us = BktNext ?l" using Cons by simp
    ultimately show ?thesis using nb(1,2) sc
      by (intro exI [of _ ?h] exI [of _ ?bs]) (simp add: c read_cell_def write_cell_def upd_node_def m_def del: cell_at.simps)
  qed
qed


text \<open>Unlinking a node from the doubly linked list.\<close>

definition unlink_next :: "('k, 'v) hnode \<Rightarrow> (nat \<Rightarrow> ('k, 'v) hnode option) \<Rightarrow> nat \<Rightarrow> ('k, 'v) hnode option" where
  "unlink_next n m = (case node_prev n of None \<Rightarrow> m | Some b \<Rightarrow> m(b \<mapsto> (the (m b))\<lparr>node_next := node_next n\<rparr>))"

definition unlink_prev :: "('k, 'v) hnode \<Rightarrow> (nat \<Rightarrow> ('k, 'v) hnode option) \<Rightarrow> nat \<Rightarrow> ('k, 'v) hnode option" where
  "unlink_prev n m = (case node_next n of None \<Rightarrow> m | Some c \<Rightarrow> m(c \<mapsto> (the (m c))\<lparr>node_prev := node_prev n\<rparr>))"

lemma dseg_unlink_next:
  assumes d: "dseg m None f xs l1 (Some a)" and "node_prev n = l1" "distinct xs"
  shows "node_prev n = Some b \<Longrightarrow> \<exists>nb. m b = Some nb"
    "dseg (unlink_next n m) None (if xs = [] then node_next n else f) xs l1 (node_next n)"
proof -
  show "\<exists>nb. m b = Some nb" if "node_prev n = Some b"
    using dseg_last [OF d] dseg_nodes [OF d, of b] that assms(2) by (auto split: if_splits)
  show "dseg (unlink_next n m) None (if xs = [] then node_next n else f) xs l1 (node_next n)"
  proof (cases xs rule: rev_cases)
    case Nil
    then show ?thesis using d by simp
  next
    case (snoc us b)
    then have l1: "l1 = Some b" using dseg_last [OF d] by simp
    obtain nb where nb: "m b = Some nb" "dseg (m(b \<mapsto> nb\<lparr>node_next := node_next n\<rparr>)) None f (us @ [b]) (Some b) (node_next n)"
      using dseg_set_next [of m None f us b l1 "Some a" "node_next n"] d snoc assms(3) by auto
    have "unlink_next n m = m(b \<mapsto> nb\<lparr>node_next := node_next n\<rparr>)" using nb(1) l1 assms(2) by (simp add: unlink_next_def)
    then show ?thesis using nb(2) snoc l1 by simp
  qed
qed

lemma dseg_unlink_prev:
  assumes d: "dseg m (Some a) q ys l None" and "node_next n = q" "distinct ys"
  shows "node_next n = Some c \<Longrightarrow> \<exists>nc. m c = Some nc"
    "dseg (unlink_prev n m) (node_prev n) q ys (if ys = [] then node_prev n else l) None"
proof -
  show "\<exists>nc. m c = Some nc" if "node_next n = Some c"
    using dseg_hd [OF d] dseg_nodes [OF d, of c] that assms(2) by (auto split: if_splits)
  show "dseg (unlink_prev n m) (node_prev n) q ys (if ys = [] then node_prev n else l) None"
  proof (cases ys)
    case Nil
    then show ?thesis using d by simp
  next
    case (Cons c ys')
    obtain nc where nc: "m c = Some nc" "q = Some c" "dseg (m(c \<mapsto> nc\<lparr>node_prev := node_prev n\<rparr>)) (node_prev n) q (c # ys') l None"
      using dseg_set_prev [of m "Some a" q c ys' l None "node_prev n"] d Cons assms(3) by auto
    have "unlink_prev n m = m(c \<mapsto> nc\<lparr>node_prev := node_prev n\<rparr>)" using nc(1,2) assms(2) by (simp add: unlink_prev_def)
    then show ?thesis using nc(3) Cons by (simp only: list.distinct(2) if_False)
  qed
qed

lemma dseg_unlink:
  assumes d: "dseg m None f (xs @ a # ys) l None" and dist: "distinct (xs @ a # ys)" and n: "m a = Some n"
  shows "node_prev n = Some b \<Longrightarrow> \<exists>nb. m b = Some nb"
    "node_next n = Some c \<Longrightarrow> \<exists>nc. unlink_next n m c = Some nc"
    "dseg (unlink_prev n (unlink_next n m)) None (if f = Some a then node_next n else f) (xs @ ys)
      (if l = Some a then node_prev n else l) None"
    "a \<notin> set xs \<union> set ys"
proof -
  obtain l1 q1 where d1: "dseg m None f xs l1 q1" "dseg m l1 q1 (a # ys) l None" using d by (auto simp: dseg_append)
  then have q1: "q1 = Some a" and p: "node_prev n = l1" and d2: "dseg m (Some a) (node_next n) ys l None" using n by auto
  have d1': "dseg m None f xs l1 (Some a)" using d1(1) q1 by simp
  have di: "distinct xs" "distinct ys" "set xs \<inter> set ys = {}" "a \<notin> set xs" "a \<notin> set ys" using dist by auto
  show "a \<notin> set xs \<union> set ys" using di by simp
  show "\<exists>nb. m b = Some nb" if "node_prev n = Some b" by (rule dseg_unlink_next(1) [OF d1' p di(1) that])
  let ?m = "unlink_next n m"
  have "agree links m ?m ys"
  proof (cases l1)
    case None
    then show ?thesis using p by (simp add: unlink_next_def)
  next
    case (Some b)
    then have "b \<in> set xs" using dseg_last [OF d1'] by (auto split: if_splits)
    then have "b \<notin> set ys" using di(3) by auto
    then show ?thesis using Some p by (simp add: unlink_next_def agree_other)
  qed
  then have d2': "dseg ?m (Some a) (node_next n) ys l None" using d2 by (rule dseg_cong)
  show "\<exists>nc. ?m c = Some nc" if "node_next n = Some c" by (rule dseg_unlink_prev(1) [OF d2' refl di(2) that])
  have "agree links ?m (unlink_prev n ?m) xs"
  proof (cases "node_next n")
    case None
    then show ?thesis by (simp add: unlink_prev_def)
  next
    case (Some c)
    then have "c \<in> set ys" using dseg_hd [OF d2'] by (auto split: if_splits)
    then have "c \<notin> set xs" using di(3) by auto
    then show ?thesis using Some by (simp add: unlink_prev_def agree_other)
  qed
  then have x: "dseg (unlink_prev n ?m) None (if xs = [] then node_next n else f) xs l1 (node_next n)"
    by (rule dseg_cong [OF _ dseg_unlink_next(2) [OF d1' p di(1)]])
  have y: "dseg (unlink_prev n ?m) l1 (node_next n) ys (if ys = [] then node_prev n else l) None"
    using dseg_unlink_prev(2) [OF d2' refl di(2)] unfolding p .
  have f: "f = Some a \<longleftrightarrow> xs = []" using dseg_hd [OF d1'] di(4) by (cases xs) auto
  have l: "l = Some a \<longleftrightarrow> ys = []" using dseg_last [OF d2] di(5) by (cases ys rule: rev_cases) auto
  show "dseg (unlink_prev n ?m) None (if f = Some a then node_next n else f) (xs @ ys) (if l = Some a then node_prev n else l) None"
    unfolding dseg_append f l using x y by blast
qed

lemma unlink_fields:
  assumes "node_prev n = None \<or> (\<exists>b nb. node_prev n = Some b \<and> m b = Some nb)"
    "node_next n = None \<or> (\<exists>c nc. node_next n = Some c \<and> unlink_next n m c = Some nc)"
  shows "map_option place (unlink_prev n (unlink_next n m) x) = map_option place (m x)"
    "map_option content (unlink_prev n (unlink_next n m) x) = map_option content (m x)"
proof -
  have "map_option place (unlink_next n m x) = map_option place (m x) \<and> map_option content (unlink_next n m x) = map_option content (m x)"
    using assms(1) by (auto simp: unlink_next_def place_def content_def)
  moreover have "map_option place (unlink_prev n m' x) = map_option place (m' x) \<and> map_option content (unlink_prev n m' x) = map_option content (m' x)"
    if "m' = unlink_next n m" for m'
    using assms(2) that by (auto simp: unlink_prev_def place_def content_def)
  ultimately show "map_option place (unlink_prev n (unlink_next n m) x) = map_option place (m x)"
    "map_option content (unlink_prev n (unlink_next n m) x) = map_option content (m x)" by simp_all
qed


lemma wp_DelNode:
  assumes s: "hm_shape hm as bs" and t: "hm_table hm" and i: "i < length (buckets hm)" and c: "bs ! i = us @ a # vs"
  shows "\<exists>h n. nodes hm a = Some n \<and> a \<in> set as \<and> read_cell hm (cell_at i us) = Some (Some a)
    \<and> hm_DelNode hm (cell_at i us) = Some (h, True)
    \<and> (\<exists>bs'. hm_shape h (remove1 a as) bs') \<and> hm_table h \<and> brk h = brk hm \<and> same_content (nodes hm) (nodes h) (set as - {a})"
proof -
  have b: "bkts (nodes hm) (hm_mask hm) (buckets hm) bs (set as)" and dist: "distinct as"
    and d0: "dseg (nodes hm) None (hm_first hm) as (hm_last hm) None" and cnt: "unat (hm_count hm) = length as"
    using s by (simp_all add: hm_shape_def)
  have "a \<in> set (bs ! i)" using c by simp
  then obtain n where a: "a \<in> set as" and n: "nodes hm a = Some n" using bktsD(3) [OF b i] by auto
  obtain h1 bs1 where r: "read_cell hm (cell_at i us) = Some (Some a)" and w: "write_cell hm (cell_at i us) (bkt_next n) = Some h1"
    and h1: "h1 = hm\<lparr>nodes := nodes h1, buckets := buckets h1\<rparr>" "length (buckets h1) = length (buckets hm)"
      "same_core (nodes hm) (nodes h1)" "nodes h1 a = Some n" "bkts (nodes h1) (hm_mask hm) (buckets h1) bs1 (set as - {a})"
    using write_cell_remove [OF b i c n] by blast
  have e: "hm_first h1 = hm_first hm" "hm_last h1 = hm_last hm" "hm_count h1 = hm_count hm" "hm_mask h1 = hm_mask hm"
    "capacity h1 = capacity hm" "rehash_threshold h1 = rehash_threshold hm" "brk h1 = brk hm"
    by (subst h1(1), simp)+
  obtain xs ys where as: "as = xs @ a # ys" using a by (meson split_list)
  have d: "dseg (nodes h1) None (hm_first h1) (xs @ a # ys) (hm_last h1) None"
    using dseg_cong [OF same_core_agree [OF h1(3)] d0] unfolding e as .
  have dist': "distinct (xs @ a # ys)" using dist as by simp
  note u = dseg_unlink [OF d dist' h1(4)]
  define m where "m = unlink_prev n (unlink_next n (nodes h1))"
  have pre: "node_prev n = None \<or> (\<exists>b nb. node_prev n = Some b \<and> nodes h1 b = Some nb)"
    "node_next n = None \<or> (\<exists>c nc. node_next n = Some c \<and> unlink_next n (nodes h1) c = Some nc)"
    subgoal using u(1) by (cases "node_prev n") auto
    subgoal using u(2) by (cases "node_next n") auto
    done
  have pl: "map_option place (m x) = map_option place (nodes h1 x)" and co: "map_option content (m x) = map_option content (nodes h1 x)" for x
    using unlink_fields [OF pre] by (simp_all add: m_def)
  let ?h = "h1\<lparr>nodes := m(a := None), hm_first := (if hm_first h1 = Some a then node_next n else hm_first h1),
    hm_last := (if hm_last h1 = Some a then node_prev n else hm_last h1), hm_count := hm_count h1 - 1\<rparr>"
  have upd: "upd_node h b f = Some (h\<lparr>nodes := (nodes h)(b \<mapsto> f (the (nodes h b)))\<rparr>)" if "nodes h b = Some nb" for h b f nb
    using that by (simp add: upd_node_def)
  have run: "hm_DelNode hm (cell_at i us) = Some (?h, True)"
  proof -
    have s1: "(case node_prev n of None \<Rightarrow> Some h1 | Some b \<Rightarrow> upd_node h1 b (\<lambda>x. x\<lparr>node_next := node_next n\<rparr>))
      = Some (h1\<lparr>nodes := unlink_next n (nodes h1)\<rparr>)"
      using pre(1) by (auto simp: unlink_next_def upd)
    have s2: "(case node_next n of None \<Rightarrow> Some h | Some c \<Rightarrow> upd_node h c (\<lambda>x. x\<lparr>node_prev := node_prev n\<rparr>))
      = Some (h1\<lparr>nodes := m\<rparr>)" if "h = h1\<lparr>nodes := unlink_next n (nodes h1)\<rparr>" for h
      using pre(2) that by (auto simp: unlink_prev_def upd m_def)
    show ?thesis unfolding hm_DelNode_def by (simp add: r n w s1 s2 Let_def)
  qed
  have na: "a \<notin> set (xs @ ys)" using dist' by auto
  have rem: "remove1 a as = xs @ ys" using as dist' by (simp add: remove1_append)
  have "dseg (m(a := None)) None (hm_first ?h) (xs @ ys) (hm_last ?h) None"
    using dseg_cong [OF agree_other [OF na] u(3)] unfolding m_def by simp
  moreover have "bkts (m(a := None)) (hm_mask hm) (buckets h1) bs1 (set as - {a})"
    using bkts_cong [OF h1(5)] pl by simp
  moreover have "set as - {a} = set (xs @ ys)" using as na by auto
  moreover have "unat (hm_count h1 - 1) = length (xs @ ys)"
  proof -
    have "0 < unat (hm_count h1)" using cnt e(3) as by simp
    then have "unat (hm_count h1 - 1) = unat (hm_count h1) - 1" by (simp add: unat_minus_one unat_gt_0)
    then show ?thesis using cnt e(3) as by simp
  qed
  ultimately have "hm_shape ?h (remove1 a as) bs1" unfolding rem using dist' e(4)
    by (auto simp: hm_shape_def)
  moreover have "hm_table ?h" using t h1(2) by (simp add: hm_table_def e)
  moreover have "same_content (nodes hm) (nodes ?h) (set as - {a})"
  proof -
    have "same_content (nodes hm) (nodes h1) UNIV" by (rule same_core_content [OF h1(3)])
    then show ?thesis using co by (auto simp: same_content_def)
  qed
  ultimately show ?thesis using r run e(7) n a by auto
qed

end
