(* ===== verification/HashMapSpec.thy ===== *)
theory HashMapSpec
  imports HashMapOps
begin

text \<open>
  The hash map as an ordered dictionary: every operation on the linked nodes is the operation on the
  list of entries it represents (\<open>hm_rep\<close>). The laws of a dictionary are an interface, \<open>dict\<close>, that
  the hash map provides for every key type with a hash function.
\<close>

section \<open>Entries as a list\<close>

definition al_get :: "('k \<Rightarrow> 'k \<Rightarrow> bool) \<Rightarrow> 'k \<Rightarrow> ('k \<times> 'v) list \<Rightarrow> 'v option" where
  "al_get eq k es = map_option snd (find (\<lambda>p. eq k (fst p)) es)"

definition al_has :: "('k \<Rightarrow> 'k \<Rightarrow> bool) \<Rightarrow> 'k \<Rightarrow> ('k \<times> 'v) list \<Rightarrow> bool" where
  "al_has eq k es \<longleftrightarrow> (\<exists>p \<in> set es. eq k (fst p))"

text \<open>\<open>Put\<close> and \<open>Insert\<close> keep the first value of a key, \<open>Add\<close> overwrites it in its place.\<close>

definition al_put :: "('k \<Rightarrow> 'k \<Rightarrow> bool) \<Rightarrow> 'k \<Rightarrow> 'v \<Rightarrow> ('k \<times> 'v) list \<Rightarrow> ('k \<times> 'v) list" where
  "al_put eq k v es = (if al_has eq k es then es else es @ [(k, v)])"

definition al_add :: "('k \<Rightarrow> 'k \<Rightarrow> bool) \<Rightarrow> 'k \<Rightarrow> 'v \<Rightarrow> ('k \<times> 'v) list \<Rightarrow> ('k \<times> 'v) list" where
  "al_add eq k v es =
     (if al_has eq k es then map (\<lambda>p. if eq k (fst p) then (fst p, v) else p) es else es @ [(k, v)])"

definition al_del :: "('k \<Rightarrow> 'k \<Rightarrow> bool) \<Rightarrow> 'k \<Rightarrow> ('k \<times> 'v) list \<Rightarrow> ('k \<times> 'v) list" where
  "al_del eq k es = filter (\<lambda>p. \<not> eq k (fst p)) es"

definition al_keys :: "('k \<Rightarrow> 'k \<Rightarrow> bool) \<Rightarrow> ('k \<times> 'v) list \<Rightarrow> bool" where
  "al_keys eq es \<longleftrightarrow> (\<forall>i < length es. \<forall>j < length es. eq (fst (es ! i)) (fst (es ! j)) \<longrightarrow> i = j)"

lemma al_has_get: "al_has eq k es \<longleftrightarrow> al_get eq k es \<noteq> None"
  by (simp only: al_has_def al_get_def option.map_disc_iff find_None_iff not_not Bex_def)

lemma al_get_append: "al_get eq k (xs @ ys) = (case al_get eq k xs of None \<Rightarrow> al_get eq k ys | Some v \<Rightarrow> Some v)"
  by (induction xs) (auto simp: al_get_def)

lemma al_get_map_other: "\<not> eq k l \<Longrightarrow> (\<And>x y. eq x y \<Longrightarrow> eq y x) \<Longrightarrow> (\<And>x y z. eq x y \<Longrightarrow> eq y z \<Longrightarrow> eq x z)
  \<Longrightarrow> al_get eq l (map (\<lambda>p. if eq k (fst p) then (fst p, v) else p) es) = al_get eq l es"
proof (induction es)
  case Nil
  show ?case by simp
next
  case (Cons p es)
  show ?case
  proof (cases "eq k (fst p)")
    case True
    have "\<not> eq l (fst p)"
    proof
      assume "eq l (fst p)"
      then have "eq (fst p) l" by (rule Cons.prems(2))
      with True have "eq k l" by (rule Cons.prems(3))
      then show False using Cons.prems(1) by simp
    qed
    then show ?thesis using True Cons.IH [OF Cons.prems] by (simp add: al_get_def)
  qed (use Cons.IH [OF Cons.prems] in \<open>simp add: al_get_def\<close>)
qed

lemma al_get_map_same: "al_has eq k es \<Longrightarrow> al_get eq k (map (\<lambda>p. if eq k (fst p) then (fst p, v) else p) es) = Some v"
  by (induction es) (auto simp: al_get_def al_has_def)

section \<open>The interface\<close>

locale dict =
  fixes rep :: "'m \<Rightarrow> ('k \<times> 'v) list \<Rightarrow> bool" and eq :: "'k \<Rightarrow> 'k \<Rightarrow> bool" and limit :: nat
    and get :: "'m \<Rightarrow> 'k \<Rightarrow> 'v option option"
    and add :: "'m \<Rightarrow> 'k \<Rightarrow> 'v \<Rightarrow> 'm option" and put :: "'m \<Rightarrow> 'k \<Rightarrow> 'v \<Rightarrow> 'm option"
    and del :: "'m \<Rightarrow> 'k \<Rightarrow> 'm option"
  assumes key_refl: "eq k k" and key_sym: "eq k l \<Longrightarrow> eq l k" and key_trans: "eq k l \<Longrightarrow> eq l j \<Longrightarrow> eq k j"
    and get_law: "rep m es \<Longrightarrow> get m k = Some (al_get eq k es)"
    and add_law: "rep m es \<Longrightarrow> length es < limit \<Longrightarrow> wp (add m k v) (\<lambda>m. rep m (al_add eq k v es))"
    and put_law: "rep m es \<Longrightarrow> length es < limit \<Longrightarrow> wp (put m k v) (\<lambda>m. rep m (al_put eq k v es))"
    and del_law: "rep m es \<Longrightarrow> wp (del m k) (\<lambda>m. rep m (al_del eq k es))"
begin

lemma get_after_add:
  assumes "rep m es" "length es < limit"
  shows "wp (add m k v) (\<lambda>m'. \<forall>l. get m' l = (if eq k l then Some (Some v) else get m l))"
proof (rule wp_mono [OF add_law [OF assms]])
  fix m' assume m': "rep m' (al_add eq k v es)"
  have "al_get eq l (al_add eq k v es) = (if eq k l then Some v else al_get eq l es)" for l
  proof (cases "eq k l")
    case True
    then have kl: "eq k = eq l" and lk: "eq l k" using key_sym key_trans by blast+
    then have s: "al_get eq l xs = al_get eq k xs" for xs :: "('k \<times> 'v) list" by (simp add: al_get_def)
    have "al_get eq k [(k, v)] = Some v" by (simp add: al_get_def key_refl)
    then show ?thesis using True al_get_map_same [of eq k es v]
      by (auto simp: s al_add_def al_get_append al_has_get)
  next
    case False
    then have "al_get eq l [(k, v)] = None" using key_sym by (auto simp: al_get_def)
    moreover have "al_get eq l (map (\<lambda>p. if eq k (fst p) then (fst p, v) else p) es) = al_get eq l es"
      using False key_sym key_trans by (rule al_get_map_other)
    ultimately show ?thesis using False by (auto simp: al_add_def al_get_append split: option.splits)
  qed
  then show "\<forall>l. get m' l = (if eq k l then Some (Some v) else get m l)"
    using get_law [OF m'] get_law [OF assms(1)] by simp
qed

lemma get_after_put:
  assumes "rep m es" "length es < limit"
  shows "wp (put m k v) (\<lambda>m'. \<forall>l. get m' l = (if eq k l \<and> get m k = Some None then Some (Some v) else get m l))"
proof (rule wp_mono [OF put_law [OF assms]])
  fix m' assume m': "rep m' (al_put eq k v es)"
  have "al_get eq l (al_put eq k v es) = (if eq k l \<and> al_get eq k es = None then Some v else al_get eq l es)" for l
  proof (cases "eq k l")
    case True
    then have kl: "eq k = eq l" using key_sym key_trans by blast
    then have s: "al_get eq l xs = al_get eq k xs" for xs :: "('k \<times> 'v) list" by (simp add: al_get_def)
    have "al_get eq k [(k, v)] = Some v" by (simp add: al_get_def key_refl)
    then show ?thesis using True by (auto simp: s al_put_def al_get_append al_has_get)
  next
    case False
    then have "al_get eq l [(k, v)] = None" using key_sym by (auto simp: al_get_def)
    then show ?thesis using False by (auto simp: al_put_def al_get_append split: option.splits)
  qed
  then show "\<forall>l. get m' l = (if eq k l \<and> get m k = Some None then Some (Some v) else get m l)"
    using get_law [OF m'] get_law [OF assms(1)] by simp
qed

lemma get_after_del:
  assumes "rep m es"
  shows "wp (del m k) (\<lambda>m'. \<forall>l. get m' l = (if eq k l then Some None else get m l))"
proof (rule wp_mono [OF del_law [OF assms]])
  fix m' assume m': "rep m' (al_del eq k es)"
  have "al_get eq l (al_del eq k es) = (if eq k l then None else al_get eq l es)" for l
  proof (induction es)
    case (Cons p es)
    have "eq k l \<longleftrightarrow> eq k (fst p)" if "eq l (fst p)" using that key_sym key_trans by blast
    moreover have "\<not> eq l (fst p)" if "eq k (fst p)" "\<not> eq k l" using that key_sym key_trans by blast
    ultimately show ?case using Cons by (cases "eq k (fst p)"; cases "eq l (fst p)") (auto simp: al_get_def al_del_def)
  qed (simp add: al_get_def al_del_def)
  then show "\<forall>l. get m' l = (if eq k l then Some None else get m l)"
    using get_law [OF m'] get_law [OF assms(1)] by simp
qed

end

section \<open>The hash map implements it\<close>

lemma find_map_eq: "find P (map f xs) = map_option f (find (P \<circ> f) xs)"
  by (induction xs) auto

context hash_key
begin

lemma rep_Get: "hm_rep hash eq hm es \<Longrightarrow> hm_Get hash eq hm k = Some (al_get eq k es)"
proof -
  assume "hm_rep hash eq hm es"
  then obtain as bs where r: "hm_shape hm as bs" "hm_table hm" "hm_keys hash eq hm as"
    "es = map (\<lambda>a. entry (the (nodes hm a))) as" by (auto simp: hm_rep_def)
  let ?P = "\<lambda>a. eq k (node_k (the (nodes hm a)))"
  have f: "find (\<lambda>p. eq k (fst p)) es = map_option (\<lambda>a. entry (the (nodes hm a))) (find ?P as)"
    unfolding r(4) find_map_eq by (simp add: entry_def comp_def)
  show ?thesis
  proof (cases "find ?P as")
    case None
    then show ?thesis using f by (simp add: hm_Get_def hm_At_eq [OF r(1-3)] al_get_def)
  next
    case (Some a)
    then have "a \<in> set as" by (auto simp: find_Some_iff)
    then obtain n where "nodes hm a = Some n" using r(3) by (auto simp: hm_keys_def)
    then show ?thesis using Some f by (simp add: hm_Get_def hm_At_eq [OF r(1-3)] al_get_def entry_def)
  qed
qed

lemma rep_Has: "hm_rep hash eq hm es \<Longrightarrow> hm_Has hash eq hm k = Some (al_has eq k es)"
proof -
  assume "hm_rep hash eq hm es"
  then obtain as bs where r: "hm_shape hm as bs" "hm_table hm" "hm_keys hash eq hm as"
    "es = map (\<lambda>a. entry (the (nodes hm a))) as" by (auto simp: hm_rep_def)
  have "(\<exists>p \<in> set es. eq k (fst p)) \<longleftrightarrow> (\<exists>a. a \<in> set as \<and> eq k (node_k (the (nodes hm a))))"
    unfolding r(4) by (auto simp: entry_def)
  also have "\<dots> \<longleftrightarrow> find (\<lambda>a. eq k (node_k (the (nodes hm a)))) as \<noteq> None" by (simp only: find_None_iff not_not)
  finally show ?thesis by (simp add: hm_Has_def hm_At_eq [OF r(1-3)] al_has_def)
qed


lemma rep_intro:
  "hm_shape hm as bs \<Longrightarrow> hm_table hm \<Longrightarrow> hm_keys hash eq hm as \<Longrightarrow> es = map (\<lambda>a. entry (the (nodes hm a))) as
   \<Longrightarrow> hm_rep hash eq hm es"
  by (auto simp: hm_rep_def)

text \<open>A new node at the end of the list.\<close>

lemma keys_snoc:
  assumes ks: "hm_keys hash eq r as" and n: "nodes r a = Some n" "hashv n = hash (node_k n)" "a < brk r"
    and new: "\<And>b n'. b \<in> set as \<Longrightarrow> nodes r b = Some n' \<Longrightarrow> \<not> eq (node_k n) (node_k n')"
  shows "hm_keys hash eq r (as @ [a])"
  unfolding hm_keys_def
proof
  fix b assume "b \<in> set (as @ [a])"
  then consider (1) "b = a" | (2) "b \<in> set as" by auto
  then show "b < brk r \<and> (\<exists>n. nodes r b = Some n \<and> hashv n = hash (node_k n)
    \<and> (\<forall>c \<in> set (as @ [a]). \<forall>n'. nodes r c = Some n' \<longrightarrow> eq (node_k n) (node_k n') \<longrightarrow> b = c))"
  proof cases
    case 1
    then show ?thesis using n new by (intro conjI exI [of _ n]) auto
  next
    case 2
    then obtain nb where nb: "b < brk r" "nodes r b = Some nb" "hashv nb = hash (node_k nb)"
      using ks by (auto simp: hm_keys_def)
    have "b = c" if "c \<in> set as" "nodes r c = Some n'" "eq (node_k nb) (node_k n')" for c n'
      by (rule hm_keys_unique [OF ks 2 that(1) nb(2) that(2,3)])
    moreover have "\<not> eq (node_k nb) (node_k n)" using new [OF 2 nb(2)] eq_sym by blast
    ultimately show ?thesis using nb n(1) by (intro conjI exI [of _ nb]) auto
  qed
qed

lemma wp_new_node:
  fixes hm :: "('k, 'v) hmap"
  assumes rep: "hm_rep hash eq hm es" and len: "length es < 2 ^ 30" and new: "\<not> al_has eq k es"
  shows "wp (do { let (hm, a) = hm_CreateNode z hm (hash k) k; hm \<leftarrow> set_value hm a v; hm \<leftarrow> hm_InsertNode hm a; Some (hm, a) })
    (\<lambda>(r, a). hm_rep hash eq r (es @ [(k, case v of None \<Rightarrow> z | Some x \<Rightarrow> x)]))"
proof -
  obtain as bs where s: "hm_shape hm as bs" and t: "hm_table hm" and ks: "hm_keys hash eq hm as"
    and es: "es = map (\<lambda>a. entry (the (nodes hm a))) as" using rep by (auto simp: hm_rep_def)
  let ?a = "brk hm"
  let ?v = "case v of None \<Rightarrow> z | Some x \<Rightarrow> x"
  let ?n = "\<lparr>node_prev = None, node_next = None, bkt_next = None, hashv = hash k, node_k = k, node_v = ?v\<rparr>"
  let ?h = "hm\<lparr>nodes := (nodes hm)(?a \<mapsto> ?n), brk := Suc ?a\<rparr>"
  have a: "?a \<notin> set as" using ks by (auto simp: hm_keys_def)
  have start: "do { let (hm, a) = hm_CreateNode z hm (hash k) k; hm \<leftarrow> set_value hm a v; hm \<leftarrow> hm_InsertNode hm a; Some (hm, a) }
    = do { hm \<leftarrow> hm_InsertNode ?h ?a; Some (hm, ?a) }"
    by (cases v; cases hm) (simp_all add: hm_CreateNode_def set_value_def upd_node_def)
  have sh: "hm_shape ?h as bs" by (rule hm_shape_other [OF s a])
  have th: "hm_table ?h" using t by (simp add: hm_table_def)
  have la: "length as < 2 ^ 30" using len es by simp
  have na: "nodes ?h ?a = Some ?n" by simp
  have c0: "same_content (nodes hm) (nodes ?h) (set as)" using a by (auto simp: same_content_def)
  show ?thesis unfolding start wp_simps
  proof (rule wp_mono [OF wp_InsertNode [OF sh th la a na]])
    fix r :: "('k, 'v) hmap"
    assume r: "(\<exists>bs'. hm_shape r (as @ [?a]) bs') \<and> hm_table r \<and> brk r = brk ?h
      \<and> same_content (nodes ?h) (nodes r) (insert ?a (set as))"
    then have c: "same_content (nodes ?h) (nodes r) (insert ?a (set as))" by blast
    obtain nr where nr: "nodes r ?a = Some nr" "content nr = content ?n"
      using same_content_D [OF c insertI1 na] by blast
    have c1: "same_content (nodes hm) (nodes r) (set as)"
      using same_content_trans [OF c0 same_content_subset [OF c]] by blast
    have "hm_keys hash eq r as" by (rule keys_same_content [OF ks c1]) (use r in simp)
    moreover have "\<not> eq k (node_k n)" if b: "b \<in> set as" "nodes r b = Some n" for b n
    proof -
      from ks b(1) have "\<exists>n'. nodes hm b = Some n'" unfolding hm_keys_def by blast
      then obtain n' where n': "nodes hm b = Some n'" ..
      then have "content n = content n'" using same_content_D [OF c1 b(1) n'] b(2) by simp
      moreover have "\<not> eq k (node_k n')"
      proof
        assume "eq k (node_k n')"
        moreover have "entry (the (nodes hm b)) \<in> set es" using b(1) by (simp add: es)
        ultimately show False using new n' unfolding al_has_def by (auto simp: entry_def)
      qed
      ultimately show ?thesis by (simp add: content_def)
    qed
    ultimately have "hm_keys hash eq r (as @ [?a])"
      using nr r a by (intro keys_snoc) (auto simp: content_def)
    moreover have "map (\<lambda>a. entry (the (nodes r a))) (as @ [?a]) = es @ [(k, ?v)]"
      using entries_same_content [OF ks c1] nr by (simp add: es content_def entry_def)
    ultimately have "hm_rep hash eq r (es @ [(k, ?v)])" using r by (auto intro: rep_intro)
    then show "case (r, ?a) of (r, a) \<Rightarrow> hm_rep hash eq r (es @ [(k, ?v)])" by simp
  qed simp_all
qed

text \<open>Writing the value of a node that is there.\<close>

lemma keys_upd_value:
  assumes ks: "hm_keys hash eq hm as" and n: "nodes hm a = Some n"
  shows "hm_keys hash eq (hm\<lparr>nodes := (nodes hm)(a \<mapsto> n\<lparr>node_v := x\<rparr>)\<rparr>) as"
  unfolding hm_keys_def
proof
  let ?m = "(nodes hm)(a \<mapsto> n\<lparr>node_v := x\<rparr>)"
  have key: "\<exists>c0. nodes hm b = Some c0 \<and> node_k c = node_k c0 \<and> hashv c = hashv c0" if "?m b = Some c" for b c
    using that n by (cases "b = a") auto
  fix b assume b: "b \<in> set as"
  then obtain nb where nb: "b < brk hm" "nodes hm b = Some nb" "hashv nb = hash (node_k nb)"
    using ks by (auto simp: hm_keys_def)
  then obtain c where c: "?m b = Some c" "node_k c = node_k nb" "hashv c = hashv nb" using n by (cases "b = a") auto
  have "b = d" if d: "d \<in> set as" "?m d = Some e" "eq (node_k c) (node_k e)" for d e
  proof -
    obtain e0 where "nodes hm d = Some e0" "node_k e = node_k e0" using key [OF d(2)] by blast
    then show ?thesis using hm_keys_unique [OF ks b d(1) nb(2)] d(3) c(2) by simp
  qed
  then show "b < brk (hm\<lparr>nodes := ?m\<rparr>) \<and> (\<exists>n. nodes (hm\<lparr>nodes := ?m\<rparr>) b = Some n \<and> hashv n = hash (node_k n)
     \<and> (\<forall>b' \<in> set as. \<forall>n'. nodes (hm\<lparr>nodes := ?m\<rparr>) b' = Some n' \<longrightarrow> eq (node_k n) (node_k n') \<longrightarrow> b = b'))"
    using nb c by (intro conjI exI [of _ c]) simp_all
qed

lemma rep_set_value:
  assumes s: "hm_shape hm as bs" and t: "hm_table hm" and ks: "hm_keys hash eq hm as"
    and a: "a \<in> set as" "eq k (node_k (the (nodes hm a)))"
  shows "\<exists>h. set_value hm a (Some x) = Some h
    \<and> hm_rep hash eq h (map (\<lambda>p. if eq k (fst p) then (fst p, x) else p) (map (\<lambda>a. entry (the (nodes hm a))) as))"
proof -
  obtain n where n: "nodes hm a = Some n" using ks a(1) by (auto simp: hm_keys_def)
  let ?n = "n\<lparr>node_v := x\<rparr>"
  let ?h = "hm\<lparr>nodes := (nodes hm)(a \<mapsto> ?n)\<rparr>"
  have "agree links (nodes hm) (nodes ?h) as" using n by (simp add: agree_upd links_def)
  moreover have "\<forall>b \<in> set as. map_option place (nodes ?h b) = map_option place (nodes hm b)" using n by (simp add: place_def)
  ultimately have "hm_shape ?h as bs" using s dseg_cong bkts_cong by (auto simp: hm_shape_def simp del: fun_upd_apply)
  moreover have "hm_table ?h" using t by (simp add: hm_table_def)
  moreover have "hm_keys hash eq ?h as" by (rule keys_upd_value [OF ks n])
  moreover have "entry (the (nodes ?h b)) = (if eq k (fst (entry (the (nodes hm b)))) then (fst (entry (the (nodes hm b))), x) else entry (the (nodes hm b)))"
    if b: "b \<in> set as" for b
  proof (cases "b = a")
    case True
    then show ?thesis using a(2) n by (simp add: entry_def)
  next
    case False
    obtain nb where nb: "nodes hm b = Some nb" using ks b by (auto simp: hm_keys_def)
    have "\<not> eq k (node_k nb)"
    proof
      assume "eq k (node_k nb)"
      moreover have "eq (node_k n) k" using a(2) n by (simp add: eq_sym)
      ultimately have "eq (node_k n) (node_k nb)" using eq_trans by blast
      then show False using hm_keys_unique [OF ks a(1) b n nb] False by simp
    qed
    then show ?thesis using False nb by (simp add: entry_def)
  qed
  then have "map (\<lambda>p. if eq k (fst p) then (fst p, x) else p) (map (\<lambda>a. entry (the (nodes hm a))) as)
    = map (\<lambda>a. entry (the (nodes ?h a))) as" by simp
  ultimately show ?thesis using n by (auto simp: set_value_def upd_node_def intro!: rep_intro)
qed

lemma found:
  assumes "hm_shape hm as bs" "hm_table hm" "hm_keys hash eq hm as"
  obtains p where "read_cell hm (Bucket (bucket_index (hm_mask hm) (hash k))) = Some p"
    "find_node eq (nodes hm) k p = Some (find (\<lambda>a. eq k (node_k (the (nodes hm a)))) as)"
proof -
  have "\<exists>p. read_cell hm (Bucket (bucket_index (hm_mask hm) (hash k))) = Some p"
    using table_index [OF assms(2)] by (simp add: read_cell_def rd_def)
  then show thesis using hm_At_eq [OF assms, of k] that by (auto simp: hm_At_def)
qed

lemma find_has: "find (\<lambda>a. eq k (node_k (the (nodes hm a)))) as = None \<longleftrightarrow> \<not> al_has eq k (map (\<lambda>a. entry (the (nodes hm a))) as)"
  by (auto simp: find_None_iff al_has_def entry_def)

lemma wp_Add:
  assumes rep: "hm_rep hash eq hm es" and len: "length es < 2 ^ 30"
  shows "wp (hm_Add hash eq z hm k (Some v)) (\<lambda>(r, a). hm_rep hash eq r (al_add eq k v es))"
proof -
  obtain as bs where r: "hm_shape hm as bs" "hm_table hm" "hm_keys hash eq hm as"
    and es: "es = map (\<lambda>a. entry (the (nodes hm a))) as" using rep by (auto simp: hm_rep_def)
  obtain p where p: "read_cell hm (Bucket (bucket_index (hm_mask hm) (hash k))) = Some p"
    "find_node eq (nodes hm) k p = Some (find (\<lambda>a. eq k (node_k (the (nodes hm a)))) as)" by (rule found [OF r])
  show ?thesis
  proof (cases "find (\<lambda>a. eq k (node_k (the (nodes hm a)))) as")
    case None
    then have new: "\<not> al_has eq k es" by (simp add: find_has es)
    show ?thesis using wp_new_node [OF rep len new, of z "Some v"] new None
      unfolding hm_Add_def p by (simp add: p al_add_def)
  next
    case (Some a)
    then have a: "a \<in> set as" "eq k (node_k (the (nodes hm a)))" by (auto simp: find_Some_iff)
    moreover have "al_has eq k es" using Some find_has [of k hm as] by (simp add: es)
    ultimately show ?thesis using rep_set_value [OF r a, of v] Some p by (auto simp: hm_Add_def al_add_def es)
  qed
qed

lemma wp_Put:
  assumes rep: "hm_rep hash eq hm es" and len: "length es < 2 ^ 30"
  shows "wp (hm_Put hash eq z hm k v) (\<lambda>(r, q). hm_rep hash eq r (al_put eq k (case v of None \<Rightarrow> z | Some x \<Rightarrow> x) es)
      \<and> (q = None \<longleftrightarrow> \<not> al_has eq k es))"
    "wp (hm_Insert hash eq z hm k v) (\<lambda>(r, a). hm_rep hash eq r (al_put eq k (case v of None \<Rightarrow> z | Some x \<Rightarrow> x) es))"
proof -
  obtain as bs where r: "hm_shape hm as bs" "hm_table hm" "hm_keys hash eq hm as"
    and es: "es = map (\<lambda>a. entry (the (nodes hm a))) as" using rep by (auto simp: hm_rep_def)
  obtain p where p: "read_cell hm (Bucket (bucket_index (hm_mask hm) (hash k))) = Some p"
    "find_node eq (nodes hm) k p = Some (find (\<lambda>a. eq k (node_k (the (nodes hm a)))) as)" by (rule found [OF r])
  have *: "wp (hm_Put hash eq z hm k v) (\<lambda>(r, q). hm_rep hash eq r (al_put eq k (case v of None \<Rightarrow> z | Some x \<Rightarrow> x) es)
      \<and> (q = None \<longleftrightarrow> \<not> al_has eq k es))
    \<and> wp (hm_Insert hash eq z hm k v) (\<lambda>(r, a). hm_rep hash eq r (al_put eq k (case v of None \<Rightarrow> z | Some x \<Rightarrow> x) es))"
  proof (cases "find (\<lambda>a. eq k (node_k (the (nodes hm a)))) as")
    case None
    then have new: "\<not> al_has eq k es" by (simp add: find_has es)
    show ?thesis using wp_new_node [OF rep len new, of z v] new None
      by (simp add: hm_Put_def hm_Insert_def p al_put_def)
  next
    case (Some a)
    then have "al_has eq k es" using find_has [of k hm as] by (simp add: es)
    then show ?thesis using Some p rep by (simp add: hm_Put_def hm_Insert_def al_put_def)
  qed
  then show "wp (hm_Put hash eq z hm k v) (\<lambda>(r, q). hm_rep hash eq r (al_put eq k (case v of None \<Rightarrow> z | Some x \<Rightarrow> x) es)
      \<and> (q = None \<longleftrightarrow> \<not> al_has eq k es))"
    "wp (hm_Insert hash eq z hm k v) (\<lambda>(r, a). hm_rep hash eq r (al_put eq k (case v of None \<Rightarrow> z | Some x \<Rightarrow> x) es))"
    by simp_all
qed

end

end
