(* ===== verification/HashMapDel.thy ===== *)
theory HashMapDel
  imports HashMapSpec
begin

text \<open>
  Removing an entry: \<open>Del\<close> and \<open>Erase\<close> are \<open>al_del\<close> on the entries a hash map represents.
\<close>

lemma takeWhile_dropWhile_split: "dropWhile (\<lambda>a. \<not> P a) xs = b # ys \<Longrightarrow> P b \<and> b \<in> set xs \<and> xs = takeWhile (\<lambda>a. \<not> P a) xs @ b # ys"
proof -
  assume d: "dropWhile (\<lambda>a. \<not> P a) xs = b # ys"
  then have "xs = takeWhile (\<lambda>a. \<not> P a) xs @ b # ys" using takeWhile_dropWhile_id [of "\<lambda>a. \<not> P a" xs] by simp
  moreover have "P b" using hd_dropWhile [of "\<lambda>a. \<not> P a" xs] d by auto
  moreover have "b \<in> set xs" using d by (metis list.set_intros(1) set_dropWhileD)
  ultimately show ?thesis by simp
qed

context hash_key
begin

lemma find_key_cell:
  assumes "hm_shape hm as bs" "hm_table hm" "hm_keys hash eq hm as" and es: "es = map (\<lambda>a. entry (the (nodes hm a))) as"
    and i: "i = bucket_index (hm_mask hm) (hash k)"
  shows "(\<not> al_has eq k es \<and> find_cell eq hm k (Bucket i) = Some None) \<or>
    (\<exists>us a vs. bs ! i = us @ a # vs \<and> a \<in> set as \<and> eq k (node_k (the (nodes hm a))) \<and> find_cell eq hm k (Bucket i) = Some (Some (cell_at i us)))"
proof -
  let ?P = "\<lambda>a. eq k (node_k (the (nodes hm a)))"
  have il: "i < length (buckets hm)" unfolding i using assms(2) by (rule table_index)
  have b: "bkts (nodes hm) (hm_mask hm) (buckets hm) bs (set as)" using assms(1) by (simp add: hm_shape_def)
  have rc: "read_cell hm (Bucket i) = Some (buckets hm ! i)" using il by (simp add: read_cell_def rd_def)
  note f = find_cell_eq [OF bktsD(1) [OF b il] rc, of eq k]
  have fb: "find ?P (bs ! i) = find ?P as" by (rule find_bucket [OF assms(3) b i il])
  show ?thesis
  proof (cases "dropWhile (\<lambda>a. \<not> ?P a) (bs ! i)")
    case Nil
    then have "find ?P (bs ! i) = None" by (auto simp: find_None_iff)
    then have "\<not> al_has eq k es" using fb find_has [of k hm as] es by simp
    then show ?thesis using f Nil by simp
  next
    case (Cons a vs)
    let ?us = "takeWhile (\<lambda>a. \<not> ?P a) (bs ! i)"
    have s: "?P a" "a \<in> set (bs ! i)" "bs ! i = ?us @ a # vs" using takeWhile_dropWhile_split [OF Cons] by blast+
    have "a \<in> set as" using s(2) bktsD(3) [OF b il] by auto
    moreover have "find_cell eq hm k (Bucket i) = Some (Some (cell_at i ?us))"
      using f Cons by (cases ?us) auto
    ultimately show ?thesis using s by blast
  qed
qed

lemma al_del_none: "\<not> al_has eq k es \<Longrightarrow> al_del eq k es = es"
  by (auto simp: al_has_def al_del_def filter_id_conv)

lemma rep_del_node:
  assumes r: "hm_shape hm as bs" "hm_table hm" "hm_keys hash eq hm as" and es: "es = map (\<lambda>a. entry (the (nodes hm a))) as"
    and a: "i < length (buckets hm)" "bs ! i = us @ a # vs" "eq k (node_k (the (nodes hm a)))"
  shows "\<exists>h n. nodes hm a = Some n \<and> read_cell hm (cell_at i us) = Some (Some a)
    \<and> hm_DelNode hm (cell_at i us) = Some (h, True) \<and> hm_rep hash eq h (al_del eq k es) \<and> al_get eq k es = Some (node_v n)
    \<and> entry n \<in> set es \<and> eq k (node_k n)"
proof -
  obtain h n bs' where n: "nodes hm a = Some n" "a \<in> set as" "read_cell hm (cell_at i us) = Some (Some a)"
    and h: "hm_DelNode hm (cell_at i us) = Some (h, True)" "hm_shape h (remove1 a as) bs'" "hm_table h" "brk h = brk hm"
      "same_content (nodes hm) (nodes h) (set as - {a})"
    using wp_DelNode [OF r(1,2) a(1,2)] by blast
  have dist: "distinct as" using r(1) by (simp add: hm_shape_def)
  have ras: "remove1 a as = filter (\<lambda>b. b \<noteq> a) as" using distinct_remove1_removeAll [OF dist, of a] by (auto simp: removeAll_filter_not_eq intro: filter_cong)
  have kn: "eq k (node_k n)" using a(3) n(1) by simp
  have ka: "eq k (node_k (the (nodes hm b))) \<longleftrightarrow> b = a" if b: "b \<in> set as" for b
  proof
    assume e: "eq k (node_k (the (nodes hm b)))"
    from r(3) b have "\<exists>nb. nodes hm b = Some nb" unfolding hm_keys_def by blast
    then obtain nb where nb: "nodes hm b = Some nb" ..
    then have "eq (node_k nb) (node_k n)" using e kn eq_sym eq_trans by (metis option.sel)
    then show "b = a" by (rule hm_keys_unique [OF r(3) b n(2) nb n(1)])
  qed (use a(3) in simp)
  have sub: "set (remove1 a as) \<subseteq> set as" by (rule set_remove1_subset)
  have c: "same_content (nodes hm) (nodes h) (set (remove1 a as))" using h(5) dist by simp
  have k1: "hm_keys hash eq hm (remove1 a as)" using r(3) sub unfolding hm_keys_def by blast
  have "hm_keys hash eq h (remove1 a as)" using keys_same_content [OF k1 c] h(4) by simp
  moreover have "al_del eq k es = map (\<lambda>a. entry (the (nodes h a))) (remove1 a as)"
  proof -
    have "al_del eq k es = map (\<lambda>a. entry (the (nodes hm a))) (filter (\<lambda>b. \<not> eq k (node_k (the (nodes hm b)))) as)"
      by (simp add: al_del_def es filter_map comp_def entry_def)
    also have "filter (\<lambda>b. \<not> eq k (node_k (the (nodes hm b)))) as = remove1 a as"
      unfolding ras using ka by (intro filter_cong) auto
    finally show ?thesis using entries_same_content [OF k1 c] by simp
  qed
  ultimately have "hm_rep hash eq h (al_del eq k es)" using h(2,3) by (auto simp: hm_rep_def)
  moreover have "al_get eq k es = Some (node_v n)"
  proof -
    have "find (\<lambda>b. eq k (node_k (the (nodes hm b)))) as \<noteq> None" using n(2) a(3) by (auto simp: find_None_iff)
    then obtain b where b: "find (\<lambda>b. eq k (node_k (the (nodes hm b)))) as = Some b" by blast
    then have "b \<in> set as" "eq k (node_k (the (nodes hm b)))" by (auto simp: find_Some_iff)
    then have "b = a" using ka by simp
    then show ?thesis using b n(1) by (simp add: al_get_def es find_map_eq comp_def entry_def)
  qed
  moreover have "entry n \<in> set es" using n(1,2) es by force
  ultimately show ?thesis using n h(1) kn by blast
qed

lemma wp_Del:
  assumes rep: "hm_rep hash eq hm es"
  shows "\<exists>h. hm_Del hash eq hm k = Some (h, al_has eq k es) \<and> hm_rep hash eq h (al_del eq k es)"
    "\<exists>h. hm_Erase hash eq hm k = Some (h, find (\<lambda>p. eq k (fst p)) es) \<and> hm_rep hash eq h (al_del eq k es)"
proof -
  obtain as bs where r: "hm_shape hm as bs" "hm_table hm" "hm_keys hash eq hm as"
    and es: "es = map (\<lambda>a. entry (the (nodes hm a))) as" using rep by (auto simp: hm_rep_def)
  let ?i = "bucket_index (hm_mask hm) (hash k)"
  have il: "?i < length (buckets hm)" using r(2) by (rule table_index)
  consider (none) "\<not> al_has eq k es" "find_cell eq hm k (Bucket ?i) = Some None"
    | (some) us a vs where "bs ! ?i = us @ a # vs" "a \<in> set as" "eq k (node_k (the (nodes hm a)))"
        "find_cell eq hm k (Bucket ?i) = Some (Some (cell_at ?i us))"
    using find_key_cell [OF r es refl] by blast
  then have "(\<exists>h. hm_Del hash eq hm k = Some (h, al_has eq k es) \<and> hm_rep hash eq h (al_del eq k es))
    \<and> (\<exists>h. hm_Erase hash eq hm k = Some (h, find (\<lambda>p. eq k (fst p)) es) \<and> hm_rep hash eq h (al_del eq k es))"
  proof cases
    case none
    then have "find (\<lambda>p. eq k (fst p)) es = None" by (auto simp: al_has_def find_None_iff)
    then show ?thesis using none rep by (simp add: hm_Del_def hm_Erase_def al_del_none)
  next
    case some
    obtain h n where d: "nodes hm a = Some n" "read_cell hm (cell_at ?i us) = Some (Some a)"
      "hm_DelNode hm (cell_at ?i us) = Some (h, True)" "hm_rep hash eq h (al_del eq k es)"
      using rep_del_node [OF r es il some(1,3)] by blast
    have "al_has eq k es" using some(2,3) es by (auto simp: al_has_def entry_def)
    moreover have "find (\<lambda>p. eq k (fst p)) es = Some (entry n)"
    proof -
      have "find (\<lambda>b. eq k (node_k (the (nodes hm b)))) as = Some a"
      proof -
        have "find (\<lambda>b. eq k (node_k (the (nodes hm b)))) as \<noteq> None" using some(2,3) by (auto simp: find_None_iff)
        then obtain b where b: "find (\<lambda>b. eq k (node_k (the (nodes hm b)))) as = Some b" by blast
        then have bb: "b \<in> set as" "eq k (node_k (the (nodes hm b)))" by (auto simp: find_Some_iff)
        from r(3) bb(1) have "\<exists>nb. nodes hm b = Some nb" unfolding hm_keys_def by blast
        then obtain nb where nb: "nodes hm b = Some nb" ..
        then have "eq (node_k nb) (node_k n)" using bb(2) some(3) d(1) eq_sym eq_trans by (metis option.sel)
        then have "b = a" by (rule hm_keys_unique [OF r(3) bb(1) some(2) nb d(1)])
        then show ?thesis using b by simp
      qed
      then show ?thesis using d(1) by (simp add: es find_map_eq comp_def entry_def)
    qed
    ultimately show ?thesis using d some(4) by (simp add: hm_Del_def hm_Erase_def entry_def)
  qed
  then show "\<exists>h. hm_Del hash eq hm k = Some (h, al_has eq k es) \<and> hm_rep hash eq h (al_del eq k es)"
    "\<exists>h. hm_Erase hash eq hm k = Some (h, find (\<lambda>p. eq k (fst p)) es) \<and> hm_rep hash eq h (al_del eq k es)"
    by simp_all
qed

end

end
