(* ===== verification/HashMapLaws.thy ===== *)
theory HashMapLaws
  imports HashMapDel
begin

text \<open>
  Construction, clearing and resizing as operations on the entries; the hash map provides the
  interface of a dictionary; and the states a hash map can reach.
\<close>

section \<open>Construction and clearing\<close>

lemma hm_Init_simps [simp]:
  "nodes hm_Init = Map.empty" "hm_first hm_Init = None" "hm_last hm_Init = None" "hm_count hm_Init = 0"
  "capacity hm_Init = 8" "hm_mask hm_Init = 7" "rehash_threshold hm_Init = threshold_of 8" "brk hm_Init = 0"
  "buckets hm_Init = replicate 8 None"
  by (simp_all add: hm_Init_def FKL_HASH_DEFAULT_CAPACITY_SHIFT_def Let_def push_bit_eq_mult)

lemma rep_empty:
  assumes "nodes hm = m" "hm_first hm = None" "hm_last hm = None" "hm_count hm = 0" "hm_table hm"
    "buckets hm = replicate (length (buckets hm)) None"
  shows "hm_rep hash eq hm []"
proof -
  have "bkts (nodes hm) (hm_mask hm) (buckets hm) (replicate (length (buckets hm)) []) {}"
    using assms(6) bkts_empty by metis
  then have "hm_shape hm [] (replicate (length (buckets hm)) [])" using assms by (simp add: hm_shape_def)
  then show ?thesis using assms(5) by (auto simp: hm_rep_def hm_keys_def)
qed

lemma rep_Init: "hm_rep hash eq hm_Init []"
proof (rule rep_empty [OF refl])
  have "unat (8 :: u32) = 2 ^ 3" by simp
  then show "hm_table hm_Init" unfolding hm_table_def by (intro conjI exI [of _ 3]) simp_all
qed simp_all

lemma wp_free_nodes:
  "dseg m l p as l' None \<Longrightarrow> distinct as \<Longrightarrow> free_nodes m p = Some (m |` (- set as))"
proof (induction as arbitrary: m l p)
  case Nil
  then show ?case by (simp add: free_nodes.simps [of m None] restrict_map_def)
next
  case (Cons a as)
  then obtain n where n: "p = Some a" "m a = Some n" "dseg m (Some a) (node_next n) as l' None" by auto
  have "dseg (m(a := None)) (Some a) (node_next n) as l' None"
    using n(3) Cons.prems(2) by (intro dseg_cong [OF agree_other]) auto
  then have "free_nodes (m(a := None)) (node_next n) = Some ((m(a := None)) |` (- set as))"
    using Cons.IH [of "m(a := None)"] Cons.prems(2) by (simp del: fun_upd_apply restrict_fun_upd)
  moreover have "(m(a := None)) |` (- set as) = m |` (- set (a # as))" by (auto simp: restrict_map_def)
  ultimately show ?case using n(1,2) by (simp add: free_nodes.simps [of m "Some a"] del: restrict_fun_upd)
qed

text \<open>Clearing frees every node and keeps the capacity.\<close>

lemma rep_Clear:
  assumes "hm_rep hash eq hm es"
  shows "\<exists>h. hm_Clear hm = Some h \<and> hm_rep hash eq h [] \<and> capacity h = capacity hm"
    "\<exists>h. hm_Uninit hm = Some h \<and> buckets h = [] \<and> hm_count h = 0 \<and> hm_first h = None"
proof -
  obtain as bs where r: "hm_shape hm as bs" "hm_table hm" using assms by (auto simp: hm_rep_def)
  then have f: "free_nodes (nodes hm) (hm_first hm) = Some (nodes hm |` (- set as))"
    using wp_free_nodes by (auto simp: hm_shape_def)
  let ?h = "hm\<lparr>buckets := replicate (unat (capacity hm)) None, hm_count := 0, nodes := nodes hm |` (- set as), hm_first := None, hm_last := None\<rparr>"
  have c: "hm_Clear hm = Some ?h" using f by (simp add: hm_Clear_def)
  have "hm_rep hash eq ?h []"
  proof (rule rep_empty [OF refl])
    show "hm_table ?h" using r(2) by (simp add: hm_table_def)
  qed simp_all
  with c show "\<exists>h. hm_Clear hm = Some h \<and> hm_rep hash eq h [] \<and> capacity h = capacity hm" by fastforce
  show "\<exists>h. hm_Uninit hm = Some h \<and> buckets h = [] \<and> hm_count h = 0 \<and> hm_first h = None"
    using f by (simp add: hm_Uninit_def)
qed

section \<open>Resizing\<close>

text \<open>Smearing the bits: the \<open>j\<close> bits below and at the topmost one \<open>t\<close> are set.\<close>

definition smeared :: "nat \<Rightarrow> nat \<Rightarrow> u32 \<Rightarrow> bool" where
  "smeared t j c \<longleftrightarrow> (\<forall>i. (t < i \<longrightarrow> \<not> bit c i) \<and> (i \<le> t \<longrightarrow> t < i + j \<longrightarrow> bit c i))"

lemma smeared_step:
  assumes s: "smeared t j c" and "s \<le> j" "t < 32"
  shows "smeared t (j + s) (c OR drop_bit s c)"
  unfolding smeared_def
proof (intro allI conjI impI)
  fix i
  have b: "bit (c OR drop_bit s c) i \<longleftrightarrow> bit c i \<or> bit c (s + i)" by (simp add: bit_or_iff bit_drop_bit_eq)
  show "\<not> bit (c OR drop_bit s c) i" if "t < i"
    using that s b by (auto simp: smeared_def)
  show "bit (c OR drop_bit s c) i" if "i \<le> t" "t < i + (j + s)"
  proof (cases "t < i + j")
    case True
    then show ?thesis using that s b by (simp add: smeared_def)
  next
    case False
    then have "s + i \<le> t" "t < (s + i) + j" using that assms(2) by linarith+
    then show ?thesis using s b by (simp add: smeared_def)
  qed
qed

lemma smeared_all: "smeared t 32 c \<Longrightarrow> t < 32 \<Longrightarrow> c = mask (Suc t)"
proof (rule bit_eqI)
  fix n assume c: "smeared t 32 c" "t < 32" and "possible_bit TYPE(32 word) n"
  then have "bit c n \<longleftrightarrow> n \<le> t" by (cases "n \<le> t") (auto simp: smeared_def)
  then show "bit c n \<longleftrightarrow> bit (mask (Suc t) :: u32) n" using c(2) by (auto simp: bit_mask_iff less_Suc_eq_le)
qed

lemma zero_if_no_bit: "\<forall>i. \<not> bit c i \<Longrightarrow> c = 0" for c :: u32
  by (rule bit_eqI) simp

lemma bit_power_le: "bit n t \<Longrightarrow> 2 ^ t \<le> n" for n :: nat
proof (rule ccontr)
  assume b: "bit n t" and "\<not> 2 ^ t \<le> n"
  then have "take_bit t n = n" by (simp add: take_bit_nat_eq_self)
  then show False using b by (metis bit_take_bit_iff less_irrefl)
qed

lemma top_bit: "c \<noteq> 0 \<Longrightarrow> \<exists>t < 32. bit c t \<and> (\<forall>i > t. \<not> bit c i)" for c :: u32
proof -
  assume "c \<noteq> 0"
  then have ex: "\<exists>i. bit c i" using zero_if_no_bit [of c] by blast
  have lim: "bit c i \<Longrightarrow> i < 32" for i using bit_imp_le_length [of c i] by simp
  have fin: "finite {i. bit c i}" by (rule finite_subset [of _ "{..<32}"]) (use lim in blast, simp)
  have "bit c (Max {i. bit c i})" using Max_in [OF fin] ex by blast
  moreover have "\<not> bit c i" if "Max {i. bit c i} < i" for i
    using Max_ge [OF fin, of i] that by fastforce
  ultimately show ?thesis using lim by blast
qed

lemma shrunk_capacity_mask:
  assumes "n \<noteq> 0" "n - 1 \<noteq> 0"
  shows "\<exists>t < 32. bit (n - 1) t \<and> (\<forall>i > t. \<not> bit (n - 1) i) \<and> shrunk_capacity n = mask (Suc t) + 1"
proof -
  let ?c = "n - 1"
  obtain t where t: "bit ?c t" "t < 32" "\<And>i. t < i \<Longrightarrow> \<not> bit ?c i" using top_bit [OF assms(2)] by blast
  define c1 where "c1 = ?c OR drop_bit 1 ?c"
  define c2 where "c2 = c1 OR drop_bit 2 c1"
  define c3 where "c3 = c2 OR drop_bit 4 c2"
  define c4 where "c4 = c3 OR drop_bit 8 c3"
  define c5 where "c5 = c4 OR drop_bit 16 c4"
  have "smeared t 1 ?c" using t by (auto simp: smeared_def dest: le_antisym)
  then have "smeared t 2 c1" using smeared_step [of t 1 ?c 1] t(2) by (simp add: c1_def numeral_2_eq_2)
  then have "smeared t 4 c2" using smeared_step [of t 2 c1 2] t(2) by (simp add: c2_def)
  then have "smeared t 8 c3" using smeared_step [of t 4 c2 4] t(2) by (simp add: c3_def)
  then have "smeared t 16 c4" using smeared_step [of t 8 c3 8] t(2) by (simp add: c4_def)
  then have "smeared t 32 c5" using smeared_step [of t 16 c4 16] t(2) by (simp add: c5_def)
  then have "c5 = mask (Suc t)" using smeared_all t(2) by blast
  moreover have "shrunk_capacity n = c5 + 1"
    using assms(1) by (simp add: shrunk_capacity_def Let_def c1_def c2_def c3_def c4_def c5_def)
  ultimately show ?thesis using t by auto
qed

text \<open>It is the least power of two that is not below the number of entries.\<close>

lemma shrunk_capacity_power:
  assumes n: "0 < unat n" "unat n \<le> 2 ^ 31"
  shows "\<exists>k < 32. unat (shrunk_capacity n) = 2 ^ k \<and> unat n \<le> 2 ^ k \<and> 2 ^ k < 2 * unat n"
proof (cases "n - 1 = 0")
  case True
  then have "n = 1" by simp
  then have "unat (shrunk_capacity n) = 2 ^ 0" "unat n = 1" by (simp_all add: shrunk_capacity_def)
  then show ?thesis by (intro exI [of _ 0]) simp
next
  case False
  have nz: "n \<noteq> 0" using n(1) by auto
  obtain t where t: "t < 32" "bit (n - 1) t" "\<And>i. t < i \<Longrightarrow> \<not> bit (n - 1) i" "shrunk_capacity n = mask (Suc t) + 1"
    using shrunk_capacity_mask [OF nz False] by blast
  have u: "unat (n - 1) = unat n - 1" using n(1) by (simp add: unat_minus_one nz)
  have "2 ^ t \<le> unat (n - 1)"
  proof -
    have "bit (unat (n - 1)) t" using t(2) by (simp add: bit_unsigned_iff)
    then show ?thesis by (rule bit_power_le)
  qed
  moreover have "unat (n - 1) < 2 ^ Suc t"
  proof -
    have "take_bit (Suc t) (n - 1) = n - 1"
    proof (rule bit_eqI)
      fix i
      show "bit (take_bit (Suc t) (n - 1)) i \<longleftrightarrow> bit (n - 1) i"
        using t(3) [of i] by (cases "t < i") (auto simp: bit_take_bit_iff)
    qed
    then have "take_bit (Suc t) (unat (n - 1)) = unat (n - 1)" by (metis unsigned_take_bit_eq)
    then show ?thesis by (simp add: take_bit_nat_eq_self_iff)
  qed
  ultimately have b: "2 ^ t \<le> unat n - 1" "unat n - 1 < 2 ^ Suc t" using u by simp_all
  then have "(2::nat) ^ t < 2 ^ 31" using n by linarith
  then have t31: "t < 31" using power_less_imp_less_exp [of "2::nat" t 31] by simp
  have "shrunk_capacity n = of_nat (2 ^ Suc t)" by (simp add: t(4) mask_eq_exp_minus_1)
  moreover have "(2::nat) ^ Suc t \<le> 2 ^ 31" using t31 by (intro power_increasing) auto
  ultimately have "unat (shrunk_capacity n) = 2 ^ Suc t"
    by (simp only: unsigned_of_nat take_bit_nat_eq_self) (simp add: take_bit_nat_eq_self)
  then show ?thesis using t31 b n(1) by (intro exI [of _ "Suc t"]) auto
qed

lemma same_core_rep:
  assumes "hm_shape r as bs" "hm_table r" "hm_keys hash eq hm as" "same_core (nodes hm) (nodes r)" "brk r = brk hm"
  shows "hm_rep hash eq r (map (\<lambda>a. entry (the (nodes hm a))) as)"
proof -
  have c: "same_content (nodes hm) (nodes r) (set as)" using assms(4) by (rule same_core_content)
  have "hm_keys hash eq r as" using keys_same_content [OF assms(3) c] assms(5) by simp
  then show ?thesis using assms(1,2) entries_same_content [OF assms(3) c] by (auto simp: hm_rep_def)
qed

lemma rep_resize:
  assumes rep: "hm_rep hash eq hm es" and c: "unat c = 2 ^ k" "k < 32"
  shows "wp (relink (resized hm c) (hm_first hm)) (\<lambda>r. hm_rep hash eq r es \<and> capacity r = c)"
proof -
  obtain as bs where r: "hm_shape hm as bs" "hm_keys hash eq hm as" "es = map (\<lambda>a. entry (the (nodes hm a))) as"
    using rep by (auto simp: hm_rep_def)
  show ?thesis using wp_resize [OF r(1) c] by (rule wp_mono) (use r same_core_rep in blast)
qed

lemma rep_table: "hm_rep hash eq hm es \<Longrightarrow> \<exists>k < 32. unat (capacity hm) = 2 ^ k"
  by (auto simp: hm_rep_def hm_table_def)

lemma rep_count: "hm_rep hash eq hm es \<Longrightarrow> unat (hm_count hm) = length es"
  by (auto simp: hm_rep_def hm_shape_def)

lemma rep_Rehash:
  assumes rep: "hm_rep hash eq hm es"
  shows "wp (hm_Rehash hm) (\<lambda>r. hm_rep hash eq r es \<and> capacity r = capacity hm)"
proof -
  obtain k where k: "k < 32" "unat (capacity hm) = 2 ^ k" using rep_table [OF rep] by blast
  have "hm\<lparr>buckets := replicate (unat (capacity hm)) None\<rparr> = resized hm (capacity hm)"
    using rep by (cases hm) (auto simp: resized_def hm_rep_def hm_table_def)
  then show ?thesis using rep_resize [OF rep k(2,1)] by (simp add: hm_Rehash_def)
qed

lemma rep_Grow:
  assumes rep: "hm_rep hash eq hm es" and c: "unat (capacity hm) < 2 ^ 31"
  shows "wp (hm_Grow hm) (\<lambda>r. hm_rep hash eq r es \<and> unat (capacity r) = 2 * unat (capacity hm))"
proof -
  obtain k where k: "k < 32" "unat (capacity hm) = 2 ^ k" using rep_table [OF rep] by blast
  then have "(2::nat) ^ k < 2 ^ 31" using c by simp
  then have k31: "Suc k < 32" using power_less_imp_less_exp [of "2::nat" k 31] by simp
  have u: "unat (push_bit 1 (capacity hm)) = 2 * unat (capacity hm)"
    using c by (simp add: push_bit_eq_mult unat_word_ariths)
  then have "unat (push_bit 1 (capacity hm)) = 2 ^ Suc k" using k(2) by simp
  note w = rep_resize [OF rep this k31]
  have "hm_Grow hm = relink (resized hm (push_bit 1 (capacity hm))) (hm_first hm)"
    by (simp only: hm_Grow_def Let_def resized_def)
  then show ?thesis using wp_mono [OF w] u by simp
qed

lemma rep_Shrink:
  assumes rep: "hm_rep hash eq hm es" and c: "length es \<le> 2 ^ 31"
  shows "wp (hm_Shrink hm) (\<lambda>r. hm_rep hash eq r es \<and> unat (capacity r) = min (unat (capacity hm)) (unat (shrunk_capacity (hm_count hm))))"
proof (cases "capacity hm \<le> shrunk_capacity (hm_count hm)")
  case True
  then show ?thesis using rep by (simp add: hm_Shrink_def min_def word_le_nat_alt)
next
  case False
  let ?c = "shrunk_capacity (hm_count hm)"
  have "\<exists>k < 32. unat ?c = 2 ^ k"
  proof (cases "hm_count hm = 0")
    case True
    have "unat ?c = 2 ^ 3" using True by (simp add: shrunk_capacity_def FKL_HASH_DEFAULT_CAPACITY_SHIFT_def push_bit_eq_mult)
    then show ?thesis by (intro exI [of _ 3]) simp
  next
    case False
    then have "0 < unat (hm_count hm)" by (simp add: unat_gt_0)
    then show ?thesis using shrunk_capacity_power [of "hm_count hm"] c rep_count [OF rep] by auto
  qed
  then obtain k where k: "k < 32" "unat ?c = 2 ^ k" by blast
  have "hm_Shrink hm = relink (resized hm ?c) (hm_first hm)"
    using False by (simp add: hm_Shrink_def Let_def hm_Rehash_def resized_def)
  moreover have "unat ?c = min (unat (capacity hm)) (unat ?c)" using False by (simp add: word_le_nat_alt min_def)
  ultimately show ?thesis using rep_resize [OF rep k(2,1)] by (auto intro: wp_mono)
qed

end
