(* ===== verification/HashMapProps.thy ===== *)
theory HashMapProps
  imports HashMapLaws
begin

text \<open>
  The hash map as a provider of the interface \<open>dict\<close>, the states its operations can reach, and the
  properties of the component.
\<close>

section \<open>What a represented map looks like\<close>

lemma walk_dseg:
  "dseg m l p as l' None \<Longrightarrow> walk m p = Some (map (\<lambda>a. entry (the (m a))) as)"
proof (induction as arbitrary: l p)
  case Nil
  then show ?case by (simp add: walk.simps [of m None])
next
  case (Cons a as)
  then show ?case by (auto simp: walk.simps [of m "Some a"] entry_def)
qed

lemma rep_entries: "hm_rep hash eq hm es \<Longrightarrow> hm_entries hm = Some es"
  unfolding hm_rep_def hm_shape_def hm_entries_def using walk_dseg by blast

lemma rep_keys: "hm_rep hash eq hm es \<Longrightarrow> al_keys eq es"
proof -
  assume "hm_rep hash eq hm es"
  then obtain as where k: "hm_keys hash eq hm as" and d: "distinct as"
    and es: "es = map (\<lambda>a. entry (the (nodes hm a))) as"
    by (auto simp: hm_rep_def hm_shape_def)
  show ?thesis unfolding al_keys_def
  proof (intro allI impI)
    fix i j assume i: "i < length es" "j < length es" and e: "eq (fst (es ! i)) (fst (es ! j))"
    then have l: "as ! i \<in> set as" "as ! j \<in> set as" using es by auto
    then obtain n n' where n: "nodes hm (as ! i) = Some n" "nodes hm (as ! j) = Some n'"
      using k unfolding hm_keys_def by blast
    then have "eq (node_k n) (node_k n')" using e i es by (simp add: entry_def)
    then have "as ! i = as ! j" by (rule hm_keys_unique [OF k l n])
    then show "i = j" using d i es by (simp add: nth_eq_iff_index_eq)
  qed
qed

section \<open>The interface\<close>

text \<open>A hash map with values that can be zeroed.\<close>

locale hash_store = hash_key +
  fixes z :: 'v
begin

lemma get_law: "hm_rep hash eq m es \<Longrightarrow> hm_Get hash eq m k = Some (al_get eq k es)"
  by (rule rep_Get)

lemma add_law: "hm_rep hash eq m es \<Longrightarrow> length es < 2 ^ 30
  \<Longrightarrow> wp (map_option fst (hm_Add hash eq z m k (Some v))) (\<lambda>m. hm_rep hash eq m (al_add eq k v es))"
  using wp_Add [of m es z k v] by (auto elim!: wpE)

lemma put_law: "hm_rep hash eq m es \<Longrightarrow> length es < 2 ^ 30
  \<Longrightarrow> wp (map_option fst (hm_Put hash eq z m k (Some v))) (\<lambda>m. hm_rep hash eq m (al_put eq k v es))"
  using wp_Put(1) [of m es z k "Some v"] by (auto elim!: wpE)

lemma del_law: "hm_rep hash eq m es
  \<Longrightarrow> wp (map_option fst (hm_Del hash eq m k)) (\<lambda>m. hm_rep hash eq m (al_del eq k es))"
  using wp_Del(1) [of m es k] by auto

lemma wp_Add_zero: "hm_rep hash eq m es \<Longrightarrow> length es < 2 ^ 30
  \<Longrightarrow> wp (hm_Add hash eq z m k None) (\<lambda>(r, a). hm_rep hash eq r (al_put eq k z es))"
proof -
  assume rep: "hm_rep hash eq m es" and len: "length es < 2 ^ 30"
  obtain as bs where r: "hm_shape m as bs" "hm_table m" "hm_keys hash eq m as"
    and es: "es = map (\<lambda>a. entry (the (nodes m a))) as" using rep by (auto simp: hm_rep_def)
  obtain p where p: "read_cell m (Bucket (bucket_index (hm_mask m) (hash k))) = Some p"
    "find_node eq (nodes m) k p = Some (find (\<lambda>a. eq k (node_k (the (nodes m a)))) as)" by (rule found [OF r])
  show ?thesis
  proof (cases "find (\<lambda>a. eq k (node_k (the (nodes m a)))) as")
    case None
    then have n: "\<not> al_has eq k es" using find_has [of k m as] es by blast
    have "hm_Add hash eq z m k None
      = do { let (hm, a) = hm_CreateNode z m (hash k) k; hm \<leftarrow> set_value hm a None; hm \<leftarrow> hm_InsertNode hm a; Some (hm, a) }"
      using p None by (simp add: hm_Add_def)
    then show ?thesis using wp_new_node [OF rep len n, of z None] n by (simp add: al_put_def)
  next
    case (Some a)
    then have "al_has eq k es" using find_has [of k m as] es by simp
    then show ?thesis using p Some rep by (simp add: hm_Add_def set_value_def al_put_def)
  qed
qed

end

sublocale hash_store \<subseteq> hm: dict "hm_rep hash eq" eq "2 ^ 30" "hm_Get hash eq"
  "\<lambda>m k v. map_option fst (hm_Add hash eq z m k (Some v))" "\<lambda>m k v. map_option fst (hm_Put hash eq z m k (Some v))"
  "\<lambda>m k. map_option fst (hm_Del hash eq m k)"
proof
  show "eq k k" for k by (rule eq_refl)
  show "eq k l \<Longrightarrow> eq l k" for k l by (rule eq_sym)
  show "eq k l \<Longrightarrow> eq l j \<Longrightarrow> eq k j" for k l j by (rule eq_trans)
qed (rule get_law add_law put_law del_law; assumption)+

interpretation default_store: hash_store hm_default_hash "(=)" z for z
  by unfold_locales

section \<open>Reachable states\<close>

text \<open>
  The steps of a client: any operation on the map, insertions while it has fewer than \<open>2 ^ 30\<close>
  entries (at \<open>2 ^ 31\<close> buckets the capacity of the code cannot double any more).
\<close>

inductive hm_step :: "('k \<Rightarrow> u64) \<Rightarrow> ('k \<Rightarrow> 'k \<Rightarrow> bool) \<Rightarrow> 'v \<Rightarrow> ('k, 'v) hmap \<Rightarrow> ('k, 'v) hmap \<Rightarrow> bool"
  for hash eq z where
  step_Add: "unat (hm_count hm) < 2 ^ 30 \<Longrightarrow> hm_Add hash eq z hm k v = Some (hm', a) \<Longrightarrow> hm_step hash eq z hm hm'"
| step_Put: "unat (hm_count hm) < 2 ^ 30 \<Longrightarrow> hm_Put hash eq z hm k v = Some (hm', r) \<Longrightarrow> hm_step hash eq z hm hm'"
| step_Insert: "unat (hm_count hm) < 2 ^ 30 \<Longrightarrow> hm_Insert hash eq z hm k v = Some (hm', a) \<Longrightarrow> hm_step hash eq z hm hm'"
| step_Del: "hm_Del hash eq hm k = Some (hm', b) \<Longrightarrow> hm_step hash eq z hm hm'"
| step_Erase: "hm_Erase hash eq hm k = Some (hm', e) \<Longrightarrow> hm_step hash eq z hm hm'"
| step_Clear: "hm_Clear hm = Some hm' \<Longrightarrow> hm_step hash eq z hm hm'"
| step_Rehash: "hm_Rehash hm = Some hm' \<Longrightarrow> hm_step hash eq z hm hm'"
| step_Grow: "unat (capacity hm) < 2 ^ 31 \<Longrightarrow> hm_Grow hm = Some hm' \<Longrightarrow> hm_step hash eq z hm hm'"
| step_Shrink: "hm_Shrink hm = Some hm' \<Longrightarrow> hm_step hash eq z hm hm'"

inductive hm_reach :: "('k \<Rightarrow> u64) \<Rightarrow> ('k \<Rightarrow> 'k \<Rightarrow> bool) \<Rightarrow> 'v \<Rightarrow> ('k, 'v) hmap \<Rightarrow> bool" for hash eq z where
  reach_Init: "hm_reach hash eq z hm_Init"
| reach_step: "hm_reach hash eq z hm \<Longrightarrow> hm_step hash eq z hm hm' \<Longrightarrow> hm_reach hash eq z hm'"

definition hm_inv :: "('k \<Rightarrow> u64) \<Rightarrow> ('k \<Rightarrow> 'k \<Rightarrow> bool) \<Rightarrow> ('k, 'v) hmap \<Rightarrow> bool" where
  "hm_inv hash eq hm \<longleftrightarrow> (\<exists>es. hm_rep hash eq hm es \<and> length es \<le> 2 ^ 30)"

lemma al_lengths: "length (al_put eq k v es) \<le> Suc (length es)" "length (al_add eq k v es) \<le> Suc (length es)"
  "length (al_del eq k es) \<le> length es"
  by (simp_all add: al_put_def al_add_def al_del_def)

context hash_store
begin

lemmas get_after_Add = hm.get_after_add
lemmas get_after_Del = hm.get_after_del

lemma hm_inv_step:
  assumes "hm_step hash eq z hm hm'" "hm_inv hash eq hm"
  shows "hm_inv hash eq hm'"
proof -
  obtain es where rep: "hm_rep hash eq hm es" and le: "length es \<le> 2 ^ 30" using assms(2) by (auto simp: hm_inv_def)
  have n: "unat (hm_count hm) = length es" using rep by (rule rep_count)
  have le31: "length es \<le> 2 ^ 31" using le by simp
  have put: "hm_inv hash eq r" if "length es < 2 ^ 30" "hm_rep hash eq r (al_put eq k v es)" for r k v
    using that(2) le_trans [OF al_lengths(1) [of eq k v es] Suc_leI [OF that(1)]] unfolding hm_inv_def by blast
  have add: "hm_inv hash eq r" if "length es < 2 ^ 30" "hm_rep hash eq r (al_add eq k v es)" for r k v
    using that(2) le_trans [OF al_lengths(2) [of eq k v es] Suc_leI [OF that(1)]] unfolding hm_inv_def by blast
  have del: "hm_inv hash eq r" if "hm_rep hash eq r (al_del eq k es)" for r k
    using that le_trans [OF al_lengths(3) [of eq k es] le] unfolding hm_inv_def by blast
  have same: "hm_inv hash eq r" if "hm_rep hash eq r es" for r using that le unfolding hm_inv_def by blast
  show ?thesis using assms(1)
  proof cases
    case (step_Add k v a)
    then have len: "length es < 2 ^ 30" using n by simp
    show ?thesis
    proof (cases v)
      case None
      then show ?thesis using wp_Add_zero [OF rep len, of k] step_Add put [OF len] by simp
    next
      case (Some x)
      then show ?thesis using wp_Add [OF rep len, of z k x] step_Add add [OF len] by simp
    qed
  next
    case (step_Put k v r)
    then have len: "length es < 2 ^ 30" using n by simp
    show ?thesis using wp_Put(1) [OF rep len, of z k v] step_Put put [OF len, of hm' k] by auto
  next
    case (step_Insert k v a)
    then have len: "length es < 2 ^ 30" using n by simp
    show ?thesis using wp_Put(2) [OF rep len, of z k v] step_Insert put [OF len, of hm' k] by auto
  next
    case (step_Del k b)
    then show ?thesis using wp_Del(1) [OF rep, of k] del by auto
  next
    case (step_Erase k e)
    then show ?thesis using wp_Del(2) [OF rep, of k] del by auto
  next
    case step_Clear
    then have "hm_rep hash eq hm' []" using rep_Clear(1) [OF rep] by auto
    then show ?thesis by (auto simp: hm_inv_def)
  next
    case step_Rehash
    then show ?thesis using rep_Rehash [OF rep] same by auto
  next
    case step_Grow
    then show ?thesis using rep_Grow [OF rep] same by auto
  next
    case step_Shrink
    then show ?thesis using rep_Shrink [OF rep le31] same by auto
  qed
qed

lemma hm_inv_reach: "hm_reach hash eq z hm \<Longrightarrow> hm_inv hash eq hm"
proof (induction rule: hm_reach.induct)
  case reach_Init
  show ?case unfolding hm_inv_def using rep_Init by fastforce
next
  case (reach_step hm hm')
  then show ?case by (blast intro: hm_inv_step)
qed

end
section \<open>Properties\<close>

lemma demo_map: "\<exists>hm. hm_reach hm_default_hash (=) (0 :: nat) hm \<and> hm_rep hm_default_hash (=) hm [(3, 5), (4, 6)]"
proof -
  have "wp (hm_Add hm_default_hash (=) (0::nat) hm_Init 3 (Some 5)) (\<lambda>(r, a). hm_rep hm_default_hash (=) r (al_add (=) 3 5 []))"
    by (rule default_key.wp_Add [OF rep_Init]) simp
  then obtain h a where h: "hm_Add hm_default_hash (=) (0::nat) hm_Init 3 (Some 5) = Some (h, a)" "hm_rep hm_default_hash (=) h [(3, 5)]"
    by (auto elim!: wpE simp: al_add_def al_has_def)
  have "wp (hm_Put hm_default_hash (=) (0::nat) h 4 (Some 6)) (\<lambda>(r, q). hm_rep hm_default_hash (=) r (al_put (=) (4::u32) (case Some 6 of None \<Rightarrow> 0 | Some x \<Rightarrow> x) [(3, 5)]) \<and> (q = None \<longleftrightarrow> \<not> al_has (=) (4::u32) [(3, 5::nat)]))"
    by (rule default_key.wp_Put(1) [OF h(2)]) simp
  then obtain r q where r: "hm_Put hm_default_hash (=) (0::nat) h 4 (Some 6) = Some (r, q)" "hm_rep hm_default_hash (=) r [(3, 5), (4, 6)]"
    by (auto elim!: wpE simp: al_put_def al_has_def)
  have "hm_step hm_default_hash (=) 0 hm_Init h" using h(1) by (intro step_Add) simp_all
  moreover have "hm_step hm_default_hash (=) 0 h r" using r(1) rep_count [OF h(2)] by (intro step_Put) simp_all
  ultimately show ?thesis using r(2) by (blast intro: reach_Init reach_step)
qed

text \<open>C5: whatever sequence of operations a client runs, the list of nodes and the bucket chains
  agree: the map represents a list of entries without duplicate keys, in the order of insertion,
  which is what iterating over the nodes returns; the count is its length, and the number of buckets
  is a power of two.\<close>

theorem hm_reach_invariant:
  assumes "hash_key hash eq" "hm_reach hash eq z hm"
  shows "\<exists>es. hm_rep hash eq hm es \<and> hm_entries hm = Some es \<and> unat (hm_count hm) = length es \<and> al_keys eq es
    \<and> (\<exists>k < 32. unat (capacity hm) = 2 ^ k)"
proof -
  obtain es where rep: "hm_rep hash eq hm es"
    using hash_store.hm_inv_reach [OF hash_store.intro [OF assms(1)] assms(2)] by (auto simp: hm_inv_def)
  show ?thesis using rep rep_entries [OF rep] rep_count [OF rep] rep_keys [OF rep] rep_table [OF rep] by blast
qed

theorem hm_reach_invariant_witness:
  "\<exists>hm es. hm_reach hm_default_hash (=) (0 :: nat) hm \<and> hm_entries hm = Some es \<and> unat (hm_count hm) = length es"
  using hm_reach_invariant [OF default_key.hash_key_axioms] demo_map by metis

text \<open>C26: in every reachable state no operation follows a null or a dangling pointer or reads outside
  the array of buckets, and none of its loops runs forever: each of them returns.\<close>

theorem hm_reach_safe:
  assumes "hash_key hash eq" "hm_reach hash eq z hm"
  shows "hm_Get hash eq hm k \<noteq> None \<and> hm_Has hash eq hm k \<noteq> None \<and> hm_Del hash eq hm k \<noteq> None
    \<and> hm_Erase hash eq hm k \<noteq> None \<and> hm_Clear hm \<noteq> None \<and> hm_Uninit hm \<noteq> None \<and> hm_Rehash hm \<noteq> None \<and> hm_Shrink hm \<noteq> None
    \<and> (unat (hm_count hm) = 2 ^ 30 \<or> hm_Add hash eq z hm k v \<noteq> None \<and> hm_Put hash eq z hm k v \<noteq> None \<and> hm_Insert hash eq z hm k v \<noteq> None)"
proof -
  obtain es where rep: "hm_rep hash eq hm es" and le: "length es \<le> 2 ^ 30"
    using hash_store.hm_inv_reach [OF hash_store.intro [OF assms(1)] assms(2)] by (auto simp: hm_inv_def)
  note n = rep_count [OF rep]
  have q: "hm_Get hash eq hm k \<noteq> None" "hm_Has hash eq hm k \<noteq> None" "hm_Del hash eq hm k \<noteq> None" "hm_Erase hash eq hm k \<noteq> None"
    using hash_key.rep_Get [OF assms(1) rep] hash_key.rep_Has [OF assms(1) rep] hash_key.wp_Del [OF assms(1) rep] by fastforce+
  have c: "hm_Clear hm \<noteq> None" "hm_Uninit hm \<noteq> None" using rep_Clear [OF rep] by auto
  have r: "hm_Rehash hm \<noteq> None" "hm_Shrink hm \<noteq> None"
    using rep_Rehash [OF rep] rep_Shrink [OF rep] le by (auto elim!: wpE)
  have i: "hm_Add hash eq z hm k v \<noteq> None \<and> hm_Put hash eq z hm k v \<noteq> None \<and> hm_Insert hash eq z hm k v \<noteq> None"
    if len: "length es < 2 ^ 30"
  proof (intro conjI)
    show "hm_Add hash eq z hm k v \<noteq> None"
    proof (cases v)
      case None
      then show ?thesis using hash_store.wp_Add_zero [OF hash_store.intro [OF assms(1)] rep len, of z k] by (auto elim!: wpE)
    next
      case (Some x)
      then show ?thesis using hash_key.wp_Add [OF assms(1) rep len, of z k x] by (auto elim!: wpE)
    qed
  qed (use hash_key.wp_Put [OF assms(1) rep len, of z k v] in \<open>auto elim!: wpE\<close>)
  show ?thesis using q c r i n le by (metis le_neq_implies_less)
qed

theorem hm_reach_safe_witness:
  "\<exists>hm. hm_reach hm_default_hash (=) (0 :: nat) hm \<and> hm_Get hm_default_hash (=) hm 4 \<noteq> None \<and> hm_Del hm_default_hash (=) hm 7 \<noteq> None"
  using hm_reach_safe [OF default_key.hash_key_axioms] demo_map by metis

text \<open>C14: inserting refines the list of entries: \<open>Add\<close> overwrites the value of a key that is there in
  its place and appends an entry otherwise, \<open>Put\<close> and \<open>Insert\<close> leave an entry that is there alone,
  and \<open>Put\<close> reports whether there was one. The table grows on the way when it is full.\<close>

theorem hm_insert_refines:
  assumes "hash_key hash eq" "hm_rep hash eq hm es" "length es < 2 ^ 30"
  shows "wp (hm_Add hash eq z hm k (Some v)) (\<lambda>(r, a). hm_rep hash eq r (al_add eq k v es))
    \<and> wp (hm_Put hash eq z hm k (Some v)) (\<lambda>(r, q). hm_rep hash eq r (al_put eq k v es) \<and> (q = None \<longleftrightarrow> \<not> al_has eq k es))
    \<and> wp (hm_Insert hash eq z hm k (Some v)) (\<lambda>(r, a). hm_rep hash eq r (al_put eq k v es))"
  using hash_key.wp_Add [OF assms, of z k v] hash_key.wp_Put [OF assms, of z k "Some v"] by simp

theorem hm_insert_refines_witness:
  "\<exists>hm. hm_rep hm_default_hash (=) hm [(3, 5), (4, 6)]
    \<and> wp (hm_Add hm_default_hash (=) (0 :: nat) hm 3 (Some 9)) (\<lambda>(r, a). hm_rep hm_default_hash (=) r [(3, 9), (4, 6)])"
proof -
  obtain hm where hm: "hm_rep hm_default_hash (=) hm [(3, 5 :: nat), (4, 6)]" using demo_map by blast
  show ?thesis using hm_insert_refines [OF default_key.hash_key_axioms hm, of 0 3 9] hm
    by (auto simp: al_add_def al_has_def)
qed

text \<open>C27: removing refines the list of entries: \<open>Del\<close> and \<open>Erase\<close> take the node out of its chain and
  out of the list, leaving the other entries in their order; \<open>Del\<close> returns whether the key was there
  and \<open>Erase\<close> the entry it removed.\<close>

theorem hm_remove_refines:
  assumes "hash_key hash eq" "hm_rep hash eq hm es"
  shows "(\<exists>h. hm_Del hash eq hm k = Some (h, al_has eq k es) \<and> hm_rep hash eq h (al_del eq k es))
    \<and> (\<exists>h. hm_Erase hash eq hm k = Some (h, find (\<lambda>p. eq k (fst p)) es) \<and> hm_rep hash eq h (al_del eq k es))"
  using hash_key.wp_Del [OF assms] by blast

theorem hm_remove_refines_witness:
  "\<exists>hm h. hm_rep hm_default_hash (=) hm [(3, 5 :: nat), (4, 6)] \<and> hm_Erase hm_default_hash (=) hm 3 = Some (h, Some (3, 5))
    \<and> hm_rep hm_default_hash (=) h [(4, 6)]"
proof -
  obtain hm where hm: "hm_rep hm_default_hash (=) hm [(3, 5 :: nat), (4, 6)]" using demo_map by blast
  show ?thesis using hm_remove_refines [OF default_key.hash_key_axioms hm, of 3] hm
    by (auto simp: al_del_def)
qed

text \<open>Looking up after an update: after \<open>Add\<close> a lookup returns the new value for the keys that are
  equal to the one added and what it returned before for the others; after \<open>Del\<close> it returns nothing
  for the key that was deleted.\<close>

theorem hm_get_after_update:
  assumes "hash_key hash eq" "hm_rep hash eq hm es" "length es < 2 ^ 30"
  shows "wp (map_option fst (hm_Add hash eq z hm k (Some v)))
      (\<lambda>r. \<forall>l. hm_Get hash eq r l = (if eq k l then Some (Some v) else hm_Get hash eq hm l))
    \<and> wp (map_option fst (hm_Del hash eq hm k))
      (\<lambda>r. \<forall>l. hm_Get hash eq r l = (if eq k l then Some None else hm_Get hash eq hm l))"
  using hash_store.get_after_Add [OF hash_store.intro [OF assms(1)] assms(2,3), of z k v]
    hash_store.get_after_Del [OF hash_store.intro [OF assms(1)] assms(2), of k] by blast

theorem hm_get_after_update_witness:
  "wp (map_option fst (hm_Add hm_default_hash (=) (0 :: nat) hm_Init 3 (Some 5))) (\<lambda>r. hm_Get hm_default_hash (=) r 3 = Some (Some 5))"
proof -
  have "wp (map_option fst (hm_Add hm_default_hash (=) (0 :: nat) hm_Init 3 (Some 5)))
    (\<lambda>r. \<forall>l. hm_Get hm_default_hash (=) r l = (if 3 = l then Some (Some 5) else hm_Get hm_default_hash (=) (hm_Init :: (u32, nat) hmap) l))"
    using hm_get_after_update [OF default_key.hash_key_axioms rep_Init, of "0 :: nat" 3 5] by simp
  then show ?thesis by (rule wp_mono) simp
qed

text \<open>Resizing is invisible: \<open>Rehash\<close> and \<open>Shrink\<close> keep every entry and their order, and \<open>Shrink\<close>
  leaves the smaller of the old number of buckets and the least power of two that is not below the
  number of entries.\<close>

theorem hm_resize_refines:
  assumes "hm_rep hash eq hm es" "0 < length es" "length es \<le> 2 ^ 31"
  shows "wp (hm_Rehash hm) (\<lambda>r. hm_rep hash eq r es \<and> capacity r = capacity hm)
    \<and> wp (hm_Shrink hm) (\<lambda>r. hm_rep hash eq r es
      \<and> (\<exists>k. unat (capacity r) = min (unat (capacity hm)) (2 ^ k) \<and> length es \<le> 2 ^ k \<and> 2 ^ k < 2 * length es))"
proof -
  have n: "unat (hm_count hm) = length es" using rep_count [OF assms(1)] .
  obtain k where k: "unat (shrunk_capacity (hm_count hm)) = 2 ^ k" "length es \<le> 2 ^ k" "2 ^ k < 2 * length es"
    using shrunk_capacity_power [of "hm_count hm"] assms(2,3) n by auto
  have "wp (hm_Shrink hm) (\<lambda>r. hm_rep hash eq r es \<and> unat (capacity r) = min (unat (capacity hm)) (2 ^ k))"
    using rep_Shrink [OF assms(1,3)] k(1) by simp
  then have "wp (hm_Shrink hm) (\<lambda>r. hm_rep hash eq r es
      \<and> (\<exists>k. unat (capacity r) = min (unat (capacity hm)) (2 ^ k) \<and> length es \<le> 2 ^ k \<and> 2 ^ k < 2 * length es))"
    by (rule wp_mono) (use k(2,3) in blast)
  then show ?thesis using rep_Rehash [OF assms(1)] by simp
qed

theorem hm_resize_refines_witness:
  "\<exists>hm. hm_rep hm_default_hash (=) hm [(3, 5 :: nat), (4, 6)]
    \<and> wp (hm_Shrink hm) (\<lambda>r. hm_rep hm_default_hash (=) r [(3, 5), (4, 6)] \<and> unat (capacity r) \<le> 3)"
proof -
  obtain hm where hm: "hm_rep hm_default_hash (=) hm [(3, 5 :: nat), (4, 6)]" using demo_map by blast
  have "wp (hm_Shrink hm) (\<lambda>r. hm_rep hm_default_hash (=) r [(3, 5), (4, 6)]
    \<and> (\<exists>k. unat (capacity r) = min (unat (capacity hm)) (2 ^ k) \<and> length [(3 :: u32, 5 :: nat), (4, 6)] \<le> 2 ^ k \<and> 2 ^ k < 2 * length [(3 :: u32, 5 :: nat), (4, 6)]))"
    using hm_resize_refines [OF hm] by simp
  then show ?thesis using hm by (auto elim!: wpE)
qed

end
