(* ===== verification/Gc.thy ===== *)
theory Gc
  imports Prelude
begin

text \<open>
  The garbage collector (src/vmgc.c, the \<open>fklAtomicVM*\<close> functions and the weak tables of
  src/vmvalue.c and src/parser.c, \<open>fklVMgcCheck\<close> of src/vmrun.c): objects of the virtual machine on a
  heap, and the operations of one collection. The world is stopped while they run.

  An \<open>FklVMvalue *\<close> is a pointer to an object, the null pointer, an immediate value, or the mark
  that tells where the next slot of a stack is. What the collector does not look into (characters,
  digits, code, the data of a module) is the type \<open>'d\<close>. Function pointers of modules are numbers; what
  such a callback does (the pointers it hands to \<open>fklVMgcToGray\<close>, whether it delays the release of its
  object) is the parameter \<open>cbs\<close>.
\<close>

section \<open>Data\<close>

datatype mark = FKL_MARK_W | FKL_MARK_G | FKL_MARK_B

datatype vmptr = PNull | PImm u64 | PSkip nat | PObj nat

text \<open>The value of a variable reference: its own cell, or a slot of the stack of a machine.\<close>

datatype refcell = Closed vmptr | Open nat nat

datatype ud_atomic = fklAtomicVMtype | weak_hash_eq_atomic | Cb_atomic nat

datatype ud_weak = weak_hash_eq_update_weak_ref | obarray_update_weak_ref | lnt_ud_update_weak_ref

record metatable =
  mt_atomic :: "ud_atomic option"
  mt_update_weak_ref :: "ud_weak option"
  mt_finalize :: "nat option"

text \<open>
  The contents of a userdata object. The tables are the lists of entries of the hash maps they are.
\<close>

datatype 'd udata =
    UdType vmptr metatable
  | UdWeakHash bool bool "(vmptr \<times> vmptr) list"
  | UdObarray "('d \<times> vmptr) list"
  | UdLnt "(vmptr \<times> 'd) list"
  | UdData 'd

datatype 'd body =
    VmF64 'd | VmBigInt 'd | VmStr 'd | VmSym 'd | VmKeyword 'd | VmBytes 'd
  | VmPair vmptr vmptr
  | VmVec "vmptr list"
  | VmBox vmptr
  | VmHash "(vmptr \<times> vmptr) list"
  | VmProc vmptr vmptr vmptr "vmptr list"
  | VmCproc vmptr
  | VmVarRef refcell
  | VmUd nat "'d udata"

record 'd vmobj =
  mark_of :: mark
  next_of :: "nat option"
  gray_next :: "nat option"
  zsize :: u64
  body :: "'d body"

datatype 'd frame =
    Compound (lref: vmptr) (lrefl: vmptr) (frame_proc: vmptr)
  | OtherObj "nat option" 'd

record 'd vm =
  frames :: "'d frame list"
  vm_error :: vmptr
  stack :: "vmptr list"
  chan :: vmptr
  atexits :: "(nat option \<times> 'd) list"
  int_list :: "(nat option \<times> 'd) list"
  obj_head :: "nat option"
  obj_tail :: "nat option"

record 'd gcst =
  heap :: "nat \<Rightarrow> 'd vmobj option"
  gc_head :: "nat option"
  gray_list :: "nat option"
  weak_refs :: "nat option"
  alloced_size :: u64
  threshold :: u64
  builtin_refs :: "vmptr list"
  extra_marks :: "(nat \<times> 'd) list"
  gc_int_list :: "(nat option \<times> 'd) list"
  obarray :: vmptr
  gc_keywords :: vmptr
  builtinErrorTypeId :: "vmptr list"
  gc_seeks :: "vmptr list"
  gc_syms :: "vmptr list"
  gc_words :: "vmptr list"
  path_vec :: vmptr
  gcvm :: "'d vm"
  vms :: "'d vm list"

record 'd callbacks =
  cb_marks :: "nat \<Rightarrow> 'd \<Rightarrow> vmptr list"
  cb_delays :: "nat \<Rightarrow> 'd udata \<Rightarrow> bool"

definition upd_obj :: "'d gcst \<Rightarrow> nat \<Rightarrow> ('d vmobj \<Rightarrow> 'd vmobj) \<Rightarrow> 'd gcst option" where
  "upd_obj gc a f = do { n \<leftarrow> heap gc a; Some (gc\<lparr>heap := (heap gc)(a \<mapsto> f n)\<rparr>) }"

section \<open>Objects of the machines\<close>

text \<open>\<open>fklAddToGC\<close> for a new object at the address \<open>a\<close>.\<close>

definition fklAddToGC :: "nat \<Rightarrow> 'd gcst \<Rightarrow> 'd vm \<Rightarrow> ('d gcst \<times> 'd vm) option" where
  "fklAddToGC a gc v = do {
     gc \<leftarrow> upd_obj gc a (\<lambda>n. n\<lparr>next_of := obj_head v\<rparr>);
     let v = v\<lparr>obj_head := Some a\<rparr>;
     let v = (if obj_tail v = None then v\<lparr>obj_tail := Some a\<rparr> else v);
     n \<leftarrow> heap gc a;
     Some (gc\<lparr>alloced_size := alloced_size gc + zsize n\<rparr>, v) }"

definition fklMoveThreadObjectsToGc :: "'d vm \<Rightarrow> 'd gcst \<Rightarrow> ('d gcst \<times> 'd vm) option" where
  "fklMoveThreadObjectsToGc v gc =
     (case obj_head v of None \<Rightarrow> Some (gc, v)
      | Some h \<Rightarrow> do {
          t \<leftarrow> obj_tail v;
          gc \<leftarrow> upd_obj gc t (\<lambda>n. n\<lparr>next_of := gc_head gc\<rparr>);
          Some (gc\<lparr>gc_head := Some h\<rparr>, v\<lparr>obj_head := None, obj_tail := None\<rparr>) })"

fun move_all :: "'d vm list \<Rightarrow> 'd gcst \<Rightarrow> ('d gcst \<times> 'd vm list) option" where
  "move_all [] gc = Some (gc, [])"
| "move_all (v # vs) gc = do {
     (gc, v) \<leftarrow> fklMoveThreadObjectsToGc v gc;
     (gc, vs) \<leftarrow> move_all vs gc;
     Some (gc, v # vs) }"

section \<open>Marking\<close>

definition fklVMgcToGray :: "vmptr \<Rightarrow> 'd gcst \<Rightarrow> 'd gcst option" where
  "fklVMgcToGray p gc = (case p of
      PObj a \<Rightarrow> do {
        n \<leftarrow> heap gc a;
        if mark_of n = FKL_MARK_W then do {
          gc \<leftarrow> upd_obj gc a (\<lambda>n. n\<lparr>mark_of := FKL_MARK_G, gray_next := gray_list gc\<rparr>);
          Some (gc\<lparr>gray_list := Some a\<rparr>) }
        else Some gc }
    | _ \<Rightarrow> Some gc)"

fun gray_all :: "vmptr list \<Rightarrow> 'd gcst \<Rightarrow> 'd gcst option" where
  "gray_all [] gc = Some gc"
| "gray_all (p # ps) gc = do { gc \<leftarrow> fklVMgcToGray p gc; gray_all ps gc }"

fun gray_entries :: "bool \<Rightarrow> bool \<Rightarrow> (vmptr \<times> vmptr) list \<Rightarrow> 'd gcst \<Rightarrow> 'd gcst option" where
  "gray_entries ks vs [] gc = Some gc"
| "gray_entries ks vs ((k, v) # es) gc = do {
     gc \<leftarrow> (if ks then fklVMgcToGray k gc else Some gc);
     gc \<leftarrow> (if vs then fklVMgcToGray v gc else Some gc);
     gray_entries ks vs es gc }"

text \<open>The metatable of the type of a userdata object.\<close>

definition meta_of :: "'d gcst \<Rightarrow> nat \<Rightarrow> metatable option" where
  "meta_of gc tp = do {
     n \<leftarrow> heap gc tp;
     (case body n of VmUd _ (UdType dll mt) \<Rightarrow> Some mt | _ \<Rightarrow> None) }"

text \<open>The callbacks \<open>mt.atomic\<close>; an object of the wrong kind fails the assertion of its cast.\<close>

definition run_atomic :: "'d callbacks \<Rightarrow> ud_atomic \<Rightarrow> 'd udata \<Rightarrow> 'd gcst \<Rightarrow> 'd gcst option" where
  "run_atomic cbs f u gc = (case f of
      fklAtomicVMtype \<Rightarrow> (case u of UdType dll mt \<Rightarrow> fklVMgcToGray dll gc | _ \<Rightarrow> None)
    | weak_hash_eq_atomic \<Rightarrow> (case u of
        UdWeakHash wk wv es \<Rightarrow> if wv \<and> wk then Some gc else gray_entries (\<not> wk) (\<not> wv) es gc | _ \<Rightarrow> None)
    | Cb_atomic c \<Rightarrow> (case u of UdData d \<Rightarrow> gray_all (cb_marks cbs c d) gc | _ \<Rightarrow> None))"

definition fklAtomicVMuserdata :: "'d callbacks \<Rightarrow> nat \<Rightarrow> 'd udata \<Rightarrow> 'd gcst \<Rightarrow> 'd gcst option" where
  "fklAtomicVMuserdata cbs tp u gc = do {
     gc \<leftarrow> fklVMgcToGray (PObj tp) gc;
     mt \<leftarrow> meta_of gc tp;
     (case mt_atomic mt of None \<Rightarrow> Some gc | Some f \<Rightarrow> run_atomic cbs f u gc) }"

definition fklAtomicVMpair :: "vmptr \<Rightarrow> vmptr \<Rightarrow> 'd gcst \<Rightarrow> 'd gcst option" where
  "fklAtomicVMpair a d gc = do { gc \<leftarrow> fklVMgcToGray a gc; fklVMgcToGray d gc }"

definition fklAtomicVMproc :: "vmptr \<Rightarrow> vmptr \<Rightarrow> vmptr \<Rightarrow> vmptr list \<Rightarrow> 'd gcst \<Rightarrow> 'd gcst option" where
  "fklAtomicVMproc nm bcl proto closure gc = do {
     gc \<leftarrow> fklVMgcToGray nm gc;
     gc \<leftarrow> fklVMgcToGray bcl gc;
     gc \<leftarrow> fklVMgcToGray proto gc;
     gray_all closure gc }"

definition fklAtomicVMvec :: "vmptr list \<Rightarrow> 'd gcst \<Rightarrow> 'd gcst option" where
  "fklAtomicVMvec vs gc = gray_all vs gc"

definition fklAtomicVMbox :: "vmptr \<Rightarrow> 'd gcst \<Rightarrow> 'd gcst option" where
  "fklAtomicVMbox p gc = fklVMgcToGray p gc"

definition fklAtomicVMcproc :: "vmptr \<Rightarrow> 'd gcst \<Rightarrow> 'd gcst option" where
  "fklAtomicVMcproc dll gc = fklVMgcToGray dll gc"

definition fklAtomicVMhashTable :: "(vmptr \<times> vmptr) list \<Rightarrow> 'd gcst \<Rightarrow> 'd gcst option" where
  "fklAtomicVMhashTable es gc = gray_entries True True es gc"

text \<open>\<open>*(FKL_VM_VAR_REF_GET(ref))\<close>: machine \<open>0\<close> is \<open>gcvm\<close>.\<close>

definition ref_value :: "'d gcst \<Rightarrow> refcell \<Rightarrow> vmptr option" where
  "ref_value gc r = (case r of Closed p \<Rightarrow> Some p
     | Open i j \<Rightarrow> do { v \<leftarrow> rd (gcvm gc # vms gc) i; rd (stack v) j })"

definition atomic_var_ref :: "refcell \<Rightarrow> 'd gcst \<Rightarrow> 'd gcst option" where
  "atomic_var_ref r gc = do { p \<leftarrow> ref_value gc r; fklVMgcToGray p gc }"

definition propagateMark :: "'d callbacks \<Rightarrow> nat \<Rightarrow> 'd gcst \<Rightarrow> 'd gcst option" where
  "propagateMark cbs root gc = do {
     n \<leftarrow> heap gc root;
     (case body n of
        VmVec vs \<Rightarrow> fklAtomicVMvec vs gc
      | VmPair a d \<Rightarrow> fklAtomicVMpair a d gc
      | VmBox p \<Rightarrow> fklAtomicVMbox p gc
      | VmUd tp u \<Rightarrow> fklAtomicVMuserdata cbs tp u gc
      | VmProc nm bcl proto closure \<Rightarrow> fklAtomicVMproc nm bcl proto closure gc
      | VmCproc dll \<Rightarrow> fklAtomicVMcproc dll gc
      | VmHash es \<Rightarrow> fklAtomicVMhashTable es gc
      | VmVarRef r \<Rightarrow> atomic_var_ref r gc
      | _ \<Rightarrow> Some gc) }"

definition is_weak_ref_value :: "'d gcst \<Rightarrow> nat \<Rightarrow> bool option" where
  "is_weak_ref_value gc a = do {
     n \<leftarrow> heap gc a;
     (case body n of VmUd tp u \<Rightarrow> do { mt \<leftarrow> meta_of gc tp; Some (mt_update_weak_ref mt \<noteq> None) }
      | _ \<Rightarrow> Some False) }"

text \<open>The result tells whether the gray list is empty.\<close>

definition fklVMgcPropagate :: "'d callbacks \<Rightarrow> 'd gcst \<Rightarrow> ('d gcst \<times> bool) option" where
  "fklVMgcPropagate cbs gc = do {
     gc \<leftarrow> (case gray_list gc of None \<Rightarrow> Some gc
       | Some v \<Rightarrow> do {
           n \<leftarrow> heap gc v;
           let gc = gc\<lparr>gray_list := gray_next n\<rparr>;
           gc \<leftarrow> upd_obj gc v (\<lambda>n. n\<lparr>gray_next := None\<rparr>);
           if mark_of n = FKL_MARK_G then do {
             gc \<leftarrow> upd_obj gc v (\<lambda>n. n\<lparr>mark_of := FKL_MARK_B\<rparr>);
             gc \<leftarrow> propagateMark cbs v gc;
             w \<leftarrow> is_weak_ref_value gc v;
             if w then do {
               gc \<leftarrow> upd_obj gc v (\<lambda>n. n\<lparr>gray_next := weak_refs gc\<rparr>);
               Some (gc\<lparr>weak_refs := Some v\<rparr>) }
             else Some gc }
           else Some gc });
     Some (gc, gray_list gc = None) }"

text \<open>\<open>while (!fklVMgcPropagate(gc));\<close>\<close>

partial_function (option) propagate_all :: "'d callbacks \<Rightarrow> 'd gcst \<Rightarrow> 'd gcst option" where
  "propagate_all cbs gc = do {
     (gc, fin) \<leftarrow> fklVMgcPropagate cbs gc;
     if fin then Some gc else propagate_all cbs gc }"

section \<open>The roots\<close>

text \<open>
  \<open>remove_closed_var_ref_from_list\<close>: the cell \<open>*ll\<close> is \<open>lrefl\<close> of the frame or the \<open>cdr\<close> of a pair.
\<close>

datatype lcell = FrameLrefl | CdrOf nat

definition read_lcell :: "'d gcst \<Rightarrow> vmptr \<Rightarrow> lcell \<Rightarrow> vmptr option" where
  "read_lcell gc fl ll = (case ll of FrameLrefl \<Rightarrow> Some fl
     | CdrOf a \<Rightarrow> do { n \<leftarrow> heap gc a; (case body n of VmPair x d \<Rightarrow> Some d | _ \<Rightarrow> None) })"

definition write_lcell :: "'d gcst \<Rightarrow> vmptr \<Rightarrow> lcell \<Rightarrow> vmptr \<Rightarrow> ('d gcst \<times> vmptr) option" where
  "write_lcell gc fl ll p = (case ll of FrameLrefl \<Rightarrow> Some (gc, p)
     | CdrOf a \<Rightarrow> do { n \<leftarrow> heap gc a;
         (case body n of VmPair x d \<Rightarrow> do { gc \<leftarrow> upd_obj gc a (\<lambda>n. n\<lparr>body := VmPair x p\<rparr>); Some (gc, fl) } | _ \<Rightarrow> None) })"

definition is_closed_var_ref :: "'d gcst \<Rightarrow> vmptr \<Rightarrow> bool option" where
  "is_closed_var_ref gc p = (case p of
      PObj a \<Rightarrow> do { n \<leftarrow> heap gc a; (case body n of VmVarRef r \<Rightarrow> Some (case r of Closed _ \<Rightarrow> True | Open _ _ \<Rightarrow> False) | _ \<Rightarrow> None) }
    | _ \<Rightarrow> None)"

text \<open>\<open>FKL_IS_PAIR(p)\<close>, with the fields of the pair.\<close>

definition as_pair :: "'d gcst \<Rightarrow> vmptr \<Rightarrow> (nat \<times> vmptr \<times> vmptr) option option" where
  "as_pair gc p = (case p of
      PObj a \<Rightarrow> do { n \<leftarrow> heap gc a; Some (case body n of VmPair x d \<Rightarrow> Some (a, x, d) | _ \<Rightarrow> None) }
    | PNull \<Rightarrow> None
    | _ \<Rightarrow> Some None)"

partial_function (option) remove_closed_var_ref_from_list ::
  "'d gcst \<Rightarrow> vmptr \<Rightarrow> lcell \<Rightarrow> ('d gcst \<times> vmptr) option" where
  "remove_closed_var_ref_from_list gc fl ll = do {
     p \<leftarrow> read_lcell gc fl ll;
     l \<leftarrow> as_pair gc p;
     (case l of None \<Rightarrow> Some (gc, fl)
      | Some (a, x, d) \<Rightarrow> do {
          c \<leftarrow> is_closed_var_ref gc x;
          if c then do { (gc, fl) \<leftarrow> write_lcell gc fl ll d; remove_closed_var_ref_from_list gc fl ll }
          else remove_closed_var_ref_from_list gc fl (CdrOf a) }) }"

fun remove_closed_var_ref :: "'d frame list \<Rightarrow> 'd gcst \<Rightarrow> ('d gcst \<times> 'd frame list) option" where
  "remove_closed_var_ref [] gc = Some (gc, [])"
| "remove_closed_var_ref (f # fs) gc = do {
     (gc, f) \<leftarrow> (case f of
        Compound lr ll pr \<Rightarrow> do { (gc, ll) \<leftarrow> remove_closed_var_ref_from_list gc ll FrameLrefl; Some (gc, Compound lr ll pr) }
      | OtherObj m d \<Rightarrow> Some (gc, OtherObj m d));
     (gc, fs) \<leftarrow> remove_closed_var_ref fs gc;
     Some (gc, f # fs) }"

text \<open>The lists of callbacks with their arguments: \<open>mark_atexit\<close> and \<open>mark_interrupt_handler\<close>.\<close>

fun mark_handlers :: "'d callbacks \<Rightarrow> (nat option \<times> 'd) list \<Rightarrow> 'd gcst \<Rightarrow> 'd gcst option" where
  "mark_handlers cbs [] gc = Some gc"
| "mark_handlers cbs ((m, d) # hs) gc = do {
     gc \<leftarrow> (case m of None \<Rightarrow> Some gc | Some c \<Rightarrow> gray_all (cb_marks cbs c d) gc);
     mark_handlers cbs hs gc }"

definition do_atomic_frame :: "'d callbacks \<Rightarrow> 'd frame \<Rightarrow> 'd gcst \<Rightarrow> 'd gcst option" where
  "do_atomic_frame cbs f gc = (case f of
      Compound lr ll pr \<Rightarrow> do {
        gc \<leftarrow> fklVMgcToGray lr gc;
        gc \<leftarrow> fklVMgcToGray ll gc;
        fklVMgcToGray pr gc }
    | OtherObj m d \<Rightarrow> (case m of None \<Rightarrow> Some gc | Some c \<Rightarrow> gray_all (cb_marks cbs c d) gc))"

fun do_atomic_frames :: "'d callbacks \<Rightarrow> 'd frame list \<Rightarrow> 'd gcst \<Rightarrow> 'd gcst option" where
  "do_atomic_frames cbs [] gc = Some gc"
| "do_atomic_frames cbs (f # fs) gc = do { gc \<leftarrow> do_atomic_frame cbs f gc; do_atomic_frames cbs fs gc }"

text \<open>
  \<open>fklVMforeachStack(exe, gc, mark_stack_cb)\<close> from the slot \<open>i\<close>: a mark on the stack (\<open>FKL_VM_SKIP\<close>)
  leads to the slot behind the frame that lies there.
\<close>

partial_function (option) mark_stack :: "vmptr list \<Rightarrow> nat \<Rightarrow> 'd gcst \<Rightarrow> 'd gcst option" where
  "mark_stack st i gc =
     (if i < length st then
        (case st ! i of
           PSkip j \<Rightarrow> mark_stack st j gc
         | p \<Rightarrow> do { gc \<leftarrow> fklVMgcToGray p gc; mark_stack st (i + 1) gc })
      else Some gc)"

definition gc_mark_root_to_gray :: "'d callbacks \<Rightarrow> 'd vm \<Rightarrow> 'd gcst \<Rightarrow> ('d gcst \<times> 'd vm) option" where
  "gc_mark_root_to_gray cbs exe gc = do {
     (gc, fs) \<leftarrow> remove_closed_var_ref (frames exe) gc;
     let exe = exe\<lparr>frames := fs\<rparr>;
     gc \<leftarrow> mark_handlers cbs (atexits exe) gc;
     gc \<leftarrow> mark_handlers cbs (int_list exe) gc;
     gc \<leftarrow> do_atomic_frames cbs (frames exe) gc;
     gc \<leftarrow> fklVMgcToGray (vm_error exe) gc;
     gc \<leftarrow> mark_stack (stack exe) 0 gc;
     gc \<leftarrow> fklVMgcToGray (chan exe) gc;
     Some (gc, exe) }"

fun mark_machines :: "'d callbacks \<Rightarrow> 'd vm list \<Rightarrow> 'd gcst \<Rightarrow> ('d gcst \<times> 'd vm list) option" where
  "mark_machines cbs [] gc = Some (gc, [])"
| "mark_machines cbs (v # vs) gc = do {
     (gc, v) \<leftarrow> gc_mark_root_to_gray cbs v gc;
     (gc, vs) \<leftarrow> mark_machines cbs vs gc;
     Some (gc, v # vs) }"

fun mark_extra :: "'d callbacks \<Rightarrow> (nat \<times> 'd) list \<Rightarrow> 'd gcst \<Rightarrow> 'd gcst option" where
  "mark_extra cbs [] gc = Some gc"
| "mark_extra cbs ((c, d) # xs) gc = do { gc \<leftarrow> gray_all (cb_marks cbs c d) gc; mark_extra cbs xs gc }"

definition gc_extra_mark :: "'d callbacks \<Rightarrow> 'd gcst \<Rightarrow> 'd gcst option" where
  "gc_extra_mark cbs gc = do {
     gc \<leftarrow> mark_extra cbs (extra_marks gc) gc;
     gc \<leftarrow> fklVMgcToGray (obarray gc) gc;
     gc \<leftarrow> fklVMgcToGray (gc_keywords gc) gc;
     gc \<leftarrow> gray_all (builtinErrorTypeId gc) gc;
     gc \<leftarrow> gray_all (gc_seeks gc) gc;
     gc \<leftarrow> gray_all (gc_syms gc) gc;
     gc \<leftarrow> gray_all (gc_words gc) gc;
     fklVMgcToGray (path_vec gc) gc }"

text \<open>The machines are those of the ring, beginning with the current one.\<close>

definition fklVMgcMarkAllRootToGray :: "'d callbacks \<Rightarrow> 'd gcst \<Rightarrow> 'd gcst option" where
  "fklVMgcMarkAllRootToGray cbs gc = do {
     gc \<leftarrow> gray_all (builtin_refs gc) gc;
     gc \<leftarrow> gc_extra_mark cbs gc;
     gc \<leftarrow> mark_handlers cbs (gc_int_list gc) gc;
     (gc, v) \<leftarrow> gc_mark_root_to_gray cbs (gcvm gc) gc;
     (gc, vs) \<leftarrow> mark_machines cbs (vms gc) gc;
     Some (gc\<lparr>gcvm := v, vms := vs\<rparr>) }"

section \<open>Weak references\<close>

definition fklVMgcIsMarked :: "'d gcst \<Rightarrow> vmptr \<Rightarrow> bool option" where
  "fklVMgcIsMarked gc p = (case p of
      PObj a \<Rightarrow> do { n \<leftarrow> heap gc a; Some (mark_of n \<noteq> FKL_MARK_W) }
    | _ \<Rightarrow> Some False)"

text \<open>The loops over the entries that delete those whose object is not marked.\<close>

fun sweep_weak_hash :: "'d gcst \<Rightarrow> bool \<Rightarrow> bool \<Rightarrow> (vmptr \<times> vmptr) list \<Rightarrow> (vmptr \<times> vmptr) list option" where
  "sweep_weak_hash gc wk wv [] = Some []"
| "sweep_weak_hash gc wk wv ((k, v) # es) = do {
     km \<leftarrow> (if wk then fklVMgcIsMarked gc k else Some True);
     vm \<leftarrow> (if wv then fklVMgcIsMarked gc v else Some True);
     es \<leftarrow> sweep_weak_hash gc wk wv es;
     Some (if \<not> km \<or> \<not> vm then es else (k, v) # es) }"

fun sweep_obarray :: "'d gcst \<Rightarrow> ('d \<times> vmptr) list \<Rightarrow> ('d \<times> vmptr) list option" where
  "sweep_obarray gc [] = Some []"
| "sweep_obarray gc ((s, v) # es) = do {
     m \<leftarrow> fklVMgcIsMarked gc v;
     es \<leftarrow> sweep_obarray gc es;
     Some (if \<not> m then es else (s, v) # es) }"

fun sweep_lnt :: "'d gcst \<Rightarrow> (vmptr \<times> 'd) list \<Rightarrow> (vmptr \<times> 'd) list option" where
  "sweep_lnt gc [] = Some []"
| "sweep_lnt gc ((k, l) # es) = do {
     m \<leftarrow> fklVMgcIsMarked gc k;
     es \<leftarrow> sweep_lnt gc es;
     Some (if \<not> m then es else (k, l) # es) }"

definition run_update_weak_ref :: "ud_weak \<Rightarrow> 'd udata \<Rightarrow> 'd gcst \<Rightarrow> 'd udata option" where
  "run_update_weak_ref f u gc = (case f of
      weak_hash_eq_update_weak_ref \<Rightarrow> (case u of
        UdWeakHash wk wv es \<Rightarrow> do { es \<leftarrow> sweep_weak_hash gc wk wv es; Some (UdWeakHash wk wv es) } | _ \<Rightarrow> None)
    | obarray_update_weak_ref \<Rightarrow> (case u of
        UdObarray es \<Rightarrow> do { es \<leftarrow> sweep_obarray gc es; Some (UdObarray es) } | _ \<Rightarrow> None)
    | lnt_ud_update_weak_ref \<Rightarrow> (case u of
        UdLnt es \<Rightarrow> do { es \<leftarrow> sweep_lnt gc es; Some (UdLnt es) } | _ \<Rightarrow> None))"

partial_function (option) fklVMgcUpdateWeakRefs :: "'d gcst \<Rightarrow> 'd gcst option" where
  "fklVMgcUpdateWeakRefs gc = (case weak_refs gc of None \<Rightarrow> Some gc
     | Some v \<Rightarrow> do {
         w \<leftarrow> is_weak_ref_value gc v;
         FKL_ASSERT w;
         n \<leftarrow> heap gc v;
         gc \<leftarrow> (case body n of
            VmUd tp u \<Rightarrow> do {
              mt \<leftarrow> meta_of gc tp;
              f \<leftarrow> mt_update_weak_ref mt;
              u \<leftarrow> run_update_weak_ref f u gc;
              upd_obj gc v (\<lambda>n. n\<lparr>body := VmUd tp u\<rparr>) }
          | _ \<Rightarrow> None);
         n \<leftarrow> heap gc v;
         let gc = gc\<lparr>weak_refs := gray_next n\<rparr>;
         gc \<leftarrow> upd_obj gc v (\<lambda>n. n\<lparr>gray_next := None\<rparr>);
         fklVMgcUpdateWeakRefs gc })"

section \<open>Collecting and sweeping\<close>

text \<open>A \<open>FklVMvalue **\<close> of the list: the local \<open>head\<close>, or the \<open>next_\<close> field of an object.\<close>

datatype ncell = HeadVar | NextOf nat

definition read_ncell :: "'d gcst \<Rightarrow> nat option \<Rightarrow> ncell \<Rightarrow> nat option option" where
  "read_ncell gc hp c = (case c of HeadVar \<Rightarrow> Some hp | NextOf a \<Rightarrow> do { n \<leftarrow> heap gc a; Some (next_of n) })"

definition write_ncell :: "'d gcst \<Rightarrow> nat option \<Rightarrow> ncell \<Rightarrow> nat option \<Rightarrow> ('d gcst \<times> nat option) option" where
  "write_ncell gc hp c p = (case c of HeadVar \<Rightarrow> Some (gc, p)
     | NextOf a \<Rightarrow> do { gc \<leftarrow> upd_obj gc a (\<lambda>n. n\<lparr>next_of := p\<rparr>); Some (gc, hp) })"

text \<open>The loop of \<open>fklVMgcCollect\<close>; \<open>pw\<close> is the list of white objects.\<close>

partial_function (option) collect_loop ::
  "'d gcst \<Rightarrow> nat option \<Rightarrow> nat option \<Rightarrow> ncell \<Rightarrow> ('d gcst \<times> nat option \<times> nat option \<times> ncell) option" where
  "collect_loop gc hp pw phead = do {
     p \<leftarrow> read_ncell gc hp phead;
     (case p of None \<Rightarrow> Some (gc, hp, pw, phead)
      | Some cur \<Rightarrow> do {
          n \<leftarrow> heap gc cur;
          if mark_of n = FKL_MARK_W then do {
            (gc, hp) \<leftarrow> write_ncell gc hp phead (next_of n);
            gc \<leftarrow> upd_obj gc cur (\<lambda>n. n\<lparr>next_of := pw\<rparr>);
            collect_loop gc hp (Some cur) phead }
          else do {
            gc \<leftarrow> upd_obj gc cur (\<lambda>n. n\<lparr>mark_of := FKL_MARK_W\<rparr>);
            collect_loop gc hp pw (NextOf cur) } }) }"

definition fklVMgcCollect :: "'d gcst \<Rightarrow> nat option \<Rightarrow> ('d gcst \<times> nat option) option" where
  "fklVMgcCollect gc pw = do {
     let hp = gc_head gc;
     let gc = gc\<lparr>gc_head := None\<rparr>;
     (gc, hp, pw, phead) \<leftarrow> collect_loop gc hp pw HeadVar;
     (gc, hp) \<leftarrow> write_ncell gc hp phead (gc_head gc);
     Some (gc\<lparr>gc_head := hp\<rparr>, pw) }"

text \<open>\<open>True\<close>: the finalizer keeps the object, \<open>FKL_VM_UD_FINALIZE_DELAY\<close>.\<close>

definition finalize_ud :: "'d callbacks \<Rightarrow> nat \<Rightarrow> 'd udata \<Rightarrow> 'd gcst \<Rightarrow> bool option" where
  "finalize_ud cbs tp u gc = do {
     mt \<leftarrow> meta_of gc tp;
     Some (case mt_finalize mt of None \<Rightarrow> False | Some c \<Rightarrow> cb_delays cbs c u) }"

definition destroy_vm_value :: "'d callbacks \<Rightarrow> 'd gcst \<Rightarrow> nat \<Rightarrow> 'd gcst option" where
  "destroy_vm_value cbs gc cur = do {
     n \<leftarrow> heap gc cur;
     delay \<leftarrow> (case body n of VmUd tp u \<Rightarrow> finalize_ud cbs tp u gc | _ \<Rightarrow> Some False);
     Some (if delay then gc
       else gc\<lparr>alloced_size := alloced_size gc - zsize n, heap := (heap gc)(cur := None)\<rparr>) }"

partial_function (option) fklVMgcSweep :: "'d callbacks \<Rightarrow> 'd gcst \<Rightarrow> nat option \<Rightarrow> 'd gcst option" where
  "fklVMgcSweep cbs gc hp = (case hp of None \<Rightarrow> Some gc
     | Some cur \<Rightarrow> do {
         n \<leftarrow> heap gc cur;
         gc \<leftarrow> upd_obj gc cur (\<lambda>n. n\<lparr>next_of := None\<rparr>);
         gc \<leftarrow> destroy_vm_value cbs gc cur;
         fklVMgcSweep cbs gc (next_of n) })"

section \<open>One collection\<close>

definition fklVMgcUpdateThreshold :: "'d gcst \<Rightarrow> 'd gcst" where
  "fklVMgcUpdateThreshold gc = gc\<lparr>threshold := alloced_size gc * 2\<rparr>"

definition collect_garbage :: "'d callbacks \<Rightarrow> 'd gcst \<Rightarrow> 'd gcst option" where
  "collect_garbage cbs gc = do {
     (gc, v) \<leftarrow> fklMoveThreadObjectsToGc (gcvm gc) gc;
     (gc, vs) \<leftarrow> move_all (vms gc) gc;
     let gc = gc\<lparr>gcvm := v, vms := vs\<rparr>;
     gc \<leftarrow> fklVMgcMarkAllRootToGray cbs gc;
     gc \<leftarrow> propagate_all cbs gc;
     gc \<leftarrow> fklVMgcUpdateWeakRefs gc;
     (gc, white) \<leftarrow> fklVMgcCollect gc None;
     gc \<leftarrow> fklVMgcSweep cbs gc white;
     Some (fklVMgcUpdateThreshold gc) }"

definition fklVMgcCheck :: "'d callbacks \<Rightarrow> 'd gcst \<Rightarrow> bool \<Rightarrow> 'd gcst option" where
  "fklVMgcCheck cbs gc forced =
     (if forced \<or> alloced_size gc > threshold gc then collect_garbage cbs gc else Some gc)"

end
