(* ===== verification/GcHeap.thy ===== *)
theory GcHeap
  imports Gc
begin

text \<open>
  The lists through the objects (\<open>next_of\<close>, \<open>gray_next\<close>) as predicates on the heap, the pointers an
  object holds, and what marking does to a list of pointers.
\<close>

section \<open>Lists through the objects\<close>

fun lseg :: "('d vmobj \<Rightarrow> nat option) \<Rightarrow> (nat \<Rightarrow> 'd vmobj option) \<Rightarrow> nat option \<Rightarrow> nat list \<Rightarrow> nat option \<Rightarrow> bool" where
  "lseg f h p [] q \<longleftrightarrow> p = q"
| "lseg f h p (a # as) q \<longleftrightarrow> p = Some a \<and> (\<exists>n. h a = Some n \<and> lseg f h (f n) as q)"

lemma lseg_cong: "(\<And>a. a \<in> set as \<Longrightarrow> map_option f (h' a) = map_option f (h a)) \<Longrightarrow> lseg f h p as q \<Longrightarrow> lseg f h' p as q"
proof (induction as arbitrary: p)
  case (Cons a as)
  then obtain n where n: "p = Some a" "h a = Some n" "lseg f h (f n) as q" by auto
  have "map_option f (h' a) = Some (f n)" using Cons.prems(1) [of a] n(2) by simp
  then obtain n' where "h' a = Some n'" "f n' = f n" by auto
  moreover have "lseg f h' (f n) as q" using Cons n(3) by auto
  ultimately show ?case using n(1) by simp
qed simp

lemma lseg_append: "lseg f h p (xs @ ys) q \<longleftrightarrow> (\<exists>r. lseg f h p xs r \<and> lseg f h r ys q)"
  by (induction xs arbitrary: p) auto

lemma lseg_None: "lseg f h None as None \<longleftrightarrow> as = []"
  by (cases as) auto

lemma lseg_Some: "lseg f h (Some a) as None \<longleftrightarrow> (\<exists>bs n. as = a # bs \<and> h a = Some n \<and> lseg f h (f n) bs None)"
  by (cases as) auto

lemma lseg_alloc: "lseg f h p as q \<Longrightarrow> a \<in> set as \<Longrightarrow> \<exists>n. h a = Some n"
  by (induction as arbitrary: p) auto

lemma lseg_upd: "a \<notin> set as \<Longrightarrow> lseg f (h(a := x)) p as q \<longleftrightarrow> lseg f h p as q"
  by (auto elim!: lseg_cong [rotated])

lemma upd_obj_Some [simp]: "heap gc a = Some n \<Longrightarrow> upd_obj gc a f = Some (gc\<lparr>heap := (heap gc)(a \<mapsto> f n)\<rparr>)"
  by (simp add: upd_obj_def)

section \<open>What an object holds\<close>

text \<open>The pointers that \<open>mt.atomic\<close> marks, and the entries that are weak.\<close>

definition entry_ptrs :: "bool \<Rightarrow> bool \<Rightarrow> (vmptr \<times> vmptr) list \<Rightarrow> vmptr list" where
  "entry_ptrs ks vs es = concat (map (\<lambda>(k, v). (if ks then [k] else []) @ (if vs then [v] else [])) es)"

definition ud_kids :: "'d callbacks \<Rightarrow> metatable \<Rightarrow> 'd udata \<Rightarrow> vmptr list" where
  "ud_kids cbs mt u = (case mt_atomic mt of None \<Rightarrow> []
     | Some fklAtomicVMtype \<Rightarrow> (case u of UdType dll _ \<Rightarrow> [dll] | _ \<Rightarrow> [])
     | Some weak_hash_eq_atomic \<Rightarrow> (case u of UdWeakHash wk wv es \<Rightarrow> entry_ptrs (\<not> wk) (\<not> wv) es | _ \<Rightarrow> [])
     | Some (Cb_atomic c) \<Rightarrow> (case u of UdData d \<Rightarrow> cb_marks cbs c d | _ \<Rightarrow> []))"

definition kids :: "'d callbacks \<Rightarrow> 'd gcst \<Rightarrow> nat \<Rightarrow> vmptr list" where
  "kids cbs gc a = (case heap gc a of None \<Rightarrow> [] | Some n \<Rightarrow> (case body n of
      VmPair x d \<Rightarrow> [x, d] | VmVec vs \<Rightarrow> vs | VmBox p \<Rightarrow> [p] | VmHash es \<Rightarrow> entry_ptrs True True es
    | VmProc nm bcl proto cl \<Rightarrow> [nm, bcl, proto] @ cl | VmCproc dll \<Rightarrow> [dll]
    | VmVarRef r \<Rightarrow> (case ref_value gc r of None \<Rightarrow> [] | Some p \<Rightarrow> [p])
    | VmUd tp u \<Rightarrow> PObj tp # (case meta_of gc tp of None \<Rightarrow> [] | Some mt \<Rightarrow> ud_kids cbs mt u)
    | _ \<Rightarrow> []))"

text \<open>The callbacks of a type are made for the contents of its objects.\<close>

definition ud_typed :: "metatable \<Rightarrow> 'd udata \<Rightarrow> bool" where
  "ud_typed mt u \<longleftrightarrow>
     (case mt_atomic mt of None \<Rightarrow> True
      | Some fklAtomicVMtype \<Rightarrow> (\<exists>dll m. u = UdType dll m)
      | Some weak_hash_eq_atomic \<Rightarrow> (\<exists>wk wv es. u = UdWeakHash wk wv es)
      | Some (Cb_atomic c) \<Rightarrow> (\<exists>d. u = UdData d))
   \<and> (case mt_update_weak_ref mt of None \<Rightarrow> (case u of UdType _ _ \<Rightarrow> True | UdData _ \<Rightarrow> True | _ \<Rightarrow> False)
      | Some weak_hash_eq_update_weak_ref \<Rightarrow> (\<exists>wk wv es. u = UdWeakHash wk wv es)
      | Some obarray_update_weak_ref \<Rightarrow> (\<exists>es. u = UdObarray es)
      | Some lnt_ud_update_weak_ref \<Rightarrow> (\<exists>es. u = UdLnt es))"

definition obj_typed :: "'d gcst \<Rightarrow> nat \<Rightarrow> bool" where
  "obj_typed gc a \<longleftrightarrow> (\<exists>n. heap gc a = Some n \<and> (case body n of
      VmUd tp u \<Rightarrow> (\<exists>mt. meta_of gc tp = Some mt \<and> ud_typed mt u)
    | VmVarRef r \<Rightarrow> ref_value gc r \<noteq> None
    | _ \<Rightarrow> True))"

text \<open>The weak pointers of a table.\<close>

definition weak_ptrs :: "'d gcst \<Rightarrow> nat \<Rightarrow> vmptr list" where
  "weak_ptrs gc a = (case heap gc a of None \<Rightarrow> [] | Some n \<Rightarrow> (case body n of
      VmUd tp (UdWeakHash wk wv es) \<Rightarrow> entry_ptrs wk wv es
    | VmUd tp (UdObarray es) \<Rightarrow> map snd es
    | VmUd tp (UdLnt es) \<Rightarrow> map fst es
    | _ \<Rightarrow> []))"

section \<open>States that differ in their marks only\<close>

definition obj_core :: "'d vmobj \<Rightarrow> nat option \<times> u64 \<times> 'd body" where
  "obj_core n = (next_of n, zsize n, body n)"

definition same_objs :: "'d gcst \<Rightarrow> 'd gcst \<Rightarrow> bool" where
  "same_objs gc gc' \<longleftrightarrow> (\<forall>a. map_option obj_core (heap gc' a) = map_option obj_core (heap gc a))
     \<and> gc' = gc\<lparr>heap := heap gc', gray_list := gray_list gc', weak_refs := weak_refs gc'\<rparr>"

lemma same_objs_refl [simp]: "same_objs gc gc"
  by (simp add: same_objs_def)

lemma same_objs_trans: "same_objs gc gc1 \<Longrightarrow> same_objs gc1 gc2 \<Longrightarrow> same_objs gc gc2"
  unfolding same_objs_def by (cases gc; cases gc1; cases gc2) simp

lemma same_objs_upd:
  assumes "heap gc a = Some n" "obj_core n' = obj_core n"
  shows "same_objs gc (gc\<lparr>heap := (heap gc)(a \<mapsto> n'), gray_list := g\<rparr>)"
    "same_objs gc (gc\<lparr>heap := (heap gc)(a \<mapsto> n'), weak_refs := g\<rparr>)"
    "same_objs gc (gc\<lparr>heap := (heap gc)(a \<mapsto> n')\<rparr>)"
  using assms by (simp_all add: same_objs_def)

lemma same_objs_body: "same_objs gc gc' \<Longrightarrow> map_option body (heap gc' a) = map_option body (heap gc a)"
proof -
  assume "same_objs gc gc'"
  then have "map_option (snd \<circ> snd) (map_option obj_core (heap gc' a)) = map_option (snd \<circ> snd) (map_option obj_core (heap gc a))"
    by (simp add: same_objs_def)
  then show ?thesis by (simp add: option.map_comp comp_def obj_core_def)
qed

lemma same_objs_next: "same_objs gc gc' \<Longrightarrow> map_option next_of (heap gc' a) = map_option next_of (heap gc a)"
proof -
  assume "same_objs gc gc'"
  then have "map_option fst (map_option obj_core (heap gc' a)) = map_option fst (map_option obj_core (heap gc a))"
    by (simp add: same_objs_def)
  then show ?thesis by (simp add: option.map_comp comp_def obj_core_def)
qed

lemma same_objs_fields:
  assumes "same_objs gc gc'"
  shows "gcvm gc' = gcvm gc" "vms gc' = vms gc" "gc_head gc' = gc_head gc" "builtin_refs gc' = builtin_refs gc"
    "extra_marks gc' = extra_marks gc" "gc_int_list gc' = gc_int_list gc" "obarray gc' = obarray gc" "gc_keywords gc' = gc_keywords gc"
    "builtinErrorTypeId gc' = builtinErrorTypeId gc" "gc_seeks gc' = gc_seeks gc" "gc_syms gc' = gc_syms gc"
    "gc_words gc' = gc_words gc" "path_vec gc' = path_vec gc"
  using assms by (auto simp: same_objs_def intro: gcst.select_convs elim: ssubst)

lemma same_objs_D: "same_objs gc gc' \<Longrightarrow> heap gc a = Some n \<Longrightarrow> \<exists>n'. heap gc' a = Some n' \<and> body n' = body n"
  using same_objs_body [of gc gc' a] by auto

lemma meta_of_same: "same_objs gc gc' \<Longrightarrow> meta_of gc' tp = meta_of gc tp"
  using same_objs_body [of gc gc' tp] by (cases "heap gc tp"; cases "heap gc' tp") (auto simp: meta_of_def)

lemma ref_value_same: "same_objs gc gc' \<Longrightarrow> ref_value gc' r = ref_value gc r"
  using same_objs_fields(1,2) [of gc gc'] by (simp add: ref_value_def split: refcell.split)

lemma kids_same: "same_objs gc gc' \<Longrightarrow> kids cbs gc' a = kids cbs gc a"
  using same_objs_body [of gc gc' a]
  by (cases "heap gc a"; cases "heap gc' a") (auto simp: kids_def meta_of_same ref_value_same split: body.splits)

lemma weak_ptrs_same: "same_objs gc gc' \<Longrightarrow> weak_ptrs gc' a = weak_ptrs gc a"
  using same_objs_body [of gc gc' a]
  by (cases "heap gc a"; cases "heap gc' a") (auto simp: weak_ptrs_def split: body.splits udata.splits)

lemma obj_typed_same: "same_objs gc gc' \<Longrightarrow> obj_typed gc' a = obj_typed gc a"
  using same_objs_body [of gc gc' a]
  by (cases "heap gc a"; cases "heap gc' a") (auto simp: obj_typed_def meta_of_same ref_value_same split: body.splits)

lemma is_weak_same: "same_objs gc gc' \<Longrightarrow> is_weak_ref_value gc' a = is_weak_ref_value gc a"
  using same_objs_body [of gc gc' a]
  by (cases "heap gc a"; cases "heap gc' a") (auto simp: is_weak_ref_value_def meta_of_same split: body.splits)

section \<open>The state of a marking phase\<close>

definition marked :: "nat set \<Rightarrow> 'd gcst \<Rightarrow> nat set" where
  "marked L gc = {a \<in> L. \<exists>n. heap gc a = Some n \<and> mark_of n \<noteq> FKL_MARK_W}"

definition black :: "nat set \<Rightarrow> 'd gcst \<Rightarrow> nat set" where
  "black L gc = {a \<in> L. \<exists>n. heap gc a = Some n \<and> mark_of n = FKL_MARK_B}"

text \<open>
  \<open>L\<close> are the objects of the collector, \<open>S\<close> the static ones, which are always black; \<open>gs\<close> are the gray
  objects, \<open>ws\<close> the weak tables met so far.
\<close>

definition marking :: "nat set \<Rightarrow> nat set \<Rightarrow> 'd gcst \<Rightarrow> nat list \<Rightarrow> nat list \<Rightarrow> bool" where
  "marking L S gc gs ws \<longleftrightarrow>
     lseg gray_next (heap gc) (gray_list gc) gs None \<and> lseg gray_next (heap gc) (weak_refs gc) ws None
   \<and> distinct (gs @ ws) \<and> set gs = marked L gc - black L gc \<and> set ws \<subseteq> black L gc
   \<and> (\<forall>a \<in> L \<union> S. \<exists>n. heap gc a = Some n) \<and> L \<inter> S = {}
   \<and> (\<forall>a \<in> S. \<forall>n. heap gc a = Some n \<longrightarrow> mark_of n = FKL_MARK_B)"

definition targets :: "nat set \<Rightarrow> vmptr list \<Rightarrow> nat set" where
  "targets L ps = {a \<in> L. PObj a \<in> set ps}"

definition points_into :: "nat set \<Rightarrow> vmptr list \<Rightarrow> bool" where
  "points_into X ps \<longleftrightarrow> (\<forall>a. PObj a \<in> set ps \<longrightarrow> a \<in> X)"

lemma points_into_simps [simp]:
  "points_into X []" "points_into X (p # ps) \<longleftrightarrow> (\<forall>a. p = PObj a \<longrightarrow> a \<in> X) \<and> points_into X ps"
  "points_into X (ps @ qs) \<longleftrightarrow> points_into X ps \<and> points_into X qs"
  by (auto simp: points_into_def)

lemma targets_simps [simp]:
  "targets L [] = {}" "targets L (PObj a # ps) = (if a \<in> L then insert a (targets L ps) else targets L ps)"
  "targets L (ps @ qs) = targets L ps \<union> targets L qs"
  by (auto simp: targets_def)

lemma marking_alloc: "marking L S gc gs ws \<Longrightarrow> a \<in> L \<union> S \<Longrightarrow> \<exists>n. heap gc a = Some n"
  unfolding marking_def by blast

text \<open>Graying one pointer.\<close>

definition grayed :: "nat set \<Rightarrow> nat set \<Rightarrow> 'd gcst \<Rightarrow> nat list \<Rightarrow> vmptr list \<Rightarrow> 'd gcst \<Rightarrow> bool" where
  "grayed L S gc ws ps gc' \<longleftrightarrow> (\<exists>gs. marking L S gc' gs ws) \<and> marked L gc' = marked L gc \<union> targets L ps
     \<and> black L gc' = black L gc \<and> same_objs gc gc'"

lemma wp_ToGray:
  assumes m: "marking L S gc gs ws" and p: "points_into (L \<union> S) [p]"
  shows "wp (fklVMgcToGray p gc) (grayed L S gc ws [p])"
proof (cases p)
  case (PObj a)
  then have aLS: "a \<in> L \<union> S" using p by simp
  then obtain n where n: "heap gc a = Some n" using marking_alloc [OF m] by blast
  show ?thesis
  proof (cases "mark_of n = FKL_MARK_W")
    case False
    have "targets L [p] \<subseteq> marked L gc" using False n PObj by (auto simp: marked_def)
    then show ?thesis using False n m PObj by (auto simp: fklVMgcToGray_def grayed_def)
  next
    case True
    then have aL: "a \<in> L" using aLS m n by (auto simp: marking_def)
    let ?n = "n\<lparr>mark_of := FKL_MARK_G, gray_next := gray_list gc\<rparr>"
    let ?gc = "gc\<lparr>heap := (heap gc)(a \<mapsto> ?n), gray_list := Some a\<rparr>"
    have nm: "a \<notin> marked L gc" using True n by (simp add: marked_def)
    then have notin: "a \<notin> set gs" "a \<notin> set ws" using m by (auto simp: marking_def black_def marked_def)
    have mk: "marked L ?gc = insert a (marked L gc)" using aL n by (auto simp: marked_def)
    have bl: "black L ?gc = black L gc" using True n by (auto simp: black_def)
    have "marking L S ?gc (a # gs) ws"
      unfolding marking_def mk bl
    proof (intro conjI ballI allI impI)
      show "lseg gray_next (heap ?gc) (gray_list ?gc) (a # gs) None"
        using m notin(1) by (simp add: marking_def lseg_upd del: fun_upd_apply) simp
      show "lseg gray_next (heap ?gc) (weak_refs ?gc) ws None"
        using m notin(2) by (simp add: marking_def lseg_upd del: fun_upd_apply)
      have "distinct (gs @ ws)" using m unfolding marking_def by blast
      then show "distinct ((a # gs) @ ws)" using notin by simp
      show "set (a # gs) = insert a (marked L gc) - black L gc"
        using m nm by (auto simp: marking_def black_def marked_def)
      show "set ws \<subseteq> black L gc" "L \<inter> S = {}" using m by (auto simp: marking_def)
      show "\<exists>n. heap ?gc x = Some n" if "x \<in> L \<union> S" for x using m that by (auto simp: marking_def)
      show "mark_of k = FKL_MARK_B" if "x \<in> S" "heap ?gc x = Some k" for x k
        using m that aL by (auto simp: marking_def split: if_splits)
    qed
    moreover have "same_objs gc ?gc" by (rule same_objs_upd) (simp_all add: n obj_core_def)
    moreover have "fklVMgcToGray p gc = Some ?gc" using PObj n True by (simp add: fklVMgcToGray_def)
    ultimately show ?thesis using mk bl aL PObj by (auto simp: grayed_def)
  qed
qed (use m in \<open>auto simp: fklVMgcToGray_def grayed_def targets_def\<close>)

lemma grayed_refl: "marking L S gc gs ws \<Longrightarrow> grayed L S gc ws [] gc"
  by (auto simp: grayed_def)

lemma grayed_trans: "grayed L S gc ws ps gc1 \<Longrightarrow> grayed L S gc1 ws qs gc2 \<Longrightarrow> grayed L S gc ws (ps @ qs) gc2"
  by (auto simp: grayed_def intro: same_objs_trans)

lemma grayed_marking: "grayed L S gc ws ps gc' \<Longrightarrow> \<exists>gs. marking L S gc' gs ws"
  by (simp add: grayed_def)

text \<open>The rule for a sequence of marking steps.\<close>

lemma wp_grays:
  assumes f: "wp f (grayed L S gc ws ps)" and g: "\<And>gc1 gs. grayed L S gc ws ps gc1 \<Longrightarrow> marking L S gc1 gs ws \<Longrightarrow> wp (g gc1) (grayed L S gc1 ws qs)"
  shows "wp (Option.bind f g) (grayed L S gc ws (ps @ qs))"
proof (rule wp_bind [OF f])
  fix gc1 assume a: "grayed L S gc ws ps gc1"
  then obtain gs where "marking L S gc1 gs ws" by (auto simp: grayed_def)
  then have "wp (g gc1) (grayed L S gc1 ws qs)" by (rule g [OF a])
  then show "wp (g gc1) (grayed L S gc ws (ps @ qs))" by (rule wp_mono) (rule grayed_trans [OF a])
qed

lemma wp_gray_all:
  "marking L S gc gs ws \<Longrightarrow> points_into (L \<union> S) ps \<Longrightarrow> wp (gray_all ps gc) (grayed L S gc ws ps)"
proof (induction ps arbitrary: gc gs)
  case Nil
  then show ?case by (simp add: grayed_refl)
next
  case (Cons p ps)
  then have p: "points_into (L \<union> S) [p]" "points_into (L \<union> S) ps" by simp_all
  have "wp (gray_all (p # ps) gc) (grayed L S gc ws ([p] @ ps))"
    unfolding gray_all.simps using wp_ToGray [OF Cons.prems(1) p(1)] by (rule wp_grays) (rule Cons.IH [OF _ p(2)])
  then show ?case by simp
qed

end
