(* ===== verification/GcMark.thy ===== *)
theory GcMark
  imports GcHeap
begin

text \<open>
  Propagating the marks: the objects that are marked when the gray list is empty are exactly those
  that can be reached from the ones marked at first.
\<close>

section \<open>The pointers of one object\<close>

lemma entry_ptrs_simps [simp]:
  "entry_ptrs ks vs [] = []"
  "entry_ptrs ks vs ((k, v) # es) = ((if ks then [k] else []) @ (if vs then [v] else [])) @ entry_ptrs ks vs es"
  by (simp_all add: entry_ptrs_def)

lemma wp_gray_if:
  "marking L S gc gs ws \<Longrightarrow> points_into (L \<union> S) (if b then [p] else [])
   \<Longrightarrow> wp (if b then fklVMgcToGray p gc else Some gc) (grayed L S gc ws (if b then [p] else []))"
  by (cases b) (simp_all add: wp_ToGray grayed_refl)

lemma wp_gray_entries:
  "marking L S gc gs ws \<Longrightarrow> points_into (L \<union> S) (entry_ptrs ks vs es)
   \<Longrightarrow> wp (gray_entries ks vs es gc) (grayed L S gc ws (entry_ptrs ks vs es))"
proof (induction es arbitrary: gc gs)
  case Nil
  then show ?case by (simp add: grayed_refl)
next
  case (Cons e es)
  obtain k v where e: "e = (k, v)" by (cases e)
  have p: "points_into (L \<union> S) (if ks then [k] else [])" "points_into (L \<union> S) (if vs then [v] else [])"
    "points_into (L \<union> S) (entry_ptrs ks vs es)" using Cons.prems(2) e by auto
  have "wp (gray_entries ks vs (e # es) gc) (grayed L S gc ws ((if ks then [k] else []) @ ((if vs then [v] else []) @ entry_ptrs ks vs es)))"
    unfolding e gray_entries.simps
    by (rule wp_grays [OF wp_gray_if [OF Cons.prems(1) p(1)]], rule wp_grays [OF wp_gray_if [OF _ p(2)]], assumption, rule Cons.IH [OF _ p(3)])
  then show ?case by (simp add: e)
qed

lemma wp_run_atomic:
  assumes m: "marking L S gc gs ws" and t: "ud_typed mt u" "mt_atomic mt = Some f" and p: "points_into (L \<union> S) (ud_kids cbs mt u)"
  shows "wp (run_atomic cbs f u gc) (grayed L S gc ws (ud_kids cbs mt u))"
proof (cases f)
  case fklAtomicVMtype
  then obtain dll m' where "u = UdType dll m'" using t by (auto simp: ud_typed_def)
  then show ?thesis using fklAtomicVMtype t(2) wp_ToGray [OF m, of dll] p by (simp add: run_atomic_def ud_kids_def)
next
  case weak_hash_eq_atomic
  then obtain wk wv es where u: "u = UdWeakHash wk wv es" using t by (auto simp: ud_typed_def)
  have k: "ud_kids cbs mt u = entry_ptrs (\<not> wk) (\<not> wv) es" using weak_hash_eq_atomic t(2) u by (simp add: ud_kids_def)
  have "entry_ptrs False False es = []" by (induction es) auto
  then show ?thesis using wp_gray_entries [OF m, of "\<not> wk" "\<not> wv" es] p m weak_hash_eq_atomic u unfolding k
    by (auto simp: run_atomic_def grayed_refl)
next
  case (Cb_atomic c)
  then obtain d where "u = UdData d" using t by (auto simp: ud_typed_def)
  then show ?thesis using Cb_atomic t(2) wp_gray_all [OF m, of "cb_marks cbs c d"] p by (simp add: run_atomic_def ud_kids_def)
qed

lemma wp_AtomicVMuserdata:
  assumes m: "marking L S gc gs ws" and t: "meta_of gc tp = Some mt" "ud_typed mt u"
    and p: "points_into (L \<union> S) (PObj tp # ud_kids cbs mt u)"
  shows "wp (fklAtomicVMuserdata cbs tp u gc) (grayed L S gc ws (PObj tp # ud_kids cbs mt u))"
proof -
  have "wp (fklAtomicVMuserdata cbs tp u gc) (grayed L S gc ws ([PObj tp] @ ud_kids cbs mt u))"
    unfolding fklAtomicVMuserdata_def
  proof (rule wp_grays [OF wp_ToGray [OF m]])
    show "points_into (L \<union> S) [PObj tp]" using p by simp
    fix gc1 gs1 assume g: "grayed L S gc ws [PObj tp] gc1" and m1: "marking L S gc1 gs1 ws"
    have mt: "meta_of gc1 tp = Some mt" using g t(1) meta_of_same [of gc gc1 tp] by (simp add: grayed_def)
    show "wp (do { mt \<leftarrow> meta_of gc1 tp; case mt_atomic mt of None \<Rightarrow> Some gc1 | Some f \<Rightarrow> run_atomic cbs f u gc1 }) (grayed L S gc1 ws (ud_kids cbs mt u))"
    proof (cases "mt_atomic mt")
      case None
      then show ?thesis using mt m1 by (simp add: ud_kids_def grayed_refl)
    next
      case (Some f)
      then show ?thesis using mt wp_run_atomic [OF m1 t(2) Some] p by simp
    qed
  qed
  then show ?thesis by simp
qed

lemma wp_propagateMark:
  assumes m: "marking L S gc gs ws" and t: "obj_typed gc a" and p: "points_into (L \<union> S) (kids cbs gc a)"
  shows "wp (propagateMark cbs a gc) (grayed L S gc ws (kids cbs gc a))"
proof -
  obtain n where n: "heap gc a = Some n" using t by (auto simp: obj_typed_def)
  show ?thesis
  proof (cases "body n")
    case (VmPair x d)
    have "wp (fklAtomicVMpair x d gc) (grayed L S gc ws ([x] @ [d]))" unfolding fklAtomicVMpair_def
      by (rule wp_grays [OF wp_ToGray [OF m]], use p n VmPair in \<open>simp add: kids_def\<close>, rule wp_ToGray, assumption, use p n VmPair in \<open>simp add: kids_def\<close>)
    then show ?thesis using n VmPair by (simp add: propagateMark_def kids_def)
  next
    case (VmVec vs)
    then show ?thesis using n wp_gray_all [OF m, of vs] p by (simp add: propagateMark_def kids_def fklAtomicVMvec_def)
  next
    case (VmBox q)
    then show ?thesis using n wp_ToGray [OF m, of q] p by (simp add: propagateMark_def kids_def fklAtomicVMbox_def)
  next
    case (VmHash es)
    then show ?thesis using n wp_gray_entries [OF m, of True True es] p
      by (simp add: propagateMark_def kids_def fklAtomicVMhashTable_def)
  next
    case (VmProc nm bcl proto cl)
    have k: "kids cbs gc a = [nm] @ [bcl] @ [proto] @ cl" using n VmProc by (simp add: kids_def)
    have q: "points_into (L \<union> S) [nm]" "points_into (L \<union> S) [bcl]" "points_into (L \<union> S) [proto]" "points_into (L \<union> S) cl"
      using p k by simp_all
    have "wp (fklAtomicVMproc nm bcl proto cl gc) (grayed L S gc ws ([nm] @ [bcl] @ [proto] @ cl))" unfolding fklAtomicVMproc_def
      by (rule wp_grays [OF wp_ToGray [OF m q(1)]], rule wp_grays [OF wp_ToGray [OF _ q(2)]], assumption,
          rule wp_grays [OF wp_ToGray [OF _ q(3)]], assumption, rule wp_gray_all [OF _ q(4)])
    then show ?thesis using n VmProc k by (simp add: propagateMark_def)
  next
    case (VmCproc dll)
    then show ?thesis using n wp_ToGray [OF m, of dll] p by (simp add: propagateMark_def kids_def fklAtomicVMcproc_def)
  next
    case (VmVarRef r)
    then obtain q where "ref_value gc r = Some q" using t n by (auto simp: obj_typed_def)
    then show ?thesis using VmVarRef n wp_ToGray [OF m, of q] p by (simp add: propagateMark_def kids_def atomic_var_ref_def)
  next
    case (VmUd tp u)
    then obtain mt where mt: "meta_of gc tp = Some mt" "ud_typed mt u" using t n by (auto simp: obj_typed_def)
    have "kids cbs gc a = PObj tp # ud_kids cbs mt u" using n VmUd mt by (simp add: kids_def)
    then show ?thesis using wp_AtomicVMuserdata [OF m mt] p n VmUd by (simp add: propagateMark_def)
  qed (use n m in \<open>simp_all add: propagateMark_def kids_def grayed_refl\<close>)
qed

section \<open>One step\<close>

text \<open>Taking the first object off the gray list and making it black.\<close>

lemma marking_blacken:
  assumes m: "marking L S gc (v # gs) ws" and n: "heap gc v = Some n"
    and n': "mark_of n' = FKL_MARK_B" "obj_core n' = obj_core n"
  shows "marking L S (gc\<lparr>gray_list := gray_next n, heap := (heap gc)(v \<mapsto> n')\<rparr>) gs ws
    \<and> marked L (gc\<lparr>gray_list := gray_next n, heap := (heap gc)(v \<mapsto> n')\<rparr>) = marked L gc
    \<and> black L (gc\<lparr>gray_list := gray_next n, heap := (heap gc)(v \<mapsto> n')\<rparr>) = insert v (black L gc)"
proof -
  let ?gc = "gc\<lparr>gray_list := gray_next n, heap := (heap gc)(v \<mapsto> n')\<rparr>"
  have d: "distinct (gs @ ws)" "v \<notin> set gs" "v \<notin> set ws" and vm: "v \<in> marked L gc" "v \<notin> black L gc"
    using m by (auto simp: marking_def)
  have vL: "v \<in> L" using vm by (simp add: marked_def)
  have mk: "marked L ?gc = marked L gc" using vm vL n' by (auto simp: marked_def)
  have bl: "black L ?gc = insert v (black L gc)" using vL n' by (auto simp: black_def)
  have "marking L S ?gc gs ws" unfolding marking_def mk bl
  proof (intro conjI ballI allI impI)
    show "lseg gray_next (heap ?gc) (gray_list ?gc) gs None"
      using m n d(2) by (simp add: marking_def lseg_upd del: fun_upd_apply)
    show "lseg gray_next (heap ?gc) (weak_refs ?gc) ws None"
      using m d(3) by (simp add: marking_def lseg_upd del: fun_upd_apply)
    show "distinct (gs @ ws)" by (rule d)
    have "set (v # gs) = marked L gc - black L gc" using m unfolding marking_def by blast
    then show "set gs = marked L gc - insert v (black L gc)" using d(2) by auto
    show "set ws \<subseteq> insert v (black L gc)" "L \<inter> S = {}" using m by (auto simp: marking_def)
    show "\<exists>k. heap ?gc x = Some k" if "x \<in> L \<union> S" for x using marking_alloc [OF m that] by auto
    show "mark_of k = FKL_MARK_B" if "x \<in> S" "heap ?gc x = Some k" for x k
      using m that n' by (auto simp: marking_def split: if_splits)
  qed
  then show ?thesis using mk bl by blast
qed

lemma marking_push_weak:
  assumes m: "marking L S gc gs ws" and v: "v \<in> black L gc" "v \<notin> set ws" and n: "heap gc v = Some n"
  shows "marking L S (gc\<lparr>heap := (heap gc)(v \<mapsto> n\<lparr>gray_next := weak_refs gc\<rparr>), weak_refs := Some v\<rparr>) gs (v # ws)
    \<and> marked L (gc\<lparr>heap := (heap gc)(v \<mapsto> n\<lparr>gray_next := weak_refs gc\<rparr>), weak_refs := Some v\<rparr>) = marked L gc
    \<and> black L (gc\<lparr>heap := (heap gc)(v \<mapsto> n\<lparr>gray_next := weak_refs gc\<rparr>), weak_refs := Some v\<rparr>) = black L gc"
proof -
  let ?gc = "gc\<lparr>heap := (heap gc)(v \<mapsto> n\<lparr>gray_next := weak_refs gc\<rparr>), weak_refs := Some v\<rparr>"
  have vg: "v \<notin> set gs" using m v by (auto simp: marking_def)
  have mk: "marked L ?gc = marked L gc" using n by (auto simp: marked_def)
  have bl: "black L ?gc = black L gc" using n by (auto simp: black_def)
  have "marking L S ?gc gs (v # ws)" unfolding marking_def mk bl
  proof (intro conjI ballI allI impI)
    show "lseg gray_next (heap ?gc) (gray_list ?gc) gs None"
      using m vg by (simp add: marking_def lseg_upd del: fun_upd_apply)
    show "lseg gray_next (heap ?gc) (weak_refs ?gc) (v # ws) None"
      using m v(2) by (simp add: marking_def lseg_upd del: fun_upd_apply) simp
    have "distinct (gs @ ws)" using m unfolding marking_def by blast
    then show "distinct (gs @ v # ws)" using vg v(2) by simp
    show "set gs = marked L gc - black L gc" "set (v # ws) \<subseteq> black L gc" "L \<inter> S = {}" using m v by (auto simp: marking_def)
    show "\<exists>k. heap ?gc x = Some k" if "x \<in> L \<union> S" for x using marking_alloc [OF m that] by auto
    show "mark_of k = FKL_MARK_B" if "x \<in> S" "heap ?gc x = Some k" for x k
      using m that n by (auto simp: marking_def split: if_splits)
  qed
  then show ?thesis using mk bl by blast
qed


section \<open>The loop\<close>

inductive_set reach_in :: "'d callbacks \<Rightarrow> 'd gcst \<Rightarrow> nat set \<Rightarrow> nat set \<Rightarrow> nat set" for cbs gc L R where
  reach_root: "a \<in> R \<Longrightarrow> a \<in> reach_in cbs gc L R"
| reach_kid: "a \<in> reach_in cbs gc L R \<Longrightarrow> b \<in> targets L (kids cbs gc a) \<Longrightarrow> b \<in> reach_in cbs gc L R"

definition weak_tables :: "'d gcst \<Rightarrow> nat set" where
  "weak_tables gc = {a. is_weak_ref_value gc a = Some True}"

text \<open>The invariant of the loop, for the roots \<open>R\<close> and the state \<open>g0\<close> before the loop.\<close>

definition propagating :: "'d callbacks \<Rightarrow> nat set \<Rightarrow> nat set \<Rightarrow> nat set \<Rightarrow> 'd gcst \<Rightarrow> 'd gcst \<Rightarrow> nat list \<Rightarrow> nat list \<Rightarrow> bool" where
  "propagating cbs L S R g0 gc gs ws \<longleftrightarrow> marking L S gc gs ws \<and> same_objs g0 gc
     \<and> (\<forall>a \<in> black L gc. targets L (kids cbs g0 a) \<subseteq> marked L gc)
     \<and> R \<subseteq> marked L gc \<and> marked L gc \<subseteq> reach_in cbs g0 L R \<and> set ws = black L gc \<inter> weak_tables g0"

text \<open>What the objects must satisfy: they are well-typed and point to objects.\<close>

definition closed_objs :: "'d callbacks \<Rightarrow> nat set \<Rightarrow> nat set \<Rightarrow> 'd gcst \<Rightarrow> bool" where
  "closed_objs cbs L S gc \<longleftrightarrow> (\<forall>a \<in> L. obj_typed gc a \<and> points_into (L \<union> S) (kids cbs gc a))"

lemma is_weak_total: "obj_typed gc a \<Longrightarrow> \<exists>b. is_weak_ref_value gc a = Some b"
proof -
  assume "obj_typed gc a"
  then obtain n where n: "heap gc a = Some n" and t: "\<And>tp u. body n = VmUd tp u \<Longrightarrow> \<exists>mt. meta_of gc tp = Some mt"
    unfolding obj_typed_def by fastforce
  show ?thesis using n t by (cases "body n") (auto simp: is_weak_ref_value_def)
qed

lemma wp_Propagate:
  assumes c: "closed_objs cbs L S g0" and inv: "propagating cbs L S R g0 gc (v # gs) ws"
  shows "wp (fklVMgcPropagate cbs gc) (\<lambda>(gc', fin). \<exists>gs' ws'. propagating cbs L S R g0 gc' gs' ws'
    \<and> (fin \<longleftrightarrow> gs' = []) \<and> black L gc' = insert v (black L gc) \<and> v \<in> L - black L gc)"
proof -
  have m: "marking L S gc (v # gs) ws" and so: "same_objs g0 gc"
    and bk: "\<And>a. a \<in> black L gc \<Longrightarrow> targets L (kids cbs g0 a) \<subseteq> marked L gc"
    and R: "R \<subseteq> marked L gc" "marked L gc \<subseteq> reach_in cbs g0 L R" and ws: "set ws = black L gc \<inter> weak_tables g0"
    using inv by (auto simp: propagating_def)
  have v: "v \<in> marked L gc" "v \<notin> black L gc" "v \<notin> set ws" and gl: "gray_list gc = Some v" using m by (auto simp: marking_def)
  then have vL: "v \<in> L" by (simp add: marked_def)
  obtain n where n: "heap gc v = Some n" using marking_alloc [OF m] vL by blast
  have mg: "mark_of n = FKL_MARK_G" using v n by (cases "mark_of n") (auto simp: marked_def black_def)
  define g1 where "g1 = gc\<lparr>gray_list := gray_next n, heap := (heap gc)(v \<mapsto> n\<lparr>gray_next := None, mark_of := FKL_MARK_B\<rparr>)\<rparr>"
  have m1: "marking L S g1 gs ws" "marked L g1 = marked L gc" "black L g1 = insert v (black L gc)"
    using marking_blacken [OF m n, of "n\<lparr>gray_next := None, mark_of := FKL_MARK_B\<rparr>"] by (simp_all add: g1_def obj_core_def)
  have "same_objs gc g1" unfolding g1_def using same_objs_upd(1) [OF n, of "n\<lparr>gray_next := None, mark_of := FKL_MARK_B\<rparr>" "gray_next n"]
    by (cases gc) (simp add: obj_core_def)
  then have so1: "same_objs g0 g1" by (rule same_objs_trans [OF so])
  have t: "obj_typed g1 v" and p: "points_into (L \<union> S) (kids cbs g1 v)"
    using c vL obj_typed_same [OF so1] kids_same [OF so1] by (simp_all add: closed_objs_def)
  obtain g2 where g2: "propagateMark cbs v g1 = Some g2" "grayed L S g1 ws (kids cbs g1 v) g2"
    using wp_propagateMark [OF m1(1) t p] by (rule wpE)
  then obtain gs2 where m2: "marking L S g2 gs2 ws" "marked L g2 = marked L gc \<union> targets L (kids cbs g0 v)"
    "black L g2 = insert v (black L gc)" "same_objs g1 g2"
    using m1 kids_same [OF so1] by (auto simp: grayed_def)
  have so2: "same_objs g0 g2" by (rule same_objs_trans [OF so1 m2(4)])
  have "obj_typed g0 v" using c vL by (simp add: closed_objs_def)
  then obtain w where w: "is_weak_ref_value g0 v = Some w" using is_weak_total by blast
  then have w2: "is_weak_ref_value g2 v = Some w" by (simp add: is_weak_same [OF so2])
  have vr: "v \<in> reach_in cbs g0 L R" using v(1) R(2) by blast
  have closed: "targets L (kids cbs g0 a) \<subseteq> marked L g2" if "a \<in> insert v (black L gc)" for a
    using that bk m2(2) by blast
  have reach: "marked L g2 \<subseteq> reach_in cbs g0 L R" using R(2) m2(2) reach_kid [OF vr] by auto
  obtain k where k: "heap g2 v = Some k" using marking_alloc [OF m2(1)] vL by blast
  define g3 where "g3 = (if w then g2\<lparr>heap := (heap g2)(v \<mapsto> k\<lparr>gray_next := weak_refs g2\<rparr>), weak_refs := Some v\<rparr> else g2)"
  have m3: "marking L S g3 gs2 (if w then v # ws else ws) \<and> marked L g3 = marked L g2 \<and> black L g3 = black L g2"
    using marking_push_weak [OF m2(1) _ v(3) k] m2 by (simp add: g3_def)
  have "same_objs g2 g3" using same_objs_upd(2) [OF k, of "k\<lparr>gray_next := weak_refs g2\<rparr>" "Some v"]
    by (simp add: g3_def obj_core_def)
  then have so3: "same_objs g0 g3" by (rule same_objs_trans [OF so2])
  have ws3: "set (if w then v # ws else ws) = insert v (black L gc) \<inter> weak_tables g0"
    using ws w by (auto simp: weak_tables_def)
  have inv3: "propagating cbs L S R g0 g3 gs2 (if w then v # ws else ws)"
    unfolding propagating_def using m3 so3 closed R reach ws3 m2 by auto
  have "fklVMgcPropagate cbs gc = Some (g3, gray_list g3 = None)"
    using gl n mg g2(1) w2 k by (simp add: fklVMgcPropagate_def g1_def g3_def)
  moreover have "gray_list g3 = None \<longleftrightarrow> gs2 = []" using m3 by (cases gs2) (auto simp: marking_def)
  ultimately show ?thesis using inv3 m3 m2(3) v(2) vL by auto
qed

lemma wp_Propagate_empty:
  "marking L S gc [] ws \<Longrightarrow> fklVMgcPropagate cbs gc = Some (gc, True)"
  by (simp add: marking_def fklVMgcPropagate_def)

lemma wp_propagate_all:
  assumes c: "closed_objs cbs L S g0" and fin: "finite L" and inv: "propagating cbs L S R g0 gc gs ws"
  shows "wp (propagate_all cbs gc) (\<lambda>gc'. \<exists>ws'. propagating cbs L S R g0 gc' [] ws')"
  using inv
proof (induction "card (L - black L gc)" arbitrary: gc gs ws rule: less_induct)
  case less
  show ?case
  proof (cases gs)
    case Nil
    then have "fklVMgcPropagate cbs gc = Some (gc, True)" using less.prems wp_Propagate_empty by (auto simp: propagating_def)
    then show ?thesis using Nil less.prems by (auto simp: propagate_all.simps [of cbs gc])
  next
    case (Cons v gs')
    have "wp (fklVMgcPropagate cbs gc) (\<lambda>(gc', fin). \<exists>gs' ws'. propagating cbs L S R g0 gc' gs' ws'
      \<and> (fin \<longleftrightarrow> gs' = []) \<and> black L gc' = insert v (black L gc) \<and> v \<in> L - black L gc)"
      by (rule wp_Propagate [OF c less.prems [unfolded Cons]])
    then obtain gc1 f gs1 ws1 where s: "fklVMgcPropagate cbs gc = Some (gc1, f)" "propagating cbs L S R g0 gc1 gs1 ws1"
      "f \<longleftrightarrow> gs1 = []" "black L gc1 = insert v (black L gc)" "v \<in> L - black L gc" by (auto elim!: wpE)
    have "L - black L gc1 \<subset> L - black L gc" using s(4,5) by blast
    then have "card (L - black L gc1) < card (L - black L gc)" using fin by (intro psubset_card_mono) auto
    then have "wp (propagate_all cbs gc1) (\<lambda>gc'. \<exists>ws'. propagating cbs L S R g0 gc' [] ws')" by (rule less.hyps [OF _ s(2)])
    then show ?thesis using s by (auto simp: propagate_all.simps [of cbs gc])
  qed
qed

text \<open>With an empty gray list the marked objects are the reachable ones.\<close>

lemma propagated_reach: "propagating cbs L S R g0 gc [] ws \<Longrightarrow> marked L gc = reach_in cbs g0 L R \<and> black L gc = marked L gc"
proof -
  assume p: "propagating cbs L S R g0 gc [] ws"
  then have e: "black L gc = marked L gc" by (auto simp: propagating_def marking_def black_def marked_def)
  have "a \<in> marked L gc" if "a \<in> reach_in cbs g0 L R" for a
    using that
  proof induction
    case (reach_root a)
    then show ?case using p by (auto simp: propagating_def)
  next
    case (reach_kid a b)
    then show ?case using p e by (auto simp: propagating_def)
  qed
  then show ?thesis using p e by (auto simp: propagating_def)
qed

end
