(* ===== verification/GcRoots.thy ===== *)
theory GcRoots
  imports GcMark
begin

text \<open>
  The root phase: taking the closed variable references out of the lists of the frames, which relinks
  pairs, and marking what the machines and the collector itself hold.
\<close>

section \<open>Relinked pairs\<close>

text \<open>\<open>q\<close> is \<open>p\<close> or follows it in a list.\<close>

inductive cdr_reach :: "'d gcst \<Rightarrow> vmptr \<Rightarrow> vmptr \<Rightarrow> bool" for gc where
  cdr_here: "cdr_reach gc p p"
| cdr_step: "heap gc a = Some n \<Longrightarrow> body n = VmPair x d \<Longrightarrow> cdr_reach gc d q \<Longrightarrow> cdr_reach gc (PObj a) q"

lemma cdr_reach_trans: "cdr_reach gc p q \<Longrightarrow> cdr_reach gc q r \<Longrightarrow> cdr_reach gc p r"
  by (induction rule: cdr_reach.induct) (auto intro: cdr_reach.intros)

text \<open>\<open>gc'\<close> is \<open>gc\<close> with other marks, and with pairs in \<open>X\<close> that skip elements of their lists.\<close>

definition relinked :: "nat set \<Rightarrow> 'd gcst \<Rightarrow> nat \<Rightarrow> 'd body \<Rightarrow> 'd body \<Rightarrow> bool" where
  "relinked X gc a b b' \<longleftrightarrow> b' = b \<or> a \<in> X \<and> (\<exists>x d d'. b = VmPair x d \<and> b' = VmPair x d' \<and> cdr_reach gc d d')"

definition evolves :: "nat set \<Rightarrow> 'd gcst \<Rightarrow> 'd gcst \<Rightarrow> bool" where
  "evolves X gc gc' \<longleftrightarrow> gc' = gc\<lparr>heap := heap gc', gray_list := gray_list gc', weak_refs := weak_refs gc'\<rparr>
     \<and> (\<forall>a. case heap gc a of None \<Rightarrow> heap gc' a = None
         | Some n \<Rightarrow> (\<exists>n'. heap gc' a = Some n' \<and> next_of n' = next_of n \<and> zsize n' = zsize n \<and> relinked X gc a (body n) (body n')))"

lemma evolves_D: "evolves X gc gc' \<Longrightarrow> heap gc a = Some n \<Longrightarrow> \<exists>n'. heap gc' a = Some n' \<and> next_of n' = next_of n
    \<and> zsize n' = zsize n \<and> relinked X gc a (body n) (body n')"
  unfolding evolves_def by (auto dest: spec [of _ a])

lemma evolves_None: "evolves X gc gc' \<Longrightarrow> heap gc a = None \<Longrightarrow> heap gc' a = None"
  unfolding evolves_def by (auto dest: spec [of _ a])

lemma evolves_D': "evolves X gc gc' \<Longrightarrow> heap gc' a = Some n' \<Longrightarrow> \<exists>n. heap gc a = Some n \<and> next_of n' = next_of n
    \<and> zsize n' = zsize n \<and> relinked X gc a (body n) (body n')"
  using evolves_D [of X gc gc' a] evolves_None [of X gc gc' a] by (cases "heap gc a") auto

lemma same_objs_evolves: "same_objs gc gc' \<Longrightarrow> evolves X gc gc'"
  unfolding evolves_def
proof (intro conjI allI)
  assume s: "same_objs gc gc'"
  then show "gc' = gc\<lparr>heap := heap gc', gray_list := gray_list gc', weak_refs := weak_refs gc'\<rparr>" unfolding same_objs_def by (rule conjunct2)
  fix a
  have "map_option obj_core (heap gc' a) = map_option obj_core (heap gc a)" using s by (simp add: same_objs_def)
  then show "case heap gc a of None \<Rightarrow> heap gc' a = None
         | Some n \<Rightarrow> (\<exists>n'. heap gc' a = Some n' \<and> next_of n' = next_of n \<and> zsize n' = zsize n \<and> relinked X gc a (body n) (body n'))"
    by (cases "heap gc a") (auto simp: obj_core_def relinked_def)
qed

lemma cdr_reach_evolves: "cdr_reach gc' p q \<Longrightarrow> evolves X gc gc' \<Longrightarrow> cdr_reach gc p q"
proof (induction rule: cdr_reach.induct)
  case (cdr_step a n' x d q)
  then obtain n where n: "heap gc a = Some n" "relinked X gc a (body n) (VmPair x d)" using evolves_D' by metis
  then have "\<exists>d0. body n = VmPair x d0 \<and> cdr_reach gc d0 d"
    unfolding relinked_def by (metis body.inject(7) cdr_here)
  then obtain d0 where "body n = VmPair x d0" "cdr_reach gc d0 d" by blast
  with cdr_step n show ?case by (meson cdr_reach.cdr_step cdr_reach_trans)
qed (rule cdr_here)

lemma relinked_trans:
  assumes r: "relinked X gc a b b1" "relinked Y gc1 a b1 b2" and c: "\<And>p q. cdr_reach gc1 p q \<Longrightarrow> cdr_reach gc p q"
  shows "relinked (X \<union> Y) gc a b b2"
proof (cases "b2 = b1")
  case True
  then show ?thesis using r(1) by (auto simp: relinked_def)
next
  case False
  then obtain x d1 d2 where b: "b1 = VmPair x d1" "b2 = VmPair x d2" "cdr_reach gc d1 d2" "a \<in> Y"
    using r(2) c unfolding relinked_def by blast
  then have "\<exists>d. b = VmPair x d \<and> cdr_reach gc d d1" using r(1) unfolding relinked_def by (metis body.inject(7) cdr_here)
  then show ?thesis using b unfolding relinked_def by (blast intro: cdr_reach_trans)
qed

lemma evolves_refl [simp]: "evolves X gc gc"
  by (rule same_objs_evolves) simp

lemma evolves_trans:
  assumes "evolves X gc gc1" "evolves Y gc1 gc2"
  shows "evolves (X \<union> Y) gc gc2"
  unfolding evolves_def
proof (intro conjI allI)
  show "gc2 = gc\<lparr>heap := heap gc2, gray_list := gray_list gc2, weak_refs := weak_refs gc2\<rparr>"
    using assms unfolding evolves_def by (cases gc; cases gc1; cases gc2) simp
  fix a
  show "case heap gc a of None \<Rightarrow> heap gc2 a = None
         | Some n \<Rightarrow> (\<exists>n'. heap gc2 a = Some n' \<and> next_of n' = next_of n \<and> zsize n' = zsize n \<and> relinked (X \<union> Y) gc a (body n) (body n'))"
  proof (cases "heap gc a")
    case None
    then show ?thesis using evolves_None [OF assms(1)] evolves_None [OF assms(2)] by simp
  next
    case (Some n)
    obtain n1 where n1: "heap gc1 a = Some n1" "next_of n1 = next_of n" "zsize n1 = zsize n" "relinked X gc a (body n) (body n1)"
      using evolves_D [OF assms(1) Some] by blast
    obtain n2 where n2: "heap gc2 a = Some n2" "next_of n2 = next_of n1" "zsize n2 = zsize n1" "relinked Y gc1 a (body n1) (body n2)"
      using evolves_D [OF assms(2) n1(1)] by blast
    have "relinked (X \<union> Y) gc a (body n) (body n2)"
      using n1(4) n2(4) cdr_reach_evolves [OF _ assms(1)] by (rule relinked_trans)
    then show ?thesis using Some n1 n2 by simp
  qed
qed

lemma evolves_mono: "evolves X gc gc' \<Longrightarrow> X \<subseteq> Y \<Longrightarrow> evolves Y gc gc'"
proof -
  assume e: "evolves X gc gc'" and s: "X \<subseteq> Y"
  have r: "relinked X gc a b b' \<Longrightarrow> relinked Y gc a b b'" for a b b' using s unfolding relinked_def by blast
  show ?thesis unfolding evolves_def
  proof (intro conjI allI)
    show "gc' = gc\<lparr>heap := heap gc', gray_list := gray_list gc', weak_refs := weak_refs gc'\<rparr>" using e unfolding evolves_def by (rule conjunct1)
    fix a
    show "case heap gc a of None \<Rightarrow> heap gc' a = None
         | Some n \<Rightarrow> (\<exists>n'. heap gc' a = Some n' \<and> next_of n' = next_of n \<and> zsize n' = zsize n \<and> relinked Y gc a (body n) (body n'))"
      using evolves_None [OF e] evolves_D [OF e] r by (cases "heap gc a") (simp, fastforce)
  qed
qed

lemma evolves_fields:
  assumes "evolves X gc gc'"
  shows "gcvm gc' = gcvm gc" "vms gc' = vms gc" "gc_head gc' = gc_head gc" "builtin_refs gc' = builtin_refs gc"
    "extra_marks gc' = extra_marks gc" "gc_int_list gc' = gc_int_list gc" "obarray gc' = obarray gc" "gc_keywords gc' = gc_keywords gc"
    "builtinErrorTypeId gc' = builtinErrorTypeId gc" "gc_seeks gc' = gc_seeks gc" "gc_syms gc' = gc_syms gc"
    "gc_words gc' = gc_words gc" "path_vec gc' = path_vec gc"
  using assms by (auto simp: evolves_def intro: gcst.select_convs elim: ssubst)

section \<open>What relinking leaves unchanged\<close>

text \<open>Bodies that are not pairs, hence types, references and weak tables.\<close>

lemma evolves_body: "evolves X gc gc' \<Longrightarrow> heap gc a = Some n \<Longrightarrow> \<not> (\<exists>x d. body n = VmPair x d) \<Longrightarrow> \<exists>n'. heap gc' a = Some n' \<and> body n' = body n"
  using evolves_D [of X gc gc' a n] by (auto simp: relinked_def)

lemma evolves_other: "evolves X gc gc' \<Longrightarrow> heap gc a = Some n \<Longrightarrow> a \<notin> X \<Longrightarrow> \<exists>n'. heap gc' a = Some n' \<and> body n' = body n"
  using evolves_D [of X gc gc' a n] by (auto simp: relinked_def)

lemma meta_of_Some: "meta_of gc tp = Some mt \<longleftrightarrow> (\<exists>n a dll. heap gc tp = Some n \<and> body n = VmUd a (UdType dll mt))"
proof (cases "heap gc tp")
  case (Some n)
  show ?thesis
  proof (cases "body n")
    case (VmUd a u)
    then show ?thesis using Some by (cases u) (auto simp: meta_of_def)
  qed (use Some in \<open>auto simp: meta_of_def\<close>)
qed (simp add: meta_of_def)

lemma is_closed_Some: "is_closed_var_ref gc x = Some c
  \<longleftrightarrow> (\<exists>a n r. x = PObj a \<and> heap gc a = Some n \<and> body n = VmVarRef r \<and> c = (case r of Closed _ \<Rightarrow> True | Open _ _ \<Rightarrow> False))"
proof (cases x)
  case (PObj a)
  show ?thesis
  proof (cases "heap gc a")
    case (Some n)
    then show ?thesis using PObj by (cases "body n") (auto simp: is_closed_var_ref_def)
  qed (simp add: PObj is_closed_var_ref_def)
qed (simp_all add: is_closed_var_ref_def)

lemma meta_of_evolves: "evolves X gc gc' \<Longrightarrow> meta_of gc tp = Some mt \<Longrightarrow> meta_of gc' tp = Some mt"
proof -
  assume e: "evolves X gc gc'" and "meta_of gc tp = Some mt"
  then obtain n a dll where n: "heap gc tp = Some n" "body n = VmUd a (UdType dll mt)"
    by (auto simp: meta_of_Some)
  then obtain n' where "heap gc' tp = Some n'" "body n' = body n" using evolves_body [OF e] by force
  then show ?thesis using n by (simp add: meta_of_def)
qed

lemma ref_value_evolves: "evolves X gc gc' \<Longrightarrow> ref_value gc' r = ref_value gc r"
  using evolves_fields(1,2) [of X gc gc'] by (simp add: ref_value_def split: refcell.split)

lemma obj_typed_evolves: "evolves X gc gc' \<Longrightarrow> obj_typed gc a \<Longrightarrow> obj_typed gc' a"
proof -
  assume e: "evolves X gc gc'" and t: "obj_typed gc a"
  then obtain n where n: "heap gc a = Some n" by (auto simp: obj_typed_def)
  show "obj_typed gc' a"
  proof (cases "\<exists>x d. body n = VmPair x d")
    case True
    then obtain n' x d where "heap gc' a = Some n'" "body n' = VmPair x d" using evolves_D [OF e n] by (auto simp: relinked_def)
    then show ?thesis by (simp add: obj_typed_def)
  next
    case False
    then obtain n' where "heap gc' a = Some n'" "body n' = body n" using evolves_body [OF e n] by blast
    then show ?thesis using t n meta_of_evolves [OF e] ref_value_evolves [OF e]
      by (cases "body n") (auto simp: obj_typed_def)
  qed
qed

text \<open>The pointers an object holds afterwards follow pointers it held before.\<close>

lemma kids_evolves:
  assumes e: "evolves X gc gc'" and t: "obj_typed gc a" and q: "q \<in> set (kids cbs gc' a)"
  shows "\<exists>p \<in> set (kids cbs gc a). cdr_reach gc p q"
proof -
  obtain n where n: "heap gc a = Some n" using t by (auto simp: obj_typed_def)
  show ?thesis
  proof (cases "\<exists>x d. body n = VmPair x d")
    case True
    then obtain x d where b: "body n = VmPair x d" by blast
    then obtain n' d' where "heap gc' a = Some n'" "body n' = VmPair x d'" "cdr_reach gc d d'"
      using evolves_D [OF e n] by (auto simp: relinked_def intro: cdr_here)
    then show ?thesis using q n b by (auto simp: kids_def intro: cdr_here)
  next
    case False
    then obtain n' where n': "heap gc' a = Some n'" "body n' = body n" using evolves_body [OF e n] by blast
    have "kids cbs gc' a = kids cbs gc a"
    proof (cases "body n")
      case (VmUd tp u)
      then obtain mt where "meta_of gc tp = Some mt" using t n by (auto simp: obj_typed_def)
      then show ?thesis using n n' VmUd meta_of_evolves [OF e] by (simp add: kids_def)
    qed (use n n' ref_value_evolves [OF e] in \<open>auto simp: kids_def\<close>)
    then show ?thesis using q by (auto intro: cdr_here)
  qed
qed

section \<open>The lists of the frames\<close>

fun plist :: "'d gcst \<Rightarrow> vmptr \<Rightarrow> nat list \<Rightarrow> bool" where
  "plist gc p [] \<longleftrightarrow> as_pair gc p = Some None"
| "plist gc p (a # as) \<longleftrightarrow> p = PObj a \<and> (\<exists>n x d. heap gc a = Some n \<and> body n = VmPair x d \<and> is_closed_var_ref gc x \<noteq> None \<and> plist gc d as)"

lemma as_pair_evolves: "evolves X gc gc' \<Longrightarrow> as_pair gc p = Some None \<Longrightarrow> as_pair gc' p = Some None"
proof -
  assume e: "evolves X gc gc'" and p: "as_pair gc p = Some None"
  show ?thesis
  proof (cases p)
    case (PObj a)
    then obtain n where n1: "heap gc a = Some n" using p by (cases "heap gc a") (auto simp: as_pair_def)
    then have n: "heap gc a = Some n" "\<not> (\<exists>x d. body n = VmPair x d)"
      using p PObj by (cases "body n"; auto simp: as_pair_def)+
    then obtain n' where "heap gc' a = Some n'" "body n' = body n" using evolves_body [OF e] by blast
    then show ?thesis using PObj p n by (simp add: as_pair_def)
  qed (use p in \<open>simp_all add: as_pair_def\<close>)
qed

lemma is_closed_evolves: "evolves X gc gc' \<Longrightarrow> is_closed_var_ref gc x = Some c \<Longrightarrow> is_closed_var_ref gc' x = Some c"
proof -
  assume e: "evolves X gc gc'" and c: "is_closed_var_ref gc x = Some c"
  then obtain a n r where n: "x = PObj a" "heap gc a = Some n" "body n = VmVarRef r"
    by (auto simp: is_closed_Some)
  then obtain n' where "heap gc' a = Some n'" "body n' = body n" using evolves_body [OF e, of a n] by auto
  then show ?thesis using c n by (simp add: is_closed_var_ref_def)
qed

lemma plist_evolves: "evolves X gc gc' \<Longrightarrow> set as \<inter> X = {} \<Longrightarrow> plist gc p as \<Longrightarrow> plist gc' p as"
proof (induction as arbitrary: p)
  case Nil
  then show ?case by (simp add: as_pair_evolves)
next
  case (Cons a as)
  then obtain n x d where n: "p = PObj a" "heap gc a = Some n" "body n = VmPair x d" "is_closed_var_ref gc x \<noteq> None" "plist gc d as" by auto
  obtain n' where "heap gc' a = Some n'" "body n' = body n" using evolves_other [OF Cons.prems(1) n(2)] Cons.prems(2) by auto
  moreover have "plist gc' d as" using Cons n(5) by simp
  moreover obtain c where "is_closed_var_ref gc' x = Some c" using is_closed_evolves [OF Cons.prems(1)] n(4) by blast
  ultimately show ?case using n(1,3) by auto
qed


lemma evolves_pair:
  assumes n: "heap gc a = Some n" "body n = VmPair x d" and c: "cdr_reach gc d d'"
  shows "evolves {a} gc (gc\<lparr>heap := (heap gc)(a \<mapsto> n\<lparr>body := VmPair x d'\<rparr>)\<rparr>)"
  unfolding evolves_def
proof (intro conjI allI)
  fix b
  show "case heap gc b of None \<Rightarrow> heap (gc\<lparr>heap := (heap gc)(a \<mapsto> n\<lparr>body := VmPair x d'\<rparr>)\<rparr>) b = None
         | Some m \<Rightarrow> (\<exists>m'. heap (gc\<lparr>heap := (heap gc)(a \<mapsto> n\<lparr>body := VmPair x d'\<rparr>)\<rparr>) b = Some m' \<and> next_of m' = next_of m
           \<and> zsize m' = zsize m \<and> relinked {a} gc b (body m) (body m'))"
    using n c by (cases "heap gc b") (auto simp: relinked_def)
qed (cases gc, simp)

definition lcell_set :: "lcell \<Rightarrow> nat set" where
  "lcell_set ll = (case ll of FrameLrefl \<Rightarrow> {} | CdrOf a \<Rightarrow> {a})"

lemma read_lcell_evolves:
  "evolves X gc gc' \<Longrightarrow> lcell_set ll \<inter> X = {} \<Longrightarrow> read_lcell gc fl ll = Some p \<Longrightarrow> read_lcell gc' fl ll = Some p"
proof (cases ll)
  case (CdrOf a)
  assume e: "evolves X gc gc'" and x: "lcell_set ll \<inter> X = {}" and r: "read_lcell gc fl ll = Some p"
  then obtain n where n: "heap gc a = Some n" using CdrOf by (cases "heap gc a") (auto simp: read_lcell_def)
  have "a \<notin> X" using x CdrOf by (simp add: lcell_set_def)
  then obtain n' where "heap gc' a = Some n'" "body n' = body n" using evolves_other [OF e n] by blast
  then show ?thesis using r n CdrOf by (simp add: read_lcell_def)
qed (simp add: read_lcell_def)

text \<open>The loop over one list: it ends, and what is left is a list of the frame again.\<close>

definition removed :: "'d gcst \<Rightarrow> nat set \<Rightarrow> lcell \<Rightarrow> vmptr \<Rightarrow> vmptr \<Rightarrow> nat set \<Rightarrow> 'd gcst \<times> vmptr \<Rightarrow> bool" where
  "removed gc X ll fl p as r \<longleftrightarrow> (case r of (gc', fl') \<Rightarrow> evolves X gc gc'
     \<and> gc' = gc\<lparr>heap := heap gc'\<rparr> \<and> (ll \<noteq> FrameLrefl \<longrightarrow> fl' = fl)
     \<and> (\<forall>a n n'. heap gc a = Some n \<longrightarrow> heap gc' a = Some n' \<longrightarrow> mark_of n' = mark_of n \<and> gray_next n' = gray_next n)
     \<and> (\<exists>p' ys. read_lcell gc' fl' ll = Some p' \<and> plist gc' p' ys \<and> distinct ys \<and> set ys \<subseteq> as \<and> cdr_reach gc p p'))"

lemma wp_remove_list:
  assumes "read_lcell gc fl ll = Some p" "plist gc p as" "distinct as" "lcell_set ll \<inter> set as = {}"
  shows "wp (remove_closed_var_ref_from_list gc fl ll) (removed gc (lcell_set ll \<union> set as) ll fl p (set as))"
  using assms
proof (induction as arbitrary: gc fl ll p)
  case Nil
  then have "remove_closed_var_ref_from_list gc fl ll = Some (gc, fl)" by (simp add: remove_closed_var_ref_from_list.simps [of gc fl ll])
  moreover have "plist gc p []" using Nil by simp
  ultimately show ?case using Nil by (auto simp: removed_def cdr_here intro!: exI [of _ p] exI [of _ "[]"])
next
  case (Cons a as)
  then obtain n x d c where n: "p = PObj a" "heap gc a = Some n" "body n = VmPair x d" "is_closed_var_ref gc x = Some c" "plist gc d as" by auto
  have ap: "as_pair gc p = Some (Some (a, x, d))" using n by (simp add: as_pair_def)
  have dist: "distinct as" "a \<notin> set as" "lcell_set ll \<inter> set as = {}" "a \<notin> lcell_set ll" using Cons.prems by auto
  have pd: "cdr_reach gc p d" unfolding n(1) by (rule cdr_step [OF n(2,3) cdr_here])
  show ?case
  proof (cases c)
    case False
    have step: "remove_closed_var_ref_from_list gc fl ll = remove_closed_var_ref_from_list gc fl (CdrOf a)"
      using Cons.prems(1) ap n(4) False by (simp add: remove_closed_var_ref_from_list.simps [of gc fl ll])
    have rd: "read_lcell gc fl (CdrOf a) = Some d" using n by (simp add: read_lcell_def)
    have ca: "lcell_set (CdrOf a) = {a}" by (simp add: lcell_set_def)
    have "wp (remove_closed_var_ref_from_list gc fl (CdrOf a)) (removed gc (lcell_set (CdrOf a) \<union> set as) (CdrOf a) fl d (set as))"
      by (rule Cons.IH [OF rd n(5) dist(1)]) (use dist ca in simp)
    then show ?thesis unfolding step
    proof (rule wp_mono)
      fix r assume r: "removed gc (lcell_set (CdrOf a) \<union> set as) (CdrOf a) fl d (set as) r"
      obtain gc' fl' where rr: "r = (gc', fl')" by (cases r)
      note D = r [unfolded rr removed_def prod.case]
      have e0: "evolves (lcell_set (CdrOf a) \<union> set as) gc gc'" and fl': "fl' = fl" and h: "gc' = gc\<lparr>heap := heap gc'\<rparr>"
        and mk: "\<forall>a n n'. heap gc a = Some n \<longrightarrow> heap gc' a = Some n' \<longrightarrow> mark_of n' = mark_of n \<and> gray_next n' = gray_next n"
        using D by blast+
      have e: "evolves (insert a (set as)) gc gc'" using e0 ca by simp
      obtain p' ys where y: "read_lcell gc' fl (CdrOf a) = Some p'" "plist gc' p' ys" "distinct ys" "set ys \<subseteq> set as"
        using D fl' by blast
      have rl: "read_lcell gc' fl ll = Some p"
        by (rule read_lcell_evolves [OF e _ Cons.prems(1)]) (use dist in auto)
      obtain n' d' where n': "heap gc' a = Some n'" "body n' = VmPair x d'"
        using evolves_D [OF e n(2)] n(3) by (auto simp: relinked_def)
      then have "d' = p'" using y(1) by (simp add: read_lcell_def)
      then have "plist gc' p (a # ys)" using n(1) n' y(2) is_closed_evolves [OF e n(4)] by simp
      moreover have "distinct (a # ys)" "set (a # ys) \<subseteq> set (a # as)" using y dist by auto
      moreover have "evolves (lcell_set ll \<union> set (a # as)) gc gc'" by (rule evolves_mono [OF e]) auto
      ultimately show "removed gc (lcell_set ll \<union> set (a # as)) ll fl p (set (a # as)) r"
        unfolding removed_def rr prod.case using rl h fl' mk cdr_here by blast
    qed
  next
    case True
    show ?thesis
    proof (cases ll)
      case FrameLrefl
      then have pf: "fl = p" using Cons.prems(1) by (simp add: read_lcell_def)
      have step: "remove_closed_var_ref_from_list gc fl ll = remove_closed_var_ref_from_list gc d FrameLrefl"
        using Cons.prems(1) ap n(4) True FrameLrefl
        by (simp add: remove_closed_var_ref_from_list.simps [of gc fl FrameLrefl] write_lcell_def)
      have ca: "lcell_set FrameLrefl = {}" by (simp add: lcell_set_def)
      have "wp (remove_closed_var_ref_from_list gc d FrameLrefl) (removed gc (lcell_set FrameLrefl \<union> set as) FrameLrefl d d (set as))"
        by (rule Cons.IH [OF _ n(5) dist(1)]) (simp_all add: read_lcell_def ca)
      then show ?thesis unfolding step
      proof (rule wp_mono)
        fix r assume r: "removed gc (lcell_set FrameLrefl \<union> set as) FrameLrefl d d (set as) r"
        obtain gc' fl' where rr: "r = (gc', fl')" by (cases r)
        note D = r [unfolded rr removed_def prod.case]
        have e0: "evolves (lcell_set FrameLrefl \<union> set as) gc gc'" and h: "gc' = gc\<lparr>heap := heap gc'\<rparr>"
          and mk: "\<forall>a n n'. heap gc a = Some n \<longrightarrow> heap gc' a = Some n' \<longrightarrow> mark_of n' = mark_of n \<and> gray_next n' = gray_next n"
          using D by blast+
        have e: "evolves (lcell_set ll \<union> set (a # as)) gc gc'" by (rule evolves_mono [OF e0]) (use ca in auto)
        obtain p' ys where y: "read_lcell gc' fl' FrameLrefl = Some p'" "plist gc' p' ys" "distinct ys" "set ys \<subseteq> set as" "cdr_reach gc d p'"
          using D by blast
        have "cdr_reach gc p p'" using pd y(5) by (rule cdr_reach_trans)
        moreover have "set ys \<subseteq> set (a # as)" using y(4) by auto
        ultimately show "removed gc (lcell_set ll \<union> set (a # as)) ll fl p (set (a # as)) r"
          unfolding removed_def rr prod.case using e h mk y(1-3) FrameLrefl by blast
      qed
    next
      case (CdrOf b)
      then obtain m y where m: "heap gc b = Some m" "body m = VmPair y p"
      proof -
        obtain m where m: "heap gc b = Some m" using Cons.prems(1) CdrOf by (cases "heap gc b") (auto simp: read_lcell_def)
        then show thesis using Cons.prems(1) CdrOf that by (cases "body m") (auto simp: read_lcell_def)
      qed
      define g1 where "g1 = gc\<lparr>heap := (heap gc)(b \<mapsto> m\<lparr>body := VmPair y d\<rparr>)\<rparr>"
      have ca: "lcell_set ll = {b}" using CdrOf by (simp add: lcell_set_def)
      have e1: "evolves {b} gc g1" unfolding g1_def by (rule evolves_pair [OF m pd])
      have step: "remove_closed_var_ref_from_list gc fl ll = remove_closed_var_ref_from_list g1 fl ll"
        using Cons.prems(1) ap n(4) True CdrOf m
        by (simp add: remove_closed_var_ref_from_list.simps [of gc fl "CdrOf b"] write_lcell_def g1_def)
      have pl: "plist g1 d as" by (rule plist_evolves [OF e1 _ n(5)]) (use dist ca in auto)
      have "wp (remove_closed_var_ref_from_list g1 fl ll) (removed g1 (lcell_set ll \<union> set as) ll fl d (set as))"
        by (rule Cons.IH [OF _ pl dist(1,3)]) (simp add: CdrOf read_lcell_def g1_def)
      then show ?thesis unfolding step
      proof (rule wp_mono)
        fix r assume r: "removed g1 (lcell_set ll \<union> set as) ll fl d (set as) r"
        obtain gc' fl' where rr: "r = (gc', fl')" by (cases r)
        note D = r [unfolded rr removed_def prod.case]
        have "ll \<noteq> FrameLrefl" using CdrOf by simp
        then have fl': "fl' = fl" and h: "gc' = g1\<lparr>heap := heap gc'\<rparr>" and e2: "evolves (lcell_set ll \<union> set as) g1 gc'"
          and mk: "\<forall>a n n'. heap g1 a = Some n \<longrightarrow> heap gc' a = Some n' \<longrightarrow> mark_of n' = mark_of n \<and> gray_next n' = gray_next n"
          using D by blast+
        have e: "evolves (lcell_set ll \<union> set (a # as)) gc gc'"
          by (rule evolves_mono [OF evolves_trans [OF e1 e2]]) (use ca in auto)
        have h': "gc' = gc\<lparr>heap := heap gc'\<rparr>" by (subst h) (simp add: g1_def)
        have mk': "\<forall>c k k'. heap gc c = Some k \<longrightarrow> heap gc' c = Some k' \<longrightarrow> mark_of k' = mark_of k \<and> gray_next k' = gray_next k"
        proof (intro allI impI)
          fix c k k' assume k: "heap gc c = Some k" "heap gc' c = Some k'"
          then have "\<exists>j. heap g1 c = Some j \<and> mark_of j = mark_of k \<and> gray_next j = gray_next k"
            using m(1) unfolding g1_def by (cases "c = b") auto
          then obtain j where j: "heap g1 c = Some j" "mark_of j = mark_of k" "gray_next j = gray_next k" by blast
          have "mark_of k' = mark_of j \<and> gray_next k' = gray_next j" using mk j(1) k(2) by blast
          then show "mark_of k' = mark_of k \<and> gray_next k' = gray_next k" using j(2,3) by metis
        qed
        obtain p' ys where y: "read_lcell gc' fl' ll = Some p'" "plist gc' p' ys" "distinct ys" "set ys \<subseteq> set as" "cdr_reach g1 d p'"
          using D by blast
        have "cdr_reach gc p p'" using pd cdr_reach_evolves [OF y(5) e1] by (rule cdr_reach_trans)
        moreover have "set ys \<subseteq> set (a # as)" using y(4) by auto
        ultimately have "\<exists>p' ys. read_lcell gc' fl' ll = Some p' \<and> plist gc' p' ys \<and> distinct ys \<and> set ys \<subseteq> set (a # as) \<and> cdr_reach gc p p'"
          using y(1-3) by blast
        then show "removed gc (lcell_set ll \<union> set (a # as)) ll fl p (set (a # as)) r"
          unfolding removed_def rr prod.case by (intro conjI impI e h' mk' fl')
      qed
    qed
  qed
qed

end
