(* ===== verification/GcMachines.thy ===== *)
theory GcMachines
  imports GcRoots
begin

text \<open>
  Marking what the machines and the collector hold: after the root phase the marked objects are the
  targets of the roots, and the lists of the frames are lists again.
\<close>

section \<open>Closed heaps\<close>

text \<open>
  Every object of the collector (\<open>L\<close>) and every static one (\<open>S\<close>) is well-typed and points to such
  objects; static objects point to static ones.
\<close>

definition closed_heap :: "'d callbacks \<Rightarrow> nat set \<Rightarrow> nat set \<Rightarrow> 'd gcst \<Rightarrow> bool" where
  "closed_heap cbs L S gc \<longleftrightarrow> (\<forall>a \<in> L \<union> S. obj_typed gc a \<and> points_into (L \<union> S) (kids cbs gc a))
     \<and> (\<forall>a \<in> S. points_into S (kids cbs gc a))"

lemma closed_heapD: "closed_heap cbs L S gc \<Longrightarrow> closed_objs cbs L S gc"
  by (simp add: closed_heap_def closed_objs_def)

lemma cdr_reach_closed:
  "cdr_reach gc p q \<Longrightarrow> points_into X [p] \<Longrightarrow> (\<And>a. a \<in> X \<Longrightarrow> points_into X (kids cbs gc a)) \<Longrightarrow> points_into X [q]"
proof (induction rule: cdr_reach.induct)
  case (cdr_step a n x d q)
  have "a \<in> X" using cdr_step.prems(1) by simp
  then have "points_into X (kids cbs gc a)" by (rule cdr_step.prems(2))
  moreover have "kids cbs gc a = [x, d]" using cdr_step.hyps(1,2) by (simp add: kids_def)
  ultimately have "points_into X [d]" by simp
  then show ?case by (rule cdr_step.IH [OF _ cdr_step.prems(2)])
qed

lemma points_into_all: "points_into X ps \<longleftrightarrow> (\<forall>p \<in> set ps. points_into X [p])"
  unfolding points_into_def by (simp only: list.set Ball_def) blast

lemma closed_heap_evolves:
  assumes c: "closed_heap cbs L S gc" and e: "evolves X gc gc'"
  shows "closed_heap cbs L S gc'"
proof -
  have k: "points_into Y (kids cbs gc' a)"
    if "a \<in> L \<union> S" "points_into Y (kids cbs gc a)" "\<And>b. b \<in> Y \<Longrightarrow> points_into Y (kids cbs gc b)" for a Y
    unfolding points_into_all [of _ "kids cbs gc' a"]
  proof
    fix q assume "q \<in> set (kids cbs gc' a)"
    moreover have "obj_typed gc a" using c that(1) by (simp add: closed_heap_def)
    ultimately obtain p where p: "p \<in> set (kids cbs gc a)" "cdr_reach gc p q" using kids_evolves [OF e] by blast
    have "points_into Y [p]" using that(2) p(1) points_into_all by blast
    then show "points_into Y [q]" using cdr_reach_closed [OF p(2)] that(3) by blast
  qed
  show ?thesis unfolding closed_heap_def
  proof (intro conjI ballI)
    fix a assume a: "a \<in> L \<union> S"
    show "obj_typed gc' a" using c a obj_typed_evolves [OF e] by (simp add: closed_heap_def)
    show "points_into (L \<union> S) (kids cbs gc' a)" using k [OF a, of "L \<union> S"] c a by (simp add: closed_heap_def)
  next
    fix a assume a: "a \<in> S"
    then show "points_into S (kids cbs gc' a)" using k [of a S] c by (simp add: closed_heap_def)
  qed
qed

section \<open>What the roots are\<close>

definition handler_ptrs :: "'d callbacks \<Rightarrow> (nat option \<times> 'd) list \<Rightarrow> vmptr list" where
  "handler_ptrs cbs hs = concat (map (\<lambda>(m, d). case m of None \<Rightarrow> [] | Some c \<Rightarrow> cb_marks cbs c d) hs)"

definition frame_ptrs :: "'d callbacks \<Rightarrow> 'd frame \<Rightarrow> vmptr list" where
  "frame_ptrs cbs f = (case f of Compound lr ll pr \<Rightarrow> [lr] @ [ll] @ [pr]
     | OtherObj m d \<Rightarrow> (case m of None \<Rightarrow> [] | Some c \<Rightarrow> cb_marks cbs c d))"

function stack_ptrs :: "vmptr list \<Rightarrow> nat \<Rightarrow> vmptr list" where
  "stack_ptrs st i = (if i < length st then
     (case st ! i of PSkip j \<Rightarrow> if i < j then stack_ptrs st j else [] | p \<Rightarrow> p # stack_ptrs st (i + 1)) else [])"
  by pat_completeness auto
termination
  by (relation "measure (\<lambda>(st, i). length st - i)") auto

declare stack_ptrs.simps [simp del]

text \<open>The marks on a stack lead forward.\<close>

definition stack_ok :: "vmptr list \<Rightarrow> bool" where
  "stack_ok st \<longleftrightarrow> (\<forall>i < length st. \<forall>j. st ! i = PSkip j \<longrightarrow> i < j)"

definition machine_ptrs :: "'d callbacks \<Rightarrow> 'd vm \<Rightarrow> vmptr list" where
  "machine_ptrs cbs v = handler_ptrs cbs (atexits v) @ handler_ptrs cbs (int_list v) @ concat (map (frame_ptrs cbs) (frames v))
     @ [vm_error v] @ stack_ptrs (stack v) 0 @ [chan v]"

definition own_ptrs :: "'d callbacks \<Rightarrow> 'd gcst \<Rightarrow> vmptr list" where
  "own_ptrs cbs gc = builtin_refs gc @ (concat (map (\<lambda>(c, d). cb_marks cbs c d) (extra_marks gc)) @ [obarray gc] @ [gc_keywords gc]
     @ builtinErrorTypeId gc @ gc_seeks gc @ gc_syms gc @ gc_words gc @ [path_vec gc]) @ handler_ptrs cbs (gc_int_list gc)"

definition roots :: "'d callbacks \<Rightarrow> 'd gcst \<Rightarrow> vmptr list" where
  "roots cbs gc = own_ptrs cbs gc @ machine_ptrs cbs (gcvm gc) @ concat (map (machine_ptrs cbs) (vms gc))"

section \<open>Marking lists of roots\<close>

text \<open>Every one of the loops marks a list of pointers.\<close>

lemma ToGray_all: "fklVMgcToGray p gc = gray_all [p] gc"
  by (cases "fklVMgcToGray p gc") simp_all

lemma gray_all_Nil [simp]: "gray_all [] = Some"
  by (rule ext) simp

lemma gray_all_single [simp]: "gray_all [p] = fklVMgcToGray p"
  by (rule ext) simp

lemma gray_all_append: "gray_all (ps @ qs) gc = Option.bind (gray_all ps gc) (gray_all qs)"
proof (induction ps arbitrary: gc)
  case (Cons p ps)
  then show ?case by (cases "fklVMgcToGray p gc") simp_all
qed simp

lemma gray_all_same: "gray_all ps gc = Some g \<Longrightarrow> same_objs gc g"
proof (induction ps arbitrary: gc)
  case (Cons p ps)
  then obtain g1 where g1: "fklVMgcToGray p gc = Some g1" "gray_all ps g1 = Some g" by (auto simp: bind_eq_Some_conv)
  have "same_objs gc g1"
  proof (cases p)
    case (PObj a)
    then obtain n where n: "heap gc a = Some n" using g1(1) by (cases "heap gc a") (auto simp: fklVMgcToGray_def)
    then show ?thesis using g1(1) PObj same_objs_upd(1) [OF n, of "n\<lparr>mark_of := FKL_MARK_G, gray_next := gray_list gc\<rparr>" "Some a"]
      by (auto simp: fklVMgcToGray_def obj_core_def split: if_splits)
  qed (use g1(1) in \<open>simp_all add: fklVMgcToGray_def\<close>)
  then show ?case using Cons.IH [OF g1(2)] by (rule same_objs_trans)
qed simp

text \<open>A field of the collector that marking does not change, marked before the rest.\<close>

lemma gray_sel:
  assumes "\<And>g. same_objs g0 g \<Longrightarrow> sel g = sel g0" "\<And>g. same_objs g0 g \<Longrightarrow> k g = gray_all qs g" "same_objs g0 g"
  shows "Option.bind (gray_all (sel g) g) k = gray_all (sel g0 @ qs) g"
proof (cases "gray_all (sel g0) g")
  case (Some g1)
  then have "same_objs g0 g1" by (rule same_objs_trans [OF assms(3) gray_all_same])
  then have "k g1 = gray_all qs g1" by (rule assms(2))
  then show ?thesis unfolding assms(1) [OF assms(3)] using Some by (simp add: gray_all_append)
next
  case None
  then show ?thesis unfolding assms(1) [OF assms(3)] by (simp add: gray_all_append)
qed

lemma mark_handlers_eq: "mark_handlers cbs hs gc = gray_all (handler_ptrs cbs hs) gc"
proof (induction hs arbitrary: gc)
  case (Cons h hs)
  obtain m d where "h = (m, d)" by (cases h)
  moreover have "mark_handlers cbs hs = gray_all (handler_ptrs cbs hs)" using Cons by (intro ext)
  ultimately show ?case by (cases m) (simp_all add: handler_ptrs_def gray_all_append)
qed (simp add: handler_ptrs_def)

definition extra_ptrs :: "'d callbacks \<Rightarrow> (nat \<times> 'd) list \<Rightarrow> vmptr list" where
  "extra_ptrs cbs xs = concat (map (\<lambda>(c, d). cb_marks cbs c d) xs)"

lemma mark_extra_eq: "mark_extra cbs xs gc = gray_all (extra_ptrs cbs xs) gc"
proof (induction xs arbitrary: gc)
  case (Cons x xs)
  obtain c d where "x = (c, d)" by (cases x)
  moreover have "mark_extra cbs xs = gray_all (extra_ptrs cbs xs)" using Cons by (intro ext)
  ultimately show ?case by (simp add: extra_ptrs_def gray_all_append)
qed (simp add: extra_ptrs_def)

lemma do_atomic_frames_eq: "do_atomic_frames cbs fs gc = gray_all (concat (map (frame_ptrs cbs) fs)) gc"
proof (induction fs arbitrary: gc)
  case (Cons f fs)
  have "do_atomic_frame cbs f gc = gray_all (frame_ptrs cbs f) gc"
  proof (cases f)
    case (OtherObj m d)
    then show ?thesis by (cases m) (simp_all add: do_atomic_frame_def frame_ptrs_def)
  next
    case (Compound lr ll pr)
    then show ?thesis by (cases "fklVMgcToGray lr gc") (simp_all add: do_atomic_frame_def frame_ptrs_def)
  qed
  moreover have "do_atomic_frames cbs fs = gray_all (concat (map (frame_ptrs cbs) fs))" using Cons by (intro ext)
  ultimately show ?case by (simp add: gray_all_append)
qed simp

lemma mark_stack_eq:
  fixes gc :: "'d gcst"
  shows "stack_ok st \<Longrightarrow> mark_stack st i gc = gray_all (stack_ptrs st i) gc"
proof (induction "length st - i" arbitrary: i gc rule: less_induct)
  case less
  show ?case
  proof (cases "i < length st")
    case True
    show ?thesis
    proof (cases "\<exists>j. st ! i = PSkip j")
      case jex: True
      then obtain j where j: "st ! i = PSkip j" by blast
      have ij: "i < j" using less.prems True j by (simp add: stack_ok_def)
      have "mark_stack st j gc = gray_all (stack_ptrs st j) gc" by (rule less.hyps [OF _ less.prems]) (use ij True in simp)
      then show ?thesis using True j ij by (simp add: mark_stack.simps [of st i] stack_ptrs.simps [of st i])
    next
      case False
      have "mark_stack st (Suc i) g = gray_all (stack_ptrs st (Suc i)) g" for g :: "'d gcst"
        by (rule less.hyps [OF _ less.prems]) (use True in simp)
      then have "(mark_stack st (Suc i) :: 'd gcst \<Rightarrow> _) = gray_all (stack_ptrs st (Suc i))" by (intro ext)
      then show ?thesis using True False
        by (cases "st ! i") (simp_all add: mark_stack.simps [of st i] stack_ptrs.simps [of st i])
    qed
  qed (simp add: mark_stack.simps [of st i] stack_ptrs.simps [of st i])
qed

lemma gc_extra_mark_eq:
  "gc_extra_mark cbs gc = gray_all (extra_ptrs cbs (extra_marks gc) @ [obarray gc] @ [gc_keywords gc] @ builtinErrorTypeId gc
     @ gc_seeks gc @ gc_syms gc @ gc_words gc @ [path_vec gc]) gc"
proof -
  note f = same_objs_fields
  have k0: "same_objs gc g \<Longrightarrow> gray_all [path_vec g] g = gray_all [path_vec gc] g" for g by (simp only: f(13) [of gc g])
  note k1 = gray_sel [of gc gc_words, OF f(12) k0]
  note k2 = gray_sel [of gc gc_syms, OF f(11) k1]
  note k3 = gray_sel [of gc gc_seeks, OF f(10) k2]
  note k4 = gray_sel [of gc builtinErrorTypeId, OF f(9) k3]
  have "same_objs gc g \<Longrightarrow> [gc_keywords g] = [gc_keywords gc]" for g using f(8) [of gc g] by simp
  note k5 = gray_sel [of gc "\<lambda>g. [gc_keywords g]", OF this k4]
  have "same_objs gc g \<Longrightarrow> [obarray g] = [obarray gc]" for g using f(7) [of gc g] by simp
  note k6 = gray_sel [of gc "\<lambda>g. [obarray g]", OF this k5]
  have "same_objs gc g \<Longrightarrow> extra_ptrs cbs (extra_marks g) = extra_ptrs cbs (extra_marks gc)" for g using f(5) [of gc g] by simp
  note k7 = gray_sel [of gc "\<lambda>g. extra_ptrs cbs (extra_marks g)", OF this k6]
  show ?thesis unfolding gc_extra_mark_def ToGray_all mark_extra_eq by (rule k7) simp_all
qed

lemma own_eq:
  "do { gc \<leftarrow> gray_all (builtin_refs gc) gc; gc \<leftarrow> gc_extra_mark cbs gc; mark_handlers cbs (gc_int_list gc) gc }
    = gray_all (own_ptrs cbs gc) gc"
proof -
  note f = same_objs_fields
  have e: "same_objs gc g \<Longrightarrow> gc_extra_mark cbs g = gray_all (extra_ptrs cbs (extra_marks gc) @ [obarray gc] @ [gc_keywords gc]
      @ builtinErrorTypeId gc @ gc_seeks gc @ gc_syms gc @ gc_words gc @ [path_vec gc]) g" for g
    by (simp only: gc_extra_mark_eq f [of gc g])
  have h: "same_objs gc g \<Longrightarrow> mark_handlers cbs (gc_int_list g) g = gray_all (handler_ptrs cbs (gc_int_list gc)) g" for g
    by (simp only: mark_handlers_eq f [of gc g])
  note k1 = gray_sel [of gc "\<lambda>g. extra_ptrs cbs (extra_marks gc) @ [obarray gc] @ [gc_keywords gc]
      @ builtinErrorTypeId gc @ gc_seeks gc @ gc_syms gc @ gc_words gc @ [path_vec gc]", OF refl h]
  have "same_objs gc g \<Longrightarrow> do { gc \<leftarrow> gc_extra_mark cbs g; mark_handlers cbs (gc_int_list gc) gc }
    = gray_all ((extra_ptrs cbs (extra_marks gc) @ [obarray gc] @ [gc_keywords gc]
      @ builtinErrorTypeId gc @ gc_seeks gc @ gc_syms gc @ gc_words gc @ [path_vec gc]) @ handler_ptrs cbs (gc_int_list gc)) g" for g
    unfolding e using k1 by blast
  then have "do { gc \<leftarrow> gray_all (builtin_refs gc) gc; gc \<leftarrow> gc_extra_mark cbs gc; mark_handlers cbs (gc_int_list gc) gc }
    = gray_all (builtin_refs gc @ (extra_ptrs cbs (extra_marks gc) @ [obarray gc] @ [gc_keywords gc]
      @ builtinErrorTypeId gc @ gc_seeks gc @ gc_syms gc @ gc_words gc @ [path_vec gc]) @ handler_ptrs cbs (gc_int_list gc)) gc"
    by (intro gray_sel [of gc builtin_refs]) (simp_all add: f(4))
  then show ?thesis by (simp add: own_ptrs_def extra_ptrs_def)
qed


section \<open>The machines\<close>

text \<open>A phase that relinks the pairs in \<open>X\<close> and marks the pointers \<open>ps\<close>.\<close>

definition rooted :: "nat set \<Rightarrow> nat set \<Rightarrow> nat list \<Rightarrow> 'd gcst \<Rightarrow> nat set \<Rightarrow> vmptr list \<Rightarrow> 'd gcst \<Rightarrow> bool" where
  "rooted L S ws gc X ps gc' \<longleftrightarrow> (\<exists>gs. marking L S gc' gs ws) \<and> marked L gc' = marked L gc \<union> targets L ps
     \<and> black L gc' = black L gc \<and> evolves X gc gc'"

lemma grayed_rooted: "grayed L S gc ws ps gc' \<Longrightarrow> rooted L S ws gc {} ps gc'"
  by (simp add: grayed_def rooted_def same_objs_evolves)

lemma rooted_trans: "rooted L S ws gc X ps gc1 \<Longrightarrow> rooted L S ws gc1 Y qs gc2 \<Longrightarrow> rooted L S ws gc (X \<union> Y) (ps @ qs) gc2"
  by (auto simp: rooted_def intro: evolves_trans)

lemma rooted_evolves: "rooted L S ws gc X ps gc' \<Longrightarrow> evolves X gc gc'"
  by (simp add: rooted_def)

text \<open>Relinking leaves the marks.\<close>

definition same_marks :: "'d gcst \<Rightarrow> 'd gcst \<Rightarrow> bool" where
  "same_marks gc gc' \<longleftrightarrow> (\<forall>a. map_option (\<lambda>n. (mark_of n, gray_next n)) (heap gc' a) = map_option (\<lambda>n. (mark_of n, gray_next n)) (heap gc a))
     \<and> gray_list gc' = gray_list gc \<and> weak_refs gc' = weak_refs gc"

lemma same_marksD: "same_marks gc gc' \<Longrightarrow> heap gc a = Some n \<Longrightarrow> \<exists>n'. heap gc' a = Some n' \<and> mark_of n' = mark_of n \<and> gray_next n' = gray_next n"
proof -
  assume s: "same_marks gc gc'" and n: "heap gc a = Some n"
  have "map_option (\<lambda>n. (mark_of n, gray_next n)) (heap gc' a) = Some (mark_of n, gray_next n)"
    using s n by (simp add: same_marks_def)
  then show ?thesis by auto
qed

lemma same_marks_sym: "same_marks gc gc' \<Longrightarrow> same_marks gc' gc"
  by (simp add: same_marks_def)

lemma same_marks_marked:
  assumes "same_marks gc gc'"
  shows "marked L gc' = marked L gc" "black L gc' = black L gc"
  using same_marksD [OF assms] same_marksD [OF same_marks_sym [OF assms]]
  unfolding marked_def black_def by fastforce+

lemma marking_same_marks:
  assumes m: "marking L S gc gs ws" and s: "same_marks gc gc'"
  shows "marking L S gc' gs ws"
  unfolding marking_def same_marks_marked [OF s]
proof (intro conjI ballI allI impI)
  have g: "map_option gray_next (heap gc' a) = map_option gray_next (heap gc a)" for a
  proof -
    have "map_option snd (map_option (\<lambda>n. (mark_of n, gray_next n)) (heap gc' a)) = map_option snd (map_option (\<lambda>n. (mark_of n, gray_next n)) (heap gc a))"
      using s by (simp add: same_marks_def)
    then show ?thesis by (simp add: option.map_comp comp_def)
  qed
  have l: "gray_list gc' = gray_list gc" "weak_refs gc' = weak_refs gc" using s by (simp_all add: same_marks_def)
  show "lseg gray_next (heap gc') (gray_list gc') gs None" "lseg gray_next (heap gc') (weak_refs gc') ws None"
    unfolding l using m g by (auto simp: marking_def intro: lseg_cong)
  show "distinct (gs @ ws)" "set gs = marked L gc - black L gc" "set ws \<subseteq> black L gc" "L \<inter> S = {}"
    using m unfolding marking_def by blast+
  show "\<exists>n. heap gc' a = Some n" if "a \<in> L \<union> S" for a
    using marking_alloc [OF m that] same_marksD [OF s] by blast
  fix a n assume "a \<in> S" "heap gc' a = Some n"
  then show "mark_of n = FKL_MARK_B" using m same_marksD [OF same_marks_sym [OF s]] unfolding marking_def by metis
qed

lemma removed_same_marks:
  assumes "removed gc X ll fl p as (gc', fl')"
  shows "same_marks gc gc'"
proof -
  note D = assms [unfolded removed_def prod.case]
  have e: "evolves X gc gc'" and h: "gc' = gc\<lparr>heap := heap gc'\<rparr>"
    and mk: "\<forall>a n n'. heap gc a = Some n \<longrightarrow> heap gc' a = Some n' \<longrightarrow> mark_of n' = mark_of n \<and> gray_next n' = gray_next n"
    using D by blast+
  have "map_option (\<lambda>n. (mark_of n, gray_next n)) (heap gc' a) = map_option (\<lambda>n. (mark_of n, gray_next n)) (heap gc a)" for a
  proof (cases "heap gc a")
    case None
    then show ?thesis using evolves_None [OF e] by simp
  next
    case (Some n)
    then obtain n' where n': "heap gc' a = Some n'" using evolves_D [OF e] by blast
    have "mark_of n' = mark_of n \<and> gray_next n' = gray_next n" using mk Some n' by blast
    then show ?thesis using Some n' by simp
  qed
  moreover have "gray_list gc' = gray_list gc" by (subst h) simp
  moreover have "weak_refs gc' = weak_refs gc" by (subst h) simp
  ultimately show ?thesis by (simp add: same_marks_def)
qed

lemma same_marks_trans: "same_marks gc gc1 \<Longrightarrow> same_marks gc1 gc2 \<Longrightarrow> same_marks gc gc2"
  by (simp add: same_marks_def)

text \<open>A frame before and after; the list \<open>xs\<close> of a frame.\<close>

definition frame_evolves :: "'d gcst \<Rightarrow> 'd frame \<Rightarrow> 'd frame \<Rightarrow> bool" where
  "frame_evolves gc f f' \<longleftrightarrow> (case f of Compound lr ll pr \<Rightarrow> (\<exists>ll'. f' = Compound lr ll' pr \<and> cdr_reach gc ll ll') | OtherObj m d \<Rightarrow> f' = f)"

definition frame_list :: "'d gcst \<Rightarrow> 'd frame \<Rightarrow> nat list \<Rightarrow> bool" where
  "frame_list gc f xs \<longleftrightarrow> (case f of Compound lr ll pr \<Rightarrow> plist gc ll xs | OtherObj m d \<Rightarrow> xs = [])"

definition frame_lists :: "'d gcst \<Rightarrow> 'd frame list \<Rightarrow> nat list \<Rightarrow> bool" where
  "frame_lists gc fs xs \<longleftrightarrow> (\<exists>xss. list_all2 (frame_list gc) fs xss \<and> xs = concat xss) \<and> distinct xs"

lemma frame_list_evolves: "evolves X gc gc' \<Longrightarrow> set xs \<inter> X = {} \<Longrightarrow> frame_list gc f xs \<Longrightarrow> frame_list gc' f xs"
  by (cases f) (auto simp: frame_list_def plist_evolves)

lemma frame_lists_evolves: "evolves X gc gc' \<Longrightarrow> set xs \<inter> X = {} \<Longrightarrow> frame_lists gc fs xs \<Longrightarrow> frame_lists gc' fs xs"
proof -
  assume e: "evolves X gc gc'" and x: "set xs \<inter> X = {}" and f: "frame_lists gc fs xs"
  then obtain xss where xss: "list_all2 (frame_list gc) fs xss" "xs = concat xss" "distinct xs" by (auto simp: frame_lists_def)
  have "list_all2 (frame_list gc') fs xss"
  proof (rule list.rel_mono_strong [OF xss(1)])
    fix f ys assume "ys \<in> set xss" "frame_list gc f ys"
    then show "frame_list gc' f ys" using e x xss(2) by (intro frame_list_evolves [OF e]) auto
  qed
  then show ?thesis using xss by (auto simp: frame_lists_def)
qed

lemma frame_lists_Cons:
  "frame_lists gc (f # fs) xs \<longleftrightarrow> (\<exists>ys zs. frame_list gc f ys \<and> frame_lists gc fs zs \<and> xs = ys @ zs \<and> distinct xs)"
proof
  assume "frame_lists gc (f # fs) xs"
  then obtain ys xss where "frame_list gc f ys" "list_all2 (frame_list gc) fs xss" "xs = ys @ concat xss" "distinct xs"
    by (auto simp: frame_lists_def list_all2_Cons1)
  then show "\<exists>ys zs. frame_list gc f ys \<and> frame_lists gc fs zs \<and> xs = ys @ zs \<and> distinct xs"
    by (intro exI [of _ ys] exI [of _ "concat xss"]) (auto simp: frame_lists_def)
next
  assume "\<exists>ys zs. frame_list gc f ys \<and> frame_lists gc fs zs \<and> xs = ys @ zs \<and> distinct xs"
  then obtain ys xss where "frame_list gc f ys" "list_all2 (frame_list gc) fs xss" "xs = ys @ concat xss" "distinct xs"
    by (auto simp: frame_lists_def)
  then show "frame_lists gc (f # fs) xs" unfolding frame_lists_def by (intro conjI exI [of _ "ys # xss"]) simp_all
qed

lemma frame_evolves_mono: "evolves X gc gc' \<Longrightarrow> frame_evolves gc' f f' \<Longrightarrow> frame_evolves gc f f'"
  by (cases f) (auto simp: frame_evolves_def cdr_reach_evolves)

lemma wp_remove_frame:
  assumes "frame_list gc f xs" "distinct xs"
  shows "wp (case f of
        Compound lr ll pr \<Rightarrow> do { (gc, ll) \<leftarrow> remove_closed_var_ref_from_list gc ll FrameLrefl; Some (gc, Compound lr ll pr) }
      | OtherObj m d \<Rightarrow> Some (gc, OtherObj m d))
    (\<lambda>(gc', f'). evolves (set xs) gc gc' \<and> same_marks gc gc' \<and> frame_evolves gc f f'
      \<and> (\<exists>ys. frame_list gc' f' ys \<and> distinct ys \<and> set ys \<subseteq> set xs))"
proof (cases f)
  case (Compound lr ll pr)
  have "wp (remove_closed_var_ref_from_list gc ll FrameLrefl) (removed gc (lcell_set FrameLrefl \<union> set xs) FrameLrefl ll ll (set xs))"
    by (rule wp_remove_list) (use assms Compound in \<open>simp_all add: frame_list_def read_lcell_def lcell_set_def\<close>)
  then obtain gc' ll' where r: "remove_closed_var_ref_from_list gc ll FrameLrefl = Some (gc', ll')"
    "removed gc (lcell_set FrameLrefl \<union> set xs) FrameLrefl ll ll (set xs) (gc', ll')" by (auto elim!: wpE)
  note D = r(2) [unfolded removed_def prod.case]
  have e: "evolves (set xs) gc gc'" using D by (simp add: lcell_set_def)
  obtain p' ys where y: "read_lcell gc' ll' FrameLrefl = Some p'" "plist gc' p' ys" "distinct ys" "set ys \<subseteq> set xs" "cdr_reach gc ll p'"
    using D by blast
  then have "p' = ll'" by (simp add: read_lcell_def)
  then show ?thesis using Compound r(1) e removed_same_marks [OF r(2)] y
    by (auto simp: frame_evolves_def frame_list_def)
qed (use assms in \<open>auto simp: frame_evolves_def frame_list_def same_marks_def\<close>)

lemma wp_remove_closed:
  "frame_lists gc fs xs \<Longrightarrow> wp (remove_closed_var_ref fs gc) (\<lambda>(gc', fs'). evolves (set xs) gc gc' \<and> same_marks gc gc'
     \<and> list_all2 (frame_evolves gc) fs fs' \<and> (\<exists>ys. frame_lists gc' fs' ys \<and> set ys \<subseteq> set xs))"
proof (induction fs arbitrary: gc xs)
  case Nil
  then show ?case by (auto simp: frame_lists_def same_marks_def)
next
  case (Cons f fs)
  then obtain x1 x2 where x: "frame_list gc f x1" "frame_lists gc fs x2" "xs = x1 @ x2" "distinct xs"
    by (auto simp: frame_lists_Cons)
  have d1: "distinct x1" using x by simp
  obtain gc1 f1 y1 where r1: "(case f of
        Compound lr ll pr \<Rightarrow> do { (gc, ll) \<leftarrow> remove_closed_var_ref_from_list gc ll FrameLrefl; Some (gc, Compound lr ll pr) }
      | OtherObj m d \<Rightarrow> Some (gc, OtherObj m d)) = Some (gc1, f1)"
    and e1: "evolves (set x1) gc gc1" "same_marks gc gc1" "frame_evolves gc f f1" "frame_list gc1 f1 y1" "distinct y1" "set y1 \<subseteq> set x1"
    using wp_remove_frame [OF x(1) d1] by (auto elim!: wpE)
  have "frame_lists gc1 fs x2" by (rule frame_lists_evolves [OF e1(1) _ x(2)]) (use x in auto)
  then have "wp (remove_closed_var_ref fs gc1) (\<lambda>(gc', fs'). evolves (set x2) gc1 gc' \<and> same_marks gc1 gc'
     \<and> list_all2 (frame_evolves gc1) fs fs' \<and> (\<exists>ys. frame_lists gc' fs' ys \<and> set ys \<subseteq> set x2))" by (rule Cons.IH)
  then obtain gc2 fs2 y2 where r2: "remove_closed_var_ref fs gc1 = Some (gc2, fs2)"
    and e2: "evolves (set x2) gc1 gc2" "same_marks gc1 gc2" "list_all2 (frame_evolves gc1) fs fs2" "frame_lists gc2 fs2 y2" "set y2 \<subseteq> set x2"
    by (auto elim!: wpE)
  have f1: "frame_list gc2 f1 y1" by (rule frame_list_evolves [OF e2(1) _ e1(4)]) (use x e1(6) in auto)
  have "list_all2 (frame_evolves gc) fs fs2" using e2(3) by (rule list.rel_mono_strong) (rule frame_evolves_mono [OF e1(1)])
  moreover have "frame_lists gc2 (f1 # fs2) (y1 @ y2)"
  proof -
    have "distinct (y1 @ y2)" using e2(4,5) e1(5,6) x(3,4) by (auto simp: frame_lists_def)
    then show ?thesis using f1 e2(4) unfolding frame_lists_Cons by blast
  qed
  moreover have "evolves (set xs) gc gc2" using evolves_trans [OF e1(1) e2(1)] x(3) by simp
  moreover have "remove_closed_var_ref (f # fs) gc = Some (gc2, f1 # fs2)" using r1 r2 by simp
  moreover have "set (y1 @ y2) \<subseteq> set xs" using e1(6) e2(5) x(3) by auto
  ultimately show ?case using e1(3) same_marks_trans [OF e1(2) e2(2)]
    by (simp del: remove_closed_var_ref.simps set_append) (rule exI [of _ "y1 @ y2"], simp)
qed

end
