(* ===== verification/GcRootPhase.thy ===== *)
theory GcRootPhase
  imports GcMachines
begin

text \<open>
  \<open>fklVMgcMarkAllRootToGray\<close> as a whole: the gray objects afterwards are the targets of the roots.
\<close>

section \<open>One machine\<close>

lemma list_all2_right: "list_all2 P xs ys \<Longrightarrow> y \<in> set ys \<Longrightarrow> \<exists>x \<in> set xs. P x y"
  by (induction rule: list_all2_induct) auto

definition machine_evolves :: "'d gcst \<Rightarrow> 'd vm \<Rightarrow> 'd vm \<Rightarrow> bool" where
  "machine_evolves gc v v' \<longleftrightarrow> v' = v\<lparr>frames := frames v'\<rparr> \<and> list_all2 (frame_evolves gc) (frames v) (frames v')"

lemma machine_evolves_fields:
  assumes "machine_evolves gc v v'"
  shows "stack v' = stack v" "atexits v' = atexits v" "int_list v' = int_list v" "vm_error v' = vm_error v" "chan v' = chan v"
    "obj_head v' = obj_head v" "obj_tail v' = obj_tail v"
proof -
  have e: "v' = v\<lparr>frames := frames v'\<rparr>" using assms unfolding machine_evolves_def by (rule conjunct1)
  show "stack v' = stack v" "atexits v' = atexits v" "int_list v' = int_list v" "vm_error v' = vm_error v" "chan v' = chan v"
    "obj_head v' = obj_head v" "obj_tail v' = obj_tail v"
    by (subst e, simp)+
qed

lemma points_into_concat: "points_into X (concat (map f xs)) \<longleftrightarrow> (\<forall>x \<in> set xs. points_into X (f x))"
  by (auto simp: points_into_def)

lemma frame_ptrs_evolves:
  assumes c: "closed_heap cbs L S gc" and f: "frame_evolves gc f f'" and p: "points_into (L \<union> S) (frame_ptrs cbs f)"
  shows "points_into (L \<union> S) (frame_ptrs cbs f')"
proof (cases f)
  case (Compound lr ll pr)
  then obtain ll' where f': "f' = Compound lr ll' pr" "cdr_reach gc ll ll'" using f by (auto simp: frame_evolves_def)
  have "points_into (L \<union> S) [ll]" using p Compound by (simp add: frame_ptrs_def)
  then have "points_into (L \<union> S) [ll']"
    by (rule cdr_reach_closed [OF f'(2)]) (use c in \<open>auto simp: closed_heap_def\<close>)
  then show ?thesis using p Compound f' by (simp add: frame_ptrs_def)
next
  case (OtherObj m d)
  then show ?thesis using f p by (simp add: frame_evolves_def)
qed

lemma machine_ptrs_evolves:
  assumes c: "closed_heap cbs L S gc" and m: "machine_evolves gc v v'" and p: "points_into (L \<union> S) (machine_ptrs cbs v)"
  shows "points_into (L \<union> S) (machine_ptrs cbs v')"
proof -
  have "points_into (L \<union> S) (frame_ptrs cbs f')" if f': "f' \<in> set (frames v')" for f'
  proof -
    have l: "list_all2 (frame_evolves gc) (frames v) (frames v')" using m unfolding machine_evolves_def by (rule conjunct2)
    obtain f where f: "f \<in> set (frames v)" "frame_evolves gc f f'" by (rule bexE [OF list_all2_right [OF l f']])
    have "points_into (L \<union> S) (frame_ptrs cbs f)" using p f(1) by (simp add: machine_ptrs_def points_into_concat)
    then show ?thesis by (rule frame_ptrs_evolves [OF c f(2)])
  qed
  then show ?thesis using p machine_evolves_fields [OF m] by (simp add: machine_ptrs_def points_into_concat)
qed

lemma gray_all_Some_append: "gray_all (ps @ qs) gc = Some g \<longleftrightarrow> (\<exists>g1. gray_all ps gc = Some g1 \<and> gray_all qs g1 = Some g)"
  by (simp add: gray_all_append bind_eq_Some_conv)

lemma mark_machine_eq:
  assumes s: "stack_ok (stack v)" and g: "gray_all (machine_ptrs cbs v) gc = Some g"
  shows "do { gc \<leftarrow> mark_handlers cbs (atexits v) gc; gc \<leftarrow> mark_handlers cbs (int_list v) gc; gc \<leftarrow> do_atomic_frames cbs (frames v) gc;
     gc \<leftarrow> fklVMgcToGray (vm_error v) gc; gc \<leftarrow> mark_stack (stack v) 0 gc; gc \<leftarrow> fklVMgcToGray (chan v) gc; Some (gc, v) } = Some (g, v)"
proof -
  obtain g1 g2 g3 g4 g5 where "gray_all (handler_ptrs cbs (atexits v)) gc = Some g1" "gray_all (handler_ptrs cbs (int_list v)) g1 = Some g2"
    "gray_all (concat (map (frame_ptrs cbs) (frames v))) g2 = Some g3" "gray_all [vm_error v] g3 = Some g4"
    "gray_all (stack_ptrs (stack v) 0) g4 = Some g5" "gray_all [chan v] g5 = Some g"
    using g unfolding machine_ptrs_def gray_all_Some_append by blast
  then show ?thesis by (simp add: mark_handlers_eq do_atomic_frames_eq mark_stack_eq [OF s])
qed

lemma wp_mark_root:
  assumes m: "marking L S gc gs ws" and c: "closed_heap cbs L S gc" and fl: "frame_lists gc (frames v) xs"
    and st: "stack_ok (stack v)" and p: "points_into (L \<union> S) (machine_ptrs cbs v)"
  shows "wp (gc_mark_root_to_gray cbs v gc) (\<lambda>(gc', v'). rooted L S ws gc (set xs) (machine_ptrs cbs v') gc'
    \<and> machine_evolves gc v v' \<and> (\<exists>ys. frame_lists gc' (frames v') ys \<and> set ys \<subseteq> set xs))"
proof -
  obtain gc1 fs ys where r: "remove_closed_var_ref (frames v) gc = Some (gc1, fs)"
    and e: "evolves (set xs) gc gc1" "same_marks gc gc1" "list_all2 (frame_evolves gc) (frames v) fs" "frame_lists gc1 fs ys" "set ys \<subseteq> set xs"
    using wp_remove_closed [OF fl] by (auto elim!: wpE)
  let ?v = "v\<lparr>frames := fs\<rparr>"
  have ev: "machine_evolves gc v ?v" using e(3) by (simp add: machine_evolves_def)
  have p1: "points_into (L \<union> S) (machine_ptrs cbs ?v)" by (rule machine_ptrs_evolves [OF c ev p])
  have m1: "marking L S gc1 gs ws" by (rule marking_same_marks [OF m e(2)])
  obtain g where g: "gray_all (machine_ptrs cbs ?v) gc1 = Some g" "grayed L S gc1 ws (machine_ptrs cbs ?v) g"
    using wp_gray_all [OF m1 p1] by (rule wpE)
  have "rooted L S ws gc (set xs) [] gc1" using m1 e(1) same_marks_marked [OF e(2)] by (auto simp: rooted_def)
  then have "rooted L S ws gc (set xs \<union> {}) ([] @ machine_ptrs cbs ?v) g" by (rule rooted_trans [OF _ grayed_rooted [OF g(2)]])
  moreover have "frame_lists g fs ys"
    by (rule frame_lists_evolves [of "{}", OF _ _ e(4)]) (use g(2) in \<open>simp_all add: grayed_def same_objs_evolves\<close>)
  moreover have "gc_mark_root_to_gray cbs v gc = Some (g, ?v)"
    using mark_machine_eq [OF _ g(1)] st r by (simp add: gc_mark_root_to_gray_def)
  ultimately show ?thesis using ev e(5) by auto
qed

section \<open>All machines\<close>

lemma frame_lists_append:
  "frame_lists gc (fs @ gs) xs \<longleftrightarrow> (\<exists>ys zs. frame_lists gc fs ys \<and> frame_lists gc gs zs \<and> xs = ys @ zs \<and> distinct xs)"
proof (induction fs arbitrary: xs)
  case Nil
  show ?case by (auto simp: frame_lists_def)
next
  case (Cons f fs)
  show ?case
  proof
    assume "frame_lists gc ((f # fs) @ gs) xs"
    then obtain x ys zs where "frame_list gc f x" "frame_lists gc fs ys" "frame_lists gc gs zs" "xs = x @ ys @ zs" "distinct xs"
      by (auto simp: frame_lists_Cons Cons.IH)
    then show "\<exists>ys zs. frame_lists gc (f # fs) ys \<and> frame_lists gc gs zs \<and> xs = ys @ zs \<and> distinct xs"
      by (intro exI [of _ "x @ ys"] exI [of _ zs]) (auto simp: frame_lists_Cons)
  next
    assume "\<exists>ys zs. frame_lists gc (f # fs) ys \<and> frame_lists gc gs zs \<and> xs = ys @ zs \<and> distinct xs"
    then obtain x ys zs where "frame_list gc f x" "frame_lists gc fs ys" "frame_lists gc gs zs" "xs = x @ ys @ zs" "distinct xs"
      by (auto simp: frame_lists_Cons)
    then show "frame_lists gc ((f # fs) @ gs) xs" unfolding append_Cons frame_lists_Cons Cons.IH
      by (intro exI [of _ x] exI [of _ "ys @ zs"] conjI exI [of _ ys] exI [of _ zs]) auto
  qed
qed

lemma frame_lists_distinct: "frame_lists gc fs xs \<Longrightarrow> distinct xs"
  by (simp add: frame_lists_def)

lemma machine_evolves_mono: "evolves X gc gc' \<Longrightarrow> machine_evolves gc' v v' \<Longrightarrow> machine_evolves gc v v'"
  unfolding machine_evolves_def by (auto elim!: list.rel_mono_strong intro: frame_evolves_mono)

lemma wp_mark_machines:
  assumes "marking L S gc gs ws" "closed_heap cbs L S gc" "frame_lists gc (concat (map frames vs)) xs"
    "\<forall>v \<in> set vs. stack_ok (stack v) \<and> points_into (L \<union> S) (machine_ptrs cbs v)"
  shows "wp (mark_machines cbs vs gc) (\<lambda>(gc', vs'). rooted L S ws gc (set xs) (concat (map (machine_ptrs cbs) vs')) gc'
    \<and> list_all2 (machine_evolves gc) vs vs' \<and> (\<exists>ys. frame_lists gc' (concat (map frames vs')) ys \<and> set ys \<subseteq> set xs))"
  using assms
proof (induction vs arbitrary: gc gs xs)
  case Nil
  then show ?case by (auto simp: rooted_def)
next
  case (Cons v vs)
  then obtain x1 x2 where x: "frame_lists gc (frames v) x1" "frame_lists gc (concat (map frames vs)) x2" "xs = x1 @ x2" "distinct xs"
    by (auto simp: frame_lists_append)
  have v: "stack_ok (stack v)" "points_into (L \<union> S) (machine_ptrs cbs v)" using Cons.prems(4) by simp_all
  obtain gc1 v1 y1 where r1: "gc_mark_root_to_gray cbs v gc = Some (gc1, v1)" and e1: "rooted L S ws gc (set x1) (machine_ptrs cbs v1) gc1"
    "machine_evolves gc v v1" "frame_lists gc1 (frames v1) y1" "set y1 \<subseteq> set x1"
    using wp_mark_root [OF Cons.prems(1,2) x(1) v] by (auto elim!: wpE)
  obtain gs1 where m1: "marking L S gc1 gs1 ws" and ev1: "evolves (set x1) gc gc1" using e1(1) by (auto simp: rooted_def)
  have fl1: "frame_lists gc1 (concat (map frames vs)) x2" by (rule frame_lists_evolves [OF ev1 _ x(2)]) (use x in auto)
  have vs: "\<forall>v \<in> set vs. stack_ok (stack v) \<and> points_into (L \<union> S) (machine_ptrs cbs v)" using Cons.prems(4) by simp
  have "wp (mark_machines cbs vs gc1) (\<lambda>(gc', vs'). rooted L S ws gc1 (set x2) (concat (map (machine_ptrs cbs) vs')) gc'
    \<and> list_all2 (machine_evolves gc1) vs vs' \<and> (\<exists>ys. frame_lists gc' (concat (map frames vs')) ys \<and> set ys \<subseteq> set x2))"
    by (rule Cons.IH [OF m1 closed_heap_evolves [OF Cons.prems(2) ev1] fl1 vs])
  then obtain gc2 vs2 y2 where r2: "mark_machines cbs vs gc1 = Some (gc2, vs2)" and e2: "rooted L S ws gc1 (set x2) (concat (map (machine_ptrs cbs) vs2)) gc2"
    "list_all2 (machine_evolves gc1) vs vs2" "frame_lists gc2 (concat (map frames vs2)) y2" "set y2 \<subseteq> set x2" by (auto elim!: wpE)
  have "frame_lists gc2 (frames v1) y1"
    by (rule frame_lists_evolves [OF rooted_evolves [OF e2(1)] _ e1(3)]) (use x e1(4) in auto)
  moreover have d: "distinct (y1 @ y2)" using frame_lists_distinct [OF e1(3)] frame_lists_distinct [OF e2(3)] e1(4) e2(4) x(3,4) by auto
  ultimately have fl: "frame_lists gc2 (concat (map frames (v1 # vs2))) (y1 @ y2)"
    using e2(3) unfolding list.map concat.simps frame_lists_append by blast
  have "list_all2 (machine_evolves gc) vs vs2" using e2(2) by (rule list.rel_mono_strong) (rule machine_evolves_mono [OF ev1])
  moreover have "rooted L S ws gc (set xs) (concat (map (machine_ptrs cbs) (v1 # vs2))) gc2"
    using rooted_trans [OF e1(1) e2(1)] x(3) by simp
  moreover have "mark_machines cbs (v # vs) gc = Some (gc2, v1 # vs2)" using r1 r2 by simp
  moreover have "\<exists>ys. frame_lists gc2 (concat (map frames (v1 # vs2))) ys \<and> set ys \<subseteq> set xs"
    using fl e1(4) e2(4) x(3) by (intro exI [of _ "y1 @ y2"]) auto
  ultimately show ?case using e1(2) by (simp del: mark_machines.simps concat.simps list.map)
qed

section \<open>The root phase\<close>

text \<open>\<open>gc'\<close> has the machines of \<open>gc\<close> with relinked frames, and otherwise evolved from it.\<close>

definition phase_evolves :: "nat set \<Rightarrow> 'd gcst \<Rightarrow> 'd gcst \<Rightarrow> bool" where
  "phase_evolves X gc gc' \<longleftrightarrow> evolves X gc (gc'\<lparr>gcvm := gcvm gc, vms := vms gc\<rparr>)
     \<and> machine_evolves gc (gcvm gc) (gcvm gc') \<and> list_all2 (machine_evolves gc) (vms gc) (vms gc')"

definition machines :: "'d gcst \<Rightarrow> 'd vm list" where
  "machines gc = gcvm gc # vms gc"

definition machines_ok :: "'d gcst \<Rightarrow> bool" where
  "machines_ok gc \<longleftrightarrow> (\<forall>v \<in> set (machines gc). stack_ok (stack v)) \<and> (\<exists>xs. frame_lists gc (concat (map frames (machines gc))) xs)"

text \<open>The pairs of the lists of the frames.\<close>

definition frame_pairs :: "'d gcst \<Rightarrow> nat set \<Rightarrow> bool" where
  "frame_pairs gc X \<longleftrightarrow> (\<exists>xs. frame_lists gc (concat (map frames (machines gc))) xs \<and> X = set xs)"

lemma marking_update_machines [simp]: "marking L S (gc\<lparr>gcvm := v, vms := vs\<rparr>) gs ws \<longleftrightarrow> marking L S gc gs ws"
  "marked L (gc\<lparr>gcvm := v, vms := vs\<rparr>) = marked L gc" "black L (gc\<lparr>gcvm := v, vms := vs\<rparr>) = black L gc"
  by (simp_all add: marking_def marked_def black_def)

lemma own_ptrs_evolves: "evolves X gc gc' \<Longrightarrow> own_ptrs cbs (gc'\<lparr>gcvm := v, vms := vs\<rparr>) = own_ptrs cbs gc"
  using evolves_fields [of X gc gc'] by (simp add: own_ptrs_def)

lemma is_closed_machines [simp]: "is_closed_var_ref (gc\<lparr>gcvm := v, vms := vs\<rparr>) x = is_closed_var_ref gc x"
  by (simp add: is_closed_var_ref_def split: vmptr.split)

lemma plist_machines: "plist (gc\<lparr>gcvm := v, vms := vs\<rparr>) p xs = plist gc p xs"
proof (induction xs arbitrary: p)
  case (Cons a xs)
  then show ?case by simp
qed (simp add: as_pair_def split: vmptr.split)

lemma frame_lists_machines: "frame_lists (gc\<lparr>gcvm := v, vms := vs\<rparr>) fs xs = frame_lists gc fs xs"
proof -
  have "frame_list (gc\<lparr>gcvm := v, vms := vs\<rparr>) = frame_list gc"
    by (intro ext) (simp add: frame_list_def plist_machines split: frame.split)
  then show ?thesis by (simp add: frame_lists_def)
qed

lemma wp_MarkAllRoot:
  assumes m: "marking L S gc gs ws" and c: "closed_heap cbs L S gc" and ok: "machines_ok gc"
    and p: "points_into (L \<union> S) (roots cbs gc)"
  shows "wp (fklVMgcMarkAllRootToGray cbs gc) (\<lambda>gc'. \<exists>X. phase_evolves X gc gc' \<and> frame_pairs gc X \<and> machines_ok gc'
    \<and> (\<exists>gs'. marking L S gc' gs' ws) \<and> marked L gc' = marked L gc \<union> targets L (roots cbs gc') \<and> black L gc' = black L gc
    \<and> points_into (L \<union> S) (roots cbs gc'))"
proof -
  have po: "points_into (L \<union> S) (own_ptrs cbs gc)" and pm: "\<forall>v \<in> set (machines gc). points_into (L \<union> S) (machine_ptrs cbs v)"
    using p by (auto simp: roots_def machines_def points_into_concat)
  obtain g1 where g1: "gray_all (own_ptrs cbs gc) gc = Some g1" "grayed L S gc ws (own_ptrs cbs gc) g1"
    using wp_gray_all [OF m po] by (rule wpE)
  obtain gs1 where m1: "marking L S g1 gs1 ws" and so: "same_objs gc g1" using g1(2) by (auto simp: grayed_def)
  have e1: "evolves {} gc g1" by (rule same_objs_evolves [OF so])
  have f1: "gcvm g1 = gcvm gc" "vms g1 = vms gc" using same_objs_fields [OF so] by simp_all
  obtain xs where xs: "frame_lists gc (concat (map frames (machines gc))) xs" using ok by (auto simp: machines_ok_def)
  then have fl1: "frame_lists g1 (concat (map frames (machines gc))) xs" by (rule frame_lists_evolves [OF e1, rotated]) simp
  have c1: "closed_heap cbs L S g1" by (rule closed_heap_evolves [OF c e1])
  have st: "\<forall>v \<in> set (machines gc). stack_ok (stack v) \<and> points_into (L \<union> S) (machine_ptrs cbs v)"
    using ok pm by (simp add: machines_ok_def)
  obtain g3 vs ys where r: "mark_machines cbs (machines gc) g1 = Some (g3, vs)"
    and e3: "rooted L S ws g1 (set xs) (concat (map (machine_ptrs cbs) vs)) g3" "list_all2 (machine_evolves g1) (machines gc) vs"
      "frame_lists g3 (concat (map frames vs)) ys"
    using wp_mark_machines [OF m1 c1 fl1 st] by (auto elim!: wpE)
  obtain v vs' where vs: "vs = v # vs'" using e3(2) by (cases vs) (auto simp: machines_def)
  obtain g2 where r2: "gc_mark_root_to_gray cbs (gcvm gc) g1 = Some (g2, v)" "mark_machines cbs (vms gc) g2 = Some (g3, vs')"
    using r vs by (auto simp: machines_def bind_eq_Some_conv)
  obtain x1 where x1: "frame_lists g1 (frames (gcvm gc)) x1" using fl1 by (auto simp: machines_def frame_lists_append)
  have "vms g2 = vms gc"
  proof -
    have "stack_ok (stack (gcvm gc))" "points_into (L \<union> S) (machine_ptrs cbs (gcvm gc))" using st by (simp_all add: machines_def)
    then have "evolves (set x1) g1 g2" using wp_mark_root [OF m1 c1 x1] r2(1) by (auto simp: rooted_def)
    then show ?thesis using evolves_fields(2) f1 by metis
  qed
  let ?gc = "g3\<lparr>gcvm := v, vms := vs'\<rparr>"
  have ev3: "evolves (set xs) gc g3" using evolves_trans [OF e1 rooted_evolves [OF e3(1)]] by simp
  have lm: "list_all2 (machine_evolves gc) (machines gc) vs" using e3(2) by (rule list.rel_mono_strong) (rule machine_evolves_mono [OF e1])
  have g3m: "g3\<lparr>gcvm := gcvm gc, vms := vms gc\<rparr> = g3" using evolves_fields(1,2) [OF ev3] by (cases g3) simp
  have pe: "phase_evolves (set xs) gc ?gc" unfolding phase_evolves_def using ev3 lm g3m vs by (simp add: machines_def)
  have ro: "roots cbs ?gc = own_ptrs cbs gc @ concat (map (machine_ptrs cbs) vs)"
    using own_ptrs_evolves [OF ev3] vs by (simp add: roots_def)
  have mk: "marked L g3 = marked L gc \<union> targets L (roots cbs ?gc)" "black L g3 = black L gc"
    using g1(2) e3(1) ro by (auto simp: grayed_def rooted_def)
  have "points_into (L \<union> S) (machine_ptrs cbs u)" if uv: "u \<in> set vs" for u
  proof -
    obtain w where "w \<in> set (machines gc)" "machine_evolves gc w u" by (rule bexE [OF list_all2_right [OF lm uv]])
    then show ?thesis using machine_ptrs_evolves [OF c] pm by blast
  qed
  then have pr: "points_into (L \<union> S) (roots cbs ?gc)" using po ro by (simp add: points_into_concat)
  have "stack_ok (stack u)" if uv: "u \<in> set vs" for u
  proof -
    obtain w where "w \<in> set (machines gc)" "machine_evolves gc w u" by (rule bexE [OF list_all2_right [OF lm uv]])
    then show ?thesis using st machine_evolves_fields(1) by metis
  qed
  then have mo: "machines_ok ?gc" using e3(3) vs by (auto simp: machines_ok_def machines_def frame_lists_machines)
  have run: "fklVMgcMarkAllRootToGray cbs gc = Some ?gc"
  proof -
    have "do { gc \<leftarrow> gray_all (builtin_refs gc) gc; gc \<leftarrow> gc_extra_mark cbs gc; mark_handlers cbs (gc_int_list gc) gc } = Some g1"
      using own_eq g1(1) by metis
    then obtain h1 h2 where "gray_all (builtin_refs gc) gc = Some h1" "gc_extra_mark cbs h1 = Some h2" "mark_handlers cbs (gc_int_list h2) h2 = Some g1"
      by (auto simp: bind_eq_Some_conv)
    then show ?thesis using r2 f1 \<open>vms g2 = vms gc\<close> by (simp add: fklVMgcMarkAllRootToGray_def)
  qed
  have "frame_pairs gc (set xs)" using xs by (auto simp: frame_pairs_def)
  then show ?thesis using run pe mo mk pr e3(1) by (auto simp: rooted_def)
qed

end
