(* ===== verification/GcSweep.thy ===== *)
theory GcSweep
  imports GcRootPhase
begin

text \<open>
  What happens after the marks: the weak tables drop their dead entries, the white objects are unlinked
  from the list of all objects while the others become white again, and the unlinked ones are released.
\<close>

section \<open>Weak tables\<close>

definition is_live :: "'d gcst \<Rightarrow> vmptr \<Rightarrow> bool" where
  "is_live gc p \<longleftrightarrow> fklVMgcIsMarked gc p = Some True"

definition allocated :: "'d gcst \<Rightarrow> vmptr \<Rightarrow> bool" where
  "allocated gc p \<longleftrightarrow> (\<forall>a. p = PObj a \<longrightarrow> heap gc a \<noteq> None)"

fun clean_ud :: "(vmptr \<Rightarrow> bool) \<Rightarrow> 'd udata \<Rightarrow> 'd udata" where
  "clean_ud live (UdWeakHash wk wv es) = UdWeakHash wk wv (filter (\<lambda>(k, v). (wk \<longrightarrow> live k) \<and> (wv \<longrightarrow> live v)) es)"
| "clean_ud live (UdObarray es) = UdObarray (filter (\<lambda>(s, v). live v) es)"
| "clean_ud live (UdLnt es) = UdLnt (filter (\<lambda>(k, l). live k) es)"
| "clean_ud live u = u"

lemma IsMarked_live: "allocated gc p \<Longrightarrow> fklVMgcIsMarked gc p = Some (is_live gc p)"
  by (cases p) (auto simp: fklVMgcIsMarked_def is_live_def allocated_def)

lemma sweep_weak_hash_eq:
  "\<forall>p \<in> set (entry_ptrs wk wv es). allocated gc p
   \<Longrightarrow> sweep_weak_hash gc wk wv es = Some (filter (\<lambda>(k, v). (wk \<longrightarrow> is_live gc k) \<and> (wv \<longrightarrow> is_live gc v)) es)"
proof (induction es)
  case (Cons e es)
  obtain k v where e: "e = (k, v)" by (cases e)
  have k: "wk \<longrightarrow> fklVMgcIsMarked gc k = Some (is_live gc k)" "wv \<longrightarrow> fklVMgcIsMarked gc v = Some (is_live gc v)"
    using Cons.prems e by (simp_all add: IsMarked_live)
  have "sweep_weak_hash gc wk wv es = Some (filter (\<lambda>(k, v). (wk \<longrightarrow> is_live gc k) \<and> (wv \<longrightarrow> is_live gc v)) es)"
    using Cons.prems e by (intro Cons.IH) simp
  then show ?case unfolding e using k by (cases wk; cases wv) simp_all
qed simp

lemma sweep_obarray_eq:
  "\<forall>p \<in> snd ` set es. allocated gc p \<Longrightarrow> sweep_obarray gc es = Some (filter (\<lambda>(s, v). is_live gc v) es)"
  by (induction es) (auto simp: IsMarked_live)

lemma sweep_lnt_eq:
  "\<forall>p \<in> fst ` set es. allocated gc p \<Longrightarrow> sweep_lnt gc es = Some (filter (\<lambda>(k, l). is_live gc k) es)"
  by (induction es) (auto simp: IsMarked_live)

lemma run_update_eq:
  assumes t: "ud_typed mt u" "mt_update_weak_ref mt = Some f" and n: "heap gc a = Some n" "body n = VmUd tp u"
    and al: "\<forall>p \<in> set (weak_ptrs gc a). allocated gc p"
  shows "run_update_weak_ref f u gc = Some (clean_ud (is_live gc) u) \<and> \<not> (\<exists>dll m. u = UdType dll m)"
proof (cases f)
  case weak_hash_eq_update_weak_ref
  then obtain wk wv es where u: "u = UdWeakHash wk wv es" using t by (auto simp: ud_typed_def)
  then have "sweep_weak_hash gc wk wv es = Some (filter (\<lambda>(k, v). (wk \<longrightarrow> is_live gc k) \<and> (wv \<longrightarrow> is_live gc v)) es)"
    using al n by (intro sweep_weak_hash_eq) (simp add: weak_ptrs_def)
  then show ?thesis using u weak_hash_eq_update_weak_ref by (simp add: run_update_weak_ref_def)
next
  case obarray_update_weak_ref
  then obtain es where u: "u = UdObarray es" using t by (auto simp: ud_typed_def)
  then have "sweep_obarray gc es = Some (filter (\<lambda>(s, v). is_live gc v) es)"
    using al n by (intro sweep_obarray_eq) (simp add: weak_ptrs_def)
  then show ?thesis using u obarray_update_weak_ref by (simp add: run_update_weak_ref_def)
next
  case lnt_ud_update_weak_ref
  then obtain es where u: "u = UdLnt es" using t by (auto simp: ud_typed_def)
  then have "sweep_lnt gc es = Some (filter (\<lambda>(k, l). is_live gc k) es)"
    using al n by (intro sweep_lnt_eq) (simp add: weak_ptrs_def)
  then show ?thesis using u lnt_ud_update_weak_ref by (simp add: run_update_weak_ref_def)
qed

text \<open>A weak table on the list \<open>weak_refs\<close>.\<close>

definition weak_table_ok :: "'d gcst \<Rightarrow> nat \<Rightarrow> bool" where
  "weak_table_ok gc a \<longleftrightarrow> (\<exists>n tp u mt f. heap gc a = Some n \<and> body n = VmUd tp u \<and> meta_of gc tp = Some mt \<and> ud_typed mt u
     \<and> mt_update_weak_ref mt = Some f \<and> (\<forall>p \<in> set (weak_ptrs gc a). allocated gc p))"

definition cleaned :: "nat set \<Rightarrow> 'd gcst \<Rightarrow> 'd gcst \<Rightarrow> bool" where
  "cleaned W gc gc' \<longleftrightarrow> gc' = gc\<lparr>heap := heap gc', weak_refs := None\<rparr> \<and> (\<forall>a. a \<notin> W \<longrightarrow> heap gc' a = heap gc a)
     \<and> (\<forall>a \<in> W. \<forall>n tp u. heap gc a = Some n \<longrightarrow> body n = VmUd tp u
          \<longrightarrow> heap gc' a = Some (n\<lparr>gray_next := None, body := VmUd tp (clean_ud (is_live gc) u)\<rparr>))"

lemma wp_UpdateWeakRefs:
  assumes "lseg gray_next (heap gc) (weak_refs gc) ws None" "distinct ws" "\<forall>a \<in> set ws. weak_table_ok gc a"
  shows "wp (fklVMgcUpdateWeakRefs gc) (cleaned (set ws) gc)"
  using assms
proof (induction ws arbitrary: gc)
  case Nil
  then have w: "weak_refs gc = None" by simp
  then have "gc = gc\<lparr>heap := heap gc, weak_refs := None\<rparr>" by (cases gc) simp
  then show ?case using w by (simp add: fklVMgcUpdateWeakRefs.simps [of gc] cleaned_def)
next
  case (Cons v ws)
  have wr: "weak_refs gc = Some v" using Cons.prems(1) by simp
  obtain n tp u mt f where n: "heap gc v = Some n" "body n = VmUd tp u" "meta_of gc tp = Some mt" "ud_typed mt u" "mt_update_weak_ref mt = Some f"
    and al: "\<forall>p \<in> set (weak_ptrs gc v). allocated gc p" using Cons.prems(3) by (auto simp: weak_table_ok_def)
  have l: "lseg gray_next (heap gc) (gray_next n) ws None" using Cons.prems(1) n(1) by simp
  have ru: "run_update_weak_ref f u gc = Some (clean_ud (is_live gc) u)" and nt: "\<not> (\<exists>dll m. u = UdType dll m)"
    using run_update_eq [OF n(4,5,1,2) al] by blast+
  let ?n = "n\<lparr>body := VmUd tp (clean_ud (is_live gc) u), gray_next := None\<rparr>"
  define g1 where "g1 = gc\<lparr>weak_refs := gray_next n, heap := (heap gc)(v \<mapsto> ?n)\<rparr>"
  have w: "is_weak_ref_value gc v = Some True" using n by (simp add: is_weak_ref_value_def)
  have vw: "v \<notin> set ws" using Cons.prems(2) by simp
  have step: "fklVMgcUpdateWeakRefs gc = fklVMgcUpdateWeakRefs g1"
    using wr w n ru by (simp add: fklVMgcUpdateWeakRefs.simps [of gc] FKL_ASSERT_def g1_def)
  have l1: "lseg gray_next (heap g1) (weak_refs g1) ws None" using l vw by (simp add: g1_def lseg_upd del: fun_upd_apply)
  have mm: "map_option mark_of (heap g1 a) = map_option mark_of (heap gc a)" for a using n by (simp add: g1_def)
  have lv: "is_live g1 p = is_live gc p" for p
  proof (cases p)
    case (PObj a)
    then show ?thesis using mm [of a] by (cases "heap gc a"; cases "heap g1 a") (auto simp: is_live_def fklVMgcIsMarked_def)
  qed (simp_all add: is_live_def fklVMgcIsMarked_def)
  have al1: "allocated gc p \<Longrightarrow> allocated g1 p" for p by (auto simp: allocated_def g1_def)
  have mt1: "meta_of gc t = Some m \<Longrightarrow> meta_of g1 t = Some m" for t m
    using n nt by (auto simp: meta_of_Some g1_def)
  have ok1: "\<forall>a \<in> set ws. weak_table_ok g1 a"
  proof
    fix a assume a: "a \<in> set ws"
    then have h: "heap g1 a = heap gc a" using vw by (auto simp: g1_def)
    then have "weak_ptrs g1 a = weak_ptrs gc a" by (simp add: weak_ptrs_def)
    moreover have "weak_table_ok gc a" using Cons.prems(3) a by simp
    ultimately show "weak_table_ok g1 a" using h mt1 al1 unfolding weak_table_ok_def by metis
  qed
  have "wp (fklVMgcUpdateWeakRefs g1) (cleaned (set ws) g1)" by (rule Cons.IH [OF l1 _ ok1]) (use Cons.prems(2) in simp)
  then show ?case unfolding step
  proof (rule wp_mono)
    fix r assume r: "cleaned (set ws) g1 r"
    have "r = g1\<lparr>heap := heap r, weak_refs := None\<rparr>" using r unfolding cleaned_def by (rule conjunct1)
    then have e: "r = gc\<lparr>heap := heap r, weak_refs := None\<rparr>" by (simp add: g1_def)
    have o: "heap r a = heap g1 a" if "a \<notin> set ws" for a using r that unfolding cleaned_def by blast
    have c: "heap r a = Some (k\<lparr>gray_next := None, body := VmUd t (clean_ud (is_live g1) x)\<rparr>)"
      if "a \<in> set ws" "heap g1 a = Some k" "body k = VmUd t x" for a k t x
      using r that unfolding cleaned_def by blast
    have lveq: "is_live g1 = is_live gc" using lv by (intro ext)
    show "cleaned (set (v # ws)) gc r" unfolding cleaned_def
    proof (intro conjI allI impI ballI)
      show "r = gc\<lparr>heap := heap r, weak_refs := None\<rparr>" by (rule e)
      show "heap r a = heap gc a" if "a \<notin> set (v # ws)" for a using o that by (simp add: g1_def)
      fix a k t x assume a: "a \<in> set (v # ws)" "heap gc a = Some k" "body k = VmUd t x"
      show "heap r a = Some (k\<lparr>gray_next := None, body := VmUd t (clean_ud (is_live gc) x)\<rparr>)"
      proof (cases "a = v")
        case True
        then show ?thesis using o [of v] vw a n by (simp add: g1_def)
      next
        case False
        then show ?thesis using c [of a k t x] a lveq by (simp add: g1_def)
      qed
    qed
  qed
qed

section \<open>Collecting\<close>

definition ncell_set :: "ncell \<Rightarrow> nat set" where
  "ncell_set c = (case c of HeadVar \<Rightarrow> {} | NextOf a \<Rightarrow> {a})"

definition white :: "'d gcst \<Rightarrow> nat \<Rightarrow> bool" where
  "white gc a \<longleftrightarrow> (\<exists>n. heap gc a = Some n \<and> mark_of n = FKL_MARK_W)"

text \<open>The objects in \<open>X\<close> become white; only the objects in \<open>Y\<close> are linked anew.\<close>

definition obj_rest :: "'d vmobj \<Rightarrow> 'd body \<times> u64 \<times> nat option" where
  "obj_rest n = (body n, zsize n, gray_next n)"

definition unmarked_obj :: "bool \<Rightarrow> bool \<Rightarrow> 'd vmobj \<Rightarrow> 'd vmobj \<Rightarrow> bool" where
  "unmarked_obj x y n n' \<longleftrightarrow> obj_rest n' = obj_rest n \<and> mark_of n' = (if x then FKL_MARK_W else mark_of n) \<and> (\<not> y \<longrightarrow> next_of n' = next_of n)"

definition unmarked :: "nat set \<Rightarrow> nat set \<Rightarrow> 'd gcst \<Rightarrow> 'd gcst \<Rightarrow> bool" where
  "unmarked X Y gc gc' \<longleftrightarrow> gc' = gc\<lparr>heap := heap gc'\<rparr> \<and> (\<forall>a. rel_option (unmarked_obj (a \<in> X) (a \<in> Y)) (heap gc a) (heap gc' a))"

lemma unmarked_D: "unmarked X Y gc gc' \<Longrightarrow> heap gc a = Some n \<Longrightarrow> \<exists>n'. heap gc' a = Some n' \<and> unmarked_obj (a \<in> X) (a \<in> Y) n n'"
proof -
  assume u: "unmarked X Y gc gc'" and n: "heap gc a = Some n"
  have "rel_option (unmarked_obj (a \<in> X) (a \<in> Y)) (heap gc a) (heap gc' a)" using u unfolding unmarked_def by blast
  then show ?thesis using n by (cases "heap gc' a") auto
qed

lemma unmarked_None: "unmarked X Y gc gc' \<Longrightarrow> heap gc a = None \<Longrightarrow> heap gc' a = None"
proof -
  assume u: "unmarked X Y gc gc'" and n: "heap gc a = None"
  have "rel_option (unmarked_obj (a \<in> X) (a \<in> Y)) (heap gc a) (heap gc' a)" using u unfolding unmarked_def by blast
  then show ?thesis using n by simp
qed

lemma unmarkedI: "gc' = gc\<lparr>heap := heap gc'\<rparr> \<Longrightarrow> (\<And>a. heap gc a = None \<Longrightarrow> heap gc' a = None)
  \<Longrightarrow> (\<And>a n. heap gc a = Some n \<Longrightarrow> \<exists>n'. heap gc' a = Some n' \<and> unmarked_obj (a \<in> X) (a \<in> Y) n n') \<Longrightarrow> unmarked X Y gc gc'"
  unfolding unmarked_def
proof (intro conjI allI)
  assume e: "gc' = gc\<lparr>heap := heap gc'\<rparr>" and 0: "\<And>a. heap gc a = None \<Longrightarrow> heap gc' a = None"
    and 1: "\<And>a n. heap gc a = Some n \<Longrightarrow> \<exists>n'. heap gc' a = Some n' \<and> unmarked_obj (a \<in> X) (a \<in> Y) n n'"
  show "gc' = gc\<lparr>heap := heap gc'\<rparr>" by (rule e)
  fix a
  show "rel_option (unmarked_obj (a \<in> X) (a \<in> Y)) (heap gc a) (heap gc' a)"
  proof (cases "heap gc a")
    case None
    then show ?thesis using 0 by simp
  next
    case (Some n)
    then show ?thesis using 1 [OF Some] by auto
  qed
qed

lemma unmarked_heap: "unmarked X Y gc gc' \<Longrightarrow> gc' = gc\<lparr>heap := heap gc'\<rparr>"
  unfolding unmarked_def by (rule conjunct1)

lemma unmarked_trans:
  assumes "unmarked X1 Y1 gc g1" "unmarked X2 Y2 g1 g2"
  shows "unmarked (X1 \<union> X2) (Y1 \<union> Y2) gc g2"
proof (rule unmarkedI)
  show "g2 = gc\<lparr>heap := heap g2\<rparr>" using unmarked_heap [OF assms(1)] unmarked_heap [OF assms(2)] by (cases gc; cases g1; cases g2) simp
  show "heap g2 a = None" if "heap gc a = None" for a using that unmarked_None [OF assms(1)] unmarked_None [OF assms(2)] by simp
  fix a n assume n: "heap gc a = Some n"
  obtain n1 where n1: "heap g1 a = Some n1" "unmarked_obj (a \<in> X1) (a \<in> Y1) n n1" using unmarked_D [OF assms(1) n] by blast
  obtain n2 where n2: "heap g2 a = Some n2" "unmarked_obj (a \<in> X2) (a \<in> Y2) n1 n2" using unmarked_D [OF assms(2) n1(1)] by blast
  have "unmarked_obj (a \<in> X1 \<union> X2) (a \<in> Y1 \<union> Y2) n n2" using n1(2) n2(2) by (auto simp: unmarked_obj_def)
  then show "\<exists>n'. heap g2 a = Some n' \<and> unmarked_obj (a \<in> X1 \<union> X2) (a \<in> Y1 \<union> Y2) n n'" using n2(1) by blast
qed

lemma unmarked_mono: "unmarked X Y gc gc' \<Longrightarrow> Y \<subseteq> Z \<Longrightarrow> unmarked X Z gc gc'"
proof (rule unmarkedI)
  assume u: "unmarked X Y gc gc'" and s: "Y \<subseteq> Z"
  show "gc' = gc\<lparr>heap := heap gc'\<rparr>" by (rule unmarked_heap [OF u])
  show "heap gc' a = None" if "heap gc a = None" for a using unmarked_None [OF u that] .
  fix a n assume "heap gc a = Some n"
  then obtain n' where n': "heap gc' a = Some n'" "unmarked_obj (a \<in> X) (a \<in> Y) n n'" using unmarked_D [OF u] by blast
  have "unmarked_obj (a \<in> X) (a \<in> Z) n n'" using n'(2) s by (auto simp: unmarked_obj_def)
  then show "\<exists>n'. heap gc' a = Some n' \<and> unmarked_obj (a \<in> X) (a \<in> Z) n n'" using n'(1) by blast
qed

lemma unmarked_refl: "unmarked {} Y gc gc"
  by (rule unmarkedI) (simp_all add: unmarked_obj_def)

lemma unmarked_upd1:
  assumes "heap gc a = Some n" "unmarked_obj (a \<in> X) (a \<in> Y) n n'" "X \<subseteq> {a}"
  shows "unmarked X Y gc (gc\<lparr>heap := (heap gc)(a \<mapsto> n')\<rparr>)"
proof (rule unmarkedI)
  show "heap (gc\<lparr>heap := (heap gc)(a \<mapsto> n')\<rparr>) b = None" if "heap gc b = None" for b using that assms(1) by auto
  fix b k assume k: "heap gc b = Some k"
  show "\<exists>k'. heap (gc\<lparr>heap := (heap gc)(a \<mapsto> n')\<rparr>) b = Some k' \<and> unmarked_obj (b \<in> X) (b \<in> Y) k k'"
  proof (cases "b = a")
    case True
    then show ?thesis using assms k by simp
  next
    case False
    then have "b \<notin> X" using assms(3) by blast
    then show ?thesis using False k by (simp add: unmarked_obj_def)
  qed
qed simp

lemma unmarked_upd:
  assumes "heap gc a = Some n"
  shows "unmarked {} {a} gc (gc\<lparr>heap := (heap gc)(a \<mapsto> n\<lparr>next_of := x\<rparr>)\<rparr>)"
    "unmarked {a} {} gc (gc\<lparr>heap := (heap gc)(a \<mapsto> n\<lparr>mark_of := FKL_MARK_W\<rparr>)\<rparr>)"
  by (rule unmarked_upd1 [OF assms], simp_all add: unmarked_obj_def obj_rest_def)+

lemma unmarked_same: "unmarked X Y gc gc' \<Longrightarrow> set as \<inter> Y = {} \<Longrightarrow> lseg next_of (heap gc) p as q \<Longrightarrow> lseg next_of (heap gc') p as q"
proof (rule lseg_cong)
  fix a assume u: "unmarked X Y gc gc'" and d: "set as \<inter> Y = {}" and a: "a \<in> set as"
  show "map_option next_of (heap gc' a) = map_option next_of (heap gc a)"
  proof (cases "heap gc a")
    case None
    then show ?thesis using unmarked_None [OF u] by simp
  next
    case (Some n)
    have "a \<notin> Y" using a d by blast
    then show ?thesis using unmarked_D [OF u Some] Some by (auto simp: unmarked_obj_def)
  qed
qed

lemma unmarked_white: "unmarked X Y gc gc' \<Longrightarrow> a \<notin> X \<Longrightarrow> white gc' a = white gc a"
proof -
  assume u: "unmarked X Y gc gc'" and a: "a \<notin> X"
  show ?thesis
  proof (cases "heap gc a")
    case None
    then show ?thesis using unmarked_None [OF u] by (simp add: white_def)
  next
    case (Some n)
    then show ?thesis using unmarked_D [OF u Some] a by (auto simp: white_def unmarked_obj_def)
  qed
qed

lemma unmarked_insert_white:
  assumes u: "unmarked X Y gc gc'" and n: "heap gc a = Some n" "mark_of n = FKL_MARK_W"
  shows "unmarked (insert a X) Y gc gc'"
proof (rule unmarkedI)
  show "gc' = gc\<lparr>heap := heap gc'\<rparr>" by (rule unmarked_heap [OF u])
  show "heap gc' b = None" if "heap gc b = None" for b using unmarked_None [OF u that] .
  fix b k assume k: "heap gc b = Some k"
  then obtain k' where k': "heap gc' b = Some k'" "unmarked_obj (b \<in> X) (b \<in> Y) k k'" using unmarked_D [OF u] by blast
  have "unmarked_obj (b \<in> insert a X) (b \<in> Y) k k'" using k'(2) k n by (auto simp: unmarked_obj_def)
  then show "\<exists>k'. heap gc' b = Some k' \<and> unmarked_obj (b \<in> insert a X) (b \<in> Y) k k'" using k'(1) by blast
qed

text \<open>The loop splits the list into the objects that stay, in their order, and the white ones.\<close>

definition collected :: "'d gcst \<Rightarrow> nat option \<Rightarrow> ncell \<Rightarrow> nat list \<Rightarrow> nat list \<Rightarrow> 'd gcst \<times> nat option \<times> nat option \<times> ncell \<Rightarrow> bool" where
  "collected gc hp c xs ws r \<longleftrightarrow> (case r of (gc', hp', pw', c') \<Rightarrow>
     unmarked (set xs) (ncell_set c \<union> set xs) gc gc' \<and> (c \<noteq> HeadVar \<longrightarrow> hp' = hp)
   \<and> (\<exists>p. read_ncell gc' hp' c = Some p \<and> lseg next_of (heap gc') p (filter (\<lambda>a. \<not> white gc a) xs) None)
   \<and> lseg next_of (heap gc') pw' (rev (filter (white gc) xs) @ ws) None \<and> read_ncell gc' hp' c' = Some None)"

lemma collectedI:
  assumes "unmarked (set xs) (ncell_set c \<union> set xs) gc gc'" "c \<noteq> HeadVar \<longrightarrow> hp' = hp" "read_ncell gc' hp' c = Some p"
    "lseg next_of (heap gc') p (filter (\<lambda>a. \<not> white gc a) xs) None"
    "lseg next_of (heap gc') pw' (rev (filter (white gc) xs) @ ws) None" "read_ncell gc' hp' c' = Some None"
  shows "collected gc hp c xs ws (gc', hp', pw', c')"
  unfolding collected_def prod.case using assms by blast

lemma collectedE:
  assumes "collected gc hp c xs ws r"
  obtains gc' hp' pw' c' p where "r = (gc', hp', pw', c')" "unmarked (set xs) (ncell_set c \<union> set xs) gc gc'"
    "c \<noteq> HeadVar \<longrightarrow> hp' = hp" "read_ncell gc' hp' c = Some p" "lseg next_of (heap gc') p (filter (\<lambda>a. \<not> white gc a) xs) None"
    "lseg next_of (heap gc') pw' (rev (filter (white gc) xs) @ ws) None" "read_ncell gc' hp' c' = Some None"
proof -
  obtain gc' hp' pw' c' where r: "r = (gc', hp', pw', c')" by (cases r)
  show thesis using assms that r unfolding collected_def r prod.case by blast
qed

lemma wp_collect_loop:
  assumes "read_ncell gc hp c = Some p" "lseg next_of (heap gc) p xs None" "lseg next_of (heap gc) pw ws None"
    "distinct (xs @ ws)" "ncell_set c \<inter> (set xs \<union> set ws) = {}"
  shows "wp (collect_loop gc hp pw c) (collected gc hp c xs ws)"
  using assms
proof (induction xs arbitrary: gc hp pw c p ws)
  case Nil
  then have "collect_loop gc hp pw c = Some (gc, hp, pw, c)" by (simp add: collect_loop.simps [of gc hp pw c])
  moreover have "unmarked {} (ncell_set c) gc gc" by (rule unmarked_refl)
  ultimately show ?case using Nil by (simp add: collected_def)
next
  case (Cons a xs)
  obtain n where n: "p = Some a" "heap gc a = Some n" "lseg next_of (heap gc) (next_of n) xs None" using Cons.prems(2) by auto
  have d: "a \<notin> set xs" "a \<notin> set ws" "distinct (xs @ ws)" "a \<notin> ncell_set c" "ncell_set c \<inter> set xs = {}" "ncell_set c \<inter> set ws = {}"
    using Cons.prems(4,5) by auto
  show ?case
  proof (cases "mark_of n = FKL_MARK_W")
    case True
    then have wa: "white gc a" using n(2) by (simp add: white_def)
    obtain g1 hp1 where g1: "write_ncell gc hp c (next_of n) = Some (g1, hp1)" "unmarked {} (ncell_set c) gc g1"
      "read_ncell g1 hp1 c = Some (next_of n)" "c \<noteq> HeadVar \<longrightarrow> hp1 = hp" "heap g1 a = Some n"
    proof (cases c)
      case HeadVar
      have "unmarked {} {} gc gc" by (rule unmarked_refl)
      then show thesis using HeadVar that [of gc "next_of n"] n by (simp add: write_ncell_def ncell_set_def read_ncell_def)
    next
      case (NextOf b)
      obtain m where m: "heap gc b = Some m" using Cons.prems(1) NextOf by (cases "heap gc b") (auto simp: read_ncell_def)
      have "b \<noteq> a" using d(4) NextOf by (simp add: ncell_set_def)
      then show thesis using NextOf m that [of "gc\<lparr>heap := (heap gc)(b \<mapsto> m\<lparr>next_of := next_of n\<rparr>)\<rparr>" hp] unmarked_upd(1) [OF m] n
        by (simp add: write_ncell_def ncell_set_def read_ncell_def)
    qed
    define g2 where "g2 = g1\<lparr>heap := (heap g1)(a \<mapsto> n\<lparr>next_of := pw\<rparr>)\<rparr>"
    have u12: "unmarked {} {a} g1 g2" unfolding g2_def by (rule unmarked_upd(1) [OF g1(5)])
    have u2: "unmarked {} (ncell_set c \<union> {a}) gc g2" using unmarked_trans [OF g1(2) u12] by simp
    have step: "collect_loop gc hp pw c = collect_loop g2 hp1 (Some a) c"
      using Cons.prems(1) n True g1(1,5) by (simp add: collect_loop.simps [of gc hp pw c] g2_def)
    have rc: "read_ncell g2 hp1 c = Some (next_of n)" using g1(3) d(4) by (cases c) (auto simp: read_ncell_def g2_def ncell_set_def)
    have lx: "lseg next_of (heap g2) (next_of n) xs None" by (rule unmarked_same [OF u2 _ n(3)]) (use d in auto)
    have lw: "lseg next_of (heap g2) pw ws None" by (rule unmarked_same [OF u2 _ Cons.prems(3)]) (use d in auto)
    have lw2: "lseg next_of (heap g2) (Some a) (a # ws) None" using lw by (simp add: g2_def)
    have "wp (collect_loop g2 hp1 (Some a) c) (collected g2 hp1 c xs (a # ws))"
      by (rule Cons.IH [OF rc lx lw2]) (use d in auto)
    then show ?thesis unfolding step
    proof (rule wp_mono)
      fix r assume r: "collected g2 hp1 c xs (a # ws) r"
      have wh: "white g2 = white gc" by (rule ext, rule unmarked_white [OF u2]) simp
      show "collected gc hp c (a # xs) ws r"
      proof (rule collectedE [OF r])
        fix g' hp' pw' c' q
        assume D: "r = (g', hp', pw', c')" "unmarked (set xs) (ncell_set c \<union> set xs) g2 g'" "c \<noteq> HeadVar \<longrightarrow> hp' = hp1"
          "read_ncell g' hp' c = Some q" "lseg next_of (heap g') q (filter (\<lambda>a. \<not> white g2 a) xs) None"
          "lseg next_of (heap g') pw' (rev (filter (white g2) xs) @ a # ws) None" "read_ncell g' hp' c' = Some None"
        have un1: "unmarked (insert a ({} \<union> set xs)) ((ncell_set c \<union> {a}) \<union> (ncell_set c \<union> set xs)) gc g'"
          by (rule unmarked_insert_white [OF unmarked_trans [OF u2 D(2)] n(2) True])
        show ?thesis unfolding D(1)
        proof (rule collectedI [OF _ _ D(4) _ _ D(7)])
          have "insert a ({} \<union> set xs) = set (a # xs)" "(ncell_set c \<union> {a}) \<union> (ncell_set c \<union> set xs) = ncell_set c \<union> set (a # xs)" by auto
          then show "unmarked (set (a # xs)) (ncell_set c \<union> set (a # xs)) gc g'" using un1 by metis
          show "c \<noteq> HeadVar \<longrightarrow> hp' = hp" using D(3) g1(4) by blast
          show "lseg next_of (heap g') q (filter (\<lambda>b. \<not> white gc b) (a # xs)) None" using D(5) wa unfolding wh by simp
          show "lseg next_of (heap g') pw' (rev (filter (white gc) (a # xs)) @ ws) None" using D(6) wa unfolding wh by simp
        qed
      qed
    qed
  next
    case False
    then have wa: "\<not> white gc a" using n(2) by (simp add: white_def)
    define g1 where "g1 = gc\<lparr>heap := (heap gc)(a \<mapsto> n\<lparr>mark_of := FKL_MARK_W\<rparr>)\<rparr>"
    have u1: "unmarked {a} {} gc g1" unfolding g1_def by (rule unmarked_upd(2) [OF n(2)])
    have step: "collect_loop gc hp pw c = collect_loop g1 hp pw (NextOf a)"
      using Cons.prems(1) n False by (simp add: collect_loop.simps [of gc hp pw c] g1_def)
    have ca: "ncell_set (NextOf a) = {a}" by (simp add: ncell_set_def)
    have rc: "read_ncell g1 hp (NextOf a) = Some (next_of n)" by (simp add: read_ncell_def g1_def)
    have lx: "lseg next_of (heap g1) (next_of n) xs None" by (rule unmarked_same [OF u1 _ n(3)]) simp
    have lw: "lseg next_of (heap g1) pw ws None" by (rule unmarked_same [OF u1 _ Cons.prems(3)]) simp
    have "wp (collect_loop g1 hp pw (NextOf a)) (collected g1 hp (NextOf a) xs ws)"
      by (rule Cons.IH [OF rc lx lw]) (use d ca in auto)
    then show ?thesis unfolding step
    proof (rule wp_mono)
      fix r assume r: "collected g1 hp (NextOf a) xs ws r"
      have wh: "white g1 b = white gc b" if "b \<noteq> a" for b by (rule unmarked_white [OF u1]) (use that in simp)
      have fx: "filter (\<lambda>b. \<not> white g1 b) xs = filter (\<lambda>b. \<not> white gc b) xs" "filter (white g1) xs = filter (white gc) xs"
        using wh d(1) by (metis (mono_tags, lifting) filter_cong)+
      show "collected gc hp c (a # xs) ws r"
      proof (rule collectedE [OF r])
        fix g' hp' pw' c' q
        assume D: "r = (g', hp', pw', c')" "unmarked (set xs) (ncell_set (NextOf a) \<union> set xs) g1 g'" "NextOf a \<noteq> HeadVar \<longrightarrow> hp' = hp"
          "read_ncell g' hp' (NextOf a) = Some q" "lseg next_of (heap g') q (filter (\<lambda>a. \<not> white g1 a) xs) None"
          "lseg next_of (heap g') pw' (rev (filter (white g1) xs) @ ws) None" "read_ncell g' hp' c' = Some None"
        have hp': "hp' = hp" using D(3) by blast
        have rp: "read_ncell g' hp' c = Some p"
        proof (cases c)
          case HeadVar
          then show ?thesis using Cons.prems(1) hp' by (simp add: read_ncell_def)
        next
          case (NextOf b)
          obtain m where m: "heap gc b = Some m" "next_of m = p" using Cons.prems(1) NextOf by (cases "heap gc b") (auto simp: read_ncell_def)
          have b: "b \<noteq> a" "b \<notin> set xs" using d NextOf by (auto simp: ncell_set_def)
          have g1b: "heap g1 b = Some m" using m b by (simp add: g1_def)
          obtain m' where m': "heap g' b = Some m'" "unmarked_obj (b \<in> set xs) (b \<in> ncell_set (NextOf a) \<union> set xs) m m'"
            using unmarked_D [OF D(2) g1b] by blast
          then have "next_of m' = p" using b m(2) by (auto simp: unmarked_obj_def ca)
          then show ?thesis using NextOf m'(1) by (simp add: read_ncell_def)
        qed
        obtain n' where n': "heap g' a = Some n'" "next_of n' = q" using D(4) by (cases "heap g' a") (auto simp: read_ncell_def)
        show ?thesis unfolding D(1)
        proof (rule collectedI [OF _ _ rp _ _ D(7)])
          have e: "{a} \<union> set xs = set (a # xs)" by auto
          show "unmarked (set (a # xs)) (ncell_set c \<union> set (a # xs)) gc g'"
            using unmarked_mono [OF unmarked_trans [OF u1 D(2)], of "ncell_set c \<union> set (a # xs)"] unfolding e ca by blast
          show "c \<noteq> HeadVar \<longrightarrow> hp' = hp" using hp' by blast
          show "lseg next_of (heap g') p (filter (\<lambda>b. \<not> white gc b) (a # xs)) None" using n(1) n' D(5) wa fx(1) by simp
          show "lseg next_of (heap g') pw' (rev (filter (white gc) (a # xs)) @ ws) None" using D(6) wa fx(2) by simp
        qed
      qed
    qed
  qed
qed


lemma write_ncell_same: "read_ncell gc hp c = Some p \<Longrightarrow> write_ncell gc hp c p = Some (gc, hp)"
proof (cases c)
  case (NextOf a)
  assume "read_ncell gc hp c = Some p"
  then obtain n where n: "heap gc a = Some n" "next_of n = p" using NextOf by (cases "heap gc a") (auto simp: read_ncell_def)
  have "n\<lparr>next_of := p\<rparr> = n" using n(2) by (cases n) simp
  then have "gc\<lparr>heap := (heap gc)(a \<mapsto> n\<lparr>next_of := p\<rparr>)\<rparr> = gc" using n(1) by (cases gc) (simp add: fun_upd_idem)
  then show ?thesis using NextOf n(1) by (simp add: write_ncell_def)
qed (simp_all add: write_ncell_def read_ncell_def)

text \<open>\<open>fklVMgcCollect\<close>: the list of all objects keeps those that were marked.\<close>

definition split_list_of :: "'d gcst \<Rightarrow> nat list \<Rightarrow> 'd gcst \<times> nat option \<Rightarrow> bool" where
  "split_list_of gc xs r \<longleftrightarrow> (case r of (gc', pw') \<Rightarrow>
     gc' = gc\<lparr>heap := heap gc', gc_head := gc_head gc'\<rparr>
   \<and> (\<forall>a. rel_option (unmarked_obj (a \<in> set xs) (a \<in> set xs)) (heap gc a) (heap gc' a))
   \<and> lseg next_of (heap gc') (gc_head gc') (filter (\<lambda>a. \<not> white gc a) xs) None
   \<and> lseg next_of (heap gc') pw' (rev (filter (white gc) xs)) None)"

lemma wp_Collect:
  assumes l: "lseg next_of (heap gc) (gc_head gc) xs None" and d: "distinct xs"
  shows "wp (fklVMgcCollect gc None) (split_list_of gc xs)"
proof -
  let ?gc = "gc\<lparr>gc_head := None\<rparr>"
  have wh: "white ?gc = white gc" by (intro ext) (simp add: white_def)
  have r0: "read_ncell ?gc (gc_head gc) HeadVar = Some (gc_head gc)" by (simp add: read_ncell_def)
  have l0: "lseg next_of (heap ?gc) (gc_head gc) xs None" "lseg next_of (heap ?gc) None [] None" using l by simp_all
  have "wp (collect_loop ?gc (gc_head gc) None HeadVar) (collected ?gc (gc_head gc) HeadVar xs [])"
    by (rule wp_collect_loop [OF r0 l0]) (use d in \<open>auto simp: ncell_set_def\<close>)
  then obtain r where r: "collect_loop ?gc (gc_head gc) None HeadVar = Some r" "collected ?gc (gc_head gc) HeadVar xs [] r" by (rule wpE)
  show ?thesis
  proof (rule collectedE [OF r(2)])
    fix g hp' pw' c' p
    assume D: "r = (g, hp', pw', c')" "unmarked (set xs) (ncell_set HeadVar \<union> set xs) ?gc g" "HeadVar \<noteq> HeadVar \<longrightarrow> hp' = gc_head gc"
      "read_ncell g hp' HeadVar = Some p" "lseg next_of (heap g) p (filter (\<lambda>a. \<not> white ?gc a) xs) None"
      "lseg next_of (heap g) pw' (rev (filter (white ?gc) xs) @ []) None" "read_ncell g hp' c' = Some None"
    have hd: "gc_head g = None" by (subst unmarked_heap [OF D(2)]) simp
    have w: "write_ncell g hp' c' (gc_head g) = Some (g, hp')" unfolding hd by (rule write_ncell_same [OF D(7)])
    let ?g = "g\<lparr>gc_head := hp'\<rparr>"
    have run: "fklVMgcCollect gc None = Some (?g, pw')" using r(1) D(1) w by (simp add: fklVMgcCollect_def)
    have p: "p = hp'" using D(4) by (simp add: read_ncell_def)
    have "g\<lparr>gc_head := hp'\<rparr> = gc\<lparr>heap := heap g, gc_head := hp'\<rparr>" by (subst unmarked_heap [OF D(2)]) simp
    then have e: "?g = gc\<lparr>heap := heap ?g, gc_head := gc_head ?g\<rparr>" by simp
    have o: "\<forall>a. rel_option (unmarked_obj (a \<in> set xs) (a \<in> set xs)) (heap gc a) (heap ?g a)"
      using D(2) unfolding unmarked_def by (simp add: ncell_set_def)
    have "split_list_of gc xs (?g, pw')" unfolding split_list_of_def prod.case
      by (intro conjI e o) (use D(5,6) p wh in simp_all)
    then show ?thesis using run by simp
  qed
qed

section \<open>Sweeping\<close>

text \<open>The finalizer of the type of \<open>a\<close> keeps it.\<close>

definition delays :: "'d callbacks \<Rightarrow> 'd gcst \<Rightarrow> nat \<Rightarrow> bool" where
  "delays cbs gc a \<longleftrightarrow> (\<exists>n tp u. heap gc a = Some n \<and> body n = VmUd tp u \<and> finalize_ud cbs tp u gc = Some True)"

definition size_of :: "'d gcst \<Rightarrow> nat \<Rightarrow> u64" where
  "size_of gc a = (case heap gc a of None \<Rightarrow> 0 | Some n \<Rightarrow> zsize n)"

text \<open>The types of the objects on the list of white objects are not on the list.\<close>

definition types_outlive :: "'d gcst \<Rightarrow> nat set \<Rightarrow> bool" where
  "types_outlive gc W \<longleftrightarrow> (\<forall>a \<in> W. \<forall>n tp u. heap gc a = Some n \<longrightarrow> body n = VmUd tp u \<longrightarrow> tp \<notin> W \<and> meta_of gc tp \<noteq> None)"

definition swept :: "'d callbacks \<Rightarrow> 'd gcst \<Rightarrow> nat list \<Rightarrow> 'd gcst \<Rightarrow> bool" where
  "swept cbs gc ws gc' \<longleftrightarrow> gc' = gc\<lparr>heap := heap gc', alloced_size := alloced_size gc'\<rparr>
   \<and> (\<forall>a. a \<notin> set ws \<longrightarrow> heap gc' a = heap gc a)
   \<and> (\<forall>a \<in> set ws. heap gc' a = (if delays cbs gc a then map_option (\<lambda>n. n\<lparr>next_of := None\<rparr>) (heap gc a) else None))
   \<and> alloced_size gc' = alloced_size gc - sum_list (map (size_of gc) (filter (\<lambda>a. \<not> delays cbs gc a) ws))"

lemma finalize_meta: "meta_of gc' tp = meta_of gc tp \<Longrightarrow> finalize_ud cbs tp u gc' = finalize_ud cbs tp u gc"
  by (simp add: finalize_ud_def)

lemma finalize_total: "meta_of gc tp \<noteq> None \<Longrightarrow> \<exists>b. finalize_ud cbs tp u gc = Some b"
  by (auto simp: finalize_ud_def)

lemma wp_destroy:
  assumes n: "heap gc a = Some n" and t: "\<And>tp u. body n = VmUd tp u \<Longrightarrow> meta_of gc tp \<noteq> None"
  shows "destroy_vm_value cbs gc a = Some (if delays cbs gc a then gc
    else gc\<lparr>alloced_size := alloced_size gc - zsize n, heap := (heap gc)(a := None)\<rparr>)"
proof (cases "\<exists>tp u. body n = VmUd tp u")
  case True
  then obtain tp u where u: "body n = VmUd tp u" by blast
  obtain b where b: "finalize_ud cbs tp u gc = Some b" using finalize_total [OF t [OF u]] by blast
  have "delays cbs gc a = b" using n u b by (simp add: delays_def)
  then show ?thesis using n u b by (simp add: destroy_vm_value_def)
next
  case False
  then have nd: "\<not> delays cbs gc a" using n by (simp add: delays_def)
  have "(case body n of VmUd tp u \<Rightarrow> finalize_ud cbs tp u gc | _ \<Rightarrow> Some False) = Some False"
    using False by (cases "body n") auto
  then show ?thesis using n nd by (simp add: destroy_vm_value_def)
qed


lemma meta_of_upd: "tp \<noteq> a \<Longrightarrow> meta_of (gc\<lparr>heap := (heap gc)(a := x)\<rparr>) tp = meta_of gc tp"
  "tp \<noteq> a \<Longrightarrow> meta_of (gc\<lparr>alloced_size := s, heap := (heap gc)(a := x)\<rparr>) tp = meta_of gc tp"
  by (simp_all add: meta_of_def)

lemma delays_cong:
  assumes "map_option body (heap gc' a) = map_option body (heap gc a)"
    "\<And>n tp u. heap gc a = Some n \<Longrightarrow> body n = VmUd tp u \<Longrightarrow> meta_of gc' tp = meta_of gc tp"
  shows "delays cbs gc' a = delays cbs gc a"
proof (cases "heap gc a")
  case None
  then show ?thesis using assms(1) by (simp add: delays_def)
next
  case (Some n)
  then obtain n' where n': "heap gc' a = Some n'" "body n' = body n" using assms(1) by auto
  have "finalize_ud cbs tp u gc' = finalize_ud cbs tp u gc" if "body n = VmUd tp u" for tp u
    by (rule finalize_meta [OF assms(2) [OF Some that]])
  then show ?thesis using Some n' unfolding delays_def by auto
qed

lemma wp_Sweep:
  assumes "lseg next_of (heap gc) hp ws None" "distinct ws" "types_outlive gc (set ws)"
  shows "wp (fklVMgcSweep cbs gc hp) (swept cbs gc ws)"
  using assms
proof (induction ws arbitrary: gc hp)
  case Nil
  then have "fklVMgcSweep cbs gc hp = Some gc" by (subst fklVMgcSweep.simps) simp
  then show ?case by (simp add: swept_def)
next
  case (Cons a ws)
  obtain n where n: "hp = Some a" "heap gc a = Some n" "lseg next_of (heap gc) (next_of n) ws None" using Cons.prems(1) by auto
  have d: "a \<notin> set ws" "distinct ws" using Cons.prems(2) by simp_all
  have t: "tp \<noteq> a \<and> tp \<notin> set ws \<and> meta_of gc tp \<noteq> None" if "b \<in> insert a (set ws)" "heap gc b = Some m" "body m = VmUd tp u" for b m tp u
    using Cons.prems(3) [unfolded types_outlive_def, rule_format, of b m tp u] that by simp
  define g1 where "g1 = gc\<lparr>heap := (heap gc)(a \<mapsto> n\<lparr>next_of := None\<rparr>)\<rparr>"
  have m1: "meta_of g1 tp = meta_of gc tp" if "tp \<noteq> a" for tp unfolding g1_def by (rule meta_of_upd(1) [OF that])
  have n1: "heap g1 a = Some (n\<lparr>next_of := None\<rparr>)" by (simp add: g1_def)
  have da: "delays cbs g1 a = delays cbs gc a"
  proof (rule delays_cong)
    show "map_option body (heap g1 a) = map_option body (heap gc a)" using n(2) n1 by simp
    show "meta_of g1 tp = meta_of gc tp" if "heap gc a = Some m" "body m = VmUd tp u" for m tp u
      by (rule m1) (use t [of a, OF _ that] in blast)
  qed
  define g2 where "g2 = (if delays cbs gc a then g1 else g1\<lparr>alloced_size := alloced_size g1 - zsize n, heap := (heap g1)(a := None)\<rparr>)"
  have de: "destroy_vm_value cbs g1 a = Some g2"
  proof -
    have "meta_of g1 tp \<noteq> None" if "body (n\<lparr>next_of := None\<rparr>) = VmUd tp u" for tp u
    proof -
      have "body n = VmUd tp u" using that by simp
      from t [OF _ n(2) this] have "tp \<noteq> a" "meta_of gc tp \<noteq> None" by blast+
      then show ?thesis using m1 by metis
    qed
    then show ?thesis using wp_destroy [OF n1, of cbs] unfolding g2_def da by simp
  qed
  have step: "fklVMgcSweep cbs gc hp = fklVMgcSweep cbs g2 (next_of n)"
    unfolding n(1) using n(2) de [unfolded g1_def] by (subst fklVMgcSweep.simps) simp
  have h2: "heap g2 b = heap gc b" if "b \<noteq> a" for b using that by (simp add: g2_def g1_def)
  have m2: "meta_of g2 tp = meta_of gc tp" if "tp \<noteq> a" for tp unfolding meta_of_def h2 [OF that] ..
  have l2: "lseg next_of (heap g2) (next_of n) ws None"
  proof (rule lseg_cong [OF _ n(3)])
    fix b assume "b \<in> set ws"
    then have "b \<noteq> a" using d(1) by blast
    then show "map_option next_of (heap g2 b) = map_option next_of (heap gc b)" by (simp add: h2)
  qed
  have t2: "types_outlive g2 (set ws)" unfolding types_outlive_def
  proof (intro ballI allI impI)
    fix b m tp u assume b: "b \<in> set ws" "heap g2 b = Some m" "body m = VmUd tp u"
    have "b \<noteq> a" using b(1) d(1) by blast
    then have "heap gc b = Some m" using h2 b(2) by simp
    from t [OF _ this b(3)] b(1) have "tp \<noteq> a" "tp \<notin> set ws" "meta_of gc tp \<noteq> None" by blast+
    then show "tp \<notin> set ws \<and> meta_of g2 tp \<noteq> None" using m2 by metis
  qed
  have dl: "delays cbs g2 b = delays cbs gc b" if "b \<in> set ws" for b
  proof (rule delays_cong)
    have "b \<noteq> a" using that d(1) by blast
    then show "map_option body (heap g2 b) = map_option body (heap gc b)" using h2 by simp
    show "meta_of g2 tp = meta_of gc tp" if "heap gc b = Some m" "body m = VmUd tp u" for m tp u
      using m2 t [of b m tp u] that \<open>b \<in> set ws\<close> by blast
  qed
  have sz: "size_of g2 b = size_of gc b" if "b \<in> set ws" for b
  proof -
    have "b \<noteq> a" using that d(1) by blast
    then show ?thesis by (simp add: h2 size_of_def)
  qed
  have fs: "map (size_of g2) (filter (\<lambda>b. \<not> delays cbs g2 b) ws) = map (size_of gc) (filter (\<lambda>b. \<not> delays cbs gc b) ws)"
    using dl sz by (simp cong: filter_cong)
  have as2: "alloced_size g2 = alloced_size gc - (if delays cbs gc a then 0 else zsize n)" by (simp add: g2_def g1_def)
  have ga: "heap g2 a = (if delays cbs gc a then Some (n\<lparr>next_of := None\<rparr>) else None)" by (simp add: g2_def g1_def)
  have "wp (fklVMgcSweep cbs g2 (next_of n)) (swept cbs g2 ws)" by (rule Cons.IH [OF l2 d(2) t2])
  then show ?case unfolding step
  proof (rule wp_mono)
    fix r assume r: "swept cbs g2 ws r"
    have e: "r = g2\<lparr>heap := heap r, alloced_size := alloced_size r\<rparr>" using r unfolding swept_def by (rule conjunct1)
    have o: "heap r b = heap g2 b" if "b \<notin> set ws" for b using r that unfolding swept_def by blast
    have w: "heap r b = (if delays cbs g2 b then map_option (\<lambda>n. n\<lparr>next_of := None\<rparr>) (heap g2 b) else None)" if "b \<in> set ws" for b
      using r that unfolding swept_def by blast
    have s: "alloced_size r = alloced_size g2 - sum_list (map (size_of g2) (filter (\<lambda>b. \<not> delays cbs g2 b) ws))"
      using r unfolding swept_def by blast
    show "swept cbs gc (a # ws) r" unfolding swept_def
    proof (intro conjI allI impI ballI)
      show "r = gc\<lparr>heap := heap r, alloced_size := alloced_size r\<rparr>" by (subst e) (simp add: g2_def g1_def)
      show "heap r b = heap gc b" if "b \<notin> set (a # ws)" for b using o [of b] h2 [of b] that by simp
      show "heap r b = (if delays cbs gc b then map_option (\<lambda>n. n\<lparr>next_of := None\<rparr>) (heap gc b) else None)" if "b \<in> set (a # ws)" for b
      proof (cases "b = a")
        case True
        then show ?thesis using o [OF d(1)] ga n(2) by simp
      next
        case False
        then show ?thesis using w [of b] that h2 [OF False] dl [of b] by simp
      qed
      show "alloced_size r = alloced_size gc - sum_list (map (size_of gc) (filter (\<lambda>b. \<not> delays cbs gc b) (a # ws)))"
        using s n(2) unfolding fs as2 by (simp add: size_of_def)
    qed
  qed
qed

end
