(* ===== verification/GcMove.thy ===== *)
theory GcMove
  imports GcSweep
begin

text \<open>
  The state between two collections, as an invariant, and the first step of a collection: the objects of
  the machines move to the list of the collector.
\<close>

section \<open>States with the same graph of objects\<close>

definition same_graph :: "'d gcst \<Rightarrow> 'd gcst \<Rightarrow> bool" where
  "same_graph gc gc' \<longleftrightarrow> (\<forall>a. map_option body (heap gc' a) = map_option body (heap gc a))
     \<and> map stack (machines gc') = map stack (machines gc)"

lemma same_graph_body: "same_graph gc gc' \<Longrightarrow> map_option body (heap gc' a) = map_option body (heap gc a)"
  by (simp add: same_graph_def)

lemma same_graph_trans: "same_graph gc gc1 \<Longrightarrow> same_graph gc1 gc2 \<Longrightarrow> same_graph gc gc2"
  by (simp add: same_graph_def)

lemma same_graph_meta: "same_graph gc gc' \<Longrightarrow> meta_of gc' tp = meta_of gc tp"
  using same_graph_body [of gc gc' tp] by (cases "heap gc tp"; cases "heap gc' tp") (auto simp: meta_of_def)

lemma rd_map: "rd (map f xs) i = map_option f (rd xs i)"
  by (simp add: rd_def)

lemma ref_value_machines: "ref_value gc r = (case r of Closed p \<Rightarrow> Some p | Open i j \<Rightarrow> do { st \<leftarrow> rd (map stack (machines gc)) i; rd st j })"
proof (cases r)
  case (Open i j)
  show ?thesis unfolding Open ref_value_def rd_map machines_def [symmetric]
    by (cases "rd (machines gc) i") simp_all
qed (simp add: ref_value_def)

lemma same_graph_ref: "same_graph gc gc' \<Longrightarrow> ref_value gc' r = ref_value gc r"
  unfolding ref_value_machines same_graph_def by (simp split: refcell.split)

lemma same_graph_kids: "same_graph gc gc' \<Longrightarrow> kids cbs gc' a = kids cbs gc a"
  using same_graph_body [of gc gc' a]
  by (cases "heap gc a"; cases "heap gc' a") (auto simp: kids_def same_graph_meta same_graph_ref split: body.splits)

lemma same_graph_weak: "same_graph gc gc' \<Longrightarrow> weak_ptrs gc' a = weak_ptrs gc a"
  using same_graph_body [of gc gc' a]
  by (cases "heap gc a"; cases "heap gc' a") (auto simp: weak_ptrs_def split: body.splits udata.splits)

lemma same_graph_typed: "same_graph gc gc' \<Longrightarrow> obj_typed gc' a = obj_typed gc a"
  using same_graph_body [of gc gc' a]
  by (cases "heap gc a"; cases "heap gc' a") (auto simp: obj_typed_def same_graph_meta same_graph_ref split: body.splits)

lemma same_graph_closed: "same_graph gc gc' \<Longrightarrow> closed_heap cbs L S gc' = closed_heap cbs L S gc"
  by (simp add: closed_heap_def same_graph_typed same_graph_kids)

lemma same_graph_as_pair: "same_graph gc gc' \<Longrightarrow> as_pair gc' p = as_pair gc p"
proof (cases p)
  case (PObj a)
  assume "same_graph gc gc'"
  then show ?thesis using same_graph_body [of gc gc' a] PObj
    by (cases "heap gc a"; cases "heap gc' a") (auto simp: as_pair_def)
qed (simp_all add: as_pair_def)

lemma same_graph_is_closed: "same_graph gc gc' \<Longrightarrow> is_closed_var_ref gc' p = is_closed_var_ref gc p"
proof (cases p)
  case (PObj a)
  assume "same_graph gc gc'"
  then show ?thesis using same_graph_body [of gc gc' a] PObj
    by (cases "heap gc a"; cases "heap gc' a") (auto simp: is_closed_var_ref_def)
qed (simp_all add: is_closed_var_ref_def)

lemma same_graph_plist: "same_graph gc gc' \<Longrightarrow> plist gc p xs \<Longrightarrow> plist gc' p xs"
proof (induction xs arbitrary: p)
  case Nil
  then show ?case using same_graph_as_pair [OF Nil.prems(1), of p] by simp
next
  case (Cons a xs)
  then obtain n x d where n: "p = PObj a" "heap gc a = Some n" "body n = VmPair x d" "is_closed_var_ref gc x \<noteq> None" "plist gc d xs" by auto
  obtain n' where n': "heap gc' a = Some n'" "body n' = body n" using same_graph_body [OF Cons.prems(1), of a] n(2) by auto
  have "is_closed_var_ref gc' x \<noteq> None" using n(4) unfolding same_graph_is_closed [OF Cons.prems(1)] .
  then show ?case using Cons.IH [OF Cons.prems(1) n(5)] n(1,3) n' by simp
qed

lemma same_graph_lists: "same_graph gc gc' \<Longrightarrow> frame_lists gc fs xs \<Longrightarrow> frame_lists gc' fs xs"
proof -
  assume s: "same_graph gc gc'" and f: "frame_lists gc fs xs"
  then obtain xss where xss: "list_all2 (frame_list gc) fs xss" "xs = concat xss" "distinct xs" by (auto simp: frame_lists_def)
  have "list_all2 (frame_list gc') fs xss"
    by (rule list.rel_mono_strong [OF xss(1)]) (auto simp: frame_list_def same_graph_plist [OF s] split: frame.splits)
  then show ?thesis using xss(2,3) by (auto simp: frame_lists_def)
qed

section \<open>The lists of objects\<close>

definition vm_list :: "'d gcst \<Rightarrow> 'd vm \<Rightarrow> nat list \<Rightarrow> bool" where
  "vm_list gc v ys \<longleftrightarrow> lseg next_of (heap gc) (obj_head v) ys None \<and> obj_tail v = (if ys = [] then None else Some (last ys))"

text \<open>The list of the collector and the lists of all machines.\<close>

definition obj_lists :: "'d gcst \<Rightarrow> nat list \<Rightarrow> bool" where
  "obj_lists gc xs \<longleftrightarrow> (\<exists>x0 xss. lseg next_of (heap gc) (gc_head gc) x0 None \<and> list_all2 (vm_list gc) (machines gc) xss
     \<and> xs = x0 @ concat xss) \<and> distinct xs"

text \<open>\<open>gc'\<close> is \<open>gc\<close> with some \<open>next\<close> fields and the head of the list changed.\<close>

definition obj_rest4 :: "'d vmobj \<Rightarrow> mark \<times> nat option \<times> u64 \<times> 'd body" where
  "obj_rest4 n = (mark_of n, gray_next n, zsize n, body n)"

definition relisted :: "'d gcst \<Rightarrow> 'd gcst \<Rightarrow> bool" where
  "relisted gc gc' \<longleftrightarrow> gc' = gc\<lparr>heap := heap gc', gc_head := gc_head gc'\<rparr>
     \<and> (\<forall>a. map_option obj_rest4 (heap gc' a) = map_option obj_rest4 (heap gc a))"

lemma relisted_refl: "relisted gc gc"
  by (simp add: relisted_def)

lemma relisted_trans: "relisted gc gc1 \<Longrightarrow> relisted gc1 gc2 \<Longrightarrow> relisted gc gc2"
  unfolding relisted_def by (cases gc; cases gc1; cases gc2) simp

lemma relisted_D: "relisted gc gc' \<Longrightarrow> heap gc a = Some n
  \<Longrightarrow> \<exists>n'. heap gc' a = Some n' \<and> mark_of n' = mark_of n \<and> gray_next n' = gray_next n \<and> zsize n' = zsize n \<and> body n' = body n"
proof -
  assume r: "relisted gc gc'" and n: "heap gc a = Some n"
  have "map_option obj_rest4 (heap gc' a) = map_option obj_rest4 (heap gc a)" using r unfolding relisted_def by blast
  then show ?thesis using n by (auto simp: obj_rest4_def)
qed

lemma relisted_None: "relisted gc gc' \<Longrightarrow> heap gc a = None \<Longrightarrow> heap gc' a = None"
proof -
  assume r: "relisted gc gc'" and n: "heap gc a = None"
  have "map_option obj_rest4 (heap gc' a) = map_option obj_rest4 (heap gc a)" using r unfolding relisted_def by blast
  then show ?thesis using n by simp
qed

lemma lseg_link:
  assumes "lseg next_of h p ys None" "ys \<noteq> []" "distinct ys" "h (last ys) = Some n"
  shows "lseg next_of (h(last ys \<mapsto> n\<lparr>next_of := q\<rparr>)) p ys q"
  using assms
proof (induction ys arbitrary: p)
  case (Cons a ys)
  obtain k where k: "p = Some a" "h a = Some k" "lseg next_of h (next_of k) ys None" using Cons.prems(1) by auto
  show ?case
  proof (cases "ys = []")
    case True
    then show ?thesis using k Cons.prems(4) by simp
  next
    case False
    then have l: "last (a # ys) = last ys" "a \<noteq> last ys" using Cons.prems(3) last_in_set [OF False] by auto
    have "lseg next_of (h(last ys \<mapsto> n\<lparr>next_of := q\<rparr>)) (next_of k) ys q"
      by (rule Cons.IH [OF k(3) False]) (use Cons.prems(3,4) l(1) in simp_all)
    moreover have "(h(last ys \<mapsto> n\<lparr>next_of := q\<rparr>)) a = Some k" using k(2) l(2) by simp
    ultimately show ?thesis unfolding l(1) lseg.simps using k(1) by blast
  qed
qed simp

definition no_objs :: "'d vm \<Rightarrow> 'd vm" where
  "no_objs v = v\<lparr>obj_head := None, obj_tail := None\<rparr>"

lemma wp_MoveThreadObjects:
  assumes v: "vm_list gc v ys" and l: "lseg next_of (heap gc) (gc_head gc) xs None" and d: "distinct (ys @ xs)"
  shows "wp (fklMoveThreadObjectsToGc v gc) (\<lambda>(gc', v'). v' = no_objs v \<and> relisted gc gc'
    \<and> lseg next_of (heap gc') (gc_head gc') (ys @ xs) None \<and> (\<forall>a. a \<notin> set ys \<longrightarrow> heap gc' a = heap gc a))"
proof (cases ys)
  case Nil
  then have "obj_head v = None" "obj_tail v = None" using v by (auto simp: vm_list_def)
  then have "fklMoveThreadObjectsToGc v gc = Some (gc, no_objs v)" by (cases v) (simp add: fklMoveThreadObjectsToGc_def no_objs_def)
  then show ?thesis using Nil l by (simp add: relisted_refl)
next
  case (Cons h zs)
  then have ne: "ys \<noteq> []" by simp
  have hv: "obj_head v = Some h" "obj_tail v = Some (last ys)" "lseg next_of (heap gc) (obj_head v) ys None"
    using v Cons by (auto simp: vm_list_def)
  obtain n where n: "heap gc (last ys) = Some n" using lseg_alloc [OF hv(3) last_in_set [OF ne]] by blast
  define g1 where "g1 = gc\<lparr>heap := (heap gc)(last ys \<mapsto> n\<lparr>next_of := gc_head gc\<rparr>), gc_head := Some h\<rparr>"
  have run: "fklMoveThreadObjectsToGc v gc = Some (g1, no_objs v)"
    using hv n by (simp add: fklMoveThreadObjectsToGc_def no_objs_def g1_def)
  have a: "lseg next_of (heap g1) (Some h) ys (gc_head gc)"
    using lseg_link [OF hv(3) ne _ n] d hv(1) by (simp add: g1_def)
  have "last ys \<notin> set xs" using d last_in_set [OF ne] by auto
  then have b: "lseg next_of (heap g1) (gc_head gc) xs None" using l by (simp add: g1_def lseg_upd del: fun_upd_apply)
  have "relisted gc g1" using n by (cases gc) (auto simp: relisted_def g1_def obj_rest4_def)
  moreover have "lseg next_of (heap g1) (gc_head g1) (ys @ xs) None" using a b by (auto simp: lseg_append g1_def)
  moreover have "\<forall>a. a \<notin> set ys \<longrightarrow> heap g1 a = heap gc a" using last_in_set [OF ne] by (auto simp: g1_def)
  ultimately show ?thesis using run by simp
qed

lemma vm_list_cong: "(\<And>a. a \<in> set ys \<Longrightarrow> heap gc' a = heap gc a) \<Longrightarrow> vm_list gc v ys \<Longrightarrow> vm_list gc' v ys"
  by (auto simp: vm_list_def elim!: lseg_cong [rotated])

lemma wp_move_all:
  assumes "list_all2 (vm_list gc) vs xss" "lseg next_of (heap gc) (gc_head gc) xs None" "distinct (xs @ concat xss)"
  shows "wp (move_all vs gc) (\<lambda>(gc', vs'). vs' = map no_objs vs \<and> relisted gc gc'
    \<and> lseg next_of (heap gc') (gc_head gc') (concat (rev xss) @ xs) None)"
  using assms
proof (induction vs arbitrary: gc xss xs)
  case Nil
  then show ?case by (simp add: relisted_refl)
next
  case (Cons v vs)
  then obtain ys yss where x: "xss = ys # yss" "vm_list gc v ys" "list_all2 (vm_list gc) vs yss" by (auto simp: list_all2_Cons1)
  have d: "distinct (ys @ xs)" "distinct ((ys @ xs) @ concat yss)" using Cons.prems(3) x(1) by auto
  obtain g1 where g1: "fklMoveThreadObjectsToGc v gc = Some (g1, no_objs v)" "relisted gc g1"
    "lseg next_of (heap g1) (gc_head g1) (ys @ xs) None" "\<And>a. a \<notin> set ys \<Longrightarrow> heap g1 a = heap gc a"
    using wp_MoveThreadObjects [OF x(2) Cons.prems(2) d(1)] by (auto elim!: wpE)
  have l: "list_all2 (vm_list g1) vs yss"
  proof (rule list.rel_mono_strong [OF x(3)])
    fix u zs assume z: "zs \<in> set yss" "vm_list gc u zs"
    have "a \<notin> set ys" if "a \<in> set zs" for a using that z(1) d(2) by auto
    then show "vm_list g1 u zs" using g1(4) by (intro vm_list_cong [OF _ z(2)]) blast
  qed
  obtain g2 where g2: "move_all vs g1 = Some (g2, map no_objs vs)" "relisted g1 g2"
    "lseg next_of (heap g2) (gc_head g2) (concat (rev yss) @ ys @ xs) None"
    using Cons.IH [OF l g1(3) d(2)] by (auto elim!: wpE)
  have "relisted gc g2" by (rule relisted_trans [OF g1(2) g2(2)])
  then show ?case using g1(1) g2(1,3) x(1) by simp
qed

end
