(* ===== verification/GcInv.thy ===== *)
theory GcInv
  imports GcMove
begin

text \<open>
  The invariant of the heap between collections, and the first two steps of a collection from it: moving
  the objects of the machines, and marking.
\<close>

section \<open>The invariant\<close>

text \<open>
  \<open>L\<close> are the objects in the lists of the collector and of the machines, \<open>S\<close> the static objects, which
  are no one's. No pointer leads out of these objects, the weak ones of the tables included.
\<close>

definition gc_inv :: "'d callbacks \<Rightarrow> nat set \<Rightarrow> nat set \<Rightarrow> 'd gcst \<Rightarrow> bool" where
  "gc_inv cbs L S gc \<longleftrightarrow> (\<exists>xs. obj_lists gc xs \<and> L = set xs) \<and> gray_list gc = None \<and> weak_refs gc = None \<and> L \<inter> S = {}
     \<and> (\<forall>a \<in> L. white gc a) \<and> (\<forall>a \<in> S. \<exists>n. heap gc a = Some n \<and> mark_of n = FKL_MARK_B)
     \<and> closed_heap cbs L S gc
     \<and> (\<forall>a \<in> L. points_into (L \<union> S) (weak_ptrs gc a)) \<and> (\<forall>a \<in> S. points_into S (weak_ptrs gc a))
     \<and> points_into (L \<union> S) (roots cbs gc) \<and> machines_ok gc"

lemma gc_invD:
  assumes "gc_inv cbs L S gc"
  shows "\<exists>xs. obj_lists gc xs \<and> L = set xs" "gray_list gc = None" "weak_refs gc = None" "L \<inter> S = {}"
    "\<And>a. a \<in> L \<Longrightarrow> white gc a" "\<And>a. a \<in> S \<Longrightarrow> \<exists>n. heap gc a = Some n \<and> mark_of n = FKL_MARK_B"
    "closed_heap cbs L S gc" "\<And>a. a \<in> L \<Longrightarrow> points_into (L \<union> S) (weak_ptrs gc a)"
    "\<And>a. a \<in> S \<Longrightarrow> points_into S (weak_ptrs gc a)" "points_into (L \<union> S) (roots cbs gc)" "machines_ok gc"
  using assms unfolding gc_inv_def by blast+

text \<open>What the collector itself holds.\<close>

definition own_part :: "'d gcst \<Rightarrow> vmptr list \<times> (nat \<times> 'd) list \<times> (nat option \<times> 'd) list \<times> vmptr \<times> vmptr \<times> vmptr list \<times> vmptr list
    \<times> vmptr list \<times> vmptr list \<times> vmptr" where
  "own_part gc = (builtin_refs gc, extra_marks gc, gc_int_list gc, obarray gc, gc_keywords gc, builtinErrorTypeId gc, gc_seeks gc,
     gc_syms gc, gc_words gc, path_vec gc)"

lemma own_ptrs_part: "own_part gc' = own_part gc \<Longrightarrow> own_ptrs cbs gc' = own_ptrs cbs gc"
  by (simp add: own_part_def own_ptrs_def)

lemma roots_eq: "roots cbs gc = own_ptrs cbs gc @ concat (map (machine_ptrs cbs) (machines gc))"
  by (simp add: roots_def machines_def)

lemma own_part_evolves: "evolves X gc gc' \<Longrightarrow> own_part gc' = own_part gc"
  unfolding own_part_def by (simp only: evolves_fields)

lemma own_part_same: "same_objs gc gc' \<Longrightarrow> own_part gc' = own_part gc"
  unfolding own_part_def by (simp only: same_objs_fields)

lemma own_part_simps [simp]: "own_part (gc\<lparr>gcvm := v, vms := vs\<rparr>) = own_part gc"
  by (simp add: own_part_def)

lemma own_part_upd: "gc' = gc\<lparr>heap := h, gc_head := x\<rparr> \<Longrightarrow> own_part gc' = own_part gc"
  "gc' = gc\<lparr>heap := h, alloced_size := s\<rparr> \<Longrightarrow> own_part gc' = own_part gc"
  "gc' = gc\<lparr>heap := h, weak_refs := x\<rparr> \<Longrightarrow> own_part gc' = own_part gc"
  by (simp_all add: own_part_def)

section \<open>Moving\<close>

lemma no_objs_simps [simp]: "stack (no_objs v) = stack v" "frames (no_objs v) = frames v" "obj_head (no_objs v) = None" "obj_tail (no_objs v) = None"
  "machine_ptrs cbs (no_objs v) = machine_ptrs cbs v"
  by (simp_all add: no_objs_def machine_ptrs_def)

definition moved :: "'d callbacks \<Rightarrow> nat set \<Rightarrow> nat set \<Rightarrow> 'd gcst \<Rightarrow> 'd gcst \<Rightarrow> bool" where
  "moved cbs L S gc g \<longleftrightarrow> (\<exists>xs. lseg next_of (heap g) (gc_head g) xs None \<and> distinct xs \<and> set xs = L)
     \<and> marking L S g [] [] \<and> marked L g = {} \<and> same_graph gc g \<and> machines g = map no_objs (machines gc)
     \<and> own_part g = own_part gc \<and> alloced_size g = alloced_size gc \<and> (\<forall>a. size_of g a = size_of gc a)"

lemma machines_ok_move:
  assumes ok: "machines_ok gc" and g: "same_graph gc g" "machines g = map no_objs (machines gc)"
  shows "machines_ok g"
proof -
  obtain xs where xs: "frame_lists gc (concat (map frames (machines gc))) xs" using ok by (auto simp: machines_ok_def)
  have f: "map frames (machines g) = map frames (machines gc)" using g(2) by simp
  have "frame_lists g (concat (map frames (machines g))) xs" unfolding f by (rule same_graph_lists [OF g(1) xs])
  moreover have "\<forall>v \<in> set (machines g). stack_ok (stack v)" using ok g(2) by (auto simp: machines_ok_def)
  ultimately show ?thesis by (auto simp: machines_ok_def)
qed

lemma wp_move_phase:
  assumes i: "gc_inv cbs L S gc"
  shows "wp (do { (g, v) \<leftarrow> fklMoveThreadObjectsToGc (gcvm gc) gc; (g, vs) \<leftarrow> move_all (vms g) g; Some (g\<lparr>gcvm := v, vms := vs\<rparr>) })
    (moved cbs L S gc)"
proof -
  obtain x0 xss where x: "lseg next_of (heap gc) (gc_head gc) x0 None" "list_all2 (vm_list gc) (machines gc) xss"
    "L = set (x0 @ concat xss)" "distinct (x0 @ concat xss)" using gc_invD(1) [OF i] by (auto simp: obj_lists_def)
  have "wp (move_all (gcvm gc # vms gc) gc) (\<lambda>(gc', vs'). vs' = map no_objs (gcvm gc # vms gc) \<and> relisted gc gc'
    \<and> lseg next_of (heap gc') (gc_head gc') (concat (rev xss) @ x0) None)"
    by (rule wp_move_all [OF x(2) [unfolded machines_def] x(1,4)])
  then obtain g where g: "move_all (gcvm gc # vms gc) gc = Some (g, map no_objs (gcvm gc # vms gc))" "relisted gc g"
    "lseg next_of (heap g) (gc_head g) (concat (rev xss) @ x0) None" by (auto elim!: wpE simp del: move_all.simps)
  obtain g0 where g0: "fklMoveThreadObjectsToGc (gcvm gc) gc = Some (g0, no_objs (gcvm gc))" "move_all (vms gc) g0 = Some (g, map no_objs (vms gc))"
    using g(1) by (auto simp: bind_eq_Some_conv)
  have v0: "vms g0 = vms gc"
    using g0(1) by (auto simp: fklMoveThreadObjectsToGc_def upd_obj_def bind_eq_Some_conv split: option.splits)
  let ?g = "g\<lparr>gcvm := no_objs (gcvm gc), vms := map no_objs (vms gc)\<rparr>"
  have run: "do { (g, v) \<leftarrow> fklMoveThreadObjectsToGc (gcvm gc) gc; (g, vs) \<leftarrow> move_all (vms g) g; Some (g\<lparr>gcvm := v, vms := vs\<rparr>) } = Some ?g"
    using g0 v0 by simp
  have ge: "g = gc\<lparr>heap := heap g, gc_head := gc_head g\<rparr>" using g(2) unfolding relisted_def by (rule conjunct1)
  have sel: "gray_list g = gray_list gc" "weak_refs g = weak_refs gc" "alloced_size g = alloced_size gc"
    by (subst ge, simp)+
  have ms: "machines ?g = map no_objs (machines gc)" by (simp add: machines_def)
  have sb: "map_option body (heap g a) = map_option body (heap gc a)" "size_of g a = size_of gc a" for a
    using relisted_D [OF g(2), of a] relisted_None [OF g(2), of a] by (cases "heap gc a", auto simp: size_of_def)+
  have sg: "same_graph gc ?g" using sb(1) by (simp add: same_graph_def machines_def)
  have wl: "white g a" if aL: "a \<in> L" for a
  proof -
    obtain n where n: "heap gc a = Some n" "mark_of n = FKL_MARK_W" using gc_invD(5) [OF i aL] by (auto simp: white_def)
    show ?thesis using relisted_D [OF g(2) n(1)] n(2) by (auto simp: white_def)
  qed
  have bs: "\<exists>n. heap g a = Some n \<and> mark_of n = FKL_MARK_B" if aS: "a \<in> S" for a
  proof -
    obtain n where n: "heap gc a = Some n" "mark_of n = FKL_MARK_B" using gc_invD(6) [OF i aS] by blast
    show ?thesis using relisted_D [OF g(2) n(1)] n(2) by auto
  qed
  have mk: "marked L g = {}" "black L g = {}" using wl by (fastforce simp: marked_def black_def white_def)+
  have al: "\<exists>n. heap g a = Some n" if "a \<in> L \<union> S" for a using wl bs that by (fastforce simp: white_def)
  have bS: "mark_of n = FKL_MARK_B" if "a \<in> S" "heap g a = Some n" for a n using bs [OF that(1)] that(2) by auto
  have m: "marking L S g [] []" unfolding marking_def mk
    using gc_invD(2,3,4) [OF i] sel al bS by simp
  have st: "set (concat (rev xss) @ x0) = L" using x(3) by auto
  have "length (concat (rev xss) @ x0) = length (x0 @ concat xss)" by (simp add: length_concat rev_map [symmetric] sum_list_rev)
  then have "card (set (concat (rev xss) @ x0)) = length (concat (rev xss) @ x0)" unfolding st x(3) using distinct_card [OF x(4)] by simp
  then have "distinct (concat (rev xss) @ x0)" by (rule card_distinct)
  then have "\<exists>xs. lseg next_of (heap ?g) (gc_head ?g) xs None \<and> distinct xs \<and> set xs = L"
    using g(3) st by (intro exI [of _ "concat (rev xss) @ x0"]) simp
  moreover have "own_part ?g = own_part gc" using own_part_upd(1) [OF ge] by simp
  moreover have "size_of ?g a = size_of gc a" for a using sb(2) by (simp add: size_of_def)
  ultimately have "moved cbs L S gc ?g" unfolding moved_def using m mk sg ms sel(3) by simp
  then show ?thesis unfolding run by simp
qed


section \<open>Marking\<close>

lemma reach_in_mono: "(\<And>a. a \<in> L \<Longrightarrow> targets L (kids cbs g a) = targets L (kids cbs gc a)) \<Longrightarrow> R \<subseteq> L
  \<Longrightarrow> a \<in> reach_in cbs g L R \<Longrightarrow> a \<in> reach_in cbs gc L R \<and> a \<in> L"
proof -
  assume k: "\<And>a. a \<in> L \<Longrightarrow> targets L (kids cbs g a) = targets L (kids cbs gc a)" and R: "R \<subseteq> L"
  show "a \<in> reach_in cbs g L R \<Longrightarrow> a \<in> reach_in cbs gc L R \<and> a \<in> L"
  proof (induction rule: reach_in.induct)
    case (reach_root a)
    then show ?case using R by (auto intro: reach_in.intros)
  next
    case (reach_kid a b)
    then have "b \<in> targets L (kids cbs gc a)" using k by simp
    then show ?case using reach_kid.IH by (auto intro: reach_in.intros simp: targets_def)
  qed
qed

lemma targets_L: "targets L ps \<subseteq> L"
  by (auto simp: targets_def)

lemma reach_in_L: "a \<in> reach_in cbs gc L R \<Longrightarrow> R \<subseteq> L \<Longrightarrow> a \<in> L"
  by (rule conjunct2 [OF reach_in_mono]) auto

lemma reach_in_least:
  assumes "a \<in> reach_in cbs gc L R" "R \<subseteq> Z" "\<And>a. a \<in> Z \<Longrightarrow> targets L (kids cbs gc a) \<subseteq> Z"
  shows "a \<in> Z"
  using assms(1) by (induction rule: reach_in.induct) (use assms(2,3) in auto)

lemma same_kids_reach: "(\<And>a. kids cbs g a = kids cbs gc a) \<Longrightarrow> reach_in cbs g L R = reach_in cbs gc L R"
proof
  assume k: "\<And>a. kids cbs g a = kids cbs gc a"
  show "reach_in cbs g L R \<subseteq> reach_in cbs gc L R"
    by (rule subsetI, erule reach_in_least) (auto simp: k intro: reach_in.intros)
  show "reach_in cbs gc L R \<subseteq> reach_in cbs g L R"
    by (rule subsetI, erule reach_in_least) (auto simp: k [symmetric] intro: reach_in.intros)
qed

lemma phase_machines: "phase_evolves X gc g \<Longrightarrow> list_all2 (machine_evolves gc) (machines gc) (machines g)"
  by (simp add: phase_evolves_def machines_def)

lemma phase_stacks: "phase_evolves X gc g \<Longrightarrow> map stack (machines g) = map stack (machines gc)"
proof -
  assume p: "phase_evolves X gc g"
  have "list_all2 (\<lambda>v v'. stack v' = stack v) (machines gc) (machines g)"
    by (rule list.rel_mono_strong [OF phase_machines [OF p]]) (rule machine_evolves_fields(1))
  then show ?thesis by (induction rule: list_all2_induct) simp_all
qed

lemma phase_graph: "phase_evolves X gc g \<Longrightarrow> evolves X gc (g\<lparr>gcvm := gcvm gc, vms := vms gc\<rparr>) \<and> same_graph (g\<lparr>gcvm := gcvm gc, vms := vms gc\<rparr>) g"
  using phase_stacks [of X gc g] by (simp add: phase_evolves_def same_graph_def machines_def)

lemma phase_closed: "closed_heap cbs L S gc \<Longrightarrow> phase_evolves X gc g \<Longrightarrow> closed_heap cbs L S g"
proof -
  assume c: "closed_heap cbs L S gc" and p: "phase_evolves X gc g"
  have "closed_heap cbs L S (g\<lparr>gcvm := gcvm gc, vms := vms gc\<rparr>)" using closed_heap_evolves [OF c] phase_graph [OF p] by blast
  then show ?thesis using same_graph_closed conjunct2 [OF phase_graph [OF p]] by blast
qed

lemma phase_own: "phase_evolves X gc g \<Longrightarrow> own_part g = own_part gc"
  using phase_graph [of X gc g] own_part_evolves [of X gc "g\<lparr>gcvm := gcvm gc, vms := vms gc\<rparr>"] by simp

lemma phase_roots: "closed_heap cbs L S gc \<Longrightarrow> phase_evolves X gc g \<Longrightarrow> points_into (L \<union> S) (roots cbs gc) \<Longrightarrow> points_into (L \<union> S) (roots cbs g)"
proof -
  assume c: "closed_heap cbs L S gc" and p: "phase_evolves X gc g" and r: "points_into (L \<union> S) (roots cbs gc)"
  have "points_into (L \<union> S) (machine_ptrs cbs v)" if v: "v \<in> set (machines g)" for v
  proof -
    obtain w where w: "w \<in> set (machines gc)" "machine_evolves gc w v" by (rule bexE [OF list_all2_right [OF phase_machines [OF p] v]])
    have "points_into (L \<union> S) (machine_ptrs cbs w)" using r w(1) by (simp add: roots_eq points_into_concat)
    then show ?thesis by (rule machine_ptrs_evolves [OF c w(2)])
  qed
  then show ?thesis using r own_ptrs_part [OF phase_own [OF p]] by (simp add: roots_eq points_into_concat)
qed

lemma phase_same: "phase_evolves X gc g \<Longrightarrow> same_objs g g' \<Longrightarrow> phase_evolves X gc g'"
proof -
  assume p: "phase_evolves X gc g" and s: "same_objs g g'"
  have m: "gcvm g' = gcvm g" "vms g' = vms g" using same_objs_fields [OF s] by simp_all
  have "same_objs (g\<lparr>gcvm := gcvm gc, vms := vms gc\<rparr>) (g'\<lparr>gcvm := gcvm gc, vms := vms gc\<rparr>)"
    using s unfolding same_objs_def by (cases g; cases g') simp
  then have "evolves (X \<union> {}) gc (g'\<lparr>gcvm := gcvm gc, vms := vms gc\<rparr>)"
    using evolves_trans [OF _ same_objs_evolves] conjunct1 [OF phase_graph [OF p]] by blast
  then show ?thesis using p unfolding phase_evolves_def m by simp
qed

definition marked_from :: "'d callbacks \<Rightarrow> nat set \<Rightarrow> nat set \<Rightarrow> 'd gcst \<Rightarrow> nat set \<Rightarrow> nat set \<Rightarrow> 'd gcst \<Rightarrow> bool" where
  "marked_from cbs L S gc X M g \<longleftrightarrow> phase_evolves X gc g \<and> frame_pairs gc X \<and> machines_ok g \<and> marked L g = M \<and> black L g = M
     \<and> M = reach_in cbs g L (targets L (roots cbs g)) \<and> (\<exists>ws. marking L S g [] ws \<and> set ws = M \<inter> weak_tables g)"

lemma wp_mark_phase:
  assumes m: "marking L S gc [] []" "marked L gc = {}" and c: "closed_heap cbs L S gc" and ok: "machines_ok gc"
    and p: "points_into (L \<union> S) (roots cbs gc)" and fin: "finite L"
  shows "wp (do { g \<leftarrow> fklVMgcMarkAllRootToGray cbs gc; propagate_all cbs g }) (\<lambda>g. \<exists>X M. marked_from cbs L S gc X M g)"
proof -
  obtain g2 X gs2 where g2: "fklVMgcMarkAllRootToGray cbs gc = Some g2" "phase_evolves X gc g2" "machines_ok g2" "marking L S g2 gs2 []"
    "marked L g2 = targets L (roots cbs g2)" "black L g2 = black L gc" "points_into (L \<union> S) (roots cbs g2)" "frame_pairs gc X"
    using wp_MarkAllRoot [OF m(1) c ok p] m(2) by (auto elim!: wpE)
  have b: "black L g2 = {}" using g2(6) m(2) by (auto simp: marked_def black_def)
  have c2: "closed_heap cbs L S g2" by (rule phase_closed [OF c g2(2)])
  define R where "R = targets L (roots cbs g2)"
  have inv: "propagating cbs L S R g2 g2 gs2 []" unfolding propagating_def b g2(5) R_def
    using g2(4) by (auto intro: reach_in.intros)
  obtain g3 ws where g3: "propagate_all cbs g2 = Some g3" "propagating cbs L S R g2 g3 [] ws"
    using wp_propagate_all [OF closed_heapD [OF c2] fin inv] by (auto elim!: wpE)
  have so: "same_objs g2 g3" "marking L S g3 [] ws" "set ws = black L g3 \<inter> weak_tables g2" using g3(2) by (auto simp: propagating_def)
  have mb: "marked L g3 = reach_in cbs g2 L R" "black L g3 = marked L g3" using propagated_reach [OF g3(2)] by simp_all
  have wt: "weak_tables g3 = weak_tables g2" using is_weak_same [OF so(1)] by (simp add: weak_tables_def)
  have ro: "roots cbs g3 = roots cbs g2"
    using own_ptrs_part [OF own_part_same [OF so(1)]] same_objs_fields(1,2) [OF so(1)] by (simp add: roots_eq machines_def)
  have re: "reach_in cbs g3 L R = reach_in cbs g2 L R" by (rule same_kids_reach) (rule kids_same [OF so(1)])
  have ms: "machines g3 = machines g2" using same_objs_fields(1,2) [OF so(1)] by (simp add: machines_def)
  have mo: "machines_ok g3"
  proof -
    obtain xs where "frame_lists g2 (concat (map frames (machines g2))) xs" using g2(3) by (auto simp: machines_ok_def)
    then have "frame_lists g3 (concat (map frames (machines g3))) xs" unfolding ms
      by (rule frame_lists_evolves [OF same_objs_evolves [of _ _ "{}", OF so(1)], rotated]) simp
    then show ?thesis using g2(3) ms by (auto simp: machines_ok_def)
  qed
  have "marked_from cbs L S gc X (marked L g3) g3" unfolding marked_from_def
    using phase_same [OF g2(2) so(1)] g2(8) mo mb re ro so wt R_def by auto
  then show ?thesis using g2(1) g3(1) by auto
qed

text \<open>What is marked could be reached before.\<close>

lemma reach_in_closed:
  assumes c: "closed_heap cbs L S gc"
  shows "closed_heap cbs (reach_in cbs gc L (targets L ps)) S gc"
proof -
  let ?Z = "reach_in cbs gc L (targets L ps)"
  have z: "a \<in> L" if "a \<in> ?Z" for a by (rule reach_in_L [OF that targets_L])
  have "points_into (?Z \<union> S) (kids cbs gc a)" if a: "a \<in> ?Z" for a
    unfolding points_into_def
  proof (intro allI impI)
    fix b assume b: "PObj b \<in> set (kids cbs gc a)"
    have "b \<in> L \<union> S" using c z [OF a] b by (auto simp: closed_heap_def points_into_def)
    then show "b \<in> ?Z \<union> S" using reach_kid [OF a] b by (auto simp: targets_def)
  qed
  moreover have "points_into (?Z \<union> S) (kids cbs gc a)" if "a \<in> S" for a
    using c that by (auto simp: closed_heap_def points_into_def)
  ultimately show ?thesis using c z by (auto simp: closed_heap_def)
qed

lemma marked_reach:
  assumes f: "marked_from cbs L S gc X M g" and c: "closed_heap cbs L S gc" and p: "points_into (L \<union> S) (roots cbs gc)"
  shows "M \<subseteq> reach_in cbs gc L (targets L (roots cbs gc))"
proof -
  let ?Z = "reach_in cbs gc L (targets L (roots cbs gc))"
  have pe: "phase_evolves X gc g" and d: "L \<inter> S = {}" using f by (auto simp: marked_from_def marking_def)
  have cz: "closed_heap cbs ?Z S gc" by (rule reach_in_closed [OF c])
  have "points_into (?Z \<union> S) (roots cbs gc)" using p by (auto simp: points_into_def targets_def intro: reach_in.intros)
  then have r: "points_into (?Z \<union> S) (roots cbs g)" by (rule phase_roots [OF cz pe])
  have k: "closed_heap cbs ?Z S g" by (rule phase_closed [OF cz pe])
  show ?thesis
  proof
    fix a assume "a \<in> M"
    then have "a \<in> reach_in cbs g L (targets L (roots cbs g))" using f unfolding marked_from_def by blast
    then show "a \<in> ?Z"
    proof (rule reach_in_least)
      show "targets L (roots cbs g) \<subseteq> ?Z" using r d by (auto simp: targets_def points_into_def)
      show "targets L (kids cbs g b) \<subseteq> ?Z" if "b \<in> ?Z" for b
        using k that d by (auto simp: closed_heap_def targets_def points_into_def)
    qed
  qed
qed

end
