(* ===== verification/GcFinish.thy ===== *)
theory GcFinish
  imports GcInv
begin

text \<open>
  The second half of a collection: cleaning the weak tables, unlinking the white objects, releasing them.
\<close>

section \<open>The effect on the objects\<close>

definition clean_body :: "(vmptr \<Rightarrow> bool) \<Rightarrow> 'd body \<Rightarrow> 'd body" where
  "clean_body live b = (case b of VmUd tp u \<Rightarrow> VmUd tp (clean_ud live u) | _ \<Rightarrow> b)"

lemma clean_body_simps [simp]: "clean_body live (VmUd tp u) = VmUd tp (clean_ud live u)"
  "(\<And>tp u. b \<noteq> VmUd tp u) \<Longrightarrow> clean_body live b = b"
  by (simp_all add: clean_body_def split: body.split)

definition swept_to :: "'d callbacks \<Rightarrow> nat list \<Rightarrow> nat set \<Rightarrow> 'd gcst \<Rightarrow> 'd gcst \<Rightarrow> bool" where
  "swept_to cbs xs M g g' \<longleftrightarrow> machines g' = machines g \<and> own_part g' = own_part g \<and> gray_list g' = None \<and> weak_refs g' = None
     \<and> lseg next_of (heap g') (gc_head g') (filter (\<lambda>a. a \<in> M) xs) None
     \<and> (\<forall>a \<in> M. \<exists>n n'. heap g a = Some n \<and> heap g' a = Some n' \<and> mark_of n' = FKL_MARK_W \<and> zsize n' = zsize n
           \<and> body n' = clean_body (is_live g) (body n))
     \<and> (\<forall>a. a \<notin> set xs \<longrightarrow> heap g' a = heap g a)
     \<and> (\<forall>a \<in> set xs - M. heap g' a = None \<longleftrightarrow> \<not> delays cbs g a)
     \<and> alloced_size g' = alloced_size g - sum_list (map (size_of g) (filter (\<lambda>a. a \<notin> M \<and> \<not> delays cbs g a) xs))
     \<and> threshold g' = alloced_size g' * 2"

lemma cleaned_fields: "cleaned W g g' \<Longrightarrow> gray_list g' = gray_list g \<and> weak_refs g' = None \<and> machines g' = machines g \<and> own_part g' = own_part g
    \<and> gc_head g' = gc_head g \<and> alloced_size g' = alloced_size g"
proof -
  assume c: "cleaned W g g'"
  have e: "g' = g\<lparr>heap := heap g', weak_refs := None\<rparr>" using c unfolding cleaned_def by (rule conjunct1)
  have "own_part g' = own_part g" by (rule own_part_upd(3) [OF e])
  moreover have "gray_list g' = gray_list g \<and> weak_refs g' = None \<and> machines g' = machines g \<and> gc_head g' = gc_head g \<and> alloced_size g' = alloced_size g"
    unfolding machines_def by (subst e, subst (2) e, subst (3) e, subst (4) e, subst (5) e, subst (6) e) simp
  ultimately show ?thesis by blast
qed

lemma cleaned_obj:
  assumes c: "cleaned W g g'" and n: "heap g a = Some n" and w: "a \<in> W \<Longrightarrow> \<exists>tp u. body n = VmUd tp u"
  shows "\<exists>n'. heap g' a = Some n' \<and> mark_of n' = mark_of n \<and> next_of n' = next_of n \<and> zsize n' = zsize n
    \<and> body n' = (if a \<in> W then clean_body (is_live g) (body n) else body n)"
proof (cases "a \<in> W")
  case True
  then obtain tp u where u: "body n = VmUd tp u" using w by blast
  have "heap g' a = Some (n\<lparr>gray_next := None, body := VmUd tp (clean_ud (is_live g) u)\<rparr>)"
    using c True n u unfolding cleaned_def by blast
  then show ?thesis using True u by simp
next
  case False
  then have "heap g' a = heap g a" using c unfolding cleaned_def by blast
  then show ?thesis using False n by simp
qed

lemma clean_ud_type: "clean_ud live u = UdType dll mt \<longleftrightarrow> u = UdType dll mt"
  by (cases u) simp_all

lemma cleaned_meta:
  assumes c: "cleaned W g g'" and w: "\<And>a. a \<in> W \<Longrightarrow> \<exists>n tp u. heap g a = Some n \<and> body n = VmUd tp u"
  shows "meta_of g' tp = meta_of g tp"
proof (cases "tp \<in> W")
  case True
  then obtain n t u where n: "heap g tp = Some n" "body n = VmUd t u" using w by blast
  have "heap g' tp = Some (n\<lparr>gray_next := None, body := VmUd t (clean_ud (is_live g) u)\<rparr>)"
    using c True n unfolding cleaned_def by blast
  then show ?thesis using n by (cases u) (simp_all add: meta_of_def)
next
  case False
  then have "heap g' tp = heap g tp" using c unfolding cleaned_def by blast
  then show ?thesis by (simp add: meta_of_def)
qed

lemma split_obj:
  assumes s: "split_list_of g xs (g', pw)" and n: "heap g a = Some n"
  shows "\<exists>n'. heap g' a = Some n' \<and> mark_of n' = (if a \<in> set xs then FKL_MARK_W else mark_of n) \<and> zsize n' = zsize n \<and> body n' = body n
    \<and> gray_next n' = gray_next n \<and> (a \<notin> set xs \<longrightarrow> n' = n)"
proof -
  have "rel_option (unmarked_obj (a \<in> set xs) (a \<in> set xs)) (heap g a) (heap g' a)" using s unfolding split_list_of_def by blast
  then obtain n' where n': "heap g' a = Some n'" "unmarked_obj (a \<in> set xs) (a \<in> set xs) n n'" using n by (cases "heap g' a") auto
  have "a \<notin> set xs \<longrightarrow> n' = n" using n'(2) by (cases n; cases n') (simp add: unmarked_obj_def obj_rest_def)
  then show ?thesis using n' by (auto simp: unmarked_obj_def obj_rest_def)
qed

lemma split_None: "split_list_of g xs (g', pw) \<Longrightarrow> heap g a = None \<Longrightarrow> heap g' a = None"
proof -
  assume s: "split_list_of g xs (g', pw)" and n: "heap g a = None"
  have "rel_option (unmarked_obj (a \<in> set xs) (a \<in> set xs)) (heap g a) (heap g' a)" using s unfolding split_list_of_def by blast
  then show ?thesis using n by (cases "heap g' a") auto
qed

lemma split_fields: "split_list_of g xs (g', pw) \<Longrightarrow> gray_list g' = gray_list g \<and> weak_refs g' = weak_refs g \<and> machines g' = machines g
    \<and> own_part g' = own_part g \<and> alloced_size g' = alloced_size g"
proof -
  assume c: "split_list_of g xs (g', pw)"
  have e: "g' = g\<lparr>heap := heap g', gc_head := gc_head g'\<rparr>" using c unfolding split_list_of_def prod.case by (rule conjunct1)
  have "own_part g' = own_part g" by (rule own_part_upd(1) [OF e])
  moreover have "gray_list g' = gray_list g" "weak_refs g' = weak_refs g" "machines g' = machines g" "alloced_size g' = alloced_size g"
    unfolding machines_def by (subst e, simp)+
  ultimately show ?thesis by blast
qed

lemma split_meta: "split_list_of g xs (g', pw) \<Longrightarrow> meta_of g' tp = meta_of g tp"
  using split_obj [of g xs g' pw tp] split_None [of g xs g' pw tp] by (cases "heap g tp") (auto simp: meta_of_def)

lemma swept_fields: "swept cbs g ws g' \<Longrightarrow> gray_list g' = gray_list g \<and> weak_refs g' = weak_refs g \<and> machines g' = machines g
    \<and> own_part g' = own_part g \<and> gc_head g' = gc_head g"
proof -
  assume c: "swept cbs g ws g'"
  have e: "g' = g\<lparr>heap := heap g', alloced_size := alloced_size g'\<rparr>" using c unfolding swept_def by (rule conjunct1)
  have "own_part g' = own_part g" by (rule own_part_upd(2) [OF e])
  moreover have "gray_list g' = gray_list g" "weak_refs g' = weak_refs g" "machines g' = machines g" "gc_head g' = gc_head g"
    unfolding machines_def by (subst e, simp)+
  ultimately show ?thesis by blast
qed

lemma sum_list_rev_map: "sum_list (map f (rev xs)) = sum_list (map f xs)" for f :: "'a \<Rightarrow> u64"
  by (simp add: rev_map [symmetric] sum_list_rev)


section \<open>Weak tables that were met\<close>

lemma weak_table_typed:
  assumes m: "marking L S g [] ws" and w: "a \<in> weak_tables g" and t: "obj_typed g a"
    and p: "points_into (L \<union> S) (weak_ptrs g a)"
  shows "weak_table_ok g a"
proof -
  have wr: "is_weak_ref_value g a = Some True" using w by (simp add: weak_tables_def)
  obtain n where n: "heap g a = Some n" using t by (auto simp: obj_typed_def)
  obtain tp u where u: "body n = VmUd tp u" using wr n by (cases "body n") (auto simp: is_weak_ref_value_def)
  obtain mt where mt: "meta_of g tp = Some mt" "ud_typed mt u" using t n u by (auto simp: obj_typed_def)
  then obtain f where f: "mt_update_weak_ref mt = Some f" using wr n u by (auto simp: is_weak_ref_value_def)
  have "allocated g q" if "q \<in> set (weak_ptrs g a)" for q
    unfolding allocated_def
  proof (intro allI impI)
    fix b assume "q = PObj b"
    then have "b \<in> L \<union> S" using p that by (simp add: points_into_def)
    then show "heap g b \<noteq> None" using marking_alloc [OF m] by blast
  qed
  then show ?thesis using n u mt f unfolding weak_table_ok_def by blast
qed

text \<open>Objects of the other types are not changed by cleaning.\<close>

lemma clean_not_weak:
  assumes t: "obj_typed g a" and n: "heap g a = Some n" and w: "a \<notin> weak_tables g"
  shows "clean_body live (body n) = body n"
proof (cases "\<exists>tp u. body n = VmUd tp u")
  case True
  then obtain tp u where u: "body n = VmUd tp u" by blast
  obtain mt where mt: "meta_of g tp = Some mt" "ud_typed mt u" using t n u by (auto simp: obj_typed_def)
  have "mt_update_weak_ref mt = None" using w n u mt(1) by (auto simp: weak_tables_def is_weak_ref_value_def)
  then have "clean_ud live u = u" using mt(2) by (cases u) (auto simp: ud_typed_def)
  then show ?thesis using u by simp
next
  case False
  then show ?thesis by simp
qed

section \<open>All three steps\<close>

lemma wp_finish:
  assumes m: "marking L S g [] ws" and M: "marked L g = M" "set ws = M \<inter> weak_tables g" and c: "closed_heap cbs L S g"
    and wp0: "\<And>a. a \<in> L \<Longrightarrow> points_into (L \<union> S) (weak_ptrs g a)"
    and l: "lseg next_of (heap g) (gc_head g) xs None" "distinct xs" "set xs = L"
    and ty: "\<And>a n tp u. a \<in> L - M \<Longrightarrow> heap g a = Some n \<Longrightarrow> body n = VmUd tp u \<Longrightarrow> tp \<in> M \<union> S"
  shows "wp (do { g \<leftarrow> fklVMgcUpdateWeakRefs g; (g, wh) \<leftarrow> fklVMgcCollect g None; g \<leftarrow> fklVMgcSweep cbs g wh; Some (fklVMgcUpdateThreshold g) })
    (swept_to cbs xs M g)"
proof -
  have MsubL: "M \<subseteq> L" and LS: "L \<inter> S = {}" using M(1) m by (auto simp: marked_def marking_def)
  have typed: "obj_typed g a" if "a \<in> L \<union> S" for a using c that by (simp add: closed_heap_def)
  have ud: "\<exists>n tp u. heap g a = Some n \<and> body n = VmUd tp u" if "a \<in> set ws" for a
  proof -
    have "is_weak_ref_value g a = Some True" using that M(2) by (simp add: weak_tables_def)
    then obtain n where n: "heap g a = Some n" by (cases "heap g a") (auto simp: is_weak_ref_value_def)
    then show ?thesis using \<open>is_weak_ref_value g a = Some True\<close> by (cases "body n") (auto simp: is_weak_ref_value_def)
  qed
  have lw: "lseg gray_next (heap g) (weak_refs g) ws None" "distinct ws" "gray_list g = None" using m by (auto simp: marking_def)
  have ok: "\<forall>a \<in> set ws. weak_table_ok g a"
  proof
    fix a assume a: "a \<in> set ws"
    then have aL: "a \<in> L" "a \<in> weak_tables g" using M(2) MsubL by auto
    show "weak_table_ok g a" by (rule weak_table_typed [OF m aL(2)]) (use typed wp0 aL(1) in auto)
  qed
  obtain g4 where g4: "fklVMgcUpdateWeakRefs g = Some g4" "cleaned (set ws) g g4" using wp_UpdateWeakRefs [OF lw(1,2) ok] by (rule wpE)
  note f4 = cleaned_fields [OF g4(2)]
  have o4: "\<exists>n'. heap g4 a = Some n' \<and> mark_of n' = mark_of n \<and> next_of n' = next_of n \<and> zsize n' = zsize n
    \<and> body n' = (if a \<in> set ws then clean_body (is_live g) (body n) else body n)" if n: "heap g a = Some n" for a n
  proof (rule cleaned_obj [OF g4(2) n])
    show "\<exists>tp u. body n = VmUd tp u" if "a \<in> set ws" using ud [OF that] n by auto
  qed
  have none4: "heap g4 a = None" if "heap g a = None" for a
  proof -
    have "a \<notin> set ws" using ud [of a] that by auto
    then show ?thesis using g4(2) that unfolding cleaned_def by simp
  qed
  have mt4: "meta_of g4 tp = meta_of g tp" for tp by (rule cleaned_meta [OF g4(2) ud])
  have l4: "lseg next_of (heap g4) (gc_head g4) xs None"
  proof -
    have "map_option next_of (heap g4 a) = map_option next_of (heap g a)" for a
      using o4 [of a] none4 [of a] by (cases "heap g a") auto
    then have "lseg next_of (heap g4) (gc_head g) xs None" using lseg_cong [of xs next_of "heap g4" "heap g" "gc_head g" None] l(1) by blast
    then show ?thesis using f4 by simp
  qed
  obtain g5 pw where g5: "fklVMgcCollect g4 None = Some (g5, pw)" "split_list_of g4 xs (g5, pw)"
    using wp_Collect [OF l4 l(2)] by (auto elim!: wpE)
  note f5 = split_fields [OF g5(2)]
  have wM: "white g4 a \<longleftrightarrow> a \<notin> M" if a: "a \<in> L" for a
  proof -
    obtain n where n: "heap g a = Some n" using marking_alloc [OF m] a by blast
    show ?thesis using o4 [OF n] n M(1) a by (auto simp: white_def marked_def)
  qed
  have fl: "filter (\<lambda>a. \<not> white g4 a) xs = filter (\<lambda>a. a \<in> M) xs" "filter (white g4) xs = filter (\<lambda>a. a \<notin> M) xs"
    using wM l(3) by (auto intro!: filter_cong)
  have l5: "lseg next_of (heap g5) (gc_head g5) (filter (\<lambda>a. a \<in> M) xs) None" "lseg next_of (heap g5) pw (rev (filter (\<lambda>a. a \<notin> M) xs)) None"
    using g5(2) unfolding split_list_of_def prod.case fl by blast+
  let ?W = "rev (filter (\<lambda>a. a \<notin> M) xs)"
  have sW: "set ?W = L - M" using l(3) by auto
  have o5: "\<exists>n'. heap g5 a = Some n' \<and> mark_of n' = (if a \<in> L then FKL_MARK_W else mark_of n) \<and> zsize n' = zsize n
    \<and> body n' = (if a \<in> set ws then clean_body (is_live g) (body n) else body n)" if n: "heap g a = Some n" for a n
    using o4 [OF n] split_obj [OF g5(2)] l(3) by fastforce
  have mt5: "meta_of g5 tp = meta_of g tp" for tp using split_meta [OF g5(2), of tp] mt4 by simp
  have W5: "map_option body (heap g5 a) = map_option body (heap g a) \<and> size_of g5 a = size_of g a" if a: "a \<in> L - M" for a
  proof -
    obtain n where n: "heap g a = Some n" using marking_alloc [OF m] a by blast
    have "a \<notin> set ws" using a M(2) by blast
    then show ?thesis using o5 [OF n] n by (auto simp: size_of_def)
  qed
  have t5: "types_outlive g5 (set ?W)" unfolding types_outlive_def sW
  proof (intro ballI allI impI)
    fix a n tp u assume a: "a \<in> L - M" "heap g5 a = Some n" "body n = VmUd tp u"
    obtain n0 where n0: "heap g a = Some n0" "body n0 = VmUd tp u" using W5 [OF a(1)] a(2,3) by (cases "heap g a") auto
    have "obj_typed g a" using typed a(1) by blast
    then have "meta_of g tp \<noteq> None" using n0 by (auto simp: obj_typed_def)
    then show "tp \<notin> L - M \<and> meta_of g5 tp \<noteq> None" using ty [OF a(1) n0] mt5 LS by auto
  qed
  have dW: "delays cbs g5 a = delays cbs g a" if a: "a \<in> L - M" for a
    by (rule delays_cong) (use W5 [OF a] mt5 in auto)
  have "distinct ?W" using l(2) by simp
  then obtain g6 where g6: "fklVMgcSweep cbs g5 pw = Some g6" "swept cbs g5 ?W g6"
    using wp_Sweep [OF l5(2) _ t5] by (auto elim!: wpE)
  note f6 = swept_fields [OF g6(2)]
  have h6: "heap g6 a = heap g5 a" if "a \<notin> L - M" for a using g6(2) that sW unfolding swept_def by blast
  have d6: "heap g6 a = (if delays cbs g5 a then map_option (\<lambda>n. n\<lparr>next_of := None\<rparr>) (heap g5 a) else None)" if "a \<in> L - M" for a
    using g6(2) that sW unfolding swept_def by blast
  have a6: "alloced_size g6 = alloced_size g5 - sum_list (map (size_of g5) (filter (\<lambda>a. \<not> delays cbs g5 a) ?W))"
    using g6(2) unfolding swept_def by blast
  let ?g = "fklVMgcUpdateThreshold g6"
  have run: "do { g \<leftarrow> fklVMgcUpdateWeakRefs g; (g, wh) \<leftarrow> fklVMgcCollect g None; g \<leftarrow> fklVMgcSweep cbs g wh; Some (fklVMgcUpdateThreshold g) } = Some ?g"
    using g4(1) g5(1) g6(1) by simp
  have hg: "heap ?g = heap g6" "gc_head ?g = gc_head g6" by (simp_all add: fklVMgcUpdateThreshold_def)
  have "machines ?g = machines g" "own_part ?g = own_part g" "gray_list ?g = None" "weak_refs ?g = None"
    using f4 f5 f6 lw(3) by (simp_all add: fklVMgcUpdateThreshold_def machines_def own_part_def)
  moreover have "lseg next_of (heap ?g) (gc_head ?g) (filter (\<lambda>a. a \<in> M) xs) None"
  proof -
    have "lseg next_of (heap g6) (gc_head g5) (filter (\<lambda>a. a \<in> M) xs) None"
      by (rule lseg_cong [OF _ l5(1)]) (simp add: h6)
    then show ?thesis using f6 hg by simp
  qed
  moreover have "\<forall>a \<in> M. \<exists>n n'. heap g a = Some n \<and> heap ?g a = Some n' \<and> mark_of n' = FKL_MARK_W \<and> zsize n' = zsize n
           \<and> body n' = clean_body (is_live g) (body n)"
  proof
    fix a assume a: "a \<in> M"
    then have aL: "a \<in> L" using MsubL by blast
    then obtain n where n: "heap g a = Some n" using marking_alloc [OF m] by blast
    obtain n' where n': "heap g5 a = Some n'" "mark_of n' = FKL_MARK_W" "zsize n' = zsize n"
      "body n' = (if a \<in> set ws then clean_body (is_live g) (body n) else body n)" using o5 [OF n] aL by auto
    have "a \<in> set ws \<longleftrightarrow> a \<in> weak_tables g" using a M(2) by blast
    then have "body n' = clean_body (is_live g) (body n)" using n'(4) clean_not_weak [OF typed n] aL by auto
    then show "\<exists>n n'. heap g a = Some n \<and> heap ?g a = Some n' \<and> mark_of n' = FKL_MARK_W \<and> zsize n' = zsize n
           \<and> body n' = clean_body (is_live g) (body n)" using n n' h6 [of a] a hg by simp
  qed
  moreover have "\<forall>a. a \<notin> set xs \<longrightarrow> heap ?g a = heap g a"
  proof (intro allI impI)
    fix a assume a: "a \<notin> set xs"
    have ws: "a \<notin> set ws" using a l(3) MsubL M(2) by blast
    then have h4: "heap g4 a = heap g a" using g4(2) unfolding cleaned_def by blast
    have "heap g5 a = heap g4 a" using split_obj [OF g5(2), of a] split_None [OF g5(2), of a] a by (cases "heap g4 a") auto
    then show "heap ?g a = heap g a" using h4 h6 [of a] a l(3) hg by simp
  qed
  moreover have "\<forall>a \<in> set xs - M. heap ?g a = None \<longleftrightarrow> \<not> delays cbs g a"
  proof
    fix a assume "a \<in> set xs - M"
    then have a: "a \<in> L - M" using l(3) by simp
    obtain n where "heap g a = Some n" using marking_alloc [OF m] a by blast
    then obtain n' where "heap g5 a = Some n'" using o5 by blast
    then show "heap ?g a = None \<longleftrightarrow> \<not> delays cbs g a" using d6 [OF a] dW [OF a] hg by simp
  qed
  moreover have "alloced_size ?g = alloced_size g - sum_list (map (size_of g) (filter (\<lambda>a. a \<notin> M \<and> \<not> delays cbs g a) xs))"
  proof -
    have "map (size_of g5) (filter (\<lambda>a. \<not> delays cbs g5 a) ?W) = map (size_of g) (filter (\<lambda>a. \<not> delays cbs g a) ?W)"
      using dW W5 sW by (intro map_cong filter_cong) (auto simp del: set_rev)
    also have "\<dots> = map (size_of g) (rev (filter (\<lambda>a. a \<notin> M \<and> \<not> delays cbs g a) xs))"
      by (simp add: rev_filter [symmetric] conj_commute)
    finally have "sum_list (map (size_of g5) (filter (\<lambda>a. \<not> delays cbs g5 a) ?W))
      = sum_list (map (size_of g) (filter (\<lambda>a. a \<notin> M \<and> \<not> delays cbs g a) xs))" by (simp add: sum_list_rev_map)
    then show ?thesis using a6 f5 f4 by (simp add: fklVMgcUpdateThreshold_def)
  qed
  moreover have "threshold ?g = alloced_size ?g * 2" by (simp add: fklVMgcUpdateThreshold_def)
  ultimately have "swept_to cbs xs M g ?g" unfolding swept_to_def by blast
  then show ?thesis unfolding run by simp
qed

end
