(* ===== verification/GcCycle.thy ===== *)
theory GcCycle
  imports GcFinish
begin

text \<open>
  One collection as a whole: from the invariant to the invariant, with the objects that could be reached.
\<close>

section \<open>What the cleaned objects hold\<close>

lemma entry_ptrs_filter: "set (entry_ptrs ks vs (filter P es)) \<subseteq> set (entry_ptrs ks vs es)"
proof (induction es)
  case (Cons e es)
  then show ?case by (cases e) auto
qed simp

lemma ud_kids_clean: "set (ud_kids cbs mt (clean_ud live u)) \<subseteq> set (ud_kids cbs mt u)"
proof (cases u)
  case (UdWeakHash wk wv es)
  then have "clean_ud live u = UdWeakHash wk wv (filter (\<lambda>(k, v). (wk \<longrightarrow> live k) \<and> (wv \<longrightarrow> live v)) es)" by simp
  moreover have "set (entry_ptrs (\<not> wk) (\<not> wv) (filter (\<lambda>(k, v). (wk \<longrightarrow> live k) \<and> (wv \<longrightarrow> live v)) es)) \<subseteq> set (entry_ptrs (\<not> wk) (\<not> wv) es)"
    by (rule entry_ptrs_filter)
  ultimately show ?thesis unfolding UdWeakHash
    by (cases "mt_atomic mt"; cases "the (mt_atomic mt)") (simp_all add: ud_kids_def)
qed (auto simp: ud_kids_def split: option.splits ud_atomic.splits)

lemma ud_typed_clean: "ud_typed mt u \<Longrightarrow> ud_typed mt (clean_ud live u)"
  by (cases u) (auto simp: ud_typed_def split: option.splits ud_atomic.splits ud_weak.splits)

lemma entry_ptrs_live: "p \<in> set (entry_ptrs wk wv (filter (\<lambda>(k, v). (wk \<longrightarrow> live k) \<and> (wv \<longrightarrow> live v)) es)) \<Longrightarrow> live p"
  by (induction es) (auto split: if_splits)

text \<open>An object of \<open>g'\<close> that has the contents it has in \<open>g\<close>, perhaps cleaned.\<close>

definition kept_obj :: "(vmptr \<Rightarrow> bool) \<Rightarrow> 'd gcst \<Rightarrow> 'd gcst \<Rightarrow> nat \<Rightarrow> bool" where
  "kept_obj live g g' a \<longleftrightarrow> (\<exists>n n'. heap g a = Some n \<and> heap g' a = Some n' \<and> (body n' = body n \<or> body n' = clean_body live (body n)))"

lemma clean_body_cases: "(\<exists>tp u. b = VmUd tp u \<and> clean_body live b = VmUd tp (clean_ud live u)) \<or> clean_body live b = b"
  by (cases b) simp_all

lemma kept_meta: "kept_obj live g g' tp \<Longrightarrow> meta_of g' tp = meta_of g tp"
proof -
  assume "kept_obj live g g' tp"
  then obtain n n' where n: "heap g tp = Some n" "heap g' tp = Some n'" and b: "body n' = body n \<or> body n' = clean_body live (body n)"
    by (auto simp: kept_obj_def)
  show ?thesis
  proof (cases "body n' = body n")
    case False
    then obtain t u where "body n = VmUd t u" "body n' = VmUd t (clean_ud live u)" using b clean_body_cases [of "body n" live] by auto
    then show ?thesis using n by (cases u) (simp_all add: meta_of_def)
  qed (use n in \<open>simp add: meta_of_def\<close>)
qed

lemma kept_kids:
  assumes k: "kept_obj live g g' a" and m: "map stack (machines g') = map stack (machines g)"
    and t: "\<And>n tp u. heap g a = Some n \<Longrightarrow> body n = VmUd tp u \<Longrightarrow> meta_of g' tp = meta_of g tp"
  shows "set (kids cbs g' a) \<subseteq> set (kids cbs g a)" "obj_typed g a \<Longrightarrow> obj_typed g' a"
proof -
  have rv: "ref_value g' r = ref_value g r" for r unfolding ref_value_machines m ..
  obtain n n' where n: "heap g a = Some n" "heap g' a = Some n'" and b: "body n' = body n \<or> body n' = clean_body live (body n)"
    using k by (auto simp: kept_obj_def)
  show "set (kids cbs g' a) \<subseteq> set (kids cbs g a)"
  proof (cases "\<exists>tp u. body n = VmUd tp u")
    case True
    then obtain tp u where u: "body n = VmUd tp u" by blast
    have "set (kids cbs g' a) \<subseteq> set (kids cbs g a)" if "body n' = VmUd tp v" "v = u \<or> v = clean_ud live u" for v
    proof (cases "meta_of g tp")
      case (Some mt)
      have "set (ud_kids cbs mt v) \<subseteq> set (ud_kids cbs mt u)" using that(2) ud_kids_clean [of cbs mt live u] by blast
      then show ?thesis using n u that(1) t [OF n(1) u] Some by (auto simp: kids_def)
    qed (use n u that(1) t [OF n(1) u] in \<open>simp add: kids_def\<close>)
    then show ?thesis using b u by auto
  next
    case False
    then have "body n' = body n" using b by auto
    then show ?thesis using n False rv by (auto simp: kids_def split: body.splits)
  qed
  show "obj_typed g a \<Longrightarrow> obj_typed g' a"
  proof (cases "\<exists>tp u. body n = VmUd tp u")
    case True
    assume ty: "obj_typed g a"
    obtain tp u where u: "body n = VmUd tp u" using True by blast
    obtain mt where mt: "meta_of g tp = Some mt" "ud_typed mt u" using ty n u by (auto simp: obj_typed_def)
    have "obj_typed g' a" if "body n' = VmUd tp v" "v = u \<or> v = clean_ud live u" for v
      using n that t [OF n(1) u] mt ud_typed_clean [OF mt(2)] by (auto simp: obj_typed_def)
    then show ?thesis using b u by auto
  next
    case False
    assume ty: "obj_typed g a"
    have "body n' = body n" using b False by auto
    then show ?thesis using n False rv ty by (auto simp: obj_typed_def split: body.splits)
  qed
qed

lemma clean_weak_ptrs:
  assumes n: "heap g a = Some n" "heap g' a = Some n'" "body n' = clean_body live (body n)" and p: "p \<in> set (weak_ptrs g' a)"
  shows "live p \<and> p \<in> set (weak_ptrs g a)"
proof (cases "\<exists>tp u. body n = VmUd tp u")
  case True
  then obtain tp u where u: "body n = VmUd tp u" by blast
  show ?thesis
  proof (cases u)
    case (UdWeakHash wk wv es)
    then have "p \<in> set (entry_ptrs wk wv (filter (\<lambda>(k, v). (wk \<longrightarrow> live k) \<and> (wv \<longrightarrow> live v)) es))"
      using p n u by (simp add: weak_ptrs_def)
    then have "live p" "p \<in> set (entry_ptrs wk wv es)" using entry_ptrs_live entry_ptrs_filter by blast+
    then show ?thesis using n u UdWeakHash by (simp add: weak_ptrs_def)
  qed (use n u p in \<open>auto simp: weak_ptrs_def\<close>)
next
  case False
  then have "weak_ptrs g' a = []" using n by (cases "body n") (simp_all add: weak_ptrs_def)
  then show ?thesis using p by simp
qed

lemma kept_plist:
  assumes k: "\<And>a. a \<in> X \<Longrightarrow> kept_obj live g g' a \<and> points_into X (kids cbs g a)"
  shows "points_into X [p] \<Longrightarrow> plist g p xs \<Longrightarrow> plist g' p xs"
proof (induction xs arbitrary: p)
  case Nil
  show ?case
  proof (cases p)
    case (PObj a)
    then have "kept_obj live g g' a" using k Nil(1) by simp
    then obtain n n' where n: "heap g a = Some n" "heap g' a = Some n'" "body n' = body n \<or> body n' = clean_body live (body n)"
      by (auto simp: kept_obj_def)
    have "(\<exists>tp u v. body n = VmUd tp u \<and> body n' = VmUd tp v) \<or> body n' = body n" using n(3) clean_body_cases [of "body n" live] by auto
    then show ?thesis using Nil(2) PObj n(1,2) by (auto simp: as_pair_def)
  qed (use Nil(2) in \<open>simp_all add: as_pair_def\<close>)
next
  case (Cons a xs)
  obtain n x d where n: "p = PObj a" "heap g a = Some n" "body n = VmPair x d" "is_closed_var_ref g x \<noteq> None" "plist g d xs"
    using Cons.prems(2) by auto
  have aX: "a \<in> X" using Cons.prems(1) n(1) by simp
  have "kids cbs g a = [x, d]" using n(2,3) by (simp add: kids_def)
  then have xd: "points_into X [x]" "points_into X [d]" using k [OF aX] by simp_all
  obtain n' where n': "heap g' a = Some n'" "body n' = VmPair x d" using k [OF aX] n(2,3) by (auto simp: kept_obj_def)
  obtain c where c: "is_closed_var_ref g x = Some c" using n(4) by blast
  then obtain b m r where m: "x = PObj b" "heap g b = Some m" "body m = VmVarRef r" by (auto simp: is_closed_Some)
  have "kept_obj live g g' b" using k xd(1) m(1) by simp
  then obtain m' where "heap g' b = Some m'" "body m' = VmVarRef r" using m(2,3) by (auto simp: kept_obj_def)
  then have "is_closed_var_ref g' x \<noteq> None" using m(1) by (simp add: is_closed_var_ref_def)
  then show ?case using Cons.IH [OF xd(2) n(5)] n(1) n' by simp
qed


section \<open>The types of the userdata objects\<close>

text \<open>
  The sweep runs the finalizer of an object, which it finds in the type of the object: the types must not
  be released in the same collection. It is enough if every type in use is static or a direct pointer of
  the collector.
\<close>

definition pinned_types :: "'d callbacks \<Rightarrow> nat set \<Rightarrow> nat set \<Rightarrow> 'd gcst \<Rightarrow> bool" where
  "pinned_types cbs L S gc \<longleftrightarrow> (\<forall>a \<in> L. \<forall>n tp u. heap gc a = Some n \<longrightarrow> body n = VmUd tp u \<longrightarrow> tp \<in> S \<or> PObj tp \<in> set (own_ptrs cbs gc))"

text \<open>The contents of an object before and after; \<open>Y\<close> are the objects that are there afterwards.\<close>

definition live_in :: "nat set \<Rightarrow> vmptr \<Rightarrow> bool" where
  "live_in Y p \<longleftrightarrow> (\<exists>a \<in> Y. p = PObj a)"

definition kept_body :: "'d gcst \<Rightarrow> nat set \<Rightarrow> nat set \<Rightarrow> nat \<Rightarrow> 'd body \<Rightarrow> 'd body \<Rightarrow> bool" where
  "kept_body gc X Y a b b' \<longleftrightarrow> (a \<in> X \<and> (\<exists>x d d'. b = VmPair x d \<and> b' = VmPair x d' \<and> cdr_reach gc d d')) \<or> b' = clean_body (live_in Y) b"

text \<open>The roots other than the lists of the frames.\<close>

definition frame_fixed :: "'d callbacks \<Rightarrow> 'd frame \<Rightarrow> vmptr list" where
  "frame_fixed cbs f = (case f of Compound lr ll pr \<Rightarrow> [lr, pr] | OtherObj m d \<Rightarrow> frame_ptrs cbs f)"

definition machine_fixed :: "'d callbacks \<Rightarrow> 'd vm \<Rightarrow> vmptr list" where
  "machine_fixed cbs v = handler_ptrs cbs (atexits v) @ handler_ptrs cbs (int_list v) @ concat (map (frame_fixed cbs) (frames v))
     @ [vm_error v] @ stack_ptrs (stack v) 0 @ [chan v]"

definition fixed_roots :: "'d callbacks \<Rightarrow> 'd gcst \<Rightarrow> vmptr list" where
  "fixed_roots cbs gc = own_ptrs cbs gc @ concat (map (machine_fixed cbs) (machines gc))"

text \<open>
  What the sweep needs: no object dies together with its type. The objects past the lists of the frames
  stay, so it is enough that the object or its type is one of them.
\<close>

definition firm :: "'d callbacks \<Rightarrow> nat set \<Rightarrow> nat set \<Rightarrow> 'd gcst \<Rightarrow> nat set" where
  "firm cbs L X gc = reach_in cbs gc (L - X) (targets (L - X) (fixed_roots cbs gc))"

definition types_kept :: "'d callbacks \<Rightarrow> nat set \<Rightarrow> nat set \<Rightarrow> 'd gcst \<Rightarrow> bool" where
  "types_kept cbs L S gc \<longleftrightarrow> (\<forall>X. frame_pairs gc X \<longrightarrow>
     (\<forall>a \<in> L. \<forall>n tp u. heap gc a = Some n \<longrightarrow> body n = VmUd tp u \<longrightarrow> tp \<in> S \<or> tp \<in> firm cbs L X gc \<or> a \<in> firm cbs L X gc))"

definition collected_to :: "'d callbacks \<Rightarrow> nat set \<Rightarrow> nat set \<Rightarrow> nat set \<Rightarrow> 'd gcst \<Rightarrow> 'd gcst \<Rightarrow> bool" where
  "collected_to cbs L S M gc gc' \<longleftrightarrow> M \<subseteq> reach_in cbs gc L (targets L (roots cbs gc)) \<and> gc_inv cbs M S gc'
     \<and> own_part gc' = own_part gc \<and> list_all2 (machine_evolves gc) (map no_objs (machines gc)) (machines gc')
     \<and> (\<exists>X. frame_pairs gc X \<and> reach_in cbs gc (L - X) (targets (L - X) (fixed_roots cbs gc)) \<subseteq> M
         \<and> (\<forall>a \<in> M. \<exists>n n'. heap gc a = Some n \<and> heap gc' a = Some n' \<and> zsize n' = zsize n
           \<and> kept_body gc X (M \<union> S) a (body n) (body n')))
     \<and> (\<forall>a \<in> L - M. heap gc' a = None \<longleftrightarrow> \<not> delays cbs gc a)
     \<and> alloced_size gc' = alloced_size gc - (\<Sum>a \<in> {a \<in> L - M. \<not> delays cbs gc a}. size_of gc a)
     \<and> threshold gc' = alloced_size gc' * 2"


section \<open>The invariant holds again\<close>

text \<open>A pointer of a table is live when it leads to an object that stays.\<close>

lemma is_live_in:
  assumes m: "marking L S g gs ws" and M: "marked L g = M" and p: "points_into (L \<union> S) [p]"
  shows "is_live g p = live_in (M \<union> S) p"
proof (cases p)
  case (PObj a)
  then have a: "a \<in> L \<union> S" using p by simp
  then obtain n where n: "heap g a = Some n" using marking_alloc [OF m] by blast
  have bS: "a \<in> S \<Longrightarrow> mark_of n = FKL_MARK_B" using m n by (auto simp: marking_def)
  have "mark_of n \<noteq> FKL_MARK_W \<longleftrightarrow> a \<in> M \<union> S" using a n bS M m by (auto simp: marked_def marking_def)
  then show ?thesis using PObj n by (auto simp: is_live_def fklVMgcIsMarked_def live_in_def)
qed (auto simp: is_live_def fklVMgcIsMarked_def live_in_def)

lemma swept_kept:
  assumes m: "marking L S g gs ws" and M: "marked L g = M" and sw: "swept_to cbs xs M g g'" and xs: "set xs = L" and a: "a \<in> M \<union> S"
  shows "kept_obj (is_live g) g g' a"
proof (cases "a \<in> M")
  case True
  then show ?thesis using sw unfolding swept_to_def kept_obj_def by metis
next
  case False
  then have aS: "a \<in> S" using a by blast
  then have "a \<notin> set xs" using m xs by (auto simp: marking_def)
  then have "heap g' a = heap g a" using sw unfolding swept_to_def by blast
  moreover obtain n where "heap g a = Some n" using marking_alloc [OF m] aS by blast
  ultimately show ?thesis by (auto simp: kept_obj_def)
qed

lemma live_closed:
  assumes c: "closed_heap cbs L S g" and M: "M = reach_in cbs g L (targets L ps)" and a: "a \<in> M \<union> S"
  shows "points_into (M \<union> S) (kids cbs g a)"
  using reach_in_closed [OF c, of ps] a unfolding M [symmetric] closed_heap_def by blast

lemma swept_inv:
  assumes m: "marking L S g gs ws" and M: "marked L g = M" "M = reach_in cbs g L (targets L (roots cbs g))"
    and ok: "machines_ok g" and c: "closed_heap cbs L S g" and ro: "points_into (L \<union> S) (roots cbs g)"
    and wL: "\<And>a. a \<in> L \<Longrightarrow> points_into (L \<union> S) (weak_ptrs g a)" and wS: "\<And>a. a \<in> S \<Longrightarrow> points_into S (weak_ptrs g a)"
    and ho: "\<forall>v \<in> set (machines g). obj_head v = None \<and> obj_tail v = None"
    and xs: "distinct xs" "set xs = L" and sw: "swept_to cbs xs M g g'"
  shows "gc_inv cbs M S g'"
proof -
  have MsubL: "M \<subseteq> L" and LS: "L \<inter> S = {}" using M(1) m by (auto simp: marked_def marking_def)
  have D: "machines g' = machines g" "own_part g' = own_part g" "gray_list g' = None" "weak_refs g' = None"
    "lseg next_of (heap g') (gc_head g') (filter (\<lambda>a. a \<in> M) xs) None" "\<And>a. a \<notin> set xs \<Longrightarrow> heap g' a = heap g a"
    using sw unfolding swept_to_def by blast+
  have DM: "\<exists>n n'. heap g a = Some n \<and> heap g' a = Some n' \<and> mark_of n' = FKL_MARK_W \<and> body n' = clean_body (is_live g) (body n)" if "a \<in> M" for a
    using sw that unfolding swept_to_def by blast
  have hS: "heap g' a = heap g a" if "a \<in> S" for a using D(6) [of a] that xs LS by blast
  have kept: "kept_obj (is_live g) g g' a" if "a \<in> M \<union> S" for a by (rule swept_kept [OF m M(1) sw xs(2) that])
  have cl: "points_into (M \<union> S) (kids cbs g a)" if "a \<in> M \<union> S" for a by (rule live_closed [OF c M(2) that])
  have st: "map stack (machines g') = map stack (machines g)" using D(1) by simp
  have ty: "meta_of g' tp = meta_of g tp" if "a \<in> M \<union> S" "heap g a = Some n" "body n = VmUd tp u" for a n tp u
  proof -
    have "PObj tp \<in> set (kids cbs g a)" using that by (simp add: kids_def)
    then have "tp \<in> M \<union> S" using cl [OF that(1)] by (simp add: points_into_def)
    then show ?thesis by (rule kept_meta [OF kept])
  qed
  have kk: "set (kids cbs g' a) \<subseteq> set (kids cbs g a)" "obj_typed g a \<Longrightarrow> obj_typed g' a" if aM: "a \<in> M \<union> S" for a
  proof -
    show "set (kids cbs g' a) \<subseteq> set (kids cbs g a)" by (rule kept_kids(1) [OF kept [OF aM] st]) (rule ty [OF aM])
    show "obj_typed g a \<Longrightarrow> obj_typed g' a" by (rule kept_kids(2) [OF kept [OF aM] st]) (rule ty [OF aM])
  qed
  have sub: "points_into Y (kids cbs g a) \<Longrightarrow> points_into Y (kids cbs g' a)" if "a \<in> M \<union> S" for a Y
    using kk(1) [OF that] by (auto simp: points_into_def)
  have "obj_lists g' (filter (\<lambda>a. a \<in> M) xs)" unfolding obj_lists_def
  proof (intro conjI exI)
    show "lseg next_of (heap g') (gc_head g') (filter (\<lambda>a. a \<in> M) xs) None" by (rule D(5))
    have "list_all2 (vm_list g') vs (replicate (length vs) [])" if "\<forall>v \<in> set vs. obj_head v = None \<and> obj_tail v = None" for vs
      using that by (induction vs) (simp_all add: vm_list_def)
    then show "list_all2 (vm_list g') (machines g') (replicate (length (machines g')) [])" using ho D(1) by simp
    show "filter (\<lambda>a. a \<in> M) xs = filter (\<lambda>a. a \<in> M) xs @ concat (replicate (length (machines g')) [])" by simp
    show "distinct (filter (\<lambda>a. a \<in> M) xs)" using xs(1) by simp
  qed
  moreover have "M = set (filter (\<lambda>a. a \<in> M) xs)" using MsubL xs(2) by auto
  moreover have "white g' a" if "a \<in> M" for a using DM [OF that] by (auto simp: white_def)
  moreover have "\<exists>n. heap g' a = Some n \<and> mark_of n = FKL_MARK_B" if aS: "a \<in> S" for a
  proof -
    obtain n where n: "heap g a = Some n" using marking_alloc [OF m] aS by blast
    then have "mark_of n = FKL_MARK_B" using m aS by (auto simp: marking_def)
    then show ?thesis using n hS [OF aS] by simp
  qed
  moreover have "closed_heap cbs M S g'" unfolding closed_heap_def
  proof (intro conjI ballI)
    fix a assume a: "a \<in> M \<union> S"
    show "obj_typed g' a" by (rule kk(2) [OF a]) (use c a MsubL in \<open>auto simp: closed_heap_def\<close>)
    show "points_into (M \<union> S) (kids cbs g' a)" by (rule sub [OF a cl [OF a]])
  next
    fix a assume a: "a \<in> S"
    show "points_into S (kids cbs g' a)" by (rule sub) (use c a in \<open>auto simp: closed_heap_def\<close>)
  qed
  moreover have "points_into (M \<union> S) (weak_ptrs g' a)" if aM: "a \<in> M" for a
    unfolding points_into_def
  proof (intro allI impI)
    fix b assume b: "PObj b \<in> set (weak_ptrs g' a)"
    obtain n n' where n: "heap g a = Some n" "heap g' a = Some n'" "body n' = clean_body (is_live g) (body n)" using DM [OF aM] by blast
    have lb: "is_live g (PObj b)" "PObj b \<in> set (weak_ptrs g a)" using clean_weak_ptrs [OF n b] by blast+
    have "b \<in> L \<union> S" using lb(2) wL [of a] aM MsubL by (auto simp: points_into_def)
    then have "live_in (M \<union> S) (PObj b)" using is_live_in [OF m M(1), of "PObj b"] lb(1) by simp
    then show "b \<in> M \<union> S" by (simp add: live_in_def)
  qed
  moreover have "points_into S (weak_ptrs g' a)" if "a \<in> S" for a
    using wS [OF that] hS [OF that] by (simp add: weak_ptrs_def)
  moreover have re: "points_into (M \<union> S) (roots cbs g')"
  proof -
    have "roots cbs g' = roots cbs g" using D(1) own_ptrs_part [OF D(2)] by (simp add: roots_eq)
    moreover have "points_into (M \<union> S) (roots cbs g)" unfolding points_into_def
    proof (intro allI impI)
      fix b assume b: "PObj b \<in> set (roots cbs g)"
      have "b \<in> L \<union> S" using ro b by (simp add: points_into_def)
      moreover have "b \<in> M" if "b \<in> L" using that b unfolding M(2) by (auto simp: targets_def intro: reach_in.intros)
      ultimately show "b \<in> M \<union> S" by blast
    qed
    ultimately show ?thesis by simp
  qed
  moreover have "machines_ok g'"
  proof -
    obtain zs where "frame_lists g (concat (map frames (machines g))) zs" using ok by (auto simp: machines_ok_def)
    then obtain xss where xss: "list_all2 (frame_list g) (concat (map frames (machines g))) xss" "zs = concat xss" "distinct zs"
      by (auto simp: frame_lists_def)
    have fp: "points_into (M \<union> S) (frame_ptrs cbs f)" if "f \<in> set (concat (map frames (machines g)))" for f
      using re that D(1) by (auto simp: roots_eq machine_ptrs_def points_into_concat)
    have "list_all2 (frame_list g') (concat (map frames (machines g))) xss"
    proof (rule list.rel_mono_strong [OF xss(1)])
      fix f ys assume f: "f \<in> set (concat (map frames (machines g)))" "frame_list g f ys"
      show "frame_list g' f ys"
      proof (cases f)
        case (Compound lr ll pr)
        have "points_into (M \<union> S) [ll]" using fp [OF f(1)] Compound by (simp add: frame_ptrs_def)
        moreover have "plist g ll ys" using f(2) Compound by (simp add: frame_list_def)
        ultimately have "plist g' ll ys" using kept_plist [of "M \<union> S" "is_live g" g g' cbs ll ys] kept cl by blast
        then show ?thesis using Compound by (simp add: frame_list_def)
      next
        case (OtherObj mk d)
        then show ?thesis using f(2) by (simp add: frame_list_def)
      qed
    qed
    then have "frame_lists g' (concat (map frames (machines g'))) zs" using xss(2,3) D(1) by (auto simp: frame_lists_def)
    then show ?thesis using ok D(1) by (auto simp: machines_ok_def)
  qed
  ultimately show ?thesis unfolding gc_inv_def using D(3,4) MsubL LS by blast
qed

end
