(* ===== verification/GcCollect.thy ===== *)
theory GcCollect
  imports GcCycle
begin

text \<open>
  \<open>collect_garbage\<close>: from a state with the invariant it returns, in a state with the invariant whose objects
  are among those that could be reached.
\<close>

section \<open>From the state before to the marked one\<close>

lemma same_graph_sym: "same_graph gc g \<Longrightarrow> same_graph g gc"
  by (simp add: same_graph_def)

lemma same_graph_cdr: "cdr_reach g p q \<Longrightarrow> same_graph gc g \<Longrightarrow> cdr_reach gc p q"
proof (induction rule: cdr_reach.induct)
  case (cdr_step a n x d q)
  obtain k where "heap gc a = Some k" "body k = VmPair x d" using same_graph_body [OF cdr_step.prems, of a] cdr_step.hyps(1,2) by (cases "heap gc a") auto
  then show ?case using cdr_step by (auto intro: cdr_reach.intros)
qed (rule cdr_here)

lemma same_graph_machines: "same_graph gc g \<Longrightarrow> machine_evolves g v v' \<Longrightarrow> machine_evolves gc v v'"
proof -
  assume s: "same_graph gc g" and m: "machine_evolves g v v'"
  have "frame_evolves gc f f'" if "frame_evolves g f f'" for f f'
    using that same_graph_cdr [OF _ s] by (cases f) (auto simp: frame_evolves_def)
  then show ?thesis using m unfolding machine_evolves_def by (auto elim: list.rel_mono_strong)
qed

lemma moved_facts:
  assumes i: "gc_inv cbs L S gc" and v: "moved cbs L S gc g"
  shows "closed_heap cbs L S g" "machines_ok g" "roots cbs g = roots cbs gc" "points_into (L \<union> S) (roots cbs g)"
    "\<And>a. a \<in> L \<Longrightarrow> points_into (L \<union> S) (weak_ptrs g a)" "\<And>a. a \<in> S \<Longrightarrow> points_into S (weak_ptrs g a)"
    "\<forall>v \<in> set (machines g). obj_head v = None \<and> obj_tail v = None"
proof -
  have sg: "same_graph gc g" and ms: "machines g = map no_objs (machines gc)" and op: "own_part g = own_part gc"
    using v unfolding moved_def by blast+
  show "closed_heap cbs L S g" using gc_invD(7) [OF i] same_graph_closed [OF sg] by blast
  show "machines_ok g" by (rule machines_ok_move [OF gc_invD(11) [OF i] sg ms])
  show r: "roots cbs g = roots cbs gc" using own_ptrs_part [OF op] ms by (simp add: roots_eq comp_def)
  show "points_into (L \<union> S) (roots cbs g)" using gc_invD(10) [OF i] r by simp
  show "points_into (L \<union> S) (weak_ptrs g a)" if "a \<in> L" for a using gc_invD(8) [OF i that] same_graph_weak [OF sg] by simp
  show "points_into S (weak_ptrs g a)" if "a \<in> S" for a using gc_invD(9) [OF i that] same_graph_weak [OF sg] by simp
  show "\<forall>v \<in> set (machines g). obj_head v = None \<and> obj_tail v = None" using ms by auto
qed

lemma weak_ptrs_evolves: "evolves X gc g \<Longrightarrow> weak_ptrs g a = weak_ptrs gc a"
proof (cases "heap gc a")
  case None
  assume "evolves X gc g"
  then have "heap g a = None" using None by (rule evolves_None)
  then show ?thesis using None by (simp add: weak_ptrs_def)
next
  case (Some n)
  assume e: "evolves X gc g"
  obtain k where k: "heap g a = Some k" "relinked X gc a (body n) (body k)" using evolves_D [OF e Some] by blast
  then show ?thesis using Some by (auto simp: weak_ptrs_def relinked_def)
qed

lemma phase_weak: "phase_evolves X gc g \<Longrightarrow> weak_ptrs g a = weak_ptrs gc a"
  using phase_graph [of X gc g] weak_ptrs_evolves [of X gc "g\<lparr>gcvm := gcvm gc, vms := vms gc\<rparr>" a]
    same_graph_weak [of "g\<lparr>gcvm := gcvm gc, vms := vms gc\<rparr>" g a] by simp

lemma phase_obj:
  assumes p: "phase_evolves X gc g" and n: "heap gc a = Some n"
  shows "\<exists>k. heap g a = Some k \<and> next_of k = next_of n \<and> zsize k = zsize n \<and> relinked X gc a (body n) (body k)"
  using evolves_D [OF conjunct1 [OF phase_graph [OF p]] n] by simp

lemma phase_None: "phase_evolves X gc g \<Longrightarrow> heap gc a = None \<Longrightarrow> heap g a = None"
  using evolves_None [OF conjunct1 [OF phase_graph [of X gc g]], of a] by simp

lemma phase_lseg: "phase_evolves X gc g \<Longrightarrow> lseg next_of (heap gc) p xs q \<Longrightarrow> lseg next_of (heap g) p xs q"
proof (rule lseg_cong)
  fix a assume p: "phase_evolves X gc g"
  show "map_option next_of (heap g a) = map_option next_of (heap gc a)"
    using phase_obj [OF p, of a] phase_None [OF p, of a] by (cases "heap gc a") auto
qed

lemma phase_head: "phase_evolves X gc g \<Longrightarrow> gc_head g = gc_head gc \<and> alloced_size g = alloced_size gc"
proof -
  assume p: "phase_evolves X gc g"
  let ?g = "g\<lparr>gcvm := gcvm gc, vms := vms gc\<rparr>"
  have "?g = gc\<lparr>heap := heap ?g, gray_list := gray_list ?g, weak_refs := weak_refs ?g\<rparr>"
    using conjunct1 [OF phase_graph [OF p]] unfolding evolves_def by (rule conjunct1)
  then have "alloced_size ?g = alloced_size gc" by (metis gcst.select_convs(5) gcst.surjective gcst.update_convs(1,3,4))
  moreover have "gc_head ?g = gc_head gc" using evolves_fields(3) [OF conjunct1 [OF phase_graph [OF p]]] .
  ultimately show ?thesis by simp
qed

lemma meta_phase: "phase_evolves X gc g \<Longrightarrow> meta_of gc tp = Some mt \<Longrightarrow> meta_of g tp = Some mt"
proof -
  assume p: "phase_evolves X gc g" and m: "meta_of gc tp = Some mt"
  have "meta_of (g\<lparr>gcvm := gcvm gc, vms := vms gc\<rparr>) tp = Some mt" by (rule meta_of_evolves [OF conjunct1 [OF phase_graph [OF p]] m])
  then show ?thesis by (simp add: meta_of_def)
qed

lemma phase_delays:
  assumes p: "phase_evolves X gc g" and t: "obj_typed gc a"
  shows "delays cbs g a = delays cbs gc a"
proof -
  obtain n where n: "heap gc a = Some n" using t by (auto simp: obj_typed_def)
  obtain k where k: "heap g a = Some k" "relinked X gc a (body n) (body k)" using phase_obj [OF p n] by blast
  show ?thesis
  proof (cases "\<exists>tp u. body n = VmUd tp u")
    case True
    then obtain tp u where u: "body n = VmUd tp u" by blast
    then have b: "body k = VmUd tp u" using k(2) by (auto simp: relinked_def)
    obtain mt where "meta_of gc tp = Some mt" using t n u by (auto simp: obj_typed_def)
    then have "finalize_ud cbs tp u g = finalize_ud cbs tp u gc" using meta_phase [OF p] by (simp add: finalize_ud_def)
    then show ?thesis using n k(1) u b by (simp add: delays_def)
  next
    case False
    then have "\<not> (\<exists>tp u. body k = VmUd tp u)" using k(2) by (auto simp: relinked_def)
    then show ?thesis using False n k(1) by (simp add: delays_def)
  qed
qed

lemma clean_body_cong:
  assumes n: "heap g a = Some n" and l: "\<And>p. p \<in> set (weak_ptrs g a) \<Longrightarrow> live p = live' p"
  shows "clean_body live (body n) = clean_body live' (body n)"
proof (cases "\<exists>tp u. body n = VmUd tp u")
  case True
  then obtain tp u where u: "body n = VmUd tp u" by blast
  have "clean_ud live u = clean_ud live' u"
  proof (cases u)
    case (UdWeakHash wk wv es)
    have "\<And>p. p \<in> set (entry_ptrs wk wv es) \<Longrightarrow> live p = live' p" using l n u UdWeakHash by (simp add: weak_ptrs_def)
    then have "filter (\<lambda>(k, v). (wk \<longrightarrow> live k) \<and> (wv \<longrightarrow> live v)) es = filter (\<lambda>(k, v). (wk \<longrightarrow> live' k) \<and> (wv \<longrightarrow> live' v)) es"
    proof (induction es)
      case (Cons e es)
      then show ?case by (cases e) auto
    qed simp
    then show ?thesis using UdWeakHash by simp
  next
    case (UdObarray es)
    have "live v = live' v" if "(s, v) \<in> set es" for s v
      by (rule l) (use n u UdObarray that in \<open>force simp: weak_ptrs_def\<close>)
    then have "filter (\<lambda>(s, v). live v) es = filter (\<lambda>(s, v). live' v) es" by (intro filter_cong) auto
    then show ?thesis using UdObarray by simp
  next
    case (UdLnt es)
    have "live k = live' k" if "(k, v) \<in> set es" for k v
      by (rule l) (use n u UdLnt that in \<open>force simp: weak_ptrs_def\<close>)
    then have "filter (\<lambda>(k, v). live k) es = filter (\<lambda>(k, v). live' k) es" by (intro filter_cong) auto
    then show ?thesis using UdLnt by simp
  qed simp_all
  then show ?thesis using u by simp
qed simp

text \<open>What can be reached past the lists of the frames is marked.\<close>

lemma fixed_roots_kept:
  assumes "list_all2 (machine_evolves gc) (machines gc) (machines g)" "own_part g = own_part gc"
  shows "set (fixed_roots cbs gc) \<subseteq> set (roots cbs g)"
proof -
  have f: "set (concat (map (frame_fixed cbs) fs)) \<subseteq> set (concat (map (frame_ptrs cbs) fs'))" if "list_all2 (frame_evolves gc) fs fs'" for fs fs'
    using that by (induction rule: list_all2_induct) (auto simp: frame_fixed_def frame_ptrs_def frame_evolves_def split: frame.splits)
  have m: "set (machine_fixed cbs v) \<subseteq> set (machine_ptrs cbs v')" if v: "machine_evolves gc v v'" for v v'
  proof -
    have "list_all2 (frame_evolves gc) (frames v) (frames v')" using v unfolding machine_evolves_def by (rule conjunct2)
    from f [OF this] show ?thesis using machine_evolves_fields(1-5) [OF v] by (auto simp: machine_fixed_def machine_ptrs_def)
  qed
  have "set (concat (map (machine_fixed cbs) vs)) \<subseteq> set (concat (map (machine_ptrs cbs) vs'))" if "list_all2 (machine_evolves gc) vs vs'" for vs vs'
    using that
  proof (induction rule: list_all2_induct)
    case (Cons v vs v' vs')
    then show ?case using m [OF Cons(1)] by auto
  qed simp
  from this [OF assms(1)] show ?thesis using own_ptrs_part [OF assms(2)] by (auto simp: fixed_roots_def roots_eq)
qed

lemma phase_kids:
  assumes p: "phase_evolves X gc g" and t: "obj_typed gc a" and x: "a \<notin> X"
  shows "kids cbs g a = kids cbs gc a"
proof -
  obtain n where n: "heap gc a = Some n" using t by (auto simp: obj_typed_def)
  obtain k where k: "heap g a = Some k" "body k = body n" using phase_obj [OF p n] x by (auto simp: relinked_def)
  have rv: "ref_value g r = ref_value gc r" for r unfolding ref_value_machines phase_stacks [OF p] ..
  show ?thesis
  proof (cases "\<exists>tp u. body n = VmUd tp u")
    case True
    then obtain tp u where u: "body n = VmUd tp u" by blast
    then obtain mt where "meta_of gc tp = Some mt" using t n by (auto simp: obj_typed_def)
    then have "meta_of g tp = meta_of gc tp" using meta_phase [OF p] by simp
    then show ?thesis using n k u by (simp add: kids_def)
  qed (use n k rv in \<open>auto simp: kids_def split: body.splits\<close>)
qed

lemma fixed_reach:
  assumes f: "marked_from cbs L S gc X M g" and c: "closed_heap cbs L S gc"
  shows "reach_in cbs gc (L - X) (targets (L - X) (fixed_roots cbs gc)) \<subseteq> M"
proof
  fix a assume a: "a \<in> reach_in cbs gc (L - X) (targets (L - X) (fixed_roots cbs gc))"
  have P: "phase_evolves X gc g" "M = reach_in cbs g L (targets L (roots cbs g))" using f unfolding marked_from_def by blast+
  have r: "set (fixed_roots cbs gc) \<subseteq> set (roots cbs g)" by (rule fixed_roots_kept [OF phase_machines [OF P(1)] phase_own [OF P(1)]])
  have "a \<in> M \<inter> (L - X)" using a
  proof (rule reach_in_least)
    show "targets (L - X) (fixed_roots cbs gc) \<subseteq> M \<inter> (L - X)" unfolding P(2)
      using r by (auto simp: targets_def intro!: reach_in.intros(1))
    fix b assume b: "b \<in> M \<inter> (L - X)"
    have "kids cbs g b = kids cbs gc b" by (rule phase_kids [OF P(1)]) (use b c in \<open>auto simp: closed_heap_def\<close>)
    moreover have "b \<in> reach_in cbs g L (targets L (roots cbs g))" using b P(2) by blast
    ultimately show "targets (L - X) (kids cbs gc b) \<subseteq> M \<inter> (L - X)"
      unfolding P(2) by (auto simp: targets_def intro!: reach_kid [of b])
  qed
  then show "a \<in> M" by blast
qed

section \<open>The collection\<close>

lemma wp_collect_kept:
  assumes i: "gc_inv cbs L S gc" and pt: "types_kept cbs L S gc"
  shows "wp (collect_garbage cbs gc) (\<lambda>gc'. \<exists>M. M \<subseteq> L \<and> collected_to cbs L S M gc gc')"
proof -
  obtain g1 where r1: "do { (g, v) \<leftarrow> fklMoveThreadObjectsToGc (gcvm gc) gc; (g, vs) \<leftarrow> move_all (vms g) g; Some (g\<lparr>gcvm := v, vms := vs\<rparr>) } = Some g1"
    and v: "moved cbs L S gc g1" using wp_move_phase [OF i] by (rule wpE)
  note F = moved_facts [OF i v]
  obtain xs where xs: "lseg next_of (heap g1) (gc_head g1) xs None" "distinct xs" "set xs = L" using v unfolding moved_def by blast
  have V: "marking L S g1 [] []" "marked L g1 = {}" "same_graph gc g1" "machines g1 = map no_objs (machines gc)"
    "own_part g1 = own_part gc" "alloced_size g1 = alloced_size gc" "\<And>a. size_of g1 a = size_of gc a" using v unfolding moved_def by blast+
  have fin: "finite L" using xs(3) by auto
  obtain g3 X M where r3: "do { g \<leftarrow> fklVMgcMarkAllRootToGray cbs g1; propagate_all cbs g } = Some g3" and f: "marked_from cbs L S g1 X M g3"
    using wp_mark_phase [OF V(1,2) F(1,2,4) fin] by (auto elim!: wpE)
  obtain ws where P: "phase_evolves X g1 g3" "frame_pairs g1 X" "machines_ok g3" "marked L g3 = M"
    "M = reach_in cbs g3 L (targets L (roots cbs g3))" "marking L S g3 [] ws" "set ws = M \<inter> weak_tables g3"
    using f unfolding marked_from_def by blast
  have c3: "closed_heap cbs L S g3" by (rule phase_closed [OF F(1) P(1)])
  have ro3: "points_into (L \<union> S) (roots cbs g3)" by (rule phase_roots [OF F(1) P(1) F(4)])
  have w3: "\<And>a. a \<in> L \<Longrightarrow> points_into (L \<union> S) (weak_ptrs g3 a)" "\<And>a. a \<in> S \<Longrightarrow> points_into S (weak_ptrs g3 a)"
    using F(5,6) phase_weak [OF P(1)] by simp_all
  have l3: "lseg next_of (heap g3) (gc_head g3) xs None" using phase_lseg [OF P(1) xs(1)] phase_head [OF P(1)] by simp
  have o3: "own_part g3 = own_part gc" using phase_own [OF P(1)] V(5) by simp
  have bod: "\<exists>n. heap gc a = Some n \<and> zsize k = zsize n \<and> (body k = body n \<or> a \<in> X \<and> (\<exists>x d d'. body n = VmPair x d \<and> body k = VmPair x d' \<and> cdr_reach gc d d'))"
    if k: "heap g3 a = Some k" for a k
  proof -
    obtain n1 where n1: "heap g1 a = Some n1" using phase_None [OF P(1), of a] k by (cases "heap g1 a") auto
    have k1: "zsize k = zsize n1" "relinked X g1 a (body n1) (body k)" using phase_obj [OF P(1) n1] k by auto
    obtain n where n: "heap gc a = Some n" "body n = body n1" using same_graph_body [OF V(3), of a] n1 by (cases "heap gc a") auto
    have "zsize n1 = zsize n" using V(7) [of a] n n1 by (simp add: size_of_def)
    then show ?thesis using k1 n same_graph_cdr [OF _ V(3)] unfolding relinked_def by fastforce
  qed
  have fp: "frame_pairs gc X"
  proof -
    obtain zs where zs: "frame_lists g1 (concat (map frames (machines g1))) zs" "X = set zs" using P(2) by (auto simp: frame_pairs_def)
    have "map frames (machines g1) = map frames (machines gc)" using V(4) by simp
    then have "frame_lists gc (concat (map frames (machines gc))) zs" using same_graph_lists [OF same_graph_sym [OF V(3)] zs(1)] by simp
    then show ?thesis using zs(2) by (auto simp: frame_pairs_def)
  qed
  have fixed: "reach_in cbs gc (L - X) (targets (L - X) (fixed_roots cbs gc)) \<subseteq> M"
  proof -
    have "fixed_roots cbs g1 = fixed_roots cbs gc"
    proof -
      have "machine_fixed cbs (no_objs v) = machine_fixed cbs v" for v by (simp add: machine_fixed_def no_objs_def)
      then show ?thesis using own_ptrs_part [OF V(5)] V(4) by (simp add: fixed_roots_def comp_def)
    qed
    then show ?thesis using fixed_reach [OF f F(1)] same_kids_reach [of cbs g1 gc] same_graph_kids [OF V(3)] by metis
  qed
  have ty: "tp \<in> M \<union> S" if a: "a \<in> L - M" "heap g3 a = Some k" "body k = VmUd tp u" for a k tp u
  proof -
    obtain n where n: "heap gc a = Some n" "body n = VmUd tp u" using bod [OF a(2)] a(3) by auto
    have "tp \<in> S \<or> tp \<in> firm cbs L X gc \<or> a \<in> firm cbs L X gc" using pt fp a(1) n unfolding types_kept_def by blast
    then show ?thesis using fixed a(1) unfolding firm_def by blast
  qed
  obtain g7 where r7: "do { g \<leftarrow> fklVMgcUpdateWeakRefs g3; (g, wh) \<leftarrow> fklVMgcCollect g None; g \<leftarrow> fklVMgcSweep cbs g wh; Some (fklVMgcUpdateThreshold g) } = Some g7"
    and sw: "swept_to cbs xs M g3 g7" using wp_finish [OF P(6,4,7) c3 w3(1) l3 xs(2,3) ty] by (rule wpE)
  have ho3: "\<forall>v \<in> set (machines g3). obj_head v = None \<and> obj_tail v = None"
  proof
    fix v assume v: "v \<in> set (machines g3)"
    obtain w where "w \<in> set (machines g1)" "machine_evolves g1 w v" by (rule bexE [OF list_all2_right [OF phase_machines [OF P(1)] v]])
    then show "obj_head v = None \<and> obj_tail v = None" using F(7) machine_evolves_fields(6,7) by metis
  qed
  have inv: "gc_inv cbs M S g7" by (rule swept_inv [OF P(6,4,5,3) c3 ro3 w3 ho3 xs(2,3) sw])
  have D: "machines g7 = machines g3" "own_part g7 = own_part g3" "\<And>a. a \<in> set xs - M \<Longrightarrow> heap g7 a = None \<longleftrightarrow> \<not> delays cbs g3 a"
    "alloced_size g7 = alloced_size g3 - sum_list (map (size_of g3) (filter (\<lambda>a. a \<notin> M \<and> \<not> delays cbs g3 a) xs))"
    "threshold g7 = alloced_size g7 * 2" using sw unfolding swept_to_def by blast+
  have MsubL: "M \<subseteq> L" using P(4) by (auto simp: marked_def)
  have dl: "delays cbs g3 a = delays cbs gc a" if a: "a \<in> L" for a
  proof -
    have t: "obj_typed g1 a" using F(1) a by (simp add: closed_heap_def)
    have "delays cbs g1 a = delays cbs gc a"
      by (rule delays_cong) (simp_all add: same_graph_body [OF V(3)] same_graph_meta [OF V(3)])
    then show ?thesis using phase_delays [OF P(1) t] by simp
  qed
  have sz: "size_of g3 a = size_of gc a" for a
  proof (cases "heap g1 a")
    case None
    then show ?thesis using phase_None [OF P(1)] V(7) [of a] by (simp add: size_of_def)
  next
    case (Some n)
    then show ?thesis using phase_obj [OF P(1) Some] V(7) [of a] by (auto simp: size_of_def)
  qed
  have reach: "M \<subseteq> reach_in cbs gc L (targets L (roots cbs gc))"
    using marked_reach [OF f F(1,4)] same_kids_reach [of cbs g1 gc] same_graph_kids [OF V(3)] F(3) by metis
  have mach: "list_all2 (machine_evolves gc) (map no_objs (machines gc)) (machines g7)"
    using phase_machines [OF P(1)] unfolding D(1) V(4) by (rule list.rel_mono_strong) (rule same_graph_machines [OF V(3)])
  have obj: "\<exists>n n'. heap gc a = Some n \<and> heap g7 a = Some n' \<and> zsize n' = zsize n \<and> kept_body gc X (M \<union> S) a (body n) (body n')" if a: "a \<in> M" for a
  proof -
    obtain k n' where k: "heap g3 a = Some k" "heap g7 a = Some n'" "zsize n' = zsize k" "body n' = clean_body (is_live g3) (body k)"
      using sw a unfolding swept_to_def by blast
    have "is_live g3 p = live_in (M \<union> S) p" if p: "p \<in> set (weak_ptrs g3 a)" for p
    proof (rule is_live_in [OF P(6,4)])
      show "points_into (L \<union> S) [p]" using w3(1) [of a] a MsubL p by (auto simp: points_into_def)
    qed
    then have cb: "body n' = clean_body (live_in (M \<union> S)) (body k)" using clean_body_cong [of g3 a k "is_live g3"] k(1,4) by simp
    obtain n where n: "heap gc a = Some n" "zsize k = zsize n"
      "body k = body n \<or> a \<in> X \<and> (\<exists>x d d'. body n = VmPair x d \<and> body k = VmPair x d' \<and> cdr_reach gc d d')" using bod [OF k(1)] by blast
    have "kept_body gc X (M \<union> S) a (body n) (body n')" using n(3) cb unfolding kept_body_def by auto
    then show ?thesis using n k by auto
  qed
  have al: "alloced_size g7 = alloced_size gc - (\<Sum>a \<in> {a \<in> L - M. \<not> delays cbs gc a}. size_of gc a)"
  proof -
    have "filter (\<lambda>a. a \<notin> M \<and> \<not> delays cbs g3 a) xs = filter (\<lambda>a. a \<notin> M \<and> \<not> delays cbs gc a) xs"
      using dl xs(3) by (auto intro!: filter_cong)
    moreover have "size_of g3 = size_of gc" using sz by (intro ext)
    moreover have "set (filter (\<lambda>a. a \<notin> M \<and> \<not> delays cbs gc a) xs) = {a \<in> L - M. \<not> delays cbs gc a}" using xs(3) by auto
    ultimately have "sum_list (map (size_of g3) (filter (\<lambda>a. a \<notin> M \<and> \<not> delays cbs g3 a) xs)) = (\<Sum>a \<in> {a \<in> L - M. \<not> delays cbs gc a}. size_of gc a)"
      using sum_list_distinct_conv_sum_set [of "filter (\<lambda>a. a \<notin> M \<and> \<not> delays cbs gc a) xs" "size_of gc"] xs(2) by simp
    then show ?thesis using D(4) phase_head [OF P(1)] V(6) by simp
  qed
  have fr: "heap g7 a = None \<longleftrightarrow> \<not> delays cbs gc a" if a: "a \<in> L - M" for a using D(3) [of a] dl [of a] a xs(3) by simp
  have "collected_to cbs L S M gc g7" unfolding collected_to_def
    using reach inv D(2) o3 mach fp obj al fr D(5) fixed by (intro conjI exI [of _ X]) auto
  moreover have "collect_garbage cbs gc = Some g7"
  proof -
    obtain a1 v1 a2 v2 where s1: "fklMoveThreadObjectsToGc (gcvm gc) gc = Some (a1, v1)" "move_all (vms a1) a1 = Some (a2, v2)" "g1 = a2\<lparr>gcvm := v1, vms := v2\<rparr>"
      using r1 by (auto simp: bind_eq_Some_conv)
    obtain a3 where s3: "fklVMgcMarkAllRootToGray cbs g1 = Some a3" "propagate_all cbs a3 = Some g3" using r3 by (auto simp: bind_eq_Some_conv)
    obtain a4 a5 wh a6 where s4: "fklVMgcUpdateWeakRefs g3 = Some a4" "fklVMgcCollect a4 None = Some (a5, wh)" "fklVMgcSweep cbs a5 wh = Some a6"
      "fklVMgcUpdateThreshold a6 = g7" using r7 by (auto simp: bind_eq_Some_conv)
    show ?thesis using s1 s3 s4 by (simp add: collect_garbage_def)
  qed
  ultimately show ?thesis using MsubL by auto
qed

lemma frame_pairs_body: "frame_pairs gc X \<Longrightarrow> a \<in> X \<Longrightarrow> \<exists>n x d. heap gc a = Some n \<and> body n = VmPair x d"
proof -
  have p: "\<exists>n x d. heap gc a = Some n \<and> body n = VmPair x d" if "plist gc r xs" "a \<in> set xs" for r xs
    using that by (induction xs arbitrary: r) auto
  assume "frame_pairs gc X" "a \<in> X"
  then obtain fs xss where x: "list_all2 (frame_list gc) fs xss" "a \<in> set (concat xss)" by (auto simp: frame_pairs_def frame_lists_def)
  then obtain xs where xs: "xs \<in> set xss" "a \<in> set xs" by auto
  obtain f where "frame_list gc f xs" using list_all2_right [OF x(1) xs(1)] by blast
  then show ?thesis using p xs(2) by (cases f) (auto simp: frame_list_def)
qed

text \<open>Types that are static or held by the collector itself are kept.\<close>

lemma pinned_kept:
  assumes i: "gc_inv cbs L S gc" and p: "pinned_types cbs L S gc"
  shows "types_kept cbs L S gc"
  unfolding types_kept_def
proof (intro allI impI ballI)
  fix X a n tp u assume X: "frame_pairs gc X" and a: "a \<in> L" and n: "heap gc a = Some n" "body n = VmUd tp u"
  have "tp \<in> firm cbs L X gc" if o: "PObj tp \<in> set (own_ptrs cbs gc)" "tp \<notin> S"
  proof -
    have "tp \<in> L" using gc_invD(10) [OF i] o by (auto simp: roots_eq points_into_def)
    moreover have "obj_typed gc a" using gc_invD(7) [OF i] a by (simp add: closed_heap_def)
    then obtain mt where "meta_of gc tp = Some mt" using n by (auto simp: obj_typed_def)
    then have "tp \<notin> X" using frame_pairs_body [OF X, of tp] by (auto simp: meta_of_def)
    ultimately show ?thesis using o(1) by (auto simp: firm_def fixed_roots_def targets_def intro!: reach_root)
  qed
  then show "tp \<in> S \<or> tp \<in> firm cbs L X gc \<or> a \<in> firm cbs L X gc" using p a n unfolding pinned_types_def by blast
qed

lemma wp_collect_garbage:
  assumes "gc_inv cbs L S gc" "pinned_types cbs L S gc"
  shows "wp (collect_garbage cbs gc) (\<lambda>gc'. \<exists>M. M \<subseteq> L \<and> collected_to cbs L S M gc gc')"
  by (rule wp_collect_kept [OF assms(1) pinned_kept [OF assms]])

end
