(* ===== verification/GcProps.thy ===== *)
theory GcProps
  imports GcCollect
begin

text \<open>
  The properties of the collector, with a small heap on which they are tried out, and what goes wrong when
  a type and one of its objects die together.
\<close>

section \<open>Dead types\<close>

text \<open>Sweeping an object whose type has been released reads released memory.\<close>

lemma Sweep_dead_type:
  assumes "lseg next_of (heap gc) hp ws None" "distinct ws" "a \<in> set ws" "heap gc a = Some n" "body n = VmUd tp u" "heap gc tp = None"
  shows "fklVMgcSweep cbs gc hp = None"
  using assms
proof (induction ws arbitrary: gc hp)
  case (Cons b ws)
  obtain m where m: "hp = Some b" "heap gc b = Some m" "lseg next_of (heap gc) (next_of m) ws None" using Cons.prems(1) by auto
  define g1 where "g1 = gc\<lparr>heap := (heap gc)(b \<mapsto> m\<lparr>next_of := None\<rparr>)\<rparr>"
  have step: "fklVMgcSweep cbs gc hp = Option.bind (destroy_vm_value cbs g1 b) (\<lambda>g. fklVMgcSweep cbs g (next_of m))"
    unfolding m(1) by (subst fklVMgcSweep.simps) (simp add: m(2) g1_def)
  have tb: "tp \<noteq> b" using m(2) Cons.prems(6) by auto
  show ?case
  proof (cases "a = b")
    case True
    have "heap g1 b = Some (n\<lparr>next_of := None\<rparr>)" using m(2) Cons.prems(4) True by (simp add: g1_def)
    moreover have "meta_of g1 tp = None" using tb Cons.prems(6) by (simp add: g1_def meta_of_def)
    ultimately have "destroy_vm_value cbs g1 b = None" using Cons.prems(5) by (simp add: destroy_vm_value_def finalize_ud_def)
    then show ?thesis unfolding step by simp
  next
    case False
    show ?thesis
    proof (cases "destroy_vm_value cbs g1 b")
      case None
      then show ?thesis unfolding step by simp
    next
      case (Some g2)
      have h: "heap g2 c = heap gc c" if "c \<noteq> b" for c
        using Some that by (auto simp: destroy_vm_value_def bind_eq_Some_conv g1_def split: if_splits)
      have l2: "lseg next_of (heap g2) (next_of m) ws None"
      proof (rule lseg_cong [OF _ m(3)])
        fix c assume "c \<in> set ws"
        then have "c \<noteq> b" using Cons.prems(2) by auto
        then show "map_option next_of (heap g2 c) = map_option next_of (heap gc c)" by (simp add: h)
      qed
      have "fklVMgcSweep cbs g2 (next_of m) = None"
        by (rule Cons.IH [OF l2]) (use Cons.prems False h [OF tb] h [OF False] in auto)
      then show ?thesis unfolding step Some by simp
    qed
  qed
qed simp

lemma Sweep_type_first:
  assumes l: "lseg next_of (heap gc) hp (tp # ws) None" "distinct (tp # ws)" and t: "heap gc tp = Some m" "\<not> delays cbs gc tp"
    and a: "a \<in> set ws" "heap gc a = Some n" "body n = VmUd tp u"
  shows "fklVMgcSweep cbs gc hp = None"
proof -
  have hp: "hp = Some tp" "lseg next_of (heap gc) (next_of m) ws None" using l(1) t(1) by auto
  define g1 where "g1 = gc\<lparr>heap := (heap gc)(tp \<mapsto> m\<lparr>next_of := None\<rparr>)\<rparr>"
  have step: "fklVMgcSweep cbs gc hp = Option.bind (destroy_vm_value cbs g1 tp) (\<lambda>g. fklVMgcSweep cbs g (next_of m))"
    unfolding hp(1) by (subst fklVMgcSweep.simps) (simp add: t(1) g1_def)
  have mt: "meta_of g1 x = meta_of gc x" for x using t(1) by (cases "x = tp") (simp_all add: meta_of_def g1_def)
  show ?thesis
  proof (cases "destroy_vm_value cbs g1 tp")
    case None
    then show ?thesis unfolding step by simp
  next
    case (Some g2)
    have n1: "heap g1 tp = Some (m\<lparr>next_of := None\<rparr>)" by (simp add: g1_def)
    have "\<not> (\<exists>s v. body m = VmUd s v \<and> finalize_ud cbs s v g1 = Some True)"
      using t finalize_meta [OF mt] by (auto simp: delays_def)
    then have "g2 = g1\<lparr>alloced_size := alloced_size g1 - zsize m, heap := (heap g1)(tp := None)\<rparr>"
      using Some n1 by (auto simp: destroy_vm_value_def bind_eq_Some_conv split: body.splits if_splits)
    then have h: "heap g2 = (heap gc)(tp := None)" by (simp add: g1_def)
    have ta: "a \<noteq> tp" using a(1) l(2) by auto
    have "lseg next_of (heap g2) (next_of m) ws None" unfolding h using hp(2) l(2) by (simp add: lseg_upd del: fun_upd_apply)
    then have "fklVMgcSweep cbs g2 (next_of m) = None"
      by (rule Sweep_dead_type) (use l(2) a h ta in auto)
    then show ?thesis unfolding step Some by simp
  qed
qed


section \<open>A small heap\<close>

text \<open>
  Static objects are the type of types (0) and a type of weak tables (6). The collector owns a box (8) with
  a string (2), a pair (5) and a closed variable reference (7) in the list of a frame; the machine has made
  a box that holds itself (3) and a weak table (4) with keys 2 and 3. The roots are 8 and 4.
\<close>

definition ex_obj :: "mark \<Rightarrow> nat option \<Rightarrow> unit body \<Rightarrow> unit vmobj" where
  "ex_obj m nx b = \<lparr>mark_of = m, next_of = nx, gray_next = None, zsize = 16, body = b\<rparr>"

definition ex_heap :: "nat \<Rightarrow> unit vmobj option" where
  "ex_heap = (\<lambda>_. None)(
     0 \<mapsto> ex_obj FKL_MARK_B None (VmUd 0 (UdType PNull \<lparr>mt_atomic = Some fklAtomicVMtype, mt_update_weak_ref = None, mt_finalize = None\<rparr>)),
     6 \<mapsto> ex_obj FKL_MARK_B None (VmUd 0 (UdType PNull
           \<lparr>mt_atomic = Some weak_hash_eq_atomic, mt_update_weak_ref = Some weak_hash_eq_update_weak_ref, mt_finalize = None\<rparr>)),
     8 \<mapsto> ex_obj FKL_MARK_W (Some 2) (VmBox (PObj 2)),
     2 \<mapsto> ex_obj FKL_MARK_W (Some 5) (VmStr ()),
     5 \<mapsto> ex_obj FKL_MARK_W (Some 7) (VmPair (PObj 7) (PImm 0)),
     7 \<mapsto> ex_obj FKL_MARK_W None (VmVarRef (Closed (PObj 2))),
     3 \<mapsto> ex_obj FKL_MARK_W (Some 4) (VmBox (PObj 3)),
     4 \<mapsto> ex_obj FKL_MARK_W None (VmUd 6 (UdWeakHash True False [(PObj 2, PImm 1), (PObj 3, PImm 2)])))"

definition ex_vm :: "unit vm" where
  "ex_vm = \<lparr>frames = [Compound (PImm 0) (PObj 5) (PImm 0)], vm_error = PNull, stack = [PObj 8, PSkip 3, PNull, PObj 4], chan = PNull,
     atexits = [], int_list = [], obj_head = Some 3, obj_tail = Some 4\<rparr>"

definition ex_gc :: "unit gcst" where
  "ex_gc = \<lparr>heap = ex_heap, gc_head = Some 8, gray_list = None, weak_refs = None, alloced_size = 96, threshold = 64, builtin_refs = [],
     extra_marks = [], gc_int_list = [], obarray = PNull, gc_keywords = PNull, builtinErrorTypeId = [], gc_seeks = [], gc_syms = [],
     gc_words = [], path_vec = PNull, gcvm = ex_vm, vms = []\<rparr>"

definition ex_cbs :: "unit callbacks" where
  "ex_cbs = \<lparr>cb_marks = \<lambda>_ _. [], cb_delays = \<lambda>_ _. False\<rparr>"

lemmas ex_defs = ex_gc_def ex_vm_def ex_heap_def ex_obj_def ex_cbs_def

lemma ex_objs:
  "\<forall>a \<in> {2, 3, 4, 5, 7, 8}. white ex_gc a"
  "\<forall>a \<in> {0, 6}. \<exists>n. heap ex_gc a = Some n \<and> mark_of n = FKL_MARK_B"
  "obj_lists ex_gc [8, 2, 5, 7, 3, 4]"
proof -
  show "\<forall>a \<in> {2, 3, 4, 5, 7, 8}. white ex_gc a" "\<forall>a \<in> {0, 6}. \<exists>n. heap ex_gc a = Some n \<and> mark_of n = FKL_MARK_B"
    by (simp_all add: white_def ex_defs)
  have "vm_list ex_gc ex_vm [3, 4]" by (simp add: vm_list_def ex_defs)
  moreover have "machines ex_gc = [ex_vm]" by (simp add: machines_def ex_gc_def)
  moreover have "lseg next_of (heap ex_gc) (gc_head ex_gc) [8, 2, 5, 7] None" by (simp add: ex_defs)
  ultimately show "obj_lists ex_gc [8, 2, 5, 7, 3, 4]" unfolding obj_lists_def
    by (intro conjI exI [of _ "[8, 2, 5, 7]"] exI [of _ "[[3, 4]]"]) simp_all
qed

lemma ex_kids:
  "kids ex_cbs ex_gc 0 = [PObj 0, PNull]" "kids ex_cbs ex_gc 6 = [PObj 0, PNull]" "kids ex_cbs ex_gc 8 = [PObj 2]" "kids ex_cbs ex_gc 2 = []"
  "kids ex_cbs ex_gc 3 = [PObj 3]" "kids ex_cbs ex_gc 4 = [PObj 6, PImm 1, PImm 2]" "kids ex_cbs ex_gc 5 = [PObj 7, PImm 0]"
  "kids ex_cbs ex_gc 7 = [PObj 2]"
  by (simp_all add: kids_def ex_defs meta_of_def ud_kids_def ref_value_def)

lemma ex_typed: "\<forall>a \<in> {2, 3, 4, 5, 7, 8} \<union> {0, 6}. obj_typed ex_gc a"
  by (auto simp: obj_typed_def ex_defs meta_of_def ud_typed_def ref_value_def)

lemma ex_roots: "roots ex_cbs ex_gc = [PNull, PNull, PNull, PImm 0, PObj 5, PImm 0, PNull, PObj 8, PObj 4, PNull]"
  by (simp add: roots_def own_ptrs_def machine_ptrs_def handler_ptrs_def frame_ptrs_def ex_defs stack_ptrs.simps numeral_2_eq_2)

lemma ex_inv: "gc_inv ex_cbs {2, 3, 4, 5, 7, 8} {0, 6} ex_gc"
proof -
  have f: "frame_lists ex_gc (concat (map frames (machines ex_gc))) [5]"
    unfolding frame_lists_def by (intro conjI exI [of _ "[[5]]"]) (auto simp: frame_list_def machines_def ex_defs as_pair_def is_closed_var_ref_def)
  have st: "stack_ok (stack ex_vm)"
    by (auto simp: stack_ok_def ex_vm_def less_Suc_eq nth_Cons split: nat.splits)
  have ok: "machines_ok ex_gc" using f st by (auto simp: machines_ok_def machines_def ex_gc_def)
  have cl: "closed_heap ex_cbs {2, 3, 4, 5, 7, 8} {0, 6} ex_gc" unfolding closed_heap_def using ex_typed by (simp add: ex_kids)
  have w: "weak_ptrs ex_gc a = (if a = 4 then [PObj 2, PObj 3] else [])" if "a \<in> {2, 3, 4, 5, 7, 8} \<union> {0, 6}" for a
    using that by (auto simp: weak_ptrs_def ex_defs)
  have r: "points_into ({2, 3, 4, 5, 7, 8} \<union> {0, 6}) (roots ex_cbs ex_gc)" unfolding ex_roots by (simp del: One_nat_def)
  show ?thesis unfolding gc_inv_def
  proof (intro conjI)
    show "\<exists>xs. obj_lists ex_gc xs \<and> {2, 3, 4, 5, 7, 8} = set xs" using ex_objs(3) by (intro exI [of _ "[8, 2, 5, 7, 3, 4]"]) auto
    show "gray_list ex_gc = None" "weak_refs ex_gc = None" by (simp_all add: ex_gc_def)
    show "\<forall>a \<in> {2, 3, 4, 5, 7, 8}. points_into ({2, 3, 4, 5, 7, 8} \<union> {0, 6}) (weak_ptrs ex_gc a)" by (simp add: w)
    show "\<forall>a \<in> {0, 6}. points_into {0, 6} (weak_ptrs ex_gc a)" by (simp add: w)
  qed (use ex_objs ok cl r in simp_all)
qed

lemma ex_frame_pairs: "frame_pairs ex_gc X \<Longrightarrow> X = {5}"
proof -
  assume "frame_pairs ex_gc X"
  then obtain xs where xs: "frame_list ex_gc (Compound (PImm 0) (PObj 5) (PImm 0)) xs" "X = set xs"
    by (auto simp: frame_pairs_def frame_lists_def machines_def ex_gc_def ex_vm_def list_all2_Cons1)
  then have p: "plist ex_gc (PObj 5) xs" by (simp add: frame_list_def)
  obtain ys where ys: "xs = 5 # ys" using p by (cases xs) (auto simp: as_pair_def ex_defs)
  have "plist ex_gc (PImm 0) ys" using p unfolding ys by (auto simp: ex_defs)
  then have "ys = []" by (cases ys) auto
  then show ?thesis using xs(2) ys by simp
qed

lemma ex_fixed: "fixed_roots ex_cbs ex_gc = [PNull, PNull, PNull, PImm 0, PImm 0, PNull, PObj 8, PObj 4, PNull]"
  by (simp add: fixed_roots_def machines_def own_ptrs_def machine_fixed_def frame_fixed_def handler_ptrs_def ex_defs stack_ptrs.simps numeral_2_eq_2)

lemma ex_reach: "reach_in ex_cbs ex_gc {2, 3, 4, 5, 7, 8} (targets {2, 3, 4, 5, 7, 8} (roots ex_cbs ex_gc)) \<subseteq> {2, 4, 5, 7, 8}"
proof
  fix a assume "a \<in> reach_in ex_cbs ex_gc {2, 3, 4, 5, 7, 8} (targets {2, 3, 4, 5, 7, 8} (roots ex_cbs ex_gc))"
  then show "a \<in> {2, 4, 5, 7, 8}"
  proof (rule reach_in_least)
    show "targets {2, 3, 4, 5, 7, 8} (roots ex_cbs ex_gc) \<subseteq> {2, 4, 5, 7, 8}" by (auto simp: targets_def ex_roots)
    show "targets {2, 3, 4, 5, 7, 8} (kids ex_cbs ex_gc b) \<subseteq> {2, 4, 5, 7, 8}" if "b \<in> {2, 4, 5, 7, 8}" for b
      using that by (elim insertE) (auto simp: targets_def ex_kids)
  qed
qed

lemma ex_reach_fixed: "{2, 4, 8} \<subseteq> reach_in ex_cbs ex_gc ({2, 3, 4, 5, 7, 8} - {5}) (targets ({2, 3, 4, 5, 7, 8} - {5}) (fixed_roots ex_cbs ex_gc))"
proof -
  let ?R = "reach_in ex_cbs ex_gc ({2, 3, 4, 5, 7, 8} - {5}) (targets ({2, 3, 4, 5, 7, 8} - {5}) (fixed_roots ex_cbs ex_gc))"
  have "8 \<in> ?R" "4 \<in> ?R" by (auto simp: targets_def ex_fixed intro!: reach_root)
  moreover from this(1) have "2 \<in> ?R" by (rule reach_kid) (simp add: ex_kids)
  ultimately show ?thesis by blast
qed

lemma ex_pinned: "pinned_types ex_cbs {2, 3, 4, 5, 7, 8} {0, 6} ex_gc"
  by (simp add: pinned_types_def ex_defs)

lemmas ex_kept = pinned_kept [OF ex_inv ex_pinned]


text \<open>A state in the middle of marking: the box 8 is gray.\<close>

definition ex_gray :: "unit gcst" where
  "ex_gray = ex_gc\<lparr>heap := (\<lambda>_. None)(8 \<mapsto> ex_obj FKL_MARK_G None (VmBox (PObj 2)), 2 \<mapsto> ex_obj FKL_MARK_W None (VmStr ()),
     3 \<mapsto> ex_obj FKL_MARK_W None (VmBox (PObj 3))), gray_list := Some 8\<rparr>"

lemma ex_gray_marks: "marked {2, 3, 8} ex_gray = {8}" "black {2, 3, 8} ex_gray = {}"
  by (auto simp: marked_def black_def ex_gray_def ex_obj_def)

lemma ex_gray_marking: "marking {2, 3, 8} {} ex_gray [8] []"
  unfolding marking_def ex_gray_marks by (simp add: ex_gray_def ex_obj_def ex_gc_def)

lemma ex_gray_closed: "closed_objs ex_cbs {2, 3, 8} {} ex_gray"
  by (simp add: closed_objs_def obj_typed_def kids_def ex_gray_def ex_obj_def)

text \<open>Two dead objects on the list of the sweep: a type that was made at run time, and its only object.\<close>

definition ex_dead :: "unit gcst" where
  "ex_dead = ex_gc\<lparr>heap := ex_heap(
     10 \<mapsto> ex_obj FKL_MARK_W (Some 11) (VmUd 0 (UdType PNull \<lparr>mt_atomic = None, mt_update_weak_ref = None, mt_finalize = None\<rparr>)),
     11 \<mapsto> ex_obj FKL_MARK_W None (VmUd 10 (UdData ())))\<rparr>"

section \<open>Properties\<close>

lemma collected_pinned:
  assumes p: "pinned_types cbs L S gc" and M: "M \<subseteq> L" and c: "collected_to cbs L S M gc gc'"
  shows "pinned_types cbs M S gc'"
  unfolding pinned_types_def
proof (intro ballI allI impI)
  fix a n' tp u assume a: "a \<in> M" "heap gc' a = Some n'" "body n' = VmUd tp u"
  have o: "own_ptrs cbs gc' = own_ptrs cbs gc" by (rule own_ptrs_part) (use c in \<open>unfold collected_to_def, blast\<close>)
  obtain X n where n: "heap gc a = Some n" "kept_body gc X (M \<union> S) a (body n) (body n')"
    using c a(1,2) unfolding collected_to_def by fastforce
  have "\<exists>v. body n = VmUd tp v" using n(2) a(3) by (cases "body n") (auto simp: kept_body_def)
  then show "tp \<in> S \<or> PObj tp \<in> set (own_ptrs cbs gc')" using p M a(1) n(1) unfolding o pinned_types_def by blast
qed

text \<open>C16: marking ends, with an empty gray list, and the marked objects are those that can be reached from the ones that were marked.\<close>

theorem propagate_all_marks_reachable:
  assumes "marking L S gc gs []" "black L gc = {}" "closed_objs cbs L S gc" "finite L"
  shows "\<exists>gc'. propagate_all cbs gc = Some gc' \<and> gray_list gc' = None \<and> marked L gc' = reach_in cbs gc L (marked L gc) \<and> same_objs gc gc'"
proof -
  have inv: "propagating cbs L S (marked L gc) gc gc gs []"
    unfolding propagating_def using assms(1,2) by (auto intro: reach_in.intros)
  obtain gc' ws where r: "propagate_all cbs gc = Some gc'" "propagating cbs L S (marked L gc) gc gc' [] ws"
    using wp_propagate_all [OF assms(3,4) inv] by (auto elim!: wpE)
  have "gray_list gc' = None" "same_objs gc gc'" using r(2) by (auto simp: propagating_def marking_def)
  then show ?thesis using r(1) propagated_reach [OF r(2)] by blast
qed

lemma check_good:
  assumes "gc_inv cbs L S gc" "types_kept cbs L S gc"
  shows "\<exists>gc' M. fklVMgcCheck cbs gc forced = Some gc' \<and> M \<subseteq> L \<and> gc_inv cbs M S gc'
    \<and> (pinned_types cbs L S gc \<longrightarrow> pinned_types cbs M S gc')"
proof (cases "forced \<or> alloced_size gc > threshold gc")
  case True
  obtain gc' M where r: "collect_garbage cbs gc = Some gc'" "M \<subseteq> L" "collected_to cbs L S M gc gc'"
    using wp_collect_kept [OF assms] by (auto elim!: wpE)
  have "gc_inv cbs M S gc'" using r(3) unfolding collected_to_def by blast
  then show ?thesis using True r collected_pinned [OF _ r(2,3)] by (auto simp: fklVMgcCheck_def)
next
  case False
  then show ?thesis using assms by (auto simp: fklVMgcCheck_def)
qed

theorem propagate_all_marks_reachable_witness:
  "\<exists>gc'. propagate_all ex_cbs ex_gray = Some gc' \<and> gray_list gc' = None \<and> marked {2, 3, 8} gc' = reach_in ex_cbs ex_gray {2, 3, 8} {8}"
  using propagate_all_marks_reachable [OF ex_gray_marking ex_gray_marks(2) ex_gray_closed] unfolding ex_gray_marks(1) by auto

text \<open>C6: \<open>fklVMgcCheck\<close> returns, and keeps the invariant: no object of the collector, no root and no weak
  table holds a pointer to a released object. The hypothesis is that no object dies together with its own
  type; where the types are static or held by the collector itself it holds, and does so again afterwards.
\<close>

theorem fklVMgcCheck_invariant:
  assumes "gc_inv cbs L S gc" "types_kept cbs L S gc"
  shows "\<exists>gc' M. fklVMgcCheck cbs gc forced = Some gc' \<and> M \<subseteq> L \<and> gc_inv cbs M S gc'
    \<and> (pinned_types cbs L S gc \<longrightarrow> pinned_types cbs M S gc' \<and> types_kept cbs M S gc')"
  using check_good [OF assms, of forced] pinned_kept by blast

theorem fklVMgcCheck_invariant_witness:
  "\<exists>gc' M. fklVMgcCheck ex_cbs ex_gc True = Some gc' \<and> M \<subseteq> {2, 3, 4, 5, 7, 8} \<and> gc_inv ex_cbs M {0, 6} gc'"
  using fklVMgcCheck_invariant [OF ex_inv ex_kept, of True] by blast

text \<open>C2: what the program can reach, past the lists of closed references of the frames, is neither released nor
  changed, the entries of weak tables apart, provided that no object dies together with its own type.
\<close>

theorem collect_garbage_safe:
  assumes "gc_inv cbs L S gc" "types_kept cbs L S gc"
  shows "\<exists>gc' X M. collect_garbage cbs gc = Some gc' \<and> frame_pairs gc X \<and> gc_inv cbs M S gc'
    \<and> (\<forall>a \<in> reach_in cbs gc (L - X) (targets (L - X) (fixed_roots cbs gc)). a \<in> M
        \<and> (\<exists>n n'. heap gc a = Some n \<and> heap gc' a = Some n' \<and> zsize n' = zsize n \<and> body n' = clean_body (live_in (M \<union> S)) (body n)))"
proof -
  obtain gc' M where r: "collect_garbage cbs gc = Some gc'" "M \<subseteq> L" "collected_to cbs L S M gc gc'"
    using wp_collect_kept [OF assms] by (auto elim!: wpE)
  obtain X where X: "frame_pairs gc X" "reach_in cbs gc (L - X) (targets (L - X) (fixed_roots cbs gc)) \<subseteq> M"
    "\<And>a. a \<in> M \<Longrightarrow> \<exists>n n'. heap gc a = Some n \<and> heap gc' a = Some n' \<and> zsize n' = zsize n \<and> kept_body gc X (M \<union> S) a (body n) (body n')"
    using r(3) unfolding collected_to_def by blast
  have "\<exists>n n'. heap gc a = Some n \<and> heap gc' a = Some n' \<and> zsize n' = zsize n \<and> body n' = clean_body (live_in (M \<union> S)) (body n)"
    if a: "a \<in> reach_in cbs gc (L - X) (targets (L - X) (fixed_roots cbs gc))" for a
  proof -
    have "a \<notin> X" using reach_in_L [OF a targets_L] by blast
    moreover have "a \<in> M" using X(2) a by blast
    ultimately show ?thesis using X(3) [of a] unfolding kept_body_def by blast
  qed
  moreover have "gc_inv cbs M S gc'" using r(3) unfolding collected_to_def by blast
  ultimately show ?thesis using r(1) X(1,2) by blast
qed

theorem collect_garbage_safe_witness:
  "\<exists>gc' M. collect_garbage ex_cbs ex_gc = Some gc' \<and> gc_inv ex_cbs M {0, 6} gc' \<and> {2, 4, 8} \<subseteq> M"
proof -
  obtain gc' X M where r: "collect_garbage ex_cbs ex_gc = Some gc'" "frame_pairs ex_gc X" "gc_inv ex_cbs M {0, 6} gc'"
    "\<forall>a \<in> reach_in ex_cbs ex_gc ({2, 3, 4, 5, 7, 8} - X) (targets ({2, 3, 4, 5, 7, 8} - X) (fixed_roots ex_cbs ex_gc)). a \<in> M"
    using collect_garbage_safe [OF ex_inv ex_kept] by blast
  have "{2, 4, 8} \<subseteq> M" using ex_reach_fixed r(4) unfolding ex_frame_pairs [OF r(2)] by blast
  then show ?thesis using r by blast
qed

text \<open>C12: an object that could not be reached is released, unless its finalizer delays that; what is allocated
  is counted, modulo \<open>2^64\<close>, and the threshold is set to twice that, provided that no object dies together
  with its own type.
\<close>

theorem collect_garbage_frees:
  assumes "gc_inv cbs L S gc" "types_kept cbs L S gc"
  shows "\<exists>gc' F. collect_garbage cbs gc = Some gc' \<and> L - reach_in cbs gc L (targets L (roots cbs gc)) - Collect (delays cbs gc) \<subseteq> F
    \<and> F \<subseteq> L \<and> (\<forall>a \<in> F. heap gc' a = None) \<and> (\<forall>a \<in> L - F. heap gc' a \<noteq> None)
    \<and> alloced_size gc' = alloced_size gc - (\<Sum>a \<in> F. size_of gc a) \<and> threshold gc' = 2 * alloced_size gc'"
proof -
  obtain gc' M where r: "collect_garbage cbs gc = Some gc'" "M \<subseteq> L" "collected_to cbs L S M gc gc'"
    using wp_collect_kept [OF assms] by (auto elim!: wpE)
  have D: "M \<subseteq> reach_in cbs gc L (targets L (roots cbs gc))" "\<And>a. a \<in> L - M \<Longrightarrow> heap gc' a = None \<longleftrightarrow> \<not> delays cbs gc a"
    "alloced_size gc' = alloced_size gc - (\<Sum>a \<in> {a \<in> L - M. \<not> delays cbs gc a}. size_of gc a)" "threshold gc' = alloced_size gc' * 2"
    using r(3) unfolding collected_to_def by blast+
  have al: "heap gc' a \<noteq> None" if "a \<in> M" for a using r(3) that unfolding collected_to_def by fastforce
  let ?F = "{a \<in> L - M. \<not> delays cbs gc a}"
  have "L - reach_in cbs gc L (targets L (roots cbs gc)) - Collect (delays cbs gc) \<subseteq> ?F" using D(1) by blast
  moreover have "\<forall>a \<in> L - ?F. heap gc' a \<noteq> None" using D(2) al by blast
  moreover have "\<forall>a \<in> ?F. heap gc' a = None" using D(2) by blast
  ultimately show ?thesis using r(1) D(3,4) by (intro exI [of _ gc'] exI [of _ ?F]) auto
qed

theorem collect_garbage_frees_witness:
  "\<exists>gc'. collect_garbage ex_cbs ex_gc = Some gc' \<and> heap gc' 3 = None \<and> threshold gc' = 2 * alloced_size gc'"
proof -
  have "3 \<notin> reach_in ex_cbs ex_gc {2, 3, 4, 5, 7, 8} (targets {2, 3, 4, 5, 7, 8} (roots ex_cbs ex_gc))" using ex_reach by auto
  moreover have "\<not> delays ex_cbs ex_gc 3" by (simp add: delays_def ex_defs)
  ultimately show ?thesis using collect_garbage_frees [OF ex_inv ex_kept] by blast
qed

text \<open>
  A weak table afterwards; \<open>Y\<close> are the objects that are there. A weak pointer counts if it leads to one of
  them, so that an immediate value never does.
\<close>

definition kept_contents :: "nat set \<Rightarrow> 'd udata \<Rightarrow> 'd udata" where
  "kept_contents Y u = (case u of
      UdWeakHash wk wv es \<Rightarrow> UdWeakHash wk wv (filter (\<lambda>(k, v). (wk \<longrightarrow> live_in Y k) \<and> (wv \<longrightarrow> live_in Y v)) es)
    | UdObarray es \<Rightarrow> UdObarray (filter (\<lambda>(s, v). live_in Y v) es)
    | UdLnt es \<Rightarrow> UdLnt (filter (\<lambda>(k, l). live_in Y k) es)
    | _ \<Rightarrow> u)"

definition entries_kept :: "'d gcst \<Rightarrow> 'd gcst \<Rightarrow> nat set \<Rightarrow> nat \<Rightarrow> bool" where
  "entries_kept gc gc' Y a \<longleftrightarrow> (\<forall>n tp u. heap gc a = Some n \<longrightarrow> body n = VmUd tp u
     \<longrightarrow> (\<exists>n'. heap gc' a = Some n' \<and> body n' = VmUd tp (kept_contents Y u)))"

lemma clean_kept: "clean_ud (live_in Y) u = kept_contents Y u"
  by (cases u) (simp_all add: kept_contents_def)

text \<open>
  C22: the entries of a weak table that survives (a weak hash table, the table of symbols, the table of
  line numbers) are those whose weak pointers lead to objects that survive; an entry with an immediate
  value as a weak key or value is dropped. No object may die together with its own type.
\<close>

theorem collect_garbage_weak_entries:
  assumes "gc_inv cbs L S gc" "types_kept cbs L S gc"
  shows "\<exists>gc' X M. collect_garbage cbs gc = Some gc' \<and> frame_pairs gc X \<and> M \<subseteq> reach_in cbs gc L (targets L (roots cbs gc))
    \<and> reach_in cbs gc (L - X) (targets (L - X) (fixed_roots cbs gc)) \<subseteq> M \<and> (\<forall>a \<in> M. entries_kept gc gc' (M \<union> S) a)"
proof -
  obtain gc' M where r: "collect_garbage cbs gc = Some gc'" "collected_to cbs L S M gc gc'"
    using wp_collect_kept [OF assms] by (auto elim!: wpE)
  obtain X where F: "frame_pairs gc X" "reach_in cbs gc (L - X) (targets (L - X) (fixed_roots cbs gc)) \<subseteq> M"
    and X: "\<forall>a \<in> M. \<exists>n n'. heap gc a = Some n \<and> heap gc' a = Some n' \<and> zsize n' = zsize n \<and> kept_body gc X (M \<union> S) a (body n) (body n')"
    using r(2) unfolding collected_to_def by (elim conjE exE) (rule that)
  have m: "M \<subseteq> reach_in cbs gc L (targets L (roots cbs gc))" using r(2) unfolding collected_to_def by (rule conjunct1)
  have "entries_kept gc gc' (M \<union> S) a" if a: "a \<in> M" for a
    using bspec [OF X a] by (auto simp: entries_kept_def kept_body_def clean_kept)
  then show ?thesis using r(1) F m by (intro exI [of _ gc'] exI [of _ X] exI [of _ M]) simp
qed

theorem collect_garbage_weak_entries_witness:
  "\<exists>gc' n'. collect_garbage ex_cbs ex_gc = Some gc' \<and> heap gc' 4 = Some n' \<and> body n' = VmUd 6 (UdWeakHash True False [(PObj 2, PImm 1)])"
proof -
  have h: "heap ex_gc 4 = Some (ex_obj FKL_MARK_W None (VmUd 6 (UdWeakHash True False [(PObj 2, PImm 1), (PObj 3, PImm 2)])))"
    by (simp add: ex_gc_def ex_heap_def)
  obtain gc' X M where r: "collect_garbage ex_cbs ex_gc = Some gc'" "frame_pairs ex_gc X"
      "M \<subseteq> reach_in ex_cbs ex_gc {2, 3, 4, 5, 7, 8} (targets {2, 3, 4, 5, 7, 8} (roots ex_cbs ex_gc))"
      "reach_in ex_cbs ex_gc ({2, 3, 4, 5, 7, 8} - X) (targets ({2, 3, 4, 5, 7, 8} - X) (fixed_roots ex_cbs ex_gc)) \<subseteq> M"
    and w: "\<forall>a \<in> M. entries_kept ex_gc gc' (M \<union> {0, 6}) a"
    using collect_garbage_weak_entries [OF ex_inv ex_kept] by (elim exE conjE) (rule that)
  have m: "2 \<in> M" "4 \<in> M" using ex_reach_fixed r(4) unfolding ex_frame_pairs [OF r(2)] by blast+
  have "3 \<notin> M" using r(3) ex_reach by auto
  then have l: "live_in (M \<union> {0, 6}) (PObj 2)" "\<not> live_in (M \<union> {0, 6}) (PObj 3)" using m(1) by (simp_all add: live_in_def)
  have "entries_kept ex_gc gc' (M \<union> {0, 6}) 4" using w m(2) by (rule bspec)
  then obtain n' where "heap gc' 4 = Some n'" "body n' = VmUd 6 (UdWeakHash True False [(PObj 2, PImm 1)])"
    unfolding entries_kept_def using h l by (auto simp: ex_obj_def kept_contents_def)
  then show ?thesis using r(1) by simp
qed

text \<open>C39: the sweep reads released memory when the type of an object stands before it on the list.\<close>

theorem fklVMgcSweep_type_first:
  assumes "lseg next_of (heap gc) hp (tp # ws) None" "distinct (tp # ws)" "heap gc tp = Some m" "\<not> delays cbs gc tp"
    "a \<in> set ws" "heap gc a = Some n" "body n = VmUd tp u"
  shows "fklVMgcSweep cbs gc hp = None"
  by (rule Sweep_type_first [OF assms])

theorem fklVMgcSweep_type_first_witness: "fklVMgcSweep ex_cbs ex_dead (Some 10) = None"
  by (rule fklVMgcSweep_type_first [where tp = 10 and ws = "[11]" and a = 11 and u = "UdData ()"])
    (simp_all add: ex_dead_def ex_defs delays_def finalize_ud_def meta_of_def)+

end
