(* ===== verification/GcRun.thy ===== *)
theory GcRun
  imports GcProps
begin

text \<open>
  The collector under a running program: making objects (\<open>fklAddToGC\<close>), storing into objects, closing
  variable references, changing the roots (pushing, popping and writing slots of the stacks, frames,
  threads, what the collector holds), and collecting at any time, as a step relation. Every state that
  is reached has the invariant.
\<close>

section \<open>Steps\<close>

text \<open>A pointer the program can hold: null, immediate, to an object that can be reached from the roots, or static.\<close>

definition held :: "'d callbacks \<Rightarrow> 'd gcst \<Rightarrow> vmptr \<Rightarrow> bool" where
  "held cbs gc p \<longleftrightarrow> (\<forall>a. p = PObj a \<longrightarrow> a \<in> reach_in cbs gc UNIV (targets UNIV (roots cbs gc))) \<and> (\<forall>j. p \<noteq> PSkip j)"

definition usable :: "'d callbacks \<Rightarrow> nat set \<Rightarrow> 'd gcst \<Rightarrow> vmptr \<Rightarrow> bool" where
  "usable cbs S gc p \<longleftrightarrow> held cbs gc p \<or> (\<exists>b \<in> S. p = PObj b)"

definition set_machine :: "nat \<Rightarrow> 'd vm \<Rightarrow> 'd gcst \<Rightarrow> 'd gcst" where
  "set_machine i v gc = (case i of 0 \<Rightarrow> gc\<lparr>gcvm := v\<rparr> | Suc j \<Rightarrow> gc\<lparr>vms := (vms gc)[j := v]\<rparr>)"

text \<open>
  A new object at the free address \<open>a\<close>, put on the list of the machine \<open>i\<close> and pushed onto its stack. Its
  pointers are held by the program.
\<close>

definition fresh_ok :: "'d callbacks \<Rightarrow> nat set \<Rightarrow> 'd gcst \<Rightarrow> nat \<Rightarrow> 'd vmobj \<Rightarrow> bool" where
  "fresh_ok cbs S gc a n \<longleftrightarrow> heap gc a = None \<and> mark_of n = FKL_MARK_W
     \<and> (let g = gc\<lparr>heap := (heap gc)(a \<mapsto> n)\<rparr> in obj_typed g a \<and> (\<forall>p \<in> set (kids cbs g a) \<union> set (weak_ptrs g a). usable cbs S gc p))"

text \<open>
  The contents an object can get: an object keeps its kind and a user object its type, a variable
  reference is closed or stays so, a type is never changed.
\<close>

definition is_type :: "'d udata \<Rightarrow> bool" where
  "is_type u = (case u of UdType _ _ \<Rightarrow> True | _ \<Rightarrow> False)"

definition same_kind :: "'d body \<Rightarrow> 'd body \<Rightarrow> bool" where
  "same_kind b b' = (case b of
      VmStr _ \<Rightarrow> (case b' of VmStr _ \<Rightarrow> True | _ \<Rightarrow> False)
    | VmBytes _ \<Rightarrow> (case b' of VmBytes _ \<Rightarrow> True | _ \<Rightarrow> False)
    | VmPair _ _ \<Rightarrow> (case b' of VmPair _ _ \<Rightarrow> True | _ \<Rightarrow> False)
    | VmVec _ \<Rightarrow> (case b' of VmVec _ \<Rightarrow> True | _ \<Rightarrow> False)
    | VmBox _ \<Rightarrow> (case b' of VmBox _ \<Rightarrow> True | _ \<Rightarrow> False)
    | VmHash _ \<Rightarrow> (case b' of VmHash _ \<Rightarrow> True | _ \<Rightarrow> False)
    | VmProc _ _ _ _ \<Rightarrow> (case b' of VmProc _ _ _ _ \<Rightarrow> True | _ \<Rightarrow> False)
    | VmVarRef _ \<Rightarrow> (case b' of VmVarRef (Closed _) \<Rightarrow> True | _ \<Rightarrow> False)
    | VmUd tp u \<Rightarrow> (case b' of VmUd tp' u' \<Rightarrow> tp' = tp \<and> \<not> is_type u \<and> \<not> is_type u' | _ \<Rightarrow> False)
    | _ \<Rightarrow> False)"

text \<open>Storing into an object the program holds; the pairs of the lists of the frames are the machine's own.\<close>

definition store_ok :: "'d callbacks \<Rightarrow> nat set \<Rightarrow> 'd gcst \<Rightarrow> nat \<Rightarrow> 'd vmobj \<Rightarrow> 'd body \<Rightarrow> bool" where
  "store_ok cbs S gc a n b \<longleftrightarrow> heap gc a = Some n \<and> held cbs gc (PObj a) \<and> a \<notin> S \<and> same_kind (body n) b
     \<and> (\<forall>X. frame_pairs gc X \<longrightarrow> a \<notin> X)
     \<and> (let g = gc\<lparr>heap := (heap gc)(a \<mapsto> n\<lparr>body := b\<rparr>)\<rparr> in obj_typed g a \<and> (\<forall>p \<in> set (kids cbs g a) \<union> set (weak_ptrs g a). usable cbs S gc p))"

text \<open>
  Any change of the machines and of what the collector holds: the new roots are pointers the program could
  hold before (popping drops some, a load or a push adds one, a write replaces one), an open reference
  still has its slot, and new machines come without objects.
\<close>

definition obj_ends :: "'d gcst \<Rightarrow> (nat option \<times> nat option) list" where
  "obj_ends gc = map (\<lambda>v. (obj_head v, obj_tail v)) (machines gc)"

definition refs_ok :: "'d callbacks \<Rightarrow> nat set \<Rightarrow> 'd gcst \<Rightarrow> 'd gcst \<Rightarrow> bool" where
  "refs_ok cbs S gc g \<longleftrightarrow> (\<forall>b n r. heap gc b = Some n \<longrightarrow> body n = VmVarRef r
     \<longrightarrow> (\<exists>p. ref_value g r = Some p \<and> (ref_value gc r = Some p \<or> b \<notin> S \<and> usable cbs S gc p)))"

definition roots_step :: "'d callbacks \<Rightarrow> nat set \<Rightarrow> 'd gcst \<Rightarrow> 'd gcst \<Rightarrow> bool" where
  "roots_step cbs S gc g \<longleftrightarrow> heap g = heap gc \<and> gc_head g = gc_head gc \<and> gray_list g = gray_list gc \<and> weak_refs g = weak_refs gc
     \<and> (\<exists>k. obj_ends g = obj_ends gc @ replicate k (None, None))
     \<and> (\<forall>p \<in> set (roots cbs g). usable cbs S gc p) \<and> machines_ok g \<and> refs_ok cbs S gc g"

text \<open>\<open>types_kept\<close> for the objects that are in the lists.\<close>

definition types_survive :: "'d callbacks \<Rightarrow> nat set \<Rightarrow> 'd gcst \<Rightarrow> bool" where
  "types_survive cbs S gc \<longleftrightarrow> (\<forall>xs. obj_lists gc xs \<longrightarrow> types_kept cbs (set xs) S gc)"

inductive gc_step :: "'d callbacks \<Rightarrow> nat set \<Rightarrow> 'd gcst \<Rightarrow> 'd gcst \<Rightarrow> bool" for cbs S where
  step_new: "fresh_ok cbs S gc a n \<Longrightarrow> i < length (machines gc)
    \<Longrightarrow> fklAddToGC a (gc\<lparr>heap := (heap gc)(a \<mapsto> n)\<rparr>) (machines gc ! i) = Some (gc', v)
    \<Longrightarrow> gc_step cbs S gc (set_machine i (v\<lparr>stack := stack v @ [PObj a]\<rparr>) gc')"
| step_store: "store_ok cbs S gc a n b \<Longrightarrow> gc_step cbs S gc (gc\<lparr>heap := (heap gc)(a \<mapsto> n\<lparr>body := b\<rparr>)\<rparr>)"
| step_roots: "roots_step cbs S gc gc' \<Longrightarrow> gc_step cbs S gc gc'"
| step_collect: "types_survive cbs S gc \<Longrightarrow> fklVMgcCheck cbs gc forced = Some gc' \<Longrightarrow> gc_step cbs S gc gc'"

inductive gc_run :: "'d callbacks \<Rightarrow> nat set \<Rightarrow> 'd gcst \<Rightarrow> 'd gcst \<Rightarrow> bool" for cbs S gc0 where
  run_start: "gc_run cbs S gc0 gc0"
| run_step: "gc_run cbs S gc0 gc \<Longrightarrow> gc_step cbs S gc gc' \<Longrightarrow> gc_run cbs S gc0 gc'"

inductive_cases gc_stepE: "gc_step cbs S gc gc'"

section \<open>What the program holds is there\<close>

lemma inv_closed: "gc_inv cbs L S gc \<Longrightarrow> a \<in> L \<union> S \<Longrightarrow> points_into (L \<union> S) (kids cbs gc a)"
  using gc_invD(7) [of cbs L S gc] by (simp add: closed_heap_def)

lemma held_in: "gc_inv cbs L S gc \<Longrightarrow> held cbs gc p \<Longrightarrow> points_into (L \<union> S) [p]"
proof (cases p)
  case (PObj a)
  assume i: "gc_inv cbs L S gc" and h: "held cbs gc p"
  have "a \<in> reach_in cbs gc UNIV (targets UNIV (roots cbs gc))" using h PObj by (simp add: held_def)
  then have "a \<in> L \<union> S"
  proof (rule reach_in_least)
    show "targets UNIV (roots cbs gc) \<subseteq> L \<union> S" using gc_invD(10) [OF i] by (auto simp: targets_def points_into_def)
    show "targets UNIV (kids cbs gc b) \<subseteq> L \<union> S" if "b \<in> L \<union> S" for b
      using inv_closed [OF i that] by (auto simp: targets_def points_into_def)
  qed
  then show ?thesis using PObj by simp
qed simp_all

lemma usable_in:
  assumes "gc_inv cbs L S gc" "\<And>p. p \<in> set ps \<Longrightarrow> usable cbs S gc p"
  shows "points_into (L \<union> S) ps"
  unfolding points_into_def
proof (intro allI impI)
  fix a assume "PObj a \<in> set ps"
  then have "held cbs gc (PObj a) \<or> a \<in> S" using assms(2) by (fastforce simp: usable_def)
  then show "a \<in> L \<union> S" using held_in [OF assms(1), of "PObj a"] by auto
qed

lemma machines_set: "i < length (machines gc) \<Longrightarrow> machines (set_machine i v gc) = (machines gc)[i := v]"
  by (cases i) (simp_all add: set_machine_def machines_def)

lemma set_machine_sel [simp]:
  "heap (set_machine i v gc) = heap gc" "gc_head (set_machine i v gc) = gc_head gc" "gray_list (set_machine i v gc) = gray_list gc"
  "weak_refs (set_machine i v gc) = weak_refs gc" "own_part (set_machine i v gc) = own_part gc"
  by (simp_all add: set_machine_def own_part_def split: nat.split)

text \<open>What a step that changes no list of objects has to show.\<close>

lemma inv_change:
  assumes i: "gc_inv cbs L S gc" and l: "\<exists>xs. obj_lists g xs \<and> L = set xs" and w: "gray_list g = gray_list gc" "weak_refs g = weak_refs gc"
    and m: "\<And>b. map_option mark_of (heap g b) = map_option mark_of (heap gc b)"
    and k: "\<And>b. b \<in> L \<Longrightarrow> obj_typed g b \<and> points_into (L \<union> S) (kids cbs g b) \<and> points_into (L \<union> S) (weak_ptrs g b)"
    and s: "\<And>b. b \<in> S \<Longrightarrow> obj_typed g b \<and> points_into S (kids cbs g b) \<and> points_into S (weak_ptrs g b)"
    and r: "points_into (L \<union> S) (roots cbs g)" "machines_ok g"
  shows "gc_inv cbs L S g"
proof -
  have mk: "\<exists>n. heap g b = Some n \<and> mark_of n = x" if "heap gc b = Some n" "mark_of n = x" for b n x
    using m [of b] that by (cases "heap g b") auto
  have "white g b" if "b \<in> L" for b using gc_invD(5) [OF i that] mk by (fastforce simp: white_def)
  moreover have "\<exists>n. heap g b = Some n \<and> mark_of n = FKL_MARK_B" if "b \<in> S" for b using gc_invD(6) [OF i that] mk by blast
  moreover have "points_into (L \<union> S) (kids cbs g b)" if "b \<in> S" for b using s [OF that] by (simp add: points_into_def)
  then have "closed_heap cbs L S g" unfolding closed_heap_def using k s by blast
  ultimately show ?thesis unfolding gc_inv_def using gc_invD(2,3,4) [OF i] l w k s r by (intro conjI) auto
qed

lemma lists_of_plists:
  assumes p: "\<And>r ys. set ys \<subseteq> set xs \<Longrightarrow> plist gc r ys \<Longrightarrow> plist g r ys" and f: "frame_lists gc fs xs"
  shows "frame_lists g fs xs"
proof -
  obtain xss where xss: "list_all2 (frame_list gc) fs xss" "xs = concat xss" "distinct xs" using f by (auto simp: frame_lists_def)
  have "list_all2 (frame_list g) fs xss"
  proof (rule list.rel_mono_strong [OF xss(1)])
    fix fr ys assume "ys \<in> set xss" "frame_list gc fr ys"
    moreover from this(1) have "set ys \<subseteq> set xs" using xss(2) by auto
    ultimately show "frame_list g fr ys" using p by (cases fr) (auto simp: frame_list_def)
  qed
  then show ?thesis using xss(2,3) by (auto simp: frame_lists_def)
qed

section \<open>Storing into an object\<close>

lemma same_kind_pair: "same_kind b b' \<Longrightarrow> (\<exists>x d. b' = VmPair x d) \<longleftrightarrow> (\<exists>x d. b = VmPair x d)"
  by (cases b; cases b') (auto simp: same_kind_def split: refcell.splits)

lemma same_kind_ref: "same_kind b b' \<Longrightarrow> b = VmVarRef r \<Longrightarrow> \<exists>p. b' = VmVarRef (Closed p)"
  by (cases b') (auto simp: same_kind_def split: refcell.splits)

lemma same_kind_type: "same_kind b b' \<Longrightarrow> b \<noteq> VmUd tp (UdType p mt) \<and> b' \<noteq> VmUd tp (UdType p mt)"
  by (cases b; cases b') (auto simp: same_kind_def is_type_def)

lemma stored_same:
  assumes n: "heap gc a = Some n" and k: "same_kind (body n) b" and g: "g = gc\<lparr>heap := (heap gc)(a \<mapsto> n\<lparr>body := b\<rparr>)\<rparr>"
    and c: "c \<noteq> a"
  shows "kids cbs g c = kids cbs gc c" "obj_typed g c = obj_typed gc c" "weak_ptrs g c = weak_ptrs gc c"
proof -
  have hA: "heap g a = Some (n\<lparr>body := b\<rparr>)" and hc: "heap g c = heap gc c" and hB: "tp \<noteq> a \<Longrightarrow> heap g tp = heap gc tp" for tp
    using c by (simp_all add: g)
  have m: "meta_of g tp = meta_of gc tp" for tp
  proof (cases "tp = a")
    case True
    then show ?thesis using same_kind_type [OF k] n hA by (cases b; cases "body n") (auto simp: meta_of_def split: udata.splits)
  qed (simp add: meta_of_def hB)
  have r: "ref_value g r = ref_value gc r" for r by (cases r) (simp_all add: g ref_value_def)
  show "kids cbs g c = kids cbs gc c" unfolding kids_def hc m r ..
  show "obj_typed g c = obj_typed gc c" unfolding obj_typed_def hc m r ..
  show "weak_ptrs g c = weak_ptrs gc c" unfolding weak_ptrs_def hc ..
qed

lemma stored_plist:
  assumes n: "heap gc a = Some n" and k: "same_kind (body n) b" and g: "g = gc\<lparr>heap := (heap gc)(a \<mapsto> n\<lparr>body := b\<rparr>)\<rparr>"
  shows "a \<notin> set xs \<Longrightarrow> plist gc r xs \<Longrightarrow> plist g r xs"
proof (induction xs arbitrary: r)
  case Nil
  have hA: "heap g a = Some (n\<lparr>body := b\<rparr>)" and hB: "c \<noteq> a \<Longrightarrow> heap g c = heap gc c" for c by (simp_all add: g)
  show ?case
  proof (cases r)
    case (PObj c)
    show ?thesis
    proof (cases "c = a")
      case True
      then have "\<nexists>x d. body n = VmPair x d" using Nil PObj n by (auto simp: as_pair_def)
      then have "\<nexists>x d. b = VmPair x d" using same_kind_pair [OF k] by blast
      then show ?thesis using True PObj hA by (cases b) (simp_all add: as_pair_def)
    qed (use Nil PObj hB in \<open>simp add: as_pair_def\<close>)
  qed (use Nil in \<open>simp_all add: as_pair_def\<close>)
next
  case (Cons c xs)
  have hA: "heap g a = Some (n\<lparr>body := b\<rparr>)" and hB: "e \<noteq> a \<Longrightarrow> heap g e = heap gc e" for e by (simp_all add: g)
  obtain m x d where m: "r = PObj c" "heap gc c = Some m" "body m = VmPair x d" "is_closed_var_ref gc x \<noteq> None" "plist gc d xs"
    using Cons.prems by auto
  have ca: "c \<noteq> a" "a \<notin> set xs" using Cons.prems(1) by auto
  obtain z where "is_closed_var_ref gc x = Some z" using m(4) by blast
  then obtain e l rc where e: "x = PObj e" "heap gc e = Some l" "body l = VmVarRef rc" by (auto simp: is_closed_Some)
  have "is_closed_var_ref g x \<noteq> None"
  proof (cases "e = a")
    case True
    then obtain p where "b = VmVarRef (Closed p)" using same_kind_ref [OF k] e(2,3) n by auto
    then show ?thesis using True e(1) hA by (simp add: is_closed_var_ref_def)
  qed (use e hB in \<open>simp add: is_closed_var_ref_def\<close>)
  then show ?case using m(1,3) hB [OF ca(1)] m(2) Cons.IH [OF ca(2) m(5)] by simp
qed

lemma lists_cong:
  fixes gc g :: "'d gcst"
  assumes o: "obj_lists gc xs" and n: "\<And>b. map_option next_of (heap g b) = map_option next_of (heap gc b)" "gc_head g = gc_head gc"
    and e: "obj_ends g = obj_ends gc @ replicate k (None, None)"
  shows "obj_lists g xs"
proof -
  obtain x0 xss where x: "lseg next_of (heap gc) (gc_head gc) x0 None" "list_all2 (vm_list gc) (machines gc) xss"
    "xs = x0 @ concat xss" "distinct xs" using o by (auto simp: obj_lists_def)
  have ls: "lseg next_of (heap gc) r ys None \<Longrightarrow> lseg next_of (heap g) r ys None" for r ys by (rule lseg_cong [where h = "heap gc"]) (rule n(1))
  let ?P = "\<lambda>gc (h, t) ys. lseg next_of (heap gc) h ys None \<and> t = (if ys = [] then None else Some (last ys))"
  have V: "list_all2 (vm_list gc) (machines gc) xss \<longleftrightarrow> list_all2 (?P gc) (obj_ends gc) xss" for gc :: "'d gcst" and xss
    unfolding obj_ends_def list.rel_map vm_list_def [abs_def] by simp
  have "list_all2 (?P g) (obj_ends gc) xss"
    by (rule list.rel_mono_strong [OF x(2) [unfolded V]]) (auto simp: ls)
  moreover have "list_all2 (?P g) (replicate k (None, None)) (replicate k [])" by (simp add: list_all2_conv_all_nth)
  ultimately have "list_all2 (?P g) (obj_ends g) (xss @ replicate k [])" unfolding e by (rule list_all2_appendI)
  then have "list_all2 (vm_list g) (machines g) (xss @ replicate k [])" by (simp add: V)
  moreover have "concat (xss @ replicate k []) = concat xss" by simp
  ultimately show ?thesis unfolding obj_lists_def using ls [OF x(1)] x(3,4) n(2)
    by (intro conjI exI [of _ x0] exI [of _ "xss @ replicate k []"]) simp_all
qed

lemma inv_store:
  assumes i: "gc_inv cbs L S gc" and s: "store_ok cbs S gc a n b" and g: "g = gc\<lparr>heap := (heap gc)(a \<mapsto> n\<lparr>body := b\<rparr>)\<rparr>"
  shows "gc_inv cbs L S g"
proof -
  have n: "heap gc a = Some n" and k: "same_kind (body n) b" and aS: "a \<notin> S" and h: "held cbs gc (PObj a)" and X: "\<And>X. frame_pairs gc X \<Longrightarrow> a \<notin> X"
    and t: "obj_typed g a" and u: "\<And>p. p \<in> set (kids cbs g a) \<union> set (weak_ptrs g a) \<Longrightarrow> usable cbs S gc p"
    using s unfolding store_ok_def Let_def g by blast+
  note K = stored_same [OF n k g]
  have aL: "a \<in> L" using held_in [OF i h] aS by simp
  have ms: "machines g = machines gc" "gc_head g = gc_head gc" "gray_list g = gray_list gc" "weak_refs g = weak_refs gc" "own_part g = own_part gc"
    by (simp_all add: machines_def g own_part_def)
  have mk: "map_option mark_of (heap g c) = map_option mark_of (heap gc c)" "map_option next_of (heap g c) = map_option next_of (heap gc c)" for c
    by (cases "c = a"; simp add: g n)+
  obtain xs where xs: "obj_lists gc xs" "L = set xs" using gc_invD(1) [OF i] by blast
  have "obj_lists g xs" by (rule lists_cong [OF xs(1) mk(2) ms(2), of 0]) (simp add: obj_ends_def ms(1))
  moreover have ro: "roots cbs g = roots cbs gc" using own_ptrs_part [OF ms(5)] ms(1) by (simp add: roots_eq)
  moreover have "machines_ok g"
  proof -
    obtain zs where zs: "frame_lists gc (concat (map frames (machines gc))) zs" using gc_invD(11) [OF i] by (auto simp: machines_ok_def)
    then have "a \<notin> set zs" using X by (auto simp: frame_pairs_def)
    then have "frame_lists g (concat (map frames (machines gc))) zs" by (intro lists_of_plists [OF _ zs] stored_plist [OF n k g]) auto
    then show ?thesis using gc_invD(11) [OF i] ms(1) by (auto simp: machines_ok_def)
  qed
  moreover have "obj_typed g c \<and> points_into (L \<union> S) (kids cbs g c) \<and> points_into (L \<union> S) (weak_ptrs g c)" if c: "c \<in> L" for c
  proof (cases "c = a")
    case True
    then show ?thesis using t usable_in [OF i, of "kids cbs g a"] usable_in [OF i, of "weak_ptrs g a"] u by simp
  next
    case False
    then show ?thesis using K [OF False] gc_invD(7,8) [OF i] c by (simp add: closed_heap_def)
  qed
  moreover have "obj_typed g c \<and> points_into S (kids cbs g c) \<and> points_into S (weak_ptrs g c)" if c: "c \<in> S" for c
  proof -
    have ca: "c \<noteq> a" using c aS by blast
    show ?thesis using K [OF ca] gc_invD(7,9) [OF i] c by (simp add: closed_heap_def)
  qed
  ultimately show ?thesis using xs(2) mk(1) ms(3,4) gc_invD(10) [OF i]
    by (intro inv_change [OF i, where g = g]) auto
qed

section \<open>Changing the roots\<close>

lemma inv_roots:
  assumes i: "gc_inv cbs L S gc" and s: "roots_step cbs S gc g"
  shows "gc_inv cbs L S g"
proof -
  have h: "heap g = heap gc" "gc_head g = gc_head gc" "gray_list g = gray_list gc" "weak_refs g = weak_refs gc"
    and u: "\<And>p. p \<in> set (roots cbs g) \<Longrightarrow> usable cbs S gc p" and ok: "machines_ok g" and r: "refs_ok cbs S gc g"
    using s unfolding roots_step_def by blast+
  obtain k where k: "obj_ends g = obj_ends gc @ replicate k (None, None)" using s unfolding roots_step_def by blast
  obtain xs where xs: "obj_lists gc xs" "L = set xs" using gc_invD(1) [OF i] by blast
  have l: "obj_lists g xs" by (rule lists_cong [OF xs(1) _ h(2) k]) (simp add: h(1))
  have m: "meta_of g tp = meta_of gc tp" for tp by (simp add: meta_of_def h(1))
  have w: "weak_ptrs g c = weak_ptrs gc c" for c by (simp add: weak_ptrs_def h(1))
  have K: "obj_typed g c \<and> (kids cbs g c = kids cbs gc c \<or> c \<notin> S \<and> (\<forall>p \<in> set (kids cbs g c). usable cbs S gc p))" if t: "obj_typed gc c" for c
  proof -
    obtain n where n: "heap gc c = Some n" using t by (auto simp: obj_typed_def)
    show ?thesis
    proof (cases "\<exists>r. body n = VmVarRef r")
      case True
      then obtain q where q: "body n = VmVarRef q" by blast
      then obtain p where p: "ref_value g q = Some p" "ref_value gc q = Some p \<or> c \<notin> S \<and> usable cbs S gc p" using r n unfolding refs_ok_def by blast
      then show ?thesis using n q by (auto simp: obj_typed_def kids_def h(1))
    next
      case False
      then show ?thesis using t n m by (cases "body n") (auto simp: obj_typed_def kids_def h(1))
    qed
  qed
  have "obj_typed g c \<and> points_into (L \<union> S) (kids cbs g c) \<and> points_into (L \<union> S) (weak_ptrs g c)" if c: "c \<in> L" for c
  proof -
    have t: "obj_typed gc c" "points_into (L \<union> S) (kids cbs gc c)" using gc_invD(7) [OF i] c by (simp_all add: closed_heap_def)
    have "points_into (L \<union> S) (kids cbs g c)" using K [OF t(1)] t(2) usable_in [OF i, of "kids cbs g c"] by auto
    then show ?thesis using K [OF t(1)] gc_invD(8) [OF i c] w by simp
  qed
  moreover have "obj_typed g c \<and> points_into S (kids cbs g c) \<and> points_into S (weak_ptrs g c)" if c: "c \<in> S" for c
    using K [of c] gc_invD(7,9) [OF i] c w by (auto simp: closed_heap_def)
  moreover have "points_into (L \<union> S) (roots cbs g)" by (rule usable_in [OF i u])
  ultimately show ?thesis using xs(2) l h ok by (intro inv_change [OF i, where g = g]) auto
qed

section \<open>Making an object\<close>

lemma stack_ptrs_end: "length st \<le> i \<Longrightarrow> stack_ptrs st i = []"
  by (simp add: stack_ptrs.simps)

lemma stack_ptrs_push: "set (stack_ptrs (st @ [PObj a]) i) \<subseteq> insert (PObj a) (set (stack_ptrs st i))"
proof (induction st i rule: stack_ptrs.induct)
  case (1 st i)
  consider "i < length st" | "i = length st" | "length st < i" by linarith
  then show ?case
  proof cases
    case 1
    then have e: "(st @ [PObj a]) ! i = st ! i" by (simp add: nth_append)
    show ?thesis
    proof (cases "\<exists>j. st ! i = PSkip j")
      case True
      then obtain j where j: "st ! i = PSkip j" by blast
      show ?thesis
      proof (cases "i < j")
        case True
        then show ?thesis using "1.IH"(3) [OF 1 j True] True 1 e j by (simp add: stack_ptrs.simps [of "st @ [PObj a]" i] stack_ptrs.simps [of st i])
      next
        case False
        then show ?thesis using 1 e j by (simp add: stack_ptrs.simps [of "st @ [PObj a]" i])
      qed
    next
      case False
      then have "stack_ptrs (st @ [PObj a]) i = st ! i # stack_ptrs (st @ [PObj a]) (i + 1)" "stack_ptrs st i = st ! i # stack_ptrs st (i + 1)"
        using 1 e by (cases "st ! i"; simp add: stack_ptrs.simps [of "st @ [PObj a]" i] stack_ptrs.simps [of st i])+
      moreover have "set (stack_ptrs (st @ [PObj a]) (i + 1)) \<subseteq> insert (PObj a) (set (stack_ptrs st (i + 1)))"
        using "1.IH" 1 False by (cases "st ! i") auto
      ultimately show ?thesis by auto
    qed
  next
    case 2
    show ?thesis unfolding 2 by (subst stack_ptrs.simps) (simp add: stack_ptrs_end)
  next
    case 3
    then show ?thesis by (simp add: stack_ptrs_end)
  qed
qed

lemma stack_ok_push: "stack_ok st \<Longrightarrow> stack_ok (st @ [PObj a])"
  by (auto simp: stack_ok_def nth_append less_Suc_eq)

text \<open>The state after \<open>fklAddToGC\<close> and the push.\<close>

definition pushed :: "nat \<Rightarrow> nat \<Rightarrow> 'd vmobj \<Rightarrow> 'd gcst \<Rightarrow> 'd gcst \<Rightarrow> bool" where
  "pushed i a n gc g \<longleftrightarrow> (\<exists>v v'. machines gc ! i = v \<and> machines g = (machines gc)[i := v'] \<and> stack v' = stack v @ [PObj a]
     \<and> obj_head v' = Some a \<and> obj_tail v' = (if obj_tail v = None then Some a else obj_tail v)
     \<and> frames v' = frames v \<and> atexits v' = atexits v \<and> int_list v' = int_list v \<and> vm_error v' = vm_error v \<and> chan v' = chan v
     \<and> heap g = (heap gc)(a \<mapsto> n\<lparr>next_of := obj_head v\<rparr>))
     \<and> gc_head g = gc_head gc \<and> gray_list g = gray_list gc \<and> weak_refs g = weak_refs gc \<and> own_part g = own_part gc
     \<and> alloced_size g = alloced_size gc + zsize n"

lemma AddToGC_pushed:
  assumes i: "i < length (machines gc)"
    and r: "fklAddToGC a (gc\<lparr>heap := (heap gc)(a \<mapsto> n)\<rparr>) (machines gc ! i) = Some (g, v)"
  shows "pushed i a n gc (set_machine i (v\<lparr>stack := stack v @ [PObj a]\<rparr>) g)"
proof -
  let ?v = "machines gc ! i"
  have gv: "g = gc\<lparr>heap := (heap gc)(a \<mapsto> n\<lparr>next_of := obj_head ?v\<rparr>), alloced_size := alloced_size gc + zsize n\<rparr>"
    "v = ?v\<lparr>obj_head := Some a, obj_tail := if obj_tail ?v = None then Some a else obj_tail ?v\<rparr>"
    using r by (auto simp: fklAddToGC_def Let_def split: if_splits)
  have mg: "machines g = machines gc" by (simp add: gv(1) machines_def)
  have m: "machines (set_machine i (v\<lparr>stack := stack v @ [PObj a]\<rparr>) g) = (machines gc)[i := v\<lparr>stack := stack v @ [PObj a]\<rparr>]"
    using machines_set [of i g] i mg by simp
  have al: "alloced_size (set_machine i w g) = alloced_size g" for w by (simp add: set_machine_def split: nat.split)
  show ?thesis unfolding pushed_def m set_machine_sel al
    by (intro conjI exI [of _ ?v] exI [of _ "v\<lparr>stack := stack v @ [PObj a]\<rparr>"]) (simp_all add: gv own_part_def)
qed

lemma rd_push: "rd xs j = Some x \<Longrightarrow> rd (xs @ ys) j = Some x"
  by (auto simp: rd_def nth_append split: if_splits)

lemma pushed_ref:
  assumes p: "pushed i a n gc g" and r: "ref_value gc r = Some q" and i: "i < length (machines gc)"
  shows "ref_value g r = Some q"
proof (cases r)
  case (Open k j)
  obtain v v' where v: "machines gc ! i = v" "machines g = (machines gc)[i := v']" "stack v' = stack v @ [PObj a]"
    using p unfolding pushed_def by blast
  obtain st where st: "rd (map stack (machines gc)) k = Some st" "rd st j = Some q"
    using r Open unfolding ref_value_machines by (auto simp: bind_eq_Some_conv)
  have k: "k < length (machines gc)" "st = stack (machines gc ! k)" using st(1) by (auto simp: rd_def split: if_splits)
  have "\<exists>zs. rd (map stack (machines g)) k = Some (st @ zs)"
  proof (cases "k = i")
    case True
    then show ?thesis using v k i by (auto simp: rd_def)
  next
    case False
    then show ?thesis using v(2) k by (intro exI [of _ "[]"]) (simp add: rd_def)
  qed
  then show ?thesis using Open rd_push [OF st(2)] unfolding ref_value_machines by auto
qed (use r in \<open>simp add: ref_value_def\<close>)


lemma rest_ok:
  assumes "pushed i a n gc g" "i < length (machines gc)" "heap gc a = None"
  shows "heap g b = (if b = a then Some (n\<lparr>next_of := obj_head (machines gc ! i)\<rparr>) else heap gc b)"
    "own_part g = own_part gc" "gc_head g = gc_head gc" "gray_list g = gray_list gc" "weak_refs g = weak_refs gc"
  using assms unfolding pushed_def by auto

lemma pushed_kids:
  assumes p: "pushed i a n gc g" and i: "i < length (machines gc)" and a: "heap gc a = None" and t: "obj_typed gc b"
  shows "kids cbs g b = kids cbs gc b" "obj_typed g b" "weak_ptrs g b = weak_ptrs gc b"
proof -
  have ba: "b \<noteq> a" using t a by (auto simp: obj_typed_def)
  have h: "heap g b = heap gc b" using rest_ok(1) [OF p i a, of b] ba by simp
  obtain m where m: "heap gc b = Some m" using t by (auto simp: obj_typed_def)
  have mt: "meta_of g tp = meta_of gc tp" if "meta_of gc tp = Some mt" for tp mt
  proof -
    have "tp \<noteq> a" using that a by (auto simp: meta_of_def)
    then show ?thesis using rest_ok(1) [OF p i a, of tp] by (simp add: meta_of_def)
  qed
  show "weak_ptrs g b = weak_ptrs gc b" by (simp add: weak_ptrs_def h)
  show "kids cbs g b = kids cbs gc b"
  proof (cases "body m")
    case (VmVarRef r)
    then obtain q where "ref_value gc r = Some q" using t m by (auto simp: obj_typed_def)
    then show ?thesis using VmVarRef m h pushed_ref [OF p _ i] by (simp add: kids_def)
  next
    case (VmUd tp u)
    then obtain mt where "meta_of gc tp = Some mt" using t m by (auto simp: obj_typed_def)
    then show ?thesis using VmUd m h mt by (simp add: kids_def)
  qed (use m h in \<open>simp_all add: kids_def\<close>)
  show "obj_typed g b"
  proof (cases "body m")
    case (VmVarRef r)
    then obtain q where "ref_value gc r = Some q" using t m by (auto simp: obj_typed_def)
    then show ?thesis using VmVarRef m h pushed_ref [OF p _ i] by (simp add: obj_typed_def)
  next
    case (VmUd tp u)
    then obtain mt where "meta_of gc tp = Some mt" "ud_typed mt u" using t m by (auto simp: obj_typed_def)
    then show ?thesis using VmUd m h mt by (simp add: obj_typed_def)
  qed (use m h in \<open>simp_all add: obj_typed_def\<close>)
qed

lemma pushed_new:
  assumes p: "pushed i a n gc g" and i: "i < length (machines gc)" and a: "heap gc a = None"
    and t: "obj_typed (gc\<lparr>heap := (heap gc)(a \<mapsto> n)\<rparr>) a"
  shows "kids cbs g a = kids cbs (gc\<lparr>heap := (heap gc)(a \<mapsto> n)\<rparr>) a" "obj_typed g a"
    "weak_ptrs g a = weak_ptrs (gc\<lparr>heap := (heap gc)(a \<mapsto> n)\<rparr>) a"
proof -
  let ?g0 = "gc\<lparr>heap := (heap gc)(a \<mapsto> n)\<rparr>"
  have h: "heap g a = Some (n\<lparr>next_of := obj_head (machines gc ! i)\<rparr>)" "heap ?g0 a = Some n" using rest_ok(1) [OF p i a, of a] by simp_all
  have mt: "meta_of g tp = meta_of ?g0 tp" for tp
    using rest_ok(1) [OF p i a, of tp] by (cases "tp = a") (simp_all add: meta_of_def)
  have rv: "ref_value ?g0 r = ref_value gc r" for r by (cases r) (simp_all add: ref_value_def)
  show "weak_ptrs g a = weak_ptrs ?g0 a" using h by (simp add: weak_ptrs_def)
  show "kids cbs g a = kids cbs ?g0 a"
  proof (cases "body n")
    case (VmVarRef r)
    then obtain q where "ref_value gc r = Some q" using t rv by (auto simp: obj_typed_def)
    then show ?thesis using VmVarRef h pushed_ref [OF p _ i] rv by (simp add: kids_def)
  next
    case (VmUd tp u)
    then show ?thesis using h mt [of tp] by (simp add: kids_def)
  qed (use h in \<open>simp_all add: kids_def\<close>)
  show "obj_typed g a"
  proof (cases "body n")
    case (VmVarRef r)
    then obtain q where "ref_value gc r = Some q" using t rv by (auto simp: obj_typed_def)
    then show ?thesis using VmVarRef h pushed_ref [OF p _ i] by (simp add: obj_typed_def)
  next
    case (VmUd tp u)
    then show ?thesis using t h mt [of tp] by (simp add: obj_typed_def)
  qed (use h in \<open>simp_all add: obj_typed_def\<close>)
qed

lemma pushed_plist:
  assumes p: "pushed i a n gc g" and i: "i < length (machines gc)" and a: "heap gc a = None"
  shows "plist gc r xs \<Longrightarrow> plist g r xs"
proof (induction xs arbitrary: r)
  case Nil
  show ?case
  proof (cases r)
    case (PObj c)
    then have "heap gc c \<noteq> None" using Nil by (cases "heap gc c") (auto simp: as_pair_def)
    then have "heap g c = heap gc c" using rest_ok(1) [OF p i a, of c] a by auto
    then show ?thesis using Nil PObj by (simp add: as_pair_def)
  qed (use Nil in \<open>simp_all add: as_pair_def\<close>)
next
  case (Cons b xs)
  obtain m x d where m: "r = PObj b" "heap gc b = Some m" "body m = VmPair x d" "is_closed_var_ref gc x \<noteq> None" "plist gc d xs"
    using Cons.prems by auto
  have hb: "heap g b = heap gc b" using rest_ok(1) [OF p i a, of b] m(2) a by auto
  obtain c where "is_closed_var_ref gc x = Some c" using m(4) by blast
  then obtain e k rc where e: "x = PObj e" "heap gc e = Some k" "body k = VmVarRef rc" by (auto simp: is_closed_Some)
  have "heap g e = heap gc e" using rest_ok(1) [OF p i a, of e] e a by auto
  then have "is_closed_var_ref g x \<noteq> None" using e by (simp add: is_closed_var_ref_def)
  then show ?case using m(1,2,3) hb Cons.IH [OF m(5)] by simp
qed

lemma pushed_lists:
  assumes p: "pushed i a n gc g" and i: "i < length (machines gc)" and a: "heap gc a = None" and o: "obj_lists gc xs"
  shows "\<exists>ys. obj_lists g ys \<and> set ys = insert a (set xs)"
proof -
  obtain x0 xss where x: "lseg next_of (heap gc) (gc_head gc) x0 None" "list_all2 (vm_list gc) (machines gc) xss"
    "xs = x0 @ concat xss" "distinct (x0 @ concat xss)" using o by (auto simp: obj_lists_def)
  have ls: "lseg next_of (heap gc) r ys None \<Longrightarrow> lseg next_of (heap g) r ys None" for r ys
  proof (rule lseg_cong)
    fix b assume l: "lseg next_of (heap gc) r ys None" "b \<in> set ys"
    have "heap gc b \<noteq> None" using lseg_alloc [OF l] by blast
    then have "b \<noteq> a" using a by auto
    then show "map_option next_of (heap g b) = map_option next_of (heap gc b)" using rest_ok(1) [OF p i a, of b] by simp
  qed
  have il: "i < length xss" using x(2) i by (simp add: list_all2_lengthD)
  have na: "a \<notin> set (x0 @ concat xss)"
  proof
    assume "a \<in> set (x0 @ concat xss)"
    then consider "a \<in> set x0" | ys where "ys \<in> set xss" "a \<in> set ys" by auto
    then show False
    proof cases
      case 1
      then show ?thesis using lseg_alloc [OF x(1) 1] a by simp
    next
      case 2
      then obtain v where "vm_list gc v ys" using list_all2_right [OF x(2)] by blast
      then show ?thesis using lseg_alloc 2(2) a by (fastforce simp: vm_list_def)
    qed
  qed
  obtain v' where v': "machines g = (machines gc)[i := v']" "obj_head v' = Some a"
    "obj_tail v' = (if obj_tail (machines gc ! i) = None then Some a else obj_tail (machines gc ! i))" using p unfolding pushed_def by blast
  have vi: "vm_list gc (machines gc ! i) (xss ! i)" using x(2) i by (simp add: list_all2_nthD)
  have vn: "vm_list g v' (a # xss ! i)"
  proof -
    have "lseg next_of (heap g) (obj_head (machines gc ! i)) (xss ! i) None" using ls vi by (simp add: vm_list_def)
    then show ?thesis using v' vi rest_ok(1) [OF p i a, of a] by (simp add: vm_list_def)
  qed
  have "list_all2 (vm_list g) (machines gc) xss"
    by (rule list.rel_mono_strong [OF x(2)]) (simp add: vm_list_def ls)
  then have l2: "list_all2 (vm_list g) (machines g) (xss[i := a # xss ! i])"
    unfolding v'(1) using vn by (rule list_all2_update_cong)
  have sp: "xss = take i xss @ xss ! i # drop (Suc i) xss" "xss[i := a # xss ! i] = take i xss @ (a # xss ! i) # drop (Suc i) xss"
    using il by (simp_all add: id_take_nth_drop [symmetric] upd_conv_take_nth_drop)
  have cc: "concat xss = concat (take i xss) @ xss ! i @ concat (drop (Suc i) xss)"
    by (subst sp(1)) (simp only: concat.simps concat_append append_assoc)
  have cu: "concat (xss[i := a # xss ! i]) = concat (take i xss) @ a # xss ! i @ concat (drop (Suc i) xss)" unfolding sp(2) by simp
  have "distinct (x0 @ concat (xss[i := a # xss ! i]))" "set (x0 @ concat (xss[i := a # xss ! i])) = insert a (set xs)"
    using x(4) na unfolding x(3) cu cc by auto
  then show ?thesis unfolding obj_lists_def
    using ls [OF x(1)] l2 rest_ok(3) [OF p i a] by (intro exI [of _ "x0 @ concat (xss[i := a # xss ! i])"] conjI exI) simp_all
qed


lemma inv_new:
  assumes i: "gc_inv cbs L S gc" and f: "fresh_ok cbs S gc a n" and il: "i < length (machines gc)" and p: "pushed i a n gc g"
  shows "gc_inv cbs (insert a L) S g"
proof -
  let ?g0 = "gc\<lparr>heap := (heap gc)(a \<mapsto> n)\<rparr>"
  have fr: "heap gc a = None" "mark_of n = FKL_MARK_W" "obj_typed ?g0 a"
    "\<forall>q \<in> set (kids cbs ?g0 a) \<union> set (weak_ptrs ?g0 a). usable cbs S gc q"
    using f by (simp_all add: fresh_ok_def Let_def)
  note R = rest_ok [OF p il fr(1)]
  note N = pushed_new [OF p il fr(1,3)]
  have al: "heap gc b \<noteq> None" if "b \<in> L \<union> S" for b using gc_invD(5,6) [OF i] that by (fastforce simp: white_def)
  have aLS: "a \<notin> L \<union> S" using al fr(1) by blast
  have typed: "obj_typed gc b" if "b \<in> L \<union> S" for b using gc_invD(7) [OF i] that by (simp add: closed_heap_def)
  note K = pushed_kids [OF p il fr(1) typed]
  have new: "points_into (insert a L \<union> S) qs" if "set qs \<subseteq> set (kids cbs ?g0 a) \<union> set (weak_ptrs ?g0 a)" for qs
    using usable_in [OF i, of qs] that fr(4) by (force simp: points_into_def)
  have up: "points_into (L \<union> S) qs \<Longrightarrow> points_into (insert a L \<union> S) qs" for qs by (auto simp: points_into_def)
  have kn: "points_into (insert a L \<union> S) (kids cbs g a)" "points_into (insert a L \<union> S) (weak_ptrs g a)"
    using new [of "kids cbs ?g0 a"] new [of "weak_ptrs ?g0 a"] unfolding N(1,3) by simp_all
  obtain xs where "obj_lists gc xs" "L = set xs" using gc_invD(1) [OF i] by blast
  then have "\<exists>ys. obj_lists g ys \<and> insert a L = set ys" using pushed_lists [OF p il fr(1)] by metis
  moreover have "white g b" if "b \<in> insert a L" for b
  proof (cases "b = a")
    case True
    then show ?thesis using R(1) [of a] fr(2) by (simp add: white_def)
  next
    case False
    then show ?thesis using gc_invD(5) [OF i, of b] that R(1) [of b] by (simp add: white_def)
  qed
  moreover have "\<exists>m. heap g b = Some m \<and> mark_of m = FKL_MARK_B" if bS: "b \<in> S" for b
  proof -
    have "b \<noteq> a" using bS aLS by blast
    then show ?thesis using gc_invD(6) [OF i bS] R(1) [of b] by simp
  qed
  moreover have "closed_heap cbs (insert a L) S g" unfolding closed_heap_def
  proof (intro conjI ballI)
    fix b assume b: "b \<in> insert a L \<union> S"
    show "obj_typed g b" using b N(2) K(2) by blast
    show "points_into (insert a L \<union> S) (kids cbs g b)"
    proof (cases "b = a")
      case False
      then have bb: "b \<in> L \<union> S" using b by blast
      show ?thesis using up [OF inv_closed [OF i bb]] K(1) [OF bb] by simp
    qed (use kn in simp)
  next
    fix b assume b: "b \<in> S"
    then have "points_into S (kids cbs gc b)" using gc_invD(7) [OF i] by (simp add: closed_heap_def)
    then show "points_into S (kids cbs g b)" using K(1) [of b] b by simp
  qed
  moreover have "points_into (insert a L \<union> S) (weak_ptrs g b)" if "b \<in> insert a L" for b
  proof (cases "b = a")
    case False
    then show ?thesis using up [OF gc_invD(8) [OF i, of b]] K(3) [of b] that by simp
  qed (use kn in simp)
  moreover have "points_into S (weak_ptrs g b)" if "b \<in> S" for b using gc_invD(9) [OF i that] K(3) [of b] that by simp
  moreover obtain v v' where v: "machines gc ! i = v" "machines g = (machines gc)[i := v']" "stack v' = stack v @ [PObj a]" "frames v' = frames v"
    "atexits v' = atexits v" "int_list v' = int_list v" "vm_error v' = vm_error v" "chan v' = chan v" using p unfolding pushed_def by blast
  have vin: "v \<in> set (machines gc)" using v(1) il by auto
  have mem: "w \<in> set (machines g) \<Longrightarrow> w = v' \<or> w \<in> set (machines gc)" for w unfolding v(2) by (meson insert_iff set_update_subset_insert subset_iff)
  have ro: "points_into (insert a L \<union> S) (roots cbs g)"
  proof -
    have o: "points_into (L \<union> S) (own_ptrs cbs gc)" and ms: "\<And>w. w \<in> set (machines gc) \<Longrightarrow> points_into (L \<union> S) (machine_ptrs cbs w)"
      using gc_invD(10) [OF i] by (simp_all add: roots_eq points_into_concat)
    have "set (machine_ptrs cbs v') \<subseteq> insert (PObj a) (set (machine_ptrs cbs v))"
      using stack_ptrs_push [of "stack v" a 0] v(3-8) by (auto simp: machine_ptrs_def)
    then have "points_into (insert a L \<union> S) (machine_ptrs cbs v')" using ms [OF vin] by (auto simp: points_into_def)
    then have "\<forall>w \<in> set (machines g). points_into (insert a L \<union> S) (machine_ptrs cbs w)" using mem up ms by blast
    then show ?thesis using up [OF o] own_ptrs_part [OF R(2)] by (simp add: roots_eq points_into_concat)
  qed
  moreover have "machines_ok g"
  proof -
    have "map frames (machines g) = map frames (machines gc)"
      unfolding v(2) map_update v(4) using v(1) il by (metis list_update_id nth_map)
    moreover obtain zs where "frame_lists gc (concat (map frames (machines gc))) zs" using gc_invD(11) [OF i] by (auto simp: machines_ok_def)
    then have "frame_lists g (concat (map frames (machines gc))) zs" by (rule lists_of_plists [rotated]) (rule pushed_plist [OF p il fr(1)], assumption)
    moreover have "\<forall>w \<in> set (machines g). stack_ok (stack w)"
      using gc_invD(11) [OF i] mem stack_ok_push v(3) vin unfolding machines_ok_def by metis
    ultimately show ?thesis unfolding machines_ok_def by metis
  qed
  ultimately show ?thesis unfolding gc_inv_def using gc_invD(2,3,4) [OF i] R(4,5) aLS by (intro conjI) auto
qed

section \<open>Every state that is reached\<close>

text \<open>The invariant, for some set of objects.\<close>

definition gc_good :: "'d callbacks \<Rightarrow> nat set \<Rightarrow> 'd gcst \<Rightarrow> bool" where
  "gc_good cbs S gc \<longleftrightarrow> (\<exists>L. gc_inv cbs L S gc)"

lemma collect_good:
  assumes "gc_good cbs S gc" "types_survive cbs S gc"
  shows "\<exists>gc'. fklVMgcCheck cbs gc forced = Some gc' \<and> gc_good cbs S gc'"
proof (cases "forced \<or> alloced_size gc > threshold gc")
  case True
  obtain L where i: "gc_inv cbs L S gc" using assms(1) by (auto simp: gc_good_def)
  obtain xs where xs: "obj_lists gc xs" "L = set xs" using gc_invD(1) [OF i] by blast
  then have "types_kept cbs L S gc" using assms(2) by (simp add: types_survive_def)
  then obtain gc' M where r: "collect_garbage cbs gc = Some gc'" "collected_to cbs L S M gc gc'" using wp_collect_kept [OF i] by (auto elim!: wpE)
  have "gc_inv cbs M S gc'" using r(2) unfolding collected_to_def by blast
  then show ?thesis using True r(1) by (auto simp: fklVMgcCheck_def gc_good_def)
next
  case False
  then show ?thesis using assms(1) by (auto simp: fklVMgcCheck_def)
qed

lemma step_good:
  assumes s: "gc_step cbs S gc g" and G: "gc_good cbs S gc"
  shows "gc_good cbs S g"
proof -
  obtain L where i: "gc_inv cbs L S gc" using G by (auto simp: gc_good_def)
  show ?thesis using s
  proof (rule gc_stepE)
    fix a n j gc' v
    assume g: "g = set_machine j (v\<lparr>stack := stack v @ [PObj a]\<rparr>) gc'" and f: "fresh_ok cbs S gc a n" and j: "j < length (machines gc)"
      and r: "fklAddToGC a (gc\<lparr>heap := (heap gc)(a \<mapsto> n)\<rparr>) (machines gc ! j) = Some (gc', v)"
    have "pushed j a n gc g" unfolding g by (rule AddToGC_pushed [OF j r])
    then show ?thesis using inv_new [OF i f j] by (auto simp: gc_good_def)
  next
    fix a n b
    assume g: "g = gc\<lparr>heap := (heap gc)(a \<mapsto> n\<lparr>body := b\<rparr>)\<rparr>" and s: "store_ok cbs S gc a n b"
    show ?thesis using inv_store [OF i s g] by (auto simp: gc_good_def)
  next
    assume "roots_step cbs S gc g"
    then show ?thesis using inv_roots [OF i] by (auto simp: gc_good_def)
  next
    fix forced assume "types_survive cbs S gc" "fklVMgcCheck cbs gc forced = Some g"
    then show ?thesis using collect_good [OF G, of forced] by auto
  qed
qed

lemma run_good: "gc_run cbs S gc0 gc \<Longrightarrow> gc_good cbs S gc0 \<Longrightarrow> gc_good cbs S gc"
  by (induction rule: gc_run.induct) (auto dest: step_good)

lemma good_usable: "gc_good cbs S gc \<Longrightarrow> usable cbs S gc (PObj a) \<Longrightarrow> heap gc a \<noteq> None"
proof -
  assume "gc_good cbs S gc" and u: "usable cbs S gc (PObj a)"
  then obtain L where i: "gc_inv cbs L S gc" by (auto simp: gc_good_def)
  have "points_into (L \<union> S) [PObj a]" by (rule usable_in [OF i]) (use u in simp)
  then show ?thesis using gc_invD(5,6) [OF i] by (fastforce simp: white_def)
qed

section \<open>A run\<close>

text \<open>
  A run from the small heap: a new box 9 that holds the box 8, a store of 9 into 8, which closes a cycle, and
  pops of 9 and of the weak table 4. The collection then releases 4 and 3 and keeps the cycle.
\<close>

definition ex_new :: "unit gcst" where
  "ex_new = ex_gc\<lparr>heap := ex_heap(9 \<mapsto> ex_obj FKL_MARK_W (Some 3) (VmBox (PObj 8))), alloced_size := 112,
     gcvm := ex_vm\<lparr>obj_head := Some 9, stack := [PObj 8, PSkip 3, PNull, PObj 4, PObj 9]\<rparr>\<rparr>"

definition ex_stored :: "unit gcst" where
  "ex_stored = ex_new\<lparr>heap := (heap ex_new)(8 \<mapsto> ex_obj FKL_MARK_W (Some 2) (VmBox (PObj 9)))\<rparr>"

definition ex_popped :: "unit gcst" where
  "ex_popped = ex_stored\<lparr>gcvm := ex_vm\<lparr>obj_head := Some 9, stack := [PObj 8, PSkip 3, PNull]\<rparr>\<rparr>"

lemmas ex_run_defs = ex_popped_def ex_stored_def ex_new_def ex_gc_def ex_vm_def ex_heap_def ex_obj_def ex_cbs_def

lemma root_held: "PObj a \<in> set (roots cbs gc) \<Longrightarrow> held cbs gc (PObj a)"
  by (auto simp: held_def targets_def intro: reach_root)

lemma ex_new_step: "gc_step ex_cbs {0, 6} ex_gc ex_new \<and> gc_inv ex_cbs {9, 2, 3, 4, 5, 7, 8} {0, 6} ex_new"
proof -
  let ?n = "ex_obj FKL_MARK_W None (VmBox (PObj 8))"
  let ?g0 = "ex_gc\<lparr>heap := (heap ex_gc)(9 \<mapsto> ?n)\<rparr>"
  have h: "held ex_cbs ex_gc (PObj 8)" by (rule root_held) (simp add: ex_roots)
  have b: "heap ?g0 9 = Some ?n" "body ?n = VmBox (PObj 8)" by (simp_all add: ex_obj_def)
  have f: "fresh_ok ex_cbs {0, 6} ex_gc 9 ?n" unfolding fresh_ok_def Let_def
    using h b by (auto simp: obj_typed_def kids_def weak_ptrs_def usable_def ex_obj_def ex_gc_def ex_heap_def)
  have m: "0 < length (machines ex_gc)" "machines ex_gc ! 0 = ex_vm" by (simp_all add: machines_def ex_gc_def)
  have r: "fklAddToGC 9 ?g0 (machines ex_gc ! 0) = Some (?g0\<lparr>heap := ex_heap(9 \<mapsto> ex_obj FKL_MARK_W (Some 3) (VmBox (PObj 8))), alloced_size := 112\<rparr>,
      ex_vm\<lparr>obj_head := Some 9\<rparr>)"
    unfolding m(2) by (simp add: fklAddToGC_def Let_def ex_obj_def ex_gc_def ex_vm_def)
  have e: "set_machine 0 (ex_vm\<lparr>obj_head := Some 9, stack := stack (ex_vm\<lparr>obj_head := Some 9\<rparr>) @ [PObj 9]\<rparr>)
      (?g0\<lparr>heap := ex_heap(9 \<mapsto> ex_obj FKL_MARK_W (Some 3) (VmBox (PObj 8))), alloced_size := 112\<rparr>) = ex_new"
    by (simp add: ex_new_def set_machine_def ex_vm_def)
  show ?thesis using step_new [OF f m(1) r] inv_new [OF ex_inv f m(1) AddToGC_pushed [OF m(1) r]] unfolding e by blast
qed

lemma ex_kids_run:
  "kids ex_cbs ex_popped 8 = [PObj 9]" "kids ex_cbs ex_popped 9 = [PObj 8]" "kids ex_cbs ex_popped 2 = []"
  "kids ex_cbs ex_popped 5 = [PObj 7, PImm 0]" "kids ex_cbs ex_popped 7 = [PObj 2]"
  by (simp_all add: kids_def ex_run_defs meta_of_def ud_kids_def ref_value_def)

lemma ex_roots_run:
  "roots ex_cbs ex_popped = [PNull, PNull, PNull, PImm 0, PObj 5, PImm 0, PNull, PObj 8, PNull]"
  "roots ex_cbs ex_new = [PNull, PNull, PNull, PImm 0, PObj 5, PImm 0, PNull, PObj 8, PObj 4, PObj 9, PNull]"
  "roots ex_cbs ex_stored = roots ex_cbs ex_new"
  by (simp_all add: roots_def own_ptrs_def machine_ptrs_def handler_ptrs_def frame_ptrs_def ex_run_defs stack_ptrs.simps numeral_2_eq_2)

lemma ex_fixed_run: "fixed_roots ex_cbs ex_popped = [PNull, PNull, PNull, PImm 0, PImm 0, PNull, PObj 8, PNull]"
  by (simp add: fixed_roots_def machines_def own_ptrs_def machine_fixed_def frame_fixed_def handler_ptrs_def ex_run_defs stack_ptrs.simps numeral_2_eq_2)

lemma ex_store_step: "gc_step ex_cbs {0, 6} ex_new ex_stored \<and> gc_inv ex_cbs {9, 2, 3, 4, 5, 7, 8} {0, 6} ex_stored"
proof -
  let ?n = "ex_obj FKL_MARK_W (Some 2) (VmBox (PObj 2))"
  have n: "heap ex_new 8 = Some ?n" by (simp add: ex_run_defs)
  have h: "held ex_cbs ex_new (PObj 8)" "held ex_cbs ex_new (PObj 9)" by (rule root_held, simp add: ex_roots_run)+
  have X: "8 \<notin> X" if "frame_pairs ex_new X" for X
    using frame_pairs_body [OF that, of 8] n by (auto simp: ex_obj_def)
  have g: "ex_stored = ex_new\<lparr>heap := (heap ex_new)(8 \<mapsto> ?n\<lparr>body := VmBox (PObj 9)\<rparr>)\<rparr>" by (simp add: ex_stored_def ex_obj_def)
  have "heap ex_stored 8 = Some (?n\<lparr>body := VmBox (PObj 9)\<rparr>)" by (simp add: g)
  then have "obj_typed ex_stored 8" "kids ex_cbs ex_stored 8 = [PObj 9]" "weak_ptrs ex_stored 8 = []"
    by (simp_all add: obj_typed_def kids_def weak_ptrs_def)
  then have s: "store_ok ex_cbs {0, 6} ex_new 8 ?n (VmBox (PObj 9))" unfolding store_ok_def Let_def g [symmetric]
    using n h X by (simp add: same_kind_def ex_obj_def usable_def)
  show ?thesis using step_store [OF s] inv_store [OF conjunct2 [OF ex_new_step] s g] unfolding g [symmetric] by blast
qed

lemma ex_pop_step: "gc_step ex_cbs {0, 6} ex_stored ex_popped \<and> gc_inv ex_cbs {9, 2, 3, 4, 5, 7, 8} {0, 6} ex_popped"
proof -
  have h: "held ex_cbs ex_stored (PObj 8)" "held ex_cbs ex_stored (PObj 5)" by (rule root_held, simp add: ex_roots_run)+
  have f: "frame_lists ex_popped (concat (map frames (machines ex_popped))) [5]"
    unfolding frame_lists_def by (intro conjI exI [of _ "[[5]]"]) (auto simp: frame_list_def machines_def ex_run_defs as_pair_def is_closed_var_ref_def)
  have st: "stack_ok [PObj 8, PSkip 3, PNull]" by (auto simp: stack_ok_def less_Suc_eq nth_Cons split: nat.splits)
  have "machines_ok ex_popped" using f st by (auto simp: machines_ok_def machines_def ex_popped_def ex_stored_def ex_new_def ex_gc_def)
  moreover have "refs_ok ex_cbs {0, 6} ex_stored ex_popped"
    unfolding refs_ok_def by (auto simp: ex_run_defs ref_value_def split: if_splits)
  moreover have "\<forall>p \<in> set (roots ex_cbs ex_popped). usable ex_cbs {0, 6} ex_stored p"
    using h by (simp add: ex_roots_run usable_def held_def)
  moreover have "obj_ends ex_popped = obj_ends ex_stored @ replicate 0 (None, None)" by (simp add: obj_ends_def machines_def ex_run_defs)
  ultimately have s: "roots_step ex_cbs {0, 6} ex_stored ex_popped"
    unfolding roots_step_def by (intro conjI exI [of _ 0]) (simp_all add: ex_popped_def ex_stored_def ex_new_def)
  show ?thesis using step_roots [OF s] inv_roots [OF conjunct2 [OF ex_store_step] s] by blast
qed

lemma ex_run: "gc_run ex_cbs {0, 6} ex_gc ex_popped"
  using ex_pop_step ex_store_step ex_new_step by (blast intro: run_step run_start)

lemma ex_survive: "types_survive ex_cbs {0, 6} ex_popped"
  by (simp add: types_survive_def types_kept_def ex_run_defs)

lemma ex_live: "reach_in ex_cbs ex_popped L (targets L (roots ex_cbs ex_popped)) \<subseteq> {2, 5, 7, 8, 9}"
proof
  fix a assume "a \<in> reach_in ex_cbs ex_popped L (targets L (roots ex_cbs ex_popped))"
  then show "a \<in> {2, 5, 7, 8, 9}"
  proof (rule reach_in_least)
    show "targets L (roots ex_cbs ex_popped) \<subseteq> {2, 5, 7, 8, 9}" by (auto simp: targets_def ex_roots_run)
    show "targets L (kids ex_cbs ex_popped b) \<subseteq> {2, 5, 7, 8, 9}" if "b \<in> {2, 5, 7, 8, 9}" for b
      using that by (elim insertE) (auto simp: targets_def ex_kids_run)
  qed
qed

lemma ex_collected: "fklVMgcCheck ex_cbs ex_popped True = Some gc' \<Longrightarrow> heap gc' 3 = None \<and> heap gc' 4 = None \<and> heap gc' 9 \<noteq> None"
proof -
  let ?L = "{9, 2, 3, 4, 5, 7, 8 :: nat}"
  assume "fklVMgcCheck ex_cbs ex_popped True = Some gc'"
  then have c: "collect_garbage ex_cbs ex_popped = Some gc'" by (simp add: fklVMgcCheck_def)
  have k: "types_kept ex_cbs ?L {0, 6} ex_popped" by (simp add: types_kept_def ex_run_defs)
  obtain M where r: "collected_to ex_cbs ?L {0, 6} M ex_popped gc'"
    using wp_collect_kept [OF conjunct2 [OF ex_pop_step] k] c by (auto elim!: wpE)
  have m: "M \<subseteq> {2, 5, 7, 8, 9}" using r ex_live [of ?L] unfolding collected_to_def by blast
  have d: "\<not> delays ex_cbs ex_popped 3" "\<not> delays ex_cbs ex_popped 4" by (simp_all add: delays_def ex_run_defs finalize_ud_def meta_of_def)
  have "\<forall>a \<in> ?L - M. heap gc' a = None \<longleftrightarrow> \<not> delays ex_cbs ex_popped a" using r unfolding collected_to_def by (elim conjE) assumption
  then have n: "heap gc' 3 = None" "heap gc' 4 = None" using m d by auto
  obtain X where X: "frame_pairs ex_popped X" "reach_in ex_cbs ex_popped (?L - X) (targets (?L - X) (fixed_roots ex_cbs ex_popped)) \<subseteq> M"
    and o: "\<forall>a \<in> M. \<exists>n n'. heap ex_popped a = Some n \<and> heap gc' a = Some n' \<and> zsize n' = zsize n \<and> kept_body ex_popped X (M \<union> {0, 6}) a (body n) (body n')"
    using r unfolding collected_to_def by (elim conjE exE) (rule that)
  have x: "8 \<notin> X" "9 \<notin> X" using frame_pairs_body [OF X(1), of 8] frame_pairs_body [OF X(1), of 9] by (auto simp: ex_run_defs)
  let ?R = "reach_in ex_cbs ex_popped (?L - X) (targets (?L - X) (fixed_roots ex_cbs ex_popped))"
  have "8 \<in> ?R" by (rule reach_root) (use x in \<open>simp add: targets_def ex_fixed_run\<close>)
  then have "9 \<in> ?R" by (rule reach_kid) (use x in \<open>simp add: ex_kids_run\<close>)
  then have "9 \<in> M" using X(2) by blast
  from bspec [OF o this] have "heap gc' 9 \<noteq> None" by auto
  then show ?thesis using n by simp
qed

text \<open>
  C1: whatever a program does from a good state by making objects, storing into the ones it holds, closing
  variable references, pushing, popping and overwriting roots, and collecting, what it can still reach is
  allocated; and a collection at any moment returns in a good state again, as long as no object dies
  together with its own type.
\<close>

theorem gc_run_safe:
  assumes "gc_good cbs S gc0" "gc_run cbs S gc0 gc"
  shows "(\<forall>a. usable cbs S gc (PObj a) \<longrightarrow> heap gc a \<noteq> None)
    \<and> (\<forall>forced. types_survive cbs S gc \<longrightarrow> (\<exists>gc'. fklVMgcCheck cbs gc forced = Some gc' \<and> gc_good cbs S gc'))"
proof -
  have g: "gc_good cbs S gc" by (rule run_good [OF assms(2,1)])
  show ?thesis using good_usable [OF g] collect_good [OF g] by blast
qed

theorem gc_run_safe_witness:
  "\<exists>gc'. gc_run ex_cbs {0, 6} ex_gc ex_popped \<and> heap ex_popped 9 \<noteq> None \<and> fklVMgcCheck ex_cbs ex_popped True = Some gc'
    \<and> gc_good ex_cbs {0, 6} gc' \<and> heap gc' 3 = None \<and> heap gc' 4 = None \<and> heap gc' 9 \<noteq> None"
proof -
  have g: "gc_good ex_cbs {0, 6} ex_gc" using ex_inv by (auto simp: gc_good_def)
  have "heap ex_popped 9 \<noteq> None" by (simp add: ex_run_defs)
  then show ?thesis using gc_run_safe [OF g ex_run] ex_survive ex_run ex_collected by blast
qed

end
