(* ===== verification/Fixnum.thy ===== *)
theory Fixnum
  imports BigIntConv BigIntDivRem
begin

text \<open>
  The 61-bit integers of the virtual machine: their encoding in a tagged word
  (include/fakeLisp/vm.h) and the overflow tests of src/utils.c. The machine words wrap around
  where the C code relies on it; division of signed words truncates towards zero.
\<close>

section \<open>Tagged words\<close>

abbreviation FKL_UNUSEDBITNUM :: nat where "FKL_UNUSEDBITNUM \<equiv> 3"

definition FKL_TAG_PTR :: u64 where "FKL_TAG_PTR = 0"
definition FKL_TAG_NIL :: u64 where "FKL_TAG_NIL = 1"
definition FKL_TAG_FIX :: u64 where "FKL_TAG_FIX = 2"
definition FKL_TAG_CHR :: u64 where "FKL_TAG_CHR = 3"
definition FKL_TAG_SKIP :: u64 where "FKL_TAG_SKIP = 4"
definition FKL_TAG_MASK :: u64 where "FKL_TAG_MASK = 0x7"

lemmas tag_defs = FKL_TAG_PTR_def FKL_TAG_NIL_def FKL_TAG_FIX_def FKL_TAG_CHR_def FKL_TAG_SKIP_def

definition FKL_GET_TAG :: "u64 \<Rightarrow> u64" where
  "FKL_GET_TAG p = p AND FKL_TAG_MASK"

definition FKL_GET_FIX :: "u64 \<Rightarrow> i64" where
  "FKL_GET_FIX p = signed_drop_bit FKL_UNUSEDBITNUM p"

definition FKL_MAKE_VM_FIX :: "i64 \<Rightarrow> u64" where
  "FKL_MAKE_VM_FIX i = push_bit FKL_UNUSEDBITNUM i OR FKL_TAG_FIX"

definition FKL_GET_CHR :: "u64 \<Rightarrow> u8" where
  "FKL_GET_CHR p = ucast (drop_bit FKL_UNUSEDBITNUM p)"

definition FKL_MAKE_VM_CHR :: "u8 \<Rightarrow> u64" where
  "FKL_MAKE_VM_CHR c = push_bit FKL_UNUSEDBITNUM (ucast c) OR FKL_TAG_CHR"

definition FKL_FIX_INT_MAX :: i64 where "FKL_FIX_INT_MAX = 1152921504606846975"
definition FKL_FIX_INT_MIN :: i64 where "FKL_FIX_INT_MIN = - 1152921504606846975 - 1"

section \<open>Overflow tests\<close>

text \<open>Assigning to the 61-bit field of \<open>union Fixu\<close> and reading it back.\<close>

definition Fixu :: "i64 \<Rightarrow> i64" where
  "Fixu v = scast (ucast v :: 61 word)"

definition i64_div :: "i64 \<Rightarrow> i64 \<Rightarrow> i64" where
  "i64_div a b = word_of_int (sint a sdiv sint b)"

definition i64_mod :: "i64 \<Rightarrow> i64 \<Rightarrow> i64" where
  "i64_mod a b = word_of_int (sint a smod sint b)"

definition fklIsI64AddOverflow :: "i64 \<Rightarrow> i64 \<Rightarrow> bool" where
  "fklIsI64AddOverflow a b =
     (let sum = a + b in
      (sint a < 0 \<and> sint b < 0 \<and> sint sum > 0) \<or> (sint a > 0 \<and> sint b > 0 \<and> sint sum < 0))"

definition fklIsFixAddOverflow :: "i64 \<Rightarrow> i64 \<Rightarrow> bool" where
  "fklIsFixAddOverflow a b =
     (let us = Fixu (a + b); sum = us in
      (sint a < 0 \<and> sint b < 0 \<and> sint sum > 0) \<or> (sint a > 0 \<and> sint b > 0 \<and> sint sum < 0))"

definition fklIsI64MulOverflow :: "i64 \<Rightarrow> i64 \<Rightarrow> bool" where
  "fklIsI64MulOverflow a b =
     (if b = 0 \<or> a = 0 then False
      else if sint a \<ge> 0 \<and> sint b \<ge> 0 then sint (i64_div INT64_MAX a) < sint b
      else if sint a < 0 \<and> sint b < 0 then sint (i64_div INT64_MAX a) > sint b
      else if a * b = INT64_MIN then False
      else (let t = a * b; t = i64_div t b in a \<noteq> t))"

definition fklIsFixMulOverflow :: "i64 \<Rightarrow> i64 \<Rightarrow> bool" where
  "fklIsFixMulOverflow a b =
     (if b = 0 \<or> a = 0 then False
      else if sint a \<ge> 0 \<and> sint b \<ge> 0 then sint (i64_div FKL_FIX_INT_MAX a) < sint b
      else if sint a < 0 \<and> sint b < 0 then sint (i64_div FKL_FIX_INT_MAX a) > sint b
      else if a * b = FKL_FIX_INT_MIN then False
      else (let t = Fixu (a * b); t = Fixu (i64_div t b) in a \<noteq> t))"

section \<open>Ranges\<close>

text \<open>The integers a tagged word holds, and wrapping into their range.\<close>

definition fix_range :: "int \<Rightarrow> bool" where
  "fix_range n \<longleftrightarrow> - (2 ^ 60) \<le> n \<and> n < 2 ^ 60"

definition wrap_fix :: "int \<Rightarrow> int" where
  "wrap_fix n = signed_take_bit 60 n"

lemma fix_limits: "sint FKL_FIX_INT_MAX = 2 ^ 60 - 1" "sint FKL_FIX_INT_MIN = - (2 ^ 60)"
  by (simp_all add: FKL_FIX_INT_MAX_def FKL_FIX_INT_MIN_def)

lemma fix_range_limits: "fix_range n \<longleftrightarrow> sint FKL_FIX_INT_MIN \<le> n \<and> n \<le> sint FKL_FIX_INT_MAX"
  by (auto simp: fix_range_def fix_limits)

lemma wrap_fix_range [simp]: "fix_range (wrap_fix n)"
  using signed_take_bit_int_greater_eq_minus_exp [of 60 n] signed_take_bit_int_less_exp [of 60 n]
  by (simp add: wrap_fix_def fix_range_def)

lemma wrap_fix_same [simp]: "fix_range n \<Longrightarrow> wrap_fix n = n"
  by (simp add: wrap_fix_def fix_range_def signed_take_bit_int_eq_self)

lemma wrap_fix_alt: "wrap_fix n = (n + 2 ^ 60) mod 2 ^ 61 - 2 ^ 60"
  by (simp add: wrap_fix_def signed_take_bit_eq_take_bit_shift take_bit_eq_mod)

lemma sint_i64_bounds: "- (2 ^ 63) \<le> sint v" "sint v < 2 ^ 63" for v :: i64
  using sint_ge [of v] sint_lt [of v] by simp_all

lemma sint_word_of_int64: "sint (word_of_int n :: i64) = signed_take_bit 63 n"
  by (simp add: signed_take_bit_take_bit sint_uint unsigned_of_int)

lemma sint_word_of_int_same: "- (2 ^ 63) \<le> n \<Longrightarrow> n < 2 ^ 63 \<Longrightarrow> sint (word_of_int n :: i64) = n"
  by (simp add: sint_word_of_int64 signed_take_bit_int_eq_self)

lemma sint_Fixu: "sint (Fixu v) = wrap_fix (sint v)"
proof -
  have "sint (scast w :: i64) = sint w" for w :: "61 word"
    by (rule sint_up_scast) (simp add: is_up)
  moreover have "sint (ucast v :: 61 word) = signed_take_bit 60 (sint v)"
    by (simp add: sint_uint unsigned_ucast_eq signed_take_bit_take_bit take_bit_signed_take_bit signed_take_bit_signed_take_bit)
  ultimately show ?thesis by (simp add: Fixu_def wrap_fix_def)
qed

lemma wrap_fix_wrap_i64 [simp]: "wrap_fix (signed_take_bit 63 n) = wrap_fix n"
  by (simp add: wrap_fix_def signed_take_bit_signed_take_bit)

lemma wrap_fix_cong: "\<exists>k. wrap_fix n = n + 2 ^ 61 * k"
  unfolding wrap_fix_alt by (rule exI [of _ "- ((n + 2 ^ 60) div 2 ^ 61)"]) (simp add: minus_mult_div_eq_mod [symmetric])

section \<open>Tagged integers\<close>

lemma sint_GET_FIX: "sint (FKL_GET_FIX p) = sint p div 8"
  by (simp add: FKL_GET_FIX_def sint_signed_drop_bit_eq drop_bit_eq_div)

lemma GET_TAG_alt: "FKL_GET_TAG p = take_bit 3 p"
  by (simp add: FKL_GET_TAG_def FKL_TAG_MASK_def take_bit_eq_mask mask_eq_exp_minus_1)

lemma GET_TAG_MAKE [simp]: "FKL_GET_TAG (FKL_MAKE_VM_FIX i) = FKL_TAG_FIX"
  by (rule bit_word_eqI)
    (auto simp: GET_TAG_alt FKL_MAKE_VM_FIX_def FKL_TAG_FIX_def bit_simps bit_2_iff)

lemma GET_FIX_MAKE: "FKL_GET_FIX (FKL_MAKE_VM_FIX i) = Fixu i"
proof (rule bit_word_eqI)
  fix n
  assume "n < LENGTH(64)"
  then show "bit (FKL_GET_FIX (FKL_MAKE_VM_FIX i)) n = bit (Fixu i) n"
    by (auto simp: FKL_GET_FIX_def FKL_MAKE_VM_FIX_def FKL_TAG_FIX_def Fixu_def bit_simps bit_2_iff)
qed

lemma sint_GET_FIX_MAKE [simp]: "sint (FKL_GET_FIX (FKL_MAKE_VM_FIX i)) = wrap_fix (sint i)"
  by (simp add: GET_FIX_MAKE sint_Fixu)

lemma GET_FIX_range [simp]: "fix_range (sint (FKL_GET_FIX p))"
  using sint_i64_bounds [of p] by (auto simp: sint_GET_FIX fix_range_def)

section \<open>What the tests decide\<close>

text \<open>The truncating quotient tells on which side of the product the limit lies.\<close>

lemma div_le_dividend_int: "0 \<le> a \<Longrightarrow> 0 \<le> b \<Longrightarrow> a div b \<le> (a :: int)"
  by (cases "b = 0") (auto intro: order.trans [OF zdiv_mono2 [of a 1 b]])

lemma sdiv_mult_self: "b \<noteq> 0 \<Longrightarrow> (a * b) sdiv b = (a :: int)"
  by (auto simp: signed_divide_int_def sgn_mult abs_mult abs_mult_sgn mult_ac)

lemma div_test_pos: "0 < a \<Longrightarrow> 0 \<le> m \<Longrightarrow> (m sdiv a < b) = (m < a * (b :: int))"
proof -
  assume a: "0 < a" "0 \<le> m"
  have "m sdiv a = m div a" using a by (cases "m = 0") (auto simp: signed_divide_int_def)
  moreover have "m div a < b \<longleftrightarrow> m < a * b" (is "?l = ?r")
  proof
    assume ?l
    then have "a * (m div a + 1) \<le> a * b" using a by (intro mult_left_mono) auto
    moreover have "m < a * (m div a + 1)"
      unfolding distrib_left mult_1_right using mult_div_mod_eq [of a m] pos_mod_bound [OF a(1), of m] by linarith
    ultimately show ?r by linarith
  next
    assume r: ?r
    show ?l
    proof (rule ccontr)
      assume "\<not> m div a < b"
      then have "a * b \<le> a * (m div a)" using a by (intro mult_left_mono) auto
      also have "\<dots> \<le> m" using a mult_div_mod_eq [of a m] pos_mod_sign [of a m] by linarith
      finally show False using r by simp
    qed
  qed
  ultimately show ?thesis by simp
qed

lemma div_test_neg: "a < 0 \<Longrightarrow> 0 \<le> m \<Longrightarrow> (b < m sdiv a) = (m < a * (b :: int))"
  using div_test_pos [of "- a" m "- b"] by (auto simp: signed_divide_int_def sgn_if split: if_splits)

lemma abs_sdiv_le: "\<bar>a sdiv b\<bar> \<le> \<bar>a\<bar> div \<bar>b :: int\<bar>"
  by (auto simp: signed_divide_int_def abs_mult abs_sgn_eq pos_imp_zdiv_nonneg_iff)

lemma sdiv_bound: "\<bar>a sdiv b\<bar> \<le> \<bar>a :: int\<bar>"
  using abs_sdiv_le [of a b] div_le_dividend_int [of "\<bar>a\<bar>" "\<bar>b\<bar>"] by linarith

lemma smod_bound: "b \<noteq> 0 \<Longrightarrow> \<bar>a smod b\<bar> < \<bar>b :: int\<bar>"
  by (simp add: signed_modulo_int_def abs_mult)


lemma fklIsFixAddOverflow_iff:
  assumes a: "fix_range (sint a)" and b: "fix_range (sint b)"
  shows "fklIsFixAddOverflow a b \<longleftrightarrow>
    \<not> fix_range (sint a + sint b) \<and> \<not> (sint a = - (2 ^ 60) \<and> sint b = - (2 ^ 60))"
proof -
  have s: "sint (a + b) = sint a + sint b"
    using a b by (simp add: sint_word_add fix_range_def signed_take_bit_int_eq_self)
  have w: "sint (Fixu (a + b)) = (sint a + sint b + 2 ^ 60) mod 2 ^ 61 - 2 ^ 60"
    by (simp only: sint_Fixu s wrap_fix_alt)
  show ?thesis
  proof (cases "fix_range (sint a + sint b)")
    case True
    then have "sint (Fixu (a + b)) = sint a + sint b" by (simp add: sint_Fixu s)
    with True show ?thesis by (auto simp: fklIsFixAddOverflow_def)
  next
    case False
    then consider (neg) "sint a + sint b < - (2 ^ 60)" | (pos) "2 ^ 60 \<le> sint a + sint b"
      by (auto simp: fix_range_def)
    then show ?thesis
    proof cases
      case neg
      have "(sint a + sint b + 2 ^ 60) mod 2 ^ 61 = sint a + sint b + 2 ^ 60 + 2 ^ 61"
        using neg a b by (intro mod_neg_once) (auto simp: fix_range_def)
      with neg False a b show ?thesis by (auto simp: fklIsFixAddOverflow_def w fix_range_def)
    next
      case pos
      have "(sint a + sint b + 2 ^ 60) mod 2 ^ 61 = sint a + sint b + 2 ^ 60 - 2 ^ 61"
        using pos a b by (intro mod_once) (auto simp: fix_range_def)
      with pos False a b show ?thesis by (auto simp: fklIsFixAddOverflow_def w fix_range_def)
    qed
  qed
qed


text \<open>
  The products of opposite signs that the multiplication test misses: after the wrap to 64 bits they
  look like the least fixnum.
\<close>

definition mul_missed :: "int \<Rightarrow> int \<Rightarrow> bool" where
  "mul_missed a b \<longleftrightarrow> a * b < - (2 ^ 60) \<and> signed_take_bit 63 (a * b) = - (2 ^ 60)"

lemma mul_in_range_neg:
  assumes "fix_range a" "fix_range b" "a * b < 0"
  shows "fix_range (a * b) \<longleftrightarrow> - (2 ^ 60) \<le> a * b"
  using assms by (auto simp: fix_range_def)

lemma fix_quotient:
  assumes a: "fix_range a" and b: "fix_range b" "b \<noteq> 0" and opp: "a * b < 0"
  shows "wrap_fix (wrap_fix (a * b) sdiv b) = a \<longleftrightarrow> fix_range (a * b)"
proof
  assume "fix_range (a * b)"
  then show "wrap_fix (wrap_fix (a * b) sdiv b) = a" using a b by (simp add: sdiv_mult_self)
next
  let ?q = "wrap_fix (a * b)"
  assume eq: "wrap_fix (?q sdiv b) = a"
  show "fix_range (a * b)"
  proof (cases "b = 1 \<or> b = -1")
    case True
    then show ?thesis using a opp by (auto simp: fix_range_def)
  next
    case False
    then have b2: "2 \<le> \<bar>b\<bar>" using b(2) by auto
    have "\<bar>?q\<bar> \<le> 2 ^ 60" using wrap_fix_range [of "a * b"] by (auto simp: fix_range_def)
    then have "\<bar>?q\<bar> div \<bar>b\<bar> \<le> 2 ^ 60 div 2"
      using b2 by (intro order.trans [OF zdiv_mono2 zdiv_mono1]) auto
    then have "\<bar>?q sdiv b\<bar> \<le> 2 ^ 60 div 2" using abs_sdiv_le [of ?q b] by linarith
    then have "fix_range (?q sdiv b)" by (auto simp: fix_range_def)
    then have "?q sdiv b = a" using eq by simp
    then have "a * b + ?q smod b = ?q" using sdiv_mult_smod_eq [of ?q b] by simp
    moreover have "\<bar>?q smod b\<bar> < 2 ^ 61" using smod_bound [OF b(2), of ?q] b(1) by (auto simp: fix_range_def)
    moreover obtain k where "?q = a * b + 2 ^ 61 * k" using wrap_fix_cong by blast
    ultimately have "?q = a * b" by auto
    then show ?thesis using wrap_fix_range [of "a * b"] by simp
  qed
qed

lemma i64_div_same: "\<bar>sint a\<bar> < 2 ^ 63 \<Longrightarrow> sint (i64_div a b) = sint a sdiv sint b"
  unfolding i64_div_def using sdiv_bound [of "sint a" "sint b"]
  by (intro sint_word_of_int_same) linarith+

lemma fklIsFixMulOverflow_iff:
  assumes a: "fix_range (sint a)" and b: "fix_range (sint b)"
  shows "fklIsFixMulOverflow a b \<longleftrightarrow> \<not> fix_range (sint a * sint b) \<and> \<not> mul_missed (sint a) (sint b)"
proof -
  have nz: "a = 0 \<longleftrightarrow> sint a = 0" "b = 0 \<longleftrightarrow> sint b = 0" by (auto simp: signed_eq_0_iff)
  have max: "sint (i64_div FKL_FIX_INT_MAX a) = (2 ^ 60 - 1) sdiv sint a"
    by (simp add: i64_div_same fix_limits)
  consider (z) "sint a = 0 \<or> sint b = 0" | (pp) "0 < sint a" "0 < sint b" | (nn) "sint a < 0" "sint b < 0"
    | (opp) "sint a * sint b < 0" by (auto simp: mult_less_0_iff) linarith
  then show ?thesis
  proof cases
    case z
    then show ?thesis by (auto simp: fklIsFixMulOverflow_def nz fix_range_def)
  next
    case pp
    then have "- (2 ^ 60) \<le> sint a * sint b" by (simp add: order.trans [OF _ less_imp_le [OF mult_pos_pos]])
    with pp show ?thesis
      by (auto simp: fklIsFixMulOverflow_def nz max div_test_pos fix_range_def mul_missed_def)
  next
    case nn
    then have "- (2 ^ 60) \<le> sint a * sint b" by (simp add: order.trans [OF _ less_imp_le [OF mult_neg_neg]])
    with nn show ?thesis
      by (auto simp: fklIsFixMulOverflow_def nz max div_test_neg fix_range_def mul_missed_def)
  next
    case opp
    have x: "sint (a * b) = signed_take_bit 63 (sint a * sint b)" by (simp add: sint_word_mult)
    have t: "sint (Fixu (a * b)) = wrap_fix (sint a * sint b)" by (simp add: sint_Fixu x)
    have "\<bar>wrap_fix (sint a * sint b)\<bar> < 2 ^ 63"
      using wrap_fix_range [of "sint a * sint b"] by (auto simp: fix_range_def)
    then have "sint (i64_div (Fixu (a * b)) b) = wrap_fix (sint a * sint b) sdiv sint b"
      by (subst i64_div_same) (simp_all only: t)
    then have "sint (Fixu (i64_div (Fixu (a * b)) b)) = wrap_fix (wrap_fix (sint a * sint b) sdiv sint b)"
      by (simp add: sint_Fixu)
    then have "a \<noteq> Fixu (i64_div (Fixu (a * b)) b) \<longleftrightarrow> \<not> fix_range (sint a * sint b)"
      using fix_quotient [OF a b _ opp] opp by (metis mult_zero_right less_irrefl signed_word_eqI)
    moreover have "a * b = FKL_FIX_INT_MIN \<longleftrightarrow> signed_take_bit 63 (sint a * sint b) = - (2 ^ 60)"
      using x fix_limits(2) by (metis signed_word_eqI)
    moreover have "sint a \<noteq> 0" "sint b \<noteq> 0" "\<not> (0 \<le> sint a \<and> 0 \<le> sint b)" "\<not> (sint a < 0 \<and> sint b < 0)"
      using opp by (auto simp: mult_less_0_iff)
    moreover have "mul_missed (sint a) (sint b) \<longleftrightarrow> \<not> fix_range (sint a * sint b) \<and> a * b = FKL_FIX_INT_MIN"
      using opp calculation(2) by (auto simp: mul_missed_def fix_range_def)
    ultimately show ?thesis unfolding fklIsFixMulOverflow_def Let_def using nz by auto
  qed
qed


text \<open>The tests for 64-bit integers fail in the corresponding places.\<close>

definition i64_range :: "int \<Rightarrow> bool" where
  "i64_range n \<longleftrightarrow> - (2 ^ 63) \<le> n \<and> n < 2 ^ 63"

lemma fklIsI64AddOverflow_iff:
  "fklIsI64AddOverflow a b \<longleftrightarrow>
    \<not> i64_range (sint a + sint b) \<and> \<not> (sint a = - (2 ^ 63) \<and> sint b = - (2 ^ 63))"
proof -
  have w: "sint (a + b) = (sint a + sint b + 2 ^ 63) mod 2 ^ 64 - 2 ^ 63"
    by (simp add: sint_word_add signed_take_bit_eq_take_bit_shift take_bit_eq_mod)
  note r = sint_i64_bounds [of a] sint_i64_bounds [of b]
  consider (ok) "i64_range (sint a + sint b)" | (neg) "sint a + sint b < - (2 ^ 63)" | (pos) "2 ^ 63 \<le> sint a + sint b"
    unfolding i64_range_def by linarith
  then show ?thesis
  proof cases
    case ok
    then have "sint (a + b) = sint a + sint b" by (simp add: w i64_range_def)
    with ok show ?thesis by (auto simp: fklIsI64AddOverflow_def)
  next
    case neg
    have "(sint a + sint b + 2 ^ 63) mod 2 ^ 64 = sint a + sint b + 2 ^ 63 + 2 ^ 64"
      using neg r by (intro mod_neg_once) auto
    with neg r show ?thesis by (auto simp: fklIsI64AddOverflow_def w i64_range_def)
  next
    case pos
    have "(sint a + sint b + 2 ^ 63) mod 2 ^ 64 = sint a + sint b + 2 ^ 63 - 2 ^ 64"
      using pos r by (intro mod_once) auto
    with pos r show ?thesis by (auto simp: fklIsI64AddOverflow_def w i64_range_def)
  qed
qed

end
