(* ===== verification/VmNum.thy ===== *)
theory VmNum
  imports Fixnum
begin

text \<open>
  The numbers of the virtual machine: fixnums in tagged words, big integer objects and doubles
  (src/vmutils.c, src/vmvalue.c, src/base.c and the inline functions of include/fakeLisp/vm.h).

  A double is its bit pattern. Its arithmetic is that of the machine and a parameter of the
  definitions, the record \<open>fpu\<close>; comparisons and the negation are read off the bits. The order of
  user data is a callback of its module and the other parameter, \<open>ud_cmp\<close>. That objects are
  allocated on the heap of the collector (\<open>Gc\<close>) does not matter here, numbers being immutable.
\<close>

section \<open>Doubles\<close>

type_synonym f64 = u64

record fpu =
  fadd :: "f64 \<Rightarrow> f64 \<Rightarrow> f64"
  fsub :: "f64 \<Rightarrow> f64 \<Rightarrow> f64"
  fmul :: "f64 \<Rightarrow> f64 \<Rightarrow> f64"
  fdiv :: "f64 \<Rightarrow> f64 \<Rightarrow> f64"
  c_fmod :: "f64 \<Rightarrow> f64 \<Rightarrow> f64"
  of_i64 :: "i64 \<Rightarrow> f64"

definition f64_0 :: f64 where "f64_0 = 0"
definition f64_1 :: f64 where "f64_1 = 0x3ff0000000000000"

text \<open>\<open>d != 0.0\<close>, which holds of a NaN, and \<open>d != 1.0\<close>.\<close>

definition f64_ne_0 :: "f64 \<Rightarrow> bool" where
  "f64_ne_0 d \<longleftrightarrow> d AND mask 63 \<noteq> 0"

definition f64_ne_1 :: "f64 \<Rightarrow> bool" where
  "f64_ne_1 d \<longleftrightarrow> d \<noteq> f64_1"

definition f64_neg :: "f64 \<Rightarrow> f64" where
  "f64_neg d = d XOR push_bit 63 1"

definition f64_nan :: "f64 \<Rightarrow> bool" where
  "f64_nan d \<longleftrightarrow> unat (d AND mask 63) > 0x7ff0000000000000"

text \<open>The bit patterns that are not a NaN, in the order of their values.\<close>

definition f64_key :: "f64 \<Rightarrow> int" where
  "f64_key d = (let m = uint (d AND mask 63) in if bit d 63 then - m else m)"

definition isless :: "f64 \<Rightarrow> f64 \<Rightarrow> bool" where
  "isless a b \<longleftrightarrow> \<not> f64_nan a \<and> \<not> f64_nan b \<and> f64_key a < f64_key b"

definition isgreater :: "f64 \<Rightarrow> f64 \<Rightarrow> bool" where
  "isgreater a b \<longleftrightarrow> \<not> f64_nan a \<and> \<not> f64_nan b \<and> f64_key a > f64_key b"

definition fklBigIntToD :: "fpu \<Rightarrow> FklBigInt \<Rightarrow> f64 option" where
  "fklBigIntToD fp bi = do {
     (r, base) \<leftarrow> for_up 0 (nat (fklAbs (num bi))) (\<lambda>i (r, base). do {
       d \<leftarrow> rd (digits bi) i;
       let r = fadd fp r (fmul fp (of_i64 fp (ucast d)) base);
       let base = fmul fp base (of_i64 fp FKL_BIGINT_DIGIT_BASE);
       Some (r, base) }) (f64_0, f64_1);
     Some (if num bi < 0 then f64_neg r else r) }"

section \<open>Values\<close>

record FklVMvalueBigInt =
  vnum :: int
  vdigits :: "FklBigIntDigit list"

text \<open>
  An \<open>FklVMvalue *\<close>: a tagged word, or a pointer to an object, by the type of the object.
  Strings and byte vectors are their bytes.
\<close>

datatype FklVMvalue =
    V_Imm u64
  | V_F64 f64
  | V_BigInt FklVMvalueBigInt
  | V_Str "u8 list"
  | V_Bytes "u8 list"
  | V_Ud nat
  | V_Other nat

definition VM_NIL :: FklVMvalue where "VM_NIL = V_Imm 0x1"

abbreviation V_Fix :: "i64 \<Rightarrow> FklVMvalue" where "V_Fix i \<equiv> V_Imm (FKL_MAKE_VM_FIX i)"

definition FKL_VM_TRUE :: FklVMvalue where "FKL_VM_TRUE = V_Fix 1"

fun FKL_IS_FIX :: "FklVMvalue \<Rightarrow> bool" where
  "FKL_IS_FIX (V_Imm p) = (FKL_GET_TAG p = FKL_TAG_FIX)"
| "FKL_IS_FIX _ = False"

fun FKL_IS_CHR :: "FklVMvalue \<Rightarrow> bool" where
  "FKL_IS_CHR (V_Imm p) = (FKL_GET_TAG p = FKL_TAG_CHR)"
| "FKL_IS_CHR _ = False"

fun FKL_IS_F64 :: "FklVMvalue \<Rightarrow> bool" where
  "FKL_IS_F64 (V_F64 _) = True"
| "FKL_IS_F64 _ = False"

fun FKL_IS_BIGINT :: "FklVMvalue \<Rightarrow> bool" where
  "FKL_IS_BIGINT (V_BigInt _) = True"
| "FKL_IS_BIGINT _ = False"

definition fklIsVMint :: "FklVMvalue \<Rightarrow> bool" where
  "fklIsVMint p \<longleftrightarrow> FKL_IS_FIX p \<or> FKL_IS_BIGINT p"

definition fklIsVMnumber :: "FklVMvalue \<Rightarrow> bool" where
  "fklIsVMnumber p \<longleftrightarrow> FKL_IS_FIX p \<or> FKL_IS_BIGINT p \<or> FKL_IS_F64 p"

text \<open>\<open>FKL_GET_FIX\<close> of a pointer, and the casts to the type of an object, which the code only
  uses behind a test of the type.\<close>

fun get_fix :: "FklVMvalue \<Rightarrow> i64 option" where
  "get_fix (V_Imm p) = Some (FKL_GET_FIX p)"
| "get_fix _ = None"

fun get_bi :: "FklVMvalue \<Rightarrow> FklVMvalueBigInt option" where
  "get_bi (V_BigInt b) = Some b"
| "get_bi _ = None"

fun get_f64 :: "FklVMvalue \<Rightarrow> f64 option" where
  "get_f64 (V_F64 d) = Some d"
| "get_f64 _ = None"

section \<open>Big integer objects\<close>

definition FKL_BIGINT_FIX_MAX :: FklBigInt where
  "FKL_BIGINT_FIX_MAX = \<lparr>digits = [0xffffffff AND FKL_BIGINT_DIGIT_MASK, 0xffffffff AND FKL_BIGINT_DIGIT_MASK],
     num = 2, bsize = 2, const_size = True\<rparr>"

definition FKL_BIGINT_FIX_MIN :: FklBigInt where
  "FKL_BIGINT_FIX_MIN = \<lparr>digits = [0x0, 0x0, 0x1], num = -3, bsize = 3, const_size = True\<rparr>"

definition FKL_BIGINT_SUB_1_MAX :: FklBigInt where
  "FKL_BIGINT_SUB_1_MAX = \<lparr>digits = [0x0, 0x0, 0x1], num = 3, bsize = 3, const_size = True\<rparr>"

definition FKL_BIGINT_ADD_1_MIN :: FklBigInt where
  "FKL_BIGINT_ADD_1_MIN = \<lparr>digits = [0x1, 0x0, 0x1], num = -3, bsize = 3, const_size = True\<rparr>"

definition fklIsBigIntGtLtFix :: "FklBigInt \<Rightarrow> bool option" where
  "fklIsBigIntGtLtFix a = do {
     c \<leftarrow> fklBigIntCmp a FKL_BIGINT_FIX_MAX;
     if c > 0 then Some True
     else do { c \<leftarrow> fklBigIntCmp a FKL_BIGINT_FIX_MIN; Some (c < 0) } }"

definition fklIsBigIntAddkInFixIntRange :: "FklBigInt \<Rightarrow> 8 word \<Rightarrow> bool option" where
  "fklIsBigIntAddkInFixIntRange a k =
     (if k = 1 then fklBigIntEqual a FKL_BIGINT_ADD_1_MIN
      else if k = -1 then fklBigIntEqual a FKL_BIGINT_SUB_1_MAX
      else do {
        g \<leftarrow> fklIsBigIntGtLtI64 a;
        if \<not> g then do {
          i \<leftarrow> fklBigIntToI a;
          let ik = sint (i + scast k);
          if sint i > 0 \<and> sint k \<le> 0 then Some (ik \<le> sint FKL_FIX_INT_MAX)
          else if sint i < 0 \<and> sint k \<ge> 0 then Some (ik \<ge> sint FKL_FIX_INT_MIN)
          else if sint i < 0 then Some (sint i \<ge> sint FKL_FIX_INT_MIN \<and> ik \<ge> sint FKL_FIX_INT_MIN)
          else if sint i > 0 then Some (sint i \<le> sint FKL_FIX_INT_MAX \<and> ik \<le> sint FKL_FIX_INT_MAX)
          else Some True }
        else Some False })"

text \<open>A big integer structure over the digits of an object: the first \<open>n\<close> cells of its array.\<close>

definition over_object :: "FklVMvalueBigInt \<Rightarrow> nat \<Rightarrow> int \<Rightarrow> FklBigInt" where
  "over_object b n m = \<lparr>digits = take n (vdigits b), num = m, bsize = n, const_size = True\<rparr>"

definition object_digits :: "FklVMvalueBigInt \<Rightarrow> FklBigInt \<Rightarrow> FklVMvalueBigInt" where
  "object_digits b t = b\<lparr>vdigits := digits t @ drop (length (digits t)) (vdigits b)\<rparr>"

definition fklVMbigIntToBigInt :: "FklVMvalueBigInt \<Rightarrow> FklBigInt" where
  "fklVMbigIntToBigInt b = over_object b (nat (fklAbs (vnum b))) (vnum b)"

definition fklSetBigIntWithVMbigInt :: "FklBigInt \<Rightarrow> FklVMvalueBigInt \<Rightarrow> FklBigInt option" where
  "fklSetBigIntWithVMbigInt a b = fklSetBigInt a (fklVMbigIntToBigInt b)"

definition fklCreateVMvalueBigInt :: "nat \<Rightarrow> FklVMvalueBigInt" where
  "fklCreateVMvalueBigInt n = \<lparr>vnum = int n + 1, vdigits = replicate (n + 1) 0\<rparr>"

definition fklCreateVMvalueBigInt2 :: "FklBigInt \<Rightarrow> FklVMvalueBigInt option" where
  "fklCreateVMvalueBigInt2 bi = do {
     g \<leftarrow> fklIsBigIntGtLtFix bi;
     FKL_ASSERT g;
     let b = fklCreateVMvalueBigInt (nat (fklAbs (num bi)));
     t \<leftarrow> fklSetBigInt (over_object b (nat (fklAbs (vnum b))) 0) bi;
     Some ((object_digits b t)\<lparr>vnum := num t\<rparr>) }"

definition fklCreateVMvalueBigInt3 :: "FklBigInt \<Rightarrow> nat \<Rightarrow> FklVMvalueBigInt option" where
  "fklCreateVMvalueBigInt3 bi n = do {
     FKL_ASSERT (n \<ge> nat (fklAbs (num bi)));
     let b = fklCreateVMvalueBigInt (nat (fklAbs (num bi)));
     t \<leftarrow> fklSetBigInt (over_object b n 0) bi;
     g \<leftarrow> fklIsBigIntGtLtFix t;
     FKL_ASSERT g;
     Some ((object_digits b t)\<lparr>vnum := num t\<rparr>) }"

definition fklCreateVMvalueBigIntWithOther :: "FklVMvalueBigInt \<Rightarrow> FklVMvalueBigInt option" where
  "fklCreateVMvalueBigIntWithOther b = fklCreateVMvalueBigInt2 (fklVMbigIntToBigInt b)"

definition fklCreateVMvalueBigIntWithOther2 :: "FklVMvalueBigInt \<Rightarrow> nat \<Rightarrow> FklVMvalueBigInt option" where
  "fklCreateVMvalueBigIntWithOther2 b n = fklCreateVMvalueBigInt3 (fklVMbigIntToBigInt b) n"

definition fklCreateVMvalueBigIntWithI64 :: "i64 \<Rightarrow> FklVMvalueBigInt option" where
  "fklCreateVMvalueBigIntWithI64 i = do {
     bi \<leftarrow> fklSetBigIntI local_bigint i;
     g \<leftarrow> fklIsBigIntGtLtFix bi;
     FKL_ASSERT g;
     fklCreateVMvalueBigInt2 bi }"

definition fklCreateVMvalueBigIntWithU64 :: "u64 \<Rightarrow> FklVMvalueBigInt option" where
  "fklCreateVMvalueBigIntWithU64 u = do {
     bi \<leftarrow> fklSetBigIntU local_bigint u;
     g \<leftarrow> fklIsBigIntGtLtFix bi;
     FKL_ASSERT g;
     fklCreateVMvalueBigInt2 bi }"

definition fklVMbigIntAddI :: "FklVMvalueBigInt \<Rightarrow> i64 \<Rightarrow> FklVMvalueBigInt option" where
  "fklVMbigIntAddI a b = do {
     a0 \<leftarrow> fklCreateVMvalueBigIntWithOther2 a (nat (fklAbs (vnum a)) + 1);
     a1 \<leftarrow> fklSetBigIntWithVMbigInt (over_object a0 (nat (fklAbs (vnum a0))) 0) a;
     a1 \<leftarrow> fklAddBigIntI a1 b;
     Some ((object_digits a0 a1)\<lparr>vnum := num a1\<rparr>) }"

definition fklVMbigIntSubI :: "FklVMvalueBigInt \<Rightarrow> i64 \<Rightarrow> FklVMvalueBigInt option" where
  "fklVMbigIntSubI a b = do {
     a0 \<leftarrow> fklCreateVMvalueBigIntWithOther2 a (nat (fklAbs (vnum a)) + 1);
     a1 \<leftarrow> fklSetBigIntWithVMbigInt (over_object a0 (nat (fklAbs (vnum a0))) 0) a;
     a1 \<leftarrow> fklSubBigIntI a1 b;
     Some ((object_digits a0 a1)\<lparr>vnum := num a1\<rparr>) }"

end
