(* ===== verification/VmArith.thy ===== *)
theory VmArith
  imports VmNum
begin

text \<open>
  Arithmetic and comparison of values (src/vmutils.c, src/vmvalue.c), the built-in procedures of
  src/builtin.c and the instructions of src/vmdispatch.h that use them. An error raised with
  \<open>FKL_RAISE_BUILTIN_ERROR\<close> is \<open>Inl\<close>, a result is \<open>Inr\<close>; \<open>None\<close> is a
  failing assertion or an access outside an array.
\<close>

section \<open>Readers\<close>

definition fklVMgetInt :: "FklVMvalue \<Rightarrow> i64 option" where
  "fklVMgetInt p = (if FKL_IS_FIX p then get_fix p
     else do { b \<leftarrow> get_bi p; fklBigIntToI (fklVMbigIntToBigInt b) })"

definition fklVMgetUint :: "FklVMvalue \<Rightarrow> u64 option" where
  "fklVMgetUint p = (if FKL_IS_FIX p then get_fix p
     else do { b \<leftarrow> get_bi p; fklBigIntToU (fklVMbigIntToBigInt b) })"

definition fklVMgetDouble :: "fpu \<Rightarrow> FklVMvalue \<Rightarrow> f64 option" where
  "fklVMgetDouble fp p =
     (if FKL_IS_FIX p then do { i \<leftarrow> get_fix p; Some (of_i64 fp i) }
      else if FKL_IS_BIGINT p then do { b \<leftarrow> get_bi p; fklBigIntToD fp (fklVMbigIntToBigInt b) }
      else get_f64 p)"

definition fklIsVMnumberLt0 :: "FklVMvalue \<Rightarrow> bool option" where
  "fklIsVMnumberLt0 p =
     (if FKL_IS_FIX p then do { i \<leftarrow> get_fix p; Some (sint i < 0) }
      else if FKL_IS_F64 p then do { d \<leftarrow> get_f64 p; Some (isless d f64_0) }
      else do { b \<leftarrow> get_bi p; Some (fklIsBigIntLt0 (fklVMbigIntToBigInt b)) })"

definition fklMakeVMint :: "i64 \<Rightarrow> FklVMvalue option" where
  "fklMakeVMint r64 =
     (if sint r64 > sint FKL_FIX_INT_MAX \<or> sint r64 < sint FKL_FIX_INT_MIN
      then do { b \<leftarrow> fklCreateVMvalueBigIntWithI64 r64; Some (V_BigInt b) }
      else Some (V_Fix r64))"

definition fklMakeVMintU :: "u64 \<Rightarrow> FklVMvalue option" where
  "fklMakeVMintU r64 =
     (if r64 > FKL_FIX_INT_MAX
      then do { b \<leftarrow> fklCreateVMvalueBigIntWithU64 r64; Some (V_BigInt b) }
      else Some (V_Fix r64))"

definition fklVMintegerCmpI :: "FklVMvalue \<Rightarrow> i64 \<Rightarrow> int option" where
  "fklVMintegerCmpI p i =
     (if FKL_IS_BIGINT p then do { b \<leftarrow> get_bi p; fklBigIntCmpI (fklVMbigIntToBigInt b) i }
      else if FKL_IS_FIX p then do {
        v \<leftarrow> get_fix p;
        Some (if sint v > sint i then 1 else if sint v < sint i then -1 else 0) }
      else None)"

definition fklVMintegerCmpU :: "FklVMvalue \<Rightarrow> u64 \<Rightarrow> int option" where
  "fklVMintegerCmpU p u =
     (if FKL_IS_BIGINT p then do { b \<leftarrow> get_bi p; fklBigIntCmpU (fklVMbigIntToBigInt b) u }
      else if FKL_IS_FIX p then do {
        vv \<leftarrow> get_fix p;
        if sint vv < 0 then Some (-1)
        else do {
          let v = vv;
          Some (if v > u then 1 else if v < u then -1 else 0) } }
      else None)"

section \<open>Sums\<close>

text \<open>
  The accumulators of a sum or a product: the fixnum, the double and the big integer the operands
  are added to or multiplied with. The flag of the result is the return value, true for an operand
  that is not a number.
\<close>

type_synonym accs = "i64 \<times> f64 \<times> FklBigInt"

definition fklProcessVMnumAdd :: "fpu \<Rightarrow> FklVMvalue \<Rightarrow> accs \<Rightarrow> (bool \<times> accs) option" where
  "fklProcessVMnumAdd fp cur = (\<lambda>(r64, rd, bi).
     if FKL_IS_FIX cur then do {
       c64 \<leftarrow> get_fix cur;
       if fklIsFixAddOverflow r64 c64 then do { bi \<leftarrow> fklAddBigIntI bi c64; Some (False, r64, rd, bi) }
       else Some (False, r64 + c64, rd, bi) }
     else if FKL_IS_BIGINT cur then do {
       b \<leftarrow> get_bi cur;
       bi \<leftarrow> fklAddBigInt bi (fklVMbigIntToBigInt b);
       Some (False, r64, rd, bi) }
     else if FKL_IS_F64 cur then do { d \<leftarrow> get_f64 cur; Some (False, r64, fadd fp rd d, bi) }
     else Some (True, r64, rd, fklUninitBigInt bi))"

text \<open>How every operation turns a big integer into a value.\<close>

definition bigint_result :: "FklBigInt \<Rightarrow> FklVMvalue option" where
  "bigint_result bi = do {
     g \<leftarrow> fklIsBigIntGtLtFix bi;
     if g then do { b \<leftarrow> fklCreateVMvalueBigInt2 bi; Some (V_BigInt b) }
     else do { i \<leftarrow> fklBigIntToI bi; Some (V_Fix i) } }"

definition fklProcessVMnumAddResult :: "fpu \<Rightarrow> accs \<Rightarrow> FklVMvalue option" where
  "fklProcessVMnumAddResult fp = (\<lambda>(r64, rd, bi).
     if f64_ne_0 rd then do {
       d \<leftarrow> fklBigIntToD fp bi;
       Some (V_F64 (fadd fp (fadd fp rd (of_i64 fp r64)) d)) }
     else do {
       z \<leftarrow> FKL_BIGINT_IS_0 bi;
       if z then Some (V_Fix r64)
       else do { bi \<leftarrow> fklAddBigIntI bi r64; bigint_result bi } })"

definition fklProcessVMnumSubResult :: "fpu \<Rightarrow> FklVMvalue \<Rightarrow> accs \<Rightarrow> FklVMvalue option" where
  "fklProcessVMnumSubResult fp prev = (\<lambda>(r64, rd, bi).
     if FKL_IS_F64 prev \<or> f64_ne_0 rd then do {
       p \<leftarrow> fklVMgetDouble fp prev;
       d \<leftarrow> fklBigIntToD fp bi;
       Some (V_F64 (fsub fp (fsub fp (fsub fp p rd) (of_i64 fp r64)) d)) }
     else do {
       big \<leftarrow> (if FKL_IS_BIGINT prev then Some True else do { z \<leftarrow> FKL_BIGINT_IS_0 bi; Some (\<not> z) });
       if big then do {
         bi \<leftarrow> (if FKL_IS_FIX prev then do { p \<leftarrow> get_fix prev; fklSubBigIntI bi p }
           else do { b \<leftarrow> get_bi prev; fklSubBigInt bi (fklVMbigIntToBigInt b) });
         let bi = bi\<lparr>num := - num bi\<rparr>;
         bi \<leftarrow> fklSubBigIntI bi r64;
         bigint_result bi }
       else do {
         p64 \<leftarrow> get_fix prev;
         if fklIsFixAddOverflow p64 (- r64) then do {
           bi \<leftarrow> fklAddBigIntI bi p64;
           bi \<leftarrow> fklSubBigIntI bi r64;
           b \<leftarrow> fklCreateVMvalueBigInt2 bi;
           Some (V_BigInt b) }
         else Some (V_Fix (p64 - r64)) } })"

definition fklProcessVMnumNeg :: "FklVMvalue \<Rightarrow> FklVMvalue option" where
  "fklProcessVMnumNeg prev =
     (if FKL_IS_F64 prev then do { d \<leftarrow> get_f64 prev; Some (V_F64 (f64_neg d)) }
      else if FKL_IS_FIX prev then do {
        p \<leftarrow> get_fix prev;
        let p64 = - p;
        if sint p64 > sint FKL_FIX_INT_MAX
        then do { b \<leftarrow> fklCreateVMvalueBigIntWithI64 p64; Some (V_BigInt b) }
        else Some (V_Fix p64) }
      else do {
        b \<leftarrow> get_bi prev;
        let n = nat (fklAbs (vnum b));
        bigint_result \<lparr>digits = take n (vdigits b), num = - vnum b, bsize = n, const_size = True\<rparr> })"

definition fklProcessVMnumAddk :: "fpu \<Rightarrow> FklVMvalue \<Rightarrow> 8 word \<Rightarrow> FklVMvalue option option" where
  "fklProcessVMnumAddk fp arg k =
     (if FKL_IS_FIX arg then do {
        a \<leftarrow> get_fix arg;
        let i = a + scast k;
        if sint i > sint FKL_FIX_INT_MAX \<or> sint i < sint FKL_FIX_INT_MIN
        then do { b \<leftarrow> fklCreateVMvalueBigIntWithI64 i; Some (Some (V_BigInt b)) }
        else Some (Some (V_Fix i)) }
      else if FKL_IS_BIGINT arg then do {
        bigint \<leftarrow> get_bi arg;
        r \<leftarrow> fklIsBigIntAddkInFixIntRange (fklVMbigIntToBigInt bigint) k;
        if r then do { i \<leftarrow> fklBigIntToI (fklVMbigIntToBigInt bigint); Some (Some (V_Fix (i + scast k))) }
        else do { b \<leftarrow> fklVMbigIntAddI bigint (scast k); Some (Some (V_BigInt b)) } }
      else if FKL_IS_F64 arg then do {
        d \<leftarrow> get_f64 arg;
        Some (Some (V_F64 (fadd fp d (of_i64 fp (scast k))))) }
      else Some None)"

section \<open>Products and quotients\<close>

definition IS_DEFAULT_BIGINT :: "FklBigInt \<Rightarrow> bool" where
  "IS_DEFAULT_BIGINT bi \<longleftrightarrow> digits bi = []"

definition INIT_DEFAULT_BIGINT_1 :: "FklBigInt \<Rightarrow> FklBigInt option" where
  "INIT_DEFAULT_BIGINT_1 bi = (if IS_DEFAULT_BIGINT bi then fklInitBigInt1 else Some bi)"

definition fklProcessVMnumMul :: "fpu \<Rightarrow> FklVMvalue \<Rightarrow> accs \<Rightarrow> (bool \<times> accs) option" where
  "fklProcessVMnumMul fp cur = (\<lambda>(r64, rd, bi).
     if FKL_IS_FIX cur then do {
       c64 \<leftarrow> get_fix cur;
       if fklIsFixMulOverflow r64 c64 then do {
         bi \<leftarrow> INIT_DEFAULT_BIGINT_1 bi;
         bi \<leftarrow> fklMulBigIntI bi c64;
         Some (False, r64, rd, bi) }
       else Some (False, r64 * c64, rd, bi) }
     else if FKL_IS_BIGINT cur then do {
       bi \<leftarrow> INIT_DEFAULT_BIGINT_1 bi;
       b \<leftarrow> get_bi cur;
       bi \<leftarrow> fklMulBigInt bi (fklVMbigIntToBigInt b);
       Some (False, r64, rd, bi) }
     else if FKL_IS_F64 cur then do { d \<leftarrow> get_f64 cur; Some (False, r64, fmul fp rd d, bi) }
     else Some (True, r64, rd, fklUninitBigInt bi))"

definition fklProcessVMintMul :: "FklVMvalue \<Rightarrow> i64 \<times> FklBigInt \<Rightarrow> (bool \<times> i64 \<times> FklBigInt) option" where
  "fklProcessVMintMul cur = (\<lambda>(r64, bi).
     if FKL_IS_FIX cur then do {
       c64 \<leftarrow> get_fix cur;
       if fklIsFixMulOverflow r64 c64 then do {
         bi \<leftarrow> INIT_DEFAULT_BIGINT_1 bi;
         bi \<leftarrow> fklMulBigIntI bi c64;
         Some (False, r64, bi) }
       else Some (False, r64 * c64, bi) }
     else if FKL_IS_BIGINT cur then do {
       bi \<leftarrow> INIT_DEFAULT_BIGINT_1 bi;
       b \<leftarrow> get_bi cur;
       bi \<leftarrow> fklMulBigInt bi (fklVMbigIntToBigInt b);
       Some (False, r64, bi) }
     else Some (True, r64, fklUninitBigInt bi))"

definition fklProcessVMnumMulResult :: "fpu \<Rightarrow> accs \<Rightarrow> FklVMvalue option" where
  "fklProcessVMnumMulResult fp = (\<lambda>(r64, rd, bi).
     if f64_ne_1 rd then do {
       d \<leftarrow> fklBigIntToD fp bi;
       Some (V_F64 (fmul fp (fmul fp rd (of_i64 fp r64)) d)) }
     else do {
       one \<leftarrow> (if IS_DEFAULT_BIGINT bi then Some True else FKL_BIGINT_IS_1 bi);
       if one then Some (V_Fix r64)
       else do {
         bi \<leftarrow> INIT_DEFAULT_BIGINT_1 bi;
         bi \<leftarrow> fklMulBigIntI bi r64;
         bigint_result bi } })"

text \<open>\<open>!IS_DEFAULT_BIGINT(bi) && !FKL_BIGINT_IS_1(bi)\<close>, and the quotient by the accumulators,
  both shared by the two divisions.\<close>

definition is_factor :: "FklBigInt \<Rightarrow> bool option" where
  "is_factor bi = (if IS_DEFAULT_BIGINT bi then Some False else do { one \<leftarrow> FKL_BIGINT_IS_1 bi; Some (\<not> one) })"

definition bigint_quotient :: "FklVMvalue \<Rightarrow> i64 \<Rightarrow> FklBigInt \<Rightarrow> FklVMvalue option" where
  "bigint_quotient prev r64 bi = do {
     let t = FKL_BIGINT_0;
     t \<leftarrow> (if FKL_IS_FIX prev then do { p \<leftarrow> get_fix prev; fklSetBigIntI t p }
       else do { b \<leftarrow> get_bi prev; fklSetBigIntWithVMbigInt t b });
     (e, t) \<leftarrow> (if \<not> IS_DEFAULT_BIGINT bi then fklDivBigInt t bi else Some (0, t));
     (e, t) \<leftarrow> fklDivBigIntI t r64;
     bigint_result t }"

definition fklProcessVMnumIdivResult :: "FklVMvalue \<Rightarrow> i64 \<Rightarrow> FklBigInt \<Rightarrow> FklVMvalue option" where
  "fklProcessVMnumIdivResult prev r64 bi = do {
     big \<leftarrow> (if FKL_IS_BIGINT prev then Some True else is_factor bi);
     if big then bigint_quotient prev r64 bi
     else do { p \<leftarrow> get_fix prev; Some (V_Fix (i64_div p r64)) } }"

text \<open>The operands \<open>fklProcessVMnumDivResult\<close> divides as doubles.\<close>

definition div_inexact :: "FklVMvalue \<Rightarrow> accs \<Rightarrow> bool option" where
  "div_inexact prev = (\<lambda>(r64, rd, bi).
     if FKL_IS_F64 prev \<or> f64_ne_1 rd then Some True
     else if FKL_IS_FIX prev then do {
       factor \<leftarrow> is_factor bi;
       p \<leftarrow> get_fix prev;
       Some (\<not> factor \<and> i64_mod p r64 \<noteq> 0) }
     else if FKL_IS_BIGINT prev then do {
       b \<leftarrow> get_bi prev;
       factor \<leftarrow> is_factor bi;
       indivisible \<leftarrow> (if factor then do {
           d \<leftarrow> fklIsDivisibleBigInt (fklVMbigIntToBigInt b) bi; Some (\<not> d) }
         else Some False);
       if indivisible then Some True
       else do { d \<leftarrow> fklIsDivisibleBigIntI (fklVMbigIntToBigInt b) r64; Some (\<not> d) } }
     else Some False)"

definition fklProcessVMnumDivResult :: "fpu \<Rightarrow> FklVMvalue \<Rightarrow> accs \<Rightarrow> FklVMvalue option" where
  "fklProcessVMnumDivResult fp prev = (\<lambda>(r64, rd, bi). do {
     inexact \<leftarrow> div_inexact prev (r64, rd, bi);
     if inexact then do {
       p \<leftarrow> fklVMgetDouble fp prev;
       let q = fdiv fp (fdiv fp p rd) (of_i64 fp r64);
       if IS_DEFAULT_BIGINT bi then Some (V_F64 q)
       else do { d \<leftarrow> fklBigIntToD fp bi; Some (V_F64 (fdiv fp q d)) } }
     else do {
       big \<leftarrow> (if FKL_IS_BIGINT prev then Some True else is_factor bi);
       if big then bigint_quotient prev r64 bi
       else do { p \<leftarrow> get_fix prev; Some (V_Fix (i64_div p r64)) } } })"

definition fklProcessVMnumRec :: "fpu \<Rightarrow> FklVMvalue \<Rightarrow> FklVMvalue option option" where
  "fklProcessVMnumRec fp prev =
     (if FKL_IS_F64 prev then do { d \<leftarrow> get_f64 prev; Some (Some (V_F64 (fdiv fp f64_1 d))) }
      else if FKL_IS_FIX prev then do {
        r64 \<leftarrow> get_fix prev;
        if r64 = 0 then Some None
        else if r64 = 1 then Some (Some (V_Fix 1))
        else if r64 = -1 then Some (Some (V_Fix (-1)))
        else Some (Some (V_F64 (fdiv fp f64_1 (of_i64 fp r64)))) }
      else do {
        b \<leftarrow> get_bi prev;
        let bi = fklVMbigIntToBigInt b;
        one \<leftarrow> FKL_BIGINT_IS_1 bi;
        if one then Some (Some (V_Fix 1))
        else do {
          none \<leftarrow> FKL_BIGINT_IS_N1 bi;
          if none then Some (Some (V_Fix (-1)))
          else do { d \<leftarrow> fklBigIntToD fp bi; Some (Some (V_F64 (fdiv fp f64_1 d))) } } })"

definition fklProcessVMnumMod :: "fpu \<Rightarrow> FklVMvalue \<Rightarrow> FklVMvalue \<Rightarrow> FklVMvalue option option" where
  "fklProcessVMnumMod fp fir sec =
     (if FKL_IS_F64 fir \<or> FKL_IS_F64 sec then do {
        af \<leftarrow> fklVMgetDouble fp fir;
        as \<leftarrow> fklVMgetDouble fp sec;
        Some (Some (V_F64 (c_fmod fp af as))) }
      else if FKL_IS_FIX fir \<and> FKL_IS_FIX sec then do {
        si \<leftarrow> get_fix sec;
        if si = 0 then Some None
        else do { f \<leftarrow> get_fix fir; Some (Some (V_Fix (i64_mod f si))) } }
      else do {
        let rem = FKL_BIGINT_0;
        rem \<leftarrow> (if FKL_IS_BIGINT fir then do { b \<leftarrow> get_bi fir; fklSetBigIntWithVMbigInt rem b }
          else do { i \<leftarrow> fklVMgetInt fir; fklSetBigIntI rem i });
        rem \<leftarrow> (if FKL_IS_BIGINT sec then do {
            b \<leftarrow> get_bi sec;
            let bi = fklVMbigIntToBigInt b;
            z \<leftarrow> FKL_BIGINT_IS_0 bi;
            if z then Some None else do { (e, rem) \<leftarrow> fklRemBigInt rem bi; Some (Some rem) } }
          else do {
            si \<leftarrow> fklVMgetInt sec;
            if si = 0 then Some None else do { (e, rem) \<leftarrow> fklRemBigIntI rem si; Some (Some rem) } });
        (case rem of None \<Rightarrow> Some None
         | Some rem \<Rightarrow> do { r \<leftarrow> bigint_result rem; Some (Some r) }) })"

end
