(* ===== verification/VmOps.thy ===== *)
theory VmOps
  imports VmArith
begin

text \<open>
  The built-in procedures of src/builtin.c for arithmetic and comparison, and the instructions of
  src/vmdispatch.h. A procedure is a function of the list of its arguments, an instruction one of
  its operand \<open>A\<close> and the stack of values, top first; the values it pushes replace those it
  has popped, so that the stack never has to grow.
\<close>

section \<open>Errors\<close>

datatype FklBuiltinErrorType =
    FKL_ERR_DUMMY | FKL_ERR_SYMUNDEFINE | FKL_ERR_SYNTAXERROR | FKL_ERR_INVALIDEXPR
    | FKL_ERR_CIRCULARLOAD | FKL_ERR_INVALIDPATTERN | FKL_ERR_INCORRECT_TYPE_VALUE
    | FKL_ERR_STACKERROR | FKL_ERR_TOOMANYARG | FKL_ERR_TOOFEWARG | FKL_ERR_CANTCREATETHREAD
    | FKL_ERR_THREADERROR | FKL_ERR_MACROEXPANDFAILED | FKL_ERR_CALL_ERROR | FKL_ERR_LOADDLLFAILD
    | FKL_ERR_INVALIDSYMBOL | FKL_ERR_LIBUNDEFINED | FKL_ERR_UNEXPECTED_EOF | FKL_ERR_DIVZEROERROR
    | FKL_ERR_FILEFAILURE | FKL_ERR_INVALID_VALUE | FKL_ERR_INVALIDASSIGN | FKL_ERR_INVALIDACCESS
    | FKL_ERR_IMPORTFAILED | FKL_ERR_INVALID_MACRO_PATTERN
    | FKL_ERR_FAILD_TO_CREATE_BIGINT_FROM_MEM | FKL_ERR_LIST_DIFFER_IN_LENGTH
    | FKL_ERR_CROSS_C_CALL_CONTINUATION | FKL_ERR_INVALIDRADIX_FOR_INTEGER
    | FKL_ERR_NO_VALUE_FOR_KEY | FKL_ERR_NUMBER_SHOULD_NOT_BE_LT_0 | FKL_ERR_UNSERIALIZABLE
    | FKL_ERR_UNSUPPORTED_OP | FKL_ERR_IMPORT_MISSING | FKL_ERR_EXPORT_ERROR
    | FKL_ERR_IMPORT_READER_MACRO_ERROR | FKL_ERR_ANALYSIS_TABLE_GENERATE_FAILED
    | FKL_ERR_REGEX_COMPILE_FAILED | FKL_ERR_GRAMMER_CREATE_FAILED
    | FKL_ERR_INVALIDRADIX_FOR_FLOAT | FKL_ERR_ASSIGN_CONSTANT
    | FKL_ERR_REDEFINE_VARIABLE_AS_CONSTANT | FKL_ERR_EXP_HAS_NO_VALUE
    | FKL_ERR_UNRESOLVED_NOMTERM | FKL_ERR_REDUCE_CONFLICT | FKL_ERR_STACK_OVERFLOW
    | FKL_ERR_STACK_OVERFLOW_IN_SUB_THREAD

text \<open>The \<open>PROCESS_\<dots>\<close> macros and the loops over the arguments: accumulate until an operand is
  refused.\<close>

fun process_all ::
  "(FklVMvalue \<Rightarrow> 's \<Rightarrow> (bool \<times> 's) option) \<Rightarrow> FklVMvalue list \<Rightarrow> 's \<Rightarrow> (FklBuiltinErrorType + 's) option" where
  "process_all f [] s = Some (Inr s)"
| "process_all f (v # vs) s = do {
     (refused, s) \<leftarrow> f v s;
     if refused then Some (Inl FKL_ERR_INCORRECT_TYPE_VALUE) else process_all f vs s }"

definition or_raise ::
  "(FklBuiltinErrorType + 's) option \<Rightarrow> ('s \<Rightarrow> (FklBuiltinErrorType + 'a) option) \<Rightarrow> (FklBuiltinErrorType + 'a) option" where
  "or_raise m f = do { r \<leftarrow> m; (case r of Inl e \<Rightarrow> Some (Inl e) | Inr s \<Rightarrow> f s) }"

definition returned :: "'a option \<Rightarrow> (FklBuiltinErrorType + 'a) option" where
  "returned m = do { v \<leftarrow> m; Some (Inr v) }"

section \<open>Sums, differences, products and quotients of operands\<close>

definition process_sum :: "fpu \<Rightarrow> FklVMvalue list \<Rightarrow> (FklBuiltinErrorType + FklVMvalue) option" where
  "process_sum fp vs =
     or_raise (process_all (fklProcessVMnumAdd fp) vs (0, f64_0, FKL_BIGINT_0))
       (\<lambda>acc. returned (fklProcessVMnumAddResult fp acc))"

definition process_difference :: "fpu \<Rightarrow> FklVMvalue \<Rightarrow> FklVMvalue list \<Rightarrow> (FklBuiltinErrorType + FklVMvalue) option" where
  "process_difference fp prev vs =
     or_raise (process_all (fklProcessVMnumAdd fp) vs (0, f64_0, FKL_BIGINT_0))
       (\<lambda>acc. returned (fklProcessVMnumSubResult fp prev acc))"

definition process_product :: "fpu \<Rightarrow> FklVMvalue list \<Rightarrow> (FklBuiltinErrorType + FklVMvalue) option" where
  "process_product fp vs =
     or_raise (process_all (fklProcessVMnumMul fp) vs (1, f64_1, FKL_BIGINT_0))
       (\<lambda>acc. returned (fklProcessVMnumMulResult fp acc))"

text \<open>\<open>r64 == 0 || (bi.num == 0 && bi.digits != NULL)\<close>\<close>

definition zero_divisor :: "i64 \<Rightarrow> FklBigInt \<Rightarrow> bool" where
  "zero_divisor r64 bi \<longleftrightarrow> r64 = 0 \<or> num bi = 0 \<and> \<not> IS_DEFAULT_BIGINT bi"

definition process_quotient :: "fpu \<Rightarrow> FklVMvalue \<Rightarrow> FklVMvalue list \<Rightarrow> (FklBuiltinErrorType + FklVMvalue) option" where
  "process_quotient fp prev vs =
     or_raise (process_all (fklProcessVMnumMul fp) vs (1, f64_1, FKL_BIGINT_0))
       (\<lambda>(r64, rd, bi). if zero_divisor r64 bi then Some (Inl FKL_ERR_DIVZEROERROR)
          else returned (fklProcessVMnumDivResult fp prev (r64, rd, bi)))"

definition process_iquotient :: "FklVMvalue \<Rightarrow> FklVMvalue list \<Rightarrow> (FklBuiltinErrorType + FklVMvalue) option" where
  "process_iquotient prev vs =
     or_raise (process_all fklProcessVMintMul vs (1, FKL_BIGINT_0))
       (\<lambda>(r64, bi). if zero_divisor r64 bi then Some (Inl FKL_ERR_DIVZEROERROR)
          else returned (fklProcessVMnumIdivResult prev r64 bi))"

section \<open>Built-in arithmetic\<close>

definition builtin_add :: "fpu \<Rightarrow> FklVMvalue list \<Rightarrow> (FklBuiltinErrorType + FklVMvalue) option" where
  "builtin_add fp args = process_sum fp args"

text \<open>A null result raises the error given.\<close>

definition non_null :: "FklBuiltinErrorType \<Rightarrow> 'a option option \<Rightarrow> (FklBuiltinErrorType + 'a) option" where
  "non_null e m = do { r \<leftarrow> m; Some (case r of None \<Rightarrow> Inl e | Some v \<Rightarrow> Inr v) }"

definition FKL_CPROC_CHECK_ARG_NUM :: "nat \<Rightarrow> nat \<Rightarrow> FklBuiltinErrorType option" where
  "FKL_CPROC_CHECK_ARG_NUM argc n =
     (if argc > n then Some FKL_ERR_TOOMANYARG else if int n - int argc > 0 then Some FKL_ERR_TOOFEWARG else None)"

definition builtin_addk :: "fpu \<Rightarrow> 8 word \<Rightarrow> FklVMvalue list \<Rightarrow> (FklBuiltinErrorType + FklVMvalue) option" where
  "builtin_addk fp k args =
     (case FKL_CPROC_CHECK_ARG_NUM (length args) 1 of
        Some e \<Rightarrow> Some (Inl e)
      | None \<Rightarrow> non_null FKL_ERR_INCORRECT_TYPE_VALUE (fklProcessVMnumAddk fp (args ! 0) k))"

definition builtin_add_1 :: "fpu \<Rightarrow> FklVMvalue list \<Rightarrow> (FklBuiltinErrorType + FklVMvalue) option" where
  "builtin_add_1 fp args = builtin_addk fp 1 args"

definition builtin_sub_1 :: "fpu \<Rightarrow> FklVMvalue list \<Rightarrow> (FklBuiltinErrorType + FklVMvalue) option" where
  "builtin_sub_1 fp args = builtin_addk fp (-1) args"

definition builtin_sub :: "fpu \<Rightarrow> FklVMvalue list \<Rightarrow> (FklBuiltinErrorType + FklVMvalue) option" where
  "builtin_sub fp args = (case args of
      [] \<Rightarrow> Some (Inl FKL_ERR_TOOFEWARG)
    | prev # vs \<Rightarrow>
        if \<not> fklIsVMnumber prev then Some (Inl FKL_ERR_INCORRECT_TYPE_VALUE)
        else if vs = [] then returned (fklProcessVMnumNeg prev)
        else process_difference fp prev vs)"

definition builtin_mul :: "fpu \<Rightarrow> FklVMvalue list \<Rightarrow> (FklBuiltinErrorType + FklVMvalue) option" where
  "builtin_mul fp args = process_product fp args"

definition builtin_idiv :: "FklVMvalue list \<Rightarrow> (FklBuiltinErrorType + FklVMvalue) option" where
  "builtin_idiv args =
     (if length args < 2 then Some (Inl FKL_ERR_TOOFEWARG)
      else let prev = args ! 0 in
        if \<not> fklIsVMint prev then Some (Inl FKL_ERR_INCORRECT_TYPE_VALUE)
        else process_iquotient prev (tl args))"

definition builtin_div :: "fpu \<Rightarrow> FklVMvalue list \<Rightarrow> (FklBuiltinErrorType + FklVMvalue) option" where
  "builtin_div fp args = (case args of
      [] \<Rightarrow> Some (Inl FKL_ERR_TOOFEWARG)
    | prev # vs \<Rightarrow>
        if \<not> fklIsVMnumber prev then Some (Inl FKL_ERR_INCORRECT_TYPE_VALUE)
        else if vs = [] then non_null FKL_ERR_DIVZEROERROR (fklProcessVMnumRec fp prev)
        else process_quotient fp prev vs)"

definition builtin_mod :: "fpu \<Rightarrow> FklVMvalue list \<Rightarrow> (FklBuiltinErrorType + FklVMvalue) option" where
  "builtin_mod fp args =
     (case FKL_CPROC_CHECK_ARG_NUM (length args) 2 of
        Some e \<Rightarrow> Some (Inl e)
      | None \<Rightarrow>
        (let fir = args ! 0; sec = args ! 1 in
         if \<not> fklIsVMnumber fir \<or> \<not> fklIsVMnumber sec then Some (Inl FKL_ERR_INCORRECT_TYPE_VALUE)
         else non_null FKL_ERR_DIVZEROERROR (fklProcessVMnumMod fp fir sec)))"

section \<open>Comparison\<close>

text \<open>\<open>strcmp\<close> and \<open>memcmp\<close>, of whose results only the signs are used.\<close>

fun bytes_cmp :: "u8 list \<Rightarrow> u8 list \<Rightarrow> int" where
  "bytes_cmp [] [] = 0"
| "bytes_cmp [] (y # ys) = -1"
| "bytes_cmp (x # xs) [] = 1"
| "bytes_cmp (x # xs) (y # ys) = (if x < y then -1 else if y < x then 1 else bytes_cmp xs ys)"

definition fklStringCmp :: "u8 list \<Rightarrow> u8 list \<Rightarrow> int" where
  "fklStringCmp fir sec = bytes_cmp (takeWhile (\<lambda>c. c \<noteq> 0) fir) (takeWhile (\<lambda>c. c \<noteq> 0) sec)"

definition fklBytesCmp :: "u8 list \<Rightarrow> u8 list \<Rightarrow> int" where
  "fklBytesCmp fir sec =
     (let n = min (length fir) (length sec);
          r = bytes_cmp (take n fir) (take n sec) in
      if r \<noteq> 0 then r
      else if length fir < length sec then -1
      else if length fir > length sec then 1
      else r)"

text \<open>
  The order of user data: its module's callback, if there is one, gives the result and whether the
  other value cannot be compared with it.
\<close>

type_synonym ud_cmp = "nat \<Rightarrow> (FklVMvalue \<Rightarrow> int \<times> bool) option"

fun cmp_other :: "ud_cmp \<Rightarrow> FklVMvalue \<Rightarrow> FklVMvalue \<Rightarrow> int \<times> bool" where
  "cmp_other ud (V_Str a) (V_Str b) = (fklStringCmp a b, False)"
| "cmp_other ud (V_Bytes a) (V_Bytes b) = (fklBytesCmp a b, False)"
| "cmp_other ud a b =
     (if FKL_IS_CHR a \<and> FKL_IS_CHR b
      then (case (a, b) of (V_Imm p, V_Imm q) \<Rightarrow> (uint (FKL_GET_CHR p) - uint (FKL_GET_CHR q), False) | _ \<Rightarrow> (0, True))
      else (case (case a of V_Ud u \<Rightarrow> ud u | _ \<Rightarrow> None) of
          Some f \<Rightarrow> f b
        | None \<Rightarrow> (case (case b of V_Ud u \<Rightarrow> ud u | _ \<Rightarrow> None) of
            Some f \<Rightarrow> (case f a of (r, err) \<Rightarrow> (- r, err))
          | None \<Rightarrow> (0, True))))"

definition fklVMvalueCmp :: "fpu \<Rightarrow> ud_cmp \<Rightarrow> FklVMvalue \<Rightarrow> FklVMvalue \<Rightarrow> (int \<times> bool) option" where
  "fklVMvalueCmp fp ud a b =
     (if FKL_IS_F64 a \<and> fklIsVMnumber b \<or> FKL_IS_F64 b \<and> fklIsVMnumber a then do {
        af \<leftarrow> fklVMgetDouble fp a;
        bf \<leftarrow> fklVMgetDouble fp b;
        Some (if isgreater af bf then 1 else if isless af bf then -1 else 0, False) }
      else if FKL_IS_FIX a \<and> FKL_IS_FIX b then do {
        x \<leftarrow> get_fix a;
        y \<leftarrow> get_fix b;
        let rr = sint (x - y);
        Some (if rr > 0 then 1 else if rr < 0 then -1 else 0, False) }
      else if FKL_IS_BIGINT a \<and> FKL_IS_BIGINT b then do {
        x \<leftarrow> get_bi a;
        y \<leftarrow> get_bi b;
        r \<leftarrow> fklBigIntCmp (fklVMbigIntToBigInt x) (fklVMbigIntToBigInt y);
        Some (r, False) }
      else if FKL_IS_BIGINT a \<and> FKL_IS_FIX b then do {
        x \<leftarrow> get_bi a;
        y \<leftarrow> get_fix b;
        r \<leftarrow> fklBigIntCmpI (fklVMbigIntToBigInt x) y;
        Some (r, False) }
      else if FKL_IS_FIX a \<and> FKL_IS_BIGINT b then do {
        x \<leftarrow> get_fix a;
        y \<leftarrow> get_bi b;
        r \<leftarrow> fklBigIntCmpI (fklVMbigIntToBigInt y) x;
        Some (-1 * r, False) }
      else Some (cmp_other ud a b))"

text \<open>The loop of the five comparison procedures, behind the first argument.\<close>

fun cmp_chain ::
  "(int \<Rightarrow> bool) \<Rightarrow> fpu \<Rightarrow> ud_cmp \<Rightarrow> FklVMvalue \<Rightarrow> FklVMvalue list \<Rightarrow> (FklBuiltinErrorType + bool) option" where
  "cmp_chain test fp ud prev [] = Some (Inr True)"
| "cmp_chain test fp ud prev (cur # vs) = do {
     (r, err) \<leftarrow> fklVMvalueCmp fp ud prev cur;
     if err then Some (Inl FKL_ERR_INCORRECT_TYPE_VALUE)
     else if \<not> test r then Some (Inr False)
     else cmp_chain test fp ud cur vs }"

definition vm_bool :: "bool \<Rightarrow> FklVMvalue" where
  "vm_bool b = (if b then FKL_VM_TRUE else VM_NIL)"

definition builtin_cmp ::
  "(int \<Rightarrow> bool) \<Rightarrow> fpu \<Rightarrow> ud_cmp \<Rightarrow> FklVMvalue list \<Rightarrow> (FklBuiltinErrorType + FklVMvalue) option" where
  "builtin_cmp test fp ud args = (case args of
      [] \<Rightarrow> Some (Inl FKL_ERR_TOOFEWARG)
    | v # vs \<Rightarrow> or_raise (cmp_chain test fp ud v vs) (\<lambda>r. Some (Inr (vm_bool r))))"

definition builtin_eqn where "builtin_eqn = builtin_cmp (\<lambda>r. r = 0)"
definition builtin_gt where "builtin_gt = builtin_cmp (\<lambda>r. r > 0)"
definition builtin_ge where "builtin_ge = builtin_cmp (\<lambda>r. r \<ge> 0)"
definition builtin_lt where "builtin_lt = builtin_cmp (\<lambda>r. r < 0)"
definition builtin_le where "builtin_le = builtin_cmp (\<lambda>r. r \<le> 0)"

section \<open>Instructions\<close>

definition push_result ::
  "FklVMvalue list \<Rightarrow> (FklBuiltinErrorType + FklVMvalue) option \<Rightarrow> (FklBuiltinErrorType + FklVMvalue list) option" where
  "push_result stk m = or_raise m (\<lambda>v. Some (Inr (v # stk)))"

text \<open>\<open>ADD\<close> and \<open>MUL\<close> of one operand give a number back.\<close>

definition same_number :: "FklVMvalue \<Rightarrow> (FklBuiltinErrorType + FklVMvalue) option" where
  "same_number a =
     (if FKL_IS_BIGINT a then do {
        b \<leftarrow> get_bi a;
        b \<leftarrow> fklCreateVMvalueBigIntWithOther b;
        Some (Inr (V_BigInt b)) }
      else if FKL_IS_F64 a then do { d \<leftarrow> get_f64 a; Some (Inr (V_F64 d)) }
      else if FKL_IS_FIX a then Some (Inr a)
      else Some (Inl FKL_ERR_INCORRECT_TYPE_VALUE))"

definition op_add :: "fpu \<Rightarrow> 8 word \<Rightarrow> FklVMvalue list \<Rightarrow> (FklBuiltinErrorType + FklVMvalue list) option" where
  "op_add fp sA stk =
     (if sA = 1 then (case stk of a # stk \<Rightarrow> push_result stk (same_number a) | _ \<Rightarrow> None)
      else if sA = 2 then (case stk of b # a # stk \<Rightarrow> push_result stk (process_sum fp [a, b]) | _ \<Rightarrow> None)
      else if sA = 3 then (case stk of c # b # a # stk \<Rightarrow> push_result stk (process_sum fp [a, b, c]) | _ \<Rightarrow> None)
      else None)"

definition op_sub :: "fpu \<Rightarrow> 8 word \<Rightarrow> FklVMvalue list \<Rightarrow> (FklBuiltinErrorType + FklVMvalue list) option" where
  "op_sub fp sA stk =
     (if sA = 1 then (case stk of a # stk \<Rightarrow> push_result stk (returned (fklProcessVMnumNeg a)) | _ \<Rightarrow> None)
      else if sA = 2 then (case stk of
          b # a # stk \<Rightarrow> push_result stk
            (if \<not> fklIsVMnumber a then Some (Inl FKL_ERR_INCORRECT_TYPE_VALUE) else process_difference fp a [b])
        | _ \<Rightarrow> None)
      else if sA = 3 then (case stk of
          c # b # a # stk \<Rightarrow> push_result stk
            (if \<not> fklIsVMnumber a then Some (Inl FKL_ERR_INCORRECT_TYPE_VALUE) else process_difference fp a [b, c])
        | _ \<Rightarrow> None)
      else None)"

definition op_mul :: "fpu \<Rightarrow> 8 word \<Rightarrow> FklVMvalue list \<Rightarrow> (FklBuiltinErrorType + FklVMvalue list) option" where
  "op_mul fp sA stk =
     (if sA = 1 then (case stk of a # stk \<Rightarrow> push_result stk (same_number a) | _ \<Rightarrow> None)
      else if sA = 2 then (case stk of b # a # stk \<Rightarrow> push_result stk (process_product fp [a, b]) | _ \<Rightarrow> None)
      else if sA = 3 then (case stk of c # b # a # stk \<Rightarrow> push_result stk (process_product fp [a, b, c]) | _ \<Rightarrow> None)
      else None)"

text \<open>For any other operand \<open>DIV\<close> does nothing: its switch has no default case.\<close>

definition op_div :: "fpu \<Rightarrow> 8 word \<Rightarrow> FklVMvalue list \<Rightarrow> (FklBuiltinErrorType + FklVMvalue list) option" where
  "op_div fp sA stk =
     (if sA = -2 then (case stk of
          sec # fir # stk \<Rightarrow> push_result stk
            (if \<not> fklIsVMnumber fir \<or> \<not> fklIsVMnumber sec then Some (Inl FKL_ERR_INCORRECT_TYPE_VALUE)
             else non_null FKL_ERR_DIVZEROERROR (fklProcessVMnumMod fp fir sec))
        | _ \<Rightarrow> None)
      else if sA = 1 then (case stk of
          a # stk \<Rightarrow> push_result stk
            (if \<not> fklIsVMnumber a then Some (Inl FKL_ERR_INCORRECT_TYPE_VALUE)
             else non_null FKL_ERR_DIVZEROERROR (fklProcessVMnumRec fp a))
        | _ \<Rightarrow> None)
      else if sA = 2 then (case stk of
          b # a # stk \<Rightarrow> push_result stk
            (if \<not> fklIsVMnumber a then Some (Inl FKL_ERR_INCORRECT_TYPE_VALUE) else process_quotient fp a [b])
        | _ \<Rightarrow> None)
      else if sA = 3 then (case stk of
          c # b # a # stk \<Rightarrow> push_result stk
            (if \<not> fklIsVMnumber a then Some (Inl FKL_ERR_INCORRECT_TYPE_VALUE) else process_quotient fp a [b, c])
        | _ \<Rightarrow> None)
      else Some (Inr stk))"

definition op_idiv :: "8 word \<Rightarrow> FklVMvalue list \<Rightarrow> (FklBuiltinErrorType + FklVMvalue list) option" where
  "op_idiv sA stk =
     (if sA = 2 then (case stk of
          b # a # stk \<Rightarrow> push_result stk
            (if \<not> fklIsVMint a then Some (Inl FKL_ERR_INCORRECT_TYPE_VALUE) else process_iquotient a [b])
        | _ \<Rightarrow> None)
      else if sA = 3 then (case stk of
          c # b # a # stk \<Rightarrow> push_result stk
            (if \<not> fklIsVMint a then Some (Inl FKL_ERR_INCORRECT_TYPE_VALUE) else process_iquotient a [b, c])
        | _ \<Rightarrow> None)
      else None)"

definition op_addk :: "fpu \<Rightarrow> 8 word \<Rightarrow> FklVMvalue list \<Rightarrow> (FklBuiltinErrorType + FklVMvalue list) option" where
  "op_addk fp sA stk = (case stk of
      arg # stk \<Rightarrow> push_result stk (non_null FKL_ERR_INCORRECT_TYPE_VALUE (fklProcessVMnumAddk fp arg sA))
    | _ \<Rightarrow> None)"

definition op_cmp ::
  "(int \<Rightarrow> bool) \<Rightarrow> fpu \<Rightarrow> ud_cmp \<Rightarrow> 8 word \<Rightarrow> FklVMvalue list \<Rightarrow> (FklBuiltinErrorType + FklVMvalue list) option" where
  "op_cmp test fp ud sA stk =
     (if sA = 2 then (case stk of
          b # a # stk \<Rightarrow> do {
            (c, err) \<leftarrow> fklVMvalueCmp fp ud a b;
            let r = test c;
            push_result stk (if err then Some (Inl FKL_ERR_INCORRECT_TYPE_VALUE) else Some (Inr (vm_bool r))) }
        | _ \<Rightarrow> None)
      else if sA = 3 then (case stk of
          c # b # a # stk \<Rightarrow> do {
            (d, err) \<leftarrow> fklVMvalueCmp fp ud a b;
            (r, err) \<leftarrow> (if test d \<and> \<not> err then do { (d, err) \<leftarrow> fklVMvalueCmp fp ud b c; Some (test d, err) }
              else Some (False, err));
            push_result stk (if err then Some (Inl FKL_ERR_INCORRECT_TYPE_VALUE) else Some (Inr (vm_bool r))) }
        | _ \<Rightarrow> None)
      else None)"

definition op_eqn where "op_eqn = op_cmp (\<lambda>r. r = 0)"
definition op_gt where "op_gt = op_cmp (\<lambda>r. r > 0)"
definition op_lt where "op_lt = op_cmp (\<lambda>r. r < 0)"
definition op_ge where "op_ge = op_cmp (\<lambda>r. r \<ge> 0)"
definition op_le where "op_le = op_cmp (\<lambda>r. r \<le> 0)"

end
