(* ===== verification/VmNumSpec.thy ===== *)
theory VmNumSpec
  imports VmOps
begin

text \<open>
  What the numbers of the machine stand for, and what the building blocks of its arithmetic
  compute. An integer is canonical when it is a fixnum exactly if it fits into one, and otherwise a
  normalised big integer object.
\<close>

section \<open>Integers of the machine\<close>

fun vm_int :: "FklVMvalue \<Rightarrow> int option" where
  "vm_int (V_Imm p) = (if FKL_GET_TAG p = FKL_TAG_FIX then Some (sint (FKL_GET_FIX p)) else None)"
| "vm_int (V_BigInt b) = Some (bi_val (fklVMbigIntToBigInt b))"
| "vm_int _ = None"

fun vm_wf :: "FklVMvalue \<Rightarrow> bool" where
  "vm_wf (V_BigInt b) = (bi_wf (fklVMbigIntToBigInt b) \<and> \<not> fix_range (bi_val (fklVMbigIntToBigInt b)))"
| "vm_wf _ = True"

text \<open>\<open>v\<close> is the canonical value of the integer \<open>n\<close>.\<close>

definition int_val :: "FklVMvalue \<Rightarrow> int \<Rightarrow> bool" where
  "int_val v n \<longleftrightarrow> vm_wf v \<and> vm_int v = Some n"

lemma int_val_Fix [simp]: "int_val (V_Imm p) n \<longleftrightarrow> FKL_GET_TAG p = FKL_TAG_FIX \<and> sint (FKL_GET_FIX p) = n"
  by (simp add: int_val_def)

lemma int_val_Big [simp]: "int_val (V_BigInt b) n \<longleftrightarrow>
    bi_wf (fklVMbigIntToBigInt b) \<and> \<not> fix_range n \<and> bi_val (fklVMbigIntToBigInt b) = n"
  by (auto simp: int_val_def)

lemma int_val_other [simp]:
  "\<not> int_val (V_F64 d) n" "\<not> int_val (V_Str s) n" "\<not> int_val (V_Bytes s) n" "\<not> int_val (V_Ud u) n" "\<not> int_val (V_Other u) n"
  by (simp_all add: int_val_def)

lemma int_val_cases:
  assumes "int_val v n"
  obtains (small) p where "v = V_Imm p" "FKL_GET_TAG p = FKL_TAG_FIX" "sint (FKL_GET_FIX p) = n" "fix_range n"
    | (large) b where "v = V_BigInt b" "bi_wf (fklVMbigIntToBigInt b)" "bi_val (fklVMbigIntToBigInt b) = n" "\<not> fix_range n"
  using assms by (cases v) auto

lemma int_val_unique: "int_val v n \<Longrightarrow> int_val v m \<Longrightarrow> n = m"
  by (simp add: int_val_def)

lemma int_val_fix: "int_val (V_Fix i) (wrap_fix (sint i))"
  by simp

lemma int_val_fix_same: "fix_range (sint i) \<Longrightarrow> int_val (V_Fix i) (sint i)"
  by simp

section \<open>Limits and objects\<close>

lemma fix_constants:
  "bi_wf FKL_BIGINT_FIX_MAX" "bi_val FKL_BIGINT_FIX_MAX = 2 ^ 60 - 1"
  "bi_wf FKL_BIGINT_FIX_MIN" "bi_val FKL_BIGINT_FIX_MIN = - (2 ^ 60)"
  "bi_wf FKL_BIGINT_SUB_1_MAX" "bi_val FKL_BIGINT_SUB_1_MAX = 2 ^ 60"
  "bi_wf FKL_BIGINT_ADD_1_MIN" "bi_val FKL_BIGINT_ADD_1_MIN = - (2 ^ 60) - 1"
  by (simp_all add: FKL_BIGINT_FIX_MAX_def FKL_BIGINT_FIX_MIN_def FKL_BIGINT_SUB_1_MAX_def FKL_BIGINT_ADD_1_MIN_def
      FKL_BIGINT_DIGIT_MASK_def FKL_BIGINT_DIGIT_BASE_def bi_wf_def bi_ok_def used_def len_def BASE_def bi_val_cases mag_def)

lemma GtLtFix_eq: "bi_wf a \<Longrightarrow> fklIsBigIntGtLtFix a = Some (\<not> fix_range (bi_val a))"
  using wp_Cmp_const [of a FKL_BIGINT_FIX_MAX] wp_Cmp_const [of a FKL_BIGINT_FIX_MIN]
  by (auto simp: fklIsBigIntGtLtFix_def fix_constants fix_range_def elim!: wpE)

lemma bi_wf_tight:
  assumes "bi_wf b"
  shows "bi_wf \<lparr>digits = used b, num = num b, bsize = len b, const_size = c\<rparr>"
    and "bi_val \<lparr>digits = used b, num = num b, bsize = len b, const_size = c\<rparr> = bi_val b"
proof -
  let ?t = "\<lparr>digits = used b, num = num b, bsize = len b, const_size = c\<rparr>"
  have ok: "bi_ok b" using assms by (rule bi_wf_ok)
  then have l: "length (used b) = len b" "len ?t = len b" "used ?t = used b"
    using bi_ok_D [OF ok] by (simp_all add: len_def used_def)
  then show "bi_val ?t = bi_val b" by (simp add: bi_val_def mag_def)
  show "bi_wf ?t" using assms l ok by (auto simp: bi_wf_def bi_ok_def used_def len_def)
qed

lemma SetBigInt_room:
  assumes "bi_wf from" "len from \<le> bsize to" "length (digits to) = bsize to"
  shows "fklSetBigInt to from = Some (to\<lparr>num := num from, digits := used from @ drop (len from) (digits to)\<rparr>)"
proof -
  have "nat \<bar>num from\<bar> = len from" "len from \<le> length (digits from)"
    using bi_ok_D [OF bi_wf_ok [OF assms(1)]] by (simp_all add: len_def)
  with assms show ?thesis
    by (simp add: fklSetBigInt_def ensure_bigint_size_def memcpy_def used_def)
qed

lemma view_object:
  fixes m :: int
  assumes "bi_wf bi" "len bi \<le> n" "n \<le> length (vdigits b)"
  defines "t \<equiv> (over_object b n m)\<lparr>num := num bi, digits := used bi @ drop (len bi) (take n (vdigits b))\<rparr>"
  shows "fklVMbigIntToBigInt ((object_digits b t)\<lparr>vnum := num t\<rparr>)
    = \<lparr>digits = used bi, num = num bi, bsize = len bi, const_size = True\<rparr>"
proof -
  have "length (used bi) = len bi" "nat \<bar>num bi\<bar> = len bi"
    using bi_ok_D [OF bi_wf_ok [OF assms(1)]] by (simp_all add: len_def)
  then show ?thesis
    by (simp add: t_def fklVMbigIntToBigInt_def over_object_def object_digits_def)
qed

lemma length_object: "length (vdigits (fklCreateVMvalueBigInt n)) = n + 1" "nat \<bar>vnum (fklCreateVMvalueBigInt n)\<bar> = n + 1"
  by (simp_all add: fklCreateVMvalueBigInt_def)

lemma over_object_simps [simp]:
  "bsize (over_object b n m) = n" "num (over_object b n m) = m" "digits (over_object b n m) = take n (vdigits b)"
  "const_size (over_object b n m)"
  by (simp_all add: over_object_def)

lemma len_nat: "nat \<bar>num b\<bar> = len b"
  by (simp add: len_def)

lemma wp_Create2:
  assumes "bi_wf bi" "\<not> fix_range (bi_val bi)"
  shows "wp (fklCreateVMvalueBigInt2 bi) (\<lambda>b. int_val (V_BigInt b) (bi_val bi))"
proof -
  let ?b = "fklCreateVMvalueBigInt (len bi)"
  have "fklSetBigInt (over_object ?b (len bi + 1) 0) bi = Some ((over_object ?b (len bi + 1) 0)\<lparr>num := num bi,
      digits := used bi @ drop (len bi) (take (len bi + 1) (vdigits ?b))\<rparr>)"
    using assms(1) by (subst SetBigInt_room) (simp_all add: length_object del: take_all)
  then show ?thesis
    using assms view_object [OF assms(1), of "len bi + 1" ?b 0] bi_wf_tight [OF assms(1)]
    unfolding fklCreateVMvalueBigInt2_def nat_fklAbs len_nat
    by (simp add: GtLtFix_eq length_object Let_def del: take_all)
qed

lemma wp_bigint_result:
  assumes "bi_wf bi"
  shows "wp (bigint_result bi) (\<lambda>v. int_val v (bi_val bi))"
proof (cases "fix_range (bi_val bi)")
  case True
  then have "max (- (2 ^ 63)) (min (2 ^ 63 - 1) (bi_val bi)) = bi_val bi" by (auto simp: fix_range_def)
  with True show ?thesis
    by (auto simp: bigint_result_def GtLtFix_eq [OF assms] intro!: wp_mono [OF wp_fklBigIntToI [OF assms]])
next
  case False
  then show ?thesis
    by (auto simp: bigint_result_def GtLtFix_eq [OF assms] simp del: int_val_Big intro!: wp_mono [OF wp_Create2 [OF assms]])
qed

end
