(* ===== verification/VmArithSpec.thy ===== *)
theory VmArithSpec
  imports VmNumSpec
begin

text \<open>
  What one step of a sum or a product does to its accumulators, and what the results are.
\<close>

section \<open>Machine integers as big integers\<close>

lemma of_i64: obtains x where "bigint_of_i64 v = Some x" "bi_wf x" "bi_val x = sint v"
  using wp_bigint_of_i64 [of v] by (auto elim: wpE)

lemma GetFix_fix: "FKL_GET_TAG p = FKL_TAG_FIX \<Longrightarrow> FKL_IS_FIX (V_Imm p)"
  by simp

lemma not_add_faulty_nonneg: "bi_wf b \<Longrightarrow> 0 \<le> bi_val b \<Longrightarrow> \<not> add_faulty a b"
  using bi_val_neg_iff [of b] by (auto simp: add_faulty_def)

lemma not_add_faulty_small: "bi_wf a \<Longrightarrow> bi_val a \<le> 0 \<Longrightarrow> \<not> add_faulty a b"
  using bi_val_0_iff [of a] bi_val_neg_iff [of a] by (auto simp: add_faulty_def)

lemma not_sub_faulty_0: "bi_wf a \<Longrightarrow> bi_wf b \<Longrightarrow> bi_val a = 0 \<or> bi_val b = 0 \<Longrightarrow> \<not> sub_faulty a b"
  using bi_val_0_iff [of a] bi_val_0_iff [of b] by (auto simp: sub_faulty_def sub_stale_def)

lemma not_sub_faulty_opposite: "bi_wf a \<Longrightarrow> bi_wf b \<Longrightarrow> bi_val a < 0 \<longleftrightarrow> \<not> bi_val b < 0 \<Longrightarrow> \<not> sub_faulty a b"
  using bi_val_neg_iff [of a] bi_val_neg_iff [of b] by (auto simp: sub_faulty_def)

section \<open>Sums\<close>

text \<open>The number of digits of a big integer, and the sums \<open>fklAddBigInt\<close> gets wrong.\<close>

function digit_len :: "nat \<Rightarrow> nat" where
  "digit_len n = (if n = 0 then 0 else Suc (digit_len (n div BASE)))"
  by pat_completeness auto
termination
  by (relation "measure id") (auto simp: BASE_def)

declare digit_len.simps [simp del]

lemma digit_len_bounds: "0 < n \<Longrightarrow> BASE ^ (digit_len n - 1) \<le> n \<and> n < BASE ^ digit_len n"
proof (induction n rule: digit_len.induct)
  case (1 n)
  show ?case
  proof (cases "n < BASE")
    case True
    with 1(2) show ?thesis by (simp add: digit_len.simps [of n] digit_len.simps [of 0])
  next
    case False
    then have pos: "0 < n div BASE" by (simp add: div_greater_zero_iff BASE_def)
    with 1 have ih: "BASE ^ (digit_len (n div BASE) - 1) \<le> n div BASE" "n div BASE < BASE ^ digit_len (n div BASE)"
      by auto
    obtain m where m: "digit_len (n div BASE) = Suc m" using pos by (auto simp: digit_len.simps [of "n div BASE"])
    have "BASE * BASE ^ m \<le> BASE * (n div BASE)" using ih m by simp
    also have "\<dots> \<le> n" by simp
    finally have "BASE * BASE ^ m \<le> n" .
    moreover have "n < BASE * BASE ^ Suc m"
      using ih(2) m by (simp add: div_less_iff_less_mult BASE_def mult.commute)
    ultimately show ?thesis using 1(2) m by (simp add: digit_len.simps [of n])
  qed
qed

lemma digit_len_unique:
  assumes "BASE ^ (k - 1) \<le> n" "n < BASE ^ k" "0 < n"
  shows "digit_len n = k"
proof -
  note d = digit_len_bounds [OF assms(3)]
  have b: "1 < BASE" by (simp add: BASE_def)
  have "BASE ^ (k - 1) < BASE ^ digit_len n" "BASE ^ (digit_len n - 1) < BASE ^ k" using assms d by linarith+
  then have "k - 1 < digit_len n" "digit_len n - 1 < k" using b by simp_all
  moreover have "0 < k" "0 < digit_len n" using assms by (cases k; auto) (auto simp: digit_len.simps [of n] assms(3))
  ultimately show ?thesis by linarith
qed

lemma len_digits: "bi_wf b \<Longrightarrow> num b \<noteq> 0 \<Longrightarrow> len b = digit_len (mag b)"
  by (rule digit_len_unique [symmetric]) (auto simp: bi_wf_alt mag_pos mag_less)

lemma last_digit:
  assumes "bi_wf b" "num b \<noteq> 0"
  shows "unat (last (used b)) = mag b div BASE ^ (len b - 1)"
proof -
  have ok: "bi_ok b" using assms(1) by (rule bi_wf_ok)
  have l: "length (used b) = len b" "0 < len b" using bi_ok_D [OF ok] assms(2) by (auto simp: len_def)
  obtain ds d where u: "used b = ds @ [d]" using l by (cases "used b" rule: rev_cases) auto
  have "digits_ok ds" using ok u by (simp add: bi_ok_def)
  moreover have n: "len b - 1 = length ds" using u l by simp
  ultimately have lt: "val ds < BASE ^ (len b - 1)" using val_less [of ds] by simp
  have "mag b = val ds + BASE ^ (len b - 1) * unat d" using u n by (simp add: mag_def val_snoc)
  with lt show ?thesis by (simp add: u)
qed

definition stale_sum :: "int \<Rightarrow> int \<Rightarrow> bool" where
  "stale_sum x c \<longleftrightarrow> 0 < x \<and> c < 0 \<and> - c < x \<and> 1 < digit_len (nat x) \<and> digit_len (nat (- c)) = digit_len (nat x)
     \<and> nat (- c) div BASE ^ (digit_len (nat x) - 1) = nat x div BASE ^ (digit_len (nat x) - 1)"

lemma add_faulty_stale:
  assumes "bi_wf a" "bi_wf b" "add_faulty a b"
  shows "stale_sum (bi_val a) (bi_val b)"
proof -
  have f: "1 < len a" "0 < num a" "num b < 0" "len a = len b" "mag b < mag a" "last (used a) = last (used b)"
    using assms(3) by (auto simp: add_faulty_def sub_stale_def)
  then have v: "bi_val a = int (mag a)" "bi_val b = - int (mag b)" by (simp_all add: bi_val_def)
  have nz: "num a \<noteq> 0" "num b \<noteq> 0" using f by auto
  have "mag b div BASE ^ (len b - 1) = mag a div BASE ^ (len a - 1)"
    using last_digit [OF assms(1) nz(1)] last_digit [OF assms(2) nz(2)] f by simp
  with f v mag_pos [OF assms(1) nz(1)] mag_pos [OF assms(2) nz(2)] len_digits [OF assms(1) nz(1)] len_digits [OF assms(2) nz(2)]
  show ?thesis by (simp add: stale_sum_def)
qed

text \<open>Adding the integer \<open>c\<close> to the big integer \<open>bi\<close> stays clear of the fault of \<open>fklAddBigInt\<close>.\<close>

definition adds_ok :: "FklBigInt \<Rightarrow> int \<Rightarrow> bool" where
  "adds_ok bi c \<longleftrightarrow> (\<forall>x. bi_wf x \<longrightarrow> bi_val x = c \<longrightarrow> \<not> add_faulty bi x)"

lemma adds_okI: "bi_wf bi \<Longrightarrow> \<not> stale_sum (bi_val bi) c \<Longrightarrow> adds_ok bi c"
  by (auto simp: adds_ok_def add_faulty_stale)

lemma adds_ok_nonneg: "0 \<le> c \<Longrightarrow> adds_ok bi c"
  by (auto simp: adds_ok_def not_add_faulty_nonneg)

lemma adds_ok_small: "bi_wf bi \<Longrightarrow> bi_val bi \<le> 0 \<Longrightarrow> adds_ok bi c"
  by (auto simp: adds_ok_def not_add_faulty_small)

lemma wp_AddBigInt:
  assumes "bi_own bi" "bi_wf x" "adds_ok bi (bi_val x)"
  shows "wp (fklAddBigInt bi x) (\<lambda>r. bi_own r \<and> bi_val r = bi_val bi + bi_val x)"
  using assms by (intro wp_mono [OF wp_add_spec]) (auto simp: adds_ok_def)

lemma wp_AddBigIntI:
  assumes "bi_own bi" "adds_ok bi (sint v)"
  shows "wp (fklAddBigIntI bi v) (\<lambda>r. bi_own r \<and> bi_val r = bi_val bi + sint v)"
proof -
  obtain x where x: "bigint_of_i64 v = Some x" "bi_wf x" "bi_val x = sint v" by (rule of_i64)
  with wp_AddBigInt [OF assms(1) x(2)] assms(2) show ?thesis by (simp add: fklAddBigIntI_def)
qed

lemma sint_add_fix: "fix_range (sint a) \<Longrightarrow> fix_range (sint b) \<Longrightarrow> sint (a + b) = sint a + sint b" for a b :: i64
  by (simp add: sint_word_add fix_range_def signed_take_bit_int_eq_self)

lemma sint_diff_fix: "fix_range (sint a) \<Longrightarrow> fix_range (sint b) \<Longrightarrow> sint (a - b) = sint a - sint b" for a b :: i64
  by (simp add: sint_word_diff fix_range_def signed_take_bit_int_eq_self)

lemma sint_neg_fix: "fix_range (sint a) \<Longrightarrow> sint (- a) = - sint a" for a :: i64
  by (simp add: sint_word_minus fix_range_def signed_take_bit_int_eq_self)

definition added :: "i64 \<Rightarrow> f64 \<Rightarrow> FklBigInt \<Rightarrow> int \<Rightarrow> bool \<times> accs \<Rightarrow> bool" where
  "added r64 d bi c = (\<lambda>(refused, r', d', bi'). \<not> refused \<and> d' = d \<and> bi_own bi' \<and> fix_range (sint r')
     \<and> (if fix_range c \<and> fix_range (sint r64 + c) then sint r' = sint r64 + c \<and> bi' = bi
        else r' = r64 \<and> bi_val bi' = bi_val bi + c))"

lemma wp_ProcessAdd:
  assumes bi: "bi_own bi" and r: "fix_range (sint r64)" and v: "int_val v c"
    and min: "\<not> (sint r64 = - (2 ^ 60) \<and> c = - (2 ^ 60))"
    and ok: "\<not> (fix_range c \<and> fix_range (sint r64 + c)) \<Longrightarrow> adds_ok bi c"
  shows "wp (fklProcessVMnumAdd fp v (r64, d, bi)) (added r64 d bi c)"
  using v
proof (cases rule: int_val_cases)
  case (small p)
  have ov: "fklIsFixAddOverflow r64 (FKL_GET_FIX p) \<longleftrightarrow> \<not> fix_range (sint r64 + c)"
    using fklIsFixAddOverflow_iff [OF r, of "FKL_GET_FIX p"] min small by auto
  have s: "sint (r64 + FKL_GET_FIX p) = sint r64 + c"
    using sint_add_fix [OF r, of "FKL_GET_FIX p"] small by simp
  show ?thesis
  proof (cases "fix_range (sint r64 + c)")
    case True
    with small ov s bi show ?thesis by (simp add: fklProcessVMnumAdd_def added_def)
  next
    case False
    have "wp (fklAddBigIntI bi (FKL_GET_FIX p)) (\<lambda>x. bi_own x \<and> bi_val x = bi_val bi + c)"
      using wp_AddBigIntI [OF bi, of "FKL_GET_FIX p"] ok False small by simp
    with False small ov r show ?thesis
      by (auto simp: fklProcessVMnumAdd_def added_def elim!: wp_mono)
  qed
next
  case (large b)
  have "wp (fklAddBigInt bi (fklVMbigIntToBigInt b)) (\<lambda>x. bi_own x \<and> bi_val x = bi_val bi + c)"
    using wp_AddBigInt [OF bi large(2)] ok large by simp
  with large r show ?thesis
    by (auto simp: fklProcessVMnumAdd_def added_def elim!: wp_mono)
qed

lemma f64_constants [simp]: "\<not> f64_ne_0 f64_0" "\<not> f64_ne_1 f64_1"
  by (simp_all add: f64_ne_0_def f64_ne_1_def f64_0_def)

lemma IS_0_eq: "bi_wf b \<Longrightarrow> FKL_BIGINT_IS_0 b = Some (bi_val b = 0)"
  and IS_1_eq: "bi_wf b \<Longrightarrow> FKL_BIGINT_IS_1 b = Some (bi_val b = 1)"
  and IS_N1_eq: "bi_wf b \<Longrightarrow> FKL_BIGINT_IS_N1 b = Some (bi_val b = -1)"
  using wp_IS_small [of b] by (auto elim!: wpE)

lemma wp_AddResult:
  assumes "bi_own bi" "fix_range (sint r64)" "adds_ok bi (sint r64)"
  shows "wp (fklProcessVMnumAddResult fp (r64, f64_0, bi)) (\<lambda>v. int_val v (sint r64 + bi_val bi))"
proof (cases "bi_val bi = 0")
  case True
  with assms show ?thesis by (simp add: fklProcessVMnumAddResult_def IS_0_eq bi_own_wf)
next
  case False
  have "wp (bigint_result x) (\<lambda>v. int_val v (sint r64 + bi_val bi))" if "bi_own x \<and> bi_val x = bi_val bi + sint r64" for x
    using wp_bigint_result [OF bi_own_wf, of x] that by (simp add: add.commute)
  with False assms wp_AddBigIntI [OF assms(1,3)] show ?thesis
    by (auto simp: fklProcessVMnumAddResult_def IS_0_eq bi_own_wf elim!: wp_mono)
qed


text \<open>
  A list of integers whose sum the accumulators hold: no two least fixnums meet, and the big integer
  never meets a number of the opposite sign, the same length and the same top digit.
\<close>

fun add_clean :: "int \<Rightarrow> int \<Rightarrow> int list \<Rightarrow> bool" where
  "add_clean r b [] = (\<not> stale_sum b r)"
| "add_clean r b (c # cs) =
     (if fix_range c \<and> fix_range (r + c) then add_clean (r + c) b cs
      else \<not> (r = - (2 ^ 60) \<and> c = - (2 ^ 60)) \<and> \<not> stale_sum b c \<and> add_clean r (b + c) cs)"

lemma stale_sum_0 [simp]: "\<not> stale_sum 0 c"
  by (simp add: stale_sum_def)

lemma stale_sum_nonneg [simp]: "0 \<le> c \<Longrightarrow> \<not> stale_sum b c"
  by (simp add: stale_sum_def)

lemma add_clean_nonneg: "0 \<le> r \<Longrightarrow> \<forall>c\<in>set cs. 0 \<le> c \<Longrightarrow> add_clean r b cs"
  by (induction cs arbitrary: r b) auto

lemma wp_process_add:
  assumes "list_all2 int_val vs ns" "bi_own bi" "fix_range (sint r64)" "add_clean (sint r64) (bi_val bi) ns"
  shows "wp (process_all (fklProcessVMnumAdd fp) vs (r64, d, bi)) (\<lambda>r. \<exists>r' bi'. r = Inr (r', d, bi')
    \<and> bi_own bi' \<and> fix_range (sint r') \<and> \<not> stale_sum (bi_val bi') (sint r')
    \<and> sint r' + bi_val bi' = sint r64 + bi_val bi + sum_list ns)"
  using assms
proof (induction vs arbitrary: ns r64 bi)
  case Nil
  then show ?case by simp
next
  case (Cons v vs)
  obtain c cs where ns: "ns = c # cs" "int_val v c" "list_all2 int_val vs cs"
    using Cons.prems(1) by (auto simp: list_all2_Cons1)
  have step: "wp (fklProcessVMnumAdd fp v (r64, d, bi)) (added r64 d bi c)"
    using Cons.prems(4) ns(1)
    by (intro wp_ProcessAdd [OF Cons.prems(2,3) ns(2)]) (auto simp: fix_range_def intro!: adds_okI bi_own_wf Cons.prems split: if_splits)
  show ?case
    unfolding process_all.simps wp_simps
  proof (rule wp_mono [OF step])
    fix x assume "added r64 d bi c x"
    then obtain r' bi' where x: "x = (False, r', d, bi')" "bi_own bi'" "fix_range (sint r')"
      and e: "if fix_range c \<and> fix_range (sint r64 + c) then sint r' = sint r64 + c \<and> bi' = bi
        else r' = r64 \<and> bi_val bi' = bi_val bi + c"
      by (cases x) (auto simp: added_def)
    have "add_clean (sint r') (bi_val bi') cs" using Cons.prems(4) e by (auto simp: ns(1) split: if_splits)
    from Cons.IH [OF ns(3) x(2,3) this] e
    show "wp (case x of (refused, s) \<Rightarrow> if refused then Some (Inl FKL_ERR_INCORRECT_TYPE_VALUE)
        else process_all (fklProcessVMnumAdd fp) vs s)
      (\<lambda>r. \<exists>r' bi'. r = Inr (r', d, bi') \<and> bi_own bi' \<and> fix_range (sint r') \<and> \<not> stale_sum (bi_val bi') (sint r')
        \<and> sint r' + bi_val bi' = sint r64 + bi_val bi + sum_list ns)"
      by (auto simp: x(1) ns(1) split: if_splits elim!: wp_mono)
  qed
qed

lemma wp_process_sum:
  assumes "list_all2 int_val vs ns" "add_clean 0 0 ns"
  shows "wp (process_sum fp vs) (\<lambda>r. \<exists>v. r = Inr v \<and> int_val v (sum_list ns))"
proof -
  have "wp (process_all (fklProcessVMnumAdd fp) vs (0, f64_0, FKL_BIGINT_0)) (\<lambda>r. \<exists>r' bi'. r = Inr (r', f64_0, bi')
    \<and> bi_own bi' \<and> fix_range (sint r') \<and> \<not> stale_sum (bi_val bi') (sint r') \<and> sint r' + bi_val bi' = sum_list ns)"
    using wp_process_add [OF assms(1), of FKL_BIGINT_0 0 fp f64_0] assms(2) by (simp add: fix_range_def)
  then show ?thesis unfolding process_sum_def or_raise_def wp_simps
    by (rule wp_mono)
      (auto simp: returned_def intro!: wp_mono [OF wp_AddResult] adds_okI bi_own_wf)
qed

end
