(* ===== verification/VmProdSpec.thy ===== *)
theory VmProdSpec
  imports VmArithSpec
begin

text \<open>Products, quotients and differences: the accumulators and the results.\<close>

section \<open>Products\<close>

text \<open>The factor the big integer accumulator stands for: 1 as long as it is not used.\<close>

definition factor_is :: "FklBigInt \<Rightarrow> int \<Rightarrow> bool" where
  "factor_is bi n \<longleftrightarrow> bi = FKL_BIGINT_0 \<and> n = 1 \<or> bi_own bi \<and> bi_val bi = n \<and> n \<noteq> 0"

lemma default_0 [simp]: "IS_DEFAULT_BIGINT FKL_BIGINT_0"
  by (simp add: IS_DEFAULT_BIGINT_def FKL_BIGINT_0_def)

lemma not_default: "bi_wf b \<Longrightarrow> bi_val b \<noteq> 0 \<Longrightarrow> \<not> IS_DEFAULT_BIGINT b"
  using bi_ok_D [of b] bi_val_0_iff [of b] by (auto simp: IS_DEFAULT_BIGINT_def bi_wf_ok len_def)

lemma InitBigInt1: "wp fklInitBigInt1 (\<lambda>b. bi_own b \<and> bi_val b = 1)"
  by (simp add: fklInitBigInt1_def FKL_BIGINT_0_def zmalloc_def bi_own_def bi_wf_def bi_ok_def used_def len_def
      BASE_def bi_val_def mag_def)

lemma wp_INIT: "factor_is bi n \<Longrightarrow> wp (INIT_DEFAULT_BIGINT_1 bi) (\<lambda>b. bi_own b \<and> bi_val b = n)"
  using InitBigInt1 by (auto simp: factor_is_def INIT_DEFAULT_BIGINT_1_def not_default bi_own_wf)

lemma wp_MulBigIntI:
  assumes "bi_own bi"
  shows "wp (fklMulBigIntI bi v) (\<lambda>r. bi_own r \<and> bi_val r = bi_val bi * sint v)"
proof -
  obtain x where "bigint_of_i64 v = Some x" "bi_wf x" "bi_val x = sint v" by (rule of_i64)
  with wp_fklMulBigInt [OF assms, of x] show ?thesis by (simp add: fklMulBigIntI_def)
qed

lemma is_factor_eq: "factor_is bi n \<Longrightarrow> is_factor bi = Some (n \<noteq> 1)"
  by (auto simp: factor_is_def is_factor_def not_default IS_1_eq bi_own_wf)

lemma sint_mult_fix:
  "fix_range (sint a * sint b) \<Longrightarrow> sint (a * b) = sint a * sint b" for a b :: i64
  by (simp add: sint_word_mult fix_range_def signed_take_bit_int_eq_self)

definition multiplied :: "i64 \<Rightarrow> FklBigInt \<Rightarrow> int \<Rightarrow> int \<Rightarrow> bool \<times> i64 \<times> FklBigInt \<Rightarrow> bool" where
  "multiplied r64 bi n c = (\<lambda>(refused, r', bi'). \<not> refused \<and> fix_range (sint r')
     \<and> (if fix_range c \<and> fix_range (sint r64 * c) then sint r' = sint r64 * c \<and> bi' = bi
        else r' = r64 \<and> factor_is bi' (n * c)))"

lemma wp_ProcessIntMul:
  assumes bi: "factor_is bi n" and r: "fix_range (sint r64)" and v: "int_val v c"
    and ok: "fix_range c \<Longrightarrow> \<not> mul_missed (sint r64) c"
  shows "wp (fklProcessVMintMul v (r64, bi)) (multiplied r64 bi n c)"
  using v
proof (cases rule: int_val_cases)
  case (small p)
  have ov: "fklIsFixMulOverflow r64 (FKL_GET_FIX p) \<longleftrightarrow> \<not> fix_range (sint r64 * c)"
    using fklIsFixMulOverflow_iff [OF r, of "FKL_GET_FIX p"] ok small by auto
  show ?thesis
  proof (cases "fix_range (sint r64 * c)")
    case True
    with small ov sint_mult_fix [of r64 "FKL_GET_FIX p"] show ?thesis
      by (simp add: fklProcessVMintMul_def multiplied_def)
  next
    case False
    then have c: "c \<noteq> 0" by (auto simp: fix_range_def)
    have "wp (fklMulBigIntI x (FKL_GET_FIX p)) (\<lambda>y. factor_is y (n * c))" if "bi_own x \<and> bi_val x = n" for x
      using that bi c small by (intro wp_mono [OF wp_MulBigIntI]) (auto simp: factor_is_def)
    with False small ov r wp_INIT [OF bi] show ?thesis
      by (auto simp: fklProcessVMintMul_def multiplied_def elim!: wp_mono)
  qed
next
  case (large b)
  then have c: "c \<noteq> 0" by (auto simp: fix_range_def)
  have "wp (fklMulBigInt x (fklVMbigIntToBigInt b)) (\<lambda>y. factor_is y (n * c))" if "bi_own x \<and> bi_val x = n" for x
    using that bi c large by (intro wp_mono [OF wp_fklMulBigInt]) (auto simp: factor_is_def)
  with large r wp_INIT [OF bi] show ?thesis
    by (auto simp: fklProcessVMintMul_def multiplied_def elim!: wp_mono)
qed

text \<open>A sequence of factors whose overflows the running product of the fixnums detects.\<close>

fun mul_clean :: "int \<Rightarrow> int list \<Rightarrow> bool" where
  "mul_clean r [] = True"
| "mul_clean r (c # cs) =
     (if fix_range c \<and> fix_range (r * c) then mul_clean (r * c) cs
      else \<not> (fix_range c \<and> mul_missed r c) \<and> mul_clean r cs)"

lemma mul_missed_nonneg [simp]:
  assumes "0 \<le> r" "0 \<le> c"
  shows "\<not> mul_missed r c"
  using mult_nonneg_nonneg [OF assms] by (simp add: mul_missed_def)

lemma mul_missed_range [simp]: "fix_range (r * c) \<Longrightarrow> \<not> mul_missed r c"
  by (simp add: mul_missed_def fix_range_def)

lemma mul_clean_nonneg: "0 \<le> r \<Longrightarrow> \<forall>c\<in>set cs. 0 \<le> c \<Longrightarrow> mul_clean r cs"
  by (induction cs arbitrary: r) auto

lemma mul_clean_1: "mul_clean 1 [c]"
  by simp

definition product_acc :: "i64 \<Rightarrow> FklBigInt \<Rightarrow> int \<Rightarrow> bool" where
  "product_acc r64 bi m \<longleftrightarrow> fix_range (sint r64) \<and> (\<exists>n. factor_is bi n \<and> sint r64 * n = m)"

lemma wp_process_intmul:
  assumes "list_all2 int_val vs ns" "factor_is bi n" "fix_range (sint r64)" "mul_clean (sint r64) ns"
  shows "wp (process_all fklProcessVMintMul vs (r64, bi))
    (\<lambda>r. \<exists>r' bi'. r = Inr (r', bi') \<and> product_acc r' bi' (sint r64 * n * prod_list ns))"
  using assms
proof (induction vs arbitrary: ns r64 bi n)
  case Nil
  then show ?case by (auto simp: product_acc_def)
next
  case (Cons v vs)
  obtain c cs where ns: "ns = c # cs" "int_val v c" "list_all2 int_val vs cs"
    using Cons.prems(1) by (auto simp: list_all2_Cons1)
  have step: "wp (fklProcessVMintMul v (r64, bi)) (multiplied r64 bi n c)"
    using Cons.prems(4) ns(1)
    by (intro wp_ProcessIntMul [OF Cons.prems(2,3) ns(2)]) (auto split: if_splits)
  show ?case
    unfolding process_all.simps wp_simps
  proof (rule wp_mono [OF step])
    fix x assume "multiplied r64 bi n c x"
    then obtain r' bi' where x: "x = (False, r', bi')" "fix_range (sint r')"
      and e: "if fix_range c \<and> fix_range (sint r64 * c) then sint r' = sint r64 * c \<and> bi' = bi
        else r' = r64 \<and> factor_is bi' (n * c)"
      by (cases x) (auto simp: multiplied_def)
    obtain n' where f: "factor_is bi' n'" "sint r' * n' = sint r64 * n * c" "mul_clean (sint r') cs"
      using e Cons.prems(2,4) by (cases "fix_range c \<and> fix_range (sint r64 * c)") (auto simp: ns(1) mult_ac)
    have m: "sint r' * n' * prod_list cs = sint r64 * n * prod_list ns"
      using f(2) by (simp add: ns(1) mult.assoc)
    show "wp (case x of (refused, s) \<Rightarrow> if refused then Some (Inl FKL_ERR_INCORRECT_TYPE_VALUE)
        else process_all fklProcessVMintMul vs s)
      (\<lambda>r. \<exists>r' bi'. r = Inr (r', bi') \<and> product_acc r' bi' (sint r64 * n * prod_list ns))"
      using Cons.IH [OF ns(3) f(1) x(2) f(3)] unfolding m by (simp add: x(1))
  qed
qed

text \<open>On integers the two variants of the step agree.\<close>

lemma num_int_mul:
  "int_val v c \<Longrightarrow> fklProcessVMnumMul fp v (r64, d, bi)
    = do { (refused, r64, bi) \<leftarrow> fklProcessVMintMul v (r64, bi); Some (refused, r64, d, bi) }"
  by (cases rule: int_val_cases) (auto simp: fklProcessVMnumMul_def fklProcessVMintMul_def)

lemma process_num_int_mul:
  "list_all2 int_val vs ns \<Longrightarrow> process_all (fklProcessVMnumMul fp) vs (r64, d, bi)
    = do { r \<leftarrow> process_all fklProcessVMintMul vs (r64, bi);
           Some (case r of Inl e \<Rightarrow> Inl e | Inr (r64, bi) \<Rightarrow> Inr (r64, d, bi)) }"
proof (induction vs arbitrary: ns r64 bi)
  case Nil
  then show ?case by simp
next
  case (Cons v vs)
  then obtain c cs where ns: "int_val v c" "list_all2 int_val vs cs" by (auto simp: list_all2_Cons1)
  show ?case
    by (cases "fklProcessVMintMul v (r64, bi)") (auto simp: num_int_mul [OF ns(1)] Cons.IH [OF ns(2)])
qed

lemma wp_process_nummul:
  assumes "list_all2 int_val vs ns" "factor_is bi n" "fix_range (sint r64)" "mul_clean (sint r64) ns"
  shows "wp (process_all (fklProcessVMnumMul fp) vs (r64, d, bi))
    (\<lambda>r. \<exists>r' bi'. r = Inr (r', d, bi') \<and> product_acc r' bi' (sint r64 * n * prod_list ns))"
  unfolding process_num_int_mul [OF assms(1)] wp_simps
  by (rule wp_mono [OF wp_process_intmul [OF assms]]) auto

lemma factor_0 [simp]: "factor_is FKL_BIGINT_0 1"
  by (simp add: factor_is_def)

lemma wp_MulResult:
  assumes "product_acc r64 bi m"
  shows "wp (fklProcessVMnumMulResult fp (r64, f64_1, bi)) (\<lambda>v. int_val v m)"
proof -
  obtain n where r: "fix_range (sint r64)" and f: "factor_is bi n" and m: "sint r64 * n = m"
    using assms by (auto simp: product_acc_def)
  have one: "(if IS_DEFAULT_BIGINT bi then Some True else FKL_BIGINT_IS_1 bi) = Some (n = 1)"
    using is_factor_eq [OF f] by (auto simp: is_factor_def split: if_splits Option.bind_splits)
  show ?thesis
  proof (cases "n = 1")
    case True
    with r m show ?thesis by (simp add: fklProcessVMnumMulResult_def one)
  next
    case False
    have "wp (do { y \<leftarrow> fklMulBigIntI x r64; bigint_result y }) (\<lambda>v. int_val v m)" if "bi_own x \<and> bi_val x = n" for x
      using that m by (auto simp: mult.commute intro!: wp_mono [OF wp_MulBigIntI] wp_mono [OF wp_bigint_result] bi_own_wf)
    with False wp_INIT [OF f] show ?thesis
      by (auto simp: fklProcessVMnumMulResult_def one elim!: wp_mono)
  qed
qed

lemma wp_process_product:
  assumes "list_all2 int_val vs ns" "mul_clean 1 ns"
  shows "wp (process_product fp vs) (\<lambda>r. \<exists>v. r = Inr v \<and> int_val v (prod_list ns))"
proof -
  have "wp (process_all (fklProcessVMnumMul fp) vs (1, f64_1, FKL_BIGINT_0))
    (\<lambda>r. \<exists>r' bi'. r = Inr (r', f64_1, bi') \<and> product_acc r' bi' (prod_list ns))"
    using wp_process_nummul [OF assms(1) factor_0, of 1 fp f64_1] assms(2) by (simp add: fix_range_def)
  then show ?thesis unfolding process_product_def or_raise_def wp_simps
    by (rule wp_mono) (auto simp: returned_def intro!: wp_mono [OF wp_MulResult])
qed

section \<open>Quotients\<close>

lemma sdiv_sdiv: "(a sdiv b) sdiv c = a sdiv (b * c :: int)"
proof -
  define q where "q = \<bar>a\<bar> div \<bar>b\<bar>"
  have q: "\<bar>a\<bar> div (\<bar>b\<bar> * \<bar>c\<bar>) = q div \<bar>c\<bar>" "0 \<le> q" by (simp_all add: q_def zdiv_zmult2_eq div_int_pos_iff)
  have "sgn q * (q div \<bar>c\<bar>) = q div \<bar>c\<bar>" using q(2) by (cases "q = 0") auto
  then show ?thesis using q
    by (simp add: signed_divide_int_def sgn_mult abs_mult abs_sgn_eq q_def [symmetric])
qed

lemma wp_DivBigInt:
  assumes "bi_own t" "bi_wf b" "bi_val b \<noteq> 0"
  shows "wp (fklDivBigInt t b) (\<lambda>(e, q). bi_own q \<and> bi_val q = bi_val t sdiv bi_val b)"
  using wp_fklDivRemBigInt [OF assms, of NoRem]
  by (auto simp: fklDivBigInt_def divided_def rem_own_def elim!: wp_mono)

lemma wp_DivBigIntI:
  assumes "bi_own t" "d \<noteq> 0"
  shows "wp (fklDivBigIntI t d) (\<lambda>(e, q). bi_own q \<and> bi_val q = bi_val t sdiv sint d)"
  using fklDivBigIntI_truncates [OF assms] by auto

lemma wp_set_from:
  assumes "int_val prev p"
  shows "wp (if FKL_IS_FIX prev then do { i \<leftarrow> get_fix prev; fklSetBigIntI FKL_BIGINT_0 i }
     else do { b \<leftarrow> get_bi prev; fklSetBigIntWithVMbigInt FKL_BIGINT_0 b }) (\<lambda>t. bi_own t \<and> bi_val t = p)"
  using assms
proof (cases rule: int_val_cases)
  case (small q)
  then show ?thesis
    by (auto simp: FKL_BIGINT_0_def bi_room_def bi_own_def intro!: wp_mono [OF wp_fklSetBigIntI])
next
  case (large b)
  then show ?thesis
    by (auto simp: fklSetBigIntWithVMbigInt_def FKL_BIGINT_0_def bi_room_def bi_own_def intro!: wp_mono [OF wp_fklSetBigInt])
qed

lemma wp_bigint_quotient:
  assumes prev: "int_val prev p" and f: "factor_is bi n" and r: "sint r64 \<noteq> 0"
  shows "wp (bigint_quotient prev r64 bi) (\<lambda>v. int_val v (p sdiv (sint r64 * n)))"
proof -
  have r0: "r64 \<noteq> 0" using r by auto
  have last: "wp (fklDivBigIntI t r64 \<bind> (\<lambda>(e, t). bigint_result t)) (\<lambda>v. int_val v (p sdiv (sint r64 * n)))"
    if "bi_own t" "bi_val t = p sdiv n" for t p
    unfolding wp_simps
  proof (rule wp_mono [OF wp_DivBigIntI [OF that(1) r0]])
    fix x assume "case x of (e, q) \<Rightarrow> bi_own q \<and> bi_val q = bi_val t sdiv sint r64"
    then show "wp (case x of (e, t) \<Rightarrow> bigint_result t) (\<lambda>v. int_val v (p sdiv (sint r64 * n)))"
      by (cases x) (auto simp: that(2) sdiv_sdiv mult.commute intro!: wp_mono [OF wp_bigint_result] bi_own_wf)
  qed
  have mid: "wp (if \<not> IS_DEFAULT_BIGINT bi then fklDivBigInt t bi else Some (0, t))
      (\<lambda>(e, t). bi_own t \<and> bi_val t = p sdiv n)" if "bi_own t \<and> bi_val t = p" for t
    using f that by (auto simp: factor_is_def not_default bi_own_wf intro!: wp_mono [OF wp_DivBigInt])
  show ?thesis unfolding bigint_quotient_def Let_def
    by (intro wp_bind [OF wp_set_from [OF prev]] wp_bind [OF mid]) (auto simp del: wp_simps intro!: last)
qed

lemma sdiv_fix:
  assumes "fix_range p" and "\<not> (p = - (2 ^ 60) \<and> m = -1)"
  shows "fix_range (p sdiv m)"
proof (cases "m = -1")
  case True
  with assms show ?thesis by (auto simp: fix_range_def)
next
  case False
  consider "m = 0" | "m = 1" | "2 \<le> \<bar>m\<bar>" using False by linarith
  then show ?thesis
  proof cases
    case 3
    have nn: "0 \<le> \<bar>p\<bar> div \<bar>m\<bar>" by (simp add: div_int_pos_iff)
    have "\<bar>p\<bar> div \<bar>m\<bar> * 2 \<le> \<bar>p\<bar> div \<bar>m\<bar> * \<bar>m\<bar>" using 3 nn by (intro mult_left_mono)
    also have "\<dots> \<le> \<bar>p\<bar>" using div_mult_mod_eq [of "\<bar>p\<bar>" "\<bar>m\<bar>"] pos_mod_sign [of "\<bar>m\<bar>" "\<bar>p\<bar>"] 3 by linarith
    finally have "\<bar>p sdiv m\<bar> * 2 \<le> \<bar>p\<bar>" using nn by (auto simp: signed_divide_int_def abs_mult abs_sgn_eq)
    with assms(1) show ?thesis by (auto simp: fix_range_def)
  qed (use assms in \<open>auto simp: fix_range_def\<close>)
qed

lemma wp_IdivResult:
  assumes prev: "int_val prev p" and acc: "product_acc r64 bi m" and m: "m \<noteq> 0"
    and ov: "\<not> (p = - (2 ^ 60) \<and> m = -1)"
  shows "wp (fklProcessVMnumIdivResult prev r64 bi) (\<lambda>v. int_val v (p sdiv m))"
proof -
  obtain n where r: "fix_range (sint r64)" and f: "factor_is bi n" and rm: "sint r64 * n = m"
    using acc by (auto simp: product_acc_def)
  have r0: "sint r64 \<noteq> 0" using rm m by auto
  have q: "wp (bigint_quotient prev r64 bi) (\<lambda>v. int_val v (p sdiv m))"
    using wp_bigint_quotient [OF prev f r0] rm by simp
  show ?thesis
  proof (cases "FKL_IS_BIGINT prev \<or> n \<noteq> 1")
    case True
    with q show ?thesis by (auto simp: fklProcessVMnumIdivResult_def is_factor_eq [OF f] simp del: int_val_Big)
  next
    case False
    then obtain q where s: "prev = V_Imm q" "FKL_GET_TAG q = FKL_TAG_FIX" "sint (FKL_GET_FIX q) = p" "fix_range p"
      using prev by (auto elim: int_val_cases)
    have "fix_range (p sdiv m)" by (rule sdiv_fix [OF s(4) ov])
    with False s rm r show ?thesis
      by (auto simp: fklProcessVMnumIdivResult_def is_factor_eq [OF f] i64_div_same fix_range_def)
  qed
qed

end
