(* ===== verification/VmCmpSpec.thy ===== *)
theory VmCmpSpec
  imports VmProdSpec
begin

text \<open>
  Comparison of integers, negation, increments and remainders: what the functions compute on
  canonical integers, and where \<open>fklProcessVMnumAddk\<close> fails.
\<close>

section \<open>Comparison\<close>

lemma wp_CmpI:
  assumes "bi_wf a"
  shows "wp (fklBigIntCmpI a v) (\<lambda>r. r = sgn (bi_val a - sint v))"
  unfolding fklBigIntCmpI_def wp_simps
  by (rule wp_mono [OF wp_bigint_of_i64]) (use wp_fklBigIntCmp [OF assms] in force)

lemma sgn_if_int: "(if 0 < x then 1 else if x < 0 then - 1 else 0) = sgn (x :: int)"
  by (simp add: sgn_if)

lemma int_val_kinds:
  assumes "int_val v n"
  shows "\<not> FKL_IS_F64 v" "fklIsVMnumber v" "fklIsVMint v" "FKL_IS_FIX v \<longleftrightarrow> fix_range n" "FKL_IS_BIGINT v \<longleftrightarrow> \<not> fix_range n"
  using assms by (auto elim!: int_val_cases simp: fklIsVMnumber_def fklIsVMint_def)

lemma wp_VMvalueCmp:
  assumes a: "int_val a n" and b: "int_val b m"
  shows "wp (fklVMvalueCmp fp ud a b) (\<lambda>(r, err). \<not> err \<and> sgn r = sgn (n - m))"
proof -
  note kinds = int_val_kinds [OF a] int_val_kinds [OF b]
  show ?thesis using a
  proof (cases rule: int_val_cases)
    case (small p)
    note A = small
    show ?thesis using b
    proof (cases rule: int_val_cases)
      case (small q)
      have "sint (FKL_GET_FIX p - FKL_GET_FIX q) = n - m" using A small by (simp add: sint_diff_fix)
      with A small show ?thesis by (simp add: fklVMvalueCmp_def sgn_if)
    next
      case (large y)
      with A show ?thesis
        by (auto simp: fklVMvalueCmp_def sgn_if intro!: wp_mono [OF wp_CmpI])
    qed
  next
    case (large x)
    note A = large
    show ?thesis using b
    proof (cases rule: int_val_cases)
      case (small q)
      with A show ?thesis by (auto simp: fklVMvalueCmp_def sgn_if intro!: wp_mono [OF wp_CmpI])
    next
      case (large y)
      with A show ?thesis by (auto simp: fklVMvalueCmp_def sgn_if intro!: wp_mono [OF wp_fklBigIntCmp])
    qed
  qed
qed

text \<open>A test of the sign of a comparison decides a relation of the integers.\<close>

definition tests :: "(int \<Rightarrow> bool) \<Rightarrow> (int \<Rightarrow> int \<Rightarrow> bool) \<Rightarrow> bool" where
  "tests test rel \<longleftrightarrow> (\<forall>r n m. sgn r = sgn (n - m) \<longrightarrow> test r = rel n m)"

lemma tests_relations:
  "tests (\<lambda>r. r = 0) (=)" "tests (\<lambda>r. r > 0) (>)" "tests (\<lambda>r. r \<ge> 0) (\<ge>)" "tests (\<lambda>r. r < 0) (<)" "tests (\<lambda>r. r \<le> 0) (\<le>)"
  unfolding tests_def by (auto simp: sgn_if split: if_splits)

lemma wp_cmp_chain:
  assumes "tests test rel" "transp rel" "int_val v n" "list_all2 int_val vs ns"
  shows "wp (cmp_chain test fp ud v vs) (\<lambda>r. r = Inr (sorted_wrt rel (n # ns)))"
  using assms(3,4)
proof (induction vs arbitrary: v n ns)
  case Nil
  then show ?case by simp
next
  case (Cons w ws)
  obtain m ms where ns: "ns = m # ms" "int_val w m" "list_all2 int_val ws ms"
    using Cons.prems(2) by (auto simp: list_all2_Cons1)
  have s: "sorted_wrt rel (n # ns) \<longleftrightarrow> rel n m \<and> sorted_wrt rel (m # ms)"
    unfolding ns(1) using assms(2) by (auto dest: transpD)
  show ?case unfolding cmp_chain.simps wp_simps
  proof (rule wp_mono [OF wp_VMvalueCmp [OF Cons.prems(1) ns(2)]])
    fix x :: "int \<times> bool" assume x: "case x of (r, err) \<Rightarrow> \<not> err \<and> sgn r = sgn (n - m)"
    then have "test (fst x) = rel n m" "\<not> snd x" using assms(1) by (auto simp: tests_def)
    then show "wp (case x of (r, err) \<Rightarrow> if err then Some (Inl FKL_ERR_INCORRECT_TYPE_VALUE)
        else if \<not> test r then Some (Inr False) else cmp_chain test fp ud w ws)
      (\<lambda>r. r = Inr (sorted_wrt rel (n # ns)))"
      using Cons.IH [OF ns(2,3)] unfolding s by (cases x) auto
  qed
qed

lemma builtin_cmp_sorted:
  assumes "tests test rel" "transp rel" "list_all2 int_val vs ns" "vs \<noteq> []"
  shows "builtin_cmp test fp ud vs = Some (Inr (vm_bool (sorted_wrt rel ns)))"
proof -
  obtain v ws n ms where "vs = v # ws" "ns = n # ms" "int_val v n" "list_all2 int_val ws ms"
    using assms(3,4) by (cases vs) (auto simp: list_all2_Cons1)
  with wp_cmp_chain [OF assms(1,2), of v n ws ms fp ud] show ?thesis
    by (auto simp: builtin_cmp_def or_raise_def elim!: wpE)
qed

lemma op_cmp_2:
  assumes "tests test rel" "int_val a n" "int_val b m"
  shows "op_cmp test fp ud 2 (b # a # stk) = Some (Inr (vm_bool (rel n m) # stk))"
  using wp_VMvalueCmp [OF assms(2,3), of fp ud] assms(1)
  by (auto simp: op_cmp_def push_result_def or_raise_def tests_def elim!: wpE)

lemma op_cmp_3:
  assumes "tests test rel" "int_val a n" "int_val b m" "int_val c k"
  shows "op_cmp test fp ud 3 (c # b # a # stk) = Some (Inr (vm_bool (rel n m \<and> rel m k) # stk))"
  using wp_VMvalueCmp [OF assms(2,3), of fp ud] wp_VMvalueCmp [OF assms(3,4), of fp ud] assms(1)
  by (auto simp: op_cmp_def push_result_def or_raise_def tests_def elim!: wpE)

section \<open>Negation\<close>

lemma wp_WithI64:
  assumes "\<not> fix_range (sint i)"
  shows "wp (fklCreateVMvalueBigIntWithI64 i) (\<lambda>b. int_val (V_BigInt b) (sint i))"
proof -
  have "bi_room local_bigint 3"
    by (simp add: bi_room_def local_bigint_def FKL_BIGINT_0_def)
  from wp_fklSetBigIntI [OF this, of i] show ?thesis
    using assms by (auto simp: fklCreateVMvalueBigIntWithI64_def GtLtFix_eq simp del: int_val_Big
        intro!: wp_mono [OF wp_Create2] elim!: wp_mono)
qed

lemma wp_Neg:
  assumes "int_val v n"
  shows "wp (fklProcessVMnumNeg v) (\<lambda>w. int_val w (- n))"
  using assms
proof (cases rule: int_val_cases)
  case (small p)
  have s: "sint (- FKL_GET_FIX p) = - n" using small by (simp add: sint_neg_fix)
  show ?thesis
  proof (cases "fix_range (- n)")
    case False
    then have "sint FKL_FIX_INT_MAX < - n" using small(4) by (auto simp: fix_limits fix_range_def)
    moreover have "wp (fklCreateVMvalueBigIntWithI64 (- FKL_GET_FIX p)) (\<lambda>b. int_val (V_BigInt b) (- n))"
      using wp_WithI64 [of "- FKL_GET_FIX p"] False by (simp add: s)
    ultimately show ?thesis using s small by (simp add: fklProcessVMnumNeg_def del: int_val_Big)
  next
    case True
    then have "\<not> sint FKL_FIX_INT_MAX < - n" by (simp add: fix_limits fix_range_def)
    with True s small show ?thesis by (auto simp: fklProcessVMnumNeg_def)
  qed
next
  case (large b)
  let ?b = "fklVMbigIntToBigInt b"
  have neg: "\<lparr>digits = take (nat (fklAbs (vnum b))) (vdigits b), num = - vnum b, bsize = nat (fklAbs (vnum b)), const_size = True\<rparr>
      = ?b\<lparr>num := - num ?b\<rparr>" by (simp add: fklVMbigIntToBigInt_def over_object_def)
  have "bi_wf (?b\<lparr>num := - num ?b\<rparr>)" "bi_val (?b\<lparr>num := - num ?b\<rparr>) = - n"
    using large by (simp_all add: bi_val_neg_num)
  with large wp_bigint_result [of "?b\<lparr>num := - num ?b\<rparr>"] show ?thesis
    unfolding fklProcessVMnumNeg_def Let_def
    by (simp only: FKL_IS_F64.simps FKL_IS_FIX.simps get_bi.simps if_False Option.bind_lunit neg)
qed

section \<open>Increments\<close>

text \<open>A big integer of fixed size that fills its array cannot take part in a sum.\<close>

lemma ensure_full: "const_size b \<Longrightarrow> bsize b < n \<Longrightarrow> ensure_bigint_size b n = None"
  by (simp add: ensure_bigint_size_def FKL_ASSERT_def)

lemma add_full:
  assumes "const_size a" "bsize a \<le> len a" "2 \<le> len a"
  shows "fklAddBigInt a b = None"
proof -
  have full: "ensure_bigint_size a (n + 1) = None" if "len a \<le> n" for n
    using assms that by (simp add: ensure_full)
  have "x_add a b = None" using full by (simp add: x_add_def Let_def len_nat)
  moreover have "x_sub a b = None" using full by (simp add: x_sub_def x_sub_prepare_def Let_def len_nat)
  moreover have "x_sub2 b a = None" using full by (simp add: x_sub2_def x_sub2_prepare_def Let_def len_nat)
  moreover have "\<not> fklAbs (num a) \<le> 1" using assms by (simp add: len_def fklAbs_eq)
  ultimately show ?thesis by (simp add: fklAddBigInt_def)
qed

lemma large_len:
  assumes "bi_wf a" "\<not> fix_range (bi_val a)"
  shows "2 \<le> len a"
proof (rule ccontr)
  assume "\<not> 2 \<le> len a"
  then have "BASE ^ len a \<le> BASE ^ 1" by (intro power_increasing) (auto simp: BASE_def)
  moreover have "mag a < BASE ^ len a" using assms(1) by (intro mag_less bi_wf_ok)
  ultimately have "mag a < BASE" by simp
  with assms(2) show False by (auto simp: bi_val_def fix_range_def BASE_def sgn_if split: if_splits)
qed

lemma Create3_object:
  assumes "bi_wf bi" "\<not> fix_range (bi_val bi)"
  shows "\<exists>b. fklCreateVMvalueBigInt3 bi (len bi + 1) = Some b \<and> vnum b = num bi \<and> length (vdigits b) = len bi + 1"
proof -
  let ?o = "over_object (fklCreateVMvalueBigInt (len bi)) (len bi + 1) 0"
  have room: "length (digits ?o) = bsize ?o" by (simp add: length_object del: take_all)
  have set: "fklSetBigInt ?o bi = Some (?o\<lparr>num := num bi, digits := used bi @ drop (len bi) (digits ?o)\<rparr>)"
    by (rule SetBigInt_room [OF assms(1) _ room]) simp
  have "wp (fklSetBigInt ?o bi) (\<lambda>r. bi_wf r \<and> bi_val r = bi_val bi)"
    using room by (intro wp_mono [OF wp_fklSetBigInt [OF assms(1)]]) (auto simp: bi_room_def)
  then have t: "fklIsBigIntGtLtFix (?o\<lparr>num := num bi, digits := used bi @ drop (len bi) (digits ?o)\<rparr>) = Some True"
    using assms(2) unfolding set by (simp add: GtLtFix_eq)
  have "length (used bi) = len bi" using bi_ok_D [OF bi_wf_ok [OF assms(1)]] by simp
  then show ?thesis using set t room
    unfolding fklCreateVMvalueBigInt3_def nat_fklAbs len_nat
    by (simp add: Let_def object_digits_def length_object FKL_ASSERT_def del: over_object_simps(3))
qed

lemma AddI_aborts:
  assumes "int_val (V_BigInt b) n"
  shows "fklVMbigIntAddI b v = None"
proof -
  let ?a = "fklVMbigIntToBigInt b"
  have a: "bi_wf ?a" "\<not> fix_range (bi_val ?a)" and l: "len ?a = nat \<bar>vnum b\<bar>" "num ?a = vnum b"
    using assms by (auto simp: fklVMbigIntToBigInt_def len_def)
  obtain b' where b': "fklCreateVMvalueBigIntWithOther2 b (nat \<bar>vnum b\<bar> + 1) = Some b'" "vnum b' = vnum b"
      "length (vdigits b') = len ?a + 1"
    using Create3_object [OF a] unfolding l fklCreateVMvalueBigIntWithOther2_def by auto
  let ?o = "over_object b' (len ?a) 0"
  let ?a1 = "?o\<lparr>num := num ?a, digits := used ?a @ drop (len ?a) (digits ?o)\<rparr>"
  have "fklSetBigIntWithVMbigInt ?o b = Some ?a1"
    unfolding fklSetBigIntWithVMbigInt_def by (rule SetBigInt_room [OF a(1)]) (simp_all add: b'(3))
  moreover have "fklAddBigIntI ?a1 v = None"
  proof -
    obtain x where "bigint_of_i64 v = Some x" by (rule of_i64)
    moreover have "len ?a1 = len ?a" by (simp add: len_def)
    ultimately show ?thesis using large_len [OF a] by (simp add: fklAddBigIntI_def add_full)
  qed
  ultimately show ?thesis using b' by (simp add: fklVMbigIntAddI_def l(1))
qed

text \<open>\<open>fklProcessVMnumAddk\<close> with the constants the compiler and the two procedures use.\<close>

lemma in_range_1:
  assumes "bi_wf a" "\<not> fix_range (bi_val a)"
  shows "fklIsBigIntAddkInFixIntRange a 1 = Some (fix_range (bi_val a + 1))"
    and "fklIsBigIntAddkInFixIntRange a (- 1) = Some (fix_range (bi_val a - 1))"
  using assms by (auto simp: fklIsBigIntAddkInFixIntRange_def fklBigIntEqual_eq fix_constants fix_range_def)

lemma AddkInRange:
  assumes "bi_wf a" "\<not> fix_range (bi_val a)" "k = 1 \<or> k = -1"
  shows "fklIsBigIntAddkInFixIntRange a k = Some (fix_range (bi_val a + sint k))"
  using assms(3) in_range_1 [OF assms(1,2)] by auto

lemma Addk_ints:
  assumes v: "int_val v n" and k: "k = 1 \<or> k = - 1"
  shows "(if fix_range n \<or> fix_range (n + sint k)
     then wp (fklProcessVMnumAddk fp v k) (\<lambda>r. \<exists>w. r = Some w \<and> int_val w (n + sint k))
     else fklProcessVMnumAddk fp v k = None)"
  using v
proof (cases rule: int_val_cases)
  case (small p)
  have s: "sint (FKL_GET_FIX p + scast k) = n + sint k"
    using k small by (auto simp: sint_add_fix sint_diff_fix fix_range_def)
  show ?thesis
  proof (cases "fix_range (n + sint k)")
    case True
    with s small show ?thesis by (auto simp: fklProcessVMnumAddk_def fix_range_limits)
  next
    case False
    then have "sint FKL_FIX_INT_MAX < n + sint k \<or> n + sint k < sint FKL_FIX_INT_MIN" by (auto simp: fix_range_limits)
    with s small wp_WithI64 [of "FKL_GET_FIX p + scast k"] False show ?thesis
      by (auto simp: fklProcessVMnumAddk_def simp del: int_val_Big elim!: wp_mono)
  qed
next
  case (large b)
  let ?a = "fklVMbigIntToBigInt b"
  note r = AddkInRange [OF large(2) _ k, unfolded large(3), OF large(4)]
  show ?thesis
  proof (cases "fix_range (n + sint k)")
    case True
    have "wp (fklBigIntToI ?a) (\<lambda>i. sint i = n)"
      using True large k by (intro wp_mono [OF wp_fklBigIntToI [OF large(2)]]) (auto simp: fix_range_def)
    moreover have "int_val (V_Fix (i + scast k)) (n + sint k)" if "sint i = n" for i :: i64
    proof -
      have "sint (i + scast k) = n + sint k"
        using True k that by (auto simp: sint_word_add fix_range_def signed_take_bit_int_eq_self)
      with True show ?thesis by simp
    qed
    ultimately show ?thesis using True large
      by (auto simp: fklProcessVMnumAddk_def r elim!: wp_mono)
  next
    case False
    with large AddI_aborts [of b n] show ?thesis by (simp add: fklProcessVMnumAddk_def r)
  qed
qed

end
