(* ===== verification/VmModSpec.thy ===== *)
theory VmModSpec
  imports VmCmpSpec
begin

text \<open>Remainders, exact quotients and differences of two operands.\<close>

section \<open>Remainders\<close>

lemma wp_RemBigInt:
  assumes "bi_own t" "bi_wf b" "bi_val b \<noteq> 0"
  shows "wp (fklRemBigInt t b) (\<lambda>(e, q). bi_own q \<and> bi_val q = bi_val t smod bi_val b)"
  using wp_fklDivRemBigInt [OF assms, of RemSame]
  by (auto simp: fklRemBigInt_def divided_def rem_own_def rem_is_def elim!: wp_mono)

lemma wp_RemBigIntI:
  assumes "bi_own t" "d \<noteq> 0"
  shows "wp (fklRemBigIntI t d) (\<lambda>(e, q). bi_own q \<and> bi_val q = bi_val t smod sint d)"
  using fklDivBigIntI_truncates [OF assms] by auto

lemma sint_i64_mod: "fix_range (sint b) \<Longrightarrow> sint b \<noteq> 0 \<Longrightarrow> sint (i64_mod a b) = sint a smod sint b"
  unfolding i64_mod_def using smod_bound [of "sint b" "sint a"]
  by (subst sint_word_of_int_same) (auto simp: fix_range_def)

lemma smod_fix: "fix_range m \<Longrightarrow> m \<noteq> 0 \<Longrightarrow> fix_range (n smod m)"
  using smod_bound [of m n] by (auto simp: fix_range_def)

lemma wp_rem_result:
  assumes "bi_own t" "bi_val t = n"
  shows "wp (do { r \<leftarrow> bigint_result t; Some (Some r) }) (\<lambda>r. \<exists>w. r = Some w \<and> int_val w n)"
  using assms by (auto intro!: wp_mono [OF wp_bigint_result] bi_own_wf)

lemma wp_Mod:
  assumes a: "int_val a n" and b: "int_val b m" and m: "m \<noteq> 0"
  shows "wp (fklProcessVMnumMod fp a b) (\<lambda>r. \<exists>w. r = Some w \<and> int_val w (n smod m))"
proof (cases "fix_range n \<and> fix_range m")
  case True
  then obtain p q where p: "a = V_Imm p" "FKL_GET_TAG p = FKL_TAG_FIX" "sint (FKL_GET_FIX p) = n"
    and q: "b = V_Imm q" "FKL_GET_TAG q = FKL_TAG_FIX" "sint (FKL_GET_FIX q) = m"
    using a b by (auto elim!: int_val_cases)
  have "FKL_GET_FIX q \<noteq> 0" "sint (FKL_GET_FIX q) \<noteq> 0" using q m by auto
  with p q True m show ?thesis by (simp add: fklProcessVMnumMod_def sint_i64_mod smod_fix)
next
  case False
  have set: "wp (if FKL_IS_BIGINT a then do { b \<leftarrow> get_bi a; fklSetBigIntWithVMbigInt FKL_BIGINT_0 b }
      else do { i \<leftarrow> fklVMgetInt a; fklSetBigIntI FKL_BIGINT_0 i }) (\<lambda>t. bi_own t \<and> bi_val t = n)"
    using wp_set_from [OF a] a by (auto elim!: int_val_cases simp: fklVMgetInt_def)
  have rem: "wp (if FKL_IS_BIGINT b then do {
        b \<leftarrow> get_bi b;
        let bi = fklVMbigIntToBigInt b;
        z \<leftarrow> FKL_BIGINT_IS_0 bi;
        if z then Some None else do { (e, rem) \<leftarrow> fklRemBigInt t bi; Some (Some rem) } }
      else do {
        si \<leftarrow> fklVMgetInt b;
        if si = 0 then Some None else do { (e, rem) \<leftarrow> fklRemBigIntI t si; Some (Some rem) } })
      (\<lambda>r. \<exists>t. r = Some t \<and> bi_own t \<and> bi_val t = n smod m)" if "bi_own t \<and> bi_val t = n" for t
    using b
  proof (cases rule: int_val_cases)
    case (small q)
    then have "FKL_GET_FIX q \<noteq> 0" using m by auto
    with small that show ?thesis by (auto simp: fklVMgetInt_def intro!: wp_mono [OF wp_RemBigIntI])
  next
    case (large y)
    with that m show ?thesis by (auto simp: IS_0_eq intro!: wp_mono [OF wp_RemBigInt])
  qed
  have k: "\<not> FKL_IS_F64 a" "\<not> FKL_IS_F64 b" "\<not> (FKL_IS_FIX a \<and> FKL_IS_FIX b)"
    using int_val_kinds [OF a] int_val_kinds [OF b] False by auto
  show ?thesis
    unfolding fklProcessVMnumMod_def Let_def [of FKL_BIGINT_0]
    by (simp only: k simp_thms if_False)
      (rule wp_bind [OF set], rule wp_bind [OF rem], assumption, auto intro!: wp_rem_result simp del: wp_simps)
qed

lemma Mod_0:
  assumes a: "int_val a n" and b: "int_val b 0"
  shows "fklProcessVMnumMod fp a b = Some None"
proof -
  obtain q where q: "b = V_Imm q" "FKL_GET_TAG q = FKL_TAG_FIX" "sint (FKL_GET_FIX q) = 0"
    using b by (cases rule: int_val_cases) (auto simp: fix_range_def)
  then have z: "FKL_GET_FIX q = 0" by (simp add: signed_eq_0_iff)
  have "wp (if FKL_IS_BIGINT a then do { b \<leftarrow> get_bi a; fklSetBigIntWithVMbigInt FKL_BIGINT_0 b }
      else do { i \<leftarrow> fklVMgetInt a; fklSetBigIntI FKL_BIGINT_0 i }) (\<lambda>t. bi_own t \<and> bi_val t = n)"
    using wp_set_from [OF a] a by (auto elim!: int_val_cases simp: fklVMgetInt_def)
  then show ?thesis using int_val_kinds [OF a] q z
    by (auto simp: fklProcessVMnumMod_def fklVMgetInt_def Let_def elim!: wpE split: if_splits)
qed

section \<open>Quotients\<close>

lemma acc_zero: "product_acc r64 bi m \<Longrightarrow> zero_divisor r64 bi \<longleftrightarrow> m = 0"
  by (auto simp: product_acc_def zero_divisor_def factor_is_def not_default bi_own_wf bi_val_0_iff [OF bi_own_wf]
      signed_eq_0_iff)

lemma wp_process_iquotient:
  assumes prev: "int_val a n" and vs: "list_all2 int_val vs ns" and clean: "mul_clean 1 ns"
    and ov: "\<not> (n = - (2 ^ 60) \<and> prod_list ns = -1)"
  shows "wp (process_iquotient a vs) (\<lambda>r. if prod_list ns = 0 then r = Inl FKL_ERR_DIVZEROERROR
    else \<exists>v. r = Inr v \<and> int_val v (n sdiv prod_list ns))"
proof -
  have "wp (process_all fklProcessVMintMul vs (1, FKL_BIGINT_0))
    (\<lambda>r. \<exists>r' bi'. r = Inr (r', bi') \<and> product_acc r' bi' (prod_list ns))"
    using wp_process_intmul [OF vs factor_0, of 1] clean by (simp add: fix_range_def)
  then show ?thesis unfolding process_iquotient_def or_raise_def wp_simps
    by (rule wp_mono) (auto simp: returned_def acc_zero intro!: wp_mono [OF wp_IdivResult [OF prev _ _ ov]])
qed

lemma sdiv_dvd: "m dvd n \<Longrightarrow> n sdiv m = n div m" for n m :: int
  by (cases "m = 0") (auto simp: sdiv_mult_self mult.commute)

lemma wp_IsDivisibleI: "bi_wf a \<Longrightarrow> fklIsDivisibleBigIntI a d = Some (sint d dvd bi_val a)"
  using of_i64 [of d] by (metis fklIsDivisibleBigIntI_def Option.bind_lunit divisible_eq)

text \<open>
  An exact quotient of integers is one, and so is that of a fixnum whenever a factor of the divisor
  is in the big accumulator.
\<close>

lemma wp_DivResult:
  assumes prev: "int_val a n" and acc: "product_acc r64 bi m" and m: "m \<noteq> 0"
    and ov: "\<not> (n = - (2 ^ 60) \<and> m = -1)" and ex: "m dvd n \<or> fix_range n \<and> is_factor bi = Some True"
  shows "wp (fklProcessVMnumDivResult fp a (r64, f64_1, bi)) (\<lambda>v. int_val v (n sdiv m))"
proof -
  obtain k where r: "fix_range (sint r64)" and f: "factor_is bi k" and rm: "sint r64 * k = m"
    using acc by (auto simp: product_acc_def)
  note fe = is_factor_eq [OF f]
  have r0: "sint r64 \<noteq> 0" using rm m by auto
  have dv: "sint r64 dvd m" "k dvd m" using rm by auto
  have "div_inexact a (r64, f64_1, bi) = Some False"
    using prev
  proof (cases rule: int_val_cases)
    case (small p)
    have "sint (i64_mod (FKL_GET_FIX p) r64) = 0" if "k = 1"
      using ex that rm small by (auto simp: sint_i64_mod r r0 fe smod_eq_0)
    with small show ?thesis by (auto simp: div_inexact_def fe signed_eq_0_iff f64_ne_1_def)
  next
    case (large b)
    then have "m dvd n" using ex by auto
    then have "sint r64 dvd n" "k dvd n" using dv by (auto intro: dvd_trans)
    moreover have "k \<noteq> 1 \<Longrightarrow> bi_own bi \<and> bi_val bi = k" using f by (auto simp: factor_is_def)
    ultimately show ?thesis using large
      by (auto simp: div_inexact_def fe f64_ne_1_def wp_IsDivisibleI divisible_eq bi_own_wf)
  qed
  moreover have "wp (fklProcessVMnumIdivResult a r64 bi) (\<lambda>v. int_val v (n sdiv m))"
    by (rule wp_IdivResult [OF prev acc m ov])
  ultimately show ?thesis by (simp add: fklProcessVMnumDivResult_def fklProcessVMnumIdivResult_def)
qed

lemma wp_process_quotient:
  assumes prev: "int_val a n" and vs: "list_all2 int_val vs ns" and clean: "mul_clean 1 ns"
    and ov: "\<not> (n = - (2 ^ 60) \<and> prod_list ns = -1)" and ex: "prod_list ns dvd n \<or> prod_list ns = 0"
  shows "wp (process_quotient fp a vs) (\<lambda>r. if prod_list ns = 0 then r = Inl FKL_ERR_DIVZEROERROR
    else \<exists>v. r = Inr v \<and> int_val v (n div prod_list ns))"
proof -
  have acc: "wp (process_all (fklProcessVMnumMul fp) vs (1, f64_1, FKL_BIGINT_0))
    (\<lambda>r. \<exists>r' bi'. r = Inr (r', f64_1, bi') \<and> product_acc r' bi' (prod_list ns))"
    using wp_process_nummul [OF vs factor_0, of 1 fp f64_1] clean by (simp add: fix_range_def)
  show ?thesis
  proof (cases "prod_list ns = 0")
    case True
    with acc show ?thesis unfolding process_quotient_def or_raise_def wp_simps
      by (auto simp: acc_zero elim!: wp_mono)
  next
    case False
    then have "prod_list ns dvd n" using ex by simp
    then have s: "n sdiv prod_list ns = n div prod_list ns" by (rule sdiv_dvd)
    have "wp (fklProcessVMnumDivResult fp a (r, f64_1, bi)) (\<lambda>v. int_val v (n div prod_list ns))"
      if "product_acc r bi (prod_list ns)" for r bi
      using wp_DivResult [OF prev that False ov, of fp] ex False unfolding s by blast
    with acc False show ?thesis unfolding process_quotient_def or_raise_def wp_simps
      by (auto simp: acc_zero returned_def elim!: wp_mono)
  qed
qed

end
