(* ===== verification/VmFixSpec.thy ===== *)
theory VmFixSpec
  imports VmModSpec
begin

text \<open>The operations on two fixnums, with the operands whose overflow the tests miss.\<close>

section \<open>Sums and products of two fixnums\<close>

lemma fix_immediate:
  assumes "int_val v n" "fix_range n"
  obtains p where "v = V_Imm p" "FKL_GET_TAG p = FKL_TAG_FIX" "sint (FKL_GET_FIX p) = n"
  using assms by (auto elim: int_val_cases)

lemma sum_two_fix:
  assumes a: "int_val a n" "fix_range n" and b: "int_val b m" "fix_range m"
  shows "wp (process_sum fp [a, b]) (\<lambda>r. \<exists>v. r = Inr v
    \<and> int_val v (if n = - (2 ^ 60) \<and> m = - (2 ^ 60) then 0 else n + m))"
proof (cases "n = - (2 ^ 60) \<and> m = - (2 ^ 60)")
  case False
  have "add_clean 0 0 [n, m]"
    using a b False by (auto simp: stale_sum_def fix_range_def)
  with wp_process_sum [of "[a, b]" "[n, m]" fp] a b False show ?thesis by auto
next
  case True
  obtain p where p: "a = V_Imm p" "FKL_GET_TAG p = FKL_TAG_FIX" "sint (FKL_GET_FIX p) = n" using a by (rule fix_immediate)
  obtain q where q: "b = V_Imm q" "FKL_GET_TAG q = FKL_TAG_FIX" "sint (FKL_GET_FIX q) = m" using b by (rule fix_immediate)
  have o1: "\<not> fklIsFixAddOverflow 0 (FKL_GET_FIX p)" and o2: "\<not> fklIsFixAddOverflow (FKL_GET_FIX p) (FKL_GET_FIX q)"
    using p q a b True by (simp_all add: fklIsFixAddOverflow_iff fix_range_def)
  have s: "sint (FKL_GET_FIX p + FKL_GET_FIX q) = - (2 ^ 61)"
    using p q True by (simp add: sint_word_add signed_take_bit_int_eq_self)
  have "int_val (V_Fix (FKL_GET_FIX p + FKL_GET_FIX q)) 0" by (simp add: s wrap_fix_alt)
  with p q o1 o2 True show ?thesis
    by (auto simp: process_sum_def or_raise_def returned_def fklProcessVMnumAdd_def fklProcessVMnumAddResult_def
        f64_ne_0_def f64_0_def IS_0_eq bi_own_wf)
qed

lemma product_two_fix:
  assumes a: "int_val a n" "fix_range n" and b: "int_val b m" "fix_range m"
  shows "wp (process_product fp [a, b]) (\<lambda>r. \<exists>v. r = Inr v
    \<and> int_val v (if mul_missed n m then - (2 ^ 60) else n * m))"
proof (cases "mul_missed n m")
  case False
  have "mul_clean 1 [n, m]" using a b False by auto
  with wp_process_product [of "[a, b]" "[n, m]" fp] a b False show ?thesis by auto
next
  case True
  obtain p where p: "a = V_Imm p" "FKL_GET_TAG p = FKL_TAG_FIX" "sint (FKL_GET_FIX p) = n" using a by (rule fix_immediate)
  obtain q where q: "b = V_Imm q" "FKL_GET_TAG q = FKL_TAG_FIX" "sint (FKL_GET_FIX q) = m" using b by (rule fix_immediate)
  have o1: "\<not> fklIsFixMulOverflow 1 (FKL_GET_FIX p)" and o2: "\<not> fklIsFixMulOverflow (FKL_GET_FIX p) (FKL_GET_FIX q)"
    using p q a b True fklIsFixMulOverflow_iff [of 1 "FKL_GET_FIX p"]
    by (simp_all add: fklIsFixMulOverflow_iff fix_range_def)
  have s: "sint (FKL_GET_FIX p * FKL_GET_FIX q) = - (2 ^ 60)"
    using p q True by (simp add: sint_word_mult mul_missed_def)
  have "int_val (V_Fix (FKL_GET_FIX p * FKL_GET_FIX q)) (- (2 ^ 60))" by (simp add: s wrap_fix_alt)
  with p q o1 o2 True show ?thesis
    by (auto simp: process_product_def or_raise_def returned_def fklProcessVMnumMul_def fklProcessVMnumMulResult_def
        f64_ne_1_def)
qed

section \<open>Differences\<close>

lemma wp_SubBigIntI:
  assumes "bi_own bi" "bi_val bi < 0 \<longleftrightarrow> \<not> sint v < 0"
  shows "wp (fklSubBigIntI bi v) (\<lambda>r. bi_own r \<and> bi_val r = bi_val bi - sint v)"
proof -
  obtain x where x: "bigint_of_i64 v = Some x" "bi_wf x" "bi_val x = sint v" by (rule of_i64)
  have "\<not> sub_faulty bi x" using x assms by (intro not_sub_faulty_opposite) (auto intro: bi_own_wf)
  with wp_sub_spec [OF assms(1) x(2)] x show ?thesis
    by (auto simp: fklSubBigIntI_def elim!: wp_mono)
qed

lemma sub_overflow:
  assumes a: "fix_range (sint a)" and b: "fix_range (sint b)"
  shows "fklIsFixAddOverflow a (- b) \<longleftrightarrow> \<not> fix_range (sint a - sint b) \<and> \<not> (sint a = 0 \<and> sint b = - (2 ^ 60))"
proof (cases "sint b = - (2 ^ 60)")
  case False
  then have "fix_range (sint (- b))" using b by (auto simp: sint_neg_fix fix_range_def)
  with fklIsFixAddOverflow_iff [OF a this] b False show ?thesis by (auto simp: sint_neg_fix fix_range_def)
next
  case True
  have n: "sint (- b) = 2 ^ 60" using True b by (simp add: sint_neg_fix)
  have s: "sint (a + - b) = sint a + 2 ^ 60"
    using a n by (simp add: sint_word_add fix_range_def signed_take_bit_int_eq_self del: add_uminus_conv_diff)
  have w: "sint (Fixu (a + - b)) = wrap_fix (sint a + 2 ^ 60)" by (simp only: sint_Fixu s)
  show ?thesis
  proof (cases "sint a < 0")
    case neg: True
    with a True n show ?thesis
      by (auto simp: fklIsFixAddOverflow_def Let_def fix_range_def signed_take_bit_int_eq_self simp del: add_uminus_conv_diff)
  next
    case False
    have "(sint a + 2 ^ 60 + 2 ^ 60) mod 2 ^ 61 = sint a + 2 ^ 60 + 2 ^ 60 - 2 ^ 61"
      using a False by (intro mod_once) (auto simp: fix_range_def)
    with a False True n show ?thesis
      unfolding fklIsFixAddOverflow_def Let_def w wrap_fix_alt by (auto simp: fix_range_def)
  qed
qed

lemma difference_two_fix:
  assumes a: "int_val a n" "fix_range n" and b: "int_val b m" "fix_range m"
  shows "wp (process_difference fp a [b]) (\<lambda>r. \<exists>v. r = Inr v
    \<and> int_val v (if n = 0 \<and> m = - (2 ^ 60) then - (2 ^ 60) else n - m))"
proof -
  obtain p where p: "a = V_Imm p" "FKL_GET_TAG p = FKL_TAG_FIX" "sint (FKL_GET_FIX p) = n" using a by (rule fix_immediate)
  obtain q where q: "b = V_Imm q" "FKL_GET_TAG q = FKL_TAG_FIX" "sint (FKL_GET_FIX q) = m" using b by (rule fix_immediate)
  have "\<not> fklIsFixAddOverflow 0 (FKL_GET_FIX q)" using q b by (simp add: fklIsFixAddOverflow_iff fix_range_def)
  then have acc: "process_all (fklProcessVMnumAdd fp) [b] (0, f64_0, FKL_BIGINT_0) = Some (Inr (FKL_GET_FIX q, f64_0, FKL_BIGINT_0))"
    using q by (simp add: fklProcessVMnumAdd_def)
  have ov: "fklIsFixAddOverflow (FKL_GET_FIX p) (- FKL_GET_FIX q) \<longleftrightarrow> \<not> fix_range (n - m) \<and> \<not> (n = 0 \<and> m = - (2 ^ 60))"
    using p q a b by (simp add: sub_overflow)
  have s: "sint (FKL_GET_FIX p - FKL_GET_FIX q) = n - m" using p q a b by (simp add: sint_diff_fix)
  have "wp (fklProcessVMnumSubResult fp a (FKL_GET_FIX q, f64_0, FKL_BIGINT_0))
    (\<lambda>v. int_val v (if n = 0 \<and> m = - (2 ^ 60) then - (2 ^ 60) else n - m))"
  proof (cases "fklIsFixAddOverflow (FKL_GET_FIX p) (- FKL_GET_FIX q)")
    case False
    have "wrap_fix (n - m) = (if n = 0 \<and> m = - (2 ^ 60) then - (2 ^ 60) else n - m)"
    proof (cases "n = 0 \<and> m = - (2 ^ 60)")
      case True
      then show ?thesis by (simp add: wrap_fix_alt)
    next
      case clean: False
      then have "fix_range (n - m)" using False ov by blast
      with clean show ?thesis by auto
    qed
    with False p s show ?thesis
      by (simp add: fklProcessVMnumSubResult_def IS_0_eq bi_own_wf f64_ne_0_def f64_0_def)
  next
    case True
    then have big: "\<not> fix_range (n - m)" "\<not> (n = 0 \<and> m = - (2 ^ 60))" using ov by auto
    then have opp: "n < 0 \<longleftrightarrow> \<not> m < 0" using a b by (auto simp: fix_range_def)
    have add: "wp (fklAddBigIntI FKL_BIGINT_0 (FKL_GET_FIX p)) (\<lambda>t. bi_own t \<and> bi_val t = n)"
      using wp_AddBigIntI [OF bi_own_0 adds_ok_small, of "FKL_GET_FIX p"] p by (simp add: bi_own_wf)
    have sub: "wp (fklSubBigIntI t (FKL_GET_FIX q)) (\<lambda>t. bi_own t \<and> bi_val t = n - m)" if "bi_own t \<and> bi_val t = n" for t
      using wp_SubBigIntI [of t "FKL_GET_FIX q"] that opp q by simp
    have res: "wp (do { b \<leftarrow> fklCreateVMvalueBigInt2 t; Some (V_BigInt b) }) (\<lambda>v. int_val v (n - m))"
      if "bi_own t \<and> bi_val t = n - m" for t
      using wp_Create2 [of t] that big by (auto simp: bi_own_wf simp del: int_val_Big elim!: wp_mono)
    have "wp (do { t \<leftarrow> fklAddBigIntI FKL_BIGINT_0 (FKL_GET_FIX p); t \<leftarrow> fklSubBigIntI t (FKL_GET_FIX q);
        b \<leftarrow> fklCreateVMvalueBigInt2 t; Some (V_BigInt b) }) (\<lambda>v. int_val v (n - m))"
      by (rule wp_bind [OF add], rule wp_bind [OF sub], assumption, rule res)
    moreover have "fklProcessVMnumSubResult fp a (FKL_GET_FIX q, f64_0, FKL_BIGINT_0) =
      do { t \<leftarrow> fklAddBigIntI FKL_BIGINT_0 (FKL_GET_FIX p); t \<leftarrow> fklSubBigIntI t (FKL_GET_FIX q);
        b \<leftarrow> fklCreateVMvalueBigInt2 t; Some (V_BigInt b) }"
      using True p by (simp add: fklProcessVMnumSubResult_def IS_0_eq bi_own_wf f64_ne_0_def f64_0_def)
    ultimately show ?thesis unfolding if_not_P [OF big(2)] by simp
  qed
  then show ?thesis unfolding process_difference_def acc or_raise_def
    by (auto simp: returned_def elim!: wp_mono)
qed

section \<open>Quotients\<close>

lemma iquotient_two_fix:
  assumes a: "int_val a n" "fix_range n" and b: "int_val b m" "fix_range m" and m: "m \<noteq> 0"
  shows "wp (process_iquotient a [b]) (\<lambda>r. \<exists>v. r = Inr v
    \<and> int_val v (if n = - (2 ^ 60) \<and> m = -1 then - (2 ^ 60) else n sdiv m))"
proof (cases "n = - (2 ^ 60) \<and> m = -1")
  case False
  with wp_process_iquotient [OF a(1), of "[b]" "[m]"] b m
  have "wp (process_iquotient a [b]) (\<lambda>r. \<exists>v. r = Inr v \<and> int_val v (n sdiv m))" by simp
  with False show ?thesis by (simp only: if_False)
next
  case True
  obtain p where p: "a = V_Imm p" "FKL_GET_TAG p = FKL_TAG_FIX" "sint (FKL_GET_FIX p) = n" using a by (rule fix_immediate)
  obtain q where q: "b = V_Imm q" "FKL_GET_TAG q = FKL_TAG_FIX" "sint (FKL_GET_FIX q) = m" using b by (rule fix_immediate)
  have "\<not> fklIsFixMulOverflow 1 (FKL_GET_FIX q)"
    using q b fklIsFixMulOverflow_iff [of 1 "FKL_GET_FIX q"] by (simp add: fix_range_def)
  moreover have "sint (i64_div (FKL_GET_FIX p) (FKL_GET_FIX q)) = 2 ^ 60"
    using p q True by (simp add: i64_div_same)
  then have "int_val (V_Fix (i64_div (FKL_GET_FIX p) (FKL_GET_FIX q))) (- (2 ^ 60))" by (simp add: wrap_fix_alt)
  moreover have "FKL_GET_FIX q \<noteq> 0" using q m by auto
  ultimately show ?thesis using p q True
    by (auto simp: process_iquotient_def or_raise_def returned_def fklProcessVMintMul_def zero_divisor_def
        fklProcessVMnumIdivResult_def is_factor_def)
qed

text \<open>A fixnum divided by a big integer is truncated where a double is meant.\<close>

lemma quotient_by_bignum:
  assumes a: "int_val a n" "fix_range n" and b: "int_val b m" "\<not> fix_range m"
  shows "wp (process_quotient fp a [b]) (\<lambda>r. \<exists>v. r = Inr v \<and> int_val v (n sdiv m))"
proof -
  obtain y where y: "b = V_BigInt y" "bi_wf (fklVMbigIntToBigInt y)" "bi_val (fklVMbigIntToBigInt y) = m"
    using b by (auto elim: int_val_cases)
  have m: "m \<noteq> 0" "m \<noteq> 1" "\<not> (n = - (2 ^ 60) \<and> m = - 1)" using b(2) by (auto simp: fix_range_def)
  have "wp (do { t \<leftarrow> INIT_DEFAULT_BIGINT_1 FKL_BIGINT_0; fklMulBigInt t (fklVMbigIntToBigInt y) })
    (\<lambda>t. bi_own t \<and> bi_val t = m)"
    unfolding wp_simps using y
    by (intro wp_mono [OF wp_INIT [OF factor_0]] wp_mono [OF wp_fklMulBigInt]) auto
  then have acc: "wp (process_all (fklProcessVMnumMul fp) [b] (1, f64_1, FKL_BIGINT_0))
    (\<lambda>r. \<exists>t. r = Inr (1, f64_1, t) \<and> bi_own t \<and> bi_val t = m)"
    using y by (auto simp: fklProcessVMnumMul_def elim!: wp_mono)
  have res: "wp (fklProcessVMnumDivResult fp a (1, f64_1, t)) (\<lambda>v. int_val v (n sdiv m))"
    and acc': "product_acc 1 t m" if "bi_own t \<and> bi_val t = m" for t
  proof -
    have f: "factor_is t m" using that m by (simp add: factor_is_def)
    then show p: "product_acc 1 t m" by (auto simp: product_acc_def fix_range_def)
    show "wp (fklProcessVMnumDivResult fp a (1, f64_1, t)) (\<lambda>v. int_val v (n sdiv m))"
      using wp_DivResult [OF a(1) p m(1,3)] a(2) is_factor_eq [OF f] m(2) by simp
  qed
  from acc show ?thesis unfolding process_quotient_def or_raise_def wp_simps
    by (rule wp_mono) (use res acc' m in \<open>auto simp: returned_def acc_zero [OF acc'] elim!: wp_mono\<close>)
qed

section \<open>Differences of big integers\<close>

text \<open>
  \<open>|m|\<close> is the larger, and \<open>m\<close> and \<open>n\<close> agree in sign, length and top digit: then
  \<open>x_sub\<close> leaves digits behind.
\<close>

definition stale_diff :: "int \<Rightarrow> int \<Rightarrow> bool" where
  "stale_diff m n \<longleftrightarrow> (m < 0 \<longleftrightarrow> n < 0) \<and> \<bar>n\<bar> < \<bar>m\<bar> \<and> digit_len (nat \<bar>m\<bar>) = digit_len (nat \<bar>n\<bar>)
     \<and> nat \<bar>m\<bar> div BASE ^ (digit_len (nat \<bar>m\<bar>) - 1) = nat \<bar>n\<bar> div BASE ^ (digit_len (nat \<bar>m\<bar>) - 1)"

lemma mag_abs: "bi_wf b \<Longrightarrow> mag b = nat \<bar>bi_val b\<bar>"
  using bi_val_0_iff [of b] by (auto simp: bi_val_def abs_mult)

lemma large_digits:
  assumes "bi_wf t" "\<not> fix_range (bi_val t)"
  shows "len t = digit_len (nat \<bar>bi_val t\<bar>)"
proof -
  have "2 \<le> len t" using assms by (rule large_len)
  then have "num t \<noteq> 0" by (auto simp: len_def)
  with assms(1) have "len t = digit_len (mag t)" by (rule len_digits)
  then show ?thesis unfolding mag_abs [OF assms(1)] .
qed

lemma sub_faulty_stale:
  assumes "bi_wf t" "bi_wf x" "\<not> fix_range (bi_val t)" "\<not> fix_range (bi_val x)"
  shows "sub_faulty t x \<longleftrightarrow> stale_diff (bi_val t) (bi_val x)"
proof -
  have l: "2 \<le> len t" "2 \<le> len x" using large_len assms by blast+
  then have nz: "num t \<noteq> 0" "num x \<noteq> 0" by (auto simp: len_def)
  note d = large_digits [OF assms(1,3)] large_digits [OF assms(2,4)]
  have mags: "mag t = nat \<bar>bi_val t\<bar>" "mag x = nat \<bar>bi_val x\<bar>"
    by (rule mag_abs [OF assms(1)], rule mag_abs [OF assms(2)])
  have signs: "num t < 0 \<longleftrightarrow> bi_val t < 0" "num x < 0 \<longleftrightarrow> bi_val x < 0"
    using bi_val_neg_iff assms by auto
  have lt: "mag x < mag t \<longleftrightarrow> \<bar>bi_val x\<bar> < \<bar>bi_val t\<bar>" unfolding mags by simp
  have last: "last (used t) = last (used x) \<longleftrightarrow> mag t div BASE ^ (len t - 1) = mag x div BASE ^ (len x - 1)"
    using last_digit [OF assms(1) nz(1)] last_digit [OF assms(2) nz(2)] by (metis unsigned_word_eqI)
  have len: "1 < len t" "len t = len x \<longleftrightarrow> digit_len (nat \<bar>bi_val t\<bar>) = digit_len (nat \<bar>bi_val x\<bar>)"
    using l by (simp_all only: d)
  show ?thesis
    unfolding sub_faulty_def sub_stale_def stale_diff_def len(2) last lt signs
    using nz len(1) unfolding d mags by metis
qed

lemma difference_big:
  assumes a: "int_val a n" "\<not> fix_range n" and b: "int_val b m" "\<not> fix_range m"
  shows "wp (process_difference fp a [b]) (\<lambda>r. \<exists>v k. r = Inr v \<and> int_val v k
    \<and> (if stale_diff m n then \<bar>n - m\<bar> + 2 ^ 30 \<le> \<bar>k\<bar> else k = n - m))"
proof -
  obtain x where x: "a = V_BigInt x" "bi_wf (fklVMbigIntToBigInt x)" "bi_val (fklVMbigIntToBigInt x) = n"
    using a by (auto elim: int_val_cases)
  obtain y where y: "b = V_BigInt y" "bi_wf (fklVMbigIntToBigInt y)" "bi_val (fklVMbigIntToBigInt y) = m"
    using b by (auto elim: int_val_cases)
  define good where "good = (\<lambda>k. if stale_diff m n then \<bar>n - m\<bar> + 2 ^ 30 \<le> \<bar>k\<bar> else k = n - m)"
  have add: "wp (fklAddBigInt FKL_BIGINT_0 (fklVMbigIntToBigInt y)) (\<lambda>t. bi_own t \<and> bi_val t = m)"
    using wp_AddBigInt [OF bi_own_0 y(2) adds_ok_small] y by (simp add: bi_own_wf)
  have sub: "wp (fklSubBigInt t (fklVMbigIntToBigInt x)) (\<lambda>t. bi_own t \<and> good (- bi_val t))"
    if "bi_own t \<and> bi_val t = m" for t
  proof -
    have "sub_faulty t (fklVMbigIntToBigInt x) \<longleftrightarrow> stale_diff m n"
      using that x a b by (simp add: sub_faulty_stale bi_own_wf)
    then show ?thesis using that x
      by (intro wp_mono [OF wp_sub_spec [of t "fklVMbigIntToBigInt x"]]) (auto simp: good_def BASE_def abs_minus_commute)
  qed
  have zero: "wp (fklSubBigIntI t 0) (\<lambda>r. bi_own r \<and> bi_val r = bi_val t)" if "bi_own t" for t
  proof -
    obtain z where z: "bigint_of_i64 0 = Some z" "bi_wf z" "bi_val z = 0" using of_i64 [of 0] by auto
    have "\<not> sub_faulty t z" using that z by (intro not_sub_faulty_0) (auto intro: bi_own_wf)
    with wp_sub_spec [OF that z(2)] z show ?thesis by (auto simp: fklSubBigIntI_def elim!: wp_mono)
  qed
  have "wp (do { t \<leftarrow> fklSubBigInt t (fklVMbigIntToBigInt x); t \<leftarrow> fklSubBigIntI (t\<lparr>num := - num t\<rparr>) 0; bigint_result t })
    (\<lambda>v. \<exists>k. int_val v k \<and> good k)" if "bi_own t \<and> bi_val t = m" for t
    unfolding wp_simps using that
    by (intro wp_mono [OF sub] wp_mono [OF zero] wp_mono [OF wp_bigint_result]) (auto simp: bi_val_neg_num intro: bi_own_wf)
  then have "wp (fklProcessVMnumSubResult fp a (0, f64_0, t)) (\<lambda>v. \<exists>k. int_val v k \<and> good k)"
    if "bi_own t \<and> bi_val t = m" for t
    using that x(1) by (simp add: fklProcessVMnumSubResult_def f64_ne_0_def f64_0_def Let_def)
  then have res: "wp (returned (fklProcessVMnumSubResult fp a (0, f64_0, t))) (\<lambda>r. \<exists>v k. r = Inr v \<and> int_val v k \<and> good k)"
    if "bi_own t \<and> bi_val t = m" for t
    using that by (auto simp: returned_def elim!: wp_mono)
  have "wp (process_difference fp a [b]) (\<lambda>r. \<exists>v k. r = Inr v \<and> int_val v k \<and> good k)"
    unfolding process_difference_def or_raise_def y(1) using add
    by (auto simp: fklProcessVMnumAdd_def elim!: wp_mono intro!: wp_mono [OF res])
  then show ?thesis by (simp only: good_def)
qed

end
