(* ===== verification/VmTypeSpec.thy ===== *)
theory VmTypeSpec
  imports VmFixSpec
begin

text \<open>
  The types of the operations: on well-formed values they return, and what they return is a number
  or the error for the operand that is not one.
\<close>

section \<open>Accumulating\<close>

lemma process_all_typed:
  assumes step: "\<And>v s. P v \<Longrightarrow> I s \<Longrightarrow> wp (f v s) (\<lambda>(refused, s'). refused = (\<not> N v) \<and> (N v \<longrightarrow> I s'))"
    and vs: "list_all P vs" and s: "I s"
  shows "wp (process_all f vs s) (\<lambda>r. case r of
      Inl e \<Rightarrow> e = FKL_ERR_INCORRECT_TYPE_VALUE \<and> \<not> list_all N vs
    | Inr s' \<Rightarrow> list_all N vs \<and> I s')"
  using vs s
proof (induction vs arbitrary: s)
  case Nil
  then show ?case by simp
next
  case (Cons v vs)
  from Cons.prems have v: "P v" "list_all P vs" by simp_all
  show ?case unfolding process_all.simps wp_simps
  proof (rule wp_mono [OF step [OF v(1) Cons.prems(2)]])
    fix x assume x: "case x of (refused, s') \<Rightarrow> refused = (\<not> N v) \<and> (N v \<longrightarrow> I s')"
    show "wp (case x of (refused, s) \<Rightarrow> if refused then Some (Inl FKL_ERR_INCORRECT_TYPE_VALUE) else process_all f vs s)
      (\<lambda>r. case r of Inl e \<Rightarrow> e = FKL_ERR_INCORRECT_TYPE_VALUE \<and> \<not> list_all N (v # vs)
        | Inr s' \<Rightarrow> list_all N (v # vs) \<and> I s')"
      using x Cons.IH [OF v(2)] by (cases x) (auto elim!: wp_mono split: sum.splits)
  qed
qed

section \<open>Doubles\<close>

lemma ToD_returns: "bi_ok b \<Longrightarrow> wp (fklBigIntToD fp b) (\<lambda>d. True)"
  unfolding fklBigIntToD_def nat_fklAbs len_nat wp_simps
  by (rule wp_for_up [where I = "\<lambda>i s. True"]) (auto simp: bi_ok_def)

lemma ToD_factor: "factor_is bi n \<Longrightarrow> wp (fklBigIntToD fp bi) (\<lambda>d. True)"
  by (auto simp: factor_is_def intro!: ToD_returns bi_wf_ok bi_own_wf)

lemma number_cases:
  assumes "vm_wf v" "fklIsVMnumber v"
  obtains (int) n where "int_val v n" | (double) d where "v = V_F64 d"
  using assms by (cases v) (auto simp: fklIsVMnumber_def int_val_def)

lemma not_number: "\<not> fklIsVMnumber v \<longleftrightarrow> \<not> FKL_IS_FIX v \<and> \<not> FKL_IS_BIGINT v \<and> \<not> FKL_IS_F64 v"
  by (simp add: fklIsVMnumber_def)

lemma getDouble_returns:
  assumes "vm_wf v" "fklIsVMnumber v"
  shows "wp (fklVMgetDouble fp v) (\<lambda>d. True)"
  using assms
proof (cases rule: number_cases)
  case (int n)
  then show ?thesis
    by (cases rule: int_val_cases) (auto simp: fklVMgetDouble_def intro!: ToD_returns bi_wf_ok)
qed (simp add: fklVMgetDouble_def)

section \<open>Products and quotients\<close>

definition number :: "FklVMvalue \<Rightarrow> bool" where
  "number v \<longleftrightarrow> fklIsVMnumber v \<and> vm_wf v"

lemma int_number [intro]: "int_val v n \<Longrightarrow> number v"
  by (simp add: number_def int_val_kinds) (simp add: int_val_def)

lemma double_number [simp]: "number (V_F64 d)"
  by (simp add: number_def fklIsVMnumber_def)

lemma fixnum_number [simp]: "number (V_Fix i)"
  by (simp add: number_def fklIsVMnumber_def)

lemma factor_ex: "bi_own b \<Longrightarrow> bi_val b \<noteq> 0 \<Longrightarrow> Ex (factor_is b)"
  by (auto simp: factor_is_def)

definition mul_state :: "accs \<Rightarrow> bool" where
  "mul_state = (\<lambda>(r64, d, bi). \<exists>n. factor_is bi n)"

lemma MulI_factor:
  assumes "factor_is bi n" "sint c \<noteq> 0"
  shows "wp (do { bi \<leftarrow> INIT_DEFAULT_BIGINT_1 bi; fklMulBigIntI bi c }) (\<lambda>bi. \<exists>m. factor_is bi m)"
proof -
  have "n \<noteq> 0" using assms by (auto simp: factor_is_def)
  with assms(2) show ?thesis unfolding wp_simps
    by (intro wp_mono [OF wp_INIT [OF assms(1)]] wp_mono [OF wp_MulBigIntI]) (auto intro!: factor_ex)
qed

lemma Mul_factor:
  assumes "factor_is bi n" "bi_wf b" "bi_val b \<noteq> 0"
  shows "wp (do { bi \<leftarrow> INIT_DEFAULT_BIGINT_1 bi; fklMulBigInt bi b }) (\<lambda>bi. \<exists>m. factor_is bi m)"
proof -
  have "n \<noteq> 0" using assms by (auto simp: factor_is_def)
  with assms show ?thesis unfolding wp_simps
    by (intro wp_mono [OF wp_INIT [OF assms(1)]] wp_mono [OF wp_fklMulBigInt]) (auto intro!: factor_ex)
qed

lemma overflow_nonzero: "fklIsFixMulOverflow a b \<Longrightarrow> sint b \<noteq> 0"
  by (auto simp: fklIsFixMulOverflow_def signed_eq_0_iff split: if_splits)

lemma Mul_typed:
  assumes "vm_wf v" "mul_state s"
  shows "wp (fklProcessVMnumMul fp v s) (\<lambda>(refused, s'). refused = (\<not> fklIsVMnumber v) \<and> (fklIsVMnumber v \<longrightarrow> mul_state s'))"
proof -
  obtain r d bi n where s: "s = (r, d, bi)" and f: "factor_is bi n" using assms(2) by (cases s) (auto simp: mul_state_def)
  show ?thesis
  proof (cases "fklIsVMnumber v")
    case False
    then show ?thesis by (auto simp: s fklProcessVMnumMul_def fklIsVMnumber_def)
  next
    case True
    from assms(1) True show ?thesis
    proof (cases rule: number_cases)
      case (double x)
      with f show ?thesis by (auto simp: s fklProcessVMnumMul_def fklIsVMnumber_def mul_state_def)
    next
      case (int m)
      then show ?thesis
      proof (cases rule: int_val_cases)
        case (small p)
        with f True MulI_factor [OF f overflow_nonzero, of r "FKL_GET_FIX p"] show ?thesis
          by (auto simp: s fklProcessVMnumMul_def mul_state_def elim!: wp_mono)
      next
        case (large b)
        then have "bi_val (fklVMbigIntToBigInt b) \<noteq> 0" by (auto simp: fix_range_def)
        with large True Mul_factor [OF f large(2)] show ?thesis
          by (auto simp: s fklProcessVMnumMul_def mul_state_def elim!: wp_mono)
      qed
    qed
  qed
qed

lemma MulResult_typed:
  assumes "mul_state s"
  shows "wp (fklProcessVMnumMulResult fp s) number"
proof -
  obtain r d bi n where s: "s = (r, d, bi)" and f: "factor_is bi n" using assms by (cases s) (auto simp: mul_state_def)
  have one: "(if IS_DEFAULT_BIGINT bi then Some True else FKL_BIGINT_IS_1 bi) = Some (n = 1)"
    using is_factor_eq [OF f] by (auto simp: is_factor_def split: if_splits Option.bind_splits)
  have "wp (do { bi \<leftarrow> INIT_DEFAULT_BIGINT_1 bi; bi \<leftarrow> fklMulBigIntI bi r; bigint_result bi }) number"
    unfolding wp_simps
    by (intro wp_mono [OF wp_INIT [OF f]] wp_mono [OF wp_MulBigIntI] wp_mono [OF wp_bigint_result]) (auto intro: bi_own_wf)
  then show ?thesis using ToD_factor [OF f, of fp]
    by (auto simp: s fklProcessVMnumMulResult_def one elim!: wp_mono)
qed

lemma process_product_typed:
  assumes "list_all vm_wf vs"
  shows "wp (process_product fp vs) (\<lambda>r. case r of
      Inl e \<Rightarrow> e = FKL_ERR_INCORRECT_TYPE_VALUE \<and> \<not> list_all fklIsVMnumber vs
    | Inr w \<Rightarrow> list_all fklIsVMnumber vs \<and> number w)"
  unfolding process_product_def or_raise_def wp_simps
  by (rule wp_mono [OF process_all_typed [where P = vm_wf and I = mul_state, OF Mul_typed assms]])
    (auto simp: mul_state_def returned_def intro!: wp_mono [OF MulResult_typed] factor_0 exI split: sum.splits)

lemma div_inexact_returns:
  assumes "vm_wf v" "fklIsVMnumber v" "factor_is bi n"
  shows "wp (div_inexact v (r64, d, bi)) (\<lambda>x. FKL_IS_F64 v \<longrightarrow> x)"
  using assms(1,2)
proof (cases rule: number_cases)
  case (int m)
  then show ?thesis
  proof (cases rule: int_val_cases)
    case (small p)
    with assms(3) show ?thesis by (simp add: div_inexact_def is_factor_eq)
  next
    case (large b)
    moreover have "n \<noteq> 1 \<Longrightarrow> bi_wf bi" using assms(3) by (auto simp: factor_is_def bi_own_wf)
    ultimately show ?thesis using assms(3)
      by (auto simp: div_inexact_def is_factor_eq wp_IsDivisibleI divisible_eq)
  qed
qed (simp add: div_inexact_def)

lemma DivResult_typed:
  assumes v: "vm_wf v" "fklIsVMnumber v" and f: "factor_is bi n" and r: "sint r64 \<noteq> 0"
  shows "wp (fklProcessVMnumDivResult fp v (r64, d, bi)) number"
proof -
  let ?inexact = "do {
      p \<leftarrow> fklVMgetDouble fp v;
      let q = fdiv fp (fdiv fp p d) (of_i64 fp r64);
      if IS_DEFAULT_BIGINT bi then Some (V_F64 q)
      else do { d \<leftarrow> fklBigIntToD fp bi; Some (V_F64 (fdiv fp q d)) } }"
  let ?exact = "do {
      big \<leftarrow> (if FKL_IS_BIGINT v then Some True else is_factor bi);
      if big then bigint_quotient v r64 bi
      else do { p \<leftarrow> get_fix v; Some (V_Fix (i64_div p r64)) } }"
  have inexact: "wp ?inexact number"
    using getDouble_returns [OF v, of fp] ToD_factor [OF f, of fp] by (auto simp: Let_def elim!: wp_mono)
  have exact: "wp ?exact number" if "\<not> FKL_IS_F64 v"
  proof -
    from v that obtain m where m: "int_val v m" by (auto elim: number_cases)
    have q: "wp (bigint_quotient v r64 bi) number"
      by (rule wp_mono [OF wp_bigint_quotient [OF m f r]]) (rule int_number)
    from m show ?thesis by (cases rule: int_val_cases) (use q in \<open>auto simp: is_factor_eq [OF f]\<close>)
  qed
  show ?thesis unfolding fklProcessVMnumDivResult_def prod.case
    by (rule wp_bind [OF div_inexact_returns [OF v f]]) (use inexact exact in \<open>auto simp del: wp_simps\<close>)
qed

lemma Rec_typed:
  assumes v: "vm_wf v" "fklIsVMnumber v"
  shows "wp (fklProcessVMnumRec fp v) (\<lambda>r. case r of None \<Rightarrow> int_val v 0 | Some w \<Rightarrow> number w)"
  using assms
proof (cases rule: number_cases)
  case (int m)
  then show ?thesis
  proof (cases rule: int_val_cases)
    case (small p)
    then show ?thesis by (auto simp: fklProcessVMnumRec_def)
  next
    case (large b)
    then show ?thesis
      using ToD_returns [OF bi_wf_ok [OF large(2)], of fp]
      by (auto simp: fklProcessVMnumRec_def Let_def IS_1_eq IS_N1_eq elim!: wp_mono)
  qed
qed (simp add: fklProcessVMnumRec_def)

lemma process_quotient_typed:
  assumes v: "vm_wf v" "fklIsVMnumber v" and vs: "list_all vm_wf vs"
  shows "wp (process_quotient fp v vs) (\<lambda>r. case r of
      Inl e \<Rightarrow> (if list_all fklIsVMnumber vs then e = FKL_ERR_DIVZEROERROR else e = FKL_ERR_INCORRECT_TYPE_VALUE)
    | Inr w \<Rightarrow> list_all fklIsVMnumber vs \<and> number w)"
  unfolding process_quotient_def or_raise_def wp_simps
proof (rule wp_mono [OF process_all_typed [where P = vm_wf and I = mul_state, OF Mul_typed vs]])
  show "mul_state (1, f64_1, FKL_BIGINT_0)" unfolding mul_state_def using factor_0 by blast
  fix r :: "FklBuiltinErrorType + accs"
  assume r: "case r of Inl e \<Rightarrow> e = FKL_ERR_INCORRECT_TYPE_VALUE \<and> \<not> list_all fklIsVMnumber vs
    | Inr s \<Rightarrow> list_all fklIsVMnumber vs \<and> mul_state s"
  show "wp (case r of Inl e \<Rightarrow> Some (Inl e)
      | Inr (r64, d, bi) \<Rightarrow> if zero_divisor r64 bi then Some (Inl FKL_ERR_DIVZEROERROR)
          else returned (fklProcessVMnumDivResult fp v (r64, d, bi)))
    (\<lambda>r. case r of
        Inl e \<Rightarrow> (if list_all fklIsVMnumber vs then e = FKL_ERR_DIVZEROERROR else e = FKL_ERR_INCORRECT_TYPE_VALUE)
      | Inr w \<Rightarrow> list_all fklIsVMnumber vs \<and> number w)"
  proof (cases r)
    case (Inl e)
    with r show ?thesis by simp
  next
    case (Inr s)
    with r obtain r64 d bi n where s: "s = (r64, d, bi)" "factor_is bi n" by (cases s) (auto simp: mul_state_def)
    have "wp (fklProcessVMnumDivResult fp v (r64, d, bi)) number" if "\<not> zero_divisor r64 bi"
      using that by (intro DivResult_typed [OF v s(2)]) (auto simp: zero_divisor_def signed_eq_0_iff)
    with Inr r s show ?thesis by (auto simp: returned_def elim!: wp_mono)
  qed
qed

section \<open>Comparison\<close>

lemma Cmp_returns:
  assumes "vm_wf a" "vm_wf b"
  shows "wp (fklVMvalueCmp fp ud a b) (\<lambda>(r, err). fklIsVMnumber a \<and> fklIsVMnumber b \<longrightarrow> \<not> err)"
proof (cases "fklIsVMnumber a \<and> fklIsVMnumber b")
  case True
  show ?thesis
  proof (cases "FKL_IS_F64 a \<or> FKL_IS_F64 b")
    case d: True
    then show ?thesis using True getDouble_returns [OF assms(1), of fp] getDouble_returns [OF assms(2), of fp]
      by (auto simp: fklVMvalueCmp_def elim!: wp_mono)
  next
    case False
    then obtain n m where "int_val a n" "int_val b m" using assms True by (auto elim!: number_cases)
    from wp_VMvalueCmp [OF this] show ?thesis by (rule wp_mono) auto
  qed
next
  case False
  then have "fklVMvalueCmp fp ud a b = Some (cmp_other ud a b)"
    by (auto simp: fklVMvalueCmp_def fklIsVMnumber_def)
  with False show ?thesis by auto
qed

lemma cmp_chain_typed:
  assumes "vm_wf v" "list_all vm_wf vs"
  shows "wp (cmp_chain test fp ud v vs) (\<lambda>r. case r of
      Inl e \<Rightarrow> e = FKL_ERR_INCORRECT_TYPE_VALUE \<and> \<not> list_all fklIsVMnumber (v # vs)
    | Inr _ \<Rightarrow> True)"
  using assms
proof (induction vs arbitrary: v)
  case Nil
  then show ?case by simp
next
  case (Cons w ws)
  from Cons.prems have w: "vm_wf w" "list_all vm_wf ws" by simp_all
  show ?case unfolding cmp_chain.simps wp_simps
  proof (rule wp_mono [OF Cmp_returns [OF Cons.prems(1) w(1)]])
    fix x :: "int \<times> bool" assume x: "case x of (r, err) \<Rightarrow> fklIsVMnumber v \<and> fklIsVMnumber w \<longrightarrow> \<not> err"
    then show "wp (case x of (r, err) \<Rightarrow> if err then Some (Inl FKL_ERR_INCORRECT_TYPE_VALUE)
        else if \<not> test r then Some (Inr False) else cmp_chain test fp ud w ws)
      (\<lambda>r. case r of Inl e \<Rightarrow> e = FKL_ERR_INCORRECT_TYPE_VALUE \<and> \<not> list_all fklIsVMnumber (v # w # ws)
        | Inr _ \<Rightarrow> True)"
      using Cons.IH [OF w] by (cases x) (auto elim!: wp_mono split: sum.splits)
  qed
qed

end
