(* ===== verification/VmProps.thy ===== *)
theory VmProps
  imports VmTypeSpec
begin

text \<open>The properties of the arithmetic of the machine, with the inputs it gets wrong.\<close>

section \<open>Sums and products\<close>

lemma wp_ex: "wp m Q \<Longrightarrow> \<exists>r. m = Some r \<and> Q r"
  by (auto elim: wpE)

lemma wp_Some: "wp m (\<lambda>r. \<exists>v. r = Inr v \<and> P v) \<Longrightarrow> \<exists>v. m = Some (Inr v) \<and> P v"
  by (auto elim: wpE)

lemma int_val_list: "list_all2 int_val vs ns \<longleftrightarrow> length vs = length ns \<and> (\<forall>i<length ns. int_val (vs ! i) (ns ! i))"
  by (auto simp: list_all2_conv_all_nth)

text \<open>A big integer object with its spare digit, and an arithmetic on bit patterns that knows the
  neutral and the absorbing factor, to evaluate examples with.\<close>

definition big_digits :: "int \<Rightarrow> u32 list \<Rightarrow> FklVMvalue" where
  "big_digits n ds = V_BigInt \<lparr>vnum = n, vdigits = ds @ [0]\<rparr>"

definition word_fpu :: fpu where
  "word_fpu = \<lparr>fadd = (+), fsub = (-),
     fmul = (\<lambda>x y. if x = f64_1 then y else if y = f64_1 then x else if y = 0 then 0 else x + y),
     fdiv = (-), c_fmod = (-), of_i64 = (\<lambda>i. if i = 1 then f64_1 else i)\<rparr>"

lemma int_val_big_digits:
  assumes "ds \<noteq> []" "last ds \<noteq> 0" "digits_ok ds" "\<bar>n\<bar> = int (length ds)" "\<not> fix_range (sgn n * int (val ds))"
  shows "int_val (big_digits n ds) (sgn n * int (val ds))"
proof -
  have l: "nat \<bar>n\<bar> = length ds" using assms(4) by simp
  have "length ds \<noteq> 0" using assms(1) by simp
  with assms l show ?thesis
    by (auto simp: big_digits_def fklVMbigIntToBigInt_def over_object_def bi_wf_def bi_ok_def used_def len_def bi_val_def mag_def
        last_conv_nth)
qed

text \<open>
  C3: the sum of integers is exact and canonical. The procedure \<open>+\<close> applied to integers in
  canonical form (fixnums, and normalised big integer objects for what does not fit into one)
  returns the canonical value of their sum, however the operands are spread over the fixnum
  accumulator and the big one and wherever the fixnum accumulator overflows. \<open>add_clean\<close> is what the
  code needs: no two least fixnums meet, and the big accumulator never meets a number of the
  opposite sign with the same number of digits and the same top digit. Operands that are not
  negative always satisfy it.
\<close>

theorem builtin_add_exact:
  assumes "list_all2 int_val vs ns" and "add_clean 0 0 ns \<or> (\<forall>n\<in>set ns. 0 \<le> n)"
  shows "\<exists>v. builtin_add fp vs = Some (Inr v) \<and> int_val v (sum_list ns)"
  unfolding builtin_add_def
  using assms by (intro wp_Some wp_process_sum) (auto simp: add_clean_nonneg)

theorem builtin_add_exact_witness:
  "\<exists>v. builtin_add word_fpu [V_Fix 1152921504606846975, big_digits 3 [7, 0, 5], V_Fix 1] = Some (Inr v)
     \<and> int_val v 6917529027641081863"
proof -
  have "int_val (big_digits 3 [7, 0, 5]) 5764607523034234887"
    using int_val_big_digits [of "[7, 0, 5]" 3] by (simp add: BASE_def fix_range_def)
  then have "list_all2 int_val [V_Fix 1152921504606846975, big_digits 3 [7, 0, 5], V_Fix 1]
      [1152921504606846975, 5764607523034234887, 1]" by (simp add: fix_range_def)
  from builtin_add_exact [OF this] show ?thesis by simp
qed

text \<open>
  C4: the product of integers is exact and canonical. \<open>*\<close> multiplies fixnums in a machine word
  while no overflow is found and moves the rest into a big integer that is created on demand; the
  result is the canonical value of the product, whatever the order of fixnums and big integers.
  \<open>mul_clean\<close> excludes the products whose overflow the test misses, which factors that are not
  negative never are.
\<close>

theorem builtin_mul_exact:
  assumes "list_all2 int_val vs ns" and "mul_clean 1 ns \<or> (\<forall>n\<in>set ns. 0 \<le> n)"
  shows "\<exists>v. builtin_mul fp vs = Some (Inr v) \<and> int_val v (prod_list ns)"
  unfolding builtin_mul_def
  using assms by (intro wp_Some wp_process_product) (auto simp: mul_clean_nonneg)

theorem builtin_mul_exact_witness:
  "\<exists>v. builtin_mul word_fpu [V_Fix 1099511627776, V_Fix (- 1099511627776), V_Fix (- 3)] = Some (Inr v)
     \<and> int_val v 3626777458843887524118528"
proof -
  have "list_all2 int_val [V_Fix 1099511627776, V_Fix (- 1099511627776), V_Fix (- 3)]
      [1099511627776, - 1099511627776, - 3]" by (simp add: fix_range_def)
  moreover have "mul_clean 1 [1099511627776, - 1099511627776, - 3]"
    by (simp add: fix_range_def mul_missed_def signed_take_bit_eq_take_bit_shift take_bit_eq_mod)
  ultimately show ?thesis using builtin_mul_exact [of _ "[1099511627776, - 1099511627776, - 3]" word_fpu] by simp
qed

section \<open>Quotients and remainders\<close>

text \<open>
  C11: integer division. If the test of overflow misses no product of the divisors (\<open>mul_clean\<close>), then for
  integers \<open>//\<close> raises \<open>FKL_ERR_DIVZEROERROR\<close> exactly if a divisor is zero, and otherwise returns the
  canonical value of the dividend divided by the product of the divisors, rounded towards zero; excepted is
  the least fixnum, \<open>-2^60\<close>, divided by -1, where the result wraps around to \<open>-2^60\<close>.
\<close>

theorem builtin_idiv_truncates:
  assumes "int_val a n" and "list_all2 int_val vs ns" and "vs \<noteq> []" and "mul_clean 1 ns"
    and "\<not> (n = - (2 ^ 60) \<and> prod_list ns = -1)"
  shows "if 0 \<in> set ns then builtin_idiv (a # vs) = Some (Inl FKL_ERR_DIVZEROERROR)
    else \<exists>v. builtin_idiv (a # vs) = Some (Inr v) \<and> int_val v (n sdiv prod_list ns)"
proof -
  have "builtin_idiv (a # vs) = process_iquotient a vs"
    using assms(1,3) by (cases vs) (auto simp: builtin_idiv_def int_val_kinds)
  moreover have "prod_list ns = 0 \<longleftrightarrow> 0 \<in> set ns" by (rule prod_list_zero_iff)
  ultimately show ?thesis
    using wp_process_iquotient [OF assms(1,2,4,5)] by (auto elim!: wpE)
qed

theorem builtin_idiv_truncates_witness:
  "\<exists>v. builtin_idiv [big_digits (- 3) [7, 0, 5], V_Fix 1000, V_Fix 10] = Some (Inr v) \<and> int_val v (- 576460752303423)"
proof -
  have "int_val (big_digits (- 3) [7, 0, 5]) (- 5764607523034234887)"
    using int_val_big_digits [of "[7, 0, 5]" "- 3"] by (simp add: BASE_def fix_range_def)
  moreover have "list_all2 int_val [V_Fix 1000, V_Fix 10] [1000, 10]" by (simp add: fix_range_def)
  ultimately show ?thesis
    using builtin_idiv_truncates [of _ "- 5764607523034234887" "[V_Fix 1000, V_Fix 10]" "[1000, 10]"]
    by (simp add: fix_range_def signed_divide_int_def)
qed

text \<open>
  C20: division of two integers other than \<open>-2^60\<close> by -1. If the divisor divides, the quotient is the
  canonical integer, and a zero divisor raises \<open>FKL_ERR_DIVZEROERROR\<close>. But a fixnum divided by a big
  integer is also returned as a truncated integer, 0 or -1, where \<open>/\<close> is meant to return a double.
\<close>

theorem builtin_div_integers:
  assumes "int_val a n" and "int_val b m" and "m dvd n \<or> m = 0 \<or> fix_range n \<and> \<not> fix_range m"
    and "\<not> (n = - (2 ^ 60) \<and> m = -1)"
  shows "if m = 0 then builtin_div fp [a, b] = Some (Inl FKL_ERR_DIVZEROERROR)
    else \<exists>v. builtin_div fp [a, b] = Some (Inr v) \<and> int_val v (n sdiv m)"
proof -
  have eq: "builtin_div fp [a, b] = process_quotient fp a [b]"
    using assms(1) by (auto simp: builtin_div_def int_val_kinds)
  show ?thesis
  proof (cases "m dvd n \<or> m = 0")
    case True
    then have "m \<noteq> 0 \<Longrightarrow> n div m = n sdiv m" by (auto simp: sdiv_dvd)
    moreover have "wp (process_quotient fp a [b]) (\<lambda>r. if m = 0 then r = Inl FKL_ERR_DIVZEROERROR
        else \<exists>v. r = Inr v \<and> int_val v (n div m))"
    proof -
      have one: "prod_list [m] = m" by simp
      show ?thesis
        using wp_process_quotient [OF assms(1) _ mul_clean_1, of "[b]" m fp] True assms(2,4) unfolding one by blast
    qed
    ultimately show ?thesis unfolding eq by (auto elim!: wpE)
  next
    case False
    with assms(3) have "fix_range n" "\<not> fix_range m" "m \<noteq> 0" by auto
    then show ?thesis using wp_Some [OF quotient_by_bignum [OF assms(1) _ assms(2), of fp]]
      unfolding eq by auto
  qed
qed

theorem builtin_div_integers_witness:
  "\<exists>v. builtin_div word_fpu [V_Fix 7, big_digits 3 [7, 0, 5]] = Some (Inr v) \<and> int_val v 0"
proof -
  have "int_val (big_digits 3 [7, 0, 5]) 5764607523034234887"
    using int_val_big_digits [of "[7, 0, 5]" 3] by (simp add: BASE_def fix_range_def)
  moreover have "int_val (V_Fix 7) 7" by (simp add: fix_range_def)
  ultimately show ?thesis
    using builtin_div_integers [of "V_Fix 7" 7 _ 5764607523034234887 word_fpu]
    by (simp add: fix_range_def signed_divide_int_def)
qed

text \<open>
  C19: remainders. \<open>mod\<close> of two integers raises \<open>FKL_ERR_DIVZEROERROR\<close> for a zero divisor and
  otherwise returns the canonical value of the remainder of the truncated division, which has the
  sign of the dividend, for every mix of fixnums and big integers.
\<close>

theorem builtin_mod_integers:
  assumes "int_val a n" and "int_val b m"
  shows "if m = 0 then builtin_mod fp [a, b] = Some (Inl FKL_ERR_DIVZEROERROR)
    else \<exists>v. builtin_mod fp [a, b] = Some (Inr v) \<and> int_val v (n smod m)"
proof -
  have "builtin_mod fp [a, b] = non_null FKL_ERR_DIVZEROERROR (fklProcessVMnumMod fp a b)"
    using assms by (auto simp: builtin_mod_def FKL_CPROC_CHECK_ARG_NUM_def int_val_kinds)
  then show ?thesis
    using Mod_0 [OF assms(1), of b fp] wp_Mod [OF assms, of fp] assms(2) by (auto simp: non_null_def elim!: wpE)
qed

theorem builtin_mod_integers_witness:
  "\<exists>v. builtin_mod word_fpu [big_digits (- 3) [7, 0, 5], V_Fix 1000] = Some (Inr v) \<and> int_val v (- 887)"
proof -
  have "int_val (big_digits (- 3) [7, 0, 5]) (- 5764607523034234887)"
    using int_val_big_digits [of "[7, 0, 5]" "- 3"] by (simp add: BASE_def fix_range_def)
  moreover have "int_val (V_Fix 1000) 1000" by (simp add: fix_range_def)
  ultimately show ?thesis
    using builtin_mod_integers [of _ "- 5764607523034234887" "V_Fix 1000" 1000 word_fpu] by (simp add: signed_modulo_int_def)
qed

section \<open>Fixnums\<close>

text \<open>
  C7: the four operations on two fixnums, exactly. The results are exact and canonical, across the
  border between fixnums and big integers, but for one pair of operands of \<open>+\<close>, \<open>-\<close> and \<open>//\<close> each
  and the products \<open>mul_missed\<close>, whose results are fixnums that have wrapped around.
\<close>

theorem fixnum_operations:
  assumes "int_val a n" and "fix_range n" and "int_val b m" and "fix_range m"
  shows "(\<exists>v. builtin_add fp [a, b] = Some (Inr v)
      \<and> int_val v (if n = - (2 ^ 60) \<and> m = - (2 ^ 60) then 0 else n + m))
    \<and> (\<exists>v. builtin_sub fp [a, b] = Some (Inr v)
      \<and> int_val v (if n = 0 \<and> m = - (2 ^ 60) then - (2 ^ 60) else n - m))
    \<and> (\<exists>v. builtin_mul fp [a, b] = Some (Inr v)
      \<and> int_val v (if mul_missed n m then - (2 ^ 60) else n * m))
    \<and> (m \<noteq> 0 \<longrightarrow> (\<exists>v. builtin_idiv [a, b] = Some (Inr v)
      \<and> int_val v (if n = - (2 ^ 60) \<and> m = -1 then - (2 ^ 60) else n sdiv m)))"
proof -
  have sub: "builtin_sub fp [a, b] = process_difference fp a [b]"
    and idiv: "builtin_idiv [a, b] = process_iquotient a [b]"
    using assms(1) by (simp_all add: builtin_sub_def builtin_idiv_def int_val_kinds)
  show ?thesis unfolding sub idiv builtin_add_def builtin_mul_def
    using wp_Some [OF sum_two_fix [OF assms, of fp]] wp_Some [OF product_two_fix [OF assms, of fp]]
      wp_Some [OF difference_two_fix [OF assms, of fp]] wp_Some [OF iquotient_two_fix [OF assms]]
    by blast
qed

theorem fixnum_operations_witness:
  "(\<exists>v. builtin_add word_fpu [V_Fix (- 1152921504606846976), V_Fix (- 1152921504606846976)] = Some (Inr v) \<and> int_val v 0)
   \<and> (\<exists>v. builtin_mul word_fpu [V_Fix 36507222016, V_Fix (- 536870912)] = Some (Inr v) \<and> int_val v (- 1152921504606846976))"
proof -
  have "int_val (V_Fix (- 1152921504606846976)) (- 1152921504606846976)" by (simp add: fix_range_def)
  moreover have "int_val (V_Fix 36507222016) 36507222016" "int_val (V_Fix (- 536870912)) (- 536870912)"
    by (simp_all add: fix_range_def)
  moreover have "mul_missed 36507222016 (- 536870912)"
    by (simp add: mul_missed_def signed_take_bit_eq_take_bit_shift take_bit_eq_mod)
  ultimately show ?thesis
    using fixnum_operations [of "V_Fix (- 1152921504606846976)" "- 1152921504606846976" "V_Fix (- 1152921504606846976)" "- 1152921504606846976" word_fpu]
      fixnum_operations [of "V_Fix 36507222016" 36507222016 "V_Fix (- 536870912)" "- 536870912" word_fpu]
    by (simp add: fix_range_def)
qed

text \<open>
  C18: increments and negation of integers. \<open>1+\<close>, \<open>-1+\<close> and the instruction \<open>ADDK\<close> are exact as long
  as the operand or the result is a fixnum; for every other big integer an assertion fails, since
  the copy of the operand that is incremented has no room for the digit \<open>x_add\<close> and \<open>x_sub\<close> ask
  for. The negation of an integer is exact.
\<close>

theorem builtin_increments:
  assumes "int_val a n" and "k = 1 \<or> k = - 1"
  shows "(if fix_range n \<or> fix_range (n + sint k)
      then \<exists>v. builtin_addk fp k [a] = Some (Inr v) \<and> op_addk fp k (a # stk) = Some (Inr (v # stk)) \<and> int_val v (n + sint k)
      else builtin_addk fp k [a] = None \<and> op_addk fp k (a # stk) = None)
    \<and> (\<exists>v. builtin_sub fp [a] = Some (Inr v) \<and> int_val v (- n))"
proof -
  have "builtin_sub fp [a] = returned (fklProcessVMnumNeg a)"
    using assms(1) by (simp add: builtin_sub_def int_val_kinds)
  then show ?thesis using Addk_ints [OF assms, of fp] wp_Neg [OF assms(1)]
    by (auto simp: builtin_addk_def op_addk_def FKL_CPROC_CHECK_ARG_NUM_def non_null_def returned_def push_result_def
        or_raise_def elim!: wpE split: if_splits)
qed

theorem builtin_increments_witness:
  "builtin_add_1 word_fpu [big_digits 3 [7, 0, 5]] = None
   \<and> (\<exists>v. builtin_sub_1 word_fpu [V_Fix (- 1152921504606846976)] = Some (Inr v) \<and> int_val v (- 1152921504606846977))"
proof -
  have "int_val (big_digits 3 [7, 0, 5]) 5764607523034234887"
    using int_val_big_digits [of "[7, 0, 5]" 3] by (simp add: BASE_def fix_range_def)
  moreover have "int_val (V_Fix (- 1152921504606846976)) (- 1152921504606846976)" by (simp add: fix_range_def)
  ultimately show ?thesis
    using builtin_increments [of "big_digits 3 [7, 0, 5]" 5764607523034234887 1 word_fpu]
      builtin_increments [of "V_Fix (- 1152921504606846976)" "- 1152921504606846976" "- 1" word_fpu]
    by (auto simp: builtin_add_1_def builtin_sub_1_def fix_range_def)
qed

text \<open>
  C21: the difference of two big integer objects is exact unless the subtrahend has the larger
  magnitude while both agree in sign, number of digits and top digit. Then digits of the subtrahend
  stay in the result, which is off by at least the base of the digits.
\<close>

theorem builtin_sub_big_integers:
  assumes "int_val a n" and "int_val b m" and "\<not> fix_range n" and "\<not> fix_range m"
  shows "\<exists>v k. builtin_sub fp [a, b] = Some (Inr v) \<and> int_val v k
    \<and> (if stale_diff m n then \<bar>n - m\<bar> + 2 ^ 30 \<le> \<bar>k\<bar> else k = n - m)"
proof -
  have eq: "builtin_sub fp [a, b] = process_difference fp a [b]"
    using assms(1) by (simp add: builtin_sub_def int_val_kinds)
  show ?thesis using difference_big [OF assms(1,3,2,4), of fp] unfolding eq by (elim wpE) blast
qed

theorem builtin_sub_big_integers_witness:
  "\<exists>v k. builtin_sub word_fpu [big_digits 3 [7, 0, 5], big_digits 3 [8, 0, 5]] = Some (Inr v) \<and> int_val v k \<and> 2 ^ 30 < \<bar>k\<bar>"
proof -
  have i: "int_val (big_digits 3 [7, 0, 5]) 5764607523034234887" "int_val (big_digits 3 [8, 0, 5]) 5764607523034234888"
    using int_val_big_digits [of "[7, 0, 5]" 3] int_val_big_digits [of "[8, 0, 5]" 3]
    by (simp_all add: BASE_def fix_range_def)
  have "digit_len 5764607523034234887 = 3" "digit_len 5764607523034234888 = 3"
    by (rule digit_len_unique; simp add: BASE_def)+
  then have "stale_diff 5764607523034234888 5764607523034234887" by (simp add: stale_diff_def BASE_def)
  then show ?thesis
    using builtin_sub_big_integers [OF i, of word_fpu] by (force simp: fix_range_def)
qed

section \<open>Comparison\<close>

text \<open>
  C8: the comparison procedures decide the order of integers. Applied to any number of integers,
  \<open>=\<close>, \<open>>\<close>, \<open>>=\<close>, \<open><\<close> and \<open><=\<close> return true exactly if the numbers are sorted by that relation,
  fixnums and big integers compared by value, and so do the instructions, stated for \<open>=\<close>, \<open><\<close> and \<open><=\<close>
  with two operands and for \<open>>\<close> and \<open>>=\<close> with three.
\<close>

theorem builtin_cmp_decides:
  assumes "list_all2 int_val vs ns" and "vs \<noteq> []" and "int_val a i" and "int_val b j" and "int_val c k"
  shows "builtin_eqn fp ud vs = Some (Inr (vm_bool (sorted_wrt (=) ns)))
    \<and> builtin_gt fp ud vs = Some (Inr (vm_bool (sorted_wrt (>) ns)))
    \<and> builtin_ge fp ud vs = Some (Inr (vm_bool (sorted_wrt (\<ge>) ns)))
    \<and> builtin_lt fp ud vs = Some (Inr (vm_bool (sorted_wrt (<) ns)))
    \<and> builtin_le fp ud vs = Some (Inr (vm_bool (sorted_wrt (\<le>) ns)))
    \<and> op_eqn fp ud 2 (b # a # stk) = Some (Inr (vm_bool (i = j) # stk))
    \<and> op_lt fp ud 2 (b # a # stk) = Some (Inr (vm_bool (i < j) # stk))
    \<and> op_le fp ud 2 (b # a # stk) = Some (Inr (vm_bool (i \<le> j) # stk))
    \<and> op_gt fp ud 3 (c # b # a # stk) = Some (Inr (vm_bool (i > j \<and> j > k) # stk))
    \<and> op_ge fp ud 3 (c # b # a # stk) = Some (Inr (vm_bool (i \<ge> j \<and> j \<ge> k) # stk))"
proof -
  have t: "transp ((=) :: int \<Rightarrow> int \<Rightarrow> bool)" "transp ((>) :: int \<Rightarrow> int \<Rightarrow> bool)" "transp ((\<ge>) :: int \<Rightarrow> int \<Rightarrow> bool)"
    "transp ((<) :: int \<Rightarrow> int \<Rightarrow> bool)" "transp ((\<le>) :: int \<Rightarrow> int \<Rightarrow> bool)" by (auto simp: transp_def)
  note sorted = builtin_cmp_sorted [OF _ _ assms(1,2), of _ _ fp ud]
  show ?thesis
    unfolding builtin_eqn_def builtin_gt_def builtin_ge_def builtin_lt_def builtin_le_def
      op_eqn_def op_lt_def op_le_def op_gt_def op_ge_def
    by (intro conjI sorted [OF tests_relations(1) t(1)] sorted [OF tests_relations(2) t(2)]
        sorted [OF tests_relations(3) t(3)] sorted [OF tests_relations(4) t(4)] sorted [OF tests_relations(5) t(5)]
        op_cmp_2 [OF tests_relations(1) assms(3,4)] op_cmp_2 [OF tests_relations(4) assms(3,4)]
        op_cmp_2 [OF tests_relations(5) assms(3,4)] op_cmp_3 [OF tests_relations(2) assms(3-5)]
        op_cmp_3 [OF tests_relations(3) assms(3-5)])
qed

theorem builtin_cmp_decides_witness:
  "builtin_lt word_fpu (\<lambda>_. None) [V_Fix (- 4), V_Fix 3, big_digits 3 [7, 0, 5]] = Some (Inr FKL_VM_TRUE)
   \<and> builtin_gt word_fpu (\<lambda>_. None) [V_Fix (- 4), V_Fix 3, big_digits 3 [7, 0, 5]] = Some (Inr VM_NIL)"
proof -
  have "int_val (big_digits 3 [7, 0, 5]) 5764607523034234887" "int_val (V_Fix 3) 3" "int_val (V_Fix (- 4)) (- 4)"
    using int_val_big_digits [of "[7, 0, 5]" 3] by (simp_all add: BASE_def fix_range_def)
  then show ?thesis
    using builtin_cmp_decides [of "[V_Fix (- 4), V_Fix 3, big_digits 3 [7, 0, 5]]" "[- 4, 3, 5764607523034234887]"
        "V_Fix 3" 3 "V_Fix 3" 3 "V_Fix 3" 3 word_fpu "\<lambda>_. None"]
    by (simp add: vm_bool_def)
qed

section \<open>Types\<close>

lemma builtin_div_typed:
  assumes "list_all vm_wf vs"
  shows "wp (builtin_div fp vs) (\<lambda>r. case r of
        Inl e \<Rightarrow> e = (if vs = [] then FKL_ERR_TOOFEWARG
          else if list_all fklIsVMnumber vs then FKL_ERR_DIVZEROERROR else FKL_ERR_INCORRECT_TYPE_VALUE)
      | Inr w \<Rightarrow> vs \<noteq> [] \<and> list_all fklIsVMnumber vs \<and> number w)"
proof (cases vs)
  case (Cons v ws)
  with assms have wf: "vm_wf v" "list_all vm_wf ws" by simp_all
  consider "\<not> fklIsVMnumber v" | (one) "fklIsVMnumber v" "ws = []" | (more) "fklIsVMnumber v" "ws \<noteq> []" by blast
  then show ?thesis
  proof cases
    case one
    then show ?thesis using Rec_typed [OF wf(1) one(1), of fp]
      by (auto simp: Cons builtin_div_def non_null_def elim!: wp_mono split: option.splits)
  next
    case more
    then show ?thesis using process_quotient_typed [OF wf(1) more(1) wf(2), of fp]
      by (auto simp: Cons builtin_div_def elim!: wp_mono split: sum.splits if_splits)
  qed (simp add: Cons builtin_div_def)
qed (simp add: builtin_div_def)

lemma builtin_cmp_typed:
  assumes "list_all vm_wf vs"
  shows "wp (builtin_cmp test fp ud vs) (\<lambda>r. case r of
        Inl e \<Rightarrow> vs = [] \<and> e = FKL_ERR_TOOFEWARG \<or> e = FKL_ERR_INCORRECT_TYPE_VALUE \<and> \<not> list_all fklIsVMnumber vs
      | Inr w \<Rightarrow> vs \<noteq> [] \<and> (w = FKL_VM_TRUE \<or> w = VM_NIL))"
proof (cases vs)
  case (Cons v ws)
  with assms have wf: "vm_wf v" "list_all vm_wf ws" by simp_all
  show ?thesis
    using cmp_chain_typed [OF wf, of test fp ud]
    by (auto simp: Cons builtin_cmp_def or_raise_def vm_bool_def elim!: wp_mono split: sum.splits)
qed (simp add: builtin_cmp_def)

text \<open>
  C9: the type of the numeric operations. On any well-formed arguments \<open>*\<close>, \<open>/\<close> and the comparison
  procedures return. The first two return a number exactly if every argument is one, but for a
  division by zero, and otherwise raise \<open>FKL_ERR_INCORRECT_TYPE_VALUE\<close>, or \<open>FKL_ERR_TOOFEWARG\<close> for
  no argument at all; a comparison returns true or nil and never fails on numbers.
\<close>

theorem arithmetic_typed:
  assumes "list_all vm_wf vs"
  shows "(\<exists>r. builtin_mul fp vs = Some r \<and> (case r of
        Inl e \<Rightarrow> e = FKL_ERR_INCORRECT_TYPE_VALUE \<and> \<not> list_all fklIsVMnumber vs
      | Inr w \<Rightarrow> list_all fklIsVMnumber vs \<and> number w))
    \<and> (\<exists>r. builtin_div fp vs = Some r \<and> (case r of
        Inl e \<Rightarrow> e = (if vs = [] then FKL_ERR_TOOFEWARG
          else if list_all fklIsVMnumber vs then FKL_ERR_DIVZEROERROR else FKL_ERR_INCORRECT_TYPE_VALUE)
      | Inr w \<Rightarrow> vs \<noteq> [] \<and> list_all fklIsVMnumber vs \<and> number w))
    \<and> (\<exists>r. builtin_cmp test fp ud vs = Some r \<and> (case r of
        Inl e \<Rightarrow> vs = [] \<and> e = FKL_ERR_TOOFEWARG \<or> e = FKL_ERR_INCORRECT_TYPE_VALUE \<and> \<not> list_all fklIsVMnumber vs
      | Inr w \<Rightarrow> vs \<noteq> [] \<and> (w = FKL_VM_TRUE \<or> w = VM_NIL)))"
proof (intro conjI)
  show "\<exists>r. builtin_mul fp vs = Some r \<and> (case r of
        Inl e \<Rightarrow> e = FKL_ERR_INCORRECT_TYPE_VALUE \<and> \<not> list_all fklIsVMnumber vs
      | Inr w \<Rightarrow> list_all fklIsVMnumber vs \<and> number w)"
    using process_product_typed [OF assms, of fp] by (auto simp: builtin_mul_def elim!: wpE)
  show "\<exists>r. builtin_div fp vs = Some r \<and> (case r of
        Inl e \<Rightarrow> e = (if vs = [] then FKL_ERR_TOOFEWARG
          else if list_all fklIsVMnumber vs then FKL_ERR_DIVZEROERROR else FKL_ERR_INCORRECT_TYPE_VALUE)
      | Inr w \<Rightarrow> vs \<noteq> [] \<and> list_all fklIsVMnumber vs \<and> number w)"
    by (rule wp_ex [OF builtin_div_typed [OF assms]])
  show "\<exists>r. builtin_cmp test fp ud vs = Some r \<and> (case r of
        Inl e \<Rightarrow> vs = [] \<and> e = FKL_ERR_TOOFEWARG \<or> e = FKL_ERR_INCORRECT_TYPE_VALUE \<and> \<not> list_all fklIsVMnumber vs
      | Inr w \<Rightarrow> vs \<noteq> [] \<and> (w = FKL_VM_TRUE \<or> w = VM_NIL))"
    by (rule wp_ex [OF builtin_cmp_typed [OF assms]])
qed

theorem arithmetic_typed_witness:
  "\<exists>r. builtin_div word_fpu [big_digits 3 [7, 0, 5], V_F64 0, V_Str [97]] = Some r \<and> r = Inl FKL_ERR_INCORRECT_TYPE_VALUE"
proof -
  have "int_val (big_digits 3 [7, 0, 5]) 5764607523034234887"
    using int_val_big_digits [of "[7, 0, 5]" 3] by (simp add: BASE_def fix_range_def)
  then have "list_all vm_wf [big_digits 3 [7, 0, 5], V_F64 0, V_Str [97]]" by (simp add: int_val_def)
  note typed = conjunct1 [OF conjunct2 [OF arithmetic_typed [OF this, of word_fpu "\<lambda>_. True" "\<lambda>_. None"]]]
  show ?thesis
  proof (rule exE [OF typed], elim conjE)
    fix r
    assume r: "builtin_div word_fpu [big_digits 3 [7, 0, 5], V_F64 0, V_Str [97]] = Some r"
    assume "case r of
        Inl e \<Rightarrow> e = (if [big_digits 3 [7, 0, 5], V_F64 0, V_Str [97]] = [] then FKL_ERR_TOOFEWARG
          else if list_all fklIsVMnumber [big_digits 3 [7, 0, 5], V_F64 0, V_Str [97]] then FKL_ERR_DIVZEROERROR
          else FKL_ERR_INCORRECT_TYPE_VALUE)
      | Inr w \<Rightarrow> [big_digits 3 [7, 0, 5], V_F64 0, V_Str [97]] \<noteq> []
          \<and> list_all fklIsVMnumber [big_digits 3 [7, 0, 5], V_F64 0, V_Str [97]] \<and> number w"
    with r show ?thesis by (cases r) (simp_all add: fklIsVMnumber_def)
  qed
qed

section \<open>Products of doubles\<close>

lemma process_doubles:
  "process_all (fklProcessVMnumMul fp) (map V_F64 ds) (r, d, bi) = Some (Inr (r, foldl (fmul fp) d ds, bi))"
  by (induction ds arbitrary: d) (simp_all add: fklProcessVMnumMul_def)

lemma mul_doubles:
  "builtin_mul fp (map V_F64 ds) = (if f64_ne_1 (foldl (fmul fp) f64_1 ds)
     then Some (Inr (V_F64 (fmul fp (fmul fp (foldl (fmul fp) f64_1 ds) (of_i64 fp 1)) f64_0))) else Some (Inr (V_Fix 1)))"
proof -
  have "fklBigIntToD fp FKL_BIGINT_0 = Some f64_0" by (simp add: fklBigIntToD_def FKL_BIGINT_0_def fklAbs_def)
  then show ?thesis
    by (simp add: builtin_mul_def process_product_def process_doubles or_raise_def returned_def fklProcessVMnumMulResult_def IS_DEFAULT_BIGINT_def FKL_BIGINT_0_def)
qed

text \<open>A double that is neither an infinity nor a NaN.\<close>

definition f64_finite :: "f64 \<Rightarrow> bool" where
  "f64_finite d \<longleftrightarrow> take_bit 11 (drop_bit 52 d) \<noteq> mask 11"

section \<open>Instructions and procedures\<close>

text \<open>
  C17: the instructions the compiler puts in place of calls compute what the procedures do, errors
  included: \<open>ADD\<close>, \<open>SUB\<close>, \<open>MUL\<close>, \<open>DIV\<close>, \<open>MOD\<close>, \<open>IDIV\<close> and the comparisons of two and three
  operands, \<open>DIV\<close> of one and \<open>ADDK\<close>. The exceptions are \<open>SUB\<close> of one operand, which does not check it
  (where the procedure raises \<open>FKL_ERR_INCORRECT_TYPE_VALUE\<close> the instruction reads some other value as a
  big integer), and \<open>ADD\<close> and \<open>MUL\<close> of one operand, which give back a double or a fixnum as it is, where
  the procedures run it through their accumulators: \<open>MUL\<close> of \<open>2.0\<close> is \<open>2.0\<close>, but the procedure multiplies
  it by the unused big accumulator.
\<close>

theorem instructions_are_procedures:
  "op_add fp 2 (b # a # stk) = push_result stk (builtin_add fp [a, b])
   \<and> op_add fp 3 (c # b # a # stk) = push_result stk (builtin_add fp [a, b, c])
   \<and> op_mul fp 2 (b # a # stk) = push_result stk (builtin_mul fp [a, b])
   \<and> op_mul fp 3 (c # b # a # stk) = push_result stk (builtin_mul fp [a, b, c])
   \<and> op_sub fp 1 (a # stk) = (if fklIsVMnumber a then push_result stk (builtin_sub fp [a]) else None)
   \<and> op_sub fp 2 (b # a # stk) = push_result stk (builtin_sub fp [a, b])
   \<and> op_sub fp 3 (c # b # a # stk) = push_result stk (builtin_sub fp [a, b, c])
   \<and> op_div fp 1 (a # stk) = push_result stk (builtin_div fp [a])
   \<and> op_div fp 2 (b # a # stk) = push_result stk (builtin_div fp [a, b])
   \<and> op_div fp 3 (c # b # a # stk) = push_result stk (builtin_div fp [a, b, c])
   \<and> op_div fp (- 2) (b # a # stk) = push_result stk (builtin_mod fp [a, b])
   \<and> op_idiv 2 (b # a # stk) = push_result stk (builtin_idiv [a, b])
   \<and> op_idiv 3 (c # b # a # stk) = push_result stk (builtin_idiv [a, b, c])
   \<and> op_cmp test fp ud 2 (b # a # stk) = push_result stk (builtin_cmp test fp ud [a, b])
   \<and> op_cmp test fp ud 3 (c # b # a # stk) = push_result stk (builtin_cmp test fp ud [a, b, c])
   \<and> op_addk fp k (a # stk) = push_result stk (builtin_addk fp k [a])
   \<and> op_add fp 1 (V_F64 d # stk) = Some (Inr (V_F64 d # stk)) \<and> op_add fp 1 (V_Fix i # stk) = Some (Inr (V_Fix i # stk))
   \<and> op_mul fp 1 (V_F64 d # stk) = Some (Inr (V_F64 d # stk)) \<and> op_mul fp 1 (V_Fix i # stk) = Some (Inr (V_Fix i # stk))
   \<and> (builtin_mul fp [V_F64 d] = (if f64_ne_1 (fmul fp f64_1 d)
        then Some (Inr (V_F64 (fmul fp (fmul fp (fmul fp f64_1 d) (of_i64 fp 1)) f64_0))) else Some (Inr (V_Fix 1))))"
proof -
  have "op_sub fp 1 (a # stk) = (if fklIsVMnumber a then push_result stk (builtin_sub fp [a]) else None)"
    by (cases a) (auto simp: op_sub_def builtin_sub_def fklIsVMnumber_def fklProcessVMnumNeg_def push_result_def or_raise_def
        returned_def)
  moreover have "op_cmp test fp ud 2 (b # a # stk) = push_result stk (builtin_cmp test fp ud [a, b])"
    by (cases "fklVMvalueCmp fp ud a b") (auto simp: op_cmp_def builtin_cmp_def push_result_def or_raise_def)
  moreover have "op_cmp test fp ud 3 (c # b # a # stk) = push_result stk (builtin_cmp test fp ud [a, b, c])"
    by (cases "fklVMvalueCmp fp ud a b"; cases "fklVMvalueCmp fp ud b c")
      (auto simp: op_cmp_def builtin_cmp_def push_result_def or_raise_def)
  moreover have "builtin_mul fp [V_F64 d] = (if f64_ne_1 (fmul fp f64_1 d)
      then Some (Inr (V_F64 (fmul fp (fmul fp (fmul fp f64_1 d) (of_i64 fp 1)) f64_0))) else Some (Inr (V_Fix 1)))"
    using mul_doubles [of fp "[d]"] by simp
  moreover have "op_add fp 1 (V_F64 d # stk) = Some (Inr (V_F64 d # stk))" "op_add fp 1 (V_Fix i # stk) = Some (Inr (V_Fix i # stk))"
    "op_mul fp 1 (V_F64 d # stk) = Some (Inr (V_F64 d # stk))" "op_mul fp 1 (V_Fix i # stk) = Some (Inr (V_Fix i # stk))"
    by (simp_all add: op_add_def op_mul_def same_number_def push_result_def or_raise_def)
  ultimately show ?thesis
    by (simp add: op_add_def op_mul_def builtin_add_def builtin_mul_def op_sub_def op_div_def op_idiv_def op_addk_def builtin_sub_def builtin_div_def builtin_mod_def
        builtin_idiv_def builtin_addk_def FKL_CPROC_CHECK_ARG_NUM_def)
qed

text \<open>
  C40: products of doubles are zero. If the product of any number of doubles is not 1 and is finite, \<open>*\<close>
  returns a zero, because the product is multiplied by the unused big accumulator, which converts to \<open>0.0\<close>;
  if it is 1, the result is the fixnum 1 instead of a double. What the floating point unit has to satisfy
  is that a finite double times \<open>0.0\<close> is a zero.
\<close>

theorem builtin_mul_doubles:
  assumes "\<And>u. f64_finite u \<Longrightarrow> \<not> f64_ne_0 (fmul fp u f64_0)" and "f64_finite (fmul fp (foldl (fmul fp) f64_1 ds) (of_i64 fp 1))"
  shows "if foldl (fmul fp) f64_1 ds = f64_1 then builtin_mul fp (map V_F64 ds) = Some (Inr (V_Fix 1))
    else \<exists>z. builtin_mul fp (map V_F64 ds) = Some (Inr (V_F64 z)) \<and> \<not> f64_ne_0 z"
  using assms mul_doubles [of fp ds] by (simp add: f64_ne_1_def)

theorem builtin_mul_doubles_witness:
  "\<exists>z. builtin_mul word_fpu [V_F64 0x4000000000000000, V_F64 0x4008000000000000] = Some (Inr (V_F64 z)) \<and> \<not> f64_ne_0 z"
proof -
  let ?ds = "[0x4000000000000000, 0x4008000000000000] :: f64 list"
  have p: "foldl (fmul word_fpu) f64_1 ?ds = 0x8008000000000000" by (simp add: word_fpu_def f64_1_def)
  have "\<not> f64_ne_0 (fmul word_fpu u f64_0)" for u by (simp add: word_fpu_def f64_ne_0_def f64_0_def f64_1_def)
  moreover have "f64_finite (fmul word_fpu (foldl (fmul word_fpu) f64_1 ?ds) (of_i64 word_fpu 1))"
    unfolding p by (simp add: word_fpu_def f64_finite_def f64_1_def mask_eq_exp_minus_1)
  ultimately show ?thesis using builtin_mul_doubles [of word_fpu ?ds] unfolding p by (simp add: f64_1_def)
qed

end
