(* ===== verification/Spec2Isabelle.thy ===== *)
theory Spec2Isabelle
  imports BigIntConv BigIntPrint BigIntDivRem LineTable TailCall HashMapProps GcRun VmProps
begin

text \<open>
  A verification library for fakeLisp, a Lisp interpreter written in C. File names are relative to
  the directories src/ and include/fakeLisp/ of the repository.

  \<^bold>\<open>The program.\<close> A reader (grammer.c, parser.c, utils.c for numbers) turns text into values; a
  compiler (code_gen.c, code_lw.c, optimizer.c) turns these into code objects of 32-bit instruction
  words with tables of line numbers (bytecode.c, opcode.c); a virtual machine (vmrun.c, vmdispatch.h,
  vmutils.c, vmvalue.c, builtin.c) runs the code on a stack of values, computes with fixnums, big
  integers (bigint.c) and doubles, and allocates objects that a mark and sweep collector (vmgc.c)
  reclaims. Symbols, grammars and the hash tables of the language rest on one generic hash map
  (cont/hash.h). The library models the layers everything else stands on: numbers, code vectors, the
  hash map, the collector, and the arithmetic of the machine.

  \<^bold>\<open>Conventions.\<close> \<open>Prelude\<close> fixes them. A function that can abort (a failing \<open>FKL_ASSERT\<close>) or
  touch memory outside an array returns an \<open>option\<close>, and \<open>None\<close> is that failure (the assertions are
  modelled as checked, although a release build compiles them out and goes on); an error
  the program raises in a controlled way is a value (\<open>Inl\<close> of an error type). Arrays are lists with
  the checked accesses \<open>rd\<close> and \<open>wr\<close>; integers have their C width, with the wrap-around that
  follows, as the code relies on two's complement; where C leaves the overflow of signed operations
  undefined (\<open>fklIsFixMulOverflow\<close> multiplies before it tests) the model wraps around as well. C loops are recursive functions over their counter
  or over the array; those that follow pointers or may not end are \<open>partial_function (option)\<close>, for
  which not returning is \<open>None\<close> as well, so that what is proved about them includes that they return;
  no definition needs fuel. \<open>wp m Q\<close> states that \<open>m\<close> returns
  a result with \<open>Q\<close>; the rules of \<open>wp\<close> carry most of the proofs about imperative code.

  \<^bold>\<open>Big integers\<close> (bigint.c). \<open>Digits\<close> is the positional arithmetic of arrays of 30-bit
  digits; \<open>BigInt\<close> the record \<open>FklBigInt\<close> (digits, signed length \<open>num\<close>, capacity
  \<open>size\<close>, \<open>const_size\<close>), construction, assignment and comparison; \<open>BigIntAdd\<close>,
  \<open>BigIntMul\<close>, \<open>BigIntBits\<close>, \<open>BigIntDiv\<close>, \<open>BigIntConv\<close>,
  \<open>BigIntParse\<close> and \<open>BigIntPrint\<close> the operations, and \<open>BigIntDivRem\<close> the correctness
  of division. \<open>bi_val\<close> reads a big integer as an integer and \<open>bi_wf\<close> is its invariant. Each
  operation is proved to return, to keep the invariant and to compute the integer operation, with the
  places where it does not: subtraction of operands that agree in length and top digit leaves stale
  digits (\<open>sub_stale\<close>), and reading octal digits in multiples of ten writes before the array. The
  decimal reader and its variant without allocation share the locale \<open>horner\<close>, interpreted as
  \<open>bigint\<close>.

  \<^bold>\<open>Code.\<close> \<open>Opcode\<close> holds the enumeration and the table of opcode.h and opcode.c (with an
  instance of \<open>linorder\<close> for the order of the enumeration), \<open>Instruction\<close> the encoding of
  instructions in one to three words, \<open>ByteCode\<close> the operations of bytecode.c on code vectors with
  line number tables. \<open>LineTable\<close> views a code vector with its table as the list of instructions
  with their places and proves that the operations on run-length encoded tables are list operations
  on this view; \<open>TailCall\<close> gives the calls that \<open>fklScanAndSetTailCall\<close> turns into tail calls,
  and a code vector on which it does not return.

  \<^bold>\<open>Number literals\<close> (ctype.h, utils.c). \<open>CType\<close> and \<open>NumLex\<close> model the character classes
  and the recognisers of literals, and prove the recognisers equivalent to grammars written as
  predicates on lists, with the inputs on which they read behind the end.

  \<^bold>\<open>The hash map\<close> (cont/hash.h). \<open>HashMap\<close> models the nodes on the heap: bucket chains, and a
  doubly linked list in the order of insertion. \<open>HashMapInv\<close> is the invariant, \<open>HashMapOps\<close> and
  \<open>HashMapDel\<close> prove that searching, inserting, removing and rehashing keep it, \<open>HashMapSpec\<close>
  and \<open>HashMapLaws\<close> that every operation is the one on the list of entries (\<open>al_put\<close>,
  \<open>al_del\<close>), and \<open>HashMapProps\<close> the states its operations reach. What a hash function and an
  equality must satisfy is the locale \<open>hash_key\<close>; \<open>dict\<close> is the interface of a dictionary, in
  which the client's lemmas are proved; \<open>hash_store\<close> extends the first and gives the second, and
  is interpreted with the default hash and equality as \<open>default_store\<close>.

  \<^bold>\<open>The garbage collector\<close> (vmgc.c, the \<open>fklAtomicVM*\<close> functions, \<open>fklAddToGC\<close>). \<open>Gc\<close>
  models objects with their mark, their links in the list of all objects and in the gray list, the
  machines with stacks, frames and open variable references, and \<open>fklVMgcCheck\<close> with the world
  stopped. \<open>GcHeap\<close> to \<open>GcFinish\<close> prove the phases: moving the objects of the machines, the
  roots, propagation (what is marked is what can be reached), weak tables, sweeping; \<open>GcCycle\<close>,
  \<open>GcCollect\<close>, \<open>GcProps\<close> and \<open>GcRun\<close> put them together: a collection returns, keeps every
  object that can be reached with its contents and releases all others. \<open>GcRun\<close> puts the collector
  under a program, as the step relation \<open>gc_step\<close>: making an object and pushing it, storing into an
  object the program holds (pairs, vectors, boxes, hash tables, closures, closed variable references, the
  contents of user objects), closing an open reference, any change of the roots to pointers the program
  could hold (pushes, pops, writes to slots, frames, new machines, the fields of the collector) that
  leaves every open reference its slot, and collecting. The instructions themselves are not in it: that
  they are sequences of such steps is not proved. A machine that has finished stays in the list, empty.
  Propagation and the walks over linked lists end because every step blackens an object or moves along a
  finite list. The theorems on sweeping have a hypothesis, \<open>types_kept\<close>: no object dies together with its
  own type, that is, for every user object the type is static, or the type or the object can be reached
  past the frames' lists of closed references. A theorem shows what goes wrong otherwise; the condition
  can fail for the types that modules make at run time. \<open>pinned_types\<close> is a simple condition that implies
  it: every type in use is static or pointed to by the collector itself. Objects may delay their finalizers, which the model has; what the callbacks
  of the modules mark and finalize is a parameter. \<open>fklVMstackShrink\<close> at the end of
  \<open>fklVMgcCheck\<close> only returns unused memory of the stacks and is left out.

  \<^bold>\<open>Arithmetic of the machine\<close> (vmutils.c, vmvalue.c, utils.c, vm.h, builtin.c, vmdispatch.h).
  \<open>Fixnum\<close> models the 61-bit integers in tagged words (for a compiler whose right shift of signed
  integers is arithmetic) and the tests of overflow; \<open>VmNum\<close> the
  values, big integer objects and doubles; \<open>VmArith\<close> the accumulating arithmetic
  (\<open>fklProcessVMnumAdd\<close> and the like) and \<open>VmOps\<close> the procedures and instructions that use it.
  A double is its bit pattern; the operations of the floating point unit are the parameter \<open>fpu\<close>, the
  order of user data the parameter \<open>ud_cmp\<close>. \<open>VmNumSpec\<close> to \<open>VmTypeSpec\<close> prove the building
  blocks and \<open>VmProps\<close> the properties: which operands give the canonical value of the sum, product,
  quotient and remainder, which ones do not (with the exact fixnums whose overflow is missed), the
  errors of bad arguments, and that the instructions compute what the procedures do. \<open>ADDK_LOC\<close>
  works on a variable of a frame; only its arithmetic is here. The loops of the comparison procedures
  also evaluate the slot behind the last argument, without using it; that read is left out.

  \<^bold>\<open>Not modelled.\<close> The conversions between big integers and doubles and printing to a \<open>FILE\<close>
  (they are the C library's). The compiler, the optimiser and the grammar engine: their data are
  syntax trees, scopes and generated parse tables that would need the reader and the macro expander
  first. The other built-in procedures and the modules (byte vectors, hash tables of values, files,
  libuv bindings, the debugger): wrappers of the operations above or of system calls. Threads: the
  collector is modelled with all machines stopped, and what stops them (a thread that waits on their
  queues) is left out. Memory management (zmalloc.c, vmem.c, mem_region.c): allocation is taken to
  succeed. The vendored libraries.
\<close>

end
